(* ===== verification/Rust_Prelude.thy ===== *)
theory Rust_Prelude
  imports Main "HOL-Library.Word" "HOL-Library.Multiset"
begin

unbundle bit_operations_syntax

text \<open>
  The vocabulary shared by all component theories: machine-sized integers (\<open>usize\<close> of a
  64-bit target, as natural numbers with the wrap-around written out), faults (panics, failed
  debug assertions, undefined behaviour) as values, and raw memory as a list of slots that
  are either initialised or not, with the pointer primitives of \<open>core::ptr\<close> on it. Every
  unsafe primitive checks its safety contract and yields \<open>UB\<close> when it is broken, so that a
  theorem "the operation returns \<open>Inr\<close>" is a memory-safety theorem.
\<close>

section \<open>Hints\<close>

named_theorems res_simps \<open>evaluation of the fault monad\<close>
named_theorems mem_simps \<open>reading the result of memory primitives\<close>
named_theorems usize_simps \<open>machine integer bounds\<close>

section \<open>Machine integers\<close>

type_synonym usize = nat

definition usize_max :: usize where
  "usize_max = 2 ^ 64 - 1"

definition isize_max :: usize where
  "isize_max = 2 ^ 63 - 1"

definition wrapping_add :: "usize \<Rightarrow> usize \<Rightarrow> usize" where
  "wrapping_add a b = (a + b) mod 2 ^ 64"

definition wrapping_sub :: "usize \<Rightarrow> usize \<Rightarrow> usize" where
  "wrapping_sub a b = (a + 2 ^ 64 - b) mod 2 ^ 64"

definition checked_add :: "usize \<Rightarrow> usize \<Rightarrow> usize option" where
  "checked_add a b = (if a + b \<le> usize_max then Some (a + b) else None)"

definition checked_mul :: "usize \<Rightarrow> usize \<Rightarrow> usize option" where
  "checked_mul a b = (if a * b \<le> usize_max then Some (a * b) else None)"

definition abs_diff :: "usize \<Rightarrow> usize \<Rightarrow> usize" where
  "abs_diff a b = (if a < b then b - a else a - b)"

definition leading_zeros :: "usize \<Rightarrow> nat" where
  "leading_zeros n = length (takeWhile (\<lambda>i. \<not> bit n i) (rev [0..<64]))"

definition ilog2 :: "usize \<Rightarrow> nat" where
  "ilog2 n = 63 - leading_zeros n"

lemma isize_max_num [usize_simps]: "isize_max = 9223372036854775807"
  by (simp add: isize_max_def)

lemma usize_max_num [usize_simps]: "usize_max = 18446744073709551615"
  by (simp add: usize_max_def)

lemma wrapping_add_small: "a + b \<le> usize_max \<Longrightarrow> wrapping_add a b = a + b"
  by (simp add: wrapping_add_def usize_max_num)

lemma wrapping_sub_ge: "b \<le> a \<Longrightarrow> a \<le> usize_max \<Longrightarrow> wrapping_sub a b = a - b"
  by (simp add: wrapping_sub_def usize_max_num mod_if)

lemma wrapping_sub_less: "a < b \<Longrightarrow> b \<le> usize_max \<Longrightarrow> wrapping_sub a b = a + 2 ^ 64 - b"
  by (simp add: wrapping_sub_def usize_max_num mod_if)

lemma checked_add_Some_iff [simp]:
  "checked_add a b = Some c \<longleftrightarrow> c = a + b \<and> a + b \<le> usize_max"
  by (auto simp: checked_add_def)

lemma checked_mul_Some_iff [simp]:
  "checked_mul a b = Some c \<longleftrightarrow> c = a * b \<and> a * b \<le> usize_max"
  by (auto simp: checked_mul_def)

lemma checked_add_None_iff [simp]: "checked_add a b = None \<longleftrightarrow> usize_max < a + b"
  by (auto simp: checked_add_def)

lemma checked_mul_None_iff [simp]: "checked_mul a b = None \<longleftrightarrow> usize_max < a * b"
  by (auto simp: checked_mul_def)

text \<open>The logarithm is exact.\<close>

lemma bit_nat_le: "bit (n :: nat) k \<Longrightarrow> 2 ^ k \<le> n"
  by (metis bit_iff_odd div_less even_zero not_le)

lemma leading_zeros_bounds:
  assumes "0 < n" "n < 2 ^ 64"
  shows "leading_zeros n \<le> 63" "2 ^ (63 - leading_zeros n) \<le> n" "n < 2 ^ (64 - leading_zeros n)"
proof -
  let ?P = "\<lambda>i. \<not> bit n i" and ?xs = "rev [0..<64]"
  have small: "\<not> bit n i" if "64 \<le> i" for i
  proof
    assume "bit n i"
    then have "2 ^ i \<le> n" by (rule bit_nat_le)
    moreover have "(2 :: nat) ^ 64 \<le> 2 ^ i" by (rule power_increasing) (use that in simp_all)
    ultimately show False using assms(2) by linarith
  qed
  obtain i where i: "bit n i" using assms(1) by (metis bit_eq_iff bit_0_eq bot_apply bot_bool_def less_numeral_extra(3))
  then have "i < 64" using small by (meson not_le)
  then have "takeWhile ?P ?xs \<noteq> ?xs" using i by (metis (no_types, lifting) set_rev set_takeWhileD set_upt atLeastLessThan_iff le0)
  then have less: "leading_zeros n < 64"
    unfolding leading_zeros_def using length_takeWhile_le [of ?P ?xs]
    by (metis diff_zero le_neq_implies_less length_rev length_upt takeWhile_eq_take take_all le_refl)
  then show "leading_zeros n \<le> 63" by simp
  have "?xs ! leading_zeros n = 63 - leading_zeros n" using less by (simp add: rev_nth)
  moreover have "bit n (?xs ! leading_zeros n)"
    using less nth_length_takeWhile [of ?P ?xs] unfolding leading_zeros_def by simp
  ultimately show "2 ^ (63 - leading_zeros n) \<le> n" using bit_nat_le by simp
  have "\<not> bit n j" if "64 - leading_zeros n \<le> j" for j
  proof (cases "j < 64")
    case True
    then have j: "63 - j < leading_zeros n" using that less by simp
    then have "\<not> bit n (takeWhile ?P ?xs ! (63 - j))"
      unfolding leading_zeros_def by (metis nth_mem set_takeWhileD)
    moreover have "takeWhile ?P ?xs ! (63 - j) = ?xs ! (63 - j)"
      using j unfolding leading_zeros_def by (rule takeWhile_nth)
    ultimately show ?thesis using True by (simp add: rev_nth)
  qed (simp add: small)
  then have "take_bit (64 - leading_zeros n) n = n"
    by (intro bit_eqI) (auto simp: bit_take_bit_iff not_le [symmetric])
  then show "n < 2 ^ (64 - leading_zeros n)" by (simp add: take_bit_nat_eq_self_iff)
qed

lemma ilog2_bounds:
  assumes "0 < n" "n < 2 ^ 64"
  shows "2 ^ ilog2 n \<le> n" "n < 2 ^ (ilog2 n + 1)"
proof -
  have e: "64 - leading_zeros n = ilog2 n + 1" "63 - leading_zeros n = ilog2 n"
    using leading_zeros_bounds(1) [OF assms] by (simp_all add: ilog2_def)
  show "2 ^ ilog2 n \<le> n" "n < 2 ^ (ilog2 n + 1)"
    using leading_zeros_bounds(2,3) [OF assms] unfolding e .
qed

section \<open>Faults and the fault monad\<close>

datatype ub = OutOfBounds | Overlapping | Uninitialised | BrokenAssumption

text \<open>\<open>OutOfFuel\<close> is no behaviour of the program: a loop modelled with fuel yields it when the
  fuel is exhausted, and the theorems show that the fuel given is enough.\<close>

datatype fault = Panic string | Abort | DebugAssert | UB ub | OutOfFuel

type_synonym 'a res = "fault + 'a"

definition and_then :: "'e + 'a \<Rightarrow> ('a \<Rightarrow> 'e + 'b) \<Rightarrow> 'e + 'b" where
  "and_then m f = (case m of Inl e \<Rightarrow> Inl e | Inr a \<Rightarrow> f a)"

text \<open>\<open>ensure e b k\<close> is \<open>assert!(b)\<close> with failure \<open>e\<close>, followed by \<open>k\<close>.\<close>

definition ensure :: "'e \<Rightarrow> bool \<Rightarrow> 'e + 'a \<Rightarrow> 'e + 'a" where
  "ensure e b k = (if b then k else Inl e)"

lemma and_then_simps [simp, res_simps]:
  "and_then (Inr a) f = f a" "and_then (Inl e) f = Inl e"
  by (simp_all add: and_then_def)

lemma ensure_simps [simp, res_simps]: "ensure e True k = k" "ensure e False k = Inl e"
  by (simp_all add: ensure_def)

lemma ensure_True: "b \<Longrightarrow> ensure e b k = k"
  by simp

lemma and_then_assoc: "and_then (and_then m f) g = and_then m (\<lambda>x. and_then (f x) g)"
  by (cases m) auto

lemma and_then_Inr_iff: "and_then m f = Inr y \<longleftrightarrow> (\<exists>x. m = Inr x \<and> f x = Inr y)"
  by (cases m) auto

lemma ensure_Inr_iff [simp]: "ensure e b k = Inr y \<longleftrightarrow> b \<and> k = Inr y"
  by (simp add: ensure_def)

lemma and_then_cong [fundef_cong]:
  "m = m' \<Longrightarrow> (\<And>x. m' = Inr x \<Longrightarrow> f x = g x) \<Longrightarrow> and_then m f = and_then m' g"
  by (cases m') auto

lemma ensure_cong [fundef_cong]:
  "e = e' \<Longrightarrow> b = b' \<Longrightarrow> (b' \<Longrightarrow> k = k') \<Longrightarrow> ensure e b k = ensure e' b' k'"
  by (simp add: ensure_def)

text \<open>
  A fallible function of the source returns a \<open>Result\<close> inside the fault monad; \<open>try_then\<close> is
  the \<open>?\<close> operator. \<open>no_ub\<close> says that a computation has no undefined behaviour and breaks no
  debug assertion; it may panic or abort.
\<close>

definition try_then :: "('e + 'a) res \<Rightarrow> ('a \<Rightarrow> ('e + 'b) res) \<Rightarrow> ('e + 'b) res" where
  "try_then m f = and_then m (\<lambda>r. case r of Inl e \<Rightarrow> Inr (Inl e) | Inr x \<Rightarrow> f x)"

definition no_ub :: "'a res \<Rightarrow> bool" where
  "no_ub m \<longleftrightarrow> (case m of
     Inl (UB _) \<Rightarrow> False | Inl DebugAssert \<Rightarrow> False | Inl OutOfFuel \<Rightarrow> False | _ \<Rightarrow> True)"

lemma try_then_simps [simp, res_simps]:
  "try_then (Inr (Inr x)) f = f x" "try_then (Inr (Inl e)) f = Inr (Inl e)"
  "try_then (Inl flt) f = Inl flt"
  by (simp_all add: try_then_def)

lemma no_ub_simps [simp]:
  "no_ub (Inr x)" "no_ub (Inl (Panic s))" "no_ub (Inl Abort)"
  "\<not> no_ub (Inl (UB u))" "\<not> no_ub (Inl DebugAssert)" "\<not> no_ub (Inl OutOfFuel)"
  by (simp_all add: no_ub_def)

lemma no_ub_and_then:
  "no_ub m \<Longrightarrow> (\<And>x. m = Inr x \<Longrightarrow> no_ub (f x)) \<Longrightarrow> no_ub (and_then m f)"
  by (cases m) (auto simp: no_ub_def)

section \<open>Raw memory\<close>

text \<open>A block of memory holding values of one type; \<open>None\<close> is an uninitialised slot.\<close>

type_synonym 'a memory = "'a option list"

text \<open>The effect of moving \<open>n\<close> slots from \<open>src\<close> to \<open>dst\<close>, all bytes being read before any
  is written, as \<open>memmove\<close> does.\<close>

definition move_slots :: "'a list \<Rightarrow> usize \<Rightarrow> usize \<Rightarrow> usize \<Rightarrow> 'a list" where
  "move_slots m src dst n = take dst m @ take n (drop src m) @ drop (dst + n) m"

text \<open>\<open>ptr::read\<close>, \<open>ptr::write\<close>, \<open>ptr::copy\<close>, \<open>ptr::copy_nonoverlapping\<close> within one block,
  and \<open>ptr::copy_nonoverlapping\<close> from another block.\<close>

definition ptr_read :: "'a memory \<Rightarrow> usize \<Rightarrow> 'a res" where
  "ptr_read m i =
     (if i < length m then (case m ! i of None \<Rightarrow> Inl (UB Uninitialised) | Some x \<Rightarrow> Inr x)
      else Inl (UB OutOfBounds))"

definition ptr_write :: "'a memory \<Rightarrow> usize \<Rightarrow> 'a \<Rightarrow> 'a memory res" where
  "ptr_write m i x = (if i < length m then Inr (m[i := Some x]) else Inl (UB OutOfBounds))"

definition ptr_copy :: "'a memory \<Rightarrow> usize \<Rightarrow> usize \<Rightarrow> usize \<Rightarrow> 'a memory res" where
  "ptr_copy m src dst n =
     ensure (UB OutOfBounds) (src + n \<le> length m \<and> dst + n \<le> length m)
       (Inr (move_slots m src dst n))"

definition ptr_copy_nonoverlapping ::
  "'a memory \<Rightarrow> usize \<Rightarrow> usize \<Rightarrow> usize \<Rightarrow> 'a memory res" where
  "ptr_copy_nonoverlapping m src dst n =
     ensure (UB OutOfBounds) (src + n \<le> length m \<and> dst + n \<le> length m)
       (ensure (UB Overlapping) (src + n \<le> dst \<or> dst + n \<le> src)
         (Inr (move_slots m src dst n)))"

definition ptr_copy_from :: "'a memory \<Rightarrow> usize \<Rightarrow> 'a memory \<Rightarrow> 'a memory res" where
  "ptr_copy_from m dst src =
     ensure (UB OutOfBounds) (dst + length src \<le> length m)
       (Inr (take dst m @ src @ drop (dst + length src) m))"

text \<open>\<open>ptr::swap\<close> and the formation of a slice of initialised values.\<close>

definition ptr_swap :: "'a memory \<Rightarrow> usize \<Rightarrow> usize \<Rightarrow> 'a memory res" where
  "ptr_swap m i j =
     and_then (ptr_read m i) (\<lambda>x. and_then (ptr_read m j)
       (\<lambda>y. Inr (m[i := Some y, j := Some x])))"

text \<open>\<open>ptr::replace\<close> and \<open>ptr::swap_nonoverlapping\<close>.\<close>

definition ptr_replace :: "'a memory \<Rightarrow> usize \<Rightarrow> 'a \<Rightarrow> ('a memory \<times> 'a) res" where
  "ptr_replace m i x = and_then (ptr_read m i) (\<lambda>y. Inr (m[i := Some x], y))"

definition ptr_swap_nonoverlapping ::
  "'a memory \<Rightarrow> usize \<Rightarrow> usize \<Rightarrow> usize \<Rightarrow> 'a memory res" where
  "ptr_swap_nonoverlapping m a b n =
     ensure (UB OutOfBounds) (a + n \<le> length m \<and> b + n \<le> length m)
       (ensure (UB Overlapping) (a + n \<le> b \<or> b + n \<le> a)
         (Inr (map (\<lambda>i. if a \<le> i \<and> i < a + n then m ! (b + (i - a))
                        else if b \<le> i \<and> i < b + n then m ! (a + (i - b)) else m ! i)
                [0..<length m])))"

fun assume_init :: "'a memory \<Rightarrow> 'a list res" where
  "assume_init [] = Inr []"
| "assume_init (None # m) = Inl (UB Uninitialised)"
| "assume_init (Some x # m) = and_then (assume_init m) (\<lambda>xs. Inr (x # xs))"

definition slice_at :: "'a memory \<Rightarrow> usize \<Rightarrow> usize \<Rightarrow> 'a list res" where
  "slice_at m start stop =
     ensure (UB OutOfBounds) (start \<le> stop \<and> stop \<le> length m)
       (assume_init (take (stop - start) (drop start m)))"

lemma length_move_slots [simp, mem_simps]:
  "src + n \<le> length m \<Longrightarrow> dst + n \<le> length m \<Longrightarrow> length (move_slots m src dst n) = length m"
  by (simp add: move_slots_def)

lemma nth_move_slots [mem_simps]:
  assumes "src + n \<le> length m" "dst + n \<le> length m" "i < length m"
  shows "move_slots m src dst n ! i =
    (if dst \<le> i \<and> i < dst + n then m ! (src + (i - dst)) else m ! i)"
  using assms by (auto simp: move_slots_def nth_append)

lemma ptr_read_Some [simp]: "i < length m \<Longrightarrow> m ! i = Some x \<Longrightarrow> ptr_read m i = Inr x"
  by (simp add: ptr_read_def)

lemma ptr_read_Inr_iff: "ptr_read m i = Inr x \<longleftrightarrow> i < length m \<and> m ! i = Some x"
  by (auto simp: ptr_read_def split: option.splits)

lemma ptr_write_Inr [simp]: "i < length m \<Longrightarrow> ptr_write m i x = Inr (m[i := Some x])"
  by (simp add: ptr_write_def)

lemma ptr_copy_Inr [simp]:
  "src + n \<le> length m \<Longrightarrow> dst + n \<le> length m \<Longrightarrow>
    ptr_copy m src dst n = Inr (move_slots m src dst n)"
  by (simp add: ptr_copy_def)

lemma ptr_copy_nonoverlapping_Inr [simp]:
  "src + n \<le> length m \<Longrightarrow> dst + n \<le> length m \<Longrightarrow> src + n \<le> dst \<or> dst + n \<le> src \<Longrightarrow>
    ptr_copy_nonoverlapping m src dst n = Inr (move_slots m src dst n)"
  by (simp add: ptr_copy_nonoverlapping_def)

lemma ptr_swap_Inr [simp]:
  "i < length m \<Longrightarrow> j < length m \<Longrightarrow> m ! i = Some x \<Longrightarrow> m ! j = Some y \<Longrightarrow>
    ptr_swap m i j = Inr (m[i := Some y, j := Some x])"
  by (simp add: ptr_swap_def)

lemma ptr_replace_Inr [simp]:
  "i < length m \<Longrightarrow> m ! i = Some y \<Longrightarrow> ptr_replace m i x = Inr (m[i := Some x], y)"
  by (simp add: ptr_replace_def)

lemma assume_init_Inr_iff: "assume_init m = Inr xs \<longleftrightarrow> m = map Some xs"
proof (induction m arbitrary: xs rule: assume_init.induct)
  case (3 x m)
  then show ?case by (cases xs) (auto simp: and_then_Inr_iff)
qed auto

lemma slice_at_Inr_iff:
  "slice_at m a b = Inr xs \<longleftrightarrow>
    a \<le> b \<and> b \<le> length m \<and> length xs = b - a \<and> (\<forall>i < b - a. m ! (a + i) = Some (xs ! i))"
  by (auto simp: slice_at_def assume_init_Inr_iff list_eq_iff_nth_eq)

lemma length_ptr_copy: "ptr_copy m s d n = Inr m' \<Longrightarrow> length m' = length m"
  by (auto simp: ptr_copy_def)

section \<open>Lists\<close>

lemma nth_insert:
  "i \<le> length xs \<Longrightarrow> j \<le> length xs \<Longrightarrow>
    (take i xs @ v # drop i xs) ! j = (if j < i then xs ! j else if j = i then v else xs ! (j - 1))"
  by (auto simp: nth_append nth_Cons min_def split: nat.splits)
    (metis Suc_diff_Suc Suc_pred add_diff_inverse_nat diff_Suc_1 less_imp_Suc_add nat.discI not_less_eq add_Suc_right)

lemma nth_delete:
  "i < length xs \<Longrightarrow> j < length xs - 1 \<Longrightarrow>
    (take i xs @ drop (Suc i) xs) ! j = (if j < i then xs ! j else xs ! (j + 1))"
  by (auto simp: nth_append min_def)

lemma replicate_two: "replicate 2 x = [x, x]"
  by (simp add: numeral_2_eq_2)

section \<open>Segments\<close>

text \<open>\<open>segment m p xs\<close>: the slots from \<open>p\<close> on hold exactly the values \<open>xs\<close>.\<close>

definition segment :: "'a memory \<Rightarrow> nat \<Rightarrow> 'a list \<Rightarrow> bool" where
  "segment m p xs \<longleftrightarrow> p + length xs \<le> length m \<and> (\<forall>i < length xs. m ! (p + i) = Some (xs ! i))"

lemma segmentD:
  assumes "segment m p xs"
  shows "p + length xs \<le> length m" "\<And>i. i < length xs \<Longrightarrow> m ! (p + i) = Some (xs ! i)"
  using assms by (auto simp: segment_def)

lemma segment_Nil [simp]: "segment m p [] \<longleftrightarrow> p \<le> length m"
  by (simp add: segment_def)

lemma segment_Cons:
  "segment m p (x # xs) \<longleftrightarrow> p < length m \<and> m ! p = Some x \<and> segment m (Suc p) xs"
  by (auto simp: segment_def nth_Cons split: nat.splits)

lemma segment_append:
  "segment m p (xs @ ys) \<longleftrightarrow> segment m p xs \<and> segment m (p + length xs) ys"
proof (induction xs arbitrary: p)
  case Nil
  then show ?case by (auto simp: segment_def)
qed (simp add: segment_Cons)

lemma segment_snoc:
  "segment m p (xs @ [x]) \<longleftrightarrow> segment m p xs \<and> p + length xs < length m \<and> m ! (p + length xs) = Some x"
  by (auto simp: segment_append segment_Cons)

lemma segment_slice: "segment m p xs \<Longrightarrow> slice_at m p (p + length xs) = Inr xs"
  by (auto simp: slice_at_Inr_iff segment_def)

lemma segment_slice_0: "segment m 0 xs \<Longrightarrow> slice_at m 0 (length xs) = Inr xs"
  using segment_slice [of m 0 xs] by simp

lemma segment_take: "segment m p xs \<Longrightarrow> segment m p (take n xs)"
  by (auto simp: segment_def min_def)

lemma segment_drop: "segment m p xs \<Longrightarrow> n \<le> length xs \<Longrightarrow> segment m (p + n) (drop n xs)"
  by (auto simp: segment_def add.assoc)

lemma segment_cong:
  assumes "segment m p xs" "length m' = length m" "\<And>i. p \<le> i \<Longrightarrow> i < p + length xs \<Longrightarrow> m' ! i = m ! i"
  shows "segment m' p xs"
  using assms by (auto simp: segment_def)

lemma segment_update_other [simp]:
  "i < p \<or> p + length xs \<le> i \<Longrightarrow> segment (m[i := y]) p xs = segment m p xs"
  by (auto simp: segment_def nth_list_update)

lemma segment_read: "segment m p xs \<Longrightarrow> i < length xs \<Longrightarrow> ptr_read m (p + i) = Inr (xs ! i)"
  by (simp add: segment_def)

lemma segment_move:
  assumes "segment m s xs" "d + length xs \<le> length m" "n = length xs"
  shows "segment (move_slots m s d n) d xs"
  using assms by (auto simp: segment_def nth_move_slots)

lemma segment_move_other:
  assumes "segment m p xs" "s + n \<le> length m" "d + n \<le> length m" "p + length xs \<le> d \<or> d + n \<le> p"
  shows "segment (move_slots m s d n) p xs"
  using assms by (auto simp: segment_def nth_move_slots)

lemma segment_copy_from:
  assumes "p + length xs \<le> length m"
  shows "ptr_copy_from m p (map Some xs) = Inr (take p m @ map Some xs @ drop (p + length xs) m)"
    and "segment (take p m @ map Some xs @ drop (p + length xs) m) p xs"
    and "q + length ys \<le> p \<Longrightarrow> segment m q ys \<Longrightarrow>
      segment (take p m @ map Some xs @ drop (p + length xs) m) q ys"
  using assms by (auto simp: ptr_copy_from_def segment_def nth_append)

end
