(* ===== verification/Alloc_Layout.thy ===== *)
theory Alloc_Layout
  imports Rust_Prelude
begin

text \<open>
  \<open>core::alloc::Layout\<close> and \<open>core::ptr::Alignment\<close>: sizes and alignments of memory blocks,
  the rounding of a size up to an alignment by masking, and the layouts of arrays and of
  fields laid out one after the other. The component's contract is the type invariant
  \<open>layout_wf\<close>: the alignment is a power of two and the rounded-up size fits \<open>isize\<close>.
\<close>

section \<open>Alignments\<close>

definition count_ones :: "usize \<Rightarrow> nat" where
  "count_ones n = length (filter (bit n) [0..<64])"

definition is_power_of_two :: "usize \<Rightarrow> bool" where
  "is_power_of_two n \<longleftrightarrow> count_ones n = 1"

definition alignment_new :: "usize \<Rightarrow> usize option" where
  "alignment_new align = (if is_power_of_two align then Some align else None)"

definition alignment_max :: "usize \<Rightarrow> usize \<Rightarrow> usize" where
  "alignment_max a b = (if a > b then a else b)"

lemma bit_nat_lt: "(n::nat) < 2 ^ m \<Longrightarrow> bit n i \<Longrightarrow> i < m"
  by (metis bit_take_bit_iff take_bit_nat_eq_self)

lemma count_ones_card: "count_ones n = card {i. i < 64 \<and> bit n i}"
proof -
  have "count_ones n = card {i. i < length [0..<64] \<and> bit n ([0..<64] ! i)}"
    unfolding count_ones_def by (rule length_filter_conv_card)
  also have "{i. i < length [0..<64] \<and> bit n ([0..<64] ! i)} = {i. i < 64 \<and> bit n i}"
    by auto
  finally show ?thesis .
qed

lemma is_power_of_two_iff:
  assumes "n \<le> usize_max"
  shows "is_power_of_two n \<longleftrightarrow> (\<exists>k < 64. n = 2 ^ k)"
proof
  assume "is_power_of_two n"
  then obtain k where k: "{i. i < 64 \<and> bit n i} = {k}"
    unfolding is_power_of_two_def count_ones_card by (rule card_1_singletonE)
  then have mem: "i < 64 \<and> bit n i \<longleftrightarrow> i = k" for i by blast
  have n: "n < 2 ^ 64" using assms by (simp add: usize_max_num)
  have "n = 2 ^ k"
  proof (rule bit_eqI)
    fix i
    show "bit n i \<longleftrightarrow> bit (2 ^ k :: nat) i"
      using mem [of i] bit_nat_lt [OF n, of i] by (auto simp: bit_exp_iff)
  qed
  with mem show "\<exists>k < 64. n = 2 ^ k" by blast
next
  assume "\<exists>k < 64. n = 2 ^ k"
  then obtain k where k: "k < 64" "n = 2 ^ k" by blast
  then have "{i. i < 64 \<and> bit n i} = {k}" by (auto simp: bit_exp_iff)
  then show "is_power_of_two n" by (simp add: is_power_of_two_def count_ones_card)
qed

section \<open>Layouts\<close>

record layout =
  lay_size :: usize
  lay_align :: usize

datatype layout_error = LayoutError

definition max_size_for_align :: "usize \<Rightarrow> usize" where
  "max_size_for_align align = isize_max + 1 - align"

definition is_size_align_valid :: "usize \<Rightarrow> usize \<Rightarrow> bool" where
  "is_size_align_valid sz align =
     (case alignment_new align of
        None \<Rightarrow> False
      | Some align \<Rightarrow> \<not> sz > max_size_for_align align)"

definition from_size_align :: "usize \<Rightarrow> usize \<Rightarrow> layout_error + layout" where
  "from_size_align sz align =
     (if is_size_align_valid sz align then Inr \<lparr>lay_size = sz, lay_align = align\<rparr>
      else Inl LayoutError)"

definition from_size_alignment :: "usize \<Rightarrow> usize \<Rightarrow> layout_error + layout" where
  "from_size_alignment sz align =
     (if sz > max_size_for_align align then Inl LayoutError
      else Inr \<lparr>lay_size = sz, lay_align = align\<rparr>)"

definition size_rounded_up_to_custom_align :: "layout \<Rightarrow> usize \<Rightarrow> usize" where
  "size_rounded_up_to_custom_align self align =
     (let align_m1 = (word_of_nat align :: 64 word) - 1
      in unat ((word_of_nat (lay_size self) + align_m1) AND NOT align_m1))"

definition align_to :: "layout \<Rightarrow> usize \<Rightarrow> layout_error + layout" where
  "align_to self align =
     (case alignment_new align of
        Some align \<Rightarrow> from_size_alignment (lay_size self) (alignment_max (lay_align self) align)
      | None \<Rightarrow> Inl LayoutError)"

definition padding_needed_for :: "layout \<Rightarrow> usize \<Rightarrow> usize" where
  "padding_needed_for self align =
     (case alignment_new align of
        None \<Rightarrow> usize_max
      | Some align \<Rightarrow> size_rounded_up_to_custom_align self align - lay_size self)"

definition pad_to_align :: "layout \<Rightarrow> layout" where
  "pad_to_align self =
     \<lparr>lay_size = size_rounded_up_to_custom_align self (lay_align self),
      lay_align = lay_align self\<rparr>"

definition repeat_packed :: "layout \<Rightarrow> usize \<Rightarrow> layout_error + layout" where
  "repeat_packed self n =
     (case checked_mul (lay_size self) n of
        Some sz \<Rightarrow> from_size_alignment sz (lay_align self)
      | None \<Rightarrow> Inl LayoutError)"

definition repeat_layout :: "layout \<Rightarrow> usize \<Rightarrow> layout_error + layout \<times> usize" where
  "repeat_layout self n =
     (let padded = pad_to_align self
      in case repeat_packed padded n of
           Inr repeated \<Rightarrow> Inr (repeated, lay_size padded)
         | Inl _ \<Rightarrow> Inl LayoutError)"

definition extend_layout :: "layout \<Rightarrow> layout \<Rightarrow> layout_error + layout \<times> usize" where
  "extend_layout self nxt =
     (let new_align = alignment_max (lay_align self) (lay_align nxt);
          offset = size_rounded_up_to_custom_align self (lay_align nxt);
          new_size = offset + lay_size nxt
      in case from_size_alignment new_size new_align of
           Inr layout \<Rightarrow> Inr (layout, offset)
         | Inl _ \<Rightarrow> Inl LayoutError)"

definition extend_packed :: "layout \<Rightarrow> layout \<Rightarrow> layout_error + layout" where
  "extend_packed self nxt = from_size_alignment (lay_size self + lay_size nxt) (lay_align self)"

definition array_layout :: "layout \<Rightarrow> usize \<Rightarrow> layout_error + layout" where
  "array_layout element_layout n =
     (let element_size = lay_size element_layout; align = lay_align element_layout
      in if element_size \<noteq> 0 \<and> n > max_size_for_align align div element_size
         then Inl LayoutError
         else Inr \<lparr>lay_size = element_size * n, lay_align = align\<rparr>)"

text \<open>The type invariant.\<close>

definition layout_wf :: "layout \<Rightarrow> bool" where
  "layout_wf l \<longleftrightarrow> is_size_align_valid (lay_size l) (lay_align l) \<and> lay_align l \<le> usize_max"

section \<open>Rounding up\<close>

lemma and_not_mask: "(w :: 64 word) AND NOT (mask k) = push_bit k (drop_bit k w)"
  by (rule bit_eqI) (auto simp: bit_simps)

lemma unat_and_not_mask:
  assumes "k < 64"
  shows "unat ((w :: 64 word) AND NOT (mask k)) = unat w - unat w mod 2 ^ k"
proof -
  have "unat w div 2 ^ k * 2 ^ k \<le> unat w" by (rule div_times_less_eq_dividend)
  also have "\<dots> < 2 ^ 64" using unsigned_less [of w, where ?'a = nat] by simp
  finally have lt: "unat w div 2 ^ k * 2 ^ k < 2 ^ 64" .
  have "unat (push_bit k (drop_bit k w)) = take_bit 64 (push_bit k (drop_bit k (unat w)))"
    using unsigned_less [of w, where ?'a = nat]
    by (simp add: unsigned_push_bit_eq unsigned_drop_bit_eq take_bit_nat_eq_self)
  also have "\<dots> = unat w div 2 ^ k * 2 ^ k"
    using lt by (simp add: push_bit_eq_mult drop_bit_eq_div take_bit_nat_eq_self)
  finally show ?thesis by (simp add: and_not_mask minus_mod_eq_div_mult)
qed

lemma rounded_up_value:
  assumes "lay_size l \<le> isize_max" "k < 64"
  shows "size_rounded_up_to_custom_align l (2 ^ k) =
    (lay_size l + (2 ^ k - 1)) - (lay_size l + (2 ^ k - 1)) mod 2 ^ k"
proof -
  let ?s = "lay_size l" and ?m = "2 ^ k - 1 :: nat"
  have pk: "(2::nat) ^ k \<le> 2 ^ 63" using assms(2) by (intro power_increasing) auto
  have m: "word_of_nat (2 ^ k) - 1 = (mask k :: 64 word)" "word_of_nat ?m = (mask k :: 64 word)"
    by (simp_all add: mask_eq_exp_minus_1 of_nat_diff)
  have "word_of_nat ?s + (mask k :: 64 word) = word_of_nat (?s + ?m)"
    by (simp only: of_nat_add m)
  moreover have "unat (word_of_nat (?s + ?m) :: 64 word) = ?s + ?m"
    using pk assms(1) by (simp add: unsigned_of_nat take_bit_nat_eq_self isize_max_num)
  ultimately show ?thesis
    using unat_and_not_mask [OF assms(2), of "word_of_nat (?s + ?m)"]
    unfolding size_rounded_up_to_custom_align_def Let_def m by simp
qed

lemma round_up_arith:
  fixes s a :: nat
  assumes "0 < a"
  defines "r \<equiv> (s + (a - 1)) - (s + (a - 1)) mod a"
  shows "a dvd r" "s \<le> r" "r < s + a"
proof -
  show "a dvd r" by (simp add: r_def dvd_minus_mod)
  have "(s + (a - 1)) mod a \<le> a - 1"
    using assms(1) by (metis Suc_pred' less_Suc_eq_le mod_less_divisor)
  then show "s \<le> r" "r < s + a" using assms(1) by (simp_all add: r_def)
qed

lemma layout_wf_iff:
  "layout_wf l \<longleftrightarrow> (\<exists>k < 64. lay_align l = 2 ^ k) \<and> lay_size l \<le> isize_max + 1 - lay_align l"
proof -
  have "2 ^ k \<le> usize_max" if "k < 64" for k :: nat
    using power_increasing [of k 63 "2::nat"] that by (simp add: usize_max_num)
  then show ?thesis
    by (auto simp: layout_wf_def is_size_align_valid_def alignment_new_def is_power_of_two_iff
        max_size_for_align_def split: if_splits)
qed

lemma layout_wf_max_size:
  assumes "layout_wf l"
  shows "max_size_for_align (lay_align l) \<le> isize_max"
proof -
  obtain k where "lay_align l = 2 ^ k" using assms by (auto simp: layout_wf_iff)
  then have "1 \<le> lay_align l" by simp
  then show ?thesis by (simp add: max_size_for_align_def)
qed

lemma layout_wf_size: "layout_wf l \<Longrightarrow> lay_size l \<le> isize_max"
  using layout_wf_max_size [of l] by (simp add: layout_wf_iff max_size_for_align_def)

lemma layout_wf_align: "layout_wf l \<Longrightarrow> \<exists>k < 64. lay_align l = 2 ^ k"
  by (simp add: layout_wf_iff)

lemma rounded_up:
  assumes "lay_size l \<le> isize_max" "k < 64" "a = 2 ^ k"
  shows "a dvd size_rounded_up_to_custom_align l a"
    and "lay_size l \<le> size_rounded_up_to_custom_align l a"
    and "size_rounded_up_to_custom_align l a < lay_size l + a"
  using round_up_arith [of a "lay_size l"] assms
  by (simp_all add: rounded_up_value [OF assms(1,2)])

lemma rounded_up_least:
  assumes "lay_size l \<le> isize_max" "k < 64" "a = 2 ^ k" "a dvd n" "lay_size l \<le> n"
  shows "size_rounded_up_to_custom_align l a \<le> n"
proof (rule ccontr)
  let ?r = "size_rounded_up_to_custom_align l a"
  assume "\<not> ?r \<le> n"
  then have "n < ?r" by simp
  moreover have "?r < n + a" using rounded_up(3) [OF assms(1-3)] assms(5) by simp
  moreover obtain c d where "n = a * c" "?r = a * d"
    using rounded_up(1) [OF assms(1-3)] assms(4) by (auto elim!: dvdE)
  ultimately have "a * c < a * d" "a * d < a * (c + 1)" by (simp_all add: algebra_simps)
  then have "c < d" "d < c + 1" by (metis nat_mult_less_cancel1 mult_less_cancel1)+
  then show False by simp
qed

lemma power_dvd_isize: "k < 64 \<Longrightarrow> (2::nat) ^ k dvd isize_max + 1"
proof -
  assume "k < 64"
  then have "(2::nat) ^ k dvd 2 ^ 63" by (intro le_imp_power_dvd) simp
  then show ?thesis by (simp add: isize_max_num)
qed

lemma pad_to_align_wf:
  assumes "layout_wf l"
  shows "layout_wf (pad_to_align l)" and "lay_align l dvd lay_size (pad_to_align l)"
proof -
  obtain k where k: "k < 64" "lay_align l = 2 ^ k" using assms layout_wf_align by blast
  note s = layout_wf_size [OF assms]
  have "size_rounded_up_to_custom_align l (lay_align l) \<le> isize_max + 1 - lay_align l"
    using assms k power_dvd_isize [OF k(1)]
    by (intro rounded_up_least [OF s k]) (auto simp: layout_wf_iff dvd_diff_nat)
  with assms show "layout_wf (pad_to_align l)" by (simp add: layout_wf_iff pad_to_align_def)
  show "lay_align l dvd lay_size (pad_to_align l)"
    using rounded_up(1) [OF s k] by (simp add: pad_to_align_def)
qed

lemma rounded_up_dvd_id:
  assumes "layout_wf l" "lay_align l dvd lay_size l"
  shows "pad_to_align l = l"
proof -
  obtain k where k: "k < 64" "lay_align l = 2 ^ k" using assms layout_wf_align by blast
  note s = layout_wf_size [OF assms(1)]
  have "size_rounded_up_to_custom_align l (lay_align l) = lay_size l"
    using rounded_up_least [OF s k assms(2) order_refl] rounded_up(2) [OF s k] by simp
  then show ?thesis by (simp add: pad_to_align_def)
qed

lemma from_size_alignment_wf:
  "k < 64 \<Longrightarrow> a = 2 ^ k \<Longrightarrow> from_size_alignment s a = Inr l \<Longrightarrow> layout_wf l"
  by (auto simp: from_size_alignment_def layout_wf_iff max_size_for_align_def split: if_splits)


lemma wf_align_max:
  "layout_wf l \<Longrightarrow> layout_wf m \<Longrightarrow>
    \<exists>k < 64. alignment_max (lay_align l) (lay_align m) = 2 ^ k"
  by (auto simp: layout_wf_iff alignment_max_def)

lemma power_two_dvd_of_le: "(2::nat) ^ i \<le> 2 ^ j \<Longrightarrow> (2::nat) ^ i dvd 2 ^ j"
  by (simp add: le_imp_power_dvd)

lemma alignment_max_dvd:
  assumes "layout_wf l" "layout_wf m"
  shows "lay_align l dvd alignment_max (lay_align l) (lay_align m)"
    and "lay_align m dvd alignment_max (lay_align l) (lay_align m)"
  using assms by (auto simp: layout_wf_iff alignment_max_def intro!: power_two_dvd_of_le)

section \<open>Arrays and structures\<close>

text \<open>
  For an element layout whose size is a multiple of its alignment (every type's own
  layout), the checked multiplication of \<open>Layout::repeat\<close>, which \<open>RawVec\<close> uses, and the
  division test of \<open>Layout::array\<close> accept exactly the same lengths and give the same layout.
\<close>

theorem array_layout_eq_repeat:
  assumes "layout_wf e" "lay_align e dvd lay_size e"
  shows "array_layout e n = (case repeat_layout e n of Inl x \<Rightarrow> Inl x | Inr (l, _) \<Rightarrow> Inr l)"
proof (cases "lay_size e = 0")
  case True
  then show ?thesis
    using assms rounded_up_dvd_id [OF assms]
    by (simp add: array_layout_def repeat_layout_def repeat_packed_def checked_mul_def
        from_size_alignment_def)
next
  case False
  let ?m = "max_size_for_align (lay_align e)" and ?s = "lay_size e"
  have div: "n > ?m div ?s \<longleftrightarrow> ?s * n > ?m"
    using False by (simp add: div_less_iff_less_mult mult.commute)
  have "?m \<le> usize_max" by (simp add: max_size_for_align_def isize_max_num usize_max_num)
  then show ?thesis
    using False rounded_up_dvd_id [OF assms] div
    by (auto simp: array_layout_def repeat_layout_def repeat_packed_def checked_mul_def
        from_size_alignment_def Let_def)
qed

theorem array_layout_eq_repeat_witness:
  "array_layout \<lparr>lay_size = 24, lay_align = 8\<rparr> 5 =
     (case repeat_layout \<lparr>lay_size = 24, lay_align = 8\<rparr> 5 of Inl x \<Rightarrow> Inl x | Inr (l, _) \<Rightarrow> Inr l)"
proof -
  have "layout_wf \<lparr>lay_size = 24, lay_align = 8\<rparr>"
    unfolding layout_wf_iff
    by (auto simp: isize_max_num intro: exI [of _ 3])
  then show ?thesis by (rule array_layout_eq_repeat) simp
qed

text \<open>
  \<open>Layout::extend\<close> places the next field at an offset that is aligned for it, at or after
  the end of the first, at most one alignment further than necessary, and the layout of the
  pair contains both fields, is aligned for both and is again a valid layout.
\<close>

theorem extend_layout_correct:
  assumes "layout_wf l" "layout_wf m" "extend_layout l m = Inr (r, offset)"
  shows "layout_wf r \<and> lay_align m dvd offset \<and> lay_size l \<le> offset
    \<and> offset < lay_size l + lay_align m \<and> lay_size r = offset + lay_size m
    \<and> lay_align l dvd lay_align r \<and> lay_align m dvd lay_align r"
proof -
  obtain k where k: "k < 64" "lay_align m = 2 ^ k" using assms(2) layout_wf_align by blast
  have off: "offset = size_rounded_up_to_custom_align l (lay_align m)"
    and r: "from_size_alignment (offset + lay_size m)
        (alignment_max (lay_align l) (lay_align m)) = Inr r"
    using assms(3) by (auto simp: extend_layout_def Let_def split: sum.splits)
  then have "layout_wf r"
    using wf_align_max [OF assms(1,2)] from_size_alignment_wf by blast
  moreover have "lay_size r = offset + lay_size m"
      "lay_align r = alignment_max (lay_align l) (lay_align m)"
    using r by (auto simp: from_size_alignment_def split: if_splits)
  ultimately show ?thesis
    using rounded_up [OF layout_wf_size [OF assms(1)] k] alignment_max_dvd [OF assms(1,2)] off
    by simp
qed

theorem extend_layout_correct_witness:
  "layout_wf \<lparr>lay_size = 16, lay_align = 8\<rparr> \<and>
   extend_layout \<lparr>lay_size = 5, lay_align = 1\<rparr> \<lparr>lay_size = 8, lay_align = 8\<rparr>
     = Inr (\<lparr>lay_size = 16, lay_align = 8\<rparr>, 8)"
proof -
  let ?l = "\<lparr>lay_size = 5, lay_align = 1\<rparr>" and ?m = "\<lparr>lay_size = 8, lay_align = 8\<rparr>"
  let ?r = "\<lparr>lay_size = 16, lay_align = 8\<rparr>"
  have wf: "layout_wf ?l" "layout_wf ?m"
    unfolding layout_wf_iff
    by (auto simp: isize_max_num intro: exI [of _ 0] exI [of _ 3])
  have eq: "extend_layout ?l ?m = Inr (?r, 8)"
    by (simp add: extend_layout_def alignment_max_def size_rounded_up_to_custom_align_def
        from_size_alignment_def max_size_for_align_def isize_max_num Let_def)
  show ?thesis using extend_layout_correct [OF wf eq] eq by simp
qed

end
