(* ===== verification/Raw_Vec.thy ===== *)
theory Raw_Vec
  imports Alloc_Layout
begin

text \<open>
  \<open>alloc::raw_vec::RawVecInner\<close>: the growable buffer below \<open>Vec\<close> and \<open>VecDeque\<close>. The record
  keeps the block of memory the pointer owns, the capacity field, the element layout
  (\<open>T::LAYOUT\<close>) and the allocator, of which the code only observes whether it serves a request
  for a layout. Growing keeps the old slots and adds uninitialised ones, as
  \<open>Allocator::grow\<close> documents.
\<close>

section \<open>State and operations\<close>

datatype try_reserve_error = CapacityOverflow | AllocError layout

record 'a raw_vec =
  rv_mem :: "'a memory"
  rv_cap :: usize
  rv_alloc :: "layout \<Rightarrow> bool"
  rv_elem :: layout

definition capacity_overflow :: "'a res" where
  "capacity_overflow = Inl (Panic ''capacity overflow'')"

definition handle_error :: "try_reserve_error \<Rightarrow> 'a res" where
  "handle_error e =
     (case e of CapacityOverflow \<Rightarrow> capacity_overflow | AllocError layout \<Rightarrow> Inl Abort)"

definition unwrap_reserve :: "(try_reserve_error + 'a) res \<Rightarrow> 'a res" where
  "unwrap_reserve m = and_then m (\<lambda>r. case r of Inl err \<Rightarrow> handle_error err | Inr x \<Rightarrow> Inr x)"

definition layout_array :: "usize \<Rightarrow> layout \<Rightarrow> try_reserve_error + layout" where
  "layout_array cap elem_layout =
     (case repeat_layout elem_layout cap of
        Inr (layout, _) \<Rightarrow> Inr layout
      | Inl _ \<Rightarrow> Inl CapacityOverflow)"

definition min_non_zero_cap :: "usize \<Rightarrow> usize" where
  "min_non_zero_cap sz = (if sz = 1 then 8 else if sz \<le> 1024 then 4 else 1)"

definition rv_new_in :: "(layout \<Rightarrow> bool) \<Rightarrow> layout \<Rightarrow> 'a raw_vec" where
  "rv_new_in alloc elem_layout =
     \<lparr>rv_mem = [], rv_cap = 0, rv_alloc = alloc, rv_elem = elem_layout\<rparr>"

definition rv_capacity :: "'a raw_vec \<Rightarrow> usize" where
  "rv_capacity v = (if lay_size (rv_elem v) = 0 then usize_max else rv_cap v)"

definition try_allocate_in ::
  "usize \<Rightarrow> (layout \<Rightarrow> bool) \<Rightarrow> layout \<Rightarrow> try_reserve_error + 'a raw_vec" where
  "try_allocate_in capacity alloc elem_layout =
     (case layout_array capacity elem_layout of
        Inl _ \<Rightarrow> Inl CapacityOverflow
      | Inr layout \<Rightarrow>
          if lay_size layout = 0 then Inr (rv_new_in alloc elem_layout)
          else if alloc layout
          then Inr \<lparr>rv_mem = replicate capacity None, rv_cap = capacity,
                    rv_alloc = alloc, rv_elem = elem_layout\<rparr>
          else Inl (AllocError layout))"

definition needs_to_grow :: "'a raw_vec \<Rightarrow> usize \<Rightarrow> usize \<Rightarrow> bool" where
  "needs_to_grow v len additional \<longleftrightarrow> additional > wrapping_sub (rv_capacity v) len"

definition rv_with_capacity_in ::
  "usize \<Rightarrow> (layout \<Rightarrow> bool) \<Rightarrow> layout \<Rightarrow> 'a raw_vec res" where
  "rv_with_capacity_in capacity alloc elem_layout =
     (case try_allocate_in capacity alloc elem_layout of
        Inr this \<Rightarrow> ensure (UB BrokenAssumption) (\<not> needs_to_grow this 0 capacity) (Inr this)
      | Inl err \<Rightarrow> handle_error err)"

definition current_memory :: "'a raw_vec \<Rightarrow> layout option res" where
  "current_memory v =
     (if lay_size (rv_elem v) = 0 \<or> rv_cap v = 0 then Inr None
      else let alloc_size = lay_size (rv_elem v) * rv_cap v
           in ensure (UB BrokenAssumption) (is_size_align_valid alloc_size (lay_align (rv_elem v)))
                (Inr (Some \<lparr>lay_size = alloc_size, lay_align = lay_align (rv_elem v)\<rparr>)))"

text \<open>\<open>Allocator::grow\<close> and \<open>Allocator::shrink\<close> with their safety contracts on the two layouts;
  the new block has \<open>n\<close> slots. \<open>None\<close> is the allocator's refusal.\<close>

definition alloc_grow ::
  "(layout \<Rightarrow> bool) \<Rightarrow> 'a memory \<Rightarrow> layout \<Rightarrow> layout \<Rightarrow> usize \<Rightarrow> 'a memory option res" where
  "alloc_grow alloc m old_layout new_layout n =
     ensure (UB BrokenAssumption) (lay_size new_layout \<ge> lay_size old_layout)
       (Inr (if alloc new_layout then Some (m @ replicate (n - length m) None) else None))"

definition alloc_shrink ::
  "(layout \<Rightarrow> bool) \<Rightarrow> 'a memory \<Rightarrow> layout \<Rightarrow> layout \<Rightarrow> usize \<Rightarrow> 'a memory option res" where
  "alloc_shrink alloc m old_layout new_layout n =
     ensure (UB BrokenAssumption) (lay_size new_layout \<le> lay_size old_layout)
       (Inr (if alloc new_layout then Some (take n m) else None))"

definition finish_grow :: "'a raw_vec \<Rightarrow> usize \<Rightarrow> (try_reserve_error + 'a memory) res" where
  "finish_grow v cap =
     (case layout_array cap (rv_elem v) of
        Inl e \<Rightarrow> Inr (Inl e)
      | Inr new_layout \<Rightarrow>
          and_then (current_memory v) (\<lambda>cur.
            and_then
              (case cur of
                 Some old_layout \<Rightarrow>
                   ensure DebugAssert (lay_align old_layout = lay_align new_layout)
                     (alloc_grow (rv_alloc v) (rv_mem v) old_layout new_layout cap)
               | None \<Rightarrow>
                   Inr (if rv_alloc v new_layout then Some (replicate cap None) else None))
              (\<lambda>memory. Inr (case memory of
                 Some m \<Rightarrow> Inr m
               | None \<Rightarrow> Inl (AllocError new_layout)))))"

definition set_ptr_and_cap :: "'a raw_vec \<Rightarrow> 'a memory \<Rightarrow> usize \<Rightarrow> 'a raw_vec" where
  "set_ptr_and_cap v m cap = v\<lparr>rv_mem := m, rv_cap := cap\<rparr>"

definition grow_amortized ::
  "'a raw_vec \<Rightarrow> usize \<Rightarrow> usize \<Rightarrow> (try_reserve_error + 'a raw_vec) res" where
  "grow_amortized v len additional =
     ensure DebugAssert (additional > 0)
       (if lay_size (rv_elem v) = 0 then Inr (Inl CapacityOverflow)
        else case checked_add len additional of
               None \<Rightarrow> Inr (Inl CapacityOverflow)
             | Some required_cap \<Rightarrow>
                 let cap = max (rv_cap v * 2) required_cap;
                     cap = max (min_non_zero_cap (lay_size (rv_elem v))) cap
                 in try_then (finish_grow v cap) (\<lambda>m. Inr (Inr (set_ptr_and_cap v m cap))))"

definition grow_exact ::
  "'a raw_vec \<Rightarrow> usize \<Rightarrow> usize \<Rightarrow> (try_reserve_error + 'a raw_vec) res" where
  "grow_exact v len additional =
     (if lay_size (rv_elem v) = 0 then Inr (Inl CapacityOverflow)
      else case checked_add len additional of
             None \<Rightarrow> Inr (Inl CapacityOverflow)
           | Some cap \<Rightarrow>
               try_then (finish_grow v cap) (\<lambda>m. Inr (Inr (set_ptr_and_cap v m cap))))"

definition grow_one :: "'a raw_vec \<Rightarrow> 'a raw_vec res" where
  "grow_one v = unwrap_reserve (grow_amortized v (rv_cap v) 1)"

definition rv_reserve :: "'a raw_vec \<Rightarrow> usize \<Rightarrow> usize \<Rightarrow> 'a raw_vec res" where
  "rv_reserve v len additional =
     (if needs_to_grow v len additional then unwrap_reserve (grow_amortized v len additional)
      else Inr v)"

definition rv_try_reserve ::
  "'a raw_vec \<Rightarrow> usize \<Rightarrow> usize \<Rightarrow> (try_reserve_error + 'a raw_vec) res" where
  "rv_try_reserve v len additional =
     try_then
       (if needs_to_grow v len additional then grow_amortized v len additional
        else Inr (Inr v))
       (\<lambda>v'. ensure (UB BrokenAssumption) (\<not> needs_to_grow v' len additional) (Inr (Inr v')))"

definition rv_try_reserve_exact ::
  "'a raw_vec \<Rightarrow> usize \<Rightarrow> usize \<Rightarrow> (try_reserve_error + 'a raw_vec) res" where
  "rv_try_reserve_exact v len additional =
     try_then
       (if needs_to_grow v len additional then grow_exact v len additional
        else Inr (Inr v))
       (\<lambda>v'. ensure (UB BrokenAssumption) (\<not> needs_to_grow v' len additional) (Inr (Inr v')))"

definition rv_reserve_exact :: "'a raw_vec \<Rightarrow> usize \<Rightarrow> usize \<Rightarrow> 'a raw_vec res" where
  "rv_reserve_exact v len additional = unwrap_reserve (rv_try_reserve_exact v len additional)"

definition shrink_unchecked ::
  "'a raw_vec \<Rightarrow> usize \<Rightarrow> (try_reserve_error + 'a raw_vec) res" where
  "shrink_unchecked v cap =
     and_then (current_memory v) (\<lambda>cur. case cur of
       None \<Rightarrow> Inr (Inr v)
     | Some layout \<Rightarrow>
         if cap = 0 then Inr (Inr (v\<lparr>rv_mem := [], rv_cap := 0\<rparr>))
         else let new_layout = \<lparr>lay_size = lay_size (rv_elem v) * cap, lay_align = lay_align layout\<rparr>
              in and_then (alloc_shrink (rv_alloc v) (rv_mem v) layout new_layout cap)
                   (\<lambda>memory. case memory of
                      None \<Rightarrow> Inr (Inl (AllocError new_layout))
                    | Some m \<Rightarrow> Inr (Inr (set_ptr_and_cap v m cap))))"

definition rv_shrink :: "'a raw_vec \<Rightarrow> usize \<Rightarrow> (try_reserve_error + 'a raw_vec) res" where
  "rv_shrink v cap =
     ensure (Panic ''Tried to shrink to a larger capacity'') (cap \<le> rv_capacity v)
       (shrink_unchecked v cap)"

definition rv_shrink_to_fit :: "'a raw_vec \<Rightarrow> usize \<Rightarrow> 'a raw_vec res" where
  "rv_shrink_to_fit v cap = unwrap_reserve (rv_shrink v cap)"

section \<open>Invariant\<close>

text \<open>The block has exactly the recorded number of slots, and its size fits \<open>isize\<close>.\<close>

definition rv_inv :: "'a raw_vec \<Rightarrow> bool" where
  "rv_inv v \<longleftrightarrow> layout_wf (rv_elem v) \<and> lay_align (rv_elem v) dvd lay_size (rv_elem v) \<and>
     length (rv_mem v) = rv_cap v \<and> (lay_size (rv_elem v) = 0 \<longrightarrow> rv_cap v = 0) \<and>
     lay_size (rv_elem v) * rv_cap v \<le> max_size_for_align (lay_align (rv_elem v))"

text \<open>\<open>v'\<close> is \<open>v\<close> with a larger buffer: the old slots are kept, the new ones uninitialised.\<close>

definition rv_extends :: "'a raw_vec \<Rightarrow> 'a raw_vec \<Rightarrow> bool" where
  "rv_extends v v' \<longleftrightarrow> rv_inv v' \<and> rv_cap v \<le> rv_cap v' \<and>
     v' = v\<lparr>rv_mem := rv_mem v @ replicate (rv_cap v' - rv_cap v) None, rv_cap := rv_cap v'\<rparr>"

lemma rv_extends_refl: "rv_inv v \<Longrightarrow> rv_extends v v"
  by (simp add: rv_extends_def)

lemma rv_extendsD:
  assumes "rv_extends v v'"
  shows "rv_inv v'" "rv_cap v \<le> rv_cap v'" "rv_elem v' = rv_elem v" "rv_alloc v' = rv_alloc v"
    "rv_mem v' = rv_mem v @ replicate (rv_cap v' - rv_cap v) None"
    "length (rv_mem v') = rv_cap v'"
proof -
  from assms have inv: "rv_inv v'" and le: "rv_cap v \<le> rv_cap v'"
    and v': "v' = v\<lparr>rv_mem := rv_mem v @ replicate (rv_cap v' - rv_cap v) None, rv_cap := rv_cap v'\<rparr>"
    by (simp_all only: rv_extends_def)
  show "rv_inv v'" "rv_cap v \<le> rv_cap v'" by (fact inv le)+
  show "rv_elem v' = rv_elem v" by (subst v') simp
  show "rv_alloc v' = rv_alloc v" by (subst v') simp
  show "rv_mem v' = rv_mem v @ replicate (rv_cap v' - rv_cap v) None" by (subst v') simp
  show "length (rv_mem v') = rv_cap v'" using inv by (simp add: rv_inv_def)
qed

lemma rv_inv_cap_le: "rv_inv v \<Longrightarrow> rv_cap v \<le> isize_max"
proof -
  assume inv: "rv_inv v"
  show ?thesis
  proof (cases "lay_size (rv_elem v) = 0")
    case False
    then have "rv_cap v \<le> lay_size (rv_elem v) * rv_cap v" by simp
    also have "\<dots> \<le> max_size_for_align (lay_align (rv_elem v))"
      using inv by (simp add: rv_inv_def)
    also have "\<dots> \<le> isize_max"
      using inv layout_wf_max_size by (simp add: rv_inv_def)
    finally show ?thesis .
  qed (use inv in \<open>simp add: rv_inv_def\<close>)
qed

lemma layout_array_elem:
  assumes "layout_wf e" "lay_align e dvd lay_size e"
  shows "layout_array n e =
    (if lay_size e * n \<le> max_size_for_align (lay_align e)
     then Inr \<lparr>lay_size = lay_size e * n, lay_align = lay_align e\<rparr> else Inl CapacityOverflow)"
proof -
  have "max_size_for_align (lay_align e) \<le> usize_max"
    by (simp add: max_size_for_align_def isize_max_num usize_max_num)
  then show ?thesis
    using rounded_up_dvd_id [OF assms]
    by (auto simp: layout_array_def repeat_layout_def repeat_packed_def checked_mul_def
        from_size_alignment_def Let_def)
qed

lemma current_memory_inv:
  assumes "rv_inv v"
  shows "current_memory v = Inr (if lay_size (rv_elem v) = 0 \<or> rv_cap v = 0 then None
     else Some \<lparr>lay_size = lay_size (rv_elem v) * rv_cap v, lay_align = lay_align (rv_elem v)\<rparr>)"
  using assms
  by (auto simp: current_memory_def rv_inv_def layout_wf_def is_size_align_valid_def
      alignment_new_def Let_def split: if_splits)

lemma finish_grow_cases:
  assumes inv: "rv_inv v" and sz: "lay_size (rv_elem v) > 0" and cap: "rv_cap v \<le> cap"
  obtains e where "finish_grow v cap = Inr (Inl e)"
  | m where "finish_grow v cap = Inr (Inr m)" "rv_extends v (set_ptr_and_cap v m cap)"
proof (cases "lay_size (rv_elem v) * cap \<le> max_size_for_align (lay_align (rv_elem v))")
  case False
  with inv show ?thesis
    by (intro that(1)) (simp add: finish_grow_def rv_inv_def layout_array_elem)
next
  case True
  let ?L = "\<lparr>lay_size = lay_size (rv_elem v) * cap, lay_align = lay_align (rv_elem v)\<rparr>"
  let ?m = "rv_mem v @ replicate (cap - rv_cap v) None"
  have L: "layout_array cap (rv_elem v) = Inr ?L"
    using inv True by (simp add: rv_inv_def layout_array_elem)
  have len: "length (rv_mem v) = rv_cap v" using inv by (simp add: rv_inv_def)
  have *: "finish_grow v cap = Inr (if rv_alloc v ?L then Inr ?m else Inl (AllocError ?L))"
    using cap len sz by (auto simp: finish_grow_def L current_memory_inv [OF inv] alloc_grow_def)
  have "rv_extends v (set_ptr_and_cap v ?m cap)"
    using inv sz cap True len by (auto simp: rv_extends_def set_ptr_and_cap_def rv_inv_def)
  with * that show ?thesis by (cases "rv_alloc v ?L") simp_all
qed

lemma needs_to_grow_iff:
  assumes "rv_inv v" "lay_size (rv_elem v) > 0" "len \<le> rv_cap v"
  shows "needs_to_grow v len additional \<longleftrightarrow> rv_cap v < len + additional"
proof -
  have "rv_cap v \<le> usize_max"
    using rv_inv_cap_le [OF assms(1)] by (simp add: isize_max_num usize_max_num)
  then show ?thesis
    using assms(2,3) by (auto simp: needs_to_grow_def rv_capacity_def wrapping_sub_ge)
qed

text \<open>What \<open>grow_amortized\<close> does when it is called: the capacity at least doubles and covers the
  request.\<close>

lemma grow_amortized_cases:
  assumes inv: "rv_inv v" and sz: "lay_size (rv_elem v) > 0"
    and req: "rv_cap v \<le> len + additional" "additional > 0"
  obtains e where "grow_amortized v len additional = Inr (Inl e)"
  | v' where "grow_amortized v len additional = Inr (Inr v')" "rv_extends v v'"
      "len + additional \<le> rv_cap v'" "2 * rv_cap v \<le> rv_cap v'"
proof -
  let ?cap = "max (min_non_zero_cap (lay_size (rv_elem v))) (max (rv_cap v * 2) (len + additional))"
  have le: "rv_cap v \<le> ?cap" by simp
  show ?thesis
  proof (cases "len + additional \<le> usize_max")
    case False
    with sz req that(1) show ?thesis by (auto simp: grow_amortized_def checked_add_def)
  next
    case True
    then have *: "grow_amortized v len additional =
        try_then (finish_grow v ?cap) (\<lambda>m. Inr (Inr (set_ptr_and_cap v m ?cap)))"
      using sz req by (simp add: grow_amortized_def checked_add_def Let_def)
    show ?thesis
    proof (cases rule: finish_grow_cases [OF inv sz le])
      case (1 e)
      then show ?thesis by (intro that(1) [of e]) (simp add: *)
    next
      case (2 m)
      with * that(2) [of "set_ptr_and_cap v m ?cap"] show ?thesis
        by (simp add: set_ptr_and_cap_def)
    qed
  qed
qed

lemma grow_exact_cases:
  assumes inv: "rv_inv v" and sz: "lay_size (rv_elem v) > 0" and req: "rv_cap v \<le> len + additional"
  obtains e where "grow_exact v len additional = Inr (Inl e)"
  | v' where "grow_exact v len additional = Inr (Inr v')" "rv_extends v v'"
      "rv_cap v' = len + additional"
proof (cases "len + additional \<le> usize_max")
  case False
  with sz that(1) show ?thesis by (auto simp: grow_exact_def checked_add_def)
next
  case True
  then have *: "grow_exact v len additional =
      try_then (finish_grow v (len + additional))
        (\<lambda>m. Inr (Inr (set_ptr_and_cap v m (len + additional))))"
    using sz by (simp add: grow_exact_def checked_add_def)
  show ?thesis
  proof (cases rule: finish_grow_cases [OF inv sz req])
    case (1 e)
    then show ?thesis by (intro that(1) [of e]) (simp add: *)
  next
    case (2 m)
    with * that(2) [of "set_ptr_and_cap v m (len + additional)"] show ?thesis
      by (simp add: set_ptr_and_cap_def)
  qed
qed


section \<open>Reserving and shrinking\<close>

lemma unwrap_reserve_simps [simp]:
  "unwrap_reserve (Inr (Inr x)) = Inr x" "unwrap_reserve (Inl f) = Inl f"
  "unwrap_reserve (Inr (Inl CapacityOverflow)) = Inl (Panic ''capacity overflow'')"
  "unwrap_reserve (Inr (Inl (AllocError l))) = Inl Abort"
  by (simp_all add: unwrap_reserve_def handle_error_def capacity_overflow_def)

text \<open>The two ways an infallible request can fail: a panic or an abort, never \<open>UB\<close>.\<close>

lemma unwrap_reserve_fails:
  obtains "unwrap_reserve (Inr (Inl e) :: (try_reserve_error + 'a) res) = Inl (Panic ''capacity overflow'')"
  | "unwrap_reserve (Inr (Inl e) :: (try_reserve_error + 'a) res) = Inl Abort"
  by (cases e) auto

lemma no_ub_unwrap_reserve: "no_ub m \<Longrightarrow> no_ub (unwrap_reserve m)"
proof (cases m)
  case (Inr r)
  then show ?thesis
    by (cases r) (auto simp: unwrap_reserve_def handle_error_def capacity_overflow_def
        split: try_reserve_error.splits)
qed (simp add: unwrap_reserve_def no_ub_def)

lemma grown_enough:
  assumes "rv_inv v" "lay_size (rv_elem v) > 0" "len \<le> rv_cap v"
    and "rv_extends v v'" "len + additional \<le> rv_cap v'"
  shows "\<not> needs_to_grow v' len additional"
  using assms rv_extendsD [OF assms(4)] by (subst needs_to_grow_iff) auto

lemma rv_try_reserve_cases:
  assumes inv: "rv_inv v" and sz: "lay_size (rv_elem v) > 0" and len: "len \<le> rv_cap v"
  obtains e where "rv_try_reserve v len additional = Inr (Inl e)"
  | v' where "rv_try_reserve v len additional = Inr (Inr v')" "rv_extends v v'"
      "len + additional \<le> rv_cap v'"
proof (cases "needs_to_grow v len additional")
  case False
  then show ?thesis
    using that(2) [of v] rv_extends_refl [OF inv] needs_to_grow_iff [OF inv sz len]
    by (simp add: rv_try_reserve_def)
next
  case True
  then have req: "rv_cap v \<le> len + additional" "additional > 0"
    using needs_to_grow_iff [OF inv sz len] len by auto
  show ?thesis
  proof (cases rule: grow_amortized_cases [OF inv sz req])
    case (1 e)
    with True show ?thesis by (intro that(1) [of e]) (simp add: rv_try_reserve_def)
  next
    case (2 v')
    with True show ?thesis
      by (intro that(2) [of v']) (simp_all add: rv_try_reserve_def grown_enough [OF inv sz len])
  qed
qed

lemma rv_try_reserve_exact_cases:
  assumes inv: "rv_inv v" and sz: "lay_size (rv_elem v) > 0" and len: "len \<le> rv_cap v"
  obtains e where "rv_try_reserve_exact v len additional = Inr (Inl e)"
  | v' where "rv_try_reserve_exact v len additional = Inr (Inr v')" "rv_extends v v'"
      "len + additional \<le> rv_cap v'"
proof (cases "needs_to_grow v len additional")
  case False
  then show ?thesis
    using that(2) [of v] rv_extends_refl [OF inv] needs_to_grow_iff [OF inv sz len]
    by (simp add: rv_try_reserve_exact_def)
next
  case True
  then have req: "rv_cap v \<le> len + additional"
    using needs_to_grow_iff [OF inv sz len] by auto
  show ?thesis
  proof (cases rule: grow_exact_cases [OF inv sz req])
    case (1 e)
    with True show ?thesis by (intro that(1) [of e]) (simp add: rv_try_reserve_exact_def)
  next
    case (2 v')
    with True show ?thesis
      by (intro that(2) [of v'])
        (simp_all add: rv_try_reserve_exact_def grown_enough [OF inv sz len])
  qed
qed

text \<open>\<open>reserve\<close>, \<open>reserve_exact\<close> and \<open>grow_one\<close> panic or abort where the fallible versions
  return an error.\<close>

definition reserve_fails :: "'a res \<Rightarrow> bool" where
  "reserve_fails r \<longleftrightarrow> r = Inl (Panic ''capacity overflow'') \<or> r = Inl Abort"

lemma reserve_fails_no_ub: "reserve_fails r \<Longrightarrow> no_ub r"
  by (auto simp: reserve_fails_def)

lemma reserve_fails_and_then: "reserve_fails m \<Longrightarrow> reserve_fails (and_then m f)"
  by (auto simp: reserve_fails_def)

lemma reserve_fails_unwrap: "m = Inr (Inl e) \<Longrightarrow> reserve_fails (unwrap_reserve m)"
  by (cases e) (auto simp: reserve_fails_def)

lemma rv_reserve_cases:
  assumes inv: "rv_inv v" and sz: "lay_size (rv_elem v) > 0" and len: "len \<le> rv_cap v"
  obtains "reserve_fails (rv_reserve v len additional)"
  | v' where "rv_reserve v len additional = Inr v'" "rv_extends v v'"
      "len + additional \<le> rv_cap v'"
proof (cases "needs_to_grow v len additional")
  case False
  then show ?thesis
    using that(2) [of v] rv_extends_refl [OF inv] needs_to_grow_iff [OF inv sz len]
    by (simp add: rv_reserve_def)
next
  case True
  then have req: "rv_cap v \<le> len + additional" "additional > 0"
    using needs_to_grow_iff [OF inv sz len] len by auto
  show ?thesis
    by (cases rule: grow_amortized_cases [OF inv sz req])
      (use True in \<open>auto simp: rv_reserve_def reserve_fails_unwrap intro: that\<close>)
qed

lemma rv_reserve_exact_cases:
  assumes "rv_inv v" "lay_size (rv_elem v) > 0" "len \<le> rv_cap v"
  obtains "reserve_fails (rv_reserve_exact v len additional)"
  | v' where "rv_reserve_exact v len additional = Inr v'" "rv_extends v v'"
      "len + additional \<le> rv_cap v'"
  by (cases rule: rv_try_reserve_exact_cases [OF assms, of additional])
    (auto simp: rv_reserve_exact_def reserve_fails_unwrap intro: that)

lemma grow_one_cases:
  assumes inv: "rv_inv v" and sz: "lay_size (rv_elem v) > 0"
  obtains "reserve_fails (grow_one v)"
  | v' where "grow_one v = Inr v'" "rv_extends v v'" "rv_cap v < rv_cap v'"
      "2 * rv_cap v \<le> rv_cap v'"
proof -
  have req: "rv_cap v \<le> rv_cap v + 1" "(0::nat) < 1" by simp_all
  show ?thesis
    by (cases rule: grow_amortized_cases [OF inv sz req])
      (auto simp: grow_one_def reserve_fails_unwrap intro: that)
qed

lemma rv_with_capacity_cases:
  assumes wf: "layout_wf e" "lay_align e dvd lay_size e" and sz: "lay_size e > 0"
  obtains "reserve_fails (rv_with_capacity_in n alloc e)"
  | v where "rv_with_capacity_in n alloc e = Inr v" "rv_inv v" "n \<le> rv_cap v" "rv_elem v = e"
proof (cases "lay_size e * n \<le> max_size_for_align (lay_align e)")
  case False
  then show ?thesis
    by (intro that(1)) (simp add: rv_with_capacity_in_def try_allocate_in_def
        layout_array_elem [OF wf] handle_error_def capacity_overflow_def reserve_fails_def)
next
  case True
  let ?L = "\<lparr>lay_size = lay_size e * n, lay_align = lay_align e\<rparr>"
  let ?v = "\<lparr>rv_mem = replicate n None, rv_cap = n, rv_alloc = alloc, rv_elem = e\<rparr>"
  have inv: "rv_inv ?v" using True wf sz by (simp add: rv_inv_def)
  have grow: "\<not> needs_to_grow ?v 0 n"
    using inv sz by (subst needs_to_grow_iff) simp_all
  have L: "layout_array n e = Inr ?L" using True by (simp add: layout_array_elem [OF wf])
  show ?thesis
  proof (cases "n = 0 \<or> alloc ?L")
    case False
    then show ?thesis
      using sz by (intro that(1)) (simp add: rv_with_capacity_in_def try_allocate_in_def L
          handle_error_def reserve_fails_def)
  next
    case True
    then have "rv_with_capacity_in n alloc e = Inr ?v"
      using sz grow by (auto simp: rv_with_capacity_in_def try_allocate_in_def L rv_new_in_def)
    with inv show ?thesis by (intro that(2) [of ?v]) simp_all
  qed
qed

lemma rv_shrink_cases:
  assumes inv: "rv_inv v" and sz: "lay_size (rv_elem v) > 0" and cap: "cap \<le> rv_cap v"
  obtains e where "rv_shrink v cap = Inr (Inl e)" "0 < cap"
  | v' where "rv_shrink v cap = Inr (Inr v')" "rv_inv v'"
      "v' = v\<lparr>rv_mem := take cap (rv_mem v), rv_cap := cap\<rparr>"
proof -
  let ?v' = "v\<lparr>rv_mem := take cap (rv_mem v), rv_cap := cap\<rparr>"
  have le: "lay_size (rv_elem v) * cap \<le> lay_size (rv_elem v) * rv_cap v" using cap by simp
  then have inv': "rv_inv ?v'"
    using inv cap order_trans [OF le] by (auto simp: rv_inv_def)
  have len: "length (rv_mem v) = rv_cap v" using inv by (simp add: rv_inv_def)
  have c: "cap \<le> rv_capacity v" using cap sz by (simp add: rv_capacity_def)
  let ?L = "\<lparr>lay_size = lay_size (rv_elem v) * cap, lay_align = lay_align (rv_elem v)\<rparr>"
  have "rv_shrink v cap = Inr (Inr ?v') \<or> (0 < cap \<and> rv_shrink v cap = Inr (Inl (AllocError ?L)))"
    using cap len le c sz
    by (auto simp: rv_shrink_def shrink_unchecked_def current_memory_inv [OF inv]
        alloc_shrink_def set_ptr_and_cap_def Let_def)
  with that inv' show ?thesis by blast
qed

section \<open>Geometric growth\<close>

text \<open>The interface a growing buffer offers: every growth at least doubles the capacity, and the
  capacity never passes \<open>isize::MAX\<close>. Few growths can then succeed in a row.\<close>

fun iterate_res :: "nat \<Rightarrow> ('s \<Rightarrow> 's res) \<Rightarrow> 's \<Rightarrow> 's res" where
  "iterate_res 0 f s = Inr s"
| "iterate_res (Suc k) f s = and_then (iterate_res k f s) f"

locale geometric_growth =
  fixes inv :: "'s \<Rightarrow> bool" and cap :: "'s \<Rightarrow> usize" and grow :: "'s \<Rightarrow> 's res"
  assumes grow_inv: "inv s \<Longrightarrow> grow s = Inr s' \<Longrightarrow> inv s'"
    and grow_more: "inv s \<Longrightarrow> grow s = Inr s' \<Longrightarrow> cap s < cap s' \<and> 2 * cap s \<le> cap s'"
    and cap_bound: "inv s \<Longrightarrow> cap s \<le> isize_max"
begin

lemma growths_double:
  "inv s \<Longrightarrow> iterate_res (Suc k) grow s = Inr s' \<Longrightarrow> inv s' \<and> 2 ^ k \<le> cap s'"
proof (induction k arbitrary: s')
  case 0
  then show ?case using grow_inv [of s s'] grow_more [of s s'] by (auto simp: Suc_le_eq)
next
  case (Suc k)
  obtain t where t: "iterate_res (Suc k) grow s = Inr t" "grow t = Inr s'"
    using Suc.prems(2) by (auto simp: and_then_Inr_iff)
  with Suc.IH [OF Suc.prems(1) t(1)] grow_inv [of t s'] grow_more [of t s'] show ?case by auto
qed

lemma growths_bounded:
  assumes "inv s" "iterate_res k grow s = Inr s'"
  shows "k \<le> 63"
proof (cases k)
  case (Suc n)
  then have "2 ^ n \<le> cap s'" "inv s'" using growths_double [of s n s'] assms by simp_all
  with cap_bound [of s'] have "2 ^ n < (2 :: nat) ^ 63" by (simp add: isize_max_num)
  then have "n < 63" by (rule power_less_imp_less_exp [rotated]) simp
  then show ?thesis using Suc by simp
qed simp

end

definition sized_inv :: "'a raw_vec \<Rightarrow> bool" where
  "sized_inv v \<longleftrightarrow> rv_inv v \<and> lay_size (rv_elem v) > 0"

interpretation raw: geometric_growth sized_inv rv_cap grow_one
proof
  fix s s' :: "'a raw_vec"
  assume s: "sized_inv s"
  then show "rv_cap s \<le> isize_max" by (simp add: sized_inv_def rv_inv_cap_le)
  assume run: "grow_one s = Inr s'"
  from s have "rv_inv s" "lay_size (rv_elem s) > 0" by (simp_all add: sized_inv_def)
  from grow_one_cases [OF this] run have "rv_extends s s'" "rv_cap s < rv_cap s'" "2 * rv_cap s \<le> rv_cap s'"
    by (auto simp: reserve_fails_def)
  with s show "sized_inv s'" "rv_cap s < rv_cap s' \<and> 2 * rv_cap s \<le> rv_cap s'"
    by (auto simp: sized_inv_def dest: rv_extendsD)
qed

section \<open>Properties\<close>


definition u64_layout :: layout where
  "u64_layout = \<lparr>lay_size = 8, lay_align = 8\<rparr>"

lemma u64_layout_ok: "layout_wf u64_layout" "lay_align u64_layout dvd lay_size u64_layout"
  "0 < lay_size u64_layout"
  by (auto simp: u64_layout_def layout_wf_iff isize_max_num intro: exI [of _ 3])

definition buffer_of :: "'a memory \<Rightarrow> 'a raw_vec" where
  "buffer_of m = \<lparr>rv_mem = m, rv_cap = length m, rv_alloc = (\<lambda>_. True), rv_elem = u64_layout\<rparr>"

lemma buffer_of_inv:
  assumes "length m \<le> 1000"
  shows "rv_inv (buffer_of m)"
  using assms u64_layout_ok
  by (simp add: buffer_of_def rv_inv_def)
    (simp add: u64_layout_def max_size_for_align_def isize_max_num)

lemma grow_one_empty: "grow_one (buffer_of ([] :: nat memory)) = Inr (buffer_of [None, None, None, None])"
proof -
  have "replicate 4 None = [None, None, None, None :: nat option]" by (simp add: numeral_eq_Suc)
  then show ?thesis
    using layout_array_elem [OF u64_layout_ok(1,2), of 4] current_memory_inv [OF buffer_of_inv [of "[] :: nat memory"]]
    by (simp add: grow_one_def grow_amortized_def finish_grow_def buffer_of_def set_ptr_and_cap_def
        min_non_zero_cap_def u64_layout_def max_size_for_align_def isize_max_num checked_add_def
        usize_max_num)
qed


text \<open>
  C36: \<open>try_reserve\<close> and \<open>reserve\<close>. \<open>try_reserve\<close> always returns, with an error or with a buffer that
  has room for \<open>len + additional\<close> elements and keeps every old slot; it is the identity when there
  was room already. \<open>reserve\<close> does the same, turning the error into a panic or an abort. Neither
  has undefined behaviour nor breaks the assumption it hands to the optimiser.
\<close>

theorem reserve_correct:
  assumes "rv_inv v" "lay_size (rv_elem v) > 0" "len \<le> rv_cap v"
  shows "\<exists>r. rv_try_reserve v len additional = Inr r \<and>
    rv_reserve v len additional = unwrap_reserve (Inr r) \<and>
    (case r of
       Inl e \<Rightarrow> rv_cap v < len + additional \<and> reserve_fails (unwrap_reserve (Inr r))
     | Inr v' \<Rightarrow> rv_extends v v' \<and> len + additional \<le> rv_cap v' \<and>
         (len + additional \<le> rv_cap v \<longrightarrow> v' = v) \<and>
         (rv_cap v < len + additional \<longrightarrow> 2 * rv_cap v \<le> rv_cap v'))"
proof (cases "rv_cap v < len + additional")
  case False
  then have "\<not> needs_to_grow v len additional" using needs_to_grow_iff [OF assms] by simp
  then show ?thesis
    using False rv_extends_refl [OF assms(1)]
    by (intro exI [of _ "Inr v"]) (simp add: rv_try_reserve_def rv_reserve_def)
next
  case True
  then have grow: "needs_to_grow v len additional" using needs_to_grow_iff [OF assms] by simp
  have req: "rv_cap v \<le> len + additional" "additional > 0" using True assms(3) by auto
  from grow_amortized_cases [OF assms(1,2) req] show ?thesis
  proof cases
    case (1 e)
    then show ?thesis
      using grow True
      by (intro exI [of _ "Inl e"])
        (simp add: rv_try_reserve_def rv_reserve_def reserve_fails_unwrap)
  next
    case (2 v')
    then show ?thesis
      using grow True grown_enough [OF assms 2(2,3)]
      by (intro exI [of _ "Inr v'"]) (simp add: rv_try_reserve_def rv_reserve_def)
  qed
qed

theorem reserve_correct_witness:
  "rv_try_reserve (buffer_of [Some (7 :: nat), None]) 1 1 = Inr (Inr (buffer_of [Some 7, None]))"
proof -
  let ?v = "buffer_of [Some (7 :: nat), None]"
  have pre: "rv_inv ?v" "0 < lay_size (rv_elem ?v)" "1 \<le> rv_cap ?v"
    using u64_layout_ok(3) buffer_of_inv [of "[Some (7 :: nat), None]"] by (simp_all add: buffer_of_def)
  have cap: "rv_cap ?v = 1 + 1" by (simp add: buffer_of_def)
  obtain r where r: "rv_try_reserve ?v 1 1 = Inr r"
    "case r of Inl e \<Rightarrow> rv_cap ?v < 1 + 1 \<and> reserve_fails (unwrap_reserve (Inr r))
     | Inr v' \<Rightarrow> rv_extends ?v v' \<and> 1 + 1 \<le> rv_cap v' \<and> (1 + 1 \<le> rv_cap ?v \<longrightarrow> v' = ?v) \<and>
         (rv_cap ?v < 1 + 1 \<longrightarrow> 2 * rv_cap ?v \<le> rv_cap v')"
    using reserve_correct [OF pre, of 1] by blast
  then show ?thesis using cap by (cases r) simp_all
qed



end
