(* ===== verification/Vec_Deque.thy ===== *)
theory Vec_Deque
  imports Raw_Vec
begin

text \<open>
  \<open>alloc::collections::VecDeque\<close>, part one: the ring buffer itself. The record is the struct:
  \<open>head\<close>, \<open>len\<close> and the \<open>RawVec\<close> buffer. This theory holds the index arithmetic, the unsafe
  block moves (above all \<open>wrap_copy\<close>, a \<open>memmove\<close> on the ring made of up to three linear
  moves), the handling of a capacity increase, and their specifications in the coordinates of
  the ring.
\<close>

section \<open>State and index arithmetic\<close>

record 'a vec_deque =
  vd_head :: usize
  vd_len :: usize
  vd_buf :: "'a raw_vec"

definition is_zst :: "'a vec_deque \<Rightarrow> bool" where
  "is_zst d \<longleftrightarrow> lay_size (rv_elem (vd_buf d)) = 0"

definition vd_capacity :: "'a vec_deque \<Rightarrow> usize" where
  "vd_capacity d = (if is_zst d then usize_max else rv_capacity (vd_buf d))"

abbreviation vd_mem :: "'a vec_deque \<Rightarrow> 'a memory" where
  "vd_mem d \<equiv> rv_mem (vd_buf d)"

definition set_mem :: "'a vec_deque \<Rightarrow> 'a memory \<Rightarrow> 'a vec_deque" where
  "set_mem d m = d\<lparr>vd_buf := (vd_buf d)\<lparr>rv_mem := m\<rparr>\<rparr>"

definition wrap_index :: "usize \<Rightarrow> usize \<Rightarrow> usize" where
  "wrap_index logical_index capacity =
     (if logical_index \<ge> capacity then logical_index - capacity else logical_index)"

definition wrap_add :: "'a vec_deque \<Rightarrow> usize \<Rightarrow> usize \<Rightarrow> usize" where
  "wrap_add d idx addend = wrap_index (wrapping_add idx addend) (vd_capacity d)"

definition to_physical_idx :: "'a vec_deque \<Rightarrow> usize \<Rightarrow> usize" where
  "to_physical_idx d idx = wrap_add d (vd_head d) idx"

definition wrap_sub :: "'a vec_deque \<Rightarrow> usize \<Rightarrow> usize \<Rightarrow> usize" where
  "wrap_sub d idx subtrahend =
     wrap_index (wrapping_add (wrapping_sub idx subtrahend) (vd_capacity d)) (vd_capacity d)"

definition is_full :: "'a vec_deque \<Rightarrow> bool" where
  "is_full d \<longleftrightarrow> vd_len d = vd_capacity d"

definition is_contiguous :: "'a vec_deque \<Rightarrow> bool" where
  "is_contiguous d \<longleftrightarrow> vd_head d \<le> vd_capacity d - vd_len d"

section \<open>Memory operations\<close>

definition buffer_read :: "'a vec_deque \<Rightarrow> usize \<Rightarrow> 'a res" where
  "buffer_read d off = ptr_read (vd_mem d) off"

definition buffer_write :: "'a vec_deque \<Rightarrow> usize \<Rightarrow> 'a \<Rightarrow> 'a vec_deque res" where
  "buffer_write d off v = and_then (ptr_write (vd_mem d) off v) (\<lambda>m. Inr (set_mem d m))"

definition buffer_range :: "'a vec_deque \<Rightarrow> usize \<times> usize \<Rightarrow> 'a list res" where
  "buffer_range d r = slice_at (vd_mem d) (fst r) (snd r)"

definition vd_copy :: "'a vec_deque \<Rightarrow> usize \<Rightarrow> usize \<Rightarrow> usize \<Rightarrow> 'a vec_deque res" where
  "vd_copy d src dst len =
     ensure DebugAssert (dst + len \<le> vd_capacity d)
       (ensure DebugAssert (src + len \<le> vd_capacity d)
         (and_then (ptr_copy (vd_mem d) src dst len) (\<lambda>m. Inr (set_mem d m))))"

definition vd_copy_nonoverlapping ::
  "'a vec_deque \<Rightarrow> usize \<Rightarrow> usize \<Rightarrow> usize \<Rightarrow> 'a vec_deque res" where
  "vd_copy_nonoverlapping d src dst len =
     ensure DebugAssert (dst + len \<le> vd_capacity d)
       (ensure DebugAssert (src + len \<le> vd_capacity d)
         (and_then (ptr_copy_nonoverlapping (vd_mem d) src dst len) (\<lambda>m. Inr (set_mem d m))))"

definition wrap_copy :: "'a vec_deque \<Rightarrow> usize \<Rightarrow> usize \<Rightarrow> usize \<Rightarrow> 'a vec_deque res" where
  "wrap_copy d src dst len =
     ensure DebugAssert
       (min (abs_diff src dst) (vd_capacity d - abs_diff src dst) + len \<le> vd_capacity d)
       (if is_zst d \<or> src = dst \<or> len = 0 then Inr d
        else
          let dst_after_src = wrap_sub d dst src < len;
              src_pre_wrap_len = vd_capacity d - src;
              dst_pre_wrap_len = vd_capacity d - dst;
              src_wraps = src_pre_wrap_len < len;
              dst_wraps = dst_pre_wrap_len < len
          in case (dst_after_src, src_wraps, dst_wraps) of
               (_, False, False) \<Rightarrow> vd_copy d src dst len
             | (False, False, True) \<Rightarrow>
                 and_then (vd_copy d src dst dst_pre_wrap_len)
                   (\<lambda>d. vd_copy d (src + dst_pre_wrap_len) 0 (len - dst_pre_wrap_len))
             | (True, False, True) \<Rightarrow>
                 and_then (vd_copy d (src + dst_pre_wrap_len) 0 (len - dst_pre_wrap_len))
                   (\<lambda>d. vd_copy d src dst dst_pre_wrap_len)
             | (False, True, False) \<Rightarrow>
                 and_then (vd_copy d src dst src_pre_wrap_len)
                   (\<lambda>d. vd_copy d 0 (dst + src_pre_wrap_len) (len - src_pre_wrap_len))
             | (True, True, False) \<Rightarrow>
                 and_then (vd_copy d 0 (dst + src_pre_wrap_len) (len - src_pre_wrap_len))
                   (\<lambda>d. vd_copy d src dst src_pre_wrap_len)
             | (False, True, True) \<Rightarrow>
                 ensure DebugAssert (dst_pre_wrap_len > src_pre_wrap_len)
                   (let delta = dst_pre_wrap_len - src_pre_wrap_len
                    in and_then (vd_copy d src dst src_pre_wrap_len)
                        (\<lambda>d. and_then (vd_copy d 0 (dst + src_pre_wrap_len) delta)
                          (\<lambda>d. vd_copy d delta 0 (len - dst_pre_wrap_len))))
             | (True, True, True) \<Rightarrow>
                 ensure DebugAssert (src_pre_wrap_len > dst_pre_wrap_len)
                   (let delta = src_pre_wrap_len - dst_pre_wrap_len
                    in and_then (vd_copy d 0 delta (len - src_pre_wrap_len))
                        (\<lambda>d. and_then (vd_copy d (vd_capacity d - delta) 0 delta)
                          (\<lambda>d. vd_copy d src dst dst_pre_wrap_len))))"

text \<open>Copying a slice of another block into the ring, in order and reversed.\<close>

definition copy_slice :: "'a vec_deque \<Rightarrow> usize \<Rightarrow> 'a list \<Rightarrow> 'a vec_deque res" where
  "copy_slice d dst src =
     ensure DebugAssert (length src \<le> vd_capacity d)
       (let head_room = vd_capacity d - dst
        in if length src \<le> head_room
           then and_then (ptr_copy_from (vd_mem d) dst (map Some src)) (\<lambda>m. Inr (set_mem d m))
           else let left = take head_room src; right = drop head_room src
                in and_then (ptr_copy_from (vd_mem d) dst (map Some left))
                     (\<lambda>m. and_then (ptr_copy_from m 0 (map Some right))
                       (\<lambda>m. Inr (set_mem d m))))"

definition copy_slice_reversed :: "'a vec_deque \<Rightarrow> usize \<Rightarrow> 'a list \<Rightarrow> 'a vec_deque res" where
  "copy_slice_reversed d dst src =
     ensure DebugAssert (length src \<le> vd_capacity d)
       (let head_room = vd_capacity d - dst
        in if length src \<le> head_room
           then and_then (ptr_copy_from (vd_mem d) dst (map Some (rev src)))
                  (\<lambda>m. Inr (set_mem d m))
           else let left = take (length src - head_room) src;
                    right = drop (length src - head_room) src
                in and_then (ptr_copy_from (vd_mem d) dst (map Some (rev right)))
                     (\<lambda>m. and_then (ptr_copy_from m 0 (map Some (rev left)))
                       (\<lambda>m. Inr (set_mem d m))))"

definition handle_capacity_increase :: "'a vec_deque \<Rightarrow> usize \<Rightarrow> 'a vec_deque res" where
  "handle_capacity_increase d old_capacity =
     (let new_capacity = vd_capacity d
      in ensure DebugAssert (new_capacity \<ge> old_capacity)
        (and_then
          (if vd_head d \<le> old_capacity - vd_len d then Inr d
           else
             let head_len = old_capacity - vd_head d;
                 tail_len = vd_len d - head_len
             in if head_len > tail_len \<and> new_capacity - old_capacity \<ge> tail_len
                then vd_copy_nonoverlapping d 0 old_capacity tail_len
                else let new_head = new_capacity - head_len
                     in and_then (vd_copy d (vd_head d) new_head head_len)
                          (\<lambda>d. Inr (d\<lparr>vd_head := new_head\<rparr>)))
          (\<lambda>d. ensure DebugAssert (vd_head d < vd_capacity d \<or> vd_capacity d = 0) (Inr d))))"

section \<open>The ring\<close>

text \<open>Positions on a ring of \<open>c\<close> slots: \<open>i\<close> steps after \<open>h\<close>, and the distance from \<open>j\<close>
  forward to \<open>i\<close>.\<close>

definition ring_add :: "nat \<Rightarrow> nat \<Rightarrow> nat \<Rightarrow> nat" where
  "ring_add c h i = (if c \<le> h + i then h + i - c else h + i)"

definition ring_sub :: "nat \<Rightarrow> nat \<Rightarrow> nat \<Rightarrow> nat" where
  "ring_sub c i j = (if j \<le> i then i - j else i + c - j)"

lemmas ring_defs = ring_add_def ring_sub_def

lemma ring_sub_less: "i < c \<Longrightarrow> j < c \<Longrightarrow> ring_sub c i j < c"
  by (auto simp: ring_defs)

lemma ring_add_less: "h < c \<Longrightarrow> i < c \<Longrightarrow> ring_add c h i < c"
  by (auto simp: ring_defs)

lemma ring_add_sub [simp]: "i < c \<Longrightarrow> j < c \<Longrightarrow> ring_add c j (ring_sub c i j) = i"
  by (auto simp: ring_defs)

lemma ring_sub_add [simp]: "h < c \<Longrightarrow> i < c \<Longrightarrow> ring_sub c (ring_add c h i) h = i"
  by (auto simp: ring_defs)

lemma ring_add_inj: "h < c \<Longrightarrow> i < c \<Longrightarrow> j < c \<Longrightarrow> ring_add c h i = ring_add c h j \<longleftrightarrow> i = j"
  by (auto simp: ring_defs split: if_splits)

text \<open>Well-formedness: the struct's own invariant, for elements of non-zero size.\<close>

definition vd_wf :: "'a vec_deque \<Rightarrow> bool" where
  "vd_wf d \<longleftrightarrow> rv_inv (vd_buf d) \<and> 0 < lay_size (rv_elem (vd_buf d)) \<and>
     (vd_head d < rv_cap (vd_buf d) \<or> rv_cap (vd_buf d) = 0 \<and> vd_head d = 0) \<and>
     vd_len d \<le> rv_cap (vd_buf d)"

abbreviation vd_cap :: "'a vec_deque \<Rightarrow> usize" where
  "vd_cap d \<equiv> rv_cap (vd_buf d)"

lemma vd_wf_simps:
  assumes "vd_wf d"
  shows "vd_capacity d = vd_cap d" "\<not> is_zst d" "length (vd_mem d) = vd_cap d"
    "vd_len d \<le> vd_cap d" "vd_cap d \<le> isize_max"
  using assms rv_inv_cap_le [of "vd_buf d"]
  by (auto simp: vd_wf_def vd_capacity_def is_zst_def rv_capacity_def rv_inv_def)

lemma set_mem_simps [simp]:
  "vd_head (set_mem d m) = vd_head d" "vd_len (set_mem d m) = vd_len d"
  "vd_mem (set_mem d m) = m" "rv_cap (vd_buf (set_mem d m)) = vd_cap d"
  "rv_elem (vd_buf (set_mem d m)) = rv_elem (vd_buf d)"
  "vd_capacity (set_mem d m) = vd_capacity d" "is_zst (set_mem d m) = is_zst d"
  "set_mem (set_mem d m) m' = set_mem d m'" "set_mem d (vd_mem d) = d"
  by (simp_all add: set_mem_def vd_capacity_def is_zst_def rv_capacity_def)

lemma set_mem_wf [simp]: "vd_wf d \<Longrightarrow> length m = vd_cap d \<Longrightarrow> vd_wf (set_mem d m)"
  by (simp add: vd_wf_def rv_inv_def set_mem_def)

lemma wrap_add_ring:
  assumes "vd_wf d" "i \<le> vd_cap d" "j \<le> vd_cap d"
  shows "wrap_add d i j = ring_add (vd_cap d) i j"
proof -
  have "i + j \<le> usize_max"
    using assms vd_wf_simps(5) [OF assms(1)] by (simp add: isize_max_num usize_max_num)
  then show ?thesis
    using vd_wf_simps(1) [OF assms(1)]
    by (simp add: wrap_add_def wrapping_add_small wrap_index_def ring_add_def)
qed

lemma to_physical_idx_ring:
  assumes "vd_wf d" "i \<le> vd_cap d"
  shows "to_physical_idx d i = ring_add (vd_cap d) (vd_head d) i"
  using assms by (auto simp: to_physical_idx_def wrap_add_ring vd_wf_def)

lemma wrap_sub_ring:
  assumes "vd_wf d" "i < vd_cap d \<or> i = 0" "j \<le> vd_cap d"
  shows "wrap_sub d i j = (if j \<le> i then i - j else i + vd_cap d - j)"
proof -
  have c: "vd_cap d \<le> isize_max" "vd_capacity d = vd_cap d"
    using vd_wf_simps [OF assms(1)] by simp_all
  show ?thesis
  proof (cases "j \<le> i")
    case True
    then show ?thesis
      using c assms by (auto simp: wrap_sub_def wrapping_sub_ge wrapping_add_small wrap_index_def
          isize_max_num usize_max_num)
  next
    case False
    have "i \<le> vd_cap d" using assms(2) by auto
    then have "wrapping_add (wrapping_sub i j) (vd_cap d) = i + vd_cap d - j"
      using False c assms(3)
      by (simp add: wrapping_sub_def wrapping_add_def isize_max_num mod_if) linarith
    then show ?thesis
      using False c assms by (auto simp: wrap_sub_def wrap_index_def)
  qed
qed

lemma vd_copy_Inr [simp]:
  "vd_wf d \<Longrightarrow> src + n \<le> vd_cap d \<Longrightarrow> dst + n \<le> vd_cap d \<Longrightarrow>
    vd_copy d src dst n = Inr (set_mem d (move_slots (vd_mem d) src dst n))"
  by (simp add: vd_copy_def vd_wf_simps)

lemma vd_copy_nonoverlapping_Inr [simp]:
  "vd_wf d \<Longrightarrow> src + n \<le> vd_cap d \<Longrightarrow> dst + n \<le> vd_cap d \<Longrightarrow>
    src + n \<le> dst \<or> dst + n \<le> src \<Longrightarrow>
    vd_copy_nonoverlapping d src dst n = Inr (set_mem d (move_slots (vd_mem d) src dst n))"
  by (simp add: vd_copy_nonoverlapping_def vd_wf_simps)

text \<open>The index computed by \<open>wrap_index\<close> satisfies its debug assertion, also for
  \<open>wrap_sub\<close>, whose intermediate value may have wrapped around.\<close>

lemma wrap_index_assertion:
  assumes "vd_wf d" "i \<le> vd_cap d"
  shows "let l = wrapping_add (vd_head d) i; c = vd_capacity d
    in (l = 0 \<and> c = 0) \<or> l < c \<or> l - c < c"
proof -
  have "vd_head d + i \<le> usize_max"
    using assms vd_wf_simps(5) [OF assms(1)] by (auto simp: isize_max_num usize_max_num vd_wf_def)
  then show ?thesis
    using assms vd_wf_simps(1) [OF assms(1)] by (auto simp: Let_def wrapping_add_small vd_wf_def)
qed

section \<open>The ring move\<close>

text \<open>The contents of a ring of \<open>c\<close> slots after \<open>n\<close> slots moved from \<open>s\<close> to \<open>t\<close>.\<close>

definition ring_moved :: "'a memory \<Rightarrow> nat \<Rightarrow> nat \<Rightarrow> nat \<Rightarrow> nat \<Rightarrow> 'a memory \<Rightarrow> bool" where
  "ring_moved m c s t n m' \<longleftrightarrow> length m' = c \<and>
     (\<forall>i < c. m' ! i =
       (if ring_sub c i t < n then m ! (ring_add c s (ring_sub c i t)) else m ! i))"

lemma ring_movedI:
  assumes "length m' = c"
    and "\<And>i. i < c \<Longrightarrow> m' ! i =
       (if ring_sub c i t < n then m ! (ring_add c s (ring_sub c i t)) else m ! i)"
  shows "ring_moved m c s t n m'"
  using assms by (simp add: ring_moved_def)

text \<open>The content of the destination, slot by slot: the part before the end of the buffer, the
  wrapped part, and the rest.\<close>

lemma ring_moved_pieces:
  assumes "length m' = c" "t < c" "n \<le> c"
    and near: "\<And>k. k < n \<Longrightarrow> t + k < c \<Longrightarrow> m' ! (t + k) = m ! ring_add c s k"
    and wrapped: "\<And>k. k < n \<Longrightarrow> c \<le> t + k \<Longrightarrow> m' ! (t + k - c) = m ! ring_add c s k"
    and rest: "\<And>i. i < c \<Longrightarrow> t + n \<le> i \<or> i < t \<and> t + n - c \<le> i \<Longrightarrow> m' ! i = m ! i"
  shows "ring_moved m c s t n m'"
proof (rule ring_movedI)
  fix i assume i: "i < c"
  show "m' ! i = (if ring_sub c i t < n then m ! ring_add c s (ring_sub c i t) else m ! i)"
  proof (cases "t \<le> i")
    case True
    then show ?thesis
      using near [of "i - t"] rest [of i] i by (auto simp: ring_sub_def)
  next
    case False
    then show ?thesis
      using wrapped [of "i + c - t"] rest [of i] i assms(2,3) by (auto simp: ring_sub_def)
  qed
qed (use assms(1) in simp)

lemma moved_no_wrap:
  assumes "length m = c" "s + n \<le> c" "t + n \<le> c" "t < c"
  shows "ring_moved m c s t n (move_slots m s t n)"
  using assms by (intro ring_moved_pieces) (auto simp: nth_move_slots ring_add_def)

lemma moved_dst_wraps_before:
  assumes "length m = s + e + b" "0 < b" "b + f \<le> e"
  shows "ring_moved m (s + e + b) (s) (s + e) (b + f)
    (move_slots (move_slots m s (s + e) b) (s + b) 0 f)"
  using assms by (intro ring_moved_pieces) (auto simp: nth_move_slots ring_add_def)

lemma moved_dst_wraps_after:
  assumes "length m = s + e + b" "0 < b" "0 < e" "f \<le> e" "f \<le> s"
  shows "ring_moved m (s + e + b) (s) (s + e) (b + f)
    (move_slots (move_slots m (s + b) 0 f) s (s + e) b)"
  using assms by (intro ring_moved_pieces) (auto simp: nth_move_slots ring_add_def)

lemma moved_src_wraps_before:
  assumes "length m = t + e + a" "0 < a" "0 < e" "f \<le> e" "f \<le> t"
  shows "ring_moved m (t + e + a) (t + e) (t) (a + f)
    (move_slots (move_slots m (t + e) t a) 0 (t + a) f)"
  using assms by (intro ring_moved_pieces) (auto simp: nth_move_slots ring_add_def)

lemma moved_src_wraps_after:
  assumes "length m = t + e + a" "0 < a" "a + f \<le> e"
  shows "ring_moved m (t + e + a) (t + e) (t) (a + f)
    (move_slots (move_slots m 0 (t + a) f) (t + e) t a)"
  using assms by (intro ring_moved_pieces) (auto simp: nth_move_slots ring_add_def)

lemma moved_both_wrap_before:
  assumes "length m = t + e + a" "0 < a" "0 < e" "f + e \<le> t"
  shows "ring_moved m (t + e + a) (t + e) (t) (e + a + f)
    (move_slots (move_slots (move_slots m (t + e) t a) 0 (t + a) e) e 0 f)"
  using assms by (intro ring_moved_pieces) (auto simp: nth_move_slots ring_add_def)

lemma moved_both_wrap_after:
  assumes "length m = s + e + b" "0 < b" "0 < e" "f + e \<le> s"
  shows "ring_moved m (s + e + b) (s) (s + e) (e + b + f)
    (move_slots (move_slots (move_slots m 0 e f) (s + b) 0 e) s (s + e) b)"
  using assms by (intro ring_moved_pieces) (auto simp: nth_move_slots ring_add_def add.commute)

lemma moved_refl:
  assumes "length m = c" "s < c" "s = t \<or> n = 0"
  shows "ring_moved m c s t n m"
  using assms by (auto simp: ring_moved_def ring_defs)

text \<open>The capacity, the two positions and the distance of the wrapped parts, written as sums:
  which range wraps around the end of the buffer, and which one lies before the other.\<close>

lemma wrap_copy_cases [consumes 3, case_names no_wrap dst_wraps src_wraps both_after both_before]:
  fixes c s t n :: nat
  assumes "s < c" "t < c" "min (abs_diff s t) (c - abs_diff s t) + n \<le> c"
  obtains "s + n \<le> c" "t + n \<le> c"
  | e b f where "t = s + e" "c = s + e + b" "n = b + f" "0 < b" "0 < e" "0 < f" "f \<le> e"
      "b + f \<le> e \<or> f \<le> s"
  | e a f where "s = t + e" "c = t + e + a" "n = a + f" "0 < a" "0 < e" "0 < f" "f \<le> e"
      "a + f \<le> e \<or> f \<le> t"
  | e b f where "t = s + e" "c = s + e + b" "n = e + b + f" "0 < b" "0 < e" "0 < f" "f + e \<le> s"
  | e a f where "s = t + e" "c = t + e + a" "n = e + a + f" "0 < a" "0 < e" "0 < f" "f + e \<le> t"
  | "s = t"
proof -
  consider "s = t" | "s + n \<le> c" "t + n \<le> c" | "s < t" "s + n \<le> c" "c < t + n"
    | "t < s" "c < s + n" "t + n \<le> c" | "s < t" "c < s + n" | "t < s" "c < t + n"
    by linarith
  then show thesis
  proof cases
    case 3
    then show thesis
      using assms by (intro that(2) [of "t - s" "c - t" "n - (c - t)"]) (auto simp: abs_diff_def min_def split: if_splits)
  next
    case 4
    then show thesis
      using assms by (intro that(3) [of "s - t" "c - s" "n - (c - s)"]) (auto simp: abs_diff_def min_def split: if_splits)
  next
    case 5
    then show thesis
      using assms by (intro that(4) [of "t - s" "c - t" "n - (c - s)"]) (auto simp: abs_diff_def min_def split: if_splits)
  next
    case 6
    then show thesis
      using assms by (intro that(5) [of "s - t" "c - s" "n - (c - t)"]) (auto simp: abs_diff_def min_def split: if_splits)
  qed (use that in blast)+
qed

lemma wrap_copy_ring:
  assumes wf: "vd_wf d" and s: "src < vd_cap d" and t: "dst < vd_cap d"
    and pre: "min (abs_diff src dst) (vd_cap d - abs_diff src dst) + n \<le> vd_cap d"
  obtains m' where "wrap_copy d src dst n = Inr (set_mem d m')"
    "ring_moved (vd_mem d) (vd_cap d) src dst n m'"
proof -
  note wfs = vd_wf_simps [OF wf]
  have das: "wrap_sub d dst src = (if src \<le> dst then dst - src else dst + vd_cap d - src)"
    using wrap_sub_ring [OF wf, of dst src] s t by simp
  note unf = wrap_copy_def Let_def wfs
  show thesis
  proof (cases "src = dst \<or> n = 0")
    case True
    then show thesis
      using that [of "vd_mem d"] moved_refl [OF wfs(3) s True] pre
      by (simp add: unf)
  next
    case ne: False
    from s t pre show thesis
    proof (cases rule: wrap_copy_cases)
      case no_wrap
      then have "\<not> vd_cap d - src < n" "\<not> vd_cap d - dst < n" by linarith+
      with no_wrap show thesis
        using wf pre ne by (intro that [OF _ moved_no_wrap [OF wfs(3) no_wrap t]])
          (cases "wrap_sub d dst src < n", simp_all add: wrap_copy_def Let_def wfs not_less)
    next
      case (dst_wraps e b f)
      note len = wfs(3) [unfolded dst_wraps(2)]
      show thesis
      proof (cases "b + f \<le> e")
        case True
        note moved = moved_dst_wraps_before [OF len \<open>0 < b\<close> True]
        from True show thesis
          using wf pre ne dst_wraps(4-) by (intro that [OF _ moved [folded dst_wraps(1-3)]]) (simp add: unf dst_wraps(1-3) das [unfolded dst_wraps(1-3)])
      next
        case False
        with dst_wraps have "f \<le> src" by simp
        note moved = moved_dst_wraps_after [OF len \<open>0 < b\<close> \<open>0 < e\<close> \<open>f \<le> e\<close> this]
        from False show thesis
          using wf pre ne dst_wraps(4-) by (intro that [OF _ moved [folded dst_wraps(1-3)]]) (simp add: unf dst_wraps(1-3) das [unfolded dst_wraps(1-3)])
      qed
    next
      case (src_wraps e a f)
      note len = wfs(3) [unfolded src_wraps(2)]
      show thesis
      proof (cases "f \<le> dst")
        case True
        note moved = moved_src_wraps_before [OF len \<open>0 < a\<close> \<open>0 < e\<close> \<open>f \<le> e\<close> True]
        from True show thesis
          using wf pre ne src_wraps(4-) by (intro that [OF _ moved [folded src_wraps(1-3)]]) (simp add: unf src_wraps(1-3) das [unfolded src_wraps(1-3)])
      next
        case False
        with src_wraps have "a + f \<le> e" by simp
        note moved = moved_src_wraps_after [OF len \<open>0 < a\<close> this]
        from False show thesis
          using wf pre ne src_wraps(4-) by (intro that [OF _ moved [folded src_wraps(1-3)]]) (simp add: unf src_wraps(1-3) das [unfolded src_wraps(1-3)])
      qed
    next
      case (both_after e b f)
      note moved = moved_both_wrap_after [OF wfs(3) [unfolded both_after(2)]
          \<open>0 < b\<close> \<open>0 < e\<close> \<open>f + e \<le> src\<close>]
      show thesis
        using wf pre ne both_after(4-)
        by (intro that [OF _ moved [folded both_after(1-3)]]) (simp add: unf both_after(1-3) das [unfolded both_after(1-3)])
    next
      case (both_before e a f)
      note moved = moved_both_wrap_before [OF wfs(3) [unfolded both_before(2)]
          \<open>0 < a\<close> \<open>0 < e\<close> \<open>f + e \<le> dst\<close>]
      show thesis
        using wf pre ne both_before(4-)
        by (intro that [OF _ moved [folded both_before(1-3)]]) (simp add: unf both_before(1-3) das [unfolded both_before(1-3)])
    qed (use ne in simp)
  qed
qed

end
