(* ===== verification/Slice_Rotate.thy ===== *)
theory Slice_Rotate
  imports Rust_Prelude
begin

text \<open>
  \<open>core::slice::rotate\<close>: the in-place rotation of a range of memory. \<open>ptr_rotate\<close> chooses, by
  the sizes of the two parts and of the element type, among a \<open>memmove\<close> through a stack buffer,
  a cycle-leader walk whose number of rounds is the greatest common divisor of the parts,
  found during the first round, and repeated block swaps. The main result is that all three
  compute the same rotation and touch no other slot.
\<close>

section \<open>The three algorithms\<close>

text \<open>\<open>mid\<close> is an index into the memory \<open>m\<close>; the range is \<open>[mid - left, mid + right)\<close>.\<close>

definition ptr_rotate_memmove :: "'a memory \<Rightarrow> usize \<Rightarrow> usize \<Rightarrow> usize \<Rightarrow> 'a memory res" where
  "ptr_rotate_memmove m left mid right =
     ensure (UB OutOfBounds) (left \<le> mid \<and> mid + right \<le> length m)
       (let dim = mid - left + right
        in if left \<le> right
           then let buf = take left (drop (mid - left) m)
                in and_then (ptr_copy m mid (mid - left) right)
                     (\<lambda>m. ptr_copy_from m dim buf)
           else let buf = take right (drop mid m)
                in and_then (ptr_copy m (mid - left) dim left)
                     (\<lambda>m. ptr_copy_from m (mid - left) buf))"

text \<open>One round of the cycle walk: \<open>x\<close> is the start of the range, \<open>tmp\<close> the value in the air,
  and \<open>g\<close> the smallest position reached after a wrap-around so far.\<close>

fun cycle_loop ::
  "nat \<Rightarrow> 'a memory \<Rightarrow> usize \<Rightarrow> usize \<Rightarrow> usize \<Rightarrow> usize \<Rightarrow> usize \<Rightarrow> usize \<Rightarrow> 'a
    \<Rightarrow> ('a memory \<times> usize) res" where
  "cycle_loop 0 m x left right start i g tmp = Inl OutOfFuel"
| "cycle_loop (Suc fuel) m x left right start i g tmp =
     and_then (ptr_replace m (x + i) tmp) (\<lambda>(m, tmp).
       if i \<ge> left
       then let i = i - left
            in if i = start
               then and_then (ptr_write m (x + start) tmp) (\<lambda>m. Inr (m, g))
               else cycle_loop fuel m x left right start i (if i < g then i else g) tmp
       else cycle_loop fuel m x left right start (i + right) g tmp)"

fun cycle_rounds :: "'a memory \<Rightarrow> usize \<Rightarrow> usize \<Rightarrow> usize \<Rightarrow> usize list \<Rightarrow> 'a memory res" where
  "cycle_rounds m x left right [] = Inr m"
| "cycle_rounds m x left right (start # starts) =
     and_then (ptr_read m (x + start)) (\<lambda>tmp.
       and_then (cycle_loop (left + right) m x left right start (start + right) right tmp)
         (\<lambda>(m, _). cycle_rounds m x left right starts))"

definition ptr_rotate_gcd :: "'a memory \<Rightarrow> usize \<Rightarrow> usize \<Rightarrow> usize \<Rightarrow> 'a memory res" where
  "ptr_rotate_gcd m left mid right =
     ensure (UB OutOfBounds) (left \<le> mid)
       (let x = mid - left
        in and_then (ptr_read m x) (\<lambda>tmp.
             and_then (cycle_loop (left + right) m x left right 0 right right tmp)
               (\<lambda>(m, gcd). cycle_rounds m x left right [1..<gcd])))"

fun swap_left_loop ::
  "nat \<Rightarrow> 'a memory \<Rightarrow> usize \<Rightarrow> usize \<Rightarrow> usize \<Rightarrow> ('a memory \<times> usize \<times> usize) res" where
  "swap_left_loop 0 m left mid right = Inl OutOfFuel"
| "swap_left_loop (Suc fuel) m left mid right =
     and_then (ptr_swap_nonoverlapping m (mid - right) mid right) (\<lambda>m.
       let mid = mid - right; left = left - right
       in if left < right then Inr (m, left, mid)
          else swap_left_loop fuel m left mid right)"

fun swap_right_loop ::
  "nat \<Rightarrow> 'a memory \<Rightarrow> usize \<Rightarrow> usize \<Rightarrow> usize \<Rightarrow> ('a memory \<times> usize \<times> usize) res" where
  "swap_right_loop 0 m left mid right = Inl OutOfFuel"
| "swap_right_loop (Suc fuel) m left mid right =
     and_then (ptr_swap_nonoverlapping m (mid - left) mid left) (\<lambda>m.
       let mid = mid + left; right = right - left
       in if right < left then Inr (m, right, mid)
          else swap_right_loop fuel m left mid right)"

fun ptr_rotate_swap :: "nat \<Rightarrow> 'a memory \<Rightarrow> usize \<Rightarrow> usize \<Rightarrow> usize \<Rightarrow> 'a memory res" where
  "ptr_rotate_swap 0 m left mid right = Inl OutOfFuel"
| "ptr_rotate_swap (Suc fuel) m left mid right =
     (if left \<ge> right
      then and_then (swap_left_loop (left + 1) m left mid right) (\<lambda>(m, left, mid).
             if right = 0 \<or> left = 0 then Inr m else ptr_rotate_swap fuel m left mid right)
      else and_then (swap_right_loop (right + 1) m left mid right) (\<lambda>(m, right, mid).
             if right = 0 \<or> left = 0 then Inr m else ptr_rotate_swap fuel m left mid right))"

text \<open>The dispatch; \<open>sz\<close> is \<open>size_of::<T>()\<close>, 32 words of 8 bytes are the stack buffer.\<close>

definition ptr_rotate :: "usize \<Rightarrow> 'a memory \<Rightarrow> usize \<Rightarrow> usize \<Rightarrow> usize \<Rightarrow> 'a memory res" where
  "ptr_rotate sz m left mid right =
     (if sz = 0 then Inr m
      else if left = 0 \<or> right = 0 then Inr m
      else if min left right \<le> 256 div sz then ptr_rotate_memmove m left mid right
      else if left + right < 24 \<or> sz > 32 then ptr_rotate_gcd m left mid right
      else ptr_rotate_swap (left + right) m left mid right)"

text \<open>\<open><[T]>::rotate_left\<close> and \<open>rotate_right\<close> of the \<open>len\<close> slots from \<open>p\<close> on.\<close>

definition rotate_left :: "usize \<Rightarrow> 'a memory \<Rightarrow> usize \<Rightarrow> usize \<Rightarrow> usize \<Rightarrow> 'a memory res" where
  "rotate_left sz m p len mid =
     ensure (Panic ''assertion failed: mid <= self.len()'') (mid \<le> len)
       (let k = len - mid in ptr_rotate sz m mid (p + mid) k)"

definition rotate_right :: "usize \<Rightarrow> 'a memory \<Rightarrow> usize \<Rightarrow> usize \<Rightarrow> usize \<Rightarrow> 'a memory res" where
  "rotate_right sz m p len k =
     ensure (Panic ''assertion failed: k <= self.len()'') (k \<le> len)
       (let mid = len - k in ptr_rotate sz m mid (p + mid) k)"

section \<open>Specification\<close>

definition rotated :: "'a list \<Rightarrow> usize \<Rightarrow> usize \<Rightarrow> usize \<Rightarrow> 'a list" where
  "rotated m left mid right =
     take (mid - left) m @ take right (drop mid m) @ take left (drop (mid - left) m)
     @ drop (mid + right) m"

lemma length_rotated [simp]:
  "left \<le> mid \<Longrightarrow> mid + right \<le> length m \<Longrightarrow> length (rotated m left mid right) = length m"
  by (simp add: rotated_def)

lemma nth_rotated:
  assumes "left \<le> mid" "mid + right \<le> length m" "i < length m"
  shows "rotated m left mid right ! i =
    (if mid - left \<le> i \<and> i < mid - left + right then m ! (i + left)
     else if mid - left + right \<le> i \<and> i < mid + right then m ! (i - right) else m ! i)"
  using assms by (auto simp: rotated_def nth_append intro!: arg_cong [where f = "nth m"])

lemma rotated_nil [simp]:
  "left \<le> mid \<Longrightarrow> mid + right \<le> length m \<Longrightarrow> left = 0 \<or> right = 0 \<Longrightarrow> rotated m left mid right = m"
  by (intro nth_equalityI) (auto simp: nth_rotated)

text \<open>A range of \<open>n\<close> initialised slots.\<close>

definition init_range :: "'a memory \<Rightarrow> nat \<Rightarrow> nat \<Rightarrow> bool" where
  "init_range m p n \<longleftrightarrow> p + n \<le> length m \<and> (\<forall>i < n. m ! (p + i) \<noteq> None)"

section \<open>Rotation through a buffer\<close>

lemma ptr_rotate_memmove_correct:
  assumes "left \<le> mid" "mid + right \<le> length m"
  shows "ptr_rotate_memmove m left mid right = Inr (rotated m left mid right)"
proof -
  define p where "p = mid - left"
  have p: "mid = p + left" using assms by (simp add: p_def)
  show ?thesis
  proof (cases "left \<le> right")
    case True
    let ?m = "move_slots m mid p right"
    have "take (p + right) ?m @ take left (drop p m) @ drop (p + right + left) ?m =
        rotated m left mid right"
      using assms p by (intro nth_equalityI)
        (auto simp: nth_append nth_rotated nth_move_slots intro!: arg_cong [where f = "nth m"])
    then show ?thesis
      using True assms p by (simp add: ptr_rotate_memmove_def ptr_copy_from_def)
  next
    case False
    let ?m = "move_slots m p (p + right) left"
    have "take p ?m @ take right (drop mid m) @ drop (p + right) ?m = rotated m left mid right"
      using assms p by (intro nth_equalityI)
        (auto simp: nth_append nth_rotated nth_move_slots intro!: arg_cong [where f = "nth m"])
    then show ?thesis
      using False assms p by (simp add: ptr_rotate_memmove_def ptr_copy_from_def)
  qed
qed

section \<open>Rotation by block swaps\<close>

lemma swap_blocks:
  assumes "a + n \<le> b" "b + n \<le> length m"
  shows "ptr_swap_nonoverlapping m a b n = Inr
    (map (\<lambda>i. if a \<le> i \<and> i < a + n then m ! (b + (i - a))
       else if b \<le> i \<and> i < b + n then m ! (a + (i - b)) else m ! i) [0..<length m])"
  using assms by (simp add: ptr_swap_nonoverlapping_def)

text \<open>A range that is rotated can be cut at either end: swapping the outermost block of the
  longer part with the shorter part leaves a smaller rotation.\<close>

lemma rotated_swap_left:
  assumes "p + a + 2 * r \<le> length m"
  shows "rotated (map (\<lambda>i. if p + a \<le> i \<and> i < p + a + r then m ! (p + a + r + (i - (p + a)))
       else if p + a + r \<le> i \<and> i < p + a + r + r then m ! (p + a + (i - (p + a + r)))
       else m ! i) [0..<length m]) a (p + a) r = rotated m (a + r) (p + a + r) r"
  using assms by (intro nth_equalityI) (auto simp: nth_rotated add.commute)

lemma rotated_swap_right:
  assumes "p + 2 * l + a \<le> length m"
  shows "rotated (map (\<lambda>i. if p \<le> i \<and> i < p + l then m ! (p + l + (i - p))
       else if p + l \<le> i \<and> i < p + l + l then m ! (p + (i - (p + l)))
       else m ! i) [0..<length m]) l (p + l + l) a = rotated m l (p + l) (l + a)"
  using assms by (intro nth_equalityI) (auto simp: nth_rotated add.commute)

lemma swap_step_left:
  assumes "right \<le> left" "left \<le> mid" "mid + right \<le> length m"
  obtains m' where "ptr_swap_nonoverlapping m (mid - right) mid right = Inr m'"
    "length m' = length m"
    "rotated m' (left - right) (mid - right) right = rotated m left mid right"
proof -
  define p a where "p = mid - left" and "a = left - right"
  then have e: "mid = p + a + right" "left = a + right" and bnd: "p + a + 2 * right \<le> length m"
    using assms by auto
  have "ptr_swap_nonoverlapping m (p + a) (p + a + right) right = Inr
    (map (\<lambda>i. if p + a \<le> i \<and> i < p + a + right then m ! (p + a + right + (i - (p + a)))
       else if p + a + right \<le> i \<and> i < p + a + right + right
       then m ! (p + a + (i - (p + a + right))) else m ! i) [0..<length m])"
    using bnd by (intro swap_blocks) simp_all
  with rotated_swap_left [OF bnd] show thesis
    by (intro that) (simp_all add: e)
qed

lemma swap_step_right:
  assumes "left \<le> right" "left \<le> mid" "mid + right \<le> length m"
  obtains m' where "ptr_swap_nonoverlapping m (mid - left) mid left = Inr m'"
    "length m' = length m"
    "rotated m' left (mid + left) (right - left) = rotated m left mid right"
proof -
  define p a where "p = mid - left" and "a = right - left"
  then have e: "mid = p + left" "right = left + a" and bnd: "p + 2 * left + a \<le> length m"
    using assms by auto
  have "ptr_swap_nonoverlapping m p (p + left) left = Inr
    (map (\<lambda>i. if p \<le> i \<and> i < p + left then m ! (p + left + (i - p))
       else if p + left \<le> i \<and> i < p + left + left then m ! (p + (i - (p + left)))
       else m ! i) [0..<length m])"
    using bnd by (intro swap_blocks) simp_all
  with rotated_swap_right [OF bnd] show thesis
    by (intro that) (simp_all add: e)
qed

lemma swap_left_loop_correct:
  assumes "0 < right" "right \<le> left" "left \<le> mid" "mid + right \<le> length m" "left < fuel"
  shows "\<exists>m' left' mid'. swap_left_loop fuel m left mid right = Inr (m', left', mid') \<and>
    length m' = length m \<and> left' < right \<and> left' \<le> mid' \<and> mid' + right \<le> length m \<and>
    rotated m' left' mid' right = rotated m left mid right"
  using assms
proof (induction fuel arbitrary: m left mid)
  case (Suc fuel)
  obtain m1 where m1: "ptr_swap_nonoverlapping m (mid - right) mid right = Inr m1"
    "length m1 = length m"
    "rotated m1 (left - right) (mid - right) right = rotated m left mid right"
    using swap_step_left [OF Suc.prems(2-4)] by blast
  show ?case
  proof (cases "left - right < right")
    case True
    with m1 Suc.prems show ?thesis by (auto simp: Let_def)
  next
    case False
    with m1 Suc.prems Suc.IH [of "left - right" "mid - right" m1] show ?thesis
      by (auto simp: Let_def)
  qed
qed simp

lemma swap_right_loop_correct:
  assumes "0 < left" "left \<le> right" "left \<le> mid" "mid + right \<le> length m" "right < fuel"
  shows "\<exists>m' right' mid'. swap_right_loop fuel m left mid right = Inr (m', right', mid') \<and>
    length m' = length m \<and> right' < left \<and> left \<le> mid' \<and> mid' + right' \<le> length m \<and>
    rotated m' left mid' right' = rotated m left mid right"
  using assms
proof (induction fuel arbitrary: m right mid)
  case (Suc fuel)
  obtain m1 where m1: "ptr_swap_nonoverlapping m (mid - left) mid left = Inr m1"
    "length m1 = length m"
    "rotated m1 left (mid + left) (right - left) = rotated m left mid right"
    using swap_step_right [OF Suc.prems(2-4)] by blast
  show ?case
  proof (cases "right - left < left")
    case True
    with m1 Suc.prems show ?thesis by (auto simp: Let_def)
  next
    case False
    with m1 Suc.prems Suc.IH [of "right - left" "mid + left" m1] show ?thesis
      by (auto simp: Let_def)
  qed
qed simp

lemma ptr_rotate_swap_correct:
  assumes "0 < left" "0 < right" "left \<le> mid" "mid + right \<le> length m" "left + right \<le> fuel"
  shows "ptr_rotate_swap fuel m left mid right = Inr (rotated m left mid right)"
  using assms
proof (induction fuel arbitrary: m left mid right)
  case (Suc fuel)
  show ?case
  proof (cases "right \<le> left")
    case True
    obtain m' left' mid' where
      r: "swap_left_loop (left + 1) m left mid right = Inr (m', left', mid')"
        "length m' = length m" "left' < right" "left' \<le> mid'" "mid' + right \<le> length m"
        "rotated m' left' mid' right = rotated m left mid right"
      using swap_left_loop_correct [OF Suc.prems(2) True Suc.prems(3,4), of "left + 1"] by auto
    show ?thesis
    proof (cases "left' = 0")
      case False
      with r True Suc.prems Suc.IH [of left' right mid' m'] show ?thesis by simp
    qed (use r True Suc.prems in \<open>simp flip: r(6)\<close>)
  next
    case False
    obtain m' right' mid' where
      r: "swap_right_loop (right + 1) m left mid right = Inr (m', right', mid')"
        "length m' = length m" "right' < left" "left \<le> mid'" "mid' + right' \<le> length m"
        "rotated m' left mid' right' = rotated m left mid right"
      using swap_right_loop_correct [OF Suc.prems(1) _ Suc.prems(3,4), of "right + 1"] False
      by auto
    show ?thesis
    proof (cases "right' = 0")
      case True
      with r False Suc.prems show ?thesis by (simp flip: r(6))
    next
      case nz: False
      with r False Suc.prems Suc.IH [of left right' mid' m'] show ?thesis by simp
    qed
  qed
qed simp


section \<open>Rotation by cycles\<close>

text \<open>The positions visited by a round: \<open>k\<close> steps of \<open>right\<close> modulo \<open>n\<close>. A round has
  \<open>n div gcd n right\<close> steps and visits one residue class modulo the gcd.\<close>

definition walk :: "nat \<Rightarrow> nat \<Rightarrow> nat \<Rightarrow> nat \<Rightarrow> nat" where
  "walk n right start k = (start + k * right) mod n"

definition round_length :: "nat \<Rightarrow> nat \<Rightarrow> nat" where
  "round_length n right = n div gcd n right"

lemma round_length_dvd:
  fixes n right k :: nat
  assumes "0 < n"
  shows "n dvd k * right \<longleftrightarrow> round_length n right dvd k"
proof -
  let ?g = "gcd n right"
  define L q where "L = round_length n right" and "q = right div ?g"
  have g: "0 < ?g" using assms by simp
  have n: "n = L * ?g" and r: "right = q * ?g"
    by (simp_all add: L_def q_def round_length_def)
  have cop: "coprime L q"
    unfolding L_def q_def round_length_def using assms by (intro div_gcd_coprime) simp
  have "n dvd k * right \<longleftrightarrow> L * ?g dvd (k * q) * ?g"
    by (subst n, subst r) (simp add: mult.assoc)
  also have "\<dots> \<longleftrightarrow> L dvd k * q" using g by simp
  also have "\<dots> \<longleftrightarrow> L dvd k"
    using cop by (simp add: coprime_dvd_mult_left_iff)
  finally show ?thesis by (simp add: L_def)
qed

lemma round_length_gt_1:
  assumes "0 < right" "right < n"
  shows "1 < round_length n right"
proof -
  have "\<not> round_length n right dvd 1"
    using round_length_dvd [of n 1 right] assms by (auto dest: dvd_imp_le)
  moreover have "round_length n right \<noteq> 0"
    using assms gcd_le1_nat [of n right] by (auto simp: round_length_def div_eq_0_iff not_less)
  ultimately show ?thesis by (cases "round_length n right = 1") auto
qed

lemma round_length_le: "round_length n right \<le> n"
  by (simp add: round_length_def div_le_dividend)

lemma walk_less: "0 < n \<Longrightarrow> walk n right start k < n"
  by (simp add: walk_def)

lemma walk_eq_iff:
  assumes "0 < n" "a \<le> b"
  shows "walk n right start a = walk n right start b \<longleftrightarrow> round_length n right dvd b - a"
proof -
  have "walk n right start a = walk n right start b \<longleftrightarrow>
      n dvd (start + b * right) - (start + a * right)"
    unfolding walk_def using assms(2)
    by (metis add_le_cancel_left mod_eq_dvd_iff_nat mult_le_mono1)
  also have "(start + b * right) - (start + a * right) = (b - a) * right"
    by (simp add: diff_mult_distrib)
  finally show ?thesis using round_length_dvd [OF assms(1)] by simp
qed

lemma walk_inj: "0 < n \<Longrightarrow> inj_on (walk n right start) {0..<round_length n right}"
proof (rule linorder_inj_onI')
  fix i j assume "0 < n" "i \<in> {0..<round_length n right}" "j \<in> {0..<round_length n right}" "i < j"
  then have "\<not> round_length n right dvd j - i" by (auto dest: dvd_imp_le)
  then show "walk n right start i \<noteq> walk n right start j"
    using walk_eq_iff [of n i j] \<open>0 < n\<close> \<open>i < j\<close> by simp
qed

lemma walk_start: "start < n \<Longrightarrow> 0 < k \<Longrightarrow> k < round_length n right \<Longrightarrow> walk n right start k \<noteq> start"
  using walk_eq_iff [of n 0 k right start] by (auto simp: walk_def dest: dvd_imp_le)

lemma walk_end: "start < n \<Longrightarrow> walk n right start (round_length n right) = start"
  using walk_eq_iff [of n 0 "round_length n right" right start] by (auto simp: walk_def)

lemma card_residues:
  fixes n g s :: nat
  assumes "g dvd n" "s < g"
  shows "card {j. j < n \<and> j mod g = s} = n div g"
proof -
  have "{j. j < n \<and> j mod g = s} = (\<lambda>q. q * g + s) ` {0..<n div g}"
  proof (intro set_eqI iffI)
    fix j assume j: "j \<in> {j. j < n \<and> j mod g = s}"
    then have "j = j div g * g + s" by (metis (mono_tags) div_mult_mod_eq mem_Collect_eq)
    moreover have "j div g < n div g"
      using j assms by (metis (mono_tags) dvd_div_mult_self less_mult_imp_div_less mem_Collect_eq)
    ultimately show "j \<in> (\<lambda>q. q * g + s) ` {0..<n div g}" by auto
  next
    fix j assume "j \<in> (\<lambda>q. q * g + s) ` {0..<n div g}"
    then obtain q where q: "q < n div g" "j = q * g + s" by auto
    then have "j < (q + 1) * g" using assms(2) by simp
    also have "\<dots> \<le> n div g * g" using q(1) by (intro mult_le_mono1) simp
    also have "\<dots> = n" using assms(1) by simp
    finally show "j \<in> {j. j < n \<and> j mod g = s}" using q(2) assms(2) by simp
  qed
  moreover have "inj_on (\<lambda>q. q * g + s) {0..<n div g}"
    using assms(2) by (auto simp: inj_on_def)
  ultimately show ?thesis by (simp add: card_image)
qed

lemma walk_image:
  assumes "0 < n" "start < gcd n right"
  shows "walk n right start ` {0..<round_length n right} = {j. j < n \<and> j mod gcd n right = start}"
proof (rule card_seteq)
  show "walk n right start ` {0..<round_length n right} \<subseteq> {j. j < n \<and> j mod gcd n right = start}"
  proof -
    have "walk n right start k mod gcd n right = start" for k
    proof -
      have "walk n right start k mod gcd n right = (start + k * right) mod gcd n right"
        by (simp add: walk_def mod_mod_cancel)
      also have "\<dots> = start mod gcd n right"
        by (metis add.commute gcd_dvd2 dvd_mult mod_add_self2 dvd_def mod_mult_self2)
      finally show ?thesis using assms(2) by simp
    qed
    then show ?thesis using walk_less [OF assms(1)] by auto
  qed
  have "card {j. j < n \<and> j mod gcd n right = start} = round_length n right"
    using card_residues [OF _ assms(2)] by (simp add: round_length_def)
  then show "card {j. j < n \<and> j mod gcd n right = start} \<le>
      card (walk n right start ` {0..<round_length n right})"
    using walk_inj [OF assms(1)] by (simp add: card_image)
qed simp

lemma walk_Suc:
  assumes "n = left + right" "0 < left"
  shows "walk n right start (Suc k) =
    (if left \<le> walk n right start k then walk n right start k - left
     else walk n right start k + right)"
proof -
  let ?w = "walk n right start k"
  have w: "?w < n" using assms by (intro walk_less) simp
  have "walk n right start (Suc k) = (start + k * right + right) mod n"
    by (simp add: walk_def algebra_simps)
  also have "\<dots> = (?w + right) mod n"
    unfolding walk_def by (rule mod_add_left_eq [symmetric])
  finally show ?thesis using w assms(1) by (auto simp: mod_if)
qed

lemma back_step:
  "n = left + right \<Longrightarrow> 0 < left \<Longrightarrow> w < n \<Longrightarrow>
    ((if left \<le> w then w - left else w + right) + left) mod n = w"
  for n left right w :: nat
  by (auto simp: mod_if)


text \<open>The memory while a round is under way: the slots in \<open>D\<close> hold their final value, the
  others of the range \<open>[x, x + n)\<close> their original value \<open>v j\<close>.\<close>

definition partly_rotated ::
  "'a memory \<Rightarrow> 'a memory \<Rightarrow> nat \<Rightarrow> nat \<Rightarrow> nat \<Rightarrow> nat set \<Rightarrow> (nat \<Rightarrow> 'a) \<Rightarrow> bool" where
  "partly_rotated m0 m x n left D v \<longleftrightarrow> length m = length m0 \<and> x + n \<le> length m0 \<and>
     (\<forall>j < n. m ! (x + j) = Some (if j \<in> D then v ((j + left) mod n) else v j)) \<and>
     (\<forall>p < length m0. p < x \<or> x + n \<le> p \<longrightarrow> m ! p = m0 ! p)"

lemma partly_rotated_update:
  "partly_rotated m0 m x n left D v \<Longrightarrow> j < n \<Longrightarrow>
    partly_rotated m0 (m[x + j := Some (v ((j + left) mod n))]) x n left (insert j D) v"
  by (auto simp: partly_rotated_def nth_list_update)

lemma partly_rotated_read:
  "partly_rotated m0 m x n left D v \<Longrightarrow> j < n \<Longrightarrow> j \<notin> D \<Longrightarrow>
    x + j < length m \<and> m ! (x + j) = Some (v j)"
  by (simp add: partly_rotated_def)

lemma walk0_dvd: "gcd n right dvd walk n right 0 k"
  by (simp add: walk_def dvd_mod)

text \<open>What the running minimum \<open>g\<close> is good for: in the first round it ends up below every
  visited position, and it is always a multiple of the gcd.\<close>

definition gcd_bound :: "nat \<Rightarrow> nat \<Rightarrow> nat \<Rightarrow> nat \<Rightarrow> bool" where
  "gcd_bound n right k g \<longleftrightarrow> gcd n right dvd g \<and> 0 < g \<and> g \<le> right \<and>
     (\<forall>l\<in>{1..k}. g \<le> walk n right 0 l)"

lemma gcd_bound_step:
  assumes "gcd_bound n right k g" "n = left + right" "0 < left" "walk n right 0 (Suc k) \<noteq> 0"
  shows "gcd_bound n right (Suc k)
    (if left \<le> walk n right 0 k \<and> walk n right 0 (Suc k) < g then walk n right 0 (Suc k) else g)"
proof -
  let ?w = "walk n right 0 (Suc k)"
  let ?g = "if left \<le> walk n right 0 k \<and> ?w < g then ?w else g"
  have g: "gcd n right dvd g" "0 < g" "g \<le> right" "\<And>l. 1 \<le> l \<Longrightarrow> l \<le> k \<Longrightarrow> g \<le> walk n right 0 l"
    using assms(1) by (auto simp: gcd_bound_def)
  have le: "?g \<le> g" by simp
  have "?g \<le> ?w" using walk_Suc [OF assms(2,3), of 0 k] g(3) by auto
  moreover have "?g \<le> walk n right 0 l" if "1 \<le> l" "l \<le> k" for l
    using g(4) [OF that] le by simp
  moreover have "gcd n right dvd ?g" "0 < ?g" "?g \<le> right"
    using g assms(4) walk0_dvd [of n right "Suc k"] by auto
  ultimately show ?thesis by (auto simp: gcd_bound_def le_Suc_eq)
qed

text \<open>One round, from its \<open>k\<close>-th step on.\<close>

lemma cycle_loop_correct:
  assumes "0 < left" "0 < right" "n = left + right" "start < right" "start < n"
    and "0 < k" "k < round_length n right" "round_length n right - k \<le> fuel"
    and "partly_rotated m0 m x n left (D \<union> walk n right start ` {1..<k}) v"
    and "D \<inter> walk n right start ` {0..<round_length n right} = {}"
    and "tmp = v ((walk n right start k + left) mod n)"
    and "start = 0 \<Longrightarrow> gcd_bound n right k g"
  shows "\<exists>m' g'. cycle_loop fuel m x left right start (walk n right start k) g tmp = Inr (m', g') \<and>
    partly_rotated m0 m' x n left (D \<union> walk n right start ` {0..<round_length n right}) v \<and>
    (start = 0 \<longrightarrow> gcd_bound n right (round_length n right - 1) g')"
  using assms(6-9,11,12)
proof (induction fuel arbitrary: k m g tmp)
  case 0
  then show ?case by simp
next
  case (Suc fuel)
  let ?w = "walk n right start" and ?L = "round_length n right"
  have n0: "0 < n" using assms by simp
  have wk: "?w k < n" using walk_less [OF n0] by simp
  have fresh: "?w k \<notin> D \<union> ?w ` {1..<k}"
  proof -
    have "?w k \<noteq> ?w l" if "l \<in> {1..<k}" for l
      using inj_onD [OF walk_inj [OF n0], of right start l k] that Suc.prems(2) by auto
    then show ?thesis using Suc.prems(2) assms(10) by fastforce
  qed
  let ?m1 = "m[x + ?w k := Some tmp]"
  have rd: "ptr_replace m (x + ?w k) tmp = Inr (?m1, v (?w k))"
    using partly_rotated_read [OF Suc.prems(4) wk fresh] by simp
  have ins: "insert (?w k) (D \<union> ?w ` {1..<k}) = D \<union> ?w ` {1..<Suc k}"
    using Suc.prems(1) by (auto simp: less_Suc_eq)
  have m1: "partly_rotated m0 ?m1 x n left (D \<union> ?w ` {1..<Suc k}) v"
    using partly_rotated_update [OF Suc.prems(4) wk] Suc.prems(5) ins by simp
  have step: "?w (Suc k) = (if left \<le> ?w k then ?w k - left else ?w k + right)"
    using assms by (intro walk_Suc) auto
  have prv: "(?w (Suc k) + left) mod n = ?w k"
    unfolding step using assms wk by (intro back_step) auto
  show ?case
  proof (cases "Suc k = ?L")
    case True
    have fin: "?w (Suc k) = start" unfolding True using walk_end [OF assms(5)] .
    then have last: "left \<le> ?w k" "?w k - left = start"
      using step assms(4) by (auto split: if_splits)
    have "(start + left) mod n = ?w k" using prv fin by simp
    then have m2: "partly_rotated m0 (?m1[x + start := Some (v (?w k))]) x n left
        (insert start (D \<union> ?w ` {1..<?L})) v"
      using partly_rotated_update [OF m1 assms(5)] True by simp
    have "insert start (D \<union> ?w ` {1..<?L}) = D \<union> ?w ` {0..<?L}"
    proof -
      have "{0..<?L} = insert 0 {1..<?L}" using Suc.prems(2) by auto
      moreover have "?w 0 = start" using assms(5) by (simp add: walk_def)
      ultimately show ?thesis by auto
    qed
    moreover have "x + start < length ?m1" using m1 assms(5) by (simp add: partly_rotated_def)
    moreover have "k = ?L - 1" using True by simp
    ultimately show ?thesis
      using rd last m2 Suc.prems(6) by auto
  next
    case False
    then have k: "Suc k < ?L" using Suc.prems(2) by simp
    have ne: "?w (Suc k) \<noteq> start" using walk_start [OF assms(5) _ k] by simp
    let ?g = "if left \<le> ?w k \<and> ?w (Suc k) < g then ?w (Suc k) else g"
    have g: "gcd_bound n right (Suc k) ?g" if 0: "start = 0"
    proof -
      have "walk n right 0 (Suc k) \<noteq> 0" using ne unfolding 0 .
      from gcd_bound_step [OF Suc.prems(6) [OF 0] assms(3,1) this] show ?thesis unfolding 0 .
    qed
    have "\<exists>m' g'. cycle_loop fuel ?m1 x left right start (?w (Suc k)) ?g (v (?w k)) = Inr (m', g') \<and>
      partly_rotated m0 m' x n left (D \<union> ?w ` {0..<?L}) v \<and>
      (start = 0 \<longrightarrow> gcd_bound n right (?L - 1) g')"
      using Suc.prems(3) k m1 prv g by (intro Suc.IH) auto
    then show ?thesis using rd step ne by (auto simp: Let_def split: if_splits)
  qed
qed

text \<open>The minimum found by the first round is the gcd.\<close>

lemma gcd_bound_final:
  assumes "0 < left" "0 < right" "n = left + right" "gcd_bound n right (round_length n right - 1) g"
  shows "g = gcd n right"
proof -
  let ?L = "round_length n right"
  have n: "0 < n" "right < n" using assms by auto
  have "gcd n right \<le> right" using assms(2) by (intro gcd_le2_nat) simp
  then have "gcd n right < n" using n(2) by simp
  then have "gcd n right \<in> {j. j < n \<and> j mod gcd n right = 0}" by simp
  also have "\<dots> = walk n right 0 ` {0..<?L}" using walk_image [OF n(1), of 0 right] n by simp
  finally obtain l where l: "l < ?L" "walk n right 0 l = gcd n right" by auto
  have "l \<noteq> 0"
  proof
    assume "l = 0"
    with l(2) have "gcd n right = 0" by (simp add: walk_def)
    with n(1) show False by simp
  qed
  with l(1) have "l \<in> {1..?L - 1}" by simp
  then have "g \<le> walk n right 0 l" using assms(4) unfolding gcd_bound_def by blast
  with l(2) have "g \<le> gcd n right" by simp
  moreover have "gcd n right \<le> g" using assms(4) by (auto simp: gcd_bound_def intro: dvd_imp_le)
  ultimately show ?thesis by simp
qed

lemma cycle_rounds_correct:
  assumes "0 < left" "0 < right" "n = left + right" "s \<le> gcd n right"
    and "partly_rotated m0 m x n left {j. j < n \<and> j mod gcd n right < s} v"
  shows "\<exists>m'. cycle_rounds m x left right [s..<gcd n right] = Inr m' \<and>
    partly_rotated m0 m' x n left {j. j < n} v"
  using assms(4,5)
proof (induction "gcd n right - s" arbitrary: s m)
  case 0
  have "0 < gcd n right" using assms by simp
  with 0 show ?case by simp
next
  case (Suc d)
  let ?g = "gcd n right" and ?L = "round_length n right"
  have s: "s < ?g" using Suc.hyps(2) by simp
  have g: "?g \<le> right" "?g \<le> left"
    using assms(1-3) gcd_le2_nat [of right left] gcd_le1_nat [of left right] by simp_all
  have n: "0 < n" "s < n" "s < right" "s < left" using assms s g by auto
  have L: "1 < ?L" using assms by (intro round_length_gt_1) auto
  have img: "walk n right s ` {0..<?L} = {j. j < n \<and> j mod ?g = s}"
    using walk_image [OF n(1) s] .
  have w1: "walk n right s 1 = s + right" using n assms by (simp add: walk_def)
  have "x + s < length m" "m ! (x + s) = Some (v s)"
    using partly_rotated_read [OF Suc.prems(2) n(2)] s by auto
  then have rd: "ptr_read m (x + s) = Inr (v s)" by simp
  have prv: "v s = v ((walk n right s 1 + left) mod n)"
  proof -
    have "(s + right + left) mod n = s" using n assms(3) by (simp add: mod_if)
    then show ?thesis unfolding w1 by simp
  qed
  have "\<exists>m' g'. cycle_loop (left + right) m x left right s (walk n right s 1) right (v s) = Inr (m', g') \<and>
    partly_rotated m0 m' x n left ({j. j < n \<and> j mod ?g < s} \<union> walk n right s ` {0..<?L}) v \<and>
    (s = 0 \<longrightarrow> gcd_bound n right (?L - 1) g')"
  proof (rule cycle_loop_correct [where start = s and k = 1 and v = v, OF assms(1-3) n(3,2) _ L _ _ _ prv])
    show "?L - 1 \<le> left + right" using round_length_le [of n right] assms(3) by simp
    show "partly_rotated m0 m x n left ({j. j < n \<and> j mod ?g < s} \<union> walk n right s ` {1..<1}) v"
      using Suc.prems(2) by simp
    show "gcd_bound n right 1 right" if "s = 0"
      using w1 assms that by (simp add: gcd_bound_def)
  qed (auto simp: img)
  then obtain m' g' where r: "cycle_loop (left + right) m x left right s (s + right) right (v s) = Inr (m', g')"
    "partly_rotated m0 m' x n left ({j. j < n \<and> j mod ?g < s} \<union> {j. j < n \<and> j mod ?g = s}) v"
    unfolding w1 img by blast
  have "{j. j < n \<and> j mod ?g < s} \<union> {j. j < n \<and> j mod ?g = s} = {j. j < n \<and> j mod ?g < Suc s}"
    by auto
  moreover have "d = ?g - Suc s" using Suc.hyps(2) by simp
  ultimately obtain m'' where "cycle_rounds m' x left right [Suc s..<?g] = Inr m''"
      "partly_rotated m0 m'' x n left {j. j < n} v"
    using Suc.hyps(1) [of "Suc s" m'] s r(2) by auto
  then show ?case using rd r(1) s by (simp add: upt_conv_Cons)
qed


lemma ptr_rotate_gcd_correct:
  assumes "0 < left" "0 < right" "left \<le> mid" "init_range m (mid - left) (left + right)"
  shows "ptr_rotate_gcd m left mid right = Inr (rotated m left mid right)"
proof -
  define n x where "n = left + right" and "x = mid - left"
  let ?L = "round_length n right" and ?g = "gcd n right"
  define v where "v j = the (m ! (x + j))" for j
  have len: "x + n \<le> length m" and init: "\<And>j. j < n \<Longrightarrow> m ! (x + j) = Some (v j)"
    using assms(4) by (auto simp: init_range_def n_def x_def v_def)
  have start: "partly_rotated m m x n left {} v"
    using len init by (simp add: partly_rotated_def)
  have n: "0 < n" "right < n" "0 < ?g" using assms by (auto simp: n_def)
  have L: "1 < ?L" using assms n by (intro round_length_gt_1) auto
  have w1: "walk n right 0 1 = right" using n by (simp add: walk_def)
  have v0: "v 0 = v ((walk n right 0 1 + left) mod n)"
    unfolding w1 by (simp add: n_def add.commute)
  have img: "walk n right 0 ` {0..<?L} = {j. j < n \<and> j mod ?g < Suc 0}"
    using walk_image [OF n(1,3)] by simp
  have "\<exists>m' g'. cycle_loop (left + right) m x left right 0 (walk n right 0 1) right (v 0) = Inr (m', g') \<and>
    partly_rotated m m' x n left ({} \<union> walk n right 0 ` {0..<?L}) v \<and>
    (0 = (0::nat) \<longrightarrow> gcd_bound n right (?L - 1) g')"
  proof (rule cycle_loop_correct [where D = "{}" and start = 0 and k = 1 and v = v, OF assms(1,2) n_def assms(2) n(1) _ L _ _ _ v0])
    show "?L - 1 \<le> left + right" using round_length_le [of n right] by (simp add: n_def)
    show "gcd_bound n right 1 right"
      using w1 assms by (simp add: gcd_bound_def)
  qed (use start in auto)
  then obtain m' g' where r: "cycle_loop (left + right) m x left right 0 right right (v 0) = Inr (m', g')"
    "partly_rotated m m' x n left {j. j < n \<and> j mod ?g < Suc 0} v" "gcd_bound n right (?L - 1) g'"
    unfolding w1 img by auto
  have g': "g' = ?g" using gcd_bound_final [OF assms(1,2) n_def r(3)] .
  obtain m'' where m'': "cycle_rounds m' x left right [1..<?g] = Inr m''"
      "partly_rotated m m'' x n left {j. j < n} v"
    using cycle_rounds_correct [OF assms(1,2) n_def _ r(2)] n(3) by auto
  have "m'' = rotated m left mid right"
  proof (rule nth_equalityI)
    fix p assume "p < length m''"
    then have p: "p < length m" using m''(2) by (simp add: partly_rotated_def)
    have mid: "mid = x + left" using assms(3) by (simp add: x_def)
    show "m'' ! p = rotated m left mid right ! p"
    proof (cases "x \<le> p \<and> p < x + n")
      case True
      then obtain j where j: "j < n" "p = x + j" by (metis add_less_cancel_left le_Suc_ex)
      then have "m'' ! p = Some (v ((j + left) mod n))"
        using m''(2) by (simp add: partly_rotated_def)
      also have "\<dots> = m ! (x + (j + left) mod n)" using n(1) by (simp add: init)
      also have "\<dots> = rotated m left mid right ! p"
        using j len p by (auto simp: nth_rotated mid n_def mod_if intro!: arg_cong [where f = "nth m"])
      finally show ?thesis .
    next
      case False
      then have "m'' ! p = m ! p" using m''(2) p by (auto simp: partly_rotated_def not_less)
      with False p len show ?thesis by (auto simp: nth_rotated mid n_def)
    qed
  qed (use m''(2) len assms(3) in \<open>simp add: partly_rotated_def n_def x_def\<close>)
  moreover have "ptr_read m x = Inr (v 0)" using len n(1) init [of 0] by simp
  ultimately show ?thesis
    using assms(3) r(1) m''(1) g' by (simp add: ptr_rotate_gcd_def x_def [symmetric] Let_def)
qed

section \<open>The dispatch\<close>

lemma ptr_rotate_rotated:
  assumes "0 < sz" "left \<le> mid" "init_range m (mid - left) (left + right)"
  shows "ptr_rotate sz m left mid right = Inr (rotated m left mid right)"
proof -
  have len: "mid + right \<le> length m" using assms(2,3) by (simp add: init_range_def)
  show ?thesis
    using assms len
    by (auto simp: ptr_rotate_def ptr_rotate_memmove_correct ptr_rotate_gcd_correct
        ptr_rotate_swap_correct)
qed

text \<open>The two slice methods, in terms of the position \<open>mid\<close> they rotate about.\<close>

lemma rotate_left_rotated:
  assumes "0 < sz" "init_range m p (k + j)"
  shows "rotate_left sz m p (k + j) k = Inr (rotated m k (p + k) j)"
  using assms ptr_rotate_rotated [of sz k "p + k" m j] by (simp add: rotate_left_def)

lemma rotate_right_rotated:
  assumes "0 < sz" "init_range m p (k + j)"
  shows "rotate_right sz m p (k + j) j = Inr (rotated m k (p + k) j)"
  using assms ptr_rotate_rotated [of sz k "p + k" m j] by (simp add: rotate_right_def)



end
