(* ===== verification/Slice_Range.thy ===== *)
theory Slice_Range
  imports Rust_Prelude
begin

text \<open>
  \<open>core::slice::range\<close>: turning a pair of bounds into a checked range of a slice, used by every
  container operation that takes a range.
\<close>

text \<open>\<open>core::ops::Bound\<close> and the bounds check of \<open>core::slice::range\<close>.\<close>

datatype bound = Included usize | Excluded usize | Unbounded

definition slice_index_fail :: "'a res" where
  "slice_index_fail = Inl (Panic ''slice index out of range'')"

definition slice_range :: "bound \<Rightarrow> bound \<Rightarrow> usize \<Rightarrow> (usize \<times> usize) res" where
  "slice_range start_bound end_bound len =
     and_then
       (case end_bound of
          Included e \<Rightarrow> if e \<ge> len then slice_index_fail else Inr (e + 1)
        | Excluded e \<Rightarrow> if e > len then slice_index_fail else Inr e
        | Unbounded \<Rightarrow> Inr len)
       (\<lambda>stop. and_then
         (case start_bound of
            Excluded s \<Rightarrow> if s \<ge> stop then slice_index_fail else Inr (s + 1)
          | Included s \<Rightarrow> if s > stop then slice_index_fail else Inr s
          | Unbounded \<Rightarrow> Inr 0)
         (\<lambda>start. Inr (start, stop)))"

lemma slice_range_Inr:
  assumes "slice_range sb eb n = Inr (s, e)"
  shows "s \<le> e" "e \<le> n"
  using assms by (auto simp: slice_range_def slice_index_fail_def and_then_Inr_iff
      split: bound.splits if_splits)

end
