(* ===== verification/Vec_Deque_Ops.thy ===== *)
theory Vec_Deque_Ops
  imports Vec_Deque Slice_Rotate Slice_Range
begin

text \<open>
  \<open>alloc::collections::VecDeque\<close>, part two: the public operations, as functions of the struct
  into the fault monad. Dropping elements is modelled by returning the dropped elements in the
  order in which \<open>drop_in_place\<close> visits them. Closures are functions of the element.
\<close>

section \<open>Construction and capacity\<close>

definition vd_new_in :: "(layout \<Rightarrow> bool) \<Rightarrow> layout \<Rightarrow> 'a vec_deque" where
  "vd_new_in alloc elem = \<lparr>vd_head = 0, vd_len = 0, vd_buf = rv_new_in alloc elem\<rparr>"

definition vd_with_capacity_in ::
  "usize \<Rightarrow> (layout \<Rightarrow> bool) \<Rightarrow> layout \<Rightarrow> 'a vec_deque res" where
  "vd_with_capacity_in capacity alloc elem =
     and_then (rv_with_capacity_in capacity alloc elem)
       (\<lambda>buf. Inr \<lparr>vd_head = 0, vd_len = 0, vd_buf = buf\<rparr>)"

definition vd_reserve :: "'a vec_deque \<Rightarrow> usize \<Rightarrow> 'a vec_deque res" where
  "vd_reserve d additional =
     (case checked_add (vd_len d) additional of
        None \<Rightarrow> capacity_overflow
      | Some new_cap \<Rightarrow>
          let old_cap = vd_capacity d
          in if new_cap > old_cap
             then and_then (rv_reserve (vd_buf d) (vd_len d) additional)
                    (\<lambda>buf. handle_capacity_increase (d\<lparr>vd_buf := buf\<rparr>) old_cap)
             else Inr d)"

definition vd_reserve_exact :: "'a vec_deque \<Rightarrow> usize \<Rightarrow> 'a vec_deque res" where
  "vd_reserve_exact d additional =
     (case checked_add (vd_len d) additional of
        None \<Rightarrow> capacity_overflow
      | Some new_cap \<Rightarrow>
          let old_cap = vd_capacity d
          in if new_cap > old_cap
             then and_then (rv_reserve_exact (vd_buf d) (vd_len d) additional)
                    (\<lambda>buf. handle_capacity_increase (d\<lparr>vd_buf := buf\<rparr>) old_cap)
             else Inr d)"

definition vd_try_reserve ::
  "'a vec_deque \<Rightarrow> usize \<Rightarrow> (try_reserve_error + 'a vec_deque) res" where
  "vd_try_reserve d additional =
     (case checked_add (vd_len d) additional of
        None \<Rightarrow> Inr (Inl CapacityOverflow)
      | Some new_cap \<Rightarrow>
          let old_cap = vd_capacity d
          in if new_cap > old_cap
             then try_then (rv_try_reserve (vd_buf d) (vd_len d) additional)
                    (\<lambda>buf. and_then (handle_capacity_increase (d\<lparr>vd_buf := buf\<rparr>) old_cap)
                      (\<lambda>d. Inr (Inr d)))
             else Inr (Inr d))"

definition vd_try_reserve_exact ::
  "'a vec_deque \<Rightarrow> usize \<Rightarrow> (try_reserve_error + 'a vec_deque) res" where
  "vd_try_reserve_exact d additional =
     (case checked_add (vd_len d) additional of
        None \<Rightarrow> Inr (Inl CapacityOverflow)
      | Some new_cap \<Rightarrow>
          let old_cap = vd_capacity d
          in if new_cap > old_cap
             then try_then (rv_try_reserve_exact (vd_buf d) (vd_len d) additional)
                    (\<lambda>buf. and_then (handle_capacity_increase (d\<lparr>vd_buf := buf\<rparr>) old_cap)
                      (\<lambda>d. Inr (Inr d)))
             else Inr (Inr d))"

definition vd_grow :: "'a vec_deque \<Rightarrow> 'a vec_deque res" where
  "vd_grow d =
     ensure DebugAssert (is_full d)
       (let old_cap = vd_capacity d
        in and_then (grow_one (vd_buf d))
            (\<lambda>buf. and_then (handle_capacity_increase (d\<lparr>vd_buf := buf\<rparr>) old_cap)
              (\<lambda>d. ensure DebugAssert (\<not> is_full d) (Inr d))))"

section \<open>Reading\<close>

definition vd_get :: "'a vec_deque \<Rightarrow> usize \<Rightarrow> 'a option res" where
  "vd_get d index =
     (if index < vd_len d
      then let idx = to_physical_idx d index
           in and_then (ptr_read (vd_mem d) idx) (\<lambda>x. Inr (Some x))
      else Inr None)"

definition vd_front :: "'a vec_deque \<Rightarrow> 'a option res" where
  "vd_front d = vd_get d 0"

definition vd_back :: "'a vec_deque \<Rightarrow> 'a option res" where
  "vd_back d = vd_get d (wrapping_sub (vd_len d) 1)"

definition vd_index :: "'a vec_deque \<Rightarrow> usize \<Rightarrow> 'a res" where
  "vd_index d index =
     and_then (vd_get d index)
       (\<lambda>r. case r of Some x \<Rightarrow> Inr x | None \<Rightarrow> Inl (Panic ''Out of bounds access''))"

definition slice_ranges ::
  "'a vec_deque \<Rightarrow> bound \<Rightarrow> bound \<Rightarrow> usize \<Rightarrow> ((usize \<times> usize) \<times> (usize \<times> usize)) res" where
  "slice_ranges d start_bound end_bound len =
     and_then (slice_range start_bound end_bound len) (\<lambda>(start, stop).
       let len = stop - start
       in if len = 0 then Inr ((0, 0), (0, 0))
          else let wrapped_start = to_physical_idx d start;
                   head_len = vd_capacity d - wrapped_start
               in if head_len \<ge> len then Inr ((wrapped_start, wrapped_start + len), (0, 0))
                  else let tail_len = len - head_len
                       in Inr ((wrapped_start, vd_capacity d), (0, tail_len)))"

definition range_slices ::
  "'a vec_deque \<Rightarrow> bound \<Rightarrow> bound \<Rightarrow> ('a list \<times> 'a list) res" where
  "range_slices d start_bound end_bound =
     and_then (slice_ranges d start_bound end_bound (vd_len d)) (\<lambda>(a_range, b_range).
       and_then (buffer_range d a_range) (\<lambda>a.
         and_then (buffer_range d b_range) (\<lambda>b. Inr (a, b))))"

definition as_slices :: "'a vec_deque \<Rightarrow> ('a list \<times> 'a list) res" where
  "as_slices d = range_slices d Unbounded Unbounded"

definition vd_contains :: "'a vec_deque \<Rightarrow> 'a \<Rightarrow> bool res" where
  "vd_contains d x = and_then (as_slices d) (\<lambda>(a, b). Inr (x \<in> set a \<or> x \<in> set b))"

section \<open>Insertion and removal at the ends\<close>

definition push_unchecked :: "'a vec_deque \<Rightarrow> 'a \<Rightarrow> 'a vec_deque res" where
  "push_unchecked d element =
     and_then (buffer_write d (to_physical_idx d (vd_len d)) element)
       (\<lambda>d. Inr (d\<lparr>vd_len := vd_len d + 1\<rparr>))"

definition push_front_unchecked :: "'a vec_deque \<Rightarrow> 'a \<Rightarrow> 'a vec_deque res" where
  "push_front_unchecked d element =
     (let d = d\<lparr>vd_head := wrap_sub d (vd_head d) 1\<rparr>
      in and_then (buffer_write d (vd_head d) element)
           (\<lambda>d. Inr (d\<lparr>vd_len := vd_len d + 1\<rparr>)))"

definition push_back :: "'a vec_deque \<Rightarrow> 'a \<Rightarrow> 'a vec_deque res" where
  "push_back d v =
     and_then (if is_full d then vd_grow d else Inr d) (\<lambda>d.
       let len = vd_len d; d = d\<lparr>vd_len := vd_len d + 1\<rparr>
       in buffer_write d (to_physical_idx d len) v)"

definition push_front :: "'a vec_deque \<Rightarrow> 'a \<Rightarrow> 'a vec_deque res" where
  "push_front d v =
     and_then (if is_full d then vd_grow d else Inr d) (\<lambda>d.
       let d = d\<lparr>vd_head := wrap_sub d (vd_head d) 1\<rparr>; d = d\<lparr>vd_len := vd_len d + 1\<rparr>
       in buffer_write d (vd_head d) v)"

definition pop_front :: "'a vec_deque \<Rightarrow> ('a option \<times> 'a vec_deque) res" where
  "pop_front d =
     (if vd_len d = 0 then Inr (None, d)
      else let old_head = vd_head d;
               d = d\<lparr>vd_head := to_physical_idx d 1\<rparr>;
               d = d\<lparr>vd_len := vd_len d - 1\<rparr>
           in ensure (UB BrokenAssumption) (vd_len d < vd_capacity d)
                (and_then (buffer_read d old_head) (\<lambda>x. Inr (Some x, d))))"

definition pop_back :: "'a vec_deque \<Rightarrow> ('a option \<times> 'a vec_deque) res" where
  "pop_back d =
     (if vd_len d = 0 then Inr (None, d)
      else let d = d\<lparr>vd_len := vd_len d - 1\<rparr>
           in ensure (UB BrokenAssumption) (vd_len d < vd_capacity d)
                (and_then (buffer_read d (to_physical_idx d (vd_len d)))
                  (\<lambda>x. Inr (Some x, d))))"

definition pop_front_if ::
  "'a vec_deque \<Rightarrow> ('a \<Rightarrow> bool) \<Rightarrow> ('a option \<times> 'a vec_deque) res" where
  "pop_front_if d predicate =
     and_then (vd_front d) (\<lambda>first. case first of
       None \<Rightarrow> Inr (None, d)
     | Some first \<Rightarrow> if predicate first then pop_front d else Inr (None, d))"

definition pop_back_if ::
  "'a vec_deque \<Rightarrow> ('a \<Rightarrow> bool) \<Rightarrow> ('a option \<times> 'a vec_deque) res" where
  "pop_back_if d predicate =
     and_then (vd_back d) (\<lambda>lst. case lst of
       None \<Rightarrow> Inr (None, d)
     | Some lst \<Rightarrow> if predicate lst then pop_back d else Inr (None, d))"

section \<open>Insertion and removal in the middle\<close>

definition vd_swap :: "'a vec_deque \<Rightarrow> usize \<Rightarrow> usize \<Rightarrow> 'a vec_deque res" where
  "vd_swap d i j =
     ensure (Panic ''assertion failed: i < self.len()'') (i < vd_len d)
       (ensure (Panic ''assertion failed: j < self.len()'') (j < vd_len d)
         (let ri = to_physical_idx d i; rj = to_physical_idx d j
          in and_then (ptr_swap (vd_mem d) ri rj) (\<lambda>m. Inr (set_mem d m))))"

definition swap_remove_front :: "'a vec_deque \<Rightarrow> usize \<Rightarrow> ('a option \<times> 'a vec_deque) res" where
  "swap_remove_front d index =
     (let len = vd_len d
      in if index < len \<and> index \<noteq> 0 then and_then (vd_swap d index 0) pop_front
         else if index \<ge> len then Inr (None, d)
         else pop_front d)"

definition swap_remove_back :: "'a vec_deque \<Rightarrow> usize \<Rightarrow> ('a option \<times> 'a vec_deque) res" where
  "swap_remove_back d index =
     (let len = vd_len d
      in if len > 0 \<and> index < len - 1 then and_then (vd_swap d index (len - 1)) pop_back
         else if index \<ge> len then Inr (None, d)
         else pop_back d)"

definition vd_insert :: "'a vec_deque \<Rightarrow> usize \<Rightarrow> 'a \<Rightarrow> 'a vec_deque res" where
  "vd_insert d index v =
     ensure (Panic ''index out of bounds'') (index \<le> vd_len d)
       (and_then (if is_full d then vd_grow d else Inr d) (\<lambda>d.
         let k = vd_len d - index
         in if k < index
            then and_then
                   (wrap_copy d (to_physical_idx d index) (to_physical_idx d (index + 1)) k)
                   (\<lambda>d. let d = d\<lparr>vd_len := vd_len d + 1\<rparr>
                        in buffer_write d (to_physical_idx d index) v)
            else let old_head = vd_head d; d = d\<lparr>vd_head := wrap_sub d (vd_head d) 1\<rparr>
                 in and_then (wrap_copy d old_head (vd_head d) index)
                   (\<lambda>d. let d = d\<lparr>vd_len := vd_len d + 1\<rparr>
                        in buffer_write d (to_physical_idx d index) v)))"

definition vd_remove :: "'a vec_deque \<Rightarrow> usize \<Rightarrow> ('a option \<times> 'a vec_deque) res" where
  "vd_remove d index =
     (if vd_len d \<le> index then Inr (None, d)
      else let wrapped_idx = to_physical_idx d index
           in and_then (buffer_read d wrapped_idx) (\<lambda>elem.
                let k = vd_len d - index - 1
                in if k < index
                   then and_then (wrap_copy d (wrap_add d wrapped_idx 1) wrapped_idx k)
                          (\<lambda>d. Inr (Some elem, d\<lparr>vd_len := vd_len d - 1\<rparr>))
                   else let old_head = vd_head d; d = d\<lparr>vd_head := to_physical_idx d 1\<rparr>
                        in and_then (wrap_copy d old_head (vd_head d) index)
                          (\<lambda>d. Inr (Some elem, d\<lparr>vd_len := vd_len d - 1\<rparr>))))"

section \<open>Whole-deque operations\<close>

definition truncate :: "'a vec_deque \<Rightarrow> usize \<Rightarrow> ('a list \<times> 'a vec_deque) res" where
  "truncate d len =
     (if len \<ge> vd_len d then Inr ([], d)
      else and_then (as_slices d) (\<lambda>(front, back).
        if len > length front
        then let begin = len - length front
             in Inr (drop begin back, d\<lparr>vd_len := len\<rparr>)
        else Inr (drop len front @ back, d\<lparr>vd_len := len\<rparr>)))"

definition truncate_front :: "'a vec_deque \<Rightarrow> usize \<Rightarrow> ('a list \<times> 'a vec_deque) res" where
  "truncate_front d len =
     (if len \<ge> vd_len d then Inr ([], d)
      else and_then (as_slices d) (\<lambda>(front, back).
        if len > length back
        then let stop = length front - (len - length back)
             in Inr (take stop front, d\<lparr>vd_head := vd_head d + stop, vd_len := len\<rparr>)
        else let stop = length back - len
             in Inr (front @ take stop back,
                     d\<lparr>vd_head := to_physical_idx d (vd_len d - len), vd_len := len\<rparr>)))"

definition vd_clear :: "'a vec_deque \<Rightarrow> ('a list \<times> 'a vec_deque) res" where
  "vd_clear d =
     and_then (truncate d 0) (\<lambda>(dropped, d). Inr (dropped, d\<lparr>vd_head := 0\<rparr>))"

definition split_off :: "'a vec_deque \<Rightarrow> usize \<Rightarrow> ('a vec_deque \<times> 'a vec_deque) res" where
  "split_off d at =
     ensure (Panic ''`at` out of bounds'') (at \<le> vd_len d)
       (let len = vd_len d; other_len = len - at
        in and_then (vd_with_capacity_in other_len (rv_alloc (vd_buf d)) (rv_elem (vd_buf d)))
          (\<lambda>other. and_then (as_slices d) (\<lambda>(first_half, second_half).
            let first_len = length first_half; second_len = length second_half
            in and_then
              (if at < first_len
               then let amount_in_first = first_len - at
                    in and_then
                      (ptr_copy_from (vd_mem other) 0 (map Some (drop at first_half)))
                      (\<lambda>m. ptr_copy_from m amount_in_first (map Some second_half))
               else let offset = at - first_len
                    in ptr_copy_from (vd_mem other) 0 (map Some (drop offset second_half)))
              (\<lambda>m. Inr (d\<lparr>vd_len := at\<rparr>, (set_mem other m)\<lparr>vd_len := other_len\<rparr>)))))"

definition vd_append :: "'a vec_deque \<Rightarrow> 'a vec_deque \<Rightarrow> ('a vec_deque \<times> 'a vec_deque) res" where
  "vd_append d other =
     (if is_zst d
      then case checked_add (vd_len d) (vd_len other) of
             None \<Rightarrow> capacity_overflow
           | Some len \<Rightarrow> Inr (d\<lparr>vd_len := len\<rparr>, other\<lparr>vd_len := 0, vd_head := 0\<rparr>)
      else and_then (vd_reserve d (vd_len other)) (\<lambda>d.
        and_then (as_slices other) (\<lambda>(left, right).
          and_then (copy_slice d (to_physical_idx d (vd_len d)) left) (\<lambda>d.
            and_then (copy_slice d (to_physical_idx d (vd_len d + length left)) right) (\<lambda>d.
              Inr (d\<lparr>vd_len := vd_len d + vd_len other\<rparr>,
                   other\<lparr>vd_len := 0, vd_head := 0\<rparr>))))))"

text \<open>The closure of \<open>retain_mut\<close> may change the element it looks at: it returns the decision
  and the new value, which is written back before the decision is used.\<close>

definition retain_call ::
  "('a \<Rightarrow> bool \<times> 'a) \<Rightarrow> 'a vec_deque \<Rightarrow> usize \<Rightarrow> (bool \<times> 'a vec_deque) res" where
  "retain_call f d cur =
     and_then (vd_index d cur) (\<lambda>x. case f x of (keep, x') \<Rightarrow>
       and_then (buffer_write d (to_physical_idx d cur) x') (\<lambda>d. Inr (keep, d)))"

function retain_keep ::
  "('a \<Rightarrow> bool \<times> 'a) \<Rightarrow> 'a vec_deque \<Rightarrow> usize \<Rightarrow> usize \<Rightarrow> usize \<Rightarrow> (usize \<times> usize \<times> 'a vec_deque) res"
  where
  "retain_keep f d len idx cur =
     (if cur < len
      then and_then (retain_call f d cur) (\<lambda>(keep, d).
        if \<not> keep then Inr (idx, cur + 1, d)
        else retain_keep f d len (idx + 1) (cur + 1))
      else Inr (idx, cur, d))"
  by pat_completeness auto
termination
  by (relation "measure (\<lambda>(f, d, len, idx, cur). len - cur)") auto

function retain_swap ::
  "('a \<Rightarrow> bool \<times> 'a) \<Rightarrow> 'a vec_deque \<Rightarrow> usize \<Rightarrow> usize \<Rightarrow> usize \<Rightarrow> (usize \<times> usize \<times> 'a vec_deque) res"
  where
  "retain_swap f d len idx cur =
     (if cur < len
      then and_then (retain_call f d cur) (\<lambda>(keep, d).
        if \<not> keep then retain_swap f d len idx (cur + 1)
        else and_then (vd_swap d idx cur) (\<lambda>d. retain_swap f d len (idx + 1) (cur + 1)))
      else Inr (idx, cur, d))"
  by pat_completeness auto
termination
  by (relation "measure (\<lambda>(f, d, len, idx, cur). len - cur)") auto

declare retain_keep.simps [simp del] retain_swap.simps [simp del]

definition retain_mut ::
  "'a vec_deque \<Rightarrow> ('a \<Rightarrow> bool \<times> 'a) \<Rightarrow> ('a list \<times> 'a vec_deque) res" where
  "retain_mut d f =
     (let len = vd_len d
      in and_then (retain_keep f d len 0 0) (\<lambda>(idx, cur, d).
        and_then (retain_swap f d len idx cur) (\<lambda>(idx, cur, d).
          if cur \<noteq> idx then truncate d idx else Inr ([], d))))"

definition retain ::
  "'a vec_deque \<Rightarrow> ('a \<Rightarrow> bool) \<Rightarrow> ('a list \<times> 'a vec_deque) res" where
  "retain d f = retain_mut d (\<lambda>elem. (f elem, elem))"

definition make_contiguous :: "'a vec_deque \<Rightarrow> ('a list \<times> 'a vec_deque) res" where
  "make_contiguous d =
     (let d = (if is_zst d then d\<lparr>vd_head := 0\<rparr> else d)
      in and_then
        (if is_contiguous d then Inr d
         else
           let head = vd_head d; len = vd_len d; cap = vd_capacity d;
               free = cap - len; head_len = cap - head; tail = len - head_len; tail_len = tail;
               sz = lay_size (rv_elem (vd_buf d))
           in if free \<ge> head_len
              then and_then (vd_copy d 0 head_len tail_len) (\<lambda>d.
                     and_then (vd_copy_nonoverlapping d head 0 head_len) (\<lambda>d.
                       Inr (d\<lparr>vd_head := 0\<rparr>)))
              else if free \<ge> tail_len
              then and_then (vd_copy d head tail head_len) (\<lambda>d.
                     and_then (vd_copy_nonoverlapping d 0 (tail + head_len) tail_len) (\<lambda>d.
                       Inr (d\<lparr>vd_head := tail\<rparr>)))
              else if head_len > tail_len
              then and_then (if free \<noteq> 0 then vd_copy d 0 free tail_len else Inr d) (\<lambda>d.
                     and_then (rotate_left sz (vd_mem d) free (vd_capacity d - free) tail_len)
                       (\<lambda>m. Inr ((set_mem d m)\<lparr>vd_head := free\<rparr>)))
              else and_then
                     (if free \<noteq> 0 then vd_copy d (vd_head d) tail_len head_len else Inr d) (\<lambda>d.
                     and_then (rotate_right sz (vd_mem d) 0 (vd_len d) head_len)
                       (\<lambda>m. Inr ((set_mem d m)\<lparr>vd_head := 0\<rparr>))))
        (\<lambda>d. and_then (slice_at (vd_mem d) (vd_head d) (vd_head d + vd_len d))
          (\<lambda>slice. Inr (slice, d))))"

definition rotate_left_inner :: "'a vec_deque \<Rightarrow> usize \<Rightarrow> 'a vec_deque res" where
  "rotate_left_inner d mid =
     ensure DebugAssert (mid * 2 \<le> vd_len d)
       (and_then (wrap_copy d (vd_head d) (to_physical_idx d (vd_len d)) mid)
         (\<lambda>d. Inr (d\<lparr>vd_head := to_physical_idx d mid\<rparr>)))"

definition rotate_right_inner :: "'a vec_deque \<Rightarrow> usize \<Rightarrow> 'a vec_deque res" where
  "rotate_right_inner d k =
     ensure DebugAssert (k * 2 \<le> vd_len d)
       (let d = d\<lparr>vd_head := wrap_sub d (vd_head d) k\<rparr>
        in wrap_copy d (to_physical_idx d (vd_len d)) (vd_head d) k)"

definition vd_rotate_left :: "'a vec_deque \<Rightarrow> usize \<Rightarrow> 'a vec_deque res" where
  "vd_rotate_left d n =
     ensure (Panic ''assertion failed: n <= self.len()'') (n \<le> vd_len d)
       (let k = vd_len d - n
        in if n \<le> k then rotate_left_inner d n else rotate_right_inner d k)"

definition vd_rotate_right :: "'a vec_deque \<Rightarrow> usize \<Rightarrow> 'a vec_deque res" where
  "vd_rotate_right d n =
     ensure (Panic ''assertion failed: n <= self.len()'') (n \<le> vd_len d)
       (let k = vd_len d - n
        in if n \<le> k then rotate_right_inner d n else rotate_left_inner d k)"

end
