(* ===== verification/Vec_Deque_Correct.thy ===== *)
theory Vec_Deque_Correct
  imports Vec_Deque_Ops
begin

text \<open>
  \<open>VecDeque\<close>, part three: the representation relation \<open>vd_rep d xs\<close> (the deque \<open>d\<close> is well
  formed and its logical slots hold the list \<open>xs\<close>) and the correctness of every operation
  against the obvious function on lists. An operation that may allocate either fails the way
  \<open>reserve\<close> does (a capacity-overflow panic or an allocation failure) or succeeds; no operation
  on a represented deque has undefined behaviour.
\<close>

section \<open>Logical slots and the list a deque represents\<close>

text \<open>\<open>slot d i\<close> is the content of logical position \<open>i\<close>, counted from the head.\<close>

definition slot :: "'a vec_deque \<Rightarrow> nat \<Rightarrow> 'a option" where
  "slot d i = vd_mem d ! ring_add (vd_cap d) (vd_head d) i"

definition vd_rep :: "'a vec_deque \<Rightarrow> 'a list \<Rightarrow> bool" where
  "vd_rep d xs \<longleftrightarrow> vd_wf d \<and> vd_len d = length xs \<and> (\<forall>i < length xs. slot d i = Some (xs ! i))"

lemma vd_repI:
  "vd_wf d \<Longrightarrow> vd_len d = length xs \<Longrightarrow> (\<And>i. i < length xs \<Longrightarrow> slot d i = Some (xs ! i)) \<Longrightarrow>
    vd_rep d xs"
  by (simp add: vd_rep_def)

lemma vd_repD:
  assumes "vd_rep d xs"
  shows "vd_wf d" "vd_len d = length xs" "length xs \<le> vd_cap d"
    "\<And>i. i < length xs \<Longrightarrow> slot d i = Some (xs ! i)"
  using assms vd_wf_simps(4) [of d] by (auto simp: vd_rep_def)

lemma vd_wf_head: "vd_wf d \<Longrightarrow> 0 < vd_cap d \<Longrightarrow> vd_head d < vd_cap d"
  by (auto simp: vd_wf_def)

lemma vd_update_simps [simp]:
  "vd_capacity (d\<lparr>vd_len := n\<rparr>) = vd_capacity d" "vd_capacity (d\<lparr>vd_head := h\<rparr>) = vd_capacity d"
  "is_zst (d\<lparr>vd_len := n\<rparr>) = is_zst d" "is_zst (d\<lparr>vd_head := h\<rparr>) = is_zst d"
  "slot (d\<lparr>vd_len := n\<rparr>) i = slot d i"
  "to_physical_idx (d\<lparr>vd_len := n\<rparr>) i = to_physical_idx d i"
  "wrap_sub (d\<lparr>vd_len := n\<rparr>) i j = wrap_sub d i j"
  "wrap_add (d\<lparr>vd_len := n\<rparr>) i j = wrap_add d i j"
  "wrap_sub (d\<lparr>vd_head := h\<rparr>) i j = wrap_sub d i j"
  "wrap_add (d\<lparr>vd_head := h\<rparr>) i j = wrap_add d i j"
  by (simp_all add: vd_capacity_def is_zst_def slot_def to_physical_idx_def wrap_sub_def
      wrap_add_def)

lemma vd_wf_len [simp]: "vd_wf d \<Longrightarrow> n \<le> vd_cap d \<Longrightarrow> vd_wf (d\<lparr>vd_len := n\<rparr>)"
  by (auto simp: vd_wf_def)

lemma vd_wf_head_upd [simp]: "vd_wf d \<Longrightarrow> h < vd_cap d \<Longrightarrow> vd_wf (d\<lparr>vd_head := h\<rparr>)"
  by (auto simp: vd_wf_def)

lemma slot_set_mem [simp]:
  "slot (set_mem d m) i = m ! ring_add (vd_cap d) (vd_head d) i"
  by (simp add: slot_def)

text \<open>Ring identities: moving the origin.\<close>

lemma ring_add_add:
  "h < c \<Longrightarrow> a < c \<Longrightarrow> k < c \<Longrightarrow> ring_add c (ring_add c h a) k = ring_add c h (ring_add c a k)"
  by (auto simp: ring_defs split: if_splits)

lemma ring_sub_shift:
  "h < c \<Longrightarrow> i < c \<Longrightarrow> b < c \<Longrightarrow> ring_sub c (ring_add c h i) (ring_add c h b) = ring_sub c i b"
  by (auto simp: ring_defs split: if_splits)

lemma ring_distance:
  "h < c \<Longrightarrow> a < c \<Longrightarrow> b < c \<Longrightarrow>
    min (abs_diff (ring_add c h a) (ring_add c h b)) (c - abs_diff (ring_add c h a) (ring_add c h b))
      = min (abs_diff a b) (c - abs_diff a b)"
  by (auto simp: ring_defs abs_diff_def min_def split: if_splits)

lemma slot_head_shift:
  assumes "vd_wf d" "k < vd_cap d" "i < vd_cap d"
  shows "slot (d\<lparr>vd_head := ring_add (vd_cap d) (vd_head d) k\<rparr>) i = slot d (ring_add (vd_cap d) k i)"
  using assms vd_wf_head [of d] by (simp add: slot_def ring_add_add)

text \<open>\<open>wrap_copy\<close> in logical coordinates.\<close>

lemma wrap_copy_slots:
  assumes wf: "vd_wf d" and a: "a < vd_cap d" and b: "b < vd_cap d"
    and pre: "min (abs_diff a b) (vd_cap d - abs_diff a b) + n \<le> vd_cap d"
  obtains m' where
    "wrap_copy d (ring_add (vd_cap d) (vd_head d) a) (ring_add (vd_cap d) (vd_head d) b) n
      = Inr (set_mem d m')"
    "vd_wf (set_mem d m')"
    "\<And>i. i < vd_cap d \<Longrightarrow> slot (set_mem d m') i =
      (if ring_sub (vd_cap d) i b < n then slot d (ring_add (vd_cap d) a (ring_sub (vd_cap d) i b))
       else slot d i)"
proof -
  let ?c = "vd_cap d" and ?h = "vd_head d"
  have h: "?h < ?c" using vd_wf_head [OF wf] a by simp
  have pre': "min (abs_diff (ring_add ?c ?h a) (ring_add ?c ?h b))
      (?c - abs_diff (ring_add ?c ?h a) (ring_add ?c ?h b)) + n \<le> ?c"
    using pre unfolding ring_distance [OF h a b] .
  obtain m' where m': "wrap_copy d (ring_add ?c ?h a) (ring_add ?c ?h b) n = Inr (set_mem d m')"
    "ring_moved (vd_mem d) ?c (ring_add ?c ?h a) (ring_add ?c ?h b) n m'"
    using wrap_copy_ring [OF wf ring_add_less [OF h a] ring_add_less [OF h b] pre'] by blast
  show thesis
  proof (rule that [OF m'(1)])
    show "vd_wf (set_mem d m')" using wf m'(2) by (simp add: ring_moved_def)
    fix i assume i: "i < ?c"
    then show "slot (set_mem d m') i =
      (if ring_sub ?c i b < n then slot d (ring_add ?c a (ring_sub ?c i b)) else slot d i)"
      using m'(2) h a b by (simp add: ring_moved_def ring_add_less ring_sub_shift slot_def
          ring_add_add ring_sub_less)
  qed
qed

section \<open>Growing\<close>

text \<open>A larger buffer under an unchanged head and length, repaired by
  \<open>handle_capacity_increase\<close>.\<close>

definition same_buffer_kind :: "'a vec_deque \<Rightarrow> 'a vec_deque \<Rightarrow> bool" where
  "same_buffer_kind d d' \<longleftrightarrow> rv_elem (vd_buf d') = rv_elem (vd_buf d) \<and>
     rv_alloc (vd_buf d') = rv_alloc (vd_buf d)"

lemma handle_capacity_increase_rep:
  assumes rep: "vd_rep d xs" and ext: "rv_extends (vd_buf d) buf"
  obtains d' where "handle_capacity_increase (d\<lparr>vd_buf := buf\<rparr>) (vd_cap d) = Inr d'"
    "vd_rep d' xs" "vd_cap d' = rv_cap buf" "same_buffer_kind d d'"
proof -
  let ?c = "vd_cap d" and ?c' = "rv_cap buf" and ?h = "vd_head d" and ?n = "length xs"
  let ?d = "d\<lparr>vd_buf := buf\<rparr>"
  note wf = vd_repD(1) [OF rep] and len = vd_repD(2,3) [OF rep]
  note e = rv_extendsD [OF ext]
  have wf': "vd_wf ?d"
    using wf e by (auto simp: vd_wf_def)
  have c': "vd_capacity ?d = ?c'" using vd_wf_simps(1) [OF wf'] by simp
  have old: "rv_mem buf ! i = vd_mem d ! i" if "i < ?c" for i
    using that e(5) vd_wf_simps(3) [OF wf] by (simp add: nth_append)
  have elems: "vd_mem d ! ring_add ?c ?h i = Some (xs ! i)" if "i < ?n" for i
    using vd_repD(4) [OF rep that] by (simp add: slot_def)
  have kind: "same_buffer_kind d (?d\<lparr>vd_head := h, vd_buf := buf\<lparr>rv_mem := m\<rparr>\<rparr>)" for h m
    using e by (simp add: same_buffer_kind_def)
  show thesis
  proof (cases "?h \<le> ?c - ?n")
    case True
    have "vd_rep ?d xs"
    proof (rule vd_repI)
      fix i assume i: "i < ?n"
      then have "ring_add ?c ?h i = ?h + i" "?h + i < ?c"
        using True len vd_wf_head [OF wf] by (auto simp: ring_add_def)
      with i e(2) show "slot ?d i = Some (xs ! i)"
        using elems [OF i] old by (simp add: slot_def ring_add_def)
    qed (use wf' len in auto)
    then show thesis
      using that [of ?d] True len e c' vd_wf_head [OF wf']
      by (auto simp: handle_capacity_increase_def same_buffer_kind_def)
  next
    case False
    define hl tl where "hl = ?c - ?h" and "tl = ?n - hl"
    have h: "?h < ?c" and tl: "0 < tl" "0 < hl" and n: "?n = hl + tl" and c: "?c = ?h + hl" "tl \<le> ?h"
      using False len wf by (auto simp: hl_def tl_def vd_wf_def)
    have head_elem: "vd_mem d ! (?h + i) = Some (xs ! i)" if "i < hl" for i
      using elems [of i] that n c by (simp add: ring_add_def)
    have tail_elem: "vd_mem d ! i = Some (xs ! (hl + i))" if "i < tl" for i
      using elems [of "hl + i"] that n c by (simp add: ring_add_def)
    show thesis
    proof (cases "tl < hl \<and> tl \<le> ?c' - ?c")
      case True
      let ?m = "move_slots (rv_mem buf) 0 ?c tl"
      have b: "?c + tl \<le> ?c'" "tl \<le> ?c'" using True e(2) by linarith+
      have "vd_rep (set_mem ?d ?m) xs"
      proof (rule vd_repI)
        fix i assume i: "i < ?n"
        then have "ring_add ?c' ?h i = ?h + i" "?h + i < ?c'"
          using n c b by (auto simp: ring_add_def)
        with i b e(6) show "slot (set_mem ?d ?m) i = Some (xs ! i)"
          using head_elem [of i] tail_elem [of "i - hl"] n c old
          by (auto simp: nth_move_slots)
      qed (use wf' b e(6) len in auto)
      moreover have "handle_capacity_increase ?d ?c = Inr (set_mem ?d ?m)"
        using True b wf' e len h n c' c tl
        by (simp add: handle_capacity_increase_def hl_def [symmetric] tl_def [symmetric] Let_def)
      ultimately show thesis
        using e(3,4) by (intro that [of "set_mem ?d ?m"]) (simp_all add: same_buffer_kind_def set_mem_def)
    next
      case False': False
      let ?nh = "?c' - hl"
      let ?m = "move_slots (rv_mem buf) ?h ?nh hl"
      let ?d' = "(set_mem ?d ?m)\<lparr>vd_head := ?nh\<rparr>"
      have b: "?nh + hl = ?c'" "?h \<le> ?nh" "?nh < ?c'" "?h + hl \<le> ?c'" using c e(2) tl by linarith+
      have "vd_rep ?d' xs"
      proof (rule vd_repI)
        fix i assume i: "i < ?n"
        then have "ring_add ?c' ?nh i = (if i < hl then ?nh + i else i - hl)"
          using b by (auto simp: ring_add_def)
        with i b e(6) show "slot ?d' i = Some (xs ! i)"
          using head_elem [of i] tail_elem [of "i - hl"] n c old
          by (auto simp: slot_def nth_move_slots)
      qed (use wf' b e(2,6) len in auto)
      moreover have "handle_capacity_increase ?d ?c = Inr ?d'"
        using False False' b wf' e len h n c' c tl
        by (auto simp: handle_capacity_increase_def hl_def [symmetric] tl_def [symmetric] Let_def)
      ultimately show thesis
        using e(3,4) by (intro that [of ?d']) (simp_all add: same_buffer_kind_def set_mem_def)
    qed
  qed
qed

lemma same_buffer_kind_refl [simp]: "same_buffer_kind d d"
  by (simp add: same_buffer_kind_def)

lemma same_buffer_kind_trans: "same_buffer_kind d e \<Longrightarrow> same_buffer_kind e f \<Longrightarrow> same_buffer_kind d f"
  by (simp add: same_buffer_kind_def)

lemma same_buffer_kind_upd [simp]:
  "same_buffer_kind d (set_mem e m) = same_buffer_kind d e"
  "same_buffer_kind d (e\<lparr>vd_len := n\<rparr>) = same_buffer_kind d e"
  "same_buffer_kind d (e\<lparr>vd_head := h\<rparr>) = same_buffer_kind d e"
  by (simp_all add: same_buffer_kind_def set_mem_def)

text \<open>Access to one logical slot.\<close>

lemma physical_slot:
  assumes "vd_wf d" "i \<le> vd_cap d"
  shows "to_physical_idx d i = ring_add (vd_cap d) (vd_head d) i"
  using to_physical_idx_ring [OF assms] .

lemma ring_idx_less: "vd_wf d \<Longrightarrow> i < vd_cap d \<Longrightarrow> ring_add (vd_cap d) (vd_head d) i < length (vd_mem d)"
  using vd_wf_head [of d] vd_wf_simps(3) [of d] by (auto intro!: ring_add_less)

lemma read_slot:
  assumes "vd_wf d" "i < vd_cap d" "slot d i = Some x"
  shows "ptr_read (vd_mem d) (to_physical_idx d i) = Inr x"
  using assms ring_idx_less [OF assms(1,2)] by (simp add: physical_slot slot_def)

lemma write_slot:
  assumes wf: "vd_wf d" and k: "k < vd_cap d"
  obtains d' where "buffer_write d (to_physical_idx d k) v = Inr d'"
    "d' = set_mem d (vd_mem d')" "vd_wf d'"
    "\<And>i. i < vd_cap d \<Longrightarrow> slot d' i = (if i = k then Some v else slot d i)"
proof -
  let ?p = "ring_add (vd_cap d) (vd_head d) k"
  let ?d' = "set_mem d ((vd_mem d)[?p := Some v])"
  have h: "vd_head d < vd_cap d" using vd_wf_head [OF wf] k by simp
  show thesis
  proof (rule that [of ?d'])
    show "buffer_write d (to_physical_idx d k) v = Inr ?d'"
      using ring_idx_less [OF wf k] wf k by (simp add: buffer_write_def physical_slot)
    show "vd_wf ?d'" using wf by (simp add: vd_wf_simps)
    fix i assume "i < vd_cap d"
    then show "slot ?d' i = (if i = k then Some v else slot d i)"
      using ring_idx_less [OF wf k] h k by (simp add: slot_def nth_list_update ring_add_inj)
  qed simp
qed

text \<open>Making room for one more element.\<close>

lemma vd_grow_cases:
  assumes rep: "vd_rep d xs" and full: "is_full d"
  obtains "reserve_fails (vd_grow d)"
  | d' where "vd_grow d = Inr d'" "vd_rep d' xs" "length xs < vd_cap d'" "same_buffer_kind d d'"
proof -
  note wf = vd_repD(1) [OF rep]
  have inv: "rv_inv (vd_buf d)" "0 < lay_size (rv_elem (vd_buf d))"
    using wf by (simp_all add: vd_wf_def)
  note cap = vd_wf_simps(1) [OF wf]
  from grow_one_cases [OF inv] show thesis
  proof cases
    case 1
    then show thesis using full
      by (intro that(1)) (auto simp: vd_grow_def reserve_fails_def Let_def)
  next
    case (2 buf)
    obtain d' where d': "handle_capacity_increase (d\<lparr>vd_buf := buf\<rparr>) (vd_cap d) = Inr d'"
      "vd_rep d' xs" "vd_cap d' = rv_cap buf" "same_buffer_kind d d'"
      using handle_capacity_increase_rep [OF rep 2(2)] by blast
    have lt: "length xs < vd_cap d'"
      using vd_repD(3) [OF rep] 2(3) d'(3) by simp
    then have "\<not> is_full d'"
      using vd_wf_simps(1) [OF vd_repD(1) [OF d'(2)]] vd_repD(2) [OF d'(2)]
      by (simp add: is_full_def)
    then have "vd_grow d = Inr d'"
      using full 2(1) d'(1) cap by (simp add: vd_grow_def Let_def)
    with d' lt that(2) show thesis by blast
  qed
qed

lemma make_room_cases:
  assumes rep: "vd_rep d xs"
  obtains "reserve_fails (if is_full d then vd_grow d else Inr d)"
  | d' where "(if is_full d then vd_grow d else Inr d) = Inr d'" "vd_rep d' xs"
      "length xs < vd_cap d'" "same_buffer_kind d d'"
proof (cases "is_full d")
  case True
  from vd_grow_cases [OF rep True] show thesis
    by cases (use True that in auto)
next
  case False
  then have "length xs < vd_cap d"
    using vd_repD(2,3) [OF rep] vd_wf_simps(1) [OF vd_repD(1) [OF rep]]
    by (simp add: is_full_def)
  with False rep that(2) [of d] show thesis by simp
qed

section \<open>The ends\<close>

lemma push_back_cases:
  assumes rep: "vd_rep d xs"
  obtains "reserve_fails (push_back d v)"
  | d' where "push_back d v = Inr d'" "vd_rep d' (xs @ [v])" "same_buffer_kind d d'"
proof -
  from make_room_cases [OF rep] show thesis
  proof cases
    case 1
    then show thesis by (intro that(1)) (simp only: push_back_def reserve_fails_and_then)
  next
    case (2 e)
    note wf = vd_repD(1) [OF 2(2)] and len = vd_repD(2) [OF 2(2)]
    let ?e = "e\<lparr>vd_len := vd_len e + 1\<rparr>"
    have wf': "vd_wf ?e" using wf 2(3) len by simp
    obtain d' where d': "buffer_write ?e (to_physical_idx ?e (length xs)) v = Inr d'"
      "d' = set_mem ?e (vd_mem d')" "vd_wf d'"
      "\<And>i. i < vd_cap ?e \<Longrightarrow> slot d' i = (if i = length xs then Some v else slot ?e i)"
      using write_slot [OF wf', of "length xs"] 2(3) by auto
    have "vd_len d' = length xs + 1" by (subst d'(2)) (simp add: len)
    then have "vd_rep d' (xs @ [v])"
      using d'(3,4) 2(3) vd_repD(4) [OF 2(2)]
      by (intro vd_repI) (auto simp: nth_append less_Suc_eq)
    moreover have "same_buffer_kind d d'" by (subst d'(2)) (simp add: 2(4))
    moreover have "push_back d v = Inr d'"
      using d'(1) len by (simp add: push_back_def 2(1) Let_def)
    ultimately show thesis using that(2) by blast
  qed
qed

lemma head_back_one:
  assumes "vd_wf d" "0 < vd_cap d"
  shows "wrap_sub d (vd_head d) 1 < vd_cap d"
    and "vd_head d = ring_add (vd_cap d) (wrap_sub d (vd_head d) 1) 1"
  using assms vd_wf_head [OF assms] wrap_sub_ring [OF assms(1), of "vd_head d" 1]
  by (auto simp: ring_add_def)

lemma slot_head_back:
  assumes "vd_wf d" "i + 1 < vd_cap d"
  shows "slot (d\<lparr>vd_head := wrap_sub d (vd_head d) 1\<rparr>) (Suc i) = slot d i"
proof -
  have c: "0 < vd_cap d" "1 < vd_cap d" using assms(2) by auto
  let ?h = "wrap_sub d (vd_head d) 1"
  have "ring_add (vd_cap d) (ring_add (vd_cap d) ?h 1) i = ring_add (vd_cap d) ?h (ring_add (vd_cap d) 1 i)"
    using ring_add_add [OF head_back_one(1) [OF assms(1) c(1)] c(2), of i] assms(2) by simp
  moreover have "ring_add (vd_cap d) 1 i = Suc i" using assms(2) by (simp add: ring_add_def)
  ultimately show ?thesis
    using head_back_one(2) [OF assms(1) c(1)] by (simp add: slot_def)
qed

lemma to_physical_0: "vd_wf d \<Longrightarrow> 0 < vd_cap d \<Longrightarrow> to_physical_idx d 0 = vd_head d"
  using vd_wf_head [of d] by (simp add: physical_slot ring_add_def)

lemma push_front_cases:
  assumes rep: "vd_rep d xs"
  obtains "reserve_fails (push_front d v)"
  | d' where "push_front d v = Inr d'" "vd_rep d' (v # xs)" "same_buffer_kind d d'"
proof -
  from make_room_cases [OF rep] show thesis
  proof cases
    case 1
    then show thesis by (intro that(1)) (simp only: push_front_def reserve_fails_and_then)
  next
    case (2 e)
    note wf = vd_repD(1) [OF 2(2)] and len = vd_repD(2) [OF 2(2)]
    have c: "0 < vd_cap e" using 2(3) by simp
    let ?e1 = "e\<lparr>vd_head := wrap_sub e (vd_head e) 1\<rparr>"
    let ?e = "?e1\<lparr>vd_len := vd_len e + 1\<rparr>"
    have wf': "vd_wf ?e" using wf 2(3) len head_back_one [OF wf c] by simp
    obtain d' where d': "buffer_write ?e (to_physical_idx ?e 0) v = Inr d'"
      "d' = set_mem ?e (vd_mem d')" "vd_wf d'"
      "\<And>i. i < vd_cap ?e \<Longrightarrow> slot d' i = (if i = 0 then Some v else slot ?e i)"
      using write_slot [OF wf', of 0] c by auto
    have "vd_len d' = length xs + 1" by (subst d'(2)) (simp add: len)
    moreover have "slot ?e (Suc i) = Some (xs ! i)" if "i < length xs" for i
      using slot_head_back [OF wf, of i] vd_repD(4) [OF 2(2) that] that 2(3) by simp
    ultimately have "vd_rep d' (v # xs)"
      using d'(3,4) 2(3)
      by (intro vd_repI) (auto simp: nth_Cons less_Suc_eq_0_disj split: nat.splits)
    moreover have "same_buffer_kind d d'" by (subst d'(2)) (simp add: 2(4))
    moreover have "push_front d v = Inr d'"
      using d'(1) to_physical_0 [OF wf'] c by (simp add: push_front_def 2(1) Let_def)
    ultimately show thesis using that(2) by blast
  qed
qed

lemma pop_back_rep:
  assumes rep: "vd_rep d xs"
  shows "pop_back d = Inr (if xs = [] then (None, d) else (Some (List.last xs), d\<lparr>vd_len := length xs - 1\<rparr>))"
    and "xs \<noteq> [] \<Longrightarrow> vd_rep (d\<lparr>vd_len := length xs - 1\<rparr>) (butlast xs)"
proof -
  note wf = vd_repD(1) [OF rep] and len = vd_repD(2,3) [OF rep]
  show "pop_back d = Inr (if xs = [] then (None, d) else (Some (List.last xs), d\<lparr>vd_len := length xs - 1\<rparr>))"
  proof (cases "xs = []")
    case False
    then have lt: "length xs - 1 < length xs" "length xs - 1 < vd_cap d" using len(2) by (cases xs; simp)+
    have "ptr_read (vd_mem d) (to_physical_idx d (length xs - 1)) = Inr (List.last xs)"
      using lt vd_repD(4) [OF rep lt(1)] False by (intro read_slot [OF wf]) (simp_all add: last_conv_nth)
    with False lt(2) show ?thesis
      using len vd_wf_simps(1) [OF wf] by (simp add: pop_back_def buffer_read_def Let_def)
  qed (use len in \<open>simp add: pop_back_def\<close>)
  show "vd_rep (d\<lparr>vd_len := length xs - 1\<rparr>) (butlast xs)" if "xs \<noteq> []"
    using wf len vd_repD(4) [OF rep] by (intro vd_repI) (auto simp: nth_butlast)
qed

lemma pop_front_rep:
  assumes rep: "vd_rep d xs"
  shows "pop_front d = Inr (if xs = [] then (None, d)
      else (Some (hd xs), d\<lparr>vd_head := to_physical_idx d 1, vd_len := length xs - 1\<rparr>))"
    and "xs \<noteq> [] \<Longrightarrow> vd_rep (d\<lparr>vd_head := to_physical_idx d 1, vd_len := length xs - 1\<rparr>) (tl xs)"
proof -
  note wf = vd_repD(1) [OF rep] and len = vd_repD(2,3) [OF rep]
  show "pop_front d = Inr (if xs = [] then (None, d)
      else (Some (hd xs), d\<lparr>vd_head := to_physical_idx d 1, vd_len := length xs - 1\<rparr>))"
  proof (cases "xs = []")
    case False
    then have lt: "0 < length xs" "0 < vd_cap d" "length xs - 1 < vd_cap d" using len(2) by (cases xs; simp)+
    moreover have "ptr_read (vd_mem d) (to_physical_idx d 0) = Inr (hd xs)"
      using lt vd_repD(4) [OF rep lt(1)] False by (intro read_slot [OF wf]) (simp_all add: hd_conv_nth)
    ultimately show ?thesis
      using False len(1) vd_wf_simps(1) [OF wf] to_physical_0 [OF wf]
      by (simp add: pop_front_def buffer_read_def Let_def)
  qed (use len in \<open>simp add: pop_front_def\<close>)
  assume ne: "xs \<noteq> []"
  show "vd_rep (d\<lparr>vd_head := to_physical_idx d 1, vd_len := length xs - 1\<rparr>) (tl xs)"
  proof (cases "vd_cap d = 1")
    case True
    then have "length xs = 1" using len ne by (cases xs) auto
    moreover have "vd_wf (d\<lparr>vd_head := to_physical_idx d 1, vd_len := 0\<rparr>)"
      using wf True vd_wf_head [OF wf] by (auto simp: physical_slot ring_add_def vd_wf_def)
    ultimately show ?thesis by (intro vd_repI) simp_all
  next
    case False
    then have c: "1 < vd_cap d" using len ne by (cases xs) auto
    then have phys: "to_physical_idx d 1 = ring_add (vd_cap d) (vd_head d) 1"
      using wf by (simp add: physical_slot)
    have h: "vd_head d < vd_cap d" using vd_wf_head [OF wf] c by simp
    have "slot (d\<lparr>vd_head := to_physical_idx d 1\<rparr>) i = Some (tl xs ! i)" if "i < length (tl xs)" for i
    proof -
      have "ring_add (vd_cap d) 1 i = Suc i" "i < vd_cap d" using that len by (auto simp: ring_add_def)
      then show ?thesis
        using slot_head_shift [OF wf c, of i] vd_repD(4) [OF rep, of "Suc i"] that
        by (simp add: phys [simplified] nth_tl)
    qed
    moreover have "vd_wf (d\<lparr>vd_head := to_physical_idx d 1, vd_len := length xs - 1\<rparr>)"
      using wf len h c ring_add_less [OF h c] by (simp add: phys [simplified] vd_wf_def)
    ultimately show ?thesis using len by (intro vd_repI) simp_all
  qed
qed

lemma vd_get_rep:
  assumes "vd_rep d xs"
  shows "vd_get d i = Inr (if i < length xs then Some (xs ! i) else None)"
  using vd_repD [OF assms] by (auto simp: vd_get_def Let_def read_slot)

lemma wrap_copy_0: "wrap_copy d src dst 0 = Inr d"
  by (simp add: wrap_copy_def)

lemma swap_rep:
  assumes rep: "vd_rep d xs" and i: "i < length xs" and j: "j < length xs"
  obtains m where "vd_swap d i j = Inr (set_mem d m)"
    "vd_rep (set_mem d m) (xs[i := xs ! j, j := xs ! i])"
proof -
  note r = vd_repD [OF rep]
  let ?p = "\<lambda>i. ring_add (vd_cap d) (vd_head d) i"
  have lt: "i < vd_cap d" "j < vd_cap d" using i j r(3) by auto
  have h: "vd_head d < vd_cap d" using vd_wf_head [OF r(1)] lt(1) by simp
  let ?m = "(vd_mem d)[?p i := Some (xs ! j), ?p j := Some (xs ! i)]"
  show thesis
  proof (rule that [of ?m])
    show "vd_swap d i j = Inr (set_mem d ?m)"
      using i j r(2) lt ring_idx_less [OF r(1)] r(4) [OF i] r(4) [OF j]
      by (simp add: vd_swap_def physical_slot [OF r(1)] slot_def)
    show "vd_rep (set_mem d ?m) (xs[i := xs ! j, j := xs ! i])"
    proof (rule vd_repI)
      fix k assume k: "k < length (xs[i := xs ! j, j := xs ! i])"
      then have "k < vd_cap d" using r(3) by simp
      with k h lt ring_idx_less [OF r(1) lt(1)] ring_idx_less [OF r(1) lt(2)] r(4) [of k]
      show "slot (set_mem d ?m) k = Some (xs[i := xs ! j, j := xs ! i] ! k)"
        by (auto simp: nth_list_update ring_add_inj slot_def)
    qed (use r in \<open>simp_all add: vd_wf_simps\<close>)
  qed
qed

lemma swap_panics:
  assumes "vd_rep d xs" "\<not> (i < length xs \<and> j < length xs)"
  shows "\<exists>s. vd_swap d i j = Inl (Panic s)"
  using assms vd_repD(2) [OF assms(1)] by (auto simp: vd_swap_def ensure_def)

lemma swap_remove_front_rep:
  assumes rep: "vd_rep d xs" and i: "i < length xs"
  obtains d' where "swap_remove_front d i = Inr (Some (xs ! i), d')"
    "vd_rep d' (tl (xs[i := hd xs]))" "same_buffer_kind d d'"
proof -
  from i have ne: "xs \<noteq> []" "0 < length xs" by auto
  obtain m where m: "vd_swap d i 0 = Inr (set_mem d m)"
    "vd_rep (set_mem d m) (xs[i := xs ! 0, 0 := xs ! i])"
    using swap_rep [OF rep i ne(2)] .
  let ?xs = "xs[i := xs ! 0, 0 := xs ! i]"
  have ne': "?xs \<noteq> []" and hd': "hd ?xs = xs ! i" using ne by (simp_all add: hd_conv_nth)
  show thesis
  proof (cases "i = 0")
    case True
    have upd: "xs[0 := xs ! 0] = xs" by simp
    from True show thesis
      using pop_front_rep [OF rep] ne i vd_repD(2) [OF rep]
      by (intro that) (auto simp: swap_remove_front_def hd_conv_nth Let_def upd)
  next
    case False
    have "tl ?xs = tl (xs[i := hd xs])" using ne(1) False by (cases xs) (auto split: nat.splits)
    then show thesis
      using pop_front_rep [OF m(2)] ne' hd' i vd_repD(2) [OF rep] m(1) False
      by (intro that) (auto simp: swap_remove_front_def Let_def)
  qed
qed

lemma swap_remove_back_rep:
  assumes rep: "vd_rep d xs" and i: "i < length xs"
  obtains d' where "swap_remove_back d i = Inr (Some (xs ! i), d')"
    "vd_rep d' (butlast (xs[i := List.last xs]))" "same_buffer_kind d d'"
proof -
  from i have ne: "xs \<noteq> []" "length xs - 1 < length xs" by auto
  obtain m where m: "vd_swap d i (length xs - 1) = Inr (set_mem d m)"
    "vd_rep (set_mem d m) (xs[i := xs ! (length xs - 1), length xs - 1 := xs ! i])"
    using swap_rep [OF rep i ne(2)] .
  let ?xs = "xs[i := xs ! (length xs - 1), length xs - 1 := xs ! i]"
  have ne': "?xs \<noteq> []" and last': "List.last ?xs = xs ! i" using ne by (simp_all add: last_conv_nth)
  show thesis
  proof (cases "i = length xs - 1")
    case True
    then have "xs ! i = List.last xs" "xs[i := List.last xs] = xs" "\<not> i < length xs - 1"
        "\<not> length xs \<le> length xs - 1"
      using ne by (auto simp: last_conv_nth neq_Nil_conv)
    then show thesis
      using pop_back_rep [OF rep] ne i vd_repD(2) [OF rep] True
      by (intro that) (auto simp: swap_remove_back_def Let_def)
  next
    case False
    have "butlast ?xs = butlast (xs[i := List.last xs])"
      using ne(1) False i by (simp add: last_conv_nth butlast_list_update)
    moreover have "i < length xs - Suc 0" using False i by simp
    ultimately show thesis
      using pop_back_rep [OF m(2)] ne' last' i vd_repD(2) [OF rep] m(1) False
      by (intro that) (auto simp: swap_remove_back_def Let_def)
  qed
qed

lemma insert_cases:
  assumes rep: "vd_rep d xs" and i: "i \<le> length xs"
  obtains "reserve_fails (vd_insert d i v)"
  | d' where "vd_insert d i v = Inr d'" "vd_rep d' (take i xs @ v # drop i xs)" "same_buffer_kind d d'"
proof -
  have ens: "i \<le> vd_len d" using i vd_repD(2) [OF rep] by simp
  from make_room_cases [OF rep] show thesis
  proof cases
    case 1
    then show thesis using ens by (intro that(1)) (simp only: vd_insert_def ensure_True reserve_fails_and_then)
  next
    case (2 e)
    note r = vd_repD [OF 2(2)]
    note finish = that(2)
    let ?c = "vd_cap e" and ?h = "vd_head e" and ?n = "length xs"
    obtain k where k: "?n = i + k" using i le_Suc_ex by blast
    have c0: "0 < ?c" and c1: "i + k < ?c" using 2(3) k by auto
    have h: "?h < ?c" using vd_wf_head [OF r(1) c0] .
    \<comment> \<open>writing the new element into the gap ends both branches\<close>
    have close: thesis if e1: "vd_wf e1" "vd_cap e1 = ?c" "vd_len e1 = ?n" "same_buffer_kind e e1"
      and sl: "\<And>j. j < i \<Longrightarrow> slot e1 j = Some (xs ! j)"
        "\<And>j. i < j \<Longrightarrow> j \<le> ?n \<Longrightarrow> slot e1 j = Some (xs ! (j - 1))"
      and run: "vd_insert d i v = buffer_write (e1\<lparr>vd_len := ?n + 1\<rparr>) (to_physical_idx (e1\<lparr>vd_len := ?n + 1\<rparr>) i) v"
    for e1
    proof -
      let ?e = "e1\<lparr>vd_len := ?n + 1\<rparr>"
      have wf': "vd_wf ?e" using e1 2(3) by simp
      obtain d' where d': "buffer_write ?e (to_physical_idx ?e i) v = Inr d'"
        "d' = set_mem ?e (vd_mem d')" "vd_wf d'"
        "\<And>j. j < vd_cap ?e \<Longrightarrow> slot d' j = (if j = i then Some v else slot ?e j)"
        using write_slot [OF wf', of i] c1 e1(2) by auto
      have "vd_len d' = ?n + 1" by (subst d'(2)) simp
      moreover have "slot d' j = Some ((take i xs @ v # drop i xs) ! j)" if "j \<le> ?n" for j
        using that sl d'(4) [of j] e1(2) c1 k
        by (cases j i rule: linorder_cases) (simp_all add: nth_insert)
      ultimately have "vd_rep d' (take i xs @ v # drop i xs)"
        using d'(3) i by (intro vd_repI) auto
      moreover have "same_buffer_kind d d'"
        by (subst d'(2)) (simp add: same_buffer_kind_trans [OF 2(4) e1(4)])
      ultimately show thesis using finish run d'(1) by simp
    qed
    show thesis
    proof (cases "k < i")
      case True
      have phys: "to_physical_idx e i = ring_add ?c ?h i" "to_physical_idx e (i + 1) = ring_add ?c ?h (i + 1)"
        using c1 True by (simp_all add: physical_slot [OF r(1)])
      obtain e1 where e1: "wrap_copy e (to_physical_idx e i) (to_physical_idx e (i + 1)) k = Inr e1"
        "vd_wf e1" "vd_cap e1 = ?c" "vd_len e1 = ?n" "same_buffer_kind e e1"
        and sl: "\<And>j. j < i \<Longrightarrow> slot e1 j = slot e j"
        "\<And>j. i < j \<Longrightarrow> j \<le> ?n \<Longrightarrow> slot e1 j = slot e (j - 1)"
      proof (cases "k = 0")
        case True
        with r(1,2) show thesis using k by (intro that [of e]) (simp_all add: wrap_copy_0)
      next
        case False
        have b: "i < ?c" "i + 1 < ?c" "min (abs_diff i (i + 1)) (?c - abs_diff i (i + 1)) + k \<le> ?c"
          using c1 False True by (auto simp: abs_diff_def)
        obtain m' where m': "wrap_copy e (ring_add ?c ?h i) (ring_add ?c ?h (i + 1)) k = Inr (set_mem e m')"
          "vd_wf (set_mem e m')"
          "\<And>j. j < ?c \<Longrightarrow> slot (set_mem e m') j =
            (if ring_sub ?c j (i + 1) < k then slot e (ring_add ?c i (ring_sub ?c j (i + 1))) else slot e j)"
          using wrap_copy_slots [OF r(1) b] by blast
        show thesis
        proof (rule that)
          show "wrap_copy e (to_physical_idx e i) (to_physical_idx e (i + 1)) k = Inr (set_mem e m')"
            using m'(1) phys by simp
          show "slot (set_mem e m') j = slot e j" if "j < i" for j
          proof -
            have "\<not> ring_sub ?c j (i + 1) < k" "j < ?c" using that c1 by (auto simp: ring_sub_def)
            with m'(3) [of j] show ?thesis by simp
          qed
          show "slot (set_mem e m') j = slot e (j - 1)" if "i < j" "j \<le> ?n" for j
          proof -
            have "ring_sub ?c j (i + 1) < k" "ring_add ?c i (ring_sub ?c j (i + 1)) = j - 1" "j < ?c"
              using that c1 k by (auto simp: ring_defs)
            with m'(3) [of j] show ?thesis by simp
          qed
        qed (use m'(2) r(2) in simp_all)
      qed
      show thesis
      proof (rule close [OF e1(2-5)])
        show "vd_insert d i v = buffer_write (e1\<lparr>vd_len := ?n + 1\<rparr>)
            (to_physical_idx (e1\<lparr>vd_len := ?n + 1\<rparr>) i) v"
          using ens 2(1) r(2) k True e1(1,4) by (simp add: vd_insert_def Let_def)
      qed (use sl r(4) k in simp_all)
    next
      case False
      let ?e = "e\<lparr>vd_head := wrap_sub e ?h 1\<rparr>"
      note hb = head_back_one [OF r(1) c0]
      have wf': "vd_wf ?e" using r(1) hb(1) by simp
      obtain e1 where e1: "wrap_copy ?e ?h (vd_head ?e) i = Inr e1"
        "vd_wf e1" "vd_cap e1 = ?c" "vd_len e1 = ?n" "same_buffer_kind e e1"
        and sl: "\<And>j. j < i \<Longrightarrow> slot e1 j = slot e j"
        "\<And>j. i < j \<Longrightarrow> j \<le> ?n \<Longrightarrow> slot e1 j = slot e (j - 1)"
      proof (cases "i = 0")
        case True
        have "slot ?e j = slot e (j - 1)" if "0 < j" "j \<le> ?n" for j
          using slot_head_back [OF r(1), of "j - 1"] that 2(3) by simp
        with True wf' r(2) that [of ?e] show thesis by (simp add: wrap_copy_0)
      next
        case i0: False
        have b: "1 < vd_cap ?e" "0 < vd_cap ?e"
          "min (abs_diff 1 0) (vd_cap ?e - abs_diff 1 0) + i \<le> vd_cap ?e"
          using c1 False i0 by (auto simp: abs_diff_def)
        have ends: "?h = ring_add (vd_cap ?e) (vd_head ?e) 1"
          "vd_head ?e = ring_add (vd_cap ?e) (vd_head ?e) 0"
          using hb by (simp_all add: ring_add_def)
        obtain m' where m': "wrap_copy ?e (ring_add (vd_cap ?e) (vd_head ?e) 1)
              (ring_add (vd_cap ?e) (vd_head ?e) 0) i = Inr (set_mem ?e m')"
          "vd_wf (set_mem ?e m')"
          "\<And>j. j < vd_cap ?e \<Longrightarrow> slot (set_mem ?e m') j =
            (if ring_sub (vd_cap ?e) j 0 < i then slot ?e (ring_add (vd_cap ?e) 1 (ring_sub (vd_cap ?e) j 0))
             else slot ?e j)"
          using wrap_copy_slots [OF wf' b] by blast
        show thesis
        proof (rule that)
          show "wrap_copy ?e ?h (vd_head ?e) i = Inr (set_mem ?e m')"
            using m'(1) unfolding ends(1) [symmetric] ends(2) [symmetric] .
          show "slot (set_mem ?e m') j = slot e j" if "j < i" for j
          proof -
            have "j + 1 < ?c" using that c1 by simp
            with that m'(3) [of j] slot_head_back [OF r(1), of j] show ?thesis
              by (simp add: ring_defs)
          qed
          show "slot (set_mem ?e m') j = slot e (j - 1)" if "i < j" "j \<le> ?n" for j
          proof -
            have "j - 1 + 1 < ?c" "Suc (j - 1) = j" using that 2(3) by auto
            with that m'(3) [of j] slot_head_back [OF r(1), of "j - 1"] show ?thesis
              by (simp add: ring_defs)
          qed
        qed (use m'(2) r(2) in simp_all)
      qed
      show thesis
      proof (rule close [OF e1(2-5)])
        show "vd_insert d i v = buffer_write (e1\<lparr>vd_len := ?n + 1\<rparr>)
            (to_physical_idx (e1\<lparr>vd_len := ?n + 1\<rparr>) i) v"
          using ens 2(1) r(2) k False e1(1,4) by (simp add: vd_insert_def Let_def)
      qed (use sl r(4) k in simp_all)
    qed
  qed
qed

lemma shift_head_one:
  assumes rep: "vd_rep d xs" and c: "1 < vd_cap d"
  shows "to_physical_idx d 1 = ring_add (vd_cap d) (vd_head d) 1"
    and "vd_wf (d\<lparr>vd_head := to_physical_idx d 1\<rparr>)"
    and "j < vd_cap d \<Longrightarrow> slot (d\<lparr>vd_head := to_physical_idx d 1\<rparr>) j =
      slot d (if j + 1 = vd_cap d then 0 else j + 1)"
proof -
  note r = vd_repD [OF rep]
  show phys: "to_physical_idx d 1 = ring_add (vd_cap d) (vd_head d) 1"
    using c by (simp add: physical_slot [OF r(1)])
  have h: "vd_head d < vd_cap d" using vd_wf_head [OF r(1)] c by simp
  show "vd_wf (d\<lparr>vd_head := to_physical_idx d 1\<rparr>)"
    unfolding phys using r(1) ring_add_less [OF h c] by simp
  show "slot (d\<lparr>vd_head := to_physical_idx d 1\<rparr>) j = slot d (if j + 1 = vd_cap d then 0 else j + 1)"
    if "j < vd_cap d"
    unfolding phys slot_head_shift [OF r(1) c that] using that c by (auto simp: ring_add_def)
qed

lemma remove_rep:
  assumes rep: "vd_rep d xs" and i: "i < length xs"
  obtains d' where "vd_remove d i = Inr (Some (xs ! i), d')"
    "vd_rep d' (take i xs @ drop (Suc i) xs)" "same_buffer_kind d d'"
proof -
  note r = vd_repD [OF rep]
  let ?c = "vd_cap d" and ?h = "vd_head d" and ?n = "length xs"
  obtain k where k: "?n = i + k + 1" using i less_iff_Suc_add by auto
  have c: "0 < ?c" "i + k < ?c" "i < ?c" using k r(3) by auto
  have h: "?h < ?c" using vd_wf_head [OF r(1) c(1)] .
  have elem: "buffer_read d (to_physical_idx d i) = Inr (xs ! i)"
    using read_slot [OF r(1) c(3) r(4) [OF i]] by (simp add: buffer_read_def)
  have close: "\<exists>d'. d' = e\<lparr>vd_len := vd_len e - 1\<rparr> \<and> vd_rep d' (take i xs @ drop (Suc i) xs) \<and>
      same_buffer_kind d d'"
    if "vd_wf e" "vd_cap e = ?c" "vd_len e = ?n" "same_buffer_kind d e"
      and "\<And>j. j < i \<Longrightarrow> slot e j = slot d j"
      and "\<And>j. i \<le> j \<Longrightarrow> j < i + k \<Longrightarrow> slot e j = slot d (j + 1)" for e
    using that k r i c by (auto intro!: vd_repI simp: nth_delete)
  have "\<exists>d'. vd_remove d i = Inr (Some (xs ! i), d') \<and> vd_rep d' (take i xs @ drop (Suc i) xs) \<and>
      same_buffer_kind d d'"
  proof (cases "k < i")
    case True
    obtain e where e: "wrap_copy d (wrap_add d (to_physical_idx d i) 1) (to_physical_idx d i) k = Inr e"
      "vd_wf e" "vd_cap e = ?c" "vd_len e = ?n" "same_buffer_kind d e"
      and sl: "\<And>j. j < i \<Longrightarrow> slot e j = slot d j"
        "\<And>j. i \<le> j \<Longrightarrow> j < i + k \<Longrightarrow> slot e j = slot d (j + 1)"
    proof (cases "k = 0")
      case True
      with r(1,2) that [of d] show thesis by (simp add: wrap_copy_0)
    next
      case False
      have b: "i + 1 < ?c" "i < ?c" "min (abs_diff (i + 1) i) (?c - abs_diff (i + 1) i) + k \<le> ?c"
        using c False True by (auto simp: abs_diff_def)
      have phys: "to_physical_idx d i = ring_add ?c ?h i"
        "wrap_add d (to_physical_idx d i) 1 = ring_add ?c ?h (i + 1)"
        using b h wrap_add_ring [OF r(1), of "ring_add ?c ?h i" 1]
        by (auto simp: physical_slot [OF r(1)] ring_defs split: if_splits)
      obtain m' where m': "wrap_copy d (ring_add ?c ?h (i + 1)) (ring_add ?c ?h i) k = Inr (set_mem d m')"
        "vd_wf (set_mem d m')"
        "\<And>j. j < ?c \<Longrightarrow> slot (set_mem d m') j =
          (if ring_sub ?c j i < k then slot d (ring_add ?c (i + 1) (ring_sub ?c j i)) else slot d j)"
        using wrap_copy_slots [OF r(1) b] by blast
      show thesis
      proof (rule that)
        show "wrap_copy d (wrap_add d (to_physical_idx d i) 1) (to_physical_idx d i) k = Inr (set_mem d m')"
          using m'(1) unfolding phys(2) unfolding phys(1) .
        show "slot (set_mem d m') j = slot d j" if "j < i" for j
        proof -
          have "\<not> ring_sub ?c j i < k" "j < ?c" using that c by (auto simp: ring_sub_def)
          with m'(3) [of j] show ?thesis by simp
        qed
        show "slot (set_mem d m') j = slot d (j + 1)" if "i \<le> j" "j < i + k" for j
        proof -
          have "ring_sub ?c j i < k" "ring_add ?c (i + 1) (ring_sub ?c j i) = j + 1" "j < ?c"
            using that c k r(3) by (auto simp: ring_defs)
          with m'(3) [of j] show ?thesis by simp
        qed
      qed (use m'(2) r(2) in simp_all)
    qed
    with close [OF e(2-5) sl] show ?thesis
      using True r(2) i k elem by (simp add: vd_remove_def Let_def)
  next
    case False
    let ?e = "d\<lparr>vd_head := to_physical_idx d 1\<rparr>"
    obtain e where e: "wrap_copy ?e ?h (vd_head ?e) i = Inr e"
      "vd_wf e" "vd_cap e = ?c" "vd_len e = ?n" "same_buffer_kind d e"
      and sl: "\<And>j. j < i \<Longrightarrow> slot e j = slot d j"
        "\<And>j. i \<le> j \<Longrightarrow> j < i + k \<Longrightarrow> slot e j = slot d (j + 1)"
    proof (cases "?c = 1")
      case True
      then have "i = 0" "k = 0" using c by auto
      moreover have "vd_wf ?e" using True r(1) h by (auto simp: physical_slot ring_add_def vd_wf_def)
      ultimately show thesis using r(2) that [of ?e] by (simp add: wrap_copy_0)
    next
      case c1: False
      then have c1: "1 < ?c" using c by simp
      note sh = shift_head_one [OF rep c1]
      show thesis
      proof (cases "i = 0")
        case True
        then show thesis using r(2) sh c that [of ?e] by (simp add: wrap_copy_0)
      next
        case i0: False
        have b: "vd_cap ?e - 1 < vd_cap ?e" "0 < vd_cap ?e"
          "min (abs_diff (vd_cap ?e - 1) 0) (vd_cap ?e - abs_diff (vd_cap ?e - 1) 0) + i \<le> vd_cap ?e"
          using c c1 i0 by (auto simp: abs_diff_def)
        have ends: "?h = ring_add (vd_cap ?e) (vd_head ?e) (vd_cap ?e - 1)"
          "vd_head ?e = ring_add (vd_cap ?e) (vd_head ?e) 0"
          using sh(1) h c1 by (auto simp: ring_add_def)
        obtain m' where m': "wrap_copy ?e (ring_add (vd_cap ?e) (vd_head ?e) (vd_cap ?e - 1))
              (ring_add (vd_cap ?e) (vd_head ?e) 0) i = Inr (set_mem ?e m')"
          "vd_wf (set_mem ?e m')"
          "\<And>j. j < vd_cap ?e \<Longrightarrow> slot (set_mem ?e m') j =
            (if ring_sub (vd_cap ?e) j 0 < i
             then slot ?e (ring_add (vd_cap ?e) (vd_cap ?e - 1) (ring_sub (vd_cap ?e) j 0))
             else slot ?e j)"
          using wrap_copy_slots [OF sh(2) b] by blast
        show thesis
        proof (rule that)
          show "wrap_copy ?e ?h (vd_head ?e) i = Inr (set_mem ?e m')"
            using m'(1) unfolding ends(1) [symmetric] ends(2) [symmetric] .
          show "slot (set_mem ?e m') j = slot d j" if "j < i" for j
          proof -
            have "ring_sub ?c j 0 < i" "j < ?c"
              "ring_add ?c (?c - 1) (ring_sub ?c j 0) = (if j = 0 then ?c - 1 else j - 1)"
              "(if j = 0 then ?c - 1 else j - 1) < ?c"
              using that c c1 by (auto simp: ring_defs)
            with m'(3) [of j] sh(3) [of "if j = 0 then ?c - 1 else j - 1"] c1 that c show ?thesis
              by (auto split: if_splits)
          qed
          show "slot (set_mem ?e m') j = slot d (j + 1)" if "i \<le> j" "j < i + k" for j
          proof -
            have "\<not> ring_sub ?c j 0 < i" "j < ?c" "j + 1 < ?c"
              using that c k r(3) by (auto simp: ring_sub_def)
            with m'(3) [of j] sh(3) [of j] show ?thesis by simp
          qed
        qed (use m'(2) r(2) in simp_all)
      qed
    qed
    with close [OF e(2-5) sl] show ?thesis
      using False r(2) i k elem by (simp add: vd_remove_def Let_def)
  qed
  with that show thesis by blast
qed

section \<open>Slices\<close>

lemma ring_segment_slice:
  assumes rep: "vd_rep d xs" and sn: "s + n \<le> length xs"
    and p: "p = ring_add (vd_cap d) (vd_head d) s" "p + n \<le> vd_cap d"
  shows "slice_at (vd_mem d) p (p + n) = Inr (take n (drop s xs))"
proof -
  note r = vd_repD [OF rep]
  have "vd_mem d ! (p + i) = Some (xs ! (s + i))" if i: "i < n" for i
  proof -
    have "ring_add (vd_cap d) (vd_head d) (s + i) = p + i"
      using p i sn r(3) vd_wf_head [OF r(1)] by (auto simp: ring_add_def split: if_splits)
    then show ?thesis using r(4) [of "s + i"] i sn by (simp add: slot_def)
  qed
  then show ?thesis
    using sn p(2) vd_wf_simps(3) [OF r(1)] by (auto simp: slice_at_Inr_iff)
qed

lemma range_slices_rep:
  assumes rep: "vd_rep d xs" and range: "slice_range sb eb (length xs) = Inr (s, e)"
  shows "range_slices d sb eb = Inr
    (take (vd_cap d - ring_add (vd_cap d) (vd_head d) s) (take (e - s) (drop s xs)),
     drop (vd_cap d - ring_add (vd_cap d) (vd_head d) s) (take (e - s) (drop s xs)))"
proof -
  note r = vd_repD [OF rep]
  note b = slice_range_Inr [OF range]
  obtain n where n: "e = s + n" "s + n \<le> length xs" using b le_Suc_ex by blast
  let ?c = "vd_cap d" and ?p = "ring_add (vd_cap d) (vd_head d) s"
  have empty: "slice_at (vd_mem d) 0 0 = Inr []" by (simp add: slice_at_def)
  show ?thesis
  proof (cases "n = 0")
    case True
    then show ?thesis
      using range n(1) r(2) empty
      by (simp add: range_slices_def slice_ranges_def buffer_range_def)
  next
    case False
    then have s: "s < ?c" using n r(3) by simp
    have h: "vd_head d < ?c" using vd_wf_head [OF r(1)] s by simp
    note pl = ring_add_less [OF h s]
    have phys: "to_physical_idx d s = ?p" using s by (simp add: physical_slot [OF r(1)])
    show ?thesis
    proof (cases "n \<le> ?c - ?p")
      case True
      then have "slice_at (vd_mem d) ?p (?p + n) = Inr (take n (drop s xs))"
        using pl n by (intro ring_segment_slice [OF rep]) auto
      then show ?thesis
        using True False range n r(2) empty phys vd_wf_simps(1) [OF r(1)]
        by (simp add: range_slices_def slice_ranges_def buffer_range_def Let_def)
    next
      case wrap: False
      obtain l where l: "?p + l = ?c" "?c - ?p = l" using pl less_imp_add_positive by fastforce
      obtain t where t: "n = l + t" using wrap l(2) by (metis le_Suc_ex nat_le_linear)
      have nt: "\<not> l + t \<le> l" using wrap l(2) t by simp
      have p0: "0 = ring_add ?c (vd_head d) (s + l)"
        using l(1) s h n r(3) t by (auto simp: ring_add_def split: if_splits)
      have "slice_at (vd_mem d) ?p (?p + l) = Inr (take l (drop s xs))"
        using l(1) n t by (intro ring_segment_slice [OF rep]) auto
      moreover have "slice_at (vd_mem d) 0 (0 + t) = Inr (take t (drop (s + l) xs))"
        using n t r(3) p0 by (intro ring_segment_slice [OF rep]) auto
      moreover have "drop l (take n (drop s xs)) = take t (drop (s + l) xs)"
        by (simp add: t drop_take add.commute)
      ultimately show ?thesis
        using range False nt r(2) l(1) n(1)
        by (simp add: range_slices_def slice_ranges_def buffer_range_def min_def Let_def phys l(2)
            vd_wf_simps(1) [OF r(1)] t)
    qed
  qed
qed

lemma as_slices_rep:
  assumes rep: "vd_rep d xs"
  shows "as_slices d = Inr (take (vd_cap d - vd_head d) xs, drop (vd_cap d - vd_head d) xs)"
proof (cases "xs = []")
  case True
  then show ?thesis
    using range_slices_rep [OF rep, of Unbounded Unbounded 0 0] by (simp add: as_slices_def slice_range_def)
next
  case False
  then have "vd_head d < vd_cap d"
    using vd_wf_head [OF vd_repD(1) [OF rep]] vd_repD(3) [OF rep] by (cases xs) auto
  then show ?thesis
    using range_slices_rep [OF rep, of Unbounded Unbounded 0 "length xs"]
    by (simp add: as_slices_def slice_range_def ring_add_def)
qed

lemma contains_rep: "vd_rep d xs \<Longrightarrow> vd_contains d x = Inr (x \<in> set xs)"
  using set_append [of "take (vd_cap d - vd_head d) xs" "drop (vd_cap d - vd_head d) xs"]
  by (simp only: vd_contains_def as_slices_rep and_then_simps split_conv append_take_drop_id Un_iff)

section \<open>Dropping elements at the ends\<close>

lemma drop_back_rep: "vd_rep d xs \<Longrightarrow> n \<le> length xs \<Longrightarrow> vd_rep (d\<lparr>vd_len := n\<rparr>) (take n xs)"
  using vd_repD [of d xs] by (auto intro!: vd_repI)

lemma drop_front_rep:
  assumes rep: "vd_rep d xs" and k: "k + n = length xs" 
  shows "vd_rep (d\<lparr>vd_head := ring_add (vd_cap d) (vd_head d) k, vd_len := n\<rparr>) (drop k xs)"
proof -
  note r = vd_repD [OF rep]
  let ?d = "d\<lparr>vd_head := ring_add (vd_cap d) (vd_head d) k\<rparr>"
  have k': "k \<le> vd_cap d" using k r(3) by simp
  have wf: "vd_wf ?d"
    using r(1) k' by (auto simp: vd_wf_def ring_add_def)
  have "slot ?d i = Some (drop k xs ! i)" if "i < length (drop k xs)" for i
  proof -
    have lt: "k < vd_cap d" "i < vd_cap d" "ring_add (vd_cap d) k i = k + i"
      using that k r(3) by (auto simp: ring_add_def)
    show ?thesis
      using slot_head_shift [OF r(1) lt(1,2)] lt(3) r(4) [of "k + i"] that by simp
  qed
  then show ?thesis using wf k r(3) by (intro vd_repI) auto
qed

lemma drop_split: "n \<le> k \<Longrightarrow> drop n (take k xs) @ drop k xs = drop n xs"
proof -
  assume "n \<le> k"
  then have "drop n (take k xs @ drop k xs) = drop n (take k xs) @ drop k xs"
    by (subst drop_append) (auto simp: min_def)
  then show ?thesis by simp
qed

lemma truncate_rep:
  assumes rep: "vd_rep d xs"
  shows "truncate d n = Inr (drop n xs, if length xs \<le> n then d else d\<lparr>vd_len := n\<rparr>)"
  using vd_repD(2) [OF rep] as_slices_rep [OF rep]
  by (auto simp: truncate_def Let_def drop_split min_def)

lemma truncate_front_rep:
  assumes rep: "vd_rep d xs"
  obtains d' where "truncate_front d n = Inr (take (length xs - n) xs, d')"
    "vd_rep d' (drop (length xs - n) xs)" "same_buffer_kind d d'"
proof (cases "length xs \<le> n")
  case True
  then show thesis using that [of d] rep vd_repD(2) [OF rep] by (simp add: truncate_front_def)
next
  case False
  note r = vd_repD [OF rep]
  let ?l = "vd_cap d - vd_head d"
  obtain k where k: "k + n = length xs" "0 < k" using False by (intro that [of "length xs - n"]) auto
  let ?d = "d\<lparr>vd_head := ring_add (vd_cap d) (vd_head d) k, vd_len := n\<rparr>"
  have kc: "k \<le> vd_cap d" using k r(3) by simp
  obtain front rear where fr: "as_slices d = Inr (front, rear)" "xs = front @ rear"
    "length front \<le> ?l" by (rule that [OF as_slices_rep [OF rep]]) simp_all
  have len: "vd_len d = k + n" using k(1) r(2) by simp
  have fb: "length front + length rear = k + n" using k(1) fr(2) by simp
  have "truncate_front d n = Inr (take k xs, ?d)"
  proof (cases "length rear < n")
    case True
    then have e: "length front - (n - length rear) = k" "k < length front" using fb by linarith+
    then have "ring_add (vd_cap d) (vd_head d) k = vd_head d + k"
      using fr(3) by (auto simp: ring_add_def)
    then show ?thesis
      using True e k(2) by (simp add: truncate_front_def fr(1,2) len Let_def)
  next
    case b: False
    then have e: "length rear - n = k - length front" "length front \<le> k" using fb by linarith+
    have "to_physical_idx d k = ring_add (vd_cap d) (vd_head d) k"
      using kc by (simp add: physical_slot [OF r(1)])
    then show ?thesis
      using b e k(2) by (simp add: truncate_front_def fr(1,2) len Let_def)
  qed
  then show thesis
    using that [of ?d] drop_front_rep [OF rep k(1)] by (simp add: k(1) [symmetric])
qed

lemma clear_rep:
  assumes rep: "vd_rep d xs"
  obtains d' where "vd_clear d = Inr (xs, d')" "vd_rep d' []" "vd_cap d' = vd_cap d"
    "same_buffer_kind d d'"
proof -
  note r = vd_repD [OF rep]
  let ?d = "d\<lparr>vd_len := 0, vd_head := 0\<rparr>"
  have "vd_clear d = Inr (xs, ?d)"
    using truncate_rep [OF rep, of 0] r(2) by (cases "xs = []") (simp_all add: vd_clear_def)
  moreover have "vd_rep ?d []" using r(1) by (intro vd_repI) (auto simp: vd_wf_def)
  ultimately show thesis using that [of ?d] by simp
qed

section \<open>Reserving, appending and splitting\<close>

lemma vd_reserve_cases:
  assumes rep: "vd_rep d xs"
  obtains "reserve_fails (vd_reserve d n)"
  | d' where "vd_reserve d n = Inr d'" "vd_rep d' xs" "length xs + n \<le> vd_cap d'" "same_buffer_kind d d'"
proof -
  note r = vd_repD [OF rep]
  have inv: "rv_inv (vd_buf d)" "0 < lay_size (rv_elem (vd_buf d))" "vd_len d \<le> rv_cap (vd_buf d)"
    using r(1) by (simp_all add: vd_wf_def)
  note cap = vd_wf_simps(1) [OF r(1)]
  consider "usize_max < vd_len d + n" | "vd_len d + n \<le> usize_max" "vd_cap d < vd_len d + n"
    | "vd_len d + n \<le> usize_max" "vd_len d + n \<le> vd_cap d" by linarith
  then show thesis
  proof cases
    case 1
    then have "vd_reserve d n = capacity_overflow"
      by (simp add: vd_reserve_def checked_add_def)
    then show thesis by (intro that(1)) (simp add: capacity_overflow_def reserve_fails_def)
  next
    case 2
    then have run: "vd_reserve d n = and_then (rv_reserve (vd_buf d) (vd_len d) n)
        (\<lambda>buf. handle_capacity_increase (d\<lparr>vd_buf := buf\<rparr>) (vd_cap d))"
      using cap by (simp add: vd_reserve_def checked_add_def)
    from rv_reserve_cases [OF inv, of n] show thesis
    proof cases
      case 1
      then show thesis by (intro that(1)) (simp only: run reserve_fails_and_then)
    next
      case (2 buf)
      obtain d' where "handle_capacity_increase (d\<lparr>vd_buf := buf\<rparr>) (vd_cap d) = Inr d'"
        "vd_rep d' xs" "vd_cap d' = rv_cap buf" "same_buffer_kind d d'"
        using handle_capacity_increase_rep [OF rep 2(2)] .
      with 2 r(2) show thesis by (intro that(2) [of d']) (simp_all add: run)
    qed
  next
    case 3
    then show thesis using rep r(2) cap by (intro that(2) [of d]) (simp_all add: vd_reserve_def checked_add_def)
  qed
qed

lemma copy_slice_slots:
  assumes wf: "vd_wf d" and fit: "a + length src \<le> vd_cap d"
  obtains m where "copy_slice d (to_physical_idx d a) src = Inr (set_mem d m)" "vd_wf (set_mem d m)"
    "\<And>i. i < vd_cap d \<Longrightarrow> slot (set_mem d m) i =
      (if a \<le> i \<and> i < a + length src then Some (src ! (i - a)) else slot d i)"
proof -
  let ?c = "vd_cap d" and ?h = "vd_head d" and ?n = "length src"
  define p where "p = to_physical_idx d a"
  note s = vd_wf_simps [OF wf]
  have p: "p = ring_add ?c ?h a" using fit by (simp add: p_def physical_slot [OF wf])
  have pl: "p \<le> ?c" using wf fit unfolding p by (auto simp: ring_add_def vd_wf_def)
  \<comment> \<open>the run, as one update at ring distance from \<open>p\<close>\<close>
  obtain m where m: "copy_slice d p src = Inr (set_mem d m)" "length m = ?c"
    "\<And>q. q < ?c \<Longrightarrow> m ! q = (if ring_sub ?c q p < ?n then Some (src ! ring_sub ?c q p) else vd_mem d ! q)"
  proof (cases "?n \<le> ?c - p")
    case True
    then obtain t where t: "?c = p + ?n + t" using pl by (metis Nat.le_diff_conv2 add.commute le_Suc_ex)
    let ?m = "take p (vd_mem d) @ map Some src @ drop (p + ?n) (vd_mem d)"
    show thesis
    proof (rule that [of ?m])
      show "copy_slice d p src = Inr (set_mem d ?m)"
        using True fit s(1,3) t by (simp add: copy_slice_def ptr_copy_from_def)
      show "length ?m = ?c" using s(3) t by simp
      show "?m ! q = (if ring_sub ?c q p < ?n then Some (src ! ring_sub ?c q p) else vd_mem d ! q)"
        if "q < ?c" for q
        using that s(3) t by (auto simp: nth_append ring_sub_def not_less)
    qed
  next
    case False
    obtain l t where t: "?c = p + l" "?n = l + t" "t \<le> p"
      using pl False fit by (metis (no_types, lifting) add_le_cancel_right add_leE le_Suc_ex nat_le_linear add.commute diff_add_inverse)
    let ?m1 = "take p (vd_mem d) @ map Some (take l src)"
    let ?m = "map Some (drop l src) @ drop t ?m1"
    have m1: "length ?m1 = ?c" using s(3) t by simp
    show thesis
    proof (rule that [of ?m])
      show "copy_slice d p src = Inr (set_mem d ?m)"
        using False fit s(1,3) t m1 by (simp add: copy_slice_def ptr_copy_from_def Let_def)
      show "length ?m = ?c" using m1 t by simp
      show "?m ! q = (if ring_sub ?c q p < ?n then Some (src ! ring_sub ?c q p) else vd_mem d ! q)"
        if "q < ?c" for q
        using that s(3) t by (auto simp: nth_append ring_sub_def not_less add.commute)
    qed
  qed
  show thesis
  proof (rule that)
    show "copy_slice d (to_physical_idx d a) src = Inr (set_mem d m)" using m(1) by (simp add: p_def)
    show "vd_wf (set_mem d m)" using wf m(2) by simp
    fix i assume i: "i < ?c"
    then have h: "?h < ?c" using vd_wf_head [OF wf] by simp
    have "a = ?c \<Longrightarrow> ?n = 0" using fit by simp
    then have "ring_sub ?c (ring_add ?c ?h i) p < ?n \<longleftrightarrow> a \<le> i \<and> i < a + ?n"
      "a \<le> i \<Longrightarrow> ring_sub ?c (ring_add ?c ?h i) p = i - a"
      using i h fit unfolding p by (auto simp: ring_defs split: if_splits)
    with m(3) [OF ring_add_less [OF h i]]
    show "slot (set_mem d m) i = (if a \<le> i \<and> i < a + ?n then Some (src ! (i - a)) else slot d i)"
      by (auto simp: slot_def)
  qed
qed


lemma append_cases:
  assumes rep: "vd_rep d xs" and rep': "vd_rep e ys"
  obtains "reserve_fails (vd_append d e)"
  | d' e' where "vd_append d e = Inr (d', e')" "vd_rep d' (xs @ ys)" "vd_rep e' []"
      "same_buffer_kind d d'" "same_buffer_kind e e'"
proof -
  have nz: "\<not> is_zst d" using vd_wf_simps(2) [OF vd_repD(1) [OF rep]] .
  have len': "vd_len e = length ys" using vd_repD(2) [OF rep'] .
  from vd_reserve_cases [OF rep, of "length ys"] show thesis
  proof cases
    case 1
    then show thesis using nz len' by (intro that(1)) (simp add: vd_append_def reserve_fails_and_then)
  next
    case (2 f)
    note r = vd_repD [OF 2(2)]
    obtain left right where lr: "as_slices e = Inr (left, right)" "ys = left @ right"
      by (rule that [OF as_slices_rep [OF rep']]) simp
    have fit: "length xs + length left \<le> vd_cap f" using 2(3) lr(2) by simp
    obtain m where m: "copy_slice f (to_physical_idx f (length xs)) left = Inr (set_mem f m)"
      "vd_wf (set_mem f m)"
      "\<And>i. i < vd_cap f \<Longrightarrow> slot (set_mem f m) i = (if length xs \<le> i \<and> i < length xs + length left
        then Some (left ! (i - length xs)) else slot f i)"
      using copy_slice_slots [OF r(1) fit] by blast
    let ?g = "set_mem f m" and ?k = "length xs + length left"
    have fit': "?k + length right \<le> vd_cap ?g" using 2(3) lr(2) by simp
    obtain m' where m': "copy_slice ?g (to_physical_idx ?g ?k) right = Inr (set_mem ?g m')"
      "vd_wf (set_mem ?g m')"
      "\<And>i. i < vd_cap ?g \<Longrightarrow> slot (set_mem ?g m') i = (if ?k \<le> i \<and> i < ?k + length right
        then Some (right ! (i - ?k)) else slot ?g i)"
      using copy_slice_slots [OF m(2) fit'] by blast
    let ?d' = "(set_mem ?g m')\<lparr>vd_len := length xs + length ys\<rparr>" and ?e' = "e\<lparr>vd_len := 0, vd_head := 0\<rparr>"
    have "vd_append d e = Inr (?d', ?e')"
      using nz len' 2(1) lr(1) r(2) m(1) m'(1) by (simp add: vd_append_def)
    moreover have "vd_rep ?d' (xs @ ys)"
    proof (rule vd_repI)
      show "vd_wf ?d'" using m'(2) 2(3) by (intro vd_wf_len) simp_all
      show "slot ?d' i = Some ((xs @ ys) ! i)" if "i < length (xs @ ys)" for i
        using m'(3) [of i] m(3) [of i] r(4) [of i] that 2(3) lr(2) by (auto simp: nth_append)
    qed simp
    moreover have "vd_rep ?e' []" using vd_repD(1) [OF rep'] by (intro vd_repI) (auto simp: vd_wf_def)
    ultimately show thesis using 2(4) by (intro that(2) [of ?d' ?e']) simp_all
  qed
qed

lemma fresh_rep:
  assumes inv: "rv_inv v" "0 < lay_size (rv_elem v)" and le: "length xs \<le> rv_cap v"
    and mem: "m = map Some xs @ drop (length xs) (rv_mem v)"
  shows "vd_rep (set_mem \<lparr>vd_head = 0, vd_len = n, vd_buf = v\<rparr> m\<lparr>vd_len := length xs\<rparr>) xs"
proof -
  have len: "length (rv_mem v) = rv_cap v" using inv by (simp add: rv_inv_def)
  show ?thesis
    using inv le len
    by (intro vd_repI) (auto simp: vd_wf_def set_mem_def rv_inv_def slot_def mem ring_add_def nth_append)
qed

lemma split_off_cases:
  fixes d :: "'a vec_deque"
  assumes rep: "vd_rep d xs" and at: "at \<le> length xs"
  obtains "reserve_fails (split_off d at)"
  | d' e where "split_off d at = Inr (d', e)" "vd_rep d' (take at xs)" "vd_rep e (drop at xs)"
      "same_buffer_kind d d'" "rv_elem (vd_buf e) = rv_elem (vd_buf d)"
proof -
  note r = vd_repD [OF rep]
  let ?n = "length xs - at"
  have el: "layout_wf (rv_elem (vd_buf d))" "lay_align (rv_elem (vd_buf d)) dvd lay_size (rv_elem (vd_buf d))"
    "lay_size (rv_elem (vd_buf d)) > 0" using r(1) by (simp_all add: vd_wf_def rv_inv_def)
  have ens: "at \<le> vd_len d" "vd_len d - at = ?n" using at r(2) by simp_all
  let ?run = "rv_with_capacity_in ?n (rv_alloc (vd_buf d)) (rv_elem (vd_buf d)) :: 'a raw_vec res"
  consider "reserve_fails ?run"
    | v where "?run = Inr v" "rv_inv v" "?n \<le> rv_cap v" "rv_elem v = rv_elem (vd_buf d)"
    using rv_with_capacity_cases [OF el] by blast
  then show thesis
  proof cases
    case 1
    then show thesis using ens
      by (intro that(1)) (simp add: split_off_def vd_with_capacity_in_def reserve_fails_and_then Let_def)
  next
    case (2 v)
    let ?v = "\<lparr>vd_head = 0, vd_len = 0, vd_buf = v\<rparr>"
    let ?m = "map Some (drop at xs) @ drop ?n (rv_mem v)"
    have len: "length (rv_mem v) = rv_cap v" "?n \<le> length (rv_mem v)"
      using 2 by (simp_all add: rv_inv_def)
    obtain front rear where fr: "as_slices d = Inr (front, rear)" "xs = front @ rear"
      by (rule that [OF as_slices_rep [OF rep]]) simp
    have "split_off d at = Inr (d\<lparr>vd_len := at\<rparr>, set_mem ?v ?m\<lparr>vd_len := length (drop at xs)\<rparr>)"
    proof (cases "at < length front")
      case True
      then obtain a where a: "length front = at + a" using less_imp_le le_Suc_ex by blast
      then have e: "drop at xs = drop at front @ rear" "?n = a + length rear"
        using fr(2) by simp_all
      have le: "a \<le> rv_cap v" "a + length rear \<le> rv_cap v" using len e(2) by simp_all
      show ?thesis
        using ens 2(1) fr(1) True a le len(1) unfolding e
        by (simp add: split_off_def vd_with_capacity_in_def Let_def ptr_copy_from_def min_absorb2 add.commute)
    next
      case False
      then have "drop at xs = drop (at - length front) rear"
        "?n = length rear - (at - length front)" using fr(2) by simp_all
      then show ?thesis
        using ens 2(1) fr(1) False len
        by (simp add: split_off_def vd_with_capacity_in_def Let_def ptr_copy_from_def)
    qed
    moreover have "vd_rep (set_mem ?v ?m\<lparr>vd_len := length (drop at xs)\<rparr>) (drop at xs)"
      using 2(2-4) el(3) len by (intro fresh_rep) simp_all
    moreover have "vd_rep (d\<lparr>vd_len := at\<rparr>) (take at xs)" using drop_back_rep [OF rep at] .
    ultimately show thesis using 2(4)
      by (intro that(2) [of "d\<lparr>vd_len := at\<rparr>" "set_mem ?v ?m\<lparr>vd_len := length (drop at xs)\<rparr>"]) simp_all
  qed
qed

section \<open>Retaining\<close>

text \<open>What \<open>retain_mut\<close> promises: the elements the closure accepts stay, in order and with the
  values the closure left in them; the others are dropped.\<close>

definition kept :: "('a \<Rightarrow> bool \<times> 'a) \<Rightarrow> 'a list \<Rightarrow> 'a list" where
  "kept f xs = map (snd \<circ> f) (filter (fst \<circ> f) xs)"

definition rejected :: "('a \<Rightarrow> bool \<times> 'a) \<Rightarrow> 'a list \<Rightarrow> 'a list" where
  "rejected f xs = map (snd \<circ> f) (filter (\<lambda>x. \<not> fst (f x)) xs)"

lemma kept_rejected: "mset (map (snd \<circ> f) xs) = mset (kept f xs) + mset (rejected f xs)"
  by (induction xs) (auto simp: kept_def rejected_def)

definition retain_inv :: "('a \<Rightarrow> bool \<times> 'a) \<Rightarrow> 'a list \<Rightarrow> 'a vec_deque \<Rightarrow> nat \<Rightarrow> nat \<Rightarrow> bool" where
  "retain_inv f xs d idx cur \<longleftrightarrow> (\<exists>ys. vd_rep d ys \<and> length ys = length xs \<and> idx \<le> cur \<and>
     cur \<le> length xs \<and> take idx ys = kept f (take cur xs) \<and> drop cur ys = drop cur xs \<and>
     mset ys = mset (map (snd \<circ> f) (take cur xs)) + mset (drop cur xs))"

lemma retain_call_rep:
  assumes rep: "vd_rep d ys" and cur: "cur < length ys"
  obtains d' where "retain_call f d cur = Inr (fst (f (ys ! cur)), d')"
    "vd_rep d' (ys[cur := snd (f (ys ! cur))])"
proof -
  note r = vd_repD [OF rep]
  have c: "cur < vd_cap d" using cur r(3) by simp
  obtain d' where d': "buffer_write d (to_physical_idx d cur) (snd (f (ys ! cur))) = Inr d'"
    "d' = set_mem d (vd_mem d')" "vd_wf d'"
    "\<And>i. i < vd_cap d \<Longrightarrow> slot d' i = (if i = cur then Some (snd (f (ys ! cur))) else slot d i)"
    using write_slot [OF r(1) c] by blast
  have "vd_len d' = length ys" by (subst d'(2)) (simp add: r(2))
  then have "vd_rep d' (ys[cur := snd (f (ys ! cur))])"
    using d'(3,4) r(3,4) by (intro vd_repI) (auto simp: nth_list_update)
  moreover have "retain_call f d cur = Inr (fst (f (ys ! cur)), d')"
    using d'(1) vd_get_rep [OF rep, of cur] cur
    by (simp add: retain_call_def vd_index_def case_prod_beta)
  ultimately show thesis using that by blast
qed

lemma retain_step:
  assumes inv: "retain_inv f xs d idx cur" and cur: "cur < length xs"
  obtains d' where "retain_call f d cur = Inr (fst (f (xs ! cur)), d')"
    "\<not> fst (f (xs ! cur)) \<Longrightarrow> retain_inv f xs d' idx (cur + 1)"
    "fst (f (xs ! cur)) \<Longrightarrow> idx = cur \<Longrightarrow> retain_inv f xs d' (idx + 1) (cur + 1)"
    "fst (f (xs ! cur)) \<Longrightarrow>
      \<exists>d''. vd_swap d' idx cur = Inr d'' \<and> retain_inv f xs d'' (idx + 1) (cur + 1)"
proof -
  obtain ys where ys: "vd_rep d ys" "length ys = length xs" "idx \<le> cur"
    "take idx ys = kept f (take cur xs)" "drop cur ys = drop cur xs"
    "mset ys = mset (map (snd \<circ> f) (take cur xs)) + mset (drop cur xs)"
    using inv unfolding retain_inv_def by blast
  let ?v = "snd (f (xs ! cur))" and ?ys = "ys[cur := snd (f (xs ! cur))]"
  have "xs ! cur = hd (drop cur xs)" "ys ! cur = hd (drop cur ys)"
    using cur ys(2) by (simp_all add: hd_drop_conv_nth)
  then have elem: "ys ! cur = xs ! cur" using ys(5) by simp
  obtain d' where d': "retain_call f d cur = Inr (fst (f (xs ! cur)), d')" "vd_rep d' ?ys"
    using retain_call_rep [OF ys(1), of cur f] cur ys(2) elem by (metis (no_types))
  have drp: "drop (cur + 1) ?ys = drop (cur + 1) xs"
    using arg_cong [OF ys(5), of "drop 1"] by simp
  have ms: "mset ?ys = mset (map (snd \<circ> f) (take (cur + 1) xs)) + mset (drop (cur + 1) xs)"
    using cur ys(2,6) elem Cons_nth_drop_Suc [OF cur, symmetric]
    by (simp add: mset_update take_Suc_conv_app_nth)
  have len: "length ?ys = length xs" using ys(2) by simp
  have take: "take idx ?ys = kept f (take cur xs)" using ys(3,4) by simp
  have kept1: "kept f (take (cur + 1) xs) = kept f (take cur xs) @ (if fst (f (xs ! cur)) then [?v] else [])"
    using cur by (simp add: kept_def take_Suc_conv_app_nth)
  show thesis
  proof (rule that [OF d'(1)])
    show "retain_inv f xs d' idx (cur + 1)" if "\<not> fst (f (xs ! cur))"
      unfolding retain_inv_def
      using that d'(2) len ys(3) cur take drp ms kept1 by (intro exI [of _ ?ys]) simp
    show "retain_inv f xs d' (idx + 1) (cur + 1)" if "fst (f (xs ! cur))" "idx = cur"
      unfolding retain_inv_def
      using that d'(2) len cur take drp ms kept1 ys(2)
      by (intro exI [of _ ?ys]) (simp add: take_Suc_conv_app_nth)
    show "\<exists>d''. vd_swap d' idx cur = Inr d'' \<and> retain_inv f xs d'' (idx + 1) (cur + 1)"
      if keep: "fst (f (xs ! cur))"
    proof -
      let ?zs = "?ys[idx := ?ys ! cur, cur := ?ys ! idx]"
      have lt: "idx < length ?ys" "cur < length ?ys" using cur ys(2,3) by simp_all
      obtain m where m: "vd_swap d' idx cur = Inr (set_mem d' m)" "vd_rep (set_mem d' m) ?zs"
        using swap_rep [OF d'(2) lt] .
      have "take (idx + 1) ?zs = take idx ?ys @ [?v]"
        using lt ys(3) by (auto simp: take_Suc_conv_app_nth nth_list_update)
      moreover have "drop (cur + 1) ?zs = drop (cur + 1) xs" using drp ys(3) by simp
      moreover have "mset ?zs = mset ?ys" using mset_swap [OF lt(2,1)] .
      ultimately have "retain_inv f xs (set_mem d' m) (idx + 1) (cur + 1)"
        unfolding retain_inv_def
        using m(2) len ys(3) cur take ms kept1 keep by (intro exI [of _ ?zs]) simp
      with m(1) show ?thesis by blast
    qed
  qed
qed

lemma retain_keep_inv:
  assumes "retain_inv f xs d idx cur" "idx = cur"
  shows "\<exists>idx' cur' d'. retain_keep f d (length xs) idx cur = Inr (idx', cur', d') \<and>
    retain_inv f xs d' idx' cur'"
  using assms
proof (induction "length xs - cur" arbitrary: d idx cur)
  case 0
  then have "\<not> cur < length xs" by simp
  with 0 show ?case by (simp add: retain_keep.simps)
next
  case (Suc n)
  then have cur: "cur < length xs" by simp
  obtain d' where d': "retain_call f d cur = Inr (fst (f (xs ! cur)), d')"
    "\<not> fst (f (xs ! cur)) \<Longrightarrow> retain_inv f xs d' idx (cur + 1)"
    "fst (f (xs ! cur)) \<Longrightarrow> idx = cur \<Longrightarrow> retain_inv f xs d' (idx + 1) (cur + 1)"
    using retain_step [OF Suc.prems(1) cur] by blast
  show ?case
  proof (cases "fst (f (xs ! cur))")
    case True
    with Suc.hyps(1) [of "cur + 1" d' "idx + 1"] Suc.hyps(2) Suc.prems(2) d' cur show ?thesis
      by (subst retain_keep.simps) simp
  next
    case False
    with d' cur show ?thesis by (subst retain_keep.simps) simp
  qed
qed

lemma retain_swap_inv:
  assumes "retain_inv f xs d idx cur"
  shows "\<exists>idx' d'. retain_swap f d (length xs) idx cur = Inr (idx', length xs, d') \<and>
    retain_inv f xs d' idx' (length xs)"
  using assms
proof (induction "length xs - cur" arbitrary: d idx cur)
  case 0
  moreover have "cur \<le> length xs" using 0(2) by (auto simp: retain_inv_def)
  ultimately show ?case by (simp add: retain_swap.simps)
next
  case (Suc n)
  then have cur: "cur < length xs" by simp
  obtain d' where d': "retain_call f d cur = Inr (fst (f (xs ! cur)), d')"
    "\<not> fst (f (xs ! cur)) \<Longrightarrow> retain_inv f xs d' idx (cur + 1)"
    "fst (f (xs ! cur)) \<Longrightarrow>
      \<exists>d''. vd_swap d' idx cur = Inr d'' \<and> retain_inv f xs d'' (idx + 1) (cur + 1)"
    using retain_step [OF Suc.prems(1) cur] by blast
  show ?case
  proof (cases "fst (f (xs ! cur))")
    case True
    then obtain d'' where "vd_swap d' idx cur = Inr d''" "retain_inv f xs d'' (idx + 1) (cur + 1)"
      using d'(3) by blast
    with Suc.hyps(1) [of "cur + 1" d'' "idx + 1"] Suc.hyps(2) d'(1) cur True show ?thesis
      by (subst retain_swap.simps) simp
  next
    case False
    with Suc.hyps(1) [of "cur + 1" d' idx] Suc.hyps(2) d' cur show ?thesis
      by (subst retain_swap.simps) simp
  qed
qed

lemma retain_mut_rep:
  assumes rep: "vd_rep d xs"
  obtains d' dropped where "retain_mut d f = Inr (dropped, d')" "vd_rep d' (kept f xs)"
    "mset dropped = mset (rejected f xs)"
proof -
  have len: "vd_len d = length xs" using vd_repD(2) [OF rep] .
  have "retain_inv f xs d 0 0" using rep by (auto simp: retain_inv_def kept_def)
  from retain_keep_inv [OF this refl] obtain idx cur e where
    e: "retain_keep f d (length xs) 0 0 = Inr (idx, cur, e)" "retain_inv f xs e idx cur" by blast
  from retain_swap_inv [OF e(2)] obtain idx' e' where
    e': "retain_swap f e (length xs) idx cur = Inr (idx', length xs, e')"
      "retain_inv f xs e' idx' (length xs)" by blast
  from e'(2) obtain ys where ys: "vd_rep e' ys" "length ys = length xs" "idx' \<le> length xs"
    "take idx' ys = kept f xs" "mset ys = mset (map (snd \<circ> f) xs)"
    by (auto simp: retain_inv_def)
  have "mset (take idx' ys) + mset (drop idx' ys) = mset (kept f xs) + mset (rejected f xs)"
    using ys(5) kept_rejected [of f xs] by (simp flip: mset_append)
  then have dropped: "mset (drop idx' ys) = mset (rejected f xs)" using ys(4) by simp
  show thesis
  proof (cases "length xs \<noteq> idx'")
    case True
    then show thesis
      using that [of "drop idx' ys" "e'\<lparr>vd_len := idx'\<rparr>"] ys truncate_rep [OF ys(1), of idx']
        drop_back_rep [OF ys(1), of idx'] dropped e(1) e'(1) len
      by (simp add: retain_mut_def)
  next
    case False
    then show thesis
      using that [of "[]" e'] ys dropped e(1) e'(1) len by (simp add: retain_mut_def)
  qed
qed

lemma retain_rep:
  assumes rep: "vd_rep d xs"
  obtains d' dropped where "retain d f = Inr (dropped, d')" "vd_rep d' (filter f xs)"
    "mset dropped = mset (filter (\<lambda>x. \<not> f x) xs)"
proof -
  have "kept (\<lambda>x. (f x, x)) xs = filter f xs" "rejected (\<lambda>x. (f x, x)) xs = filter (\<lambda>x. \<not> f x) xs"
    by (simp_all add: kept_def rejected_def comp_def)
  with retain_mut_rep [OF rep, of "\<lambda>x. (f x, x)"] that show thesis
    by (auto simp: retain_def)
qed

section \<open>Rotation\<close>

lemma wrap_copy_same: "n \<le> vd_capacity d \<Longrightarrow> wrap_copy d p p n = Inr d"
  by (simp add: wrap_copy_def abs_diff_def)

lemma set_head_same [simp]: "d\<lparr>vd_head := vd_head d\<rparr> = d"
  by simp

lemma phys_0: "vd_wf d \<Longrightarrow> to_physical_idx d 0 = vd_head d"
  by (auto simp: physical_slot ring_add_def vd_wf_def)

lemma rotate_left_inner_rep:
  assumes rep: "vd_rep d xs" and mid: "mid * 2 \<le> length xs"
  obtains d' where "rotate_left_inner d mid = Inr d'" "vd_rep d' (rotate mid xs)" "same_buffer_kind d d'"
proof (cases "mid = 0")
  case True
  then show thesis
    using that [of d] rep vd_repD(2) [OF rep]
    by (simp add: rotate_left_inner_def wrap_copy_0 phys_0 [OF vd_repD(1) [OF rep]])
next
  case False
  note r = vd_repD [OF rep]
  let ?c = "vd_cap d" and ?h = "vd_head d" and ?n = "length xs"
  have c: "0 < ?c" "mid < ?c" "mid + mid \<le> ?n" "mid < ?n" using False mid r(3) by auto
  have h: "?h < ?c" using vd_wf_head [OF r(1) c(1)] .
  have phys: "to_physical_idx d ?n = ring_add ?c ?h ?n" using r(3) by (simp add: physical_slot [OF r(1)])
  obtain m where m: "wrap_copy d ?h (to_physical_idx d ?n) mid = Inr (set_mem d m)"
    "vd_wf (set_mem d m)"
    "\<And>i. i < ?c \<Longrightarrow> slot (set_mem d m) i =
      (if ring_sub ?c i ?n < mid \<and> ?n < ?c then slot d (ring_sub ?c i ?n) else slot d i)"
  proof (cases "?n = ?c")
    case True
    with phys have "to_physical_idx d ?n = ?h" by (simp add: ring_add_def)
    then show thesis
      using that [of "vd_mem d"] True c r(1) by (simp add: wrap_copy_same vd_wf_simps(1) slot_def)
  next
    case False
    then have b: "0 < ?c" "?n < ?c" "min (abs_diff 0 ?n) (?c - abs_diff 0 ?n) + mid \<le> ?c"
      using r(3) c by (auto simp: abs_diff_def)
    obtain m where m: "wrap_copy d (ring_add ?c ?h 0) (ring_add ?c ?h ?n) mid = Inr (set_mem d m)"
      "vd_wf (set_mem d m)"
      "\<And>i. i < ?c \<Longrightarrow> slot (set_mem d m) i =
        (if ring_sub ?c i ?n < mid then slot d (ring_add ?c 0 (ring_sub ?c i ?n)) else slot d i)"
      using wrap_copy_slots [OF r(1) b] by blast
    have z: "ring_add ?c ?h 0 = ?h" "i < ?c \<Longrightarrow> ring_add ?c 0 (ring_sub ?c i ?n) = ring_sub ?c i ?n" for i
      using h b(2) ring_sub_less [of i ?c ?n] by (simp_all add: ring_add_def)
    show thesis
      using that [of m] m b(2) z by (simp add: phys)
  qed
  let ?e = "set_mem d m"
  let ?d' = "?e\<lparr>vd_head := to_physical_idx ?e mid\<rparr>"
  have phys': "to_physical_idx ?e mid = ring_add ?c ?h mid"
    using c(2) by (simp add: physical_slot [OF m(2)])
  have "slot ?d' i = Some (rotate mid xs ! i)" if i: "i < ?n" for i
  proof -
    have ic: "i < ?c" using i r(3) by simp
    have "slot ?d' i = slot ?e (ring_add ?c mid i)"
      using slot_head_shift [OF m(2), of mid i] c(2) ic by (simp add: phys')
    also have "\<dots> = Some (xs ! (if mid + i < ?n then mid + i else mid + i - ?n))"
    proof (cases "mid + i < ?n")
      case True
      then have "ring_add ?c mid i = mid + i" "\<not> ring_sub ?c (mid + i) ?n < mid"
        using r(3) by (auto simp: ring_defs)
      with m(3) [of "mid + i"] True r(3,4) show ?thesis by auto
    next
      case False
      then obtain t where t: "mid + i = ?n + t" "t < mid" using i le_Suc_ex
        by (metis add.commute add_less_cancel_left not_less)
      have q: "ring_add ?c mid i < ?c" using ring_add_less [OF c(2) ic] .
      show ?thesis
      proof (cases "?n < ?c")
        case True
        then have "ring_sub ?c (ring_add ?c mid i) ?n = t"
          using t q c i by (auto simp: ring_defs)
        with m(3) [OF q] True t r(4) [of t] c False show ?thesis by simp
      next
        case full: False
        then have "ring_add ?c mid i = t" using t r(3) by (simp add: ring_add_def)
        with m(3) [OF q] full t r(4) [of t] c False show ?thesis by simp
      qed
    qed
    also have "(if mid + i < ?n then mid + i else mid + i - ?n) = (mid + i) mod ?n"
      using i c by (auto simp: mod_if)
    finally show ?thesis using i by (simp add: nth_rotate)
  qed
  moreover have "vd_wf ?d'" using m(2) ring_add_less [OF h c(2)] by (simp add: phys')
  ultimately have "vd_rep ?d' (rotate mid xs)" using r(2) by (intro vd_repI) simp_all
  moreover have "rotate_left_inner d mid = Inr ?d'"
    using mid m(1) r(2) by (simp add: rotate_left_inner_def)
  ultimately show thesis using that [of ?d'] by simp
qed

lemma rotate_right_inner_rep:
  assumes rep: "vd_rep d xs" and k2: "k * 2 \<le> length xs"
  obtains d' where "rotate_right_inner d k = Inr d'" "vd_rep d' (rotate (length xs - k) xs)"
    "same_buffer_kind d d'"
proof (cases "k = 0")
  case True
  have "wrap_sub d (vd_head d) 0 = vd_head d"
    using vd_repD(1) [OF rep] wrap_sub_ring [of d "vd_head d" 0] by (auto simp: vd_wf_def)
  then show thesis
    using that [of d] rep vd_repD(2) [OF rep] True by (simp add: rotate_right_inner_def wrap_copy_0)
next
  case False
  note r = vd_repD [OF rep]
  let ?c = "vd_cap d" and ?h = "vd_head d" and ?n = "length xs"
  have c: "0 < ?c" "k < ?c" "k + k \<le> ?n" "k < ?n" using False k2 r(3) by auto
  have h: "?h < ?c" using vd_wf_head [OF r(1) c(1)] .
  let ?h' = "wrap_sub d ?h k"
  have h': "?h' < ?c" "?h = ring_add ?c ?h' k"
    using wrap_sub_ring [OF r(1), of ?h k] h c by (auto simp: ring_add_def)
  let ?d = "d\<lparr>vd_head := ?h'\<rparr>"
  have wf: "vd_wf ?d" using r(1) h'(1) by simp
  have old: "slot d i = slot ?d (ring_add ?c k i)" if "i < ?c" for i
    using ring_add_add [OF h'(1) c(2) that] h'(2) by (simp add: slot_def)
  have phys: "to_physical_idx ?d ?n = ring_add ?c ?h' ?n" using r(3) by (simp add: physical_slot [OF wf])
  obtain m where m: "wrap_copy ?d (to_physical_idx ?d ?n) ?h' k = Inr (set_mem ?d m)"
    "vd_wf (set_mem ?d m)"
    "\<And>i. i < ?c \<Longrightarrow> slot (set_mem ?d m) i =
      (if i < k \<and> ?n < ?c then slot ?d (ring_add ?c ?n i) else slot ?d i)"
  proof (cases "?n = ?c")
    case True
    with phys have "to_physical_idx ?d ?n = ?h'" by (simp add: ring_add_def)
    then show thesis
      using that [of "vd_mem d"] True c wf r(1)
      by (simp add: wrap_copy_same vd_wf_simps(1) slot_def set_mem_def)
  next
    case False
    then have b: "?n < vd_cap ?d" "0 < vd_cap ?d"
      "min (abs_diff ?n 0) (vd_cap ?d - abs_diff ?n 0) + k \<le> vd_cap ?d"
      using r(3) c by (auto simp: abs_diff_def)
    obtain m where m: "wrap_copy ?d (ring_add (vd_cap ?d) (vd_head ?d) ?n) (ring_add (vd_cap ?d) (vd_head ?d) 0) k
        = Inr (set_mem ?d m)"
      "vd_wf (set_mem ?d m)"
      "\<And>i. i < vd_cap ?d \<Longrightarrow> slot (set_mem ?d m) i =
        (if ring_sub (vd_cap ?d) i 0 < k then slot ?d (ring_add (vd_cap ?d) ?n (ring_sub (vd_cap ?d) i 0))
         else slot ?d i)"
      using wrap_copy_slots [OF wf b] by blast
    have z: "ring_add ?c ?h' 0 = ?h'" "ring_sub ?c i 0 = i" for i
      using h'(1) by (simp_all add: ring_defs)
    show thesis
    proof (rule that)
      show "wrap_copy ?d (to_physical_idx ?d ?n) ?h' k = Inr (set_mem ?d m)"
        using m(1) z by (simp add: phys)
      fix i assume "i < ?c"
      with m(3) [of i] z b(1) show "slot (set_mem ?d m) i =
          (if i < k \<and> ?n < ?c then slot ?d (ring_add ?c ?n i) else slot ?d i)" by simp
    qed (rule m(2))
  qed
  have "slot (set_mem ?d m) i = Some (rotate (?n - k) xs ! i)" if i: "i < ?n" for i
  proof -
    have ic: "i < ?c" using i r(3) by simp
    have "slot (set_mem ?d m) i = Some (xs ! (if i < k then ?n - k + i else i - k))"
    proof (cases "i < k")
      case True
      then have j: "?n - k + i < ?n" "?n - k + i < ?c" using c r(3) by auto
      have "slot d (?n - k + i) = slot ?d (ring_add ?c k (?n - k + i))" using old [OF j(2)] .
      moreover have "ring_add ?c k (?n - k + i) = ring_add ?c ?n i"
        using c by (simp add: ring_add_def)
      moreover have "ring_add ?c ?n i = i" if "\<not> ?n < ?c"
        using that r(3) by (simp add: ring_add_def)
      ultimately show ?thesis using m(3) [OF ic] True r(4) [OF j(1)] by auto
    next
      case False
      then have "slot d (i - k) = slot ?d i"
        using old [of "i - k"] ic by (simp add: ring_add_def)
      with m(3) [OF ic] False r(4) [of "i - k"] i show ?thesis by auto
    qed
    also have "(if i < k then ?n - k + i else i - k) = (?n - k + i) mod ?n"
      using i c by (auto simp: mod_if)
    finally show ?thesis using i by (simp add: nth_rotate)
  qed
  then have "vd_rep (set_mem ?d m) (rotate (?n - k) xs)"
    using m(2) r(2) by (intro vd_repI) simp_all
  moreover have "rotate_right_inner d k = Inr (set_mem ?d m)"
    using k2 m(1) r(2) by (simp add: rotate_right_inner_def)
  ultimately show thesis using that [of "set_mem ?d m"] by simp
qed

lemma vd_rotate_left_rep:
  assumes rep: "vd_rep d xs" and n: "n \<le> length xs"
  obtains d' where "vd_rotate_left d n = Inr d'" "vd_rep d' (rotate n xs)" "same_buffer_kind d d'"
proof -
  have ens: "n \<le> vd_len d" "vd_len d - n = length xs - n" using n vd_repD(2) [OF rep] by simp_all
  show thesis
  proof (cases "n \<le> length xs - n")
    case True
    then have "n * 2 \<le> length xs" using n by linarith
    from rotate_left_inner_rep [OF rep this] obtain d' where "rotate_left_inner d n = Inr d'"
      "vd_rep d' (rotate n xs)" "same_buffer_kind d d'" .
    with that ens True show thesis by (simp add: vd_rotate_left_def Let_def)
  next
    case False
    then have "(length xs - n) * 2 \<le> length xs" by linarith
    from rotate_right_inner_rep [OF rep this] obtain d' where "rotate_right_inner d (length xs - n) = Inr d'"
      "vd_rep d' (rotate (length xs - (length xs - n)) xs)" "same_buffer_kind d d'" .
    with that ens False n show thesis by (simp add: vd_rotate_left_def Let_def)
  qed
qed

lemma vd_rotate_right_rep:
  assumes rep: "vd_rep d xs" and n: "n \<le> length xs"
  obtains d' where "vd_rotate_right d n = Inr d'" "vd_rep d' (rotate (length xs - n) xs)"
    "same_buffer_kind d d'"
proof -
  have ens: "n \<le> vd_len d" "vd_len d - n = length xs - n" using n vd_repD(2) [OF rep] by simp_all
  show thesis
  proof (cases "n \<le> length xs - n")
    case True
    then have "n * 2 \<le> length xs" using n by linarith
    from rotate_right_inner_rep [OF rep this] obtain d' where "rotate_right_inner d n = Inr d'"
      "vd_rep d' (rotate (length xs - n) xs)" "same_buffer_kind d d'" .
    with that ens True show thesis by (simp add: vd_rotate_right_def Let_def)
  next
    case False
    then have "(length xs - n) * 2 \<le> length xs" by linarith
    from rotate_left_inner_rep [OF rep this] obtain d' where "rotate_left_inner d (length xs - n) = Inr d'"
      "vd_rep d' (rotate (length xs - n) xs)" "same_buffer_kind d d'" .
    with that ens False n show thesis by (simp add: vd_rotate_right_def Let_def)
  qed
qed

section \<open>Making the deque contiguous\<close>

lemma linear_rep:
  assumes wf: "vd_wf d" and len: "length m = vd_cap d" "vd_len d = length xs"
    and fit: "h + length xs \<le> vd_cap d" "h < vd_cap d"
    and elems: "\<And>i. i < length xs \<Longrightarrow> m ! (h + i) = Some (xs ! i)"
  shows "vd_rep ((set_mem d m)\<lparr>vd_head := h\<rparr>) xs"
    and "slice_at m h (h + length xs) = Inr xs"
proof -
  show "vd_rep ((set_mem d m)\<lparr>vd_head := h\<rparr>) xs"
    using wf len fit elems by (intro vd_repI) (auto simp: slot_def ring_add_def)
  show "slice_at m h (h + length xs) = Inr xs"
    using len fit elems by (auto simp: slice_at_Inr_iff)
qed

lemma make_contiguous_rep:
  assumes rep: "vd_rep d xs"
  obtains d' where "make_contiguous d = Inr (xs, d')" "vd_rep d' xs" "is_contiguous d'"
    "same_buffer_kind d d'"
proof -
  note r = vd_repD [OF rep] and s = vd_wf_simps [OF vd_repD(1) [OF rep]]
  let ?c = "vd_cap d" and ?h = "vd_head d" and ?n = "length xs"
  let ?sz = "lay_size (rv_elem (vd_buf d))"
  have sz: "0 < ?sz" using r(1) by (simp add: vd_wf_def)
  show thesis
  proof (cases "?h \<le> ?c - ?n")
    case True
    then have fit: "?h + ?n \<le> ?c" using r(3) by linarith
    have "vd_mem d ! (?h + i) = Some (xs ! i)" if "i < ?n" for i
      using r(4) [OF that] that fit by (simp add: slot_def ring_add_def)
    then have "slice_at (vd_mem d) ?h (?h + ?n) = Inr xs"
      using fit s(3) by (simp add: slice_at_Inr_iff)
    moreover have "is_contiguous d" using True r(2) s(1) by (simp add: is_contiguous_def)
    ultimately show thesis using that [of d] rep r(2) s(2) by (simp add: make_contiguous_def)
  next
    case False
    define hl tl fr where "hl = ?c - ?h" and "tl = ?n - hl" and "fr = ?c - ?n"
    have h: "?h < ?c" using False r(1) by (auto simp: vd_wf_def)
    have e: "?h = tl + fr" "?c = tl + fr + hl" "?n = hl + tl" "0 < tl" "0 < hl"
      using False h r(3) by (auto simp: hl_def tl_def fr_def)
    have head_elem: "vd_mem d ! (tl + fr + i) = Some (xs ! i)" if "i < hl" for i
      using r(4) [of i] that e by (simp add: slot_def ring_add_def)
    have tail_elem: "vd_mem d ! i = Some (xs ! (hl + i))" if "i < tl" for i
      using r(4) [of "hl + i"] that e by (simp add: slot_def ring_add_def)
    have len: "length (vd_mem d) = tl + fr + hl" using s(3) e(2) by simp
    have nc: "\<not> is_contiguous d" using False r(2) s(1) by (simp add: is_contiguous_def)
    \<comment> \<open>each branch leaves a memory \<open>m\<close> in which the elements follow each other from \<open>p\<close> on\<close>
    have close: thesis
      if m: "length m = ?c" "p + ?n \<le> ?c" "\<And>i. i < ?n \<Longrightarrow> m ! (p + i) = Some (xs ! i)"
        and run: "make_contiguous d = and_then (Inr ((set_mem d m)\<lparr>vd_head := p\<rparr>))
          (\<lambda>d. and_then (slice_at (vd_mem d) (vd_head d) (vd_head d + vd_len d)) (\<lambda>slice. Inr (slice, d)))"
      for m p
    proof -
      have lt: "p < ?c" using m(2) e by simp
      note l = linear_rep [OF r(1) m(1) r(2) m(2) lt m(3)]
      have "is_contiguous ((set_mem d m)\<lparr>vd_head := p\<rparr>)"
        using m(2) r(2) s(1) by (simp add: is_contiguous_def)
      then show thesis
        using \<open>\<And>d'. make_contiguous d = Inr (xs, d') \<Longrightarrow> vd_rep d' xs \<Longrightarrow> is_contiguous d' \<Longrightarrow>
            same_buffer_kind d d' \<Longrightarrow> thesis\<close> [of "(set_mem d m)\<lparr>vd_head := p\<rparr>"] l r(2) run by simp
    qed
    note unf = make_contiguous_def s(2) nc e(1) s(1) e(2) r(2) e(3)
    consider (head_fits) "hl \<le> fr" | (tail_fits) "fr < hl" "tl \<le> fr"
      | (tail_short) "fr < hl" "fr < tl" "tl < hl" | (head_short) "fr < hl" "fr < tl" "hl \<le> tl" by linarith
    then show thesis
    proof cases
      case head_fits
      let ?m1 = "move_slots (vd_mem d) 0 hl tl"
      let ?m = "move_slots ?m1 (tl + fr) 0 hl"
      show thesis
      proof (rule close [of ?m 0])
        show "?m ! (0 + i) = Some (xs ! i)" if "i < ?n" for i
          using that head_fits len e(3) head_elem [of i] tail_elem [of "i - hl"]
          by (auto simp: nth_move_slots)
      qed (use head_fits len e r(1) in \<open>auto simp: unf Let_def\<close>)
    next
      case tail_fits
      let ?m1 = "move_slots (vd_mem d) (tl + fr) tl hl"
      let ?m = "move_slots ?m1 0 (tl + hl) tl"
      show thesis
      proof (rule close [of ?m tl])
        show "?m ! (tl + i) = Some (xs ! i)" if "i < ?n" for i
          using that tail_fits len e(3) head_elem [of i] tail_elem [of "i - hl"]
          by (auto simp: nth_move_slots)
      qed (use tail_fits len e r(1) in \<open>auto simp: unf Let_def\<close>)
    next
      case tail_short
      let ?m1 = "if fr \<noteq> 0 then move_slots (vd_mem d) 0 fr tl else vd_mem d"
      have m1: "length ?m1 = ?c" "\<And>i. i < tl \<Longrightarrow> ?m1 ! (fr + i) = Some (xs ! (hl + i))"
        "\<And>i. i < hl \<Longrightarrow> ?m1 ! (fr + tl + i) = Some (xs ! i)"
        using len e(2) head_elem tail_elem by (auto simp: nth_move_slots add.commute)
      have "?m1 ! (fr + i) \<noteq> None" if "i < tl + hl" for i
        using m1(2) [of i] m1(3) [of "i - tl"] that by (cases "i < tl") (auto simp: add.assoc)
      then have "init_range ?m1 fr (tl + hl)"
        using m1(1) e(2) by (simp add: init_range_def)
      note rot = rotate_left_rotated [OF sz this]
      show thesis
      proof (rule close [of "rotated ?m1 tl (fr + tl) hl" fr])
        show "rotated ?m1 tl (fr + tl) hl ! (fr + i) = Some (xs ! i)" if "i < ?n" for i
        proof (cases "i < hl")
          case True
          have "rotated ?m1 tl (fr + tl) hl ! (fr + i) = ?m1 ! (fr + tl + i)"
            using True m1(1) e by (subst nth_rotated) (auto simp: ac_simps)
          then show ?thesis using m1(3) [OF True] by simp
        next
          case False
          define t where "t = i - hl"
          have t: "i = hl + t" "t < tl" using that False e(3) by (simp_all add: t_def)
          have "rotated ?m1 tl (fr + tl) hl ! (fr + i) = ?m1 ! (fr + t)"
            using t m1(1) e by (subst nth_rotated) auto
          then show ?thesis using m1(2) [OF t(2)] t(1) by simp
        qed
      qed (use tail_short m1 e r(1) rot in \<open>auto simp: unf Let_def\<close>)
    next
      case head_short
      let ?m1 = "if fr \<noteq> 0 then move_slots (vd_mem d) (tl + fr) tl hl else vd_mem d"
      have m1: "length ?m1 = ?c" "\<And>i. i < tl \<Longrightarrow> ?m1 ! i = Some (xs ! (hl + i))"
        "\<And>i. i < hl \<Longrightarrow> ?m1 ! (tl + i) = Some (xs ! i)"
        using len e(2) head_elem tail_elem by (auto simp: nth_move_slots)
      have "?m1 ! i \<noteq> None" if "i < tl + hl" for i
        using m1(2) [of i] m1(3) [of "i - tl"] that by (cases "i < tl") auto
      then have "init_range ?m1 0 (tl + hl)" using m1(1) e(2) by (simp add: init_range_def)
      note rot = rotate_right_rotated [OF sz this, unfolded add.commute [of tl hl]]
      show thesis
      proof (rule close [of "rotated ?m1 tl tl hl" 0])
        show "rotated ?m1 tl tl hl ! (0 + i) = Some (xs ! i)" if "i < ?n" for i
          using that m1 e by (subst nth_rotated) (auto simp: add.commute [of i])
      qed (use head_short m1 e r(1) rot in \<open>auto simp: unf Let_def\<close>)
    qed
  qed
qed

end
