(* ===== verification/Simulation.thy ===== *)
theory Simulation
  imports Raw_Vec
begin

text \<open>
  The interface between a container and its clients. A container is a step function over a
  concrete state; its contract is a step function over an abstract value, and a representation
  relation the steps preserve. The locale \<open>container\<close> states the contract and lifts it to
  sequences of operations: whatever a client does, the container behaves as the abstract value
  does, except that an operation that needs memory may fail the way \<open>reserve\<close> fails.
\<close>

text \<open>\<open>refines grow R m sp\<close>: the outcome \<open>m\<close> of an operation agrees with what the
  specification \<open>sp\<close> says, a panic with the message given or an output and a new state.\<close>

definition refines ::
  "bool \<Rightarrow> ('s \<Rightarrow> 'a \<Rightarrow> bool) \<Rightarrow> ('out \<times> 's) res \<Rightarrow> string + 'out \<times> 'a \<Rightarrow> bool" where
  "refines grow R m sp \<longleftrightarrow>
     grow \<and> reserve_fails m \<or>
     (case sp of
        Inl msg \<Rightarrow> m = Inl (Panic msg)
      | Inr (out, a) \<Rightarrow> \<exists>s. m = Inr (out, s) \<and> R s a)"

lemma refines_panic [intro]: "m = Inl (Panic msg) \<Longrightarrow> refines grow R m (Inl msg)"
  by (simp add: refines_def)

lemma refines_fails [intro]: "grow \<Longrightarrow> reserve_fails m \<Longrightarrow> refines grow R m sp"
  by (simp add: refines_def)

lemma refines_ok [intro]: "m = Inr (out, s) \<Longrightarrow> R s a \<Longrightarrow> refines grow R m (Inr (out, a))"
  by (simp add: refines_def)

lemma refines_no_ub: "refines grow R m sp \<Longrightarrow> no_ub m"
  by (auto simp: refines_def reserve_fails_no_ub split: sum.splits)

text \<open>Running a sequence of operations, in the program and in the specification.\<close>

fun run_steps :: "('op \<Rightarrow> 's \<Rightarrow> 'e + 'out \<times> 's) \<Rightarrow> 'op list \<Rightarrow> 's \<Rightarrow> 'e + 'out list \<times> 's" where
  "run_steps step [] s = Inr ([], s)"
| "run_steps step (op # ops) s =
     and_then (step op s) (\<lambda>(out, s).
       and_then (run_steps step ops s) (\<lambda>(outs, s). Inr (out # outs, s)))"

lemma run_steps_append:
  "run_steps step (ops @ ops') s =
     and_then (run_steps step ops s) (\<lambda>(outs, s).
       and_then (run_steps step ops' s) (\<lambda>(outs', s). Inr (outs @ outs', s)))"
proof (induction ops arbitrary: s)
  case Nil
  show ?case by (cases "run_steps step ops' s") auto
next
  case (Cons op ops)
  show ?case
    by (cases "step op s") (auto simp: Cons.IH and_then_assoc case_prod_beta)
qed

locale container =
  fixes rep :: "'s \<Rightarrow> 'a \<Rightarrow> bool"
    and step :: "'op \<Rightarrow> 's \<Rightarrow> ('out \<times> 's) res"
    and spec :: "'op \<Rightarrow> 'a \<Rightarrow> string + 'out \<times> 'a"
    and grows :: "'op \<Rightarrow> bool"
  assumes step_refines: "rep s a \<Longrightarrow> refines (grows op) rep (step op s) (spec op a)"
begin

lemma step_no_ub: "rep s a \<Longrightarrow> no_ub (step op s)"
  using step_refines refines_no_ub by blast

lemma run_refines:
  assumes "rep s a"
  shows "refines (\<exists>op \<in> set ops. grows op) rep (run_steps step ops s) (run_steps spec ops a)"
  using assms
proof (induction ops arbitrary: s a)
  case Nil
  then show ?case by auto
next
  case (Cons op ops)
  have "refines (grows op) rep (step op s) (spec op a)" using step_refines [OF Cons.prems] .
  then consider "grows op" "reserve_fails (step op s)"
    | msg where "spec op a = Inl msg" "step op s = Inl (Panic msg)"
    | out a' s' where "spec op a = Inr (out, a')" "step op s = Inr (out, s')" "rep s' a'"
    by (auto simp: refines_def split: sum.splits)
  then show ?case
  proof cases
    case 1
    then have "reserve_fails (run_steps step (op # ops) s)" by (auto simp: reserve_fails_def)
    with 1 show ?thesis by auto
  next
    case 2
    then show ?thesis by (intro refines_def [THEN iffD2]) simp
  next
    case 3
    from Cons.IH [OF 3(3)] show ?thesis
      by (auto simp: refines_def 3 reserve_fails_def split: sum.splits)
  qed
qed

lemma run_no_ub: "rep s a \<Longrightarrow> no_ub (run_steps step ops s)"
  using run_refines refines_no_ub by blast

lemma run_without_growth:
  assumes "rep s a" "\<forall>op \<in> set ops. \<not> grows op" "run_steps spec ops a = Inr (outs, a')"
  shows "\<exists>s'. run_steps step ops s = Inr (outs, s') \<and> rep s' a'"
  using run_refines [OF assms(1), of ops] assms(2,3) by (auto simp: refines_def)

end

end
