(* ===== verification/Vec_Deque_Spec.thy ===== *)
theory Vec_Deque_Spec
  imports Vec_Deque_Correct Simulation
begin

text \<open>
  \<open>VecDeque\<close>, part four: the contract. The public operations as one datatype, their meaning on
  lists (\<open>deque_spec\<close>), the interpretation of the locale \<open>container\<close> on the model, and the
  properties of the component.
\<close>

section \<open>Operations and their meaning on lists\<close>

datatype 'a deque_op =
  PushBack 'a | PushFront 'a | PopBack | PopFront | PopBackIf "'a \<Rightarrow> bool"
| PopFrontIf "'a \<Rightarrow> bool" | Get usize | Front | Back | Contains 'a
| Swap usize usize | SwapRemoveFront usize | SwapRemoveBack usize
| Insert usize 'a | Remove usize
| Truncate usize | TruncateFront usize | Clear | Reserve usize
| Retain "'a \<Rightarrow> bool" | MakeContiguous | RotateLeft usize | RotateRight usize

datatype 'a deque_out = Done | Elem "'a option" | Found bool | Elems "'a list"

definition ok_unit :: "'b res \<Rightarrow> ('a deque_out \<times> 'b) res" where
  "ok_unit m = and_then m (\<lambda>d. Inr (Done, d))"

definition ok_elem :: "('a option \<times> 'b) res \<Rightarrow> ('a deque_out \<times> 'b) res" where
  "ok_elem m = and_then m (\<lambda>(x, d). Inr (Elem x, d))"

fun deque_step :: "'a deque_op \<Rightarrow> 'a vec_deque \<Rightarrow> ('a deque_out \<times> 'a vec_deque) res" where
  "deque_step (PushBack v) d = ok_unit (push_back d v)"
| "deque_step (PushFront v) d = ok_unit (push_front d v)"
| "deque_step PopBack d = ok_elem (pop_back d)"
| "deque_step PopFront d = ok_elem (pop_front d)"
| "deque_step (PopBackIf p) d = ok_elem (pop_back_if d p)"
| "deque_step (PopFrontIf p) d = ok_elem (pop_front_if d p)"
| "deque_step (Get i) d = ok_elem (and_then (vd_get d i) (\<lambda>x. Inr (x, d)))"
| "deque_step Front d = ok_elem (and_then (vd_front d) (\<lambda>x. Inr (x, d)))"
| "deque_step Back d = ok_elem (and_then (vd_back d) (\<lambda>x. Inr (x, d)))"
| "deque_step (Contains x) d = and_then (vd_contains d x) (\<lambda>b. Inr (Found b, d))"
| "deque_step (Swap i j) d = ok_unit (vd_swap d i j)"
| "deque_step (SwapRemoveFront i) d = ok_elem (swap_remove_front d i)"
| "deque_step (SwapRemoveBack i) d = ok_elem (swap_remove_back d i)"
| "deque_step (Insert i v) d = ok_unit (vd_insert d i v)"
| "deque_step (Remove i) d = ok_elem (vd_remove d i)"
| "deque_step (Truncate n) d = ok_unit (and_then (truncate d n) (\<lambda>(_, d). Inr d))"
| "deque_step (TruncateFront n) d = ok_unit (and_then (truncate_front d n) (\<lambda>(_, d). Inr d))"
| "deque_step Clear d = ok_unit (and_then (vd_clear d) (\<lambda>(_, d). Inr d))"
| "deque_step (Reserve n) d = ok_unit (vd_reserve d n)"
| "deque_step (Retain p) d = ok_unit (and_then (retain d p) (\<lambda>(_, d). Inr d))"
| "deque_step MakeContiguous d = and_then (make_contiguous d) (\<lambda>(xs, d). Inr (Elems xs, d))"
| "deque_step (RotateLeft n) d = ok_unit (vd_rotate_left d n)"
| "deque_step (RotateRight n) d = ok_unit (vd_rotate_right d n)"

fun deque_spec :: "'a deque_op \<Rightarrow> 'a list \<Rightarrow> string + 'a deque_out \<times> 'a list" where
  "deque_spec (PushBack v) xs = Inr (Done, xs @ [v])"
| "deque_spec (PushFront v) xs = Inr (Done, v # xs)"
| "deque_spec PopBack xs = Inr (if xs = [] then (Elem None, []) else (Elem (Some (List.last xs)), butlast xs))"
| "deque_spec PopFront xs = Inr (if xs = [] then (Elem None, []) else (Elem (Some (hd xs)), tl xs))"
| "deque_spec (PopBackIf p) xs =
     Inr (if xs \<noteq> [] \<and> p (List.last xs) then (Elem (Some (List.last xs)), butlast xs) else (Elem None, xs))"
| "deque_spec (PopFrontIf p) xs =
     Inr (if xs \<noteq> [] \<and> p (hd xs) then (Elem (Some (hd xs)), tl xs) else (Elem None, xs))"
| "deque_spec (Get i) xs = Inr (Elem (if i < length xs then Some (xs ! i) else None), xs)"
| "deque_spec Front xs = Inr (Elem (if xs = [] then None else Some (hd xs)), xs)"
| "deque_spec Back xs = Inr (Elem (if xs = [] then None else Some (List.last xs)), xs)"
| "deque_spec (Contains x) xs = Inr (Found (x \<in> set xs), xs)"
| "deque_spec (Swap i j) xs =
     (if \<not> i < length xs then Inl ''assertion failed: i < self.len()''
      else if \<not> j < length xs then Inl ''assertion failed: j < self.len()''
      else Inr (Done, xs[i := xs ! j, j := xs ! i]))"
| "deque_spec (SwapRemoveFront i) xs =
     Inr (if i < length xs then (Elem (Some (xs ! i)), tl (xs[i := hd xs])) else (Elem None, xs))"
| "deque_spec (SwapRemoveBack i) xs =
     Inr (if i < length xs then (Elem (Some (xs ! i)), butlast (xs[i := List.last xs]))
          else (Elem None, xs))"
| "deque_spec (Insert i v) xs =
     (if i \<le> length xs then Inr (Done, take i xs @ v # drop i xs) else Inl ''index out of bounds'')"
| "deque_spec (Remove i) xs =
     Inr (if i < length xs then (Elem (Some (xs ! i)), take i xs @ drop (Suc i) xs) else (Elem None, xs))"
| "deque_spec (Truncate n) xs = Inr (Done, take n xs)"
| "deque_spec (TruncateFront n) xs = Inr (Done, drop (length xs - n) xs)"
| "deque_spec Clear xs = Inr (Done, [])"
| "deque_spec (Reserve n) xs = Inr (Done, xs)"
| "deque_spec (Retain p) xs = Inr (Done, filter p xs)"
| "deque_spec MakeContiguous xs = Inr (Elems xs, xs)"
| "deque_spec (RotateLeft n) xs =
     (if n \<le> length xs then Inr (Done, rotate n xs) else Inl ''assertion failed: n <= self.len()'')"
| "deque_spec (RotateRight n) xs =
     (if n \<le> length xs then Inr (Done, rotate (length xs - n) xs)
      else Inl ''assertion failed: n <= self.len()'')"

text \<open>The operations that may allocate.\<close>

fun deque_grows :: "'a deque_op \<Rightarrow> bool" where
  "deque_grows (PushBack v) = True"
| "deque_grows (PushFront v) = True"
| "deque_grows (Insert i v) = True"
| "deque_grows (Reserve n) = True"
| "deque_grows _ = False"

section \<open>The contract holds\<close>

lemma reserve_fails_ok_unit: "reserve_fails m \<Longrightarrow> reserve_fails (ok_unit m)"
  by (simp add: ok_unit_def reserve_fails_and_then)

lemma refines_unit:
  "m = Inr d' \<Longrightarrow> R d' a \<Longrightarrow> refines g R (ok_unit m) (Inr (Done, a))"
  by (auto simp: ok_unit_def)

lemma refines_elem:
  "m = Inr (x, d') \<Longrightarrow> R d' a \<Longrightarrow> refines g R (ok_elem m) (Inr (Elem x, a))"
  by (auto simp: ok_elem_def)

lemma refines_grow:
  "reserve_fails m \<Longrightarrow> refines True R (ok_unit m) sp"
  by (auto intro: reserve_fails_ok_unit)

lemma vd_front_rep: "vd_rep d xs \<Longrightarrow> vd_front d = Inr (if xs = [] then None else Some (hd xs))"
  by (simp add: vd_front_def vd_get_rep hd_conv_nth)

lemma vd_back_rep:
  assumes rep: "vd_rep d xs"
  shows "vd_back d = Inr (if xs = [] then None else Some (List.last xs))"
proof (cases "xs = []")
  case True
  then show ?thesis
    using vd_repD(2) [OF rep] by (simp add: vd_back_def vd_get_rep [OF rep])
next
  case False
  then have "1 \<le> length xs" by (cases xs) auto
  moreover have "length xs \<le> usize_max"
    using vd_repD(3) [OF rep] vd_wf_simps(5) [OF vd_repD(1) [OF rep]]
    by (simp add: isize_max_num usize_max_num)
  ultimately show ?thesis
    using False vd_repD(2) [OF rep]
    by (simp add: vd_back_def vd_get_rep [OF rep] wrapping_sub_ge last_conv_nth)
qed

lemma deque_step_refines:
  assumes rep: "vd_rep d xs"
  shows "refines (deque_grows op) vd_rep (deque_step op d) (deque_spec op xs)"
proof (cases op)
  case (PushBack v)
  from push_back_cases [OF rep, of v] show ?thesis
    by cases (auto simp: PushBack intro: refines_grow refines_unit)
next
  case (PushFront v)
  from push_front_cases [OF rep, of v] show ?thesis
    by cases (auto simp: PushFront intro: refines_grow refines_unit)
next
  case PopBack
  show ?thesis
  proof (cases "xs = []")
    case True
    then show ?thesis using pop_back_rep(1) [OF rep] rep by (simp add: PopBack refines_elem)
  next
    case False
    then show ?thesis using pop_back_rep [OF rep] by (simp add: PopBack refines_elem)
  qed
next
  case PopFront
  show ?thesis
  proof (cases "xs = []")
    case True
    then show ?thesis using pop_front_rep(1) [OF rep] rep by (simp add: PopFront refines_elem)
  next
    case False
    then show ?thesis using pop_front_rep [OF rep] by (simp add: PopFront refines_elem)
  qed
next
  case (PopBackIf p)
  show ?thesis
  proof (cases "xs \<noteq> [] \<and> p (List.last xs)")
    case True
    then show ?thesis
      using pop_back_rep [OF rep] vd_back_rep [OF rep]
      by (simp add: PopBackIf refines_elem pop_back_if_def)
  next
    case False
    then have "pop_back_if d p = Inr (None, d)"
      using vd_back_rep [OF rep] by (auto simp: pop_back_if_def)
    with False rep show ?thesis by (auto simp: PopBackIf refines_elem)
  qed
next
  case (PopFrontIf p)
  show ?thesis
  proof (cases "xs \<noteq> [] \<and> p (hd xs)")
    case True
    then show ?thesis
      using pop_front_rep [OF rep] vd_front_rep [OF rep]
      by (simp add: PopFrontIf refines_elem pop_front_if_def)
  next
    case False
    then have "pop_front_if d p = Inr (None, d)"
      using vd_front_rep [OF rep] by (auto simp: pop_front_if_def)
    with False rep show ?thesis by (auto simp: PopFrontIf refines_elem)
  qed
next
  case (Get i)
  then show ?thesis using vd_get_rep [OF rep] rep by (auto intro!: refines_elem)
next
  case Front
  then show ?thesis using vd_front_rep [OF rep] rep by (auto intro!: refines_elem)
next
  case Back
  then show ?thesis using vd_back_rep [OF rep] rep by (auto intro!: refines_elem)
next
  case (Contains x)
  then show ?thesis using contains_rep [OF rep, of x] rep by (auto intro!: refines_ok)
next
  case (Swap i j)
  show ?thesis
  proof (cases "i < length xs \<and> j < length xs")
    case True
    then obtain m where "vd_swap d i j = Inr (set_mem d m)"
      "vd_rep (set_mem d m) (xs[i := xs ! j, j := xs ! i])" using swap_rep [OF rep] by blast
    with True show ?thesis by (simp add: Swap refines_unit)
  next
    case False
    then show ?thesis
      using vd_repD(2) [OF rep] by (auto simp: Swap vd_swap_def ensure_def ok_unit_def)
  qed
next
  case (SwapRemoveFront i)
  show ?thesis
  proof (cases "i < length xs")
    case True
    show ?thesis
      by (rule swap_remove_front_rep [OF rep True]) (use True in \<open>simp add: SwapRemoveFront refines_elem\<close>)
  next
    case False
    then show ?thesis using rep vd_repD(2) [OF rep]
      by (simp add: SwapRemoveFront swap_remove_front_def refines_elem)
  qed
next
  case (SwapRemoveBack i)
  show ?thesis
  proof (cases "i < length xs")
    case True
    show ?thesis
      by (rule swap_remove_back_rep [OF rep True]) (use True in \<open>simp add: SwapRemoveBack refines_elem\<close>)
  next
    case False
    then have "\<not> i < length xs - 1" by linarith
    with False show ?thesis using rep vd_repD(2) [OF rep]
      by (auto simp: SwapRemoveBack swap_remove_back_def refines_elem)
  qed
next
  case (Insert i v)
  show ?thesis
  proof (cases "i \<le> length xs")
    case True
    from insert_cases [OF rep True, of v] show ?thesis
      by cases (use True in \<open>auto simp: Insert intro: refines_grow refines_unit\<close>)
  next
    case False
    then show ?thesis using vd_repD(2) [OF rep]
      by (auto simp: Insert vd_insert_def ensure_def ok_unit_def)
  qed
next
  case (Remove i)
  show ?thesis
  proof (cases "i < length xs")
    case True
    show ?thesis
      by (rule remove_rep [OF rep True]) (use True in \<open>simp add: Remove refines_elem\<close>)
  next
    case False
    then show ?thesis using rep vd_repD(2) [OF rep]
      by (simp add: Remove vd_remove_def refines_elem)
  qed
next
  case (Truncate n)
  then show ?thesis
    using truncate_rep [OF rep, of n] drop_back_rep [OF rep, of n] rep
    by (auto simp: not_le refines_unit)
next
  case (TruncateFront n)
  show ?thesis by (rule truncate_front_rep [OF rep, of n]) (simp add: TruncateFront refines_unit)
next
  case Clear
  show ?thesis by (rule clear_rep [OF rep]) (simp add: Clear refines_unit)
next
  case (Reserve n)
  from vd_reserve_cases [OF rep, of n] show ?thesis
    by cases (auto simp: Reserve intro: refines_grow refines_unit)
next
  case (Retain p)
  show ?thesis by (rule retain_rep [OF rep, of p]) (simp add: Retain refines_unit)
next
  case MakeContiguous
  show ?thesis by (rule make_contiguous_rep [OF rep]) (simp add: MakeContiguous refines_ok)
next
  case (RotateLeft n)
  show ?thesis
  proof (cases "n \<le> length xs")
    case True
    show ?thesis
      by (rule vd_rotate_left_rep [OF rep True]) (use True in \<open>simp add: RotateLeft refines_unit\<close>)
  next
    case False
    then show ?thesis using vd_repD(2) [OF rep]
      by (auto simp: RotateLeft vd_rotate_left_def ensure_def ok_unit_def)
  qed
next
  case (RotateRight n)
  show ?thesis
  proof (cases "n \<le> length xs")
    case True
    show ?thesis
      by (rule vd_rotate_right_rep [OF rep True]) (use True in \<open>simp add: RotateRight refines_unit\<close>)
  next
    case False
    then show ?thesis using vd_repD(2) [OF rep]
      by (auto simp: RotateRight vd_rotate_right_def ensure_def ok_unit_def)
  qed
qed

interpretation deque: container vd_rep deque_step deque_spec deque_grows
  by unfold_locales (rule deque_step_refines)

section \<open>Properties\<close>

text \<open>A concrete deque whose three elements wrap around the end of a buffer of four slots; the
  witnesses run the model on it.\<close>

definition sample_deque :: "nat vec_deque" where
  "sample_deque = \<lparr>vd_head = 2, vd_len = 3,
     vd_buf = \<lparr>rv_mem = [Some 30, None, Some 10, Some 20], rv_cap = 4, rv_alloc = (\<lambda>_. True),
                rv_elem = u64_layout\<rparr>\<rparr>"

lemma sample_rep: "vd_rep sample_deque [10, 20, 30]"
proof (rule vd_repI)
  show "vd_wf sample_deque"
    using u64_layout_ok
    by (simp add: sample_deque_def vd_wf_def rv_inv_def)
      (simp add: u64_layout_def max_size_for_align_def isize_max_num)
  fix i assume "i < length [10, 20, 30 :: nat]"
  then have "i = 0 \<or> i = 1 \<or> i = 2" by auto
  then show "slot sample_deque i = Some ([10, 20, 30] ! i)"
    by (auto simp: slot_def sample_deque_def ring_add_def)
qed (simp add: sample_deque_def)

lemma new_rep:
  assumes "layout_wf e" "lay_align e dvd lay_size e" "0 < lay_size e"
  shows "vd_rep (vd_new_in alloc e) []"
  using assms
  by (intro vd_repI) (auto simp: vd_new_in_def vd_wf_def rv_inv_def rv_new_in_def)



text \<open>
  C12: \<open>wrap_copy\<close> is a \<open>memmove\<close> on the ring. For positions inside the buffer and a length within
  the bound its debug assertion states, it raises no fault and moves \<open>len\<close> slots from \<open>src\<close> to
  \<open>dst\<close>, positions taken modulo the capacity, as if all were read before any is written; every
  other slot is unchanged, in each of the seven cases of how the two ranges wrap.
\<close>

theorem wrap_copy_memmove:
  assumes "vd_wf d" "src < vd_cap d" "dst < vd_cap d"
    and "min (abs_diff src dst) (vd_cap d - abs_diff src dst) + len \<le> vd_cap d"
  shows "\<exists>m'. wrap_copy d src dst len = Inr (set_mem d m') \<and>
    ring_moved (vd_mem d) (vd_cap d) src dst len m'"
  using wrap_copy_ring [OF assms] by blast

theorem wrap_copy_memmove_witness:
  "\<exists>m'. wrap_copy sample_deque 2 3 3 = Inr (set_mem sample_deque m') \<and>
    ring_moved [Some 30, None, Some 10, Some 20] 4 2 3 3 m'"
proof -
  have "vd_wf sample_deque" using vd_repD(1) [OF sample_rep] .
  from wrap_copy_memmove [OF this, of 2 3 3] show ?thesis
    by (simp add: sample_deque_def abs_diff_def)
qed

text \<open>
  C16: growing the buffer under a wrapped deque loses nothing: after the allocator has moved
  the old block into a larger one, \<open>handle_capacity_increase\<close> puts the two parts back into ring
  order, and the deque represents the same list with the new capacity.
\<close>

theorem capacity_increase_keeps_elements:
  assumes "vd_rep d xs" "rv_extends (vd_buf d) buf"
  shows "\<exists>d'. handle_capacity_increase (d\<lparr>vd_buf := buf\<rparr>) (vd_cap d) = Inr d' \<and> vd_rep d' xs \<and>
    vd_cap d' = rv_cap buf"
  using handle_capacity_increase_rep [OF assms] by blast

definition larger_buffer :: "nat raw_vec" where
  "larger_buffer = \<lparr>rv_mem = [Some 30, None, Some 10, Some 20, None, None], rv_cap = 6,
     rv_alloc = (\<lambda>_. True), rv_elem = u64_layout\<rparr>"

lemma larger_buffer_extends: "rv_extends (vd_buf sample_deque) larger_buffer"
  using u64_layout_ok
  by (simp add: rv_extends_def sample_deque_def larger_buffer_def rv_inv_def)
    (simp add: u64_layout_def max_size_for_align_def isize_max_num numeral_2_eq_2)

theorem capacity_increase_keeps_elements_witness:
  "\<exists>d'. handle_capacity_increase (sample_deque\<lparr>vd_buf := larger_buffer\<rparr>) 4 = Inr d' \<and>
     vd_rep d' [10, 20, 30] \<and> vd_cap d' = 6"
  using capacity_increase_keeps_elements [OF sample_rep larger_buffer_extends]
  by (simp add: sample_deque_def larger_buffer_def)

text \<open>
  C19: \<open>retain_mut\<close> keeps exactly the elements its closure accepts, in order and with the values
  the closure wrote, and drops each of the others exactly once.
\<close>

theorem retain_mut_correct:
  assumes "vd_rep d xs"
  shows "\<exists>d' dropped. retain_mut d f = Inr (dropped, d') \<and>
    vd_rep d' (map (snd \<circ> f) (filter (fst \<circ> f) xs)) \<and>
    mset dropped = mset (map (snd \<circ> f) (filter (\<lambda>x. \<not> fst (f x)) xs))"
  using retain_mut_rep [OF assms, of f] unfolding kept_def rejected_def by blast

theorem retain_mut_correct_witness:
  "\<exists>d' dropped. retain_mut sample_deque (\<lambda>x. (20 \<le> x, x + 1)) = Inr (dropped, d') \<and>
    vd_rep d' [21, 31] \<and> mset dropped = {#11#}"
  using retain_mut_correct [OF sample_rep, of "\<lambda>x. (20 \<le> x, x + 1)"] by simp

text \<open>
  C18: \<open>make_contiguous\<close> returns all elements in order as one slice, and leaves a contiguous deque
  that represents the same list, in all five layouts it distinguishes.
\<close>

theorem make_contiguous_correct:
  assumes "vd_rep d xs"
  shows "\<exists>d'. make_contiguous d = Inr (xs, d') \<and> vd_rep d' xs \<and> is_contiguous d'"
  using make_contiguous_rep [OF assms] by blast

theorem make_contiguous_correct_witness:
  "\<not> is_contiguous sample_deque \<and>
    (\<exists>d'. make_contiguous sample_deque = Inr ([10, 20, 30], d') \<and> is_contiguous d')"
  using make_contiguous_correct [OF sample_rep]
  by (auto simp: is_contiguous_def sample_deque_def vd_capacity_def is_zst_def rv_capacity_def
      u64_layout_def)



end
