(* ===== verification/Rust_Vec.thy ===== *)
theory Rust_Vec
  imports Simulation Slice_Range
begin

text \<open>
  \<open>alloc::vec::Vec\<close>: a \<open>RawVec\<close> buffer and a length. The operations are functions of the struct
  into the fault monad; the unsafe ones read and move slots of the buffer. Where the source
  drops an element in place the slot becomes uninitialised and the element is returned, so a
  second drop or a later read of the slot would be a fault.
\<close>

section \<open>State\<close>

record 'a vec =
  v_buf :: "'a raw_vec"
  v_len :: usize

abbreviation v_mem :: "'a vec \<Rightarrow> 'a memory" where
  "v_mem v \<equiv> rv_mem (v_buf v)"

abbreviation v_cap :: "'a vec \<Rightarrow> usize" where
  "v_cap v \<equiv> rv_cap (v_buf v)"

definition v_set_mem :: "'a vec \<Rightarrow> 'a memory \<Rightarrow> 'a vec" where
  "v_set_mem v m = v\<lparr>v_buf := (v_buf v)\<lparr>rv_mem := m\<rparr>\<rparr>"

definition vec_new_in :: "(layout \<Rightarrow> bool) \<Rightarrow> layout \<Rightarrow> 'a vec" where
  "vec_new_in alloc elem = \<lparr>v_buf = rv_new_in alloc elem, v_len = 0\<rparr>"

definition vec_with_capacity_in :: "usize \<Rightarrow> (layout \<Rightarrow> bool) \<Rightarrow> layout \<Rightarrow> 'a vec res" where
  "vec_with_capacity_in capacity alloc elem =
     and_then (rv_with_capacity_in capacity alloc elem) (\<lambda>buf. Inr \<lparr>v_buf = buf, v_len = 0\<rparr>)"

definition vec_capacity :: "'a vec \<Rightarrow> usize" where
  "vec_capacity v = rv_capacity (v_buf v)"

definition as_slice :: "'a vec \<Rightarrow> 'a list res" where
  "as_slice v = slice_at (v_mem v) 0 (v_len v)"

text \<open>\<open>ptr::drop_in_place\<close> of one slot and of a range: the elements dropped, in order.\<close>

definition drop_slot :: "'a memory \<Rightarrow> usize \<Rightarrow> ('a \<times> 'a memory) res" where
  "drop_slot m i = and_then (ptr_read m i) (\<lambda>x. Inr (x, m[i := None]))"

definition drop_range :: "'a memory \<Rightarrow> usize \<Rightarrow> usize \<Rightarrow> ('a list \<times> 'a memory) res" where
  "drop_range m start n =
     and_then (slice_at m start (start + n))
       (\<lambda>xs. Inr (xs, take start m @ replicate n None @ drop (start + n) m))"

section \<open>Capacity\<close>

definition vec_reserve :: "'a vec \<Rightarrow> usize \<Rightarrow> 'a vec res" where
  "vec_reserve v additional =
     and_then (rv_reserve (v_buf v) (v_len v) additional) (\<lambda>buf. Inr (v\<lparr>v_buf := buf\<rparr>))"

definition vec_shrink_to_fit :: "'a vec \<Rightarrow> 'a vec res" where
  "vec_shrink_to_fit v =
     (if vec_capacity v > v_len v
      then and_then (rv_shrink_to_fit (v_buf v) (v_len v)) (\<lambda>buf. Inr (v\<lparr>v_buf := buf\<rparr>))
      else Inr v)"

definition vec_shrink_to :: "'a vec \<Rightarrow> usize \<Rightarrow> 'a vec res" where
  "vec_shrink_to v min_capacity =
     (if vec_capacity v > min_capacity
      then and_then (rv_shrink_to_fit (v_buf v) (max (v_len v) min_capacity))
             (\<lambda>buf. Inr (v\<lparr>v_buf := buf\<rparr>))
      else Inr v)"

section \<open>One element\<close>

definition vec_grow_if_full :: "'a vec \<Rightarrow> 'a vec res" where
  "vec_grow_if_full v =
     (if v_len v = vec_capacity v
      then and_then (grow_one (v_buf v)) (\<lambda>buf. Inr (v\<lparr>v_buf := buf\<rparr>))
      else Inr v)"

definition vec_push :: "'a vec \<Rightarrow> 'a \<Rightarrow> 'a vec res" where
  "vec_push v x =
     (let len = v_len v
      in and_then (vec_grow_if_full v) (\<lambda>v.
           and_then (ptr_write (v_mem v) len x) (\<lambda>m. Inr ((v_set_mem v m)\<lparr>v_len := len + 1\<rparr>))))"

text \<open>\<open>Err\<close> gives the element back.\<close>

definition push_within_capacity :: "'a vec \<Rightarrow> 'a \<Rightarrow> ('a + 'a vec) res" where
  "push_within_capacity v x =
     (if v_len v = vec_capacity v then Inr (Inl x)
      else and_then (ptr_write (v_mem v) (v_len v) x)
             (\<lambda>m. Inr (Inr ((v_set_mem v m)\<lparr>v_len := v_len v + 1\<rparr>))))"

definition vec_pop :: "'a vec \<Rightarrow> ('a option \<times> 'a vec) res" where
  "vec_pop v =
     (if v_len v = 0 then Inr (None, v)
      else let v = v\<lparr>v_len := v_len v - 1\<rparr>
           in ensure (UB BrokenAssumption) (v_len v < vec_capacity v)
                (and_then (ptr_read (v_mem v) (v_len v)) (\<lambda>x. Inr (Some x, v))))"

definition vec_insert :: "'a vec \<Rightarrow> usize \<Rightarrow> 'a \<Rightarrow> 'a vec res" where
  "vec_insert v index x =
     (let len = v_len v
      in if index > len
         then Inl (Panic ''insertion index (is {index}) should be <= len (is {len})'')
         else and_then (vec_grow_if_full v) (\<lambda>v.
           and_then
             (if index < len then ptr_copy (v_mem v) index (index + 1) (len - index)
              else Inr (v_mem v))
             (\<lambda>m. and_then (ptr_write m index x)
               (\<lambda>m. Inr ((v_set_mem v m)\<lparr>v_len := len + 1\<rparr>)))))"

definition vec_try_remove :: "'a vec \<Rightarrow> usize \<Rightarrow> ('a option \<times> 'a vec) res" where
  "vec_try_remove v index =
     (let len = v_len v
      in if index \<ge> len then Inr (None, v)
         else and_then (ptr_read (v_mem v) index) (\<lambda>ret.
           and_then (ptr_copy (v_mem v) (index + 1) index (len - index - 1))
             (\<lambda>m. Inr (Some ret, (v_set_mem v m)\<lparr>v_len := len - 1\<rparr>))))"

definition vec_remove :: "'a vec \<Rightarrow> usize \<Rightarrow> ('a \<times> 'a vec) res" where
  "vec_remove v index =
     and_then (vec_try_remove v index) (\<lambda>(ret, v). case ret of
       Some elem \<Rightarrow> Inr (elem, v)
     | None \<Rightarrow> Inl (Panic ''removal index (is {index}) should be < len (is {len})''))"

definition vec_swap_remove :: "'a vec \<Rightarrow> usize \<Rightarrow> ('a \<times> 'a vec) res" where
  "vec_swap_remove v index =
     (let len = v_len v
      in if index \<ge> len
         then Inl (Panic ''swap_remove index (is {index}) should be < len (is {len})'')
         else and_then (ptr_read (v_mem v) index) (\<lambda>value.
           and_then (ptr_copy (v_mem v) (len - 1) index 1)
             (\<lambda>m. Inr (value, (v_set_mem v m)\<lparr>v_len := len - 1\<rparr>))))"

section \<open>Many elements\<close>

definition vec_truncate :: "'a vec \<Rightarrow> usize \<Rightarrow> ('a list \<times> 'a vec) res" where
  "vec_truncate v len =
     (if len > v_len v then Inr ([], v)
      else let remaining_len = v_len v - len; v = v\<lparr>v_len := len\<rparr>
           in and_then (drop_range (v_mem v) len remaining_len)
                (\<lambda>(dropped, m). Inr (dropped, v_set_mem v m)))"

definition vec_clear :: "'a vec \<Rightarrow> ('a list \<times> 'a vec) res" where
  "vec_clear v =
     (let n = v_len v; v = v\<lparr>v_len := 0\<rparr>
      in and_then (drop_range (v_mem v) 0 n) (\<lambda>(dropped, m). Inr (dropped, v_set_mem v m)))"

definition append_elements :: "'a vec \<Rightarrow> 'a list \<Rightarrow> 'a vec res" where
  "append_elements v other =
     (let count = length other
      in and_then (vec_reserve v count) (\<lambda>v.
           let len = v_len v
           in and_then (ptr_copy_from (v_mem v) len (map Some other))
                (\<lambda>m. Inr ((v_set_mem v m)\<lparr>v_len := v_len v + count\<rparr>))))"

definition vec_append :: "'a vec \<Rightarrow> 'a vec \<Rightarrow> ('a vec \<times> 'a vec) res" where
  "vec_append v other =
     and_then (as_slice other) (\<lambda>xs.
       and_then (append_elements v xs) (\<lambda>v. Inr (v, other\<lparr>v_len := 0\<rparr>)))"

definition vec_split_off :: "'a vec \<Rightarrow> usize \<Rightarrow> ('a vec \<times> 'a vec) res" where
  "vec_split_off v at =
     (if at > v_len v
      then Inl (Panic ''`at` split index (is {at}) should be <= len (is {len})'')
      else let other_len = v_len v - at
           in and_then (vec_with_capacity_in other_len (rv_alloc (v_buf v)) (rv_elem (v_buf v)))
                (\<lambda>other.
                  let v = v\<lparr>v_len := at\<rparr>; other = other\<lparr>v_len := other_len\<rparr>
                  in ensure (UB OutOfBounds) (at + other_len \<le> length (v_mem v))
                      (and_then
                        (ptr_copy_from (v_mem other) 0 (take other_len (drop at (v_mem v))))
                        (\<lambda>m. Inr (v, v_set_mem other m)))))"

text \<open>\<open>extend_with\<close>: one write and one increment of the length at a time, the last write moving
  the value instead of cloning it (the same value here).\<close>

fun extend_writes :: "'a vec \<Rightarrow> usize \<Rightarrow> 'a \<Rightarrow> 'a vec res" where
  "extend_writes v 0 x = Inr v"
| "extend_writes v (Suc n) x =
     and_then (ptr_write (v_mem v) (v_len v) x)
       (\<lambda>m. extend_writes ((v_set_mem v m)\<lparr>v_len := v_len v + 1\<rparr>) n x)"

definition extend_with :: "'a vec \<Rightarrow> usize \<Rightarrow> 'a \<Rightarrow> 'a vec res" where
  "extend_with v n x = and_then (vec_reserve v n) (\<lambda>v. extend_writes v n x)"

definition vec_resize :: "'a vec \<Rightarrow> usize \<Rightarrow> 'a \<Rightarrow> ('a list \<times> 'a vec) res" where
  "vec_resize v new_len x =
     (let len = v_len v
      in if new_len > len
         then and_then (extend_with v (new_len - len) x) (\<lambda>v. Inr ([], v))
         else vec_truncate v new_len)"

definition extend_from_within :: "'a vec \<Rightarrow> bound \<Rightarrow> bound \<Rightarrow> 'a vec res" where
  "extend_from_within v start_bound end_bound =
     and_then (slice_range start_bound end_bound (v_len v)) (\<lambda>(start, stop).
       and_then (vec_reserve v (stop - start)) (\<lambda>v.
         and_then (slice_at (v_mem v) start stop) (\<lambda>source.
           let count = length source
           in and_then (ptr_copy_from (v_mem v) (v_len v) (map Some source))
                (\<lambda>m. Inr ((v_set_mem v m)\<lparr>v_len := v_len v + count\<rparr>)))))"

section \<open>Retaining and removing duplicates\<close>

text \<open>The closure of \<open>retain_mut\<close> may change the element and may panic (\<open>None\<close>). \<open>retain_scan\<close> is
  the first loop, which ends at the first rejected element; \<open>retain_loop\<close> is the critical
  section. The outcome says whether the call unwinds, and holds the elements dropped. When the
  closure panics in the critical section the drop guard (\<open>retain_guard\<close>) closes the gap.\<close>

datatype retain_exit = AllKept | FirstRejected usize | ScanPanicked

function retain_scan ::
  "('a \<Rightarrow> (bool \<times> 'a) option) \<Rightarrow> 'a memory \<Rightarrow> usize \<Rightarrow> usize \<Rightarrow> (retain_exit \<times> 'a memory) res" where
  "retain_scan f m original_len read =
     (if read < original_len
      then and_then (ptr_read m read) (\<lambda>x. case f x of
             None \<Rightarrow> Inr (ScanPanicked, m)
           | Some (keep, x') \<Rightarrow>
               let m = m[read := Some x']
               in if \<not> keep then Inr (FirstRejected read, m)
                  else if read + 1 = original_len then Inr (AllKept, m)
                  else retain_scan f m original_len (read + 1))
      else Inl (UB OutOfBounds))"
  by pat_completeness auto
termination
  by (relation "measure (\<lambda>(f, m, n, read). n - read)") auto

function retain_loop ::
  "('a \<Rightarrow> (bool \<times> 'a) option) \<Rightarrow> 'a memory \<Rightarrow> usize \<Rightarrow> usize \<Rightarrow> usize \<Rightarrow> 'a list \<Rightarrow>
    (bool \<times> usize \<times> usize \<times> 'a list \<times> 'a memory) res" where
  "retain_loop f m original_len read write dropped =
     (if read < original_len
      then and_then (ptr_read m read) (\<lambda>x. case f x of
             None \<Rightarrow> Inr (True, read, write, dropped, m)
           | Some (keep, x') \<Rightarrow>
               let m = m[read := Some x']
               in if \<not> keep
                  then and_then (drop_slot m read) (\<lambda>(y, m).
                    retain_loop f m original_len (read + 1) write (dropped @ [y]))
                  else and_then (ptr_copy_nonoverlapping m read write 1) (\<lambda>m.
                    retain_loop f m original_len (read + 1) (write + 1) dropped))
      else Inr (False, read, write, dropped, m))"
  by pat_completeness auto
termination
  by (relation "measure (\<lambda>(f, m, n, read, w, ds). n - read)") auto

declare retain_scan.simps [simp del] retain_loop.simps [simp del]

definition retain_guard :: "'a vec \<Rightarrow> usize \<Rightarrow> usize \<Rightarrow> usize \<Rightarrow> 'a vec res" where
  "retain_guard v original_len read write =
     (let remaining = original_len - read
      in and_then (ptr_copy (v_mem v) read write remaining)
           (\<lambda>m. Inr ((v_set_mem v m)\<lparr>v_len := write + remaining\<rparr>)))"

definition vec_retain_mut ::
  "'a vec \<Rightarrow> ('a \<Rightarrow> (bool \<times> 'a) option) \<Rightarrow> (bool \<times> 'a list \<times> 'a vec) res" where
  "vec_retain_mut v f =
     (let original_len = v_len v
      in if original_len = 0 then Inr (False, [], v)
         else and_then (retain_scan f (v_mem v) original_len 0) (\<lambda>(exit, m).
           let v = v_set_mem v m
           in case exit of
                AllKept \<Rightarrow> Inr (False, [], v)
              | ScanPanicked \<Rightarrow> Inr (True, [], v)
              | FirstRejected read \<Rightarrow>
                  and_then (drop_slot m read) (\<lambda>(y, m).
                    and_then (retain_loop f m original_len (read + 1) read [y])
                      (\<lambda>(unwinding, read, write, dropped, m).
                        if unwinding
                        then and_then (retain_guard (v_set_mem v m) original_len read write)
                               (\<lambda>v. Inr (True, dropped, v))
                        else Inr (False, dropped, (v_set_mem v m)\<lparr>v_len := write\<rparr>)))))"

text \<open>\<open>dedup_by\<close>, with a closure that only compares. \<open>dedup_scan\<close> looks for the first duplicate,
  \<open>dedup_loop\<close> compacts the rest.\<close>

function dedup_scan :: "('a \<Rightarrow> 'a \<Rightarrow> bool) \<Rightarrow> 'a memory \<Rightarrow> usize \<Rightarrow> usize \<Rightarrow> usize res" where
  "dedup_scan same m len i =
     (if i < len
      then and_then (ptr_read m i) (\<lambda>cur. and_then (ptr_read m (i - 1)) (\<lambda>prev.
             if same cur prev then Inr i else dedup_scan same m len (i + 1)))
      else Inr i)"
  by pat_completeness auto
termination
  by (relation "measure (\<lambda>(s, m, len, i). len - i)") auto

function dedup_loop ::
  "('a \<Rightarrow> 'a \<Rightarrow> bool) \<Rightarrow> 'a memory \<Rightarrow> usize \<Rightarrow> usize \<Rightarrow> usize \<Rightarrow> 'a list \<Rightarrow>
    (usize \<times> 'a list \<times> 'a memory) res" where
  "dedup_loop same m len read write dropped =
     (if read < len
      then and_then (ptr_read m read) (\<lambda>cur. and_then (ptr_read m (write - 1)) (\<lambda>prev.
             if same cur prev
             then and_then (drop_slot m read) (\<lambda>(y, m).
               dedup_loop same m len (read + 1) write (dropped @ [y]))
             else and_then (ptr_copy_nonoverlapping m read write 1) (\<lambda>m.
               dedup_loop same m len (read + 1) (write + 1) dropped)))
      else Inr (write, dropped, m))"
  by pat_completeness auto
termination
  by (relation "measure (\<lambda>(s, m, len, read, w, ds). len - read)") auto

declare dedup_scan.simps [simp del] dedup_loop.simps [simp del]

definition dedup_by :: "'a vec \<Rightarrow> ('a \<Rightarrow> 'a \<Rightarrow> bool) \<Rightarrow> ('a list \<times> 'a vec) res" where
  "dedup_by v same_bucket =
     (let len = v_len v
      in if len \<le> 1 then Inr ([], v)
         else and_then (dedup_scan same_bucket (v_mem v) len 1) (\<lambda>first_duplicate_idx.
           if first_duplicate_idx = len then Inr ([], v)
           else and_then (drop_slot (v_mem v) first_duplicate_idx) (\<lambda>(y, m).
             and_then (dedup_loop same_bucket m len (first_duplicate_idx + 1) first_duplicate_idx [y])
               (\<lambda>(write, dropped, m). Inr (dropped, (v_set_mem v m)\<lparr>v_len := write\<rparr>)))))"

section \<open>Draining\<close>

text \<open>The iterator \<open>Drain\<close>: the vector it borrows (whose length stops at the range), the range of
  slots not yet yielded, and the tail to move back.\<close>

record 'a drain =
  dr_vec :: "'a vec"
  dr_start :: usize
  dr_end :: usize
  dr_tail_start :: usize
  dr_tail_len :: usize

definition vec_drain :: "'a vec \<Rightarrow> bound \<Rightarrow> bound \<Rightarrow> 'a drain res" where
  "vec_drain v start_bound end_bound =
     (let len = v_len v
      in and_then (slice_range start_bound end_bound len) (\<lambda>(start, stop).
           Inr \<lparr>dr_vec = v\<lparr>v_len := start\<rparr>, dr_start = start, dr_end = stop,
                dr_tail_start = stop, dr_tail_len = len - stop\<rparr>))"

definition drain_next :: "'a drain \<Rightarrow> ('a option \<times> 'a drain) res" where
  "drain_next d =
     (if dr_start d = dr_end d then Inr (None, d)
      else and_then (ptr_read (v_mem (dr_vec d)) (dr_start d))
             (\<lambda>x. Inr (Some x, d\<lparr>dr_start := dr_start d + 1\<rparr>)))"

definition drain_next_back :: "'a drain \<Rightarrow> ('a option \<times> 'a drain) res" where
  "drain_next_back d =
     (if dr_start d = dr_end d then Inr (None, d)
      else and_then (ptr_read (v_mem (dr_vec d)) (dr_end d - 1))
             (\<lambda>x. Inr (Some x, d\<lparr>dr_end := dr_end d - 1\<rparr>)))"

text \<open>Dropping the iterator: the elements not yielded are dropped, then the guard moves the tail
  back and restores the length.\<close>

definition drain_guard :: "'a drain \<Rightarrow> 'a memory \<Rightarrow> 'a vec res" where
  "drain_guard d m =
     (let v = v_set_mem (dr_vec d) m
      in if dr_tail_len d > 0
         then let start = v_len v; tail = dr_tail_start d
              in and_then (if tail \<noteq> start then ptr_copy m tail start (dr_tail_len d) else Inr m)
                   (\<lambda>m. Inr ((v_set_mem v m)\<lparr>v_len := start + dr_tail_len d\<rparr>))
         else Inr v)"

definition drain_drop :: "'a drain \<Rightarrow> ('a list \<times> 'a vec) res" where
  "drain_drop d =
     (let drop_len = dr_end d - dr_start d
      in if drop_len = 0 then and_then (drain_guard d (v_mem (dr_vec d))) (\<lambda>v. Inr ([], v))
         else and_then (drop_range (v_mem (dr_vec d)) (dr_start d) drop_len) (\<lambda>(dropped, m).
                and_then (drain_guard d m) (\<lambda>v. Inr (dropped, v))))"

definition drain_keep_rest :: "'a drain \<Rightarrow> 'a vec res" where
  "drain_keep_rest d =
     (let v = dr_vec d; start = v_len v; tail = dr_tail_start d;
          unyielded_len = dr_end d - dr_start d
      in and_then
           (if dr_start d \<noteq> start then ptr_copy (v_mem v) (dr_start d) start unyielded_len
            else Inr (v_mem v))
           (\<lambda>m. and_then
             (if tail \<noteq> start + unyielded_len
              then ptr_copy m tail (start + unyielded_len) (dr_tail_len d) else Inr m)
             (\<lambda>m. Inr ((v_set_mem v m)\<lparr>v_len := start + unyielded_len + dr_tail_len d\<rparr>))))"

end
