(* ===== verification/Rust_Ord.thy ===== *)
theory Rust_Ord
  imports Rust_Prelude
begin

text \<open>
  \<open>core::cmp\<close>: the type \<open>Ordering\<close> and the comparison operators a \<open>cmp\<close> function gives rise to. A
  comparison is an argument of every algorithm that compares; \<open>lawful_cmp\<close> is what the
  documentation of \<open>Ord\<close> asks of it. The algorithms must be memory safe for every comparison
  and correct for the lawful ones.
\<close>

datatype ordering = Less | Equal | Greater

type_synonym 'a cmp = "'a \<Rightarrow> 'a \<Rightarrow> ordering"

text \<open>The derived order of the enum, \<open>Less < Equal < Greater\<close>.\<close>

fun discriminant :: "ordering \<Rightarrow> int" where
  "discriminant Less = -1"
| "discriminant Equal = 0"
| "discriminant Greater = 1"

instantiation ordering :: linorder
begin

definition less_eq_ordering :: "ordering \<Rightarrow> ordering \<Rightarrow> bool" where
  "less_eq_ordering a b \<longleftrightarrow> discriminant a \<le> discriminant b"

definition less_ordering :: "ordering \<Rightarrow> ordering \<Rightarrow> bool" where
  "less_ordering a b \<longleftrightarrow> discriminant a < discriminant b"

instance
proof
  fix a b :: ordering
  show "a \<le> b \<Longrightarrow> b \<le> a \<Longrightarrow> a = b"
    by (cases a; cases b) (simp_all add: less_eq_ordering_def)
qed (auto simp: less_eq_ordering_def less_ordering_def)

end

definition is_le :: "ordering \<Rightarrow> bool" where
  "is_le ord \<longleftrightarrow> ord \<noteq> Greater"

definition is_lt :: "ordering \<Rightarrow> bool" where
  "is_lt ord \<longleftrightarrow> ord = Less"

definition is_ge :: "ordering \<Rightarrow> bool" where
  "is_ge ord \<longleftrightarrow> ord \<noteq> Less"

definition is_gt :: "ordering \<Rightarrow> bool" where
  "is_gt ord \<longleftrightarrow> ord = Greater"

fun reverse_ordering :: "ordering \<Rightarrow> ordering" where
  "reverse_ordering Less = Greater"
| "reverse_ordering Equal = Equal"
| "reverse_ordering Greater = Less"

lemma is_le_iff: "is_le a \<longleftrightarrow> a \<le> Equal" "is_lt a \<longleftrightarrow> a < Equal" "is_ge a \<longleftrightarrow> Equal \<le> a"
  "is_gt a \<longleftrightarrow> Equal < a"
  by (cases a; simp add: is_le_def is_lt_def is_ge_def is_gt_def less_eq_ordering_def
      less_ordering_def)+

text \<open>The laws of \<open>Ord\<close>: antisymmetric in the sense of \<open>reverse\<close>, and transitive.\<close>

definition lawful_cmp :: "'a cmp \<Rightarrow> bool" where
  "lawful_cmp cmp \<longleftrightarrow> (\<forall>a b. cmp b a = reverse_ordering (cmp a b)) \<and>
     (\<forall>a b c. is_le (cmp a b) \<longrightarrow> is_le (cmp b c) \<longrightarrow> is_le (cmp a c))"

definition cmp_of :: "'a :: linorder cmp" where
  "cmp_of a b = (if a < b then Less else if a = b then Equal else Greater)"

lemma lawful_cmp_of [simp]: "lawful_cmp cmp_of"
  unfolding lawful_cmp_def
  by (intro conjI allI impI) (auto simp: cmp_of_def is_le_def split: if_splits)

lemma is_le_cmp_of [simp]: "is_le (cmp_of a b) \<longleftrightarrow> a \<le> b"
  by (auto simp: is_le_def cmp_of_def)

lemma lawful_reverse:
  assumes "lawful_cmp cmp"
  shows "is_ge (cmp a b) \<longleftrightarrow> is_le (cmp b a)" "is_lt (cmp a b) \<longleftrightarrow> \<not> is_le (cmp b a)"
    "is_gt (cmp a b) \<longleftrightarrow> \<not> is_le (cmp a b)" "is_lt (cmp a b) \<longleftrightarrow> is_gt (cmp b a)"
proof -
  have "cmp b a = reverse_ordering (cmp a b)" using assms unfolding lawful_cmp_def by blast
  then show "is_ge (cmp a b) \<longleftrightarrow> is_le (cmp b a)" "is_lt (cmp a b) \<longleftrightarrow> \<not> is_le (cmp b a)"
    "is_gt (cmp a b) \<longleftrightarrow> \<not> is_le (cmp a b)" "is_lt (cmp a b) \<longleftrightarrow> is_gt (cmp b a)"
    by (cases "cmp a b"; simp add: is_ge_def is_le_def is_lt_def is_gt_def)+
qed

lemma lawful_total: "lawful_cmp cmp \<Longrightarrow> is_le (cmp a b) \<or> is_le (cmp b a)"
  using lawful_reverse(2) [of cmp a b] by (auto simp: is_le_def is_lt_def)

lemma lawful_refl: "lawful_cmp cmp \<Longrightarrow> is_le (cmp a a)"
  using lawful_total [of cmp a a] by simp

lemma lawful_trans: "lawful_cmp cmp \<Longrightarrow> is_le (cmp a b) \<Longrightarrow> is_le (cmp b c) \<Longrightarrow> is_le (cmp a c)"
  unfolding lawful_cmp_def by blast

text \<open>Sortedness under a comparison.\<close>

definition sorted_cmp :: "'a cmp \<Rightarrow> 'a list \<Rightarrow> bool" where
  "sorted_cmp cmp = sorted_wrt (\<lambda>a b. is_le (cmp a b))"

lemma sorted_cmp_of [simp]: "sorted_cmp cmp_of xs \<longleftrightarrow> sorted xs"
  by (simp add: sorted_cmp_def)

end
