(* ===== verification/Binary_Heap.thy ===== *)
theory Binary_Heap
  imports Rust_Vec Rust_Ord
begin

text \<open>
  \<open>alloc::collections::BinaryHeap\<close>: a vector kept in heap order. Sifting moves a \<open>Hole\<close> through
  the slice: the element is read out of the vector, others are copied over the hole, and the
  element is written back when the hole is dropped. The comparison is an argument.
\<close>

section \<open>Holes\<close>

text \<open>\<open>hole_data\<close> is the slice the hole borrows, of \<open>hole_len\<close> slots.\<close>

record 'a hole =
  hole_data :: "'a memory"
  hole_len :: usize
  hole_elt :: 'a
  hole_pos :: usize

definition hole_new :: "'a memory \<Rightarrow> usize \<Rightarrow> usize \<Rightarrow> 'a hole res" where
  "hole_new data len pos =
     ensure DebugAssert (pos < len)
       (and_then (ptr_read data pos)
         (\<lambda>elt. Inr \<lparr>hole_data = data, hole_len = len, hole_elt = elt, hole_pos = pos\<rparr>))"

definition hole_get :: "'a hole \<Rightarrow> usize \<Rightarrow> 'a res" where
  "hole_get h index =
     ensure DebugAssert (index \<noteq> hole_pos h)
       (ensure DebugAssert (index < hole_len h) (ptr_read (hole_data h) index))"

definition hole_move_to :: "'a hole \<Rightarrow> usize \<Rightarrow> 'a hole res" where
  "hole_move_to h index =
     ensure DebugAssert (index \<noteq> hole_pos h)
       (ensure DebugAssert (index < hole_len h)
         (and_then (ptr_copy_nonoverlapping (hole_data h) index (hole_pos h) 1)
           (\<lambda>m. Inr (h\<lparr>hole_data := m, hole_pos := index\<rparr>))))"

definition hole_drop :: "'a hole \<Rightarrow> 'a memory res" where
  "hole_drop h = ptr_write (hole_data h) (hole_pos h) (hole_elt h)"

lemma hole_move_to_pos: "hole_move_to h i = Inr h' \<Longrightarrow> hole_pos h' = i"
  by (auto simp: hole_move_to_def and_then_Inr_iff)

section \<open>Sifting\<close>

function sift_up_loop :: "'a cmp \<Rightarrow> usize \<Rightarrow> 'a hole \<Rightarrow> 'a hole res" where
  "sift_up_loop cmp start h =
     (if hole_pos h > start
      then let parent = (hole_pos h - 1) div 2
           in and_then (hole_get h parent) (\<lambda>p.
                if is_le (cmp (hole_elt h) p) then Inr h
                else and_then (hole_move_to h parent) (\<lambda>h. sift_up_loop cmp start h))
      else Inr h)"
  by pat_completeness auto
termination
  by (relation "measure (\<lambda>(c, s, h). hole_pos h)") (auto dest!: hole_move_to_pos)

text \<open>Both downward loops move to the greater of two children (the right one when they are equal),
  \<open>sift_down_loop\<close> stops when the element is in order. The loop ends with the hole, whether the
  function has returned from inside, and the next child.\<close>

definition greater_child :: "'a cmp \<Rightarrow> 'a hole \<Rightarrow> usize \<Rightarrow> usize res" where
  "greater_child cmp h child =
     and_then (hole_get h child) (\<lambda>a. and_then (hole_get h (child + 1)) (\<lambda>b.
       Inr (child + (if is_le (cmp a b) then 1 else 0))))"

lemma greater_child_Inr: "greater_child cmp h child = Inr c \<Longrightarrow> child \<le> c \<and> c \<le> child + 1"
  by (auto simp: greater_child_def and_then_Inr_iff split: if_splits)

function sift_down_loop :: "'a cmp \<Rightarrow> usize \<Rightarrow> 'a hole \<Rightarrow> (bool \<times> 'a hole) res" where
  "sift_down_loop cmp stop h =
     (let child = 2 * hole_pos h + 1
      in if child \<le> stop - 2
         then and_then (greater_child cmp h child) (\<lambda>child.
                and_then (hole_get h child) (\<lambda>c.
                  if is_ge (cmp (hole_elt h) c) then Inr (True, h)
                  else and_then (hole_move_to h child) (\<lambda>h. sift_down_loop cmp stop h)))
         else Inr (False, h))"
  by pat_completeness auto
termination
  by (relation "measure (\<lambda>(c, s, h). s - hole_pos h)")
    (auto dest!: hole_move_to_pos greater_child_Inr)

function sift_bottom_loop :: "'a cmp \<Rightarrow> usize \<Rightarrow> 'a hole \<Rightarrow> 'a hole res" where
  "sift_bottom_loop cmp stop h =
     (let child = 2 * hole_pos h + 1
      in if child \<le> stop - 2
         then and_then (greater_child cmp h child) (\<lambda>child.
                and_then (hole_move_to h child) (\<lambda>h. sift_bottom_loop cmp stop h))
         else Inr h)"
  by pat_completeness auto
termination
  by (relation "measure (\<lambda>(c, s, h). s - hole_pos h)")
    (auto dest!: hole_move_to_pos greater_child_Inr)

declare sift_up_loop.simps [simp del] sift_down_loop.simps [simp del] sift_bottom_loop.simps [simp del]

definition sift_up :: "'a cmp \<Rightarrow> 'a vec \<Rightarrow> usize \<Rightarrow> usize \<Rightarrow> (usize \<times> 'a vec) res" where
  "sift_up cmp v start pos =
     and_then (hole_new (v_mem v) (v_len v) pos) (\<lambda>h.
       and_then (sift_up_loop cmp start h) (\<lambda>h.
         and_then (hole_drop h) (\<lambda>m. Inr (hole_pos h, v_set_mem v m))))"

definition sift_down_range :: "'a cmp \<Rightarrow> 'a vec \<Rightarrow> usize \<Rightarrow> usize \<Rightarrow> (usize \<times> 'a vec) res" where
  "sift_down_range cmp v pos stop =
     and_then (hole_new (v_mem v) (v_len v) pos) (\<lambda>h.
       and_then (sift_down_loop cmp stop h) (\<lambda>(returned, h).
         and_then
           (if returned then Inr h
            else let child = 2 * hole_pos h + 1
                 in if child = stop - 1
                    then and_then (hole_get h child) (\<lambda>c.
                           if is_lt (cmp (hole_elt h) c) then hole_move_to h child else Inr h)
                    else Inr h)
           (\<lambda>h. and_then (hole_drop h) (\<lambda>m. Inr (hole_pos h, v_set_mem v m)))))"

definition sift_down :: "'a cmp \<Rightarrow> 'a vec \<Rightarrow> usize \<Rightarrow> (usize \<times> 'a vec) res" where
  "sift_down cmp v pos = (let len = v_len v in sift_down_range cmp v pos len)"

definition sift_down_to_bottom :: "'a cmp \<Rightarrow> 'a vec \<Rightarrow> usize \<Rightarrow> 'a vec res" where
  "sift_down_to_bottom cmp v pos =
     (let stop = v_len v; start = pos
      in and_then (hole_new (v_mem v) (v_len v) pos) (\<lambda>h.
           and_then (sift_bottom_loop cmp stop h) (\<lambda>h.
             let child = 2 * hole_pos h + 1
             in and_then (if child = stop - 1 then hole_move_to h child else Inr h) (\<lambda>h.
                  let pos = hole_pos h
                  in and_then (hole_drop h) (\<lambda>m.
                       and_then (sift_up cmp (v_set_mem v m) start pos) (\<lambda>(_, v). Inr v))))))"

section \<open>Operations\<close>

definition heap_push :: "'a cmp \<Rightarrow> 'a vec \<Rightarrow> 'a \<Rightarrow> 'a vec res" where
  "heap_push cmp v item =
     (let old_len = v_len v
      in and_then (vec_push v item) (\<lambda>v.
           and_then (sift_up cmp v 0 old_len) (\<lambda>(_, v). Inr v)))"

definition heap_pop :: "'a cmp \<Rightarrow> 'a vec \<Rightarrow> ('a option \<times> 'a vec) res" where
  "heap_pop cmp v =
     and_then (vec_pop v) (\<lambda>(x, v). case x of
       None \<Rightarrow> Inr (None, v)
     | Some item \<Rightarrow>
         if v_len v \<noteq> 0
         then and_then (ptr_replace (v_mem v) 0 item) (\<lambda>(m, item).
                and_then (sift_down_to_bottom cmp (v_set_mem v m) 0) (\<lambda>v. Inr (Some item, v)))
         else Inr (Some item, v))"

definition heap_peek :: "'a vec \<Rightarrow> 'a option res" where
  "heap_peek v =
     (if v_len v = 0 then Inr None else and_then (ptr_read (v_mem v) 0) (\<lambda>x. Inr (Some x)))"

fun rebuild_loop :: "'a cmp \<Rightarrow> 'a vec \<Rightarrow> usize \<Rightarrow> 'a vec res" where
  "rebuild_loop cmp v 0 = Inr v"
| "rebuild_loop cmp v (Suc n) =
     and_then (sift_down cmp v n) (\<lambda>(_, v). rebuild_loop cmp v n)"

definition rebuild :: "'a cmp \<Rightarrow> 'a vec \<Rightarrow> 'a vec res" where
  "rebuild cmp v = rebuild_loop cmp v (v_len v div 2)"

definition log2_fast :: "usize \<Rightarrow> nat" where
  "log2_fast x = 64 - leading_zeros x - 1"

definition better_to_rebuild :: "usize \<Rightarrow> usize \<Rightarrow> bool" where
  "better_to_rebuild len start =
     (let tail_len = len - start
      in if start < tail_len then True
         else if len \<le> 2048 then 2 * len < tail_len * log2_fast start
         else 2 * len < tail_len * 11)"

fun sift_up_all :: "'a cmp \<Rightarrow> 'a vec \<Rightarrow> usize list \<Rightarrow> 'a vec res" where
  "sift_up_all cmp v [] = Inr v"
| "sift_up_all cmp v (i # is) =
     and_then (sift_up cmp v 0 i) (\<lambda>(_, v). sift_up_all cmp v is)"

definition rebuild_tail :: "'a cmp \<Rightarrow> 'a vec \<Rightarrow> usize \<Rightarrow> 'a vec res" where
  "rebuild_tail cmp v start =
     (if start = v_len v then Inr v
      else if better_to_rebuild (v_len v) start then rebuild cmp v
      else sift_up_all cmp v [start..<v_len v])"

definition heap_from_vec :: "'a cmp \<Rightarrow> 'a vec \<Rightarrow> 'a vec res" where
  "heap_from_vec cmp v = rebuild cmp v"

definition heap_append :: "'a cmp \<Rightarrow> 'a vec \<Rightarrow> 'a vec \<Rightarrow> ('a vec \<times> 'a vec) res" where
  "heap_append cmp v other =
     (let (v, other) = (if v_len v < v_len other then (other, v) else (v, other));
          start = v_len v
      in and_then (vec_append v other) (\<lambda>(v, other).
           and_then (rebuild_tail cmp v start) (\<lambda>v. Inr (v, other))))"

definition heap_extend :: "'a cmp \<Rightarrow> 'a vec \<Rightarrow> 'a list \<Rightarrow> 'a vec res" where
  "heap_extend cmp v items =
     (let rebuild_from = v_len v
      in and_then (append_elements v items) (\<lambda>v. rebuild_tail cmp v rebuild_from))"

text \<open>\<open>retain\<close>: the wrapper closure records the first rejected position, from which the drop guard
  rebuilds, also when the predicate panics (\<open>None\<close>).\<close>

definition first_rejected :: "('a \<Rightarrow> bool option) \<Rightarrow> 'a list \<Rightarrow> usize" where
  "first_rejected f xs =
     (let n = length (takeWhile (\<lambda>x. f x = Some True) xs)
      in if n < length xs \<and> f (xs ! n) = Some False then n else length xs)"

definition heap_retain ::
  "'a cmp \<Rightarrow> 'a vec \<Rightarrow> ('a \<Rightarrow> bool option) \<Rightarrow> (bool \<times> 'a list \<times> 'a vec) res" where
  "heap_retain cmp v f =
     and_then (as_slice v) (\<lambda>xs.
       let rebuild_from = first_rejected f xs
       in and_then (vec_retain_mut v (\<lambda>x. map_option (\<lambda>keep. (keep, x)) (f x)))
            (\<lambda>(unwinding, dropped, v).
              and_then (rebuild_tail cmp v rebuild_from) (\<lambda>v. Inr (unwinding, dropped, v))))"

function sorted_loop :: "'a cmp \<Rightarrow> 'a vec \<Rightarrow> usize \<Rightarrow> 'a vec res" where
  "sorted_loop cmp v stop =
     (if stop > 1
      then let stop = stop - 1
           in and_then (ptr_swap (v_mem v) 0 stop) (\<lambda>m.
                and_then (sift_down_range cmp (v_set_mem v m) 0 stop) (\<lambda>(_, v).
                  sorted_loop cmp v stop))
      else Inr v)"
  by pat_completeness auto
termination
  by (relation "measure (\<lambda>(c, v, s). s)") auto

declare sorted_loop.simps [simp del]

definition into_sorted_vec :: "'a cmp \<Rightarrow> 'a vec \<Rightarrow> 'a vec res" where
  "into_sorted_vec cmp v = sorted_loop cmp v (v_len v)"

section \<open>PeekMut\<close>

text \<open>A mutable view of the greatest element. While the element may have been changed the vector's
  length is one and the true length is remembered; a leaked \<open>PeekMut\<close> leaves that short vector.\<close>

record 'a peek_mut =
  pm_heap :: "'a vec"
  pm_original_len :: "usize option"

definition heap_peek_mut :: "'a vec \<Rightarrow> 'a peek_mut option" where
  "heap_peek_mut v = (if v_len v = 0 then None else Some \<lparr>pm_heap = v, pm_original_len = None\<rparr>)"

text \<open>\<open>deref_mut\<close>, followed by the store of \<open>x\<close> through the reference it returns.\<close>

definition peek_mut_store :: "'a peek_mut \<Rightarrow> 'a \<Rightarrow> 'a peek_mut res" where
  "peek_mut_store p x =
     ensure DebugAssert (v_len (pm_heap p) \<noteq> 0)
       (let len = v_len (pm_heap p);
            p = (if len > 1
                 then p\<lparr>pm_original_len := Some len, pm_heap := (pm_heap p)\<lparr>v_len := 1\<rparr>\<rparr> else p)
        in and_then (ptr_write (v_mem (pm_heap p)) 0 x)
             (\<lambda>m. Inr (p\<lparr>pm_heap := v_set_mem (pm_heap p) m\<rparr>)))"

definition peek_mut_drop :: "'a cmp \<Rightarrow> 'a peek_mut \<Rightarrow> 'a vec res" where
  "peek_mut_drop cmp p =
     (case pm_original_len p of
        Some original_len \<Rightarrow>
          and_then (sift_down cmp ((pm_heap p)\<lparr>v_len := original_len\<rparr>) 0) (\<lambda>(_, v). Inr v)
      | None \<Rightarrow> Inr (pm_heap p))"

definition peek_mut_refresh :: "'a cmp \<Rightarrow> 'a peek_mut \<Rightarrow> (bool \<times> 'a peek_mut) res" where
  "peek_mut_refresh cmp p =
     (case pm_original_len p of
        Some original_len \<Rightarrow>
          and_then (sift_down cmp ((pm_heap p)\<lparr>v_len := original_len\<rparr>) 0)
            (\<lambda>(pos, v). Inr (pos \<noteq> 0, \<lparr>pm_heap = v, pm_original_len = None\<rparr>))
      | None \<Rightarrow> Inr (False, p))"

definition peek_mut_pop :: "'a cmp \<Rightarrow> 'a peek_mut \<Rightarrow> ('a \<times> 'a vec) res" where
  "peek_mut_pop cmp p =
     (let v = (case pm_original_len p of
                 Some original_len \<Rightarrow> (pm_heap p)\<lparr>v_len := original_len\<rparr>
               | None \<Rightarrow> pm_heap p)
      in and_then (heap_pop cmp v) (\<lambda>(x, v). case x of
           Some x \<Rightarrow> Inr (x, v) | None \<Rightarrow> Inl (UB BrokenAssumption)))"

end
