(* ===== verification/Rust_Vec_Correct.thy ===== *)
theory Rust_Vec_Correct
  imports Rust_Vec
begin

text \<open>
  \<open>Vec\<close> is a list: the representation relation \<open>vec_rep\<close> and the effect of every operation on it,
  including what a panicking closure leaves behind and what a partly consumed drain restores.
\<close>

section \<open>Representation\<close>

definition vec_wf :: "'a vec \<Rightarrow> bool" where
  "vec_wf v \<longleftrightarrow> rv_inv (v_buf v) \<and> 0 < lay_size (rv_elem (v_buf v)) \<and> v_len v \<le> v_cap v"

definition vec_rep :: "'a vec \<Rightarrow> 'a list \<Rightarrow> bool" where
  "vec_rep v xs \<longleftrightarrow> vec_wf v \<and> v_len v = length xs \<and> segment (v_mem v) 0 xs"

lemma v_set_mem_simps [simp]:
  "v_len (v_set_mem v m) = v_len v" "v_mem (v_set_mem v m) = m" "v_cap (v_set_mem v m) = v_cap v"
  "rv_elem (v_buf (v_set_mem v m)) = rv_elem (v_buf v)"
  "v_set_mem (v_set_mem v m) m' = v_set_mem v m'" "v_set_mem v (v_mem v) = v"
  "vec_capacity (v_set_mem v m) = vec_capacity v"
  "v_set_mem (v\<lparr>v_len := n\<rparr>) m = (v_set_mem v m)\<lparr>v_len := n\<rparr>"
  "vec_capacity (v\<lparr>v_len := n\<rparr>) = vec_capacity v"
  by (simp_all add: v_set_mem_def vec_capacity_def rv_capacity_def)

lemma vec_repD:
  assumes "vec_rep v xs"
  shows "rv_inv (v_buf v)" "0 < lay_size (rv_elem (v_buf v))" "v_len v = length xs"
    "length xs \<le> v_cap v" "length (v_mem v) = v_cap v" "vec_capacity v = v_cap v"
    "segment (v_mem v) 0 xs" "v_cap v \<le> isize_max"
    "\<And>i. i < length xs \<Longrightarrow> v_mem v ! i = Some (xs ! i)"
  using assms rv_inv_cap_le [of "v_buf v"]
  by (auto simp: vec_rep_def vec_wf_def rv_inv_def vec_capacity_def rv_capacity_def segment_def)

text \<open>Every operation ends by storing a new memory and a new length.\<close>

lemma vec_repI:
  assumes "vec_rep v xs" "length m = v_cap v" "segment m 0 ys" "n = length ys"
  shows "vec_rep ((v_set_mem v m)\<lparr>v_len := n\<rparr>) ys"
  using assms segmentD(1) [OF assms(3)]
  by (auto simp: vec_rep_def vec_wf_def rv_inv_def v_set_mem_def)

lemma vec_repI_same:
  assumes "vec_rep v xs" "length m = v_cap v" "segment m 0 ys" "length ys = length xs"
  shows "vec_rep (v_set_mem v m) ys"
  using assms by (auto simp: vec_rep_def vec_wf_def rv_inv_def v_set_mem_def)

lemma vec_rep_len:
  assumes "vec_rep v xs" "n \<le> length xs"
  shows "vec_rep (v\<lparr>v_len := n\<rparr>) (take n xs)"
  using vec_repI [OF assms(1) vec_repD(5) [OF assms(1)] segment_take [OF vec_repD(7) [OF assms(1)], of n], of n] assms(2)
  by simp

lemma vec_rep_buf:
  assumes "vec_rep v xs" "rv_extends (v_buf v) buf"
  shows "vec_rep (v\<lparr>v_buf := buf\<rparr>) xs" "v_cap v \<le> rv_cap buf"
  using assms rv_extendsD [OF assms(2)]
  by (auto simp: vec_rep_def vec_wf_def segment_def nth_append)

lemma as_slice_rep: "vec_rep v xs \<Longrightarrow> as_slice v = Inr xs"
  by (simp add: as_slice_def vec_repD(3) segment_slice_0 vec_repD(7))

lemma vec_new_rep:
  assumes "layout_wf e" "lay_align e dvd lay_size e" "0 < lay_size e"
  shows "vec_rep (vec_new_in alloc e) []"
  using assms by (simp add: vec_rep_def vec_wf_def vec_new_in_def rv_new_in_def rv_inv_def)

section \<open>Capacity\<close>

lemma vec_grow_cases:
  assumes rep: "vec_rep v xs"
  obtains "reserve_fails (vec_grow_if_full v)"
  | v' where "vec_grow_if_full v = Inr v'" "vec_rep v' xs" "length xs < v_cap v'"
proof (cases "length xs = v_cap v")
  case True
  from grow_one_cases [OF vec_repD(1,2) [OF rep]] show thesis
  proof cases
    case 1
    then show thesis using True vec_repD(3,6) [OF rep]
      by (intro that(1)) (simp add: vec_grow_if_full_def reserve_fails_and_then)
  next
    case (2 buf)
    then show thesis using True vec_repD(3,6) [OF rep] vec_rep_buf [OF rep 2(2)]
      by (intro that(2) [of "v\<lparr>v_buf := buf\<rparr>"]) (simp_all add: vec_grow_if_full_def)
  qed
next
  case False
  then show thesis using rep vec_repD(3,4,6) [OF rep]
    by (intro that(2) [of v]) (simp_all add: vec_grow_if_full_def)
qed

lemma vec_reserve_cases:
  assumes rep: "vec_rep v xs"
  obtains "reserve_fails (vec_reserve v n)"
  | v' where "vec_reserve v n = Inr v'" "vec_rep v' xs" "length xs + n \<le> v_cap v'"
proof -
  note r = vec_repD [OF rep]
  have le: "v_len v \<le> v_cap v" using r(3,4) by simp
  from rv_reserve_cases [OF r(1,2) le, of n] show thesis
  proof cases
    case 1
    then show thesis by (intro that(1)) (simp add: vec_reserve_def reserve_fails_and_then)
  next
    case (2 buf)
    then show thesis using vec_rep_buf [OF rep 2(2)] r(3)
      by (intro that(2) [of "v\<lparr>v_buf := buf\<rparr>"]) (simp_all add: vec_reserve_def)
  qed
qed

lemma vec_shrink_cases:
  assumes rep: "vec_rep v xs" and n: "length xs \<le> n" "n \<le> v_cap v"
  obtains "reserve_fails (rv_shrink_to_fit (v_buf v) n)"
  | buf where "rv_shrink_to_fit (v_buf v) n = Inr buf" "vec_rep (v\<lparr>v_buf := buf\<rparr>) xs" "rv_cap buf = n"
proof -
  note r = vec_repD [OF rep]
  from rv_shrink_cases [OF r(1,2) n(2)] show thesis
  proof cases
    case (1 e)
    then show thesis by (intro that(1)) (simp add: rv_shrink_to_fit_def reserve_fails_unwrap)
  next
    case (2 buf)
    then have "vec_rep (v\<lparr>v_buf := buf\<rparr>) xs"
      using r n by (auto simp: vec_rep_def vec_wf_def segment_def)
    with 2 show thesis by (intro that(2) [of buf]) (simp_all add: rv_shrink_to_fit_def)
  qed
qed

section \<open>One element\<close>

lemma vec_push_cases:
  assumes rep: "vec_rep v xs"
  obtains "reserve_fails (vec_push v x)"
  | v' where "vec_push v x = Inr v'" "vec_rep v' (xs @ [x])"
proof -
  from vec_grow_cases [OF rep] show thesis
  proof cases
    case 1
    then show thesis by (intro that(1)) (simp add: vec_push_def reserve_fails_and_then Let_def)
  next
    case (2 w)
    note r = vec_repD [OF 2(2)]
    have "vec_rep ((v_set_mem w ((v_mem w)[length xs := Some x]))\<lparr>v_len := length xs + 1\<rparr>) (xs @ [x])"
      using r 2(3) by (intro vec_repI [OF 2(2)]) (auto simp: segment_snoc)
    then show thesis using 2(1,3) r(5) vec_repD(3) [OF rep]
      by (intro that(2)) (auto simp: vec_push_def Let_def)
  qed
qed

lemma vec_pop_rep:
  assumes rep: "vec_rep v xs"
  shows "vec_pop v =
    Inr (if xs = [] then (None, v) else (Some (List.last xs), v\<lparr>v_len := length xs - 1\<rparr>))"
    and "xs \<noteq> [] \<Longrightarrow> vec_rep (v\<lparr>v_len := length xs - 1\<rparr>) (butlast xs)"
proof -
  note r = vec_repD [OF rep]
  show "vec_rep (v\<lparr>v_len := length xs - 1\<rparr>) (butlast xs)" if "xs \<noteq> []"
    using vec_rep_len [OF rep, of "length xs - 1"] by (simp add: butlast_conv_take)
  show "vec_pop v =
    Inr (if xs = [] then (None, v) else (Some (List.last xs), v\<lparr>v_len := length xs - 1\<rparr>))"
  proof (cases "xs = []")
    case False
    then have "length xs - 1 < length xs" "length xs - 1 < v_cap v" using r(4) by (cases xs; simp)+
    then show ?thesis
      using False r by (simp add: vec_pop_def Let_def last_conv_nth)
  qed (use r(3) in \<open>simp add: vec_pop_def\<close>)
qed

lemma vec_insert_cases:
  assumes rep: "vec_rep v xs" and i: "i \<le> length xs"
  obtains "reserve_fails (vec_insert v i x)"
  | v' where "vec_insert v i x = Inr v'" "vec_rep v' (take i xs @ x # drop i xs)"
proof -
  have ens: "\<not> v_len v < i" using i vec_repD(3) [OF rep] by simp
  from vec_grow_cases [OF rep] show thesis
  proof cases
    case 1
    then show thesis using ens by (intro that(1)) (simp add: vec_insert_def reserve_fails_and_then Let_def)
  next
    case (2 w)
    note r = vec_repD [OF 2(2)]
    let ?m = "if i < length xs then move_slots (v_mem w) i (i + 1) (length xs - i) else v_mem w"
    have len: "length ?m = v_cap w" using 2(3) r(5) by simp
    have "?m[i := Some x] ! j = Some ((take i xs @ x # drop i xs) ! j)" if "j \<le> length xs" for j
      using that i 2(3) r(5,9) len
      by (cases j i rule: linorder_cases) (auto simp: nth_insert nth_move_slots)
    then have "segment (?m[i := Some x]) 0 (take i xs @ x # drop i xs)"
      using i 2(3) len by (simp add: segment_def)
    then have "vec_rep ((v_set_mem w (?m[i := Some x]))\<lparr>v_len := length xs + 1\<rparr>) (take i xs @ x # drop i xs)"
      using i len by (intro vec_repI [OF 2(2)]) simp_all
    then show thesis using 2(1,3) r(5) vec_repD(3) [OF rep] i len ens
      by (intro that(2)) (auto simp: vec_insert_def Let_def)
  qed
qed

lemma vec_try_remove_rep:
  assumes rep: "vec_rep v xs"
  obtains v' where
    "vec_try_remove v i = Inr (if i < length xs then (Some (xs ! i), v') else (None, v))"
    "i < length xs \<Longrightarrow> vec_rep v' (take i xs @ drop (Suc i) xs)"
proof -
  note r = vec_repD [OF rep]
  let ?n = "length xs - i - 1"
  let ?v = "(v_set_mem v (move_slots (v_mem v) (i + 1) i ?n))\<lparr>v_len := length xs - 1\<rparr>"
  show thesis
  proof (rule that [of ?v])
    show "vec_try_remove v i = Inr (if i < length xs then (Some (xs ! i), ?v) else (None, v))"
      using r by (auto simp: vec_try_remove_def Let_def)
    assume i: "i < length xs"
    have "segment (move_slots (v_mem v) (i + 1) i ?n) 0 (take i xs @ drop (Suc i) xs)"
      using i r(4,5,9) by (auto simp: segment_def nth_delete nth_move_slots)
    then show "vec_rep ?v (take i xs @ drop (Suc i) xs)"
      using i r(4,5) by (intro vec_repI [OF rep]) auto
  qed
qed

lemma vec_swap_remove_rep:
  assumes rep: "vec_rep v xs" and i: "i < length xs"
  obtains v' where "vec_swap_remove v i = Inr (xs ! i, v')"
    "vec_rep v' (butlast (xs[i := List.last xs]))"
proof -
  note r = vec_repD [OF rep]
  let ?m = "move_slots (v_mem v) (length xs - 1) i 1"
  let ?v = "(v_set_mem v ?m)\<lparr>v_len := length xs - 1\<rparr>"
  have last: "List.last xs = xs ! (length xs - 1)" using i by (intro last_conv_nth) auto
  have "segment ?m 0 (butlast (xs[i := List.last xs]))"
    using i r(4,5,9) by (auto simp: segment_def nth_butlast nth_move_slots nth_list_update last)
  then have "vec_rep ?v (butlast (xs[i := List.last xs]))"
    using i r(4,5) by (intro vec_repI [OF rep]) auto
  moreover have "vec_swap_remove v i = Inr (xs ! i, ?v)"
    using i r by (auto simp: vec_swap_remove_def Let_def)
  ultimately show thesis using that by blast
qed

section \<open>Many elements\<close>

lemma drop_slot_segment: "segment m p xs \<Longrightarrow> i < length xs \<Longrightarrow>
    drop_slot m (p + i) = Inr (xs ! i, m[p + i := None])"
  by (simp add: drop_slot_def segment_def)

lemma drop_range_segment:
  assumes "segment m p xs"
  shows "drop_range m p (length xs) =
    Inr (xs, take p m @ replicate (length xs) None @ drop (p + length xs) m)"
  using segment_slice [OF assms] by (simp add: drop_range_def)

lemma vec_truncate_rep:
  assumes rep: "vec_rep v xs"
  obtains v' where "vec_truncate v n = Inr (drop n xs, v')" "vec_rep v' (take n xs)"
proof (cases "length xs < n")
  case True
  then show thesis using that [of v] rep vec_repD(3) [OF rep] by (simp add: vec_truncate_def Let_def)
next
  case False
  note r = vec_repD [OF rep]
  have seg: "segment (v_mem v) n (drop n xs)"
    using segment_drop [OF r(7), of n] False by simp
  let ?m = "take n (v_mem v) @ replicate (length xs - n) None @ drop (length xs) (v_mem v)"
  have "segment ?m 0 (take n xs)"
    using False r(4,5,9) by (auto simp: segment_def nth_append)
  then have "vec_rep ((v_set_mem v ?m)\<lparr>v_len := n\<rparr>) (take n xs)"
    using False r(4,5) by (intro vec_repI [OF rep]) auto
  moreover have "vec_truncate v n = Inr (drop n xs, (v_set_mem v ?m)\<lparr>v_len := n\<rparr>)"
    using False r(3) drop_range_segment [OF seg] by (simp add: vec_truncate_def Let_def)
  ultimately show thesis using that by blast
qed

lemma vec_clear_rep:
  assumes rep: "vec_rep v xs"
  obtains v' where "vec_clear v = Inr (xs, v')" "vec_rep v' []"
proof -
  note r = vec_repD [OF rep]
  let ?m = "replicate (length xs) None @ drop (length xs) (v_mem v)"
  have "vec_rep ((v_set_mem v ?m)\<lparr>v_len := 0\<rparr>) []"
    using r(4,5) by (intro vec_repI [OF rep]) auto
  moreover have "vec_clear v = Inr (xs, (v_set_mem v ?m)\<lparr>v_len := 0\<rparr>)"
    using r(3) drop_range_segment [OF r(7)] by (simp add: vec_clear_def Let_def)
  ultimately show thesis using that by blast
qed

lemma append_elements_cases:
  assumes rep: "vec_rep v xs"
  obtains "reserve_fails (append_elements v ys)"
  | v' where "append_elements v ys = Inr v'" "vec_rep v' (xs @ ys)"
proof -
  from vec_reserve_cases [OF rep, of "length ys"] show thesis
  proof cases
    case 1
    then show thesis by (intro that(1)) (simp add: append_elements_def reserve_fails_and_then Let_def)
  next
    case (2 w)
    note r = vec_repD [OF 2(2)]
    have fit: "length xs + length ys \<le> length (v_mem w)" using 2(3) r(5) by simp
    note c = segment_copy_from [OF fit]
    have "vec_rep ((v_set_mem w (take (length xs) (v_mem w) @ map Some ys @
        drop (length xs + length ys) (v_mem w)))\<lparr>v_len := length xs + length ys\<rparr>) (xs @ ys)"
      using c(2) c(3) [of 0 xs] r(5,7) fit by (intro vec_repI [OF 2(2)]) (auto simp: segment_append)
    then show thesis using 2(1) c(1) r(3) by (intro that(2)) (auto simp: append_elements_def Let_def)
  qed
qed

lemma vec_append_cases:
  assumes rep: "vec_rep v xs" and rep': "vec_rep w ys"
  obtains "reserve_fails (vec_append v w)"
  | v' w' where "vec_append v w = Inr (v', w')" "vec_rep v' (xs @ ys)" "vec_rep w' []"
proof -
  have w': "vec_rep (w\<lparr>v_len := 0\<rparr>) []" using vec_rep_len [OF rep', of 0] by simp
  from append_elements_cases [OF rep, of ys] show thesis
  proof cases
    case 1
    then show thesis
      by (intro that(1)) (simp add: vec_append_def as_slice_rep [OF rep'] reserve_fails_and_then)
  next
    case (2 v')
    then show thesis
      using w' by (intro that(2)) (simp_all add: vec_append_def as_slice_rep [OF rep'])
  qed
qed

lemma vec_split_off_cases:
  fixes v :: "'a vec"
  assumes rep: "vec_rep v xs" and at: "at \<le> length xs"
  obtains "reserve_fails (vec_split_off v at)"
  | v' w where "vec_split_off v at = Inr (v', w)" "vec_rep v' (take at xs)" "vec_rep w (drop at xs)"
proof -
  note r = vec_repD [OF rep]
  let ?n = "length xs - at"
  have el: "layout_wf (rv_elem (v_buf v))" "lay_align (rv_elem (v_buf v)) dvd lay_size (rv_elem (v_buf v))"
    "lay_size (rv_elem (v_buf v)) > 0" using r(1,2) by (simp_all add: rv_inv_def)
  let ?run = "rv_with_capacity_in ?n (rv_alloc (v_buf v)) (rv_elem (v_buf v)) :: 'a raw_vec res"
  consider "reserve_fails ?run"
    | b where "?run = Inr b" "rv_inv b" "?n \<le> rv_cap b" "rv_elem b = rv_elem (v_buf v)"
    using rv_with_capacity_cases [OF el] by blast
  then show thesis
  proof cases
    case 1
    then show thesis using at r(3)
      by (intro that(1)) (simp add: vec_split_off_def vec_with_capacity_in_def reserve_fails_and_then Let_def)
  next
    case (2 b)
    let ?m = "map Some (drop at xs) @ drop ?n (rv_mem b)"
    let ?w = "(v_set_mem \<lparr>v_buf = b, v_len = 0\<rparr> ?m)\<lparr>v_len := ?n\<rparr>"
    have len: "length (rv_mem b) = rv_cap b" using 2(2) by (simp add: rv_inv_def)
    have src: "take ?n (drop at (v_mem v)) = map Some (drop at xs)"
      using at r(4,5,9) by (auto simp: list_eq_iff_nth_eq)
    have empty: "vec_rep \<lparr>v_buf = b, v_len = 0\<rparr> []"
      using 2(2,4) el(3) by (simp add: vec_rep_def vec_wf_def)
    have "vec_rep ?w (drop at xs)"
      using len 2(3) by (intro vec_repI [OF empty]) (auto simp: segment_def nth_append)
    moreover have "vec_split_off v at = Inr (v\<lparr>v_len := at\<rparr>, ?w)"
      using at r(3,4,5) 2(1,3) len src
      by (simp add: vec_split_off_def vec_with_capacity_in_def Let_def ptr_copy_from_def)
    ultimately show thesis using vec_rep_len [OF rep at] that(2) by blast
  qed
qed

lemma extend_writes_rep:
  assumes "vec_rep v xs" "length xs + n \<le> v_cap v"
  obtains v' where "extend_writes v n x = Inr v'" "vec_rep v' (xs @ replicate n x)"
  using assms
proof (induction n arbitrary: v xs thesis)
  case 0
  then show ?case by simp
next
  case (Suc n)
  note r = vec_repD [OF Suc.prems(2)]
  let ?v = "(v_set_mem v ((v_mem v)[length xs := Some x]))\<lparr>v_len := length xs + 1\<rparr>"
  have "vec_rep ?v (xs @ [x])"
    using r Suc.prems(3) by (intro vec_repI [OF Suc.prems(2)]) (auto simp: segment_snoc)
  moreover have "length (xs @ [x]) + n \<le> v_cap ?v" using Suc.prems(3) by simp
  ultimately obtain v' where "extend_writes ?v n x = Inr v'" "vec_rep v' ((xs @ [x]) @ replicate n x)"
    using Suc.IH by blast
  then show ?case using r(3,5) Suc.prems(3) by (intro Suc.prems(1)) auto
qed

lemma vec_resize_cases:
  assumes rep: "vec_rep v xs"
  obtains "reserve_fails (vec_resize v n x)" "length xs < n"
  | v' where "vec_resize v n x = Inr (drop n xs, v')" "vec_rep v' (take n xs @ replicate (n - length xs) x)"
proof (cases "length xs < n")
  case True
  note r = vec_repD [OF rep]
  from vec_reserve_cases [OF rep, of "n - length xs"] show thesis
  proof cases
    case 1
    then show thesis using True r(3)
      by (intro that(1)) (simp_all add: vec_resize_def extend_with_def and_then_assoc reserve_fails_and_then Let_def)
  next
    case (2 w)
    from extend_writes_rep [OF 2(2,3)] obtain v' where
      "extend_writes w (n - length xs) x = Inr v'" "vec_rep v' (xs @ replicate (n - length xs) x)" by blast
    then show thesis using True r(3) 2(1)
      by (intro that(2) [of v']) (simp_all add: vec_resize_def extend_with_def Let_def)
  qed
next
  case False
  obtain v' where "vec_truncate v n = Inr (drop n xs, v')" "vec_rep v' (take n xs)"
    using vec_truncate_rep [OF rep] by blast
  then show thesis
    using False vec_repD(3) [OF rep] by (intro that(2) [of v']) (simp_all add: vec_resize_def)
qed

lemma extend_from_within_cases:
  assumes rep: "vec_rep v xs" and range: "slice_range sb eb (length xs) = Inr (s, e)"
  obtains "reserve_fails (extend_from_within v sb eb)"
  | v' where "extend_from_within v sb eb = Inr v'" "vec_rep v' (xs @ take (e - s) (drop s xs))"
proof -
  note b = slice_range_Inr [OF range] and len = vec_repD(3) [OF rep]
  let ?ys = "take (e - s) (drop s xs)"
  from vec_reserve_cases [OF rep, of "e - s"] show thesis
  proof cases
    case 1
    then show thesis using range len
      by (intro that(1)) (simp add: extend_from_within_def reserve_fails_and_then)
  next
    case (2 w)
    note r = vec_repD [OF 2(2)]
    have ys: "length ?ys = e - s" using b by simp
    have "segment (v_mem w) s ?ys"
      using segment_take [OF segment_drop [OF r(7), of s], of "e - s"] b by simp
    from segment_slice [OF this] have src: "slice_at (v_mem w) s e = Inr ?ys"
      using b by simp
    have fit: "length xs + length ?ys \<le> length (v_mem w)" using 2(3) r(5) ys by simp
    note c = segment_copy_from [OF fit]
    have "vec_rep ((v_set_mem w (take (length xs) (v_mem w) @ map Some ?ys @
        drop (length xs + length ?ys) (v_mem w)))\<lparr>v_len := length xs + length ?ys\<rparr>) (xs @ ?ys)"
      using c(2) c(3) [of 0 xs] r(5,7) fit by (intro vec_repI [OF 2(2)]) (auto simp: segment_append)
    then show thesis using 2(1) c(1) r(3) range len src
      by (intro that(2)) (auto simp: extend_from_within_def Let_def)
  qed
qed


section \<open>Retaining\<close>

text \<open>What \<open>retain_mut\<close> does to a list: the elements kept and dropped until the closure panics,
  and the elements it never saw.\<close>

fun retain_list :: "('a \<Rightarrow> (bool \<times> 'a) option) \<Rightarrow> 'a list \<Rightarrow> bool \<times> 'a list \<times> 'a list \<times> 'a list" where
  "retain_list f [] = (False, [], [], [])"
| "retain_list f (x # xs) =
     (case f x of
        None \<Rightarrow> (True, [], [], x # xs)
      | Some (keep, y) \<Rightarrow>
          (case retain_list f xs of (unwinds, ks, ds, rest) \<Rightarrow>
            if keep then (unwinds, y # ks, ds, rest) else (unwinds, ks, y # ds, rest)))"

lemma retain_list_total:
  assumes "\<And>x. x \<in> set xs \<Longrightarrow> f x = Some (g x)"
  shows "retain_list f xs =
    (False, map (snd \<circ> g) (filter (fst \<circ> g) xs), map (snd \<circ> g) (filter (\<lambda>x. \<not> fst (g x)) xs), [])"
  using assms by (induction xs) (auto split: prod.splits)

lemma retain_list_rest:
  "retain_list f xs = (unwinds, ks, ds, rest) \<Longrightarrow>
    length ks + length ds + length rest = length xs \<and> (unwinds \<longleftrightarrow> rest \<noteq> []) \<and>
    rest = drop (length xs - length rest) xs"
proof (induction xs arbitrary: ks ds)
  case (Cons x xs)
  then show ?case
    by (cases "retain_list f xs")
      (auto split: option.splits if_splits prod.splits simp: Suc_diff_le)
qed auto

text \<open>The critical section, from a state in which \<open>ks\<close> are in place, and \<open>ys\<close> are unread.\<close>

lemma retain_loop_correct:
  assumes "retain_list f ys = (unwinds, ks', ds', rest)"
    and "segment m 0 ks" "length ks < read" "segment m read ys" "read + length ys = n"
  shows "\<exists>m'. retain_loop f m n read (length ks) ds =
      Inr (unwinds, n - length rest, length ks + length ks', ds @ ds', m') \<and>
    segment m' 0 (ks @ ks') \<and> segment m' (n - length rest) rest \<and> length m' = length m"
  using assms
proof (induction ys arbitrary: m ks read ds ks' ds' unwinds rest)
  case Nil
  then show ?case by (simp add: retain_loop.simps)
next
  case (Cons y ys)
  have read: "read < n" "ptr_read m read = Inr y" "segment m (Suc read) ys" "read < length m"
    "m ! read = Some y" using Cons.prems(4,5) by (auto simp: segment_Cons)
  show ?case
  proof (cases "f y")
    case None
    then show ?thesis
      using Cons.prems read by (subst retain_loop.simps) (auto simp: segment_append)
  next
    case (Some p)
    obtain keep z where p: "p = (keep, z)" by (cases p)
    obtain u ks2 ds2 rest2 where rec: "retain_list f ys = (u, ks2, ds2, rest2)" by (cases "retain_list f ys")
    let ?m = "m[read := Some z]"
    show ?thesis
    proof (cases keep)
      case False
      have e: "unwinds = u" "ks' = ks2" "ds' = z # ds2" "rest = rest2"
        using Cons.prems(1) Some p rec False by simp_all
      let ?m' = "?m[read := None]"
      have drop: "drop_slot ?m read = Inr (z, ?m')" using read(4) by (simp add: drop_slot_def)
      obtain m' where m': "retain_loop f ?m' n (Suc read) (length ks) (ds @ [z]) =
          Inr (u, n - length rest2, length ks + length ks2, (ds @ [z]) @ ds2, m')"
        "segment m' 0 (ks @ ks2)" "segment m' (n - length rest2) rest2" "length m' = length ?m'"
        using Cons.IH [OF rec, of ?m' ks "Suc read" "ds @ [z]"] Cons.prems(2,3,5) read(3) by auto
      then show ?thesis
        using read Some p False e drop by (subst retain_loop.simps) (simp add: Let_def)
    next
      case True
      have e: "unwinds = u" "ks' = z # ks2" "ds' = ds2" "rest = rest2"
        using Cons.prems(1) Some p rec True by simp_all
      let ?m' = "move_slots ?m read (length ks) 1"
      have bounds: "read + 1 \<le> length ?m" "length ks + 1 \<le> length ?m" "length ks + 1 \<le> read"
        using read(4) Cons.prems(3) by auto
      have seg: "segment ?m' 0 (ks @ [z])" "segment ?m' (Suc read) ys"
        using Cons.prems(2,3) read(3,4) bounds
        by (auto simp: segment_snoc nth_move_slots intro!: segment_move_other)
      obtain m' where m': "retain_loop f ?m' n (Suc read) (length (ks @ [z])) ds =
          Inr (u, n - length rest2, length (ks @ [z]) + length ks2, ds @ ds2, m')"
        "segment m' 0 ((ks @ [z]) @ ks2)" "segment m' (n - length rest2) rest2" "length m' = length ?m'"
        using Cons.IH [OF rec seg(1) _ seg(2), of ds] Cons.prems(3,5) by auto
      then show ?thesis
        using read Some p True e bounds by (subst retain_loop.simps) (simp add: Let_def)
    qed
  qed
qed

text \<open>The first loop, and what it does to the list.\<close>

fun scan_list :: "('a \<Rightarrow> (bool \<times> 'a) option) \<Rightarrow> 'a list \<Rightarrow> usize \<Rightarrow> retain_exit \<times> 'a list" where
  "scan_list f [] i = (AllKept, [])"
| "scan_list f (x # xs) i =
     (case f x of
        None \<Rightarrow> (ScanPanicked, x # xs)
      | Some (keep, y) \<Rightarrow>
          if \<not> keep then (FirstRejected i, y # xs)
          else (case scan_list f xs (i + 1) of (e, zs) \<Rightarrow> (e, y # zs)))"

lemma retain_scan_correct:
  assumes "scan_list f ys (length ks) = (e, zs)" "segment m 0 (ks @ ys)" "n = length (ks @ ys)" "ys \<noteq> []"
  shows "\<exists>m'. retain_scan f m n (length ks) = Inr (e, m') \<and> segment m' 0 (ks @ zs) \<and>
    length m' = length m"
  using assms
proof (induction ys arbitrary: m ks zs e)
  case (Cons y ys)
  have read: "length ks < length m" "m ! length ks = Some y" "segment m (Suc (length ks)) ys"
    "segment m 0 ks" "length ks < n"
    using Cons.prems(2,3) by (auto simp: segment_append segment_Cons)
  show ?case
  proof (cases "f y")
    case None
    then show ?thesis
      using Cons.prems read by (subst retain_scan.simps) (auto simp: segment_append)
  next
    case (Some p)
    obtain keep z where p: "p = (keep, z)" by (cases p)
    let ?m = "m[length ks := Some z]"
    have seg: "segment ?m 0 ((ks @ [z]) @ ys)" using read by (simp add: segment_append segment_Cons)
    show ?thesis
    proof (cases "keep \<and> ys \<noteq> []")
      case True
      obtain e2 zs2 where rec: "scan_list f ys (length (ks @ [z])) = (e2, zs2)"
        by (cases "scan_list f ys (length (ks @ [z]))")
      obtain m' where m': "retain_scan f ?m n (length (ks @ [z])) = Inr (e2, m')"
        "segment m' 0 ((ks @ [z]) @ zs2)" "length m' = length ?m"
        using Cons.IH [OF rec seg] Cons.prems(3) True by auto
      have "length ks + 1 \<noteq> n" using True Cons.prems(3) by (cases ys) auto
      with m' rec Some p True read Cons.prems(1) show ?thesis
        by (subst retain_scan.simps) (auto simp: Let_def)
    next
      case False
      then show ?thesis
        using Some p read Cons.prems(1,3) seg
        by (subst retain_scan.simps) (auto simp: Let_def)
    qed
  qed
qed simp

lemma scan_list_retain:
  assumes "scan_list f xs i = (e, zs)"
  shows "case e of
      AllKept \<Rightarrow> retain_list f xs = (False, zs, [], [])
    | ScanPanicked \<Rightarrow> \<exists>ks rest. retain_list f xs = (True, ks, [], rest) \<and> zs = ks @ rest
    | FirstRejected j \<Rightarrow> \<exists>ks z ys u ks' ds rest. zs = ks @ z # ys \<and> j = i + length ks \<and>
        length zs = length xs \<and>
        retain_list f ys = (u, ks', ds, rest) \<and> retain_list f xs = (u, ks @ ks', z # ds, rest)"
  using assms
proof (induction xs arbitrary: i zs e)
  case (Cons x xs)
  show ?case
  proof (cases "f x")
    case (Some p)
    obtain keep z where p: "p = (keep, z)" by (cases p)
    show ?thesis
    proof (cases keep)
      case True
      obtain e2 zs2 where rec: "scan_list f xs (i + 1) = (e2, zs2)" by (cases "scan_list f xs (i + 1)")
      with Cons.prems Some p True have e: "e = e2" "zs = z # zs2" by auto
      show ?thesis
      proof (cases e2)
        case (FirstRejected j)
        with Cons.IH [OF rec] obtain ks w ys u ks' ds rest where
          "zs2 = ks @ w # ys" "j = i + 1 + length ks" "length zs2 = length xs"
          "retain_list f ys = (u, ks', ds, rest)" "retain_list f xs = (u, ks @ ks', w # ds, rest)"
          by auto
        with e FirstRejected Some p True show ?thesis
          by (auto intro!: exI [of _ "z # ks"])
      qed (use Cons.IH [OF rec] e Some p True in auto)
    next
      case False
      obtain u ks' ds rest where "retain_list f xs = (u, ks', ds, rest)" by (cases "retain_list f xs")
      with Cons.prems Some p False show ?thesis by (auto intro!: exI [of _ "[]"])
    qed
  qed (use Cons.prems in auto)
qed simp

lemma vec_retain_mut_rep:
  assumes rep: "vec_rep v xs" and ref: "retain_list f xs = (unwinds, ks, ds, rest)"
  obtains v' where "vec_retain_mut v f = Inr (unwinds, ds, v')" "vec_rep v' (ks @ rest)"
proof (cases "xs = []")
  case True
  then show thesis using that [of v] rep ref vec_repD(3) [OF rep] by (simp add: vec_retain_mut_def)
next
  case False
  note r = vec_repD [OF rep]
  obtain e zs where scan: "scan_list f xs 0 = (e, zs)" by (cases "scan_list f xs 0")
  obtain m where m: "retain_scan f (v_mem v) (length xs) 0 = Inr (e, m)" "segment m 0 zs" "length m = v_cap v"
    using retain_scan_correct [of f xs "[]" e zs "v_mem v" "length xs"] scan r(5,7) False by auto
  note sl = scan_list_retain [OF scan]
  show thesis
  proof (cases e)
    case AllKept
    then show thesis
      using sl ref False r(3) m vec_repI_same [OF rep m(3,2)] retain_list_rest [OF ref]
      by (intro that [of "v_set_mem v m"]) (auto simp: vec_retain_mut_def)
  next
    case ScanPanicked
    with sl ref have zs: "zs = ks @ rest" "unwinds" "ds = []" by auto
    then show thesis
      using ScanPanicked False r(3) m vec_repI_same [OF rep m(3,2)] retain_list_rest [OF ref]
      by (intro that [of "v_set_mem v m"]) (auto simp: vec_retain_mut_def)
  next
    case (FirstRejected j)
    with sl ref obtain ks1 z ys ks' ds' where
      zs: "zs = ks1 @ z # ys" "j = length ks1" "length zs = length xs"
      "retain_list f ys = (unwinds, ks', ds', rest)" "ks = ks1 @ ks'" "ds = z # ds'"
      by auto
    let ?m = "m[j := None]" and ?n = "length xs"
    have pieces: "segment m 0 ks1" "m ! j = Some z" "j < length m" "segment m (Suc j) ys"
      using m(2) zs(1,2) by (auto simp: segment_append segment_Cons)
    have drop: "drop_slot m j = Inr (z, ?m)" using pieces by (simp add: drop_slot_def)
    have n: "j + 1 + length ys = ?n" using zs(1-3) by simp
    have seg: "segment ?m 0 ks1" "segment ?m (j + 1) ys" using pieces zs(2) by auto
    obtain m' where m': "retain_loop f ?m ?n (j + 1) (length ks1) [z] =
        Inr (unwinds, ?n - length rest, length ks1 + length ks', [z] @ ds', m')"
      "segment m' 0 (ks1 @ ks')" "segment m' (?n - length rest) rest" "length m' = length ?m"
      using retain_loop_correct [OF zs(4) seg(1) _ seg(2) n, of "[z]"] zs(2) by auto
    have len: "length m' = v_cap v" using m'(4) m(3) by simp
    have rest: "length ks' + length ds' + length rest = length ys" "unwinds \<longleftrightarrow> rest \<noteq> []"
      using retain_list_rest [OF zs(4)] by auto
    show thesis
    proof (cases unwinds)
      case True
      let ?m'' = "move_slots m' (?n - length rest) (length ks) (length rest)"
      have b: "?n - length rest + length rest \<le> length m'" "length ks + length rest \<le> length m'"
        using n rest(1) r(4) len zs(2,5) by auto
      have "segment ?m'' 0 (ks @ rest)"
        using m'(2,3) zs(5) b by (auto simp: segment_append intro!: segment_move_other segment_move)
      then have "vec_rep ((v_set_mem v ?m'')\<lparr>v_len := length ks + length rest\<rparr>) (ks @ rest)"
        using b len by (intro vec_repI [OF rep]) auto
      then show thesis
        using True FirstRejected False r(3) m(1) m' zs(2,5,6) drop b n rest(1)
        by (intro that) (auto simp: vec_retain_mut_def retain_guard_def Let_def)
    next
      case False': False
      then have "vec_rep ((v_set_mem v m')\<lparr>v_len := length ks\<rparr>) (ks @ rest)"
        using m'(2) zs(5) len rest(2) by (intro vec_repI [OF rep]) auto
      then show thesis
        using False' FirstRejected False r(3) m(1) m' zs(2,5,6) drop
        by (intro that) (auto simp: vec_retain_mut_def Let_def)
    qed
  qed
qed

section \<open>Removing duplicates\<close>

text \<open>Kept and dropped elements when the last element kept is \<open>prev\<close>.\<close>

fun dedup_list :: "('a \<Rightarrow> 'a \<Rightarrow> bool) \<Rightarrow> 'a \<Rightarrow> 'a list \<Rightarrow> 'a list \<times> 'a list" where
  "dedup_list same prev [] = ([], [])"
| "dedup_list same prev (x # xs) =
     (if same x prev then (case dedup_list same prev xs of (ks, ds) \<Rightarrow> (ks, x # ds))
      else (case dedup_list same x xs of (ks, ds) \<Rightarrow> (x # ks, ds)))"

lemma dedup_list_eq: "prev # fst (dedup_list (=) prev xs) = remdups_adj (prev # xs)"
  by (induction xs arbitrary: prev) (auto simp: case_prod_beta)

lemma dedup_list_mset:
  "dedup_list same prev xs = (ks, ds) \<Longrightarrow> mset ks + mset ds = mset xs"
  by (induction xs arbitrary: prev ks ds) (auto split: if_splits prod.splits)

lemma dedup_scan_correct:
  assumes "segment m 0 (ks @ prev # ys)" "n = length (ks @ prev # ys)"
  shows "\<exists>zs ws. ys = zs @ ws \<and>
    dedup_scan same m n (length ks + 1) = Inr (length ks + 1 + length zs) \<and>
    (ws = [] \<and> dedup_list same prev ys = (zs, []) \<or>
     (\<exists>w us ks' ds. ws = w # us \<and> dedup_list same (List.last (prev # zs)) us = (ks', ds) \<and>
       dedup_list same prev ys = (zs @ ks', w # ds)))"
  using assms
proof (induction ys arbitrary: ks prev)
  case Nil
  then show ?case by (simp add: dedup_scan.simps)
next
  case (Cons y ys)
  have read: "length ks + 1 < n" "ptr_read m (length ks + 1) = Inr y" "ptr_read m (length ks) = Inr prev"
    using Cons.prems by (auto simp: segment_append segment_Cons)
  show ?case
  proof (cases "same y prev")
    case True
    obtain ks' ds where "dedup_list same prev ys = (ks', ds)" by (cases "dedup_list same prev ys")
    with True read show ?thesis
      by (intro exI [of _ "[]"] exI [of _ "y # ys"]) (simp add: dedup_scan.simps)
  next
    case False
    obtain zs ws where rec: "ys = zs @ ws"
      "dedup_scan same m n (length (ks @ [prev]) + 1) = Inr (length (ks @ [prev]) + 1 + length zs)"
      "ws = [] \<and> dedup_list same y ys = (zs, []) \<or>
       (\<exists>w us ks' ds. ws = w # us \<and> dedup_list same (List.last (y # zs)) us = (ks', ds) \<and>
         dedup_list same y ys = (zs @ ks', w # ds))"
      using Cons.IH [of "ks @ [prev]" y] Cons.prems unfolding append.assoc append_Cons append_Nil by blast
    have "dedup_scan same m n (length ks + 1) = Inr (length ks + 1 + length (y # zs))"
      using rec(2) read False by (subst dedup_scan.simps) simp
    with rec(1,3) False show ?thesis
      by (intro exI [of _ "y # zs"] exI [of _ ws]) auto
  qed
qed

lemma dedup_loop_correct:
  assumes "dedup_list same p ys = (ks', ds')"
    and "segment m 0 (ks @ [p])" "length ks + 1 < read" "segment m read ys" "read + length ys = n"
  shows "\<exists>m'. dedup_loop same m n read (length ks + 1) ds =
      Inr (length ks + 1 + length ks', ds @ ds', m') \<and>
    segment m' 0 (ks @ p # ks') \<and> length m' = length m"
  using assms
proof (induction ys arbitrary: m ks p read ds ks' ds')
  case Nil
  then show ?case by (simp add: dedup_loop.simps)
next
  case (Cons y ys)
  have read: "read < n" "ptr_read m read = Inr y" "segment m (Suc read) ys" "read < length m"
    "m ! read = Some y" "ptr_read m (length ks) = Inr p"
    using Cons.prems(2,4,5) by (auto simp: segment_Cons segment_append)
  show ?case
  proof (cases "same y p")
    case True
    obtain ks2 ds2 where rec: "dedup_list same p ys = (ks2, ds2)" by (cases "dedup_list same p ys")
    let ?m = "m[read := None]"
    have "segment ?m 0 (ks @ [p])" "segment ?m (Suc read) ys"
      using Cons.prems(2,3) read(3) by auto
    from Cons.IH [OF rec this(1) _ this(2), of "ds @ [y]"] Cons.prems(3,5) obtain m' where
      "dedup_loop same ?m n (Suc read) (length ks + 1) (ds @ [y]) =
        Inr (length ks + 1 + length ks2, (ds @ [y]) @ ds2, m')"
      "segment m' 0 (ks @ p # ks2)" "length m' = length ?m" by auto
    then show ?thesis
      using read True rec Cons.prems(1) by (subst dedup_loop.simps) (auto simp: drop_slot_def)
  next
    case False
    obtain ks2 ds2 where rec: "dedup_list same y ys = (ks2, ds2)" by (cases "dedup_list same y ys")
    let ?m = "move_slots m read (length ks + 1) 1"
    have bounds: "read + 1 \<le> length m" "length ks + 1 + 1 \<le> length m" "length ks + 1 + 1 \<le> read"
      using read(4) Cons.prems(3) by auto
    have "segment ?m 0 ((ks @ [p]) @ [y])" "segment ?m (Suc read) ys"
      using Cons.prems(2,3) read(3-5) bounds
      by (auto simp: segment_append segment_Cons nth_move_slots intro!: segment_move_other)
    from Cons.IH [OF rec this(1) _ this(2), of ds] Cons.prems(3,5) obtain m' where
      "dedup_loop same ?m n (Suc read) (length (ks @ [p]) + 1) ds =
        Inr (length (ks @ [p]) + 1 + length ks2, ds @ ds2, m')"
      "segment m' 0 ((ks @ [p]) @ y # ks2)" "length m' = length ?m" by auto
    then show ?thesis
      using read False rec Cons.prems(1) bounds by (subst dedup_loop.simps) auto
  qed
qed

lemma dedup_by_rep:
  assumes rep: "vec_rep v (x # xs)" and ref: "dedup_list same x xs = (ks, ds)"
  obtains v' where "dedup_by v same = Inr (ds, v')" "vec_rep v' (x # ks)"
proof (cases "xs = []")
  case True
  then show thesis using that [of v] rep ref vec_repD(3) [OF rep] by (simp add: dedup_by_def)
next
  case False
  note r = vec_repD [OF rep]
  let ?n = "length (x # xs)"
  have len: "\<not> ?n \<le> 1" using False by (cases xs) auto
  obtain zs ws where scan: "xs = zs @ ws" "dedup_scan same (v_mem v) ?n 1 = Inr (1 + length zs)"
    "ws = [] \<and> dedup_list same x xs = (zs, []) \<or>
     (\<exists>w us ks' ds. ws = w # us \<and> dedup_list same (List.last (x # zs)) us = (ks', ds) \<and>
       dedup_list same x xs = (zs @ ks', w # ds))"
  proof -
    have "segment (v_mem v) 0 ([] @ x # xs)" using r(7) by simp
    from dedup_scan_correct [OF this refl, of same] obtain zs ws where
      "xs = zs @ ws" "dedup_scan same (v_mem v) ?n 1 = Inr (1 + length zs)"
      "ws = [] \<and> dedup_list same x xs = (zs, []) \<or>
       (\<exists>w us ks' ds. ws = w # us \<and> dedup_list same (List.last (x # zs)) us = (ks', ds) \<and>
         dedup_list same x xs = (zs @ ks', w # ds))"
      unfolding append_Nil list.size(3) add_0 by blast
    then show thesis by (rule that)
  qed
  show thesis
  proof (cases ws)
    case Nil
    then show thesis
      using that [of v] scan ref rep r(3) len by (auto simp: dedup_by_def Let_def)
  next
    case (Cons w us)
    then obtain ks' ds' where t: "dedup_list same (List.last (x # zs)) us = (ks', ds')"
      "ks = zs @ ks'" "ds = w # ds'" using scan(3) ref by auto
    let ?j = "1 + length zs"
    obtain b p where bp: "x # zs = b @ [p]" by (metis list.discI rev_exhaust)
    have lb: "length b = length zs" using arg_cong [OF bp, of length] by simp
    have lp: "List.last (x # zs) = p" by (simp only: bp last_snoc)
    have "x # xs = (b @ [p]) @ w # us" using scan(1) Cons by (simp flip: bp)
    then have "segment (v_mem v) 0 ((b @ [p]) @ w # us)" using r(7) by simp
    then have pieces: "segment (v_mem v) 0 (b @ [p])" "v_mem v ! ?j = Some w" "?j < length (v_mem v)"
      "segment (v_mem v) (Suc ?j) us"
      unfolding segment_append [of _ _ "b @ [p]"] by (simp_all add: segment_Cons lb)
    let ?m = "(v_mem v)[?j := None]"
    have seg: "segment ?m 0 (b @ [p])" "segment ?m (?j + 1) us"
      using pieces lb by auto
    have n: "?j + 1 + length us = ?n" using scan(1) Cons by simp
    obtain m' where m': "dedup_loop same ?m ?n (?j + 1) (length b + 1) [w] =
        Inr (length b + 1 + length ks', [w] @ ds', m')"
      "segment m' 0 (b @ p # ks')" "length m' = length ?m"
      using dedup_loop_correct [OF t(1) [unfolded lp] seg(1) _ seg(2) n, of "[w]"] lb by auto
    have "b @ p # ks' = x # ks" using bp t(2) by (metis append.assoc append_Cons append_Nil)
    then have "segment m' 0 (x # ks)" using m'(2) by simp
    then have "vec_rep ((v_set_mem v m')\<lparr>v_len := ?j + length ks'\<rparr>) (x # ks)"
      using m'(3) r(5) t(2) by (intro vec_repI [OF rep]) auto
    moreover have "dedup_by v same = Inr (ds, (v_set_mem v m')\<lparr>v_len := ?j + length ks'\<rparr>)"
      using len r(3) scan(2) Cons scan(1) pieces(2,3) m'(1) lb t(3)
      by (simp add: dedup_by_def drop_slot_def)
    ultimately show thesis using that by blast
  qed
qed

section \<open>Draining\<close>

text \<open>\<open>drain_rep d hd mid tl\<close>: before the hole \<open>hd\<close>, still to be yielded \<open>mid\<close>, after it \<open>tl\<close>.\<close>

definition drain_rep :: "'a drain \<Rightarrow> 'a list \<Rightarrow> 'a list \<Rightarrow> 'a list \<Rightarrow> bool" where
  "drain_rep d hs ms ts \<longleftrightarrow> vec_rep (dr_vec d) hs \<and> segment (v_mem (dr_vec d)) (dr_start d) ms \<and>
     dr_end d = dr_start d + length ms \<and> length hs \<le> dr_start d \<and> dr_end d \<le> dr_tail_start d \<and>
     segment (v_mem (dr_vec d)) (dr_tail_start d) ts \<and> dr_tail_len d = length ts"

lemma vec_drain_rep:
  assumes rep: "vec_rep v xs" and range: "slice_range sb eb (length xs) = Inr (s, e)"
  obtains d where "vec_drain v sb eb = Inr d"
    "drain_rep d (take s xs) (take (e - s) (drop s xs)) (drop e xs)"
proof -
  note r = vec_repD [OF rep] and b = slice_range_Inr [OF range]
  let ?d = "\<lparr>dr_vec = v\<lparr>v_len := s\<rparr>, dr_start = s, dr_end = e, dr_tail_start = e,
    dr_tail_len = length xs - e\<rparr>"
  have "segment (v_mem v) s (take (e - s) (drop s xs))" "segment (v_mem v) e (drop e xs)"
    using segment_take [OF segment_drop [OF r(7), of s], of "e - s"] segment_drop [OF r(7), of e] b
    by simp_all
  then have "drain_rep ?d (take s xs) (take (e - s) (drop s xs)) (drop e xs)"
    using vec_rep_len [OF rep, of s] b by (simp add: drain_rep_def)
  moreover have "vec_drain v sb eb = Inr ?d" using range r(3) by (simp add: vec_drain_def)
  ultimately show thesis using that by blast
qed

lemma drain_next_rep:
  assumes "drain_rep d hs ms ts"
  shows "drain_next d = Inr (if ms = [] then (None, d) else (Some (hd ms), d\<lparr>dr_start := dr_start d + 1\<rparr>))"
    and "ms \<noteq> [] \<Longrightarrow> drain_rep (d\<lparr>dr_start := dr_start d + 1\<rparr>) hs (tl ms) ts"
  using assms by (cases ms; auto simp: drain_rep_def drain_next_def segment_Cons)+

lemma drain_next_back_rep:
  assumes "drain_rep d hs ms ts"
  shows "drain_next_back d =
      Inr (if ms = [] then (None, d) else (Some (List.last ms), d\<lparr>dr_end := dr_end d - 1\<rparr>))"
    and "ms \<noteq> [] \<Longrightarrow> drain_rep (d\<lparr>dr_end := dr_end d - 1\<rparr>) hs (butlast ms) ts"
  using assms
  by (cases ms rule: rev_cases; auto simp: drain_rep_def drain_next_back_def segment_append segment_Cons)+

text \<open>The guard moves the tail back, whatever the slots in between hold.\<close>

lemma drain_guard_rep:
  assumes "vec_rep (dr_vec d) hs" "length m = v_cap (dr_vec d)" "segment m 0 hs"
    and "segment m (dr_tail_start d) ts" "dr_tail_len d = length ts" "length hs \<le> dr_tail_start d"
  obtains v where "drain_guard d m = Inr v" "vec_rep v (hs @ ts)"
proof -
  let ?m = "move_slots m (dr_tail_start d) (length hs) (length ts)"
  have b: "dr_tail_start d + length ts \<le> length m" "length hs + length ts \<le> length m"
    using segmentD(1) [OF assms(4)] assms(6) by auto
  have "segment ?m 0 (hs @ ts)"
    using assms(3,4) b by (auto simp: segment_append intro!: segment_move_other segment_move)
  then have rep: "vec_rep ((v_set_mem (dr_vec d) ?m)\<lparr>v_len := length hs + length ts\<rparr>) (hs @ ts)"
    using assms(2) b by (intro vec_repI [OF assms(1)]) auto
  have rep0: "vec_rep (v_set_mem (dr_vec d) m) hs"
    using vec_repI_same [OF assms(1,2,3)] by simp
  have repe: "vec_rep ((v_set_mem (dr_vec d) m)\<lparr>v_len := length hs + length ts\<rparr>) (hs @ ts)"
    if "dr_tail_start d = length hs"
    using that assms(2-4) by (intro vec_repI [OF assms(1)]) (auto simp: segment_append)
  note len = vec_repD(3) [OF assms(1)]
  consider "ts = []" | "ts \<noteq> []" "dr_tail_start d = length hs" | "ts \<noteq> []" "dr_tail_start d \<noteq> length hs"
    by blast
  then show thesis
  proof cases
    case 1
    then show thesis using that [of "v_set_mem (dr_vec d) m"] rep0 assms(5) by (simp add: drain_guard_def)
  next
    case 2
    then show thesis using that [OF _ repe] assms(5) len by (simp add: drain_guard_def)
  next
    case 3
    then show thesis using that [OF _ rep] assms(5) len b by (simp add: drain_guard_def Let_def)
  qed
qed

lemma drain_drop_rep:
  assumes "drain_rep d hs ms ts"
  obtains v where "drain_drop d = Inr (ms, v)" "vec_rep v (hs @ ts)"
proof -
  let ?mem = "v_mem (dr_vec d)"
  let ?m = "take (dr_start d) ?mem @ replicate (length ms) None @ drop (dr_start d + length ms) ?mem"
  have d: "vec_rep (dr_vec d) hs" "segment ?mem (dr_start d) ms" "dr_end d = dr_start d + length ms"
    "length hs \<le> dr_start d" "dr_start d + length ms \<le> dr_tail_start d" "segment ?mem (dr_tail_start d) ts"
    "dr_tail_len d = length ts" using assms by (auto simp: drain_rep_def)
  note r = vec_repD [OF d(1)] and bm = segmentD(1) [OF d(2)]
  have m: "length ?m = v_cap (dr_vec d)" "segment ?m 0 hs" "segment ?m (dr_tail_start d) ts"
    using bm r(5,9) d(4-6) by (auto simp: segment_def nth_append)
  show thesis
  proof (cases "ms = []")
    case True
    obtain v where "drain_guard d ?mem = Inr v" "vec_rep v (hs @ ts)"
      using drain_guard_rep [OF d(1) r(5) r(7) d(6,7)] d(4,5) by auto
    with True d(3) that [of v] show thesis by (simp add: drain_drop_def)
  next
    case False
    obtain v where "drain_guard d ?m = Inr v" "vec_rep v (hs @ ts)"
      using drain_guard_rep [OF d(1) m d(7)] d(4,5) by auto
    with False d(3) drop_range_segment [OF d(2)] that [of v] show thesis
      by (simp add: drain_drop_def)
  qed
qed

lemma drain_keep_rest_rep:
  assumes "drain_rep d hs ms ts"
  obtains v where "drain_keep_rest d = Inr v" "vec_rep v (hs @ ms @ ts)"
proof -
  let ?mem = "v_mem (dr_vec d)" and ?s = "length hs" and ?e = "length hs + length ms"
  have d: "vec_rep (dr_vec d) hs" "segment ?mem (dr_start d) ms" "dr_end d = dr_start d + length ms"
    "?s \<le> dr_start d" "dr_start d + length ms \<le> dr_tail_start d" "segment ?mem (dr_tail_start d) ts"
    "dr_tail_len d = length ts" using assms by (auto simp: drain_rep_def)
  note r = vec_repD [OF d(1)] and bm = segmentD(1) [OF d(2)] and bt = segmentD(1) [OF d(6)]
  let ?m1 = "if dr_start d \<noteq> ?s then move_slots ?mem (dr_start d) ?s (length ms) else ?mem"
  have b1: "dr_start d + length ms \<le> length ?mem" "?s + length ms \<le> length ?mem"
    using bm d(4) by auto
  have m1: "length ?m1 = length ?mem" "segment ?m1 0 (hs @ ms)" "segment ?m1 (dr_tail_start d) ts"
    using r(7) d(2,4,5,6) b1 by (auto simp: segment_append intro!: segment_move_other segment_move)
  let ?m2 = "if dr_tail_start d \<noteq> ?e then move_slots ?m1 (dr_tail_start d) ?e (length ts) else ?m1"
  have b2: "dr_tail_start d + length ts \<le> length ?m1" "?e + length ts \<le> length ?m1"
    using bt d(4,5) m1(1) by auto
  have m2: "length ?m2 = length ?mem" using m1(1) b2 by auto
  have "segment ?m2 0 ((hs @ ms) @ ts)"
  proof (cases "dr_tail_start d = ?e")
    case True
    then show ?thesis using m1(2,3) unfolding segment_append [of _ _ "hs @ ms"] by simp
  next
    case False
    then have "segment ?m2 0 (hs @ ms)" using m1(2) b2 by (simp add: segment_move_other)
    moreover have "segment ?m2 ?e ts" using False m1(3) b2 by (simp add: segment_move)
    ultimately show ?thesis unfolding segment_append [of _ _ "hs @ ms"] by simp
  qed
  then have "vec_rep ((v_set_mem (dr_vec d) ?m2)\<lparr>v_len := ?e + length ts\<rparr>) (hs @ ms @ ts)"
    using m2 r(5) by (intro vec_repI [OF d(1)]) auto
  moreover have "drain_keep_rest d = Inr ((v_set_mem (dr_vec d) ?m2)\<lparr>v_len := ?e + length ts\<rparr>)"
    using r(3) d(3,7) b1 b2 m1(1) by (auto simp: drain_keep_rest_def Let_def)
  ultimately show thesis using that by blast
qed

end
