(* ===== verification/Binary_Heap_Correct.thy ===== *)
theory Binary_Heap_Correct
  imports Binary_Heap Rust_Vec_Correct
begin

text \<open>
  \<open>BinaryHeap\<close>, correctness in two layers. For every comparison, lawful or not, the operations
  have no undefined behaviour and neither lose nor duplicate an element. For a lawful
  comparison they keep the heap order, which puts a greatest element first.
\<close>

section \<open>Holes as transpositions\<close>

definition swap_at :: "'a list \<Rightarrow> nat \<Rightarrow> nat \<Rightarrow> 'a list" where
  "swap_at ys i j = ys[i := ys ! j, j := ys ! i]"

lemma length_swap_at [simp]: "length (swap_at ys i j) = length ys"
  by (simp add: swap_at_def)

lemma nth_swap_at:
  "i < length ys \<Longrightarrow> j < length ys \<Longrightarrow> k < length ys \<Longrightarrow>
    swap_at ys i j ! k = (if k = i then ys ! j else if k = j then ys ! i else ys ! k)"
  by (auto simp: swap_at_def nth_list_update)

text \<open>A hole stands for the list in which its element is still in place.\<close>

definition hole_rep :: "'a hole \<Rightarrow> 'a list \<Rightarrow> bool" where
  "hole_rep h ys \<longleftrightarrow> hole_len h = length ys \<and> length ys \<le> length (hole_data h) \<and>
     hole_pos h < length ys \<and> hole_elt h = ys ! hole_pos h \<and>
     (\<forall>i < length ys. i \<noteq> hole_pos h \<longrightarrow> hole_data h ! i = Some (ys ! i))"

lemma hole_new_rep:
  assumes "segment m 0 ys" "pos < length ys"
  obtains h where "hole_new m (length ys) pos = Inr h" "hole_rep h ys" "hole_pos h = pos"
    "length (hole_data h) = length m"
  using assms
  by (intro that [of "\<lparr>hole_data = m, hole_len = length ys, hole_elt = ys ! pos, hole_pos = pos\<rparr>"])
    (auto simp: hole_new_def hole_rep_def segment_def)

lemma hole_get_rep:
  "hole_rep h ys \<Longrightarrow> i < length ys \<Longrightarrow> i \<noteq> hole_pos h \<Longrightarrow> hole_get h i = Inr (ys ! i)"
  by (simp add: hole_get_def hole_rep_def)

lemma hole_move_rep:
  assumes rep: "hole_rep h ys" and i: "i < length ys" "i \<noteq> hole_pos h"
  obtains h' where "hole_move_to h i = Inr h'" "hole_rep h' (swap_at ys (hole_pos h) i)"
    "hole_pos h' = i" "length (hole_data h') = length (hole_data h)"
proof -
  let ?m = "move_slots (hole_data h) i (hole_pos h) 1"
  let ?h = "h\<lparr>hole_data := ?m, hole_pos := i\<rparr>"
  have b: "i + 1 \<le> length (hole_data h)" "hole_pos h + 1 \<le> length (hole_data h)"
    "i + 1 \<le> hole_pos h \<or> hole_pos h + 1 \<le> i"
    using rep i by (auto simp: hole_rep_def)
  show thesis
  proof (rule that [of ?h])
    show "hole_move_to h i = Inr ?h" using rep i b by (simp add: hole_move_to_def hole_rep_def)
    show "hole_rep ?h (swap_at ys (hole_pos h) i)"
      using rep i b by (auto simp: hole_rep_def nth_swap_at nth_move_slots)
  qed (use b in simp_all)
qed

lemma hole_drop_rep:
  assumes "hole_rep h ys"
  obtains m where "hole_drop h = Inr m" "segment m 0 ys" "length m = length (hole_data h)"
  using assms
  by (intro that [of "(hole_data h)[hole_pos h := Some (hole_elt h)]"])
    (auto simp: hole_drop_def hole_rep_def segment_def nth_list_update)

text \<open>A rearrangement that leaves the positions from \<open>stop\<close> on alone.\<close>

definition perm_upto :: "nat \<Rightarrow> 'a list \<Rightarrow> 'a list \<Rightarrow> bool" where
  "perm_upto stop ys zs \<longleftrightarrow> length zs = length ys \<and> mset zs = mset ys \<and>
     (\<forall>i. stop \<le> i \<longrightarrow> i < length ys \<longrightarrow> zs ! i = ys ! i)"

lemma perm_upto_refl [simp]: "perm_upto stop ys ys"
  by (simp add: perm_upto_def)

lemma perm_upto_trans: "perm_upto stop xs ys \<Longrightarrow> perm_upto stop ys zs \<Longrightarrow> perm_upto stop xs zs"
  by (auto simp: perm_upto_def)

lemma perm_upto_swap:
  "i < stop \<Longrightarrow> j < stop \<Longrightarrow> stop \<le> length ys \<Longrightarrow> perm_upto stop ys (swap_at ys i j)"
  by (auto simp: perm_upto_def nth_swap_at) (auto simp: swap_at_def mset_swap)

lemma perm_upto_mono: "perm_upto n ys zs \<Longrightarrow> n \<le> stop \<Longrightarrow> perm_upto stop ys zs"
  by (auto simp: perm_upto_def)

lemma perm_uptoD: "perm_upto stop ys zs \<Longrightarrow> length zs = length ys" "perm_upto stop ys zs \<Longrightarrow> mset zs = mset ys"
  by (auto simp: perm_upto_def)

section \<open>Heap order\<close>

definition child_of :: "nat \<Rightarrow> nat \<Rightarrow> bool" where
  "child_of p i \<longleftrightarrow> i = 2 * p + 1 \<or> i = 2 * p + 2"

text \<open>The order between a node and its children, for the parents from \<open>lo\<close> on, the nodes below
  \<open>stop\<close>; and the same with one position exempted, whose children are still in order with its
  parent.\<close>

definition heap_on :: "'a cmp \<Rightarrow> nat \<Rightarrow> nat \<Rightarrow> 'a list \<Rightarrow> bool" where
  "heap_on cmp lo stop ys \<longleftrightarrow>
     (\<forall>p i. child_of p i \<longrightarrow> i < stop \<longrightarrow> lo \<le> p \<longrightarrow> is_le (cmp (ys ! i) (ys ! p)))"

definition heap_but :: "'a cmp \<Rightarrow> nat \<Rightarrow> nat \<Rightarrow> nat \<Rightarrow> 'a list \<Rightarrow> bool" where
  "heap_but cmp lo stop pos ys \<longleftrightarrow>
     (\<forall>p i. child_of p i \<longrightarrow> i < stop \<longrightarrow> lo \<le> p \<longrightarrow> i \<noteq> pos \<longrightarrow> p \<noteq> pos \<longrightarrow>
        is_le (cmp (ys ! i) (ys ! p))) \<and>
     (\<forall>q c. child_of q pos \<longrightarrow> child_of pos c \<longrightarrow> c < stop \<longrightarrow> lo \<le> q \<longrightarrow> is_le (cmp (ys ! c) (ys ! q)))"

definition below_parent :: "'a cmp \<Rightarrow> nat \<Rightarrow> nat \<Rightarrow> 'a list \<Rightarrow> bool" where
  "below_parent cmp lo pos ys \<longleftrightarrow> (\<forall>q. child_of q pos \<longrightarrow> lo \<le> q \<longrightarrow> is_le (cmp (ys ! pos) (ys ! q)))"

definition above_children :: "'a cmp \<Rightarrow> nat \<Rightarrow> nat \<Rightarrow> 'a list \<Rightarrow> bool" where
  "above_children cmp stop pos ys \<longleftrightarrow> (\<forall>c. child_of pos c \<longrightarrow> c < stop \<longrightarrow> is_le (cmp (ys ! c) (ys ! pos)))"

lemma heap_on_iff:
  assumes "lawful_cmp cmp" "lo \<le> pos" "pos < stop"
  shows "heap_on cmp lo stop ys \<longleftrightarrow>
    heap_but cmp lo stop pos ys \<and> below_parent cmp lo pos ys \<and> above_children cmp stop pos ys"
proof
  assume h: "heap_on cmp lo stop ys"
  have "is_le (cmp (ys ! c) (ys ! q))" if "child_of q pos" "child_of pos c" "c < stop" "lo \<le> q" for q c
    using h that assms lawful_trans [OF assms(1), of "ys ! c" "ys ! pos" "ys ! q"]
    unfolding heap_on_def by blast
  then show "heap_but cmp lo stop pos ys \<and> below_parent cmp lo pos ys \<and> above_children cmp stop pos ys"
    using h assms unfolding heap_on_def heap_but_def below_parent_def above_children_def by blast
next
  assume "heap_but cmp lo stop pos ys \<and> below_parent cmp lo pos ys \<and> above_children cmp stop pos ys"
  then show "heap_on cmp lo stop ys"
    unfolding heap_on_def heap_but_def below_parent_def above_children_def by metis
qed

lemma child_unique: "child_of p i \<Longrightarrow> child_of q i \<Longrightarrow> p = q"
  by (auto simp: child_of_def)

lemma child_less: "child_of p i \<Longrightarrow> p < i"
  by (auto simp: child_of_def)

lemma heap_on_nil [simp]: "stop \<le> 2 * lo + 1 \<Longrightarrow> heap_on cmp lo stop ys"
  by (auto simp: heap_on_def child_of_def)

text \<open>Moving the hole up to the parent.\<close>

lemma heap_step_up:
  assumes law: "lawful_cmp cmp" and ys: "heap_but cmp 0 stop pos ys" "above_children cmp stop pos ys"
    and p: "child_of p pos" "\<not> is_le (cmp (ys ! pos) (ys ! p))" and pos: "pos < stop" "stop \<le> length ys"
  shows "heap_but cmp 0 stop p (swap_at ys pos p)" "above_children cmp stop p (swap_at ys pos p)"
proof -
  let ?zs = "swap_at ys pos p"
  have pp: "p < pos" "p < length ys" "pos < length ys" using child_less [OF p(1)] pos by auto
  have nth: "?zs ! pos = ys ! p" "?zs ! p = ys ! pos" "\<And>k. k \<noteq> pos \<Longrightarrow> k \<noteq> p \<Longrightarrow> k < length ys \<Longrightarrow> ?zs ! k = ys ! k"
    using pp by (auto simp: nth_swap_at)
  have le: "is_le (cmp (ys ! p) (ys ! pos))" using lawful_total [OF law] p(2) by blast
  have but: "\<And>q i. child_of q i \<Longrightarrow> i < stop \<Longrightarrow> i \<noteq> pos \<Longrightarrow> q \<noteq> pos \<Longrightarrow> is_le (cmp (ys ! i) (ys ! q))"
    "\<And>c. child_of pos c \<Longrightarrow> c < stop \<Longrightarrow> is_le (cmp (ys ! c) (ys ! p))"
    using ys(1) p(1) unfolding heap_but_def by auto
  have "is_le (cmp (?zs ! i) (?zs ! q))" if q: "child_of q i" "i < stop" "i \<noteq> p" "q \<noteq> p" for q i
  proof (cases "q = pos")
    case True
    have "i \<noteq> pos" "i < length ys" using q(1,2) True child_less [OF q(1)] pos(2) by auto
    then show ?thesis using but(2) [of i] q True nth by simp
  next
    case False
    have "i \<noteq> pos" using q p(1) child_unique by blast
    moreover have "q < length ys" "i < length ys" using child_less [OF q(1)] q(2) pos(2) by auto
    ultimately show ?thesis using but(1) [OF q(1,2)] q False nth by simp
  qed
  moreover have "is_le (cmp (?zs ! c) (?zs ! q))" if q: "child_of q p" "child_of p c" "c < stop" for q c
  proof -
    have "q < p" "p < c" using child_less q by blast+
    then have *: "is_le (cmp (ys ! p) (ys ! q))" "?zs ! q = ys ! q" "c < length ys"
      using but(1) [OF q(1)] pp pos nth(3) [of q] q(3) by auto
    show ?thesis
    proof (cases "c = pos")
      case False
      have "is_le (cmp (ys ! c) (ys ! p))" using but(1) [OF q(2,3)] False pp by simp
      with * False \<open>p < c\<close> lawful_trans [OF law] nth(3) [of c] show ?thesis by auto
    qed (use * nth in simp)
  qed
  ultimately show "heap_but cmp 0 stop p ?zs" unfolding heap_but_def by blast
  have "is_le (cmp (?zs ! c) (?zs ! p))" if c: "child_of p c" "c < stop" for c
  proof (cases "c = pos")
    case False
    have "is_le (cmp (ys ! c) (ys ! p))" using but(1) [OF c] False pp by simp
    with False child_less [OF c(1)] c(2) pos(2) lawful_trans [OF law _ le] nth show ?thesis by auto
  qed (use le nth in simp)
  then show "above_children cmp stop p ?zs" unfolding above_children_def by blast
qed

text \<open>Moving the hole down to a greatest child.\<close>

lemma heap_step_down:
  assumes ys: "heap_but cmp lo stop pos ys" and lo: "lo \<le> pos"
    and c: "child_of pos c" "c < stop" "stop \<le> length ys"
    and greatest: "\<And>d. child_of pos d \<Longrightarrow> d < stop \<Longrightarrow> is_le (cmp (ys ! d) (ys ! c))"
  shows "heap_but cmp lo stop c (swap_at ys pos c)"
    and "is_le (cmp (ys ! pos) (ys ! c)) \<Longrightarrow> below_parent cmp lo c (swap_at ys pos c)"
proof -
  let ?zs = "swap_at ys pos c"
  have pc: "pos < c" "c < length ys" "pos < length ys" using child_less [OF c(1)] c by auto
  have nth: "?zs ! pos = ys ! c" "?zs ! c = ys ! pos" "\<And>k. k \<noteq> pos \<Longrightarrow> k \<noteq> c \<Longrightarrow> k < length ys \<Longrightarrow> ?zs ! k = ys ! k"
    using pc by (auto simp: nth_swap_at)
  have but: "\<And>q i. child_of q i \<Longrightarrow> i < stop \<Longrightarrow> lo \<le> q \<Longrightarrow> i \<noteq> pos \<Longrightarrow> q \<noteq> pos \<Longrightarrow> is_le (cmp (ys ! i) (ys ! q))"
    "\<And>q. child_of q pos \<Longrightarrow> lo \<le> q \<Longrightarrow> is_le (cmp (ys ! c) (ys ! q))"
    using ys c unfolding heap_but_def by auto
  have "is_le (cmp (?zs ! i) (?zs ! q))" if q: "child_of q i" "i < stop" "lo \<le> q" "i \<noteq> c" "q \<noteq> c" for q i
  proof -
    have lt: "q < length ys" "i < length ys" "q < i" using child_less [OF q(1)] q(2) c(3) by auto
    consider "i = pos" | "i \<noteq> pos" "q = pos" | "i \<noteq> pos" "q \<noteq> pos" by blast
    then show ?thesis
    proof cases
      case 1
      then show ?thesis using but(2) [of q] q nth lt by simp
    next
      case 2
      then show ?thesis using greatest [of i] q nth lt by simp
    next
      case 3
      then show ?thesis using but(1) [OF q(1-3)] q nth lt by simp
    qed
  qed
  moreover have "is_le (cmp (?zs ! d) (?zs ! q))" if q: "child_of q c" "child_of c d" "d < stop" "lo \<le> q" for q d
  proof -
    have "q = pos" using child_unique q(1) c(1) by blast
    moreover have "c < d" "d < length ys" using child_less q c(3) by auto
    moreover have "is_le (cmp (ys ! d) (ys ! c))" using but(1) [OF q(2,3)] pc lo child_less [OF q(2)] by simp
    ultimately show ?thesis using nth pc by simp
  qed
  ultimately show "heap_but cmp lo stop c ?zs" unfolding heap_but_def by blast
  show "below_parent cmp lo c ?zs" if "is_le (cmp (ys ! pos) (ys ! c))"
    using that child_unique [OF c(1)] nth unfolding below_parent_def by auto
qed

text \<open>The first element of a heap is a greatest one.\<close>

lemma heap_on_max:
  assumes law: "lawful_cmp cmp" and heap: "heap_on cmp 0 stop ys"
  shows "i < stop \<Longrightarrow> is_le (cmp (ys ! i) (ys ! 0))"
proof (induction i rule: less_induct)
  case (less i)
  show ?case
  proof (cases "i = 0")
    case True
    then show ?thesis using lawful_refl [OF law] by simp
  next
    case False
    then have c: "child_of ((i - 1) div 2) i" by (auto simp: child_of_def)
    have "is_le (cmp (ys ! i) (ys ! ((i - 1) div 2)))"
      using heap c less.prems unfolding heap_on_def by blast
    moreover have "is_le (cmp (ys ! ((i - 1) div 2)) (ys ! 0))"
      using less.IH [OF child_less [OF c]] child_less [OF c] less.prems by simp
    ultimately show ?thesis using lawful_trans [OF law] by blast
  qed
qed

section \<open>The loops\<close>

lemma sift_up_loop_correct:
  assumes "hole_rep h ys"
  shows "\<exists>h' zs. sift_up_loop cmp start h = Inr h' \<and> hole_rep h' zs \<and> hole_pos h' \<le> hole_pos h \<and>
    length (hole_data h') = length (hole_data h) \<and> perm_upto (hole_pos h + 1) ys zs \<and>
    (lawful_cmp cmp \<longrightarrow> start = 0 \<longrightarrow> stop \<le> length ys \<longrightarrow> hole_pos h < stop \<longrightarrow>
      heap_but cmp 0 stop (hole_pos h) ys \<longrightarrow> above_children cmp stop (hole_pos h) ys \<longrightarrow>
      heap_on cmp 0 stop zs)"
  using assms
proof (induction "hole_pos h" arbitrary: h ys rule: less_induct)
  case less
  note rep = less.prems
  let ?pos = "hole_pos h" and ?p = "(hole_pos h - 1) div 2"
  have pos: "?pos < length ys" "hole_elt h = ys ! ?pos" using rep by (simp_all add: hole_rep_def)
  show ?case
  proof (cases "start < ?pos")
    case False
    then have "heap_on cmp 0 stop ys"
      if "lawful_cmp cmp" "start = 0" "?pos < stop" "heap_but cmp 0 stop ?pos ys" "above_children cmp stop ?pos ys"
      using that heap_on_iff [of cmp 0 ?pos stop ys] by (auto simp: below_parent_def child_of_def)
    with False rep show ?thesis by (subst sift_up_loop.simps) auto
  next
    case True
    then have p: "child_of ?p ?pos" "?p < ?pos" by (auto simp: child_of_def)
    have get: "hole_get h ?p = Inr (ys ! ?p)" using hole_get_rep [OF rep] p pos by simp
    show ?thesis
    proof (cases "is_le (cmp (ys ! ?pos) (ys ! ?p))")
      case le: True
      have "below_parent cmp 0 ?pos ys"
        using le child_unique [OF p(1)] by (auto simp: below_parent_def)
      then have "heap_on cmp 0 stop ys"
        if "lawful_cmp cmp" "?pos < stop" "heap_but cmp 0 stop ?pos ys" "above_children cmp stop ?pos ys"
        using that heap_on_iff [of cmp 0 ?pos stop ys] by auto
      with True le rep get pos(2) show ?thesis by (subst sift_up_loop.simps) auto
    next
      case False
      obtain h1 where h1: "hole_move_to h ?p = Inr h1" "hole_rep h1 (swap_at ys ?pos ?p)" "hole_pos h1 = ?p"
        "length (hole_data h1) = length (hole_data h)"
        using hole_move_rep [OF rep, of ?p] p pos by auto
      obtain h' zs where rec: "sift_up_loop cmp start h1 = Inr h'" "hole_rep h' zs" "hole_pos h' \<le> ?p"
        "length (hole_data h') = length (hole_data h1)" "perm_upto (?p + 1) (swap_at ys ?pos ?p) zs"
        "lawful_cmp cmp \<longrightarrow> start = 0 \<longrightarrow> stop \<le> length (swap_at ys ?pos ?p) \<longrightarrow> ?p < stop \<longrightarrow>
          heap_but cmp 0 stop ?p (swap_at ys ?pos ?p) \<longrightarrow> above_children cmp stop ?p (swap_at ys ?pos ?p) \<longrightarrow>
          heap_on cmp 0 stop zs"
        using less.hyps [of h1 "swap_at ys ?pos ?p"] h1(2,3) p(2) by auto
      have "perm_upto (?pos + 1) ys (swap_at ys ?pos ?p)"
        using p(2) pos(1) by (intro perm_upto_swap) auto
      then have "perm_upto (?pos + 1) ys zs"
        using perm_upto_trans perm_upto_mono [OF rec(5), of "?pos + 1"] p(2) by auto
      moreover have "heap_on cmp 0 stop zs"
        if "lawful_cmp cmp" "start = 0" "stop \<le> length ys" "?pos < stop" "heap_but cmp 0 stop ?pos ys"
          "above_children cmp stop ?pos ys"
        using that rec(6) heap_step_up [OF that(1,5,6) p(1) False that(4,3)] p(2) by simp
      moreover have "sift_up_loop cmp start h = Inr h'"
        using True get False h1(1) rec(1) pos(2) by (subst sift_up_loop.simps) (simp add: Let_def)
      ultimately show ?thesis using rec(2-4) h1(4) p(2) by auto
    qed
  qed
qed

lemma greater_child_rep:
  assumes rep: "hole_rep h ys" and c: "2 * hole_pos h + 1 + 1 < length ys"
  obtains c' where "greater_child cmp h (2 * hole_pos h + 1) = Inr c'" "child_of (hole_pos h) c'"
    "c' \<le> 2 * hole_pos h + 2"
    "\<And>d. lawful_cmp cmp \<Longrightarrow> child_of (hole_pos h) d \<Longrightarrow> is_le (cmp (ys ! d) (ys ! c'))"
proof -
  let ?c = "2 * hole_pos h + 1"
  let ?c' = "?c + (if is_le (cmp (ys ! ?c) (ys ! (?c + 1))) then 1 else 0)"
  have "hole_get h ?c = Inr (ys ! ?c)" "hole_get h (?c + 1) = Inr (ys ! (?c + 1))"
    using hole_get_rep [OF rep] c by simp_all
  then have "greater_child cmp h ?c = Inr ?c'" by (simp add: greater_child_def)
  moreover have "is_le (cmp (ys ! d) (ys ! ?c'))" if "lawful_cmp cmp" "child_of (hole_pos h) d" for d
    using that lawful_total [OF that(1), of "ys ! ?c" "ys ! (?c + 1)"] lawful_refl [OF that(1)]
    by (auto simp: child_of_def)
  ultimately show thesis using that [of ?c'] by (auto simp: child_of_def)
qed


lemma sift_down_loop_correct:
  assumes "hole_rep h ys" "stop \<le> length ys" "hole_pos h < stop"
  shows "\<exists>r h' zs. sift_down_loop cmp stop h = Inr (r, h') \<and> hole_rep h' zs \<and> hole_pos h' < stop \<and>
    length (hole_data h') = length (hole_data h) \<and> perm_upto stop ys zs \<and>
    (\<not> r \<longrightarrow> stop - 2 < 2 * hole_pos h' + 1) \<and>
    (lawful_cmp cmp \<longrightarrow> lo \<le> hole_pos h \<longrightarrow> heap_but cmp lo stop (hole_pos h) ys \<longrightarrow>
      below_parent cmp lo (hole_pos h) ys \<longrightarrow>
      lo \<le> hole_pos h' \<and> heap_but cmp lo stop (hole_pos h') zs \<and> below_parent cmp lo (hole_pos h') zs \<and>
      (r \<longrightarrow> above_children cmp stop (hole_pos h') zs))"
  using assms
proof (induction "stop - hole_pos h" arbitrary: h ys rule: less_induct)
  case less
  note rep = less.prems(1) and b = less.prems(2,3)
  let ?pos = "hole_pos h" and ?c = "2 * hole_pos h + 1"
  have elt: "hole_elt h = ys ! ?pos" using rep by (simp add: hole_rep_def)
  show ?case
  proof (cases "?c \<le> stop - 2")
    case False
    then have "sift_down_loop cmp stop h = Inr (False, h)" by (subst sift_down_loop.simps) simp
    with False rep b show ?thesis by (intro exI [of _ False] exI [of _ h] exI [of _ ys]) auto
  next
    case True
    then have c: "?c + 1 < stop" by simp
    then have c2: "2 * ?pos + 1 + 1 < length ys" using b by simp
    obtain c' where c': "greater_child cmp h ?c = Inr c'" "child_of ?pos c'" "c' \<le> 2 * ?pos + 2"
      "\<And>d. lawful_cmp cmp \<Longrightarrow> child_of ?pos d \<Longrightarrow> is_le (cmp (ys ! d) (ys ! c'))"
      using greater_child_rep [OF rep c2, of cmp] by blast
    have lt: "?pos < c'" "c' < stop" "c' < length ys" using child_less [OF c'(2)] c'(3) c b by auto
    have get: "hole_get h c' = Inr (ys ! c')" using hole_get_rep [OF rep lt(3)] lt(1) by simp
    have step: "sift_down_loop cmp stop h = (if is_ge (cmp (ys ! ?pos) (ys ! c')) then Inr (True, h)
        else and_then (hole_move_to h c') (\<lambda>h. sift_down_loop cmp stop h))"
      using True c'(1) get elt by (subst sift_down_loop.simps) (simp add: Let_def)
    show ?thesis
    proof (cases "is_ge (cmp (ys ! ?pos) (ys ! c'))")
      case ge: True
      have "above_children cmp stop ?pos ys" if law: "lawful_cmp cmp"
        using c'(4) [OF law] lawful_trans [OF law] ge lawful_reverse(1) [OF law]
        unfolding above_children_def by blast
      with step ge rep b show ?thesis by (intro exI [of _ True] exI [of _ h] exI [of _ ys]) auto
    next
      case False
      let ?ys = "swap_at ys ?pos c'"
      obtain h1 where h1: "hole_move_to h c' = Inr h1" "hole_rep h1 ?ys" "hole_pos h1 = c'"
        "length (hole_data h1) = length (hole_data h)"
        using hole_move_rep [OF rep lt(3)] lt(1) by auto
      have ih: "stop - hole_pos h1 < stop - ?pos" "stop \<le> length ?ys" "hole_pos h1 < stop"
        using h1(3) lt b by auto
      obtain r h' zs where rec: "sift_down_loop cmp stop h1 = Inr (r, h')" "hole_rep h' zs"
        "hole_pos h' < stop" "length (hole_data h') = length (hole_data h1)" "perm_upto stop ?ys zs"
        "\<not> r \<longrightarrow> stop - 2 < 2 * hole_pos h' + 1"
        "lawful_cmp cmp \<longrightarrow> lo \<le> c' \<longrightarrow> heap_but cmp lo stop c' ?ys \<longrightarrow> below_parent cmp lo c' ?ys \<longrightarrow>
          lo \<le> hole_pos h' \<and> heap_but cmp lo stop (hole_pos h') zs \<and> below_parent cmp lo (hole_pos h') zs \<and>
          (r \<longrightarrow> above_children cmp stop (hole_pos h') zs)"
        using less.hyps [OF ih(1) h1(2) ih(2,3), unfolded h1(3)] by blast
      have "perm_upto stop ys zs"
        using perm_upto_trans [OF perm_upto_swap rec(5)] lt b by simp
      moreover have "lo \<le> hole_pos h' \<and> heap_but cmp lo stop (hole_pos h') zs \<and>
          below_parent cmp lo (hole_pos h') zs \<and> (r \<longrightarrow> above_children cmp stop (hole_pos h') zs)"
        if law: "lawful_cmp cmp" "lo \<le> ?pos" "heap_but cmp lo stop ?pos ys"
      proof -
        have "is_le (cmp (ys ! ?pos) (ys ! c'))"
          using False lawful_reverse(1) [OF law(1)] lawful_total [OF law(1)] by blast
        then show ?thesis
          using rec(7) heap_step_down [OF law(3,2) c'(2) lt(2) b(1)] c'(4) law lt(1) by simp
      qed
      ultimately show ?thesis using step False h1 rec by auto
    qed
  qed
qed

lemma sift_bottom_loop_correct:
  assumes "hole_rep h ys" "stop \<le> length ys" "hole_pos h < stop"
  shows "\<exists>h' zs. sift_bottom_loop cmp stop h = Inr h' \<and> hole_rep h' zs \<and> hole_pos h' < stop \<and>
    length (hole_data h') = length (hole_data h) \<and> perm_upto stop ys zs \<and>
    stop - 2 < 2 * hole_pos h' + 1 \<and>
    (lawful_cmp cmp \<longrightarrow> heap_but cmp 0 stop (hole_pos h) ys \<longrightarrow> heap_but cmp 0 stop (hole_pos h') zs)"
  using assms
proof (induction "stop - hole_pos h" arbitrary: h ys rule: less_induct)
  case less
  note rep = less.prems(1) and b = less.prems(2,3)
  let ?pos = "hole_pos h" and ?c = "2 * hole_pos h + 1"
  show ?case
  proof (cases "?c \<le> stop - 2")
    case False
    then have "sift_bottom_loop cmp stop h = Inr h" by (subst sift_bottom_loop.simps) simp
    with False rep b show ?thesis by (intro exI [of _ h] exI [of _ ys]) auto
  next
    case True
    then have c: "?c + 1 < stop" by simp
    then have c2: "2 * ?pos + 1 + 1 < length ys" using b by simp
    obtain c' where c': "greater_child cmp h ?c = Inr c'" "child_of ?pos c'" "c' \<le> 2 * ?pos + 2"
      "\<And>d. lawful_cmp cmp \<Longrightarrow> child_of ?pos d \<Longrightarrow> is_le (cmp (ys ! d) (ys ! c'))"
      using greater_child_rep [OF rep c2, of cmp] by blast
    have lt: "?pos < c'" "c' < stop" "c' < length ys" using child_less [OF c'(2)] c'(3) c b by auto
    let ?ys = "swap_at ys ?pos c'"
    obtain h1 where h1: "hole_move_to h c' = Inr h1" "hole_rep h1 ?ys" "hole_pos h1 = c'"
      "length (hole_data h1) = length (hole_data h)"
      using hole_move_rep [OF rep lt(3)] lt(1) by auto
    have ih: "stop - hole_pos h1 < stop - ?pos" "stop \<le> length ?ys" "hole_pos h1 < stop"
      using h1(3) lt b by auto
    obtain h' zs where rec: "sift_bottom_loop cmp stop h1 = Inr h'" "hole_rep h' zs"
      "hole_pos h' < stop" "length (hole_data h') = length (hole_data h1)" "perm_upto stop ?ys zs"
      "stop - 2 < 2 * hole_pos h' + 1"
      "lawful_cmp cmp \<longrightarrow> heap_but cmp 0 stop c' ?ys \<longrightarrow> heap_but cmp 0 stop (hole_pos h') zs"
      using less.hyps [OF ih(1) h1(2) ih(2,3), unfolded h1(3)] by blast
    have "sift_bottom_loop cmp stop h = Inr h'"
      using True c'(1) h1(1) rec(1) by (subst sift_bottom_loop.simps) (simp add: Let_def)
    moreover have "perm_upto stop ys zs"
      using perm_upto_trans [OF perm_upto_swap rec(5)] lt b by simp
    moreover have "heap_but cmp 0 stop (hole_pos h') zs"
      if "lawful_cmp cmp" "heap_but cmp 0 stop ?pos ys"
      using rec(7) heap_step_down(1) [OF that(2) _ c'(2) lt(2) b(1)] c'(4) that by simp
    ultimately show ?thesis using h1(4) rec by (intro exI [of _ h'] exI [of _ zs]) auto
  qed
qed

text \<open>The last parent may have a single child, which the loops leave to the code after them.\<close>

lemma single_child:
  assumes "stop - 2 < 2 * pos + 1" "child_of pos d" "d < stop"
  shows "2 * pos + 1 = stop - 1" "d = 2 * pos + 1"
  using assms by (auto simp: child_of_def)

section \<open>Sifting in the vector\<close>

lemma sift_up_rep:
  assumes rep: "vec_rep v ys" and pos: "pos < length ys"
  obtains p v' zs where "sift_up cmp v start pos = Inr (p, v')" "vec_rep v' zs" "perm_upto (pos + 1) ys zs"
    "lawful_cmp cmp \<Longrightarrow> start = 0 \<Longrightarrow> pos < stop \<Longrightarrow> stop \<le> length ys \<Longrightarrow>
      heap_but cmp 0 stop pos ys \<Longrightarrow> above_children cmp stop pos ys \<Longrightarrow> heap_on cmp 0 stop zs"
proof -
  note r = vec_repD [OF rep]
  obtain h where h: "hole_new (v_mem v) (length ys) pos = Inr h" "hole_rep h ys" "hole_pos h = pos"
    "length (hole_data h) = length (v_mem v)"
    using hole_new_rep [OF r(7) pos] .
  obtain h' zs where l: "sift_up_loop cmp start h = Inr h'" "hole_rep h' zs"
    "length (hole_data h') = length (hole_data h)" "perm_upto (pos + 1) ys zs"
    "lawful_cmp cmp \<longrightarrow> start = 0 \<longrightarrow> stop \<le> length ys \<longrightarrow> pos < stop \<longrightarrow>
      heap_but cmp 0 stop pos ys \<longrightarrow> above_children cmp stop pos ys \<longrightarrow> heap_on cmp 0 stop zs"
    using sift_up_loop_correct [OF h(2), of cmp start stop] h(3) by auto
  obtain m where m: "hole_drop h' = Inr m" "segment m 0 zs" "length m = length (hole_data h')"
    using hole_drop_rep [OF l(2)] .
  show thesis
  proof (rule that)
    show "sift_up cmp v start pos = Inr (hole_pos h', v_set_mem v m)"
      using h(1) l(1) m(1) r(3) by (simp add: sift_up_def)
    show "vec_rep (v_set_mem v m) zs"
      using vec_repI_same [OF rep _ m(2)] m(3) l(3) h(4) r(5) perm_uptoD(1) [OF l(4)] by simp
  qed (use l(4,5) in simp_all)
qed

lemma sift_down_range_rep:
  assumes rep: "vec_rep v ys" and pos: "pos < stop" "stop \<le> length ys"
  obtains p v' zs where "sift_down_range cmp v pos stop = Inr (p, v')" "vec_rep v' zs"
    "perm_upto stop ys zs"
    "lawful_cmp cmp \<Longrightarrow> lo \<le> pos \<Longrightarrow> heap_but cmp lo stop pos ys \<Longrightarrow> below_parent cmp lo pos ys \<Longrightarrow>
      heap_on cmp lo stop zs"
proof -
  note r = vec_repD [OF rep]
  let ?law = "lawful_cmp cmp \<and> lo \<le> pos \<and> heap_but cmp lo stop pos ys \<and> below_parent cmp lo pos ys"
  obtain h where h: "hole_new (v_mem v) (length ys) pos = Inr h" "hole_rep h ys" "hole_pos h = pos"
    "length (hole_data h) = length (v_mem v)"
    using hole_new_rep [OF r(7), of pos] pos by auto
  obtain returned h1 zs where l: "sift_down_loop cmp stop h = Inr (returned, h1)" "hole_rep h1 zs"
    "hole_pos h1 < stop" "length (hole_data h1) = length (hole_data h)" "perm_upto stop ys zs"
    "\<not> returned \<longrightarrow> stop - 2 < 2 * hole_pos h1 + 1"
    "?law \<Longrightarrow> lo \<le> hole_pos h1 \<and> heap_but cmp lo stop (hole_pos h1) zs \<and>
      below_parent cmp lo (hole_pos h1) zs \<and> (returned \<longrightarrow> above_children cmp stop (hole_pos h1) zs)"
    using sift_down_loop_correct [OF h(2), of stop cmp lo] h(3) pos by auto
  let ?c = "2 * hole_pos h1 + 1"
  let ?last = "if returned then Inr h1
    else let child = ?c in if child = stop - 1
      then and_then (hole_get h1 child) (\<lambda>c.
             if is_lt (cmp (hole_elt h1) c) then hole_move_to h1 child else Inr h1)
      else Inr h1"
  have len: "length zs = length ys" using perm_uptoD(1) [OF l(5)] .
  have elt: "hole_elt h1 = zs ! hole_pos h1" using l(2) by (simp add: hole_rep_def)
  have "\<exists>h2 ws. ?last = Inr h2 \<and> hole_rep h2 ws \<and> length (hole_data h2) = length (hole_data h1) \<and>
    perm_upto stop zs ws \<and> (?law \<longrightarrow> heap_on cmp lo stop ws)"
  proof (cases "\<not> returned \<and> ?c = stop - 1 \<and> is_lt (cmp (zs ! hole_pos h1) (zs ! ?c))")
    case True
    then have c: "child_of (hole_pos h1) ?c" "?c < stop" "?c \<noteq> hole_pos h1" "?c < length zs"
      using pos len by (auto simp: child_of_def)
    obtain h2 where h2: "hole_move_to h1 ?c = Inr h2" "hole_rep h2 (swap_at zs (hole_pos h1) ?c)"
      "hole_pos h2 = ?c" "length (hole_data h2) = length (hole_data h1)"
      using hole_move_rep [OF l(2) c(4,3)] .
    have "?last = Inr h2"
      by (simp only: Let_def if_not_P [OF True [THEN conjunct1]] if_P [OF True [THEN conjunct2, THEN conjunct1]]
        hole_get_rep [OF l(2) c(4,3)] elt and_then_simps if_P [OF True [THEN conjunct2, THEN conjunct2]] h2(1))
    moreover have "heap_on cmp lo stop (swap_at zs (hole_pos h1) ?c)" if law: ?law
    proof -
      note hl = l(7) [OF law]
      have le: "is_le (cmp (zs ! hole_pos h1) (zs ! ?c))" using True by (auto simp: is_lt_def is_le_def)
      have only: "d = ?c" if "child_of (hole_pos h1) d" "d < stop" for d
        using single_child(2) [OF _ that] True l(6) by blast
      then have "is_le (cmp (zs ! d) (zs ! ?c))" if "child_of (hole_pos h1) d" "d < stop" for d
        using that lawful_refl law by metis
      then have "heap_but cmp lo stop ?c (swap_at zs (hole_pos h1) ?c)"
        "below_parent cmp lo ?c (swap_at zs (hole_pos h1) ?c)"
        using heap_step_down [of cmp lo stop "hole_pos h1" zs ?c] hl c pos len le by auto
      moreover have "above_children cmp stop ?c (swap_at zs (hole_pos h1) ?c)"
        using True by (auto simp: above_children_def child_of_def)
      ultimately show ?thesis using heap_on_iff [of cmp lo ?c stop] law hl c(2) by auto
    qed
    ultimately show ?thesis using h2 perm_upto_swap [of _ stop _ zs] l(3) c(2) pos len by auto
  next
    case False
    have "?last = Inr h1"
    proof (cases "returned \<or> ?c \<noteq> stop - 1")
      case False
      then have "hole_get h1 ?c = Inr (zs ! ?c)" using hole_get_rep [OF l(2)] pos len l(3) by simp
      then show ?thesis using False \<open>\<not> (_ \<and> _ \<and> _)\<close> elt by (simp add: Let_def)
    qed auto
    moreover have "heap_on cmp lo stop zs" if law: ?law
    proof -
      have "is_le (cmp (zs ! d) (zs ! hole_pos h1))" if d: "child_of (hole_pos h1) d" "d < stop" "\<not> returned" for d
        using single_child [OF _ d(1,2)] l(6) d(3) False lawful_reverse(2) [of cmp] law by metis
      then have "above_children cmp stop (hole_pos h1) zs"
        using l(7) [OF law] unfolding above_children_def by blast
      then show ?thesis using heap_on_iff l(3) l(7) [OF law] law by blast
    qed
    ultimately show ?thesis using l(2) by auto
  qed
  then obtain h2 ws where w: "?last = Inr h2" "hole_rep h2 ws"
    "length (hole_data h2) = length (hole_data h1)" "perm_upto stop zs ws" "?law \<longrightarrow> heap_on cmp lo stop ws"
    by blast
  obtain m where m: "hole_drop h2 = Inr m" "segment m 0 ws" "length m = length (hole_data h2)"
    using hole_drop_rep [OF w(2)] .
  show thesis
  proof (rule that)
    show "sift_down_range cmp v pos stop = Inr (hole_pos h2, v_set_mem v m)"
      using h(1) l(1) w(1) m(1) r(3) by (simp add: sift_down_range_def)
    show "vec_rep (v_set_mem v m) ws"
      using vec_repI_same [OF rep _ m(2)] m(3) w(3) l(4) h(4) r(5) perm_uptoD(1) [OF w(4)] len by simp
    show "perm_upto stop ys ws" using perm_upto_trans [OF l(5) w(4)] .
  qed (use w(5) in blast)
qed

section \<open>Whole heaps\<close>

abbreviation is_heap :: "'a cmp \<Rightarrow> 'a list \<Rightarrow> bool" where
  "is_heap cmp ys \<equiv> heap_on cmp 0 (length ys) ys"

text \<open>Changing the root, or a leaf added at the end, leaves one position out of order.\<close>

lemma heap_but_root:
  assumes "heap_on cmp 0 n ys" "stop \<le> n" "\<And>i. 0 < i \<Longrightarrow> i < stop \<Longrightarrow> zs ! i = ys ! i"
  shows "heap_but cmp 0 stop 0 zs" "below_parent cmp 0 0 zs"
  using assms by (auto simp: heap_on_def heap_but_def below_parent_def child_of_def)

lemma heap_but_leaf:
  assumes "heap_on cmp 0 n ys" "\<And>i. i < n \<Longrightarrow> zs ! i = ys ! i"
  shows "heap_but cmp 0 (Suc n) n zs" "above_children cmp (Suc n) n zs"
proof -
  have "is_le (cmp (zs ! i) (zs ! p))" if "child_of p i" "i < Suc n" "i \<noteq> n" for p i
    using that assms child_less [OF that(1)] unfolding heap_on_def by auto
  then show "heap_but cmp 0 (Suc n) n zs" by (auto simp: heap_but_def child_of_def)
  show "above_children cmp (Suc n) n zs" by (auto simp: above_children_def child_of_def)
qed

lemma sift_down_to_bottom_rep:
  assumes rep: "vec_rep v ys" and pos: "pos < length ys"
  obtains v' zs where "sift_down_to_bottom cmp v pos = Inr v'" "vec_rep v' zs" "mset zs = mset ys"
    "lawful_cmp cmp \<Longrightarrow> pos = 0 \<Longrightarrow> heap_but cmp 0 (length ys) 0 ys \<Longrightarrow> is_heap cmp zs"
proof -
  note r = vec_repD [OF rep]
  let ?n = "length ys" and ?law = "lawful_cmp cmp \<and> pos = 0 \<and> heap_but cmp 0 (length ys) 0 ys"
  obtain h where h: "hole_new (v_mem v) ?n pos = Inr h" "hole_rep h ys" "hole_pos h = pos"
    "length (hole_data h) = length (v_mem v)"
    using hole_new_rep [OF r(7) pos] .
  obtain h1 zs where l: "sift_bottom_loop cmp ?n h = Inr h1" "hole_rep h1 zs" "hole_pos h1 < ?n"
    "length (hole_data h1) = length (hole_data h)" "perm_upto ?n ys zs" "?n - 2 < 2 * hole_pos h1 + 1"
    "?law \<Longrightarrow> heap_but cmp 0 ?n (hole_pos h1) zs"
    using sift_bottom_loop_correct [OF h(2), of ?n cmp, unfolded h(3)] pos by fastforce
  let ?c = "2 * hole_pos h1 + 1"
  have len: "length zs = ?n" using perm_uptoD(1) [OF l(5)] .
  obtain h2 ws where w: "(if ?c = ?n - 1 then hole_move_to h1 ?c else Inr h1) = Inr h2" "hole_rep h2 ws"
    "length (hole_data h2) = length (hole_data h1)" "perm_upto ?n zs ws" "hole_pos h2 < ?n"
    "?law \<Longrightarrow> heap_but cmp 0 ?n (hole_pos h2) ws \<and> above_children cmp ?n (hole_pos h2) ws"
  proof (cases "?c = ?n - 1")
    case True
    then have c: "child_of (hole_pos h1) ?c" "?c < ?n" "?c \<noteq> hole_pos h1" "?c < length zs"
      using pos len by (auto simp: child_of_def)
    obtain h2 where h2: "hole_move_to h1 ?c = Inr h2" "hole_rep h2 (swap_at zs (hole_pos h1) ?c)"
      "hole_pos h2 = ?c" "length (hole_data h2) = length (hole_data h1)"
      using hole_move_rep [OF l(2) c(4,3)] .
    have "heap_but cmp 0 ?n ?c (swap_at zs (hole_pos h1) ?c)" if law: ?law
    proof -
      have "d = ?c" if "child_of (hole_pos h1) d" "d < ?n" for d
        using single_child(2) [OF l(6) that] .
      then have "is_le (cmp (zs ! d) (zs ! ?c))" if "child_of (hole_pos h1) d" "d < ?n" for d
        using that lawful_refl law by metis
      then show ?thesis using heap_step_down(1) [OF l(7) [OF law] _ c(1,2)] len by simp
    qed
    moreover have "above_children cmp ?n ?c (swap_at zs (hole_pos h1) ?c)"
      using True by (auto simp: above_children_def child_of_def)
    moreover have "perm_upto ?n zs (swap_at zs (hole_pos h1) ?c)"
      by (rule perm_upto_swap [OF l(3) c(2)]) (simp add: len)
    ultimately show thesis by (intro that [OF _ h2(2,4)]) (use True h2(1,3) c(2) in simp_all)
  next
    case False
    then have "above_children cmp ?n (hole_pos h1) zs"
      using l(6) single_child [OF l(6)] by (auto simp: above_children_def)
    with False l show thesis by (intro that [of h1 zs]) simp_all
  qed
  obtain m where m: "hole_drop h2 = Inr m" "segment m 0 ws" "length m = length (hole_data h2)"
    using hole_drop_rep [OF w(2)] .
  have ws: "length ws = ?n" "mset ws = mset ys"
    using perm_uptoD [OF w(4)] perm_uptoD [OF l(5)] by simp_all
  have rep': "vec_rep (v_set_mem v m) ws"
    using vec_repI_same [OF rep _ m(2) ws(1)] m(3) w(3) l(4) h(4) r(5) by simp
  obtain p v' us where u: "sift_up cmp (v_set_mem v m) pos (hole_pos h2) = Inr (p, v')" "vec_rep v' us"
    "perm_upto (hole_pos h2 + 1) ws us"
    "lawful_cmp cmp \<Longrightarrow> pos = 0 \<Longrightarrow> hole_pos h2 < ?n \<Longrightarrow> ?n \<le> length ws \<Longrightarrow>
      heap_but cmp 0 ?n (hole_pos h2) ws \<Longrightarrow> above_children cmp ?n (hole_pos h2) ws \<Longrightarrow> heap_on cmp 0 ?n us"
    using sift_up_rep [OF rep', of "hole_pos h2" cmp pos ?n] w(5) ws(1) by metis
  have us: "length us = ?n" "mset us = mset ys" using perm_uptoD [OF u(3)] ws by simp_all
  show thesis
  proof (rule that [OF _ u(2) us(2)])
    show "sift_down_to_bottom cmp v pos = Inr v'"
      by (simp only: sift_down_to_bottom_def Let_def h(1) l(1) w(1) m(1) u(1) r(3) and_then_simps prod.case)
    show "is_heap cmp us" if "lawful_cmp cmp" "pos = 0" "heap_but cmp 0 ?n 0 ys"
      using u(4) w(5,6) ws(1) us(1) that by simp
  qed
qed

section \<open>Rebuilding\<close>

lemma rebuild_loop_rep:
  assumes "vec_rep v ys" "n \<le> length ys"
  obtains v' zs where "rebuild_loop cmp v n = Inr v'" "vec_rep v' zs" "mset zs = mset ys"
    "lawful_cmp cmp \<Longrightarrow> heap_on cmp n (length ys) ys \<Longrightarrow> is_heap cmp zs"
  using assms
proof (induction n arbitrary: v ys thesis)
  case 0
  then show ?case by simp
next
  case (Suc n)
  note rep = Suc.prems(2)
  obtain p w us where u: "sift_down_range cmp v n (length ys) = Inr (p, w)" "vec_rep w us"
    "perm_upto (length ys) ys us"
    "lawful_cmp cmp \<Longrightarrow> n \<le> n \<Longrightarrow> heap_but cmp n (length ys) n ys \<Longrightarrow> below_parent cmp n n ys \<Longrightarrow>
      heap_on cmp n (length ys) us"
    using sift_down_range_rep [OF rep, of n "length ys" cmp n] Suc.prems(3) by auto
  have us: "length us = length ys" "mset us = mset ys" using perm_uptoD [OF u(3)] by simp_all
  obtain v' zs where z: "rebuild_loop cmp w n = Inr v'" "vec_rep v' zs" "mset zs = mset us"
    "lawful_cmp cmp \<Longrightarrow> heap_on cmp n (length us) us \<Longrightarrow> is_heap cmp zs"
    using Suc.IH [OF _ u(2), of thesis] Suc.prems(3) us(1) Suc.IH [OF _ u(2)] by auto
  show ?case
  proof (rule Suc.prems(1))
    show "rebuild_loop cmp v (Suc n) = Inr v'"
      using u(1) z(1) vec_repD(3) [OF rep] by (simp add: sift_down_def)
    show "is_heap cmp zs" if law: "lawful_cmp cmp" and heap: "heap_on cmp (Suc n) (length ys) ys"
    proof -
      have "heap_but cmp n (length ys) n ys" "below_parent cmp n n ys"
        using heap child_less unfolding heap_on_def heap_but_def below_parent_def
        by (metis Suc_leI le_neq_implies_less leD)+
      then show ?thesis using z(4) u(4) us(1) law by simp
    qed
  qed (use z us in simp_all)
qed

lemma rebuild_rep:
  assumes "vec_rep v ys"
  obtains v' zs where "rebuild cmp v = Inr v'" "vec_rep v' zs" "mset zs = mset ys"
    "lawful_cmp cmp \<Longrightarrow> is_heap cmp zs"
proof -
  have "length ys div 2 \<le> length ys" by simp
  from rebuild_loop_rep [OF assms this, of cmp] show thesis
    using that vec_repD(3) [OF assms] by (auto simp: rebuild_def)
qed

lemma sift_up_all_rep:
  assumes "vec_rep v ys" "i \<le> length ys"
  obtains v' zs where "sift_up_all cmp v [i..<length ys] = Inr v'" "vec_rep v' zs" "mset zs = mset ys"
    "lawful_cmp cmp \<Longrightarrow> heap_on cmp 0 i ys \<Longrightarrow> is_heap cmp zs"
  using assms
proof (induction "length ys - i" arbitrary: v ys i thesis)
  case 0
  then show ?case by simp
next
  case (Suc k)
  note rep = Suc.prems(2)
  have i: "i < length ys" using Suc.hyps(2) by simp
  obtain p w us where u: "sift_up cmp v 0 i = Inr (p, w)" "vec_rep w us" "perm_upto (i + 1) ys us"
    "lawful_cmp cmp \<Longrightarrow> i < Suc i \<Longrightarrow> Suc i \<le> length ys \<Longrightarrow>
      heap_but cmp 0 (Suc i) i ys \<Longrightarrow> above_children cmp (Suc i) i ys \<Longrightarrow> heap_on cmp 0 (Suc i) us"
    using sift_up_rep [OF rep i, of cmp 0 "Suc i"] by metis
  have us: "length us = length ys" "mset us = mset ys" using perm_uptoD [OF u(3)] by simp_all
  have k: "k = length us - Suc i" "Suc i \<le> length us" using Suc.hyps(2) us i by simp_all
  obtain v' zs where z: "sift_up_all cmp w [Suc i..<length us] = Inr v'" "vec_rep v' zs" "mset zs = mset us"
    "lawful_cmp cmp \<Longrightarrow> heap_on cmp 0 (Suc i) us \<Longrightarrow> is_heap cmp zs"
    using Suc.hyps(1) [OF k(1) _ u(2) k(2)] by blast
  have "sift_up_all cmp v [i..<length ys] = Inr v'"
    using u(1) z(1) us(1) i by (simp add: upt_conv_Cons)
  moreover have "is_heap cmp zs" if "lawful_cmp cmp" "heap_on cmp 0 i ys"
    using z(4) u(4) heap_but_leaf [OF that(2)] that(1) i by simp
  ultimately show ?case using Suc.prems(1) z(2,3) us(2) by metis
qed

lemma rebuild_tail_rep:
  assumes rep: "vec_rep v ys" and start: "start \<le> length ys"
  obtains v' zs where "rebuild_tail cmp v start = Inr v'" "vec_rep v' zs" "mset zs = mset ys"
    "lawful_cmp cmp \<Longrightarrow> heap_on cmp 0 start ys \<Longrightarrow> is_heap cmp zs"
proof -
  note len = vec_repD(3) [OF rep]
  consider "start = length ys" | "start \<noteq> length ys" "better_to_rebuild (length ys) start"
    | "start \<noteq> length ys" "\<not> better_to_rebuild (length ys) start" by blast
  then show thesis
  proof cases
    case 1
    then show thesis using that [of v ys] rep len by (simp add: rebuild_tail_def)
  next
    case 2
    show thesis
      by (rule rebuild_rep [OF rep, of cmp]) (use that 2 len in \<open>simp add: rebuild_tail_def\<close>)
  next
    case 3
    show thesis
      by (rule sift_up_all_rep [OF rep start, of cmp]) (use that 3 len in \<open>simp add: rebuild_tail_def\<close>)
  qed
qed

end
