(* ===== verification/Binary_Heap_Ops.thy ===== *)
theory Binary_Heap_Ops
  imports Binary_Heap_Correct
begin

text \<open>
  The operations of \<open>BinaryHeap\<close> on represented heaps: what each returns, that it permutes the
  elements, and that a lawful comparison keeps the heap order. Sorting and \<open>PeekMut\<close> included.
\<close>

section \<open>The operations\<close>

lemma heap_push_rep:
  assumes rep: "vec_rep v ys"
  obtains "reserve_fails (heap_push cmp v x)"
  | v' zs where "heap_push cmp v x = Inr v'" "vec_rep v' zs" "mset zs = add_mset x (mset ys)"
    "lawful_cmp cmp \<Longrightarrow> is_heap cmp ys \<Longrightarrow> is_heap cmp zs"
proof -
  note len = vec_repD(3) [OF rep] and finish = that
  from vec_push_cases [OF rep, of x] show thesis
  proof cases
    case 1
    then show thesis using that(1) by (simp add: heap_push_def Let_def reserve_fails_and_then)
  next
    case (2 w)
    let ?n = "length ys"
    have n: "?n < length (ys @ [x])" by simp
    obtain p v' zs where u: "sift_up cmp w 0 ?n = Inr (p, v')" "vec_rep v' zs" "perm_upto (?n + 1) (ys @ [x]) zs"
      "lawful_cmp cmp \<Longrightarrow> ?n < Suc ?n \<Longrightarrow> Suc ?n \<le> length (ys @ [x]) \<Longrightarrow>
        heap_but cmp 0 (Suc ?n) ?n (ys @ [x]) \<Longrightarrow> above_children cmp (Suc ?n) ?n (ys @ [x]) \<Longrightarrow>
        heap_on cmp 0 (Suc ?n) zs"
      using sift_up_rep [OF 2(2) n, of cmp 0 "Suc ?n"] by metis
    show thesis
    proof (rule finish(2) [OF _ u(2)])
      show "heap_push cmp v x = Inr v'" using 2(1) u(1) len by (simp add: heap_push_def Let_def)
      show "mset zs = add_mset x (mset ys)" using perm_uptoD(2) [OF u(3)] by simp
      show "is_heap cmp zs" if "lawful_cmp cmp" "is_heap cmp ys"
        using u(4) heap_but_leaf [OF that(2), of "ys @ [x]"] that(1) perm_uptoD(1) [OF u(3)]
        by (simp add: nth_append)
    qed
  qed
qed

lemma heap_pop_rep:
  assumes rep: "vec_rep v ys"
  obtains v' zs where "heap_pop cmp v = Inr (if ys = [] then None else Some (ys ! 0), v')" "vec_rep v' zs"
    "mset ys = (if ys = [] then {#} else {#ys ! 0#}) + mset zs"
    "lawful_cmp cmp \<Longrightarrow> is_heap cmp ys \<Longrightarrow> is_heap cmp zs"
proof (cases ys rule: rev_cases)
  case Nil
  then show thesis using that [of v "[]"] vec_pop_rep(1) [OF rep] rep by (simp add: heap_pop_def)
next
  case (snoc as x)
  let ?w = "v\<lparr>v_len := length as\<rparr>"
  have pop: "vec_pop v = Inr (Some x, ?w)" and w: "vec_rep ?w as"
    using vec_pop_rep [OF rep] snoc by simp_all
  show thesis
  proof (cases as)
    case Nil
    show thesis
    proof (rule that [of ?w "[]"])
      show "heap_pop cmp v = Inr (if ys = [] then None else Some (ys ! 0), ?w)"
        using pop snoc Nil by (simp add: heap_pop_def)
    qed (use w snoc Nil in simp_all)
  next
    case (Cons a bs)
    let ?m = "(v_mem v)[0 := Some x]"
    note r = vec_repD [OF w]
    have rd: "v_mem v ! 0 = Some a" "0 < length (v_mem v)" using r(9) [of 0] r(4,5) Cons by simp_all
    have seg: "segment ?m 0 (x # bs)"
      using r(7) Cons by (simp add: segment_Cons nth_list_update)
    have w': "vec_rep (v_set_mem ?w ?m) (x # bs)"
      using vec_repI_same [OF w _ seg] r(5) Cons by simp
    have pos: "0 < length (x # bs)" by simp
    obtain v' zs where z: "sift_down_to_bottom cmp (v_set_mem ?w ?m) 0 = Inr v'" "vec_rep v' zs"
      "mset zs = mset (x # bs)"
      "lawful_cmp cmp \<Longrightarrow> heap_but cmp 0 (length (x # bs)) 0 (x # bs) \<Longrightarrow> is_heap cmp zs"
      using sift_down_to_bottom_rep [OF w' pos, of cmp] by metis
    show thesis
    proof (rule that [OF _ z(2)])
      show "heap_pop cmp v = Inr (if ys = [] then None else Some (ys ! 0), v')"
        using pop rd z(1) snoc Cons by (simp add: heap_pop_def)
      show "is_heap cmp zs" if "lawful_cmp cmp" "is_heap cmp ys"
      proof -
        have "(x # bs) ! i = ys ! i" if "0 < i" "i < length (x # bs)" for i
          using that snoc Cons by (auto simp: nth_append nth_Cons split: nat.splits)
        moreover have "length (x # bs) \<le> length ys" using snoc Cons by simp
        ultimately show ?thesis using z(4) heap_but_root(1) [OF that(2)] that(1) by blast
      qed
    qed (use z(3) snoc Cons in simp_all)
  qed
qed

lemma heap_peek_rep: "vec_rep v ys \<Longrightarrow> heap_peek v = Inr (if ys = [] then None else Some (ys ! 0))"
  using vec_repD(3,4,5,9) [of v ys] by (cases ys) (auto simp: heap_peek_def)

lemma heap_append_rep:
  assumes rep: "vec_rep v xs" "vec_rep w ys"
  obtains "reserve_fails (heap_append cmp v w)"
  | v' w' zs where "heap_append cmp v w = Inr (v', w')" "vec_rep v' zs" "vec_rep w' []"
    "mset zs = mset xs + mset ys"
    "lawful_cmp cmp \<Longrightarrow> is_heap cmp xs \<Longrightarrow> is_heap cmp ys \<Longrightarrow> is_heap cmp zs"
proof -
  note finish = that and len = vec_repD(3) [OF rep(1)] vec_repD(3) [OF rep(2)]
  define v1 w1 xs1 ys1 where sw: "v1 = (if length xs < length ys then w else v)"
    "w1 = (if length xs < length ys then v else w)" "xs1 = (if length xs < length ys then ys else xs)"
    "ys1 = (if length xs < length ys then xs else ys)"
  have r: "vec_rep v1 xs1" "vec_rep w1 ys1" and ms: "mset xs1 + mset ys1 = mset xs + mset ys"
    and hp: "is_heap cmp xs \<Longrightarrow> is_heap cmp ys \<Longrightarrow> is_heap cmp xs1"
    using rep by (auto simp: sw)
  have app: "heap_append cmp v w = and_then (vec_append v1 w1) (\<lambda>(v, other).
      and_then (rebuild_tail cmp v (length xs1)) (\<lambda>v. Inr (v, other)))"
    using len by (simp add: heap_append_def sw)
  from vec_append_cases [OF r] show thesis
  proof cases
    case 1
    then show thesis using finish(1) by (simp add: app reserve_fails_and_then)
  next
    case (2 v2 w2)
    have "length xs1 \<le> length (xs1 @ ys1)" by simp
    from rebuild_tail_rep [OF 2(2) this, of cmp] obtain v3 zs where
      z: "rebuild_tail cmp v2 (length xs1) = Inr v3" "vec_rep v3 zs" "mset zs = mset (xs1 @ ys1)"
      "lawful_cmp cmp \<Longrightarrow> heap_on cmp 0 (length xs1) (xs1 @ ys1) \<Longrightarrow> is_heap cmp zs" by metis
    show thesis
    proof (rule finish(2) [OF _ z(2) 2(3)])
      show "is_heap cmp zs" if "lawful_cmp cmp" "is_heap cmp xs" "is_heap cmp ys"
        using z(4) hp that child_less by (fastforce simp: heap_on_def nth_append)
    qed (use 2(1) z ms in \<open>simp_all add: app\<close>)
  qed
qed

lemma heap_extend_rep:
  assumes rep: "vec_rep v xs"
  obtains "reserve_fails (heap_extend cmp v ys)"
  | v' zs where "heap_extend cmp v ys = Inr v'" "vec_rep v' zs" "mset zs = mset xs + mset ys"
    "lawful_cmp cmp \<Longrightarrow> is_heap cmp xs \<Longrightarrow> is_heap cmp zs"
proof -
  note finish = that and len = vec_repD(3) [OF rep]
  from append_elements_cases [OF rep, of ys] show thesis
  proof cases
    case 1
    then show thesis using finish(1) by (simp add: heap_extend_def Let_def reserve_fails_and_then)
  next
    case (2 v2)
    have "length xs \<le> length (xs @ ys)" by simp
    from rebuild_tail_rep [OF 2(2) this, of cmp] obtain v3 zs where
      z: "rebuild_tail cmp v2 (length xs) = Inr v3" "vec_rep v3 zs" "mset zs = mset (xs @ ys)"
      "lawful_cmp cmp \<Longrightarrow> heap_on cmp 0 (length xs) (xs @ ys) \<Longrightarrow> is_heap cmp zs" by metis
    show thesis
    proof (rule finish(2) [OF _ z(2)])
      show "is_heap cmp zs" if "lawful_cmp cmp" "is_heap cmp xs"
        using z(4) that child_less by (fastforce simp: heap_on_def nth_append)
    qed (use 2(1) z len in \<open>simp_all add: heap_extend_def\<close>)
  qed
qed

text \<open>\<open>retain\<close>: up to the first rejected position the vector is untouched, so the part before it
  is still a heap.\<close>

lemma retain_list_prefix:
  assumes "retain_list (\<lambda>x. map_option (\<lambda>keep. (keep, x)) (f x)) xs = (unwinds, ks, ds, rest)"
  shows "first_rejected f xs \<le> length (ks @ rest)"
    "take (first_rejected f xs) (ks @ rest) = take (first_rejected f xs) xs"
    "mset xs = mset ks + mset ds + mset rest"
  using assms
proof (induction xs arbitrary: ks ds unwinds)
  case (Cons x xs)
  {
    case 1
    with Cons.IH show ?case
      by (auto simp: first_rejected_def Let_def split: option.splits if_splits prod.splits)
  next
    case 2
    with Cons.IH show ?case
      by (auto simp: first_rejected_def Let_def split: option.splits if_splits prod.splits)
  next
    case 3
    with Cons.IH show ?case by (auto split: option.splits if_splits prod.splits)
  }
qed (simp_all add: first_rejected_def)


lemma heap_retain_rep:
  assumes rep: "vec_rep v xs"
    and ref: "retain_list (\<lambda>x. map_option (\<lambda>keep. (keep, x)) (f x)) xs = (unwinds, ks, ds, rest)"
  obtains v' zs where "heap_retain cmp v f = Inr (unwinds, ds, v')" "vec_rep v' zs"
    "mset zs = mset ks + mset rest" "lawful_cmp cmp \<Longrightarrow> is_heap cmp xs \<Longrightarrow> is_heap cmp zs"
proof -
  note pre = retain_list_prefix [OF ref]
  let ?n = "first_rejected f xs"
  obtain w where w: "vec_retain_mut v (\<lambda>x. map_option (\<lambda>keep. (keep, x)) (f x)) = Inr (unwinds, ds, w)"
    "vec_rep w (ks @ rest)"
    using vec_retain_mut_rep [OF rep ref] .
  from rebuild_tail_rep [OF w(2) pre(1), of cmp] obtain v' zs where
    z: "rebuild_tail cmp w ?n = Inr v'" "vec_rep v' zs" "mset zs = mset (ks @ rest)"
    "lawful_cmp cmp \<Longrightarrow> heap_on cmp 0 ?n (ks @ rest) \<Longrightarrow> is_heap cmp zs" by metis
  show thesis
  proof (rule that [OF _ z(2)])
    show "heap_retain cmp v f = Inr (unwinds, ds, v')"
      using as_slice_rep [OF rep] w(1) z(1) by (simp add: heap_retain_def Let_def)
    show "is_heap cmp zs" if "lawful_cmp cmp" "is_heap cmp xs"
    proof (rule z(4) [OF that(1)])
      have nth: "(ks @ rest) ! i = xs ! i" if "i < ?n" for i
        using arg_cong [OF pre(2), of "\<lambda>l. l ! i"] that by (simp del: take_append)
      have "?n \<le> length xs" by (simp add: first_rejected_def Let_def length_takeWhile_le)
      then show "heap_on cmp 0 ?n (ks @ rest)"
        using that(2) child_less nth unfolding heap_on_def by (metis less_trans less_le_trans)
    qed
  qed (use z(3) in simp)
qed

section \<open>Sorting\<close>

lemma segment_swap_at:
  "segment m 0 ys \<Longrightarrow> i < length ys \<Longrightarrow> j < length ys \<Longrightarrow>
    segment (m[i := Some (ys ! j), j := Some (ys ! i)]) 0 (swap_at ys i j)"
  by (auto simp: segment_def swap_at_def nth_list_update)

definition sorted_from :: "'a cmp \<Rightarrow> nat \<Rightarrow> 'a list \<Rightarrow> bool" where
  "sorted_from cmp stop ys \<longleftrightarrow>
     (\<forall>i j. i < j \<longrightarrow> stop \<le> j \<longrightarrow> j < length ys \<longrightarrow> is_le (cmp (ys ! i) (ys ! j)))"

lemma perm_upto_nth:
  assumes "perm_upto stop ys zs" "i < stop" "stop \<le> length ys"
  obtains k where "k < stop" "zs ! i = ys ! k"
proof -
  have "drop stop zs = drop stop ys"
    using assms(1) by (intro nth_equalityI) (auto simp: perm_upto_def)
  moreover have "mset (take stop zs) + mset (drop stop zs) = mset (take stop ys) + mset (drop stop ys)"
    using perm_uptoD(2) [OF assms(1)] by (metis append_take_drop_id mset_append)
  ultimately have "set (take stop zs) = set (take stop ys)" by (metis add_right_cancel mset_eq_setD)
  moreover have "zs ! i \<in> set (take stop zs)"
    using assms perm_uptoD(1) [OF assms(1)] by (auto simp: in_set_conv_nth intro!: exI [of _ i])
  ultimately obtain k where "k < length (take stop ys)" "zs ! i = take stop ys ! k"
    by (metis in_set_conv_nth)
  then show thesis using that [of k] by simp
qed

text \<open>One round: the greatest element of the heap goes behind it.\<close>

lemma sorted_round:
  assumes law: "lawful_cmp cmp" and heap: "heap_on cmp 0 (Suc stop) ys" and "sorted_from cmp (Suc stop) ys"
    and stop: "0 < stop" "Suc stop \<le> length ys" and perm: "perm_upto stop (swap_at ys 0 stop) zs"
  shows "sorted_from cmp stop zs"
proof -
  let ?ys = "swap_at ys 0 stop"
  have len: "length zs = length ys" using perm_uptoD(1) [OF perm] by simp
  have same: "zs ! j = ?ys ! j" if "stop \<le> j" "j < length ys" for j
    using perm that by (simp add: perm_upto_def)
  have nth: "?ys ! k = (if k = 0 then ys ! stop else if k = stop then ys ! 0 else ys ! k)" if "k < length ys" for k
    using stop that by (subst nth_swap_at) auto
  have old: "is_le (cmp (ys ! k) (ys ! j))" if "k < j" "stop < j" "j < length ys" for k j
    using assms(3) that by (simp add: sorted_from_def)
  have "is_le (cmp (zs ! i) (zs ! j))" if ij: "i < j" "stop \<le> j" "j < length ys" for i j
  proof -
    obtain k where k: "k < Suc stop \<or> k = i" "k \<le> j" "zs ! i = ?ys ! k" "stop \<le> i \<Longrightarrow> k = i" "i < stop \<Longrightarrow> k < stop"
    proof (cases "i < stop")
      case True
      then obtain k where "k < stop" "zs ! i = ?ys ! k"
        using perm_upto_nth [OF perm True] stop by auto
      then show thesis using that [of k] ij True by auto
    next
      case False
      then show thesis using that [of i] same [of i] ij by auto
    qed
    have kj: "k < length ys" "k < j" using k ij by (cases "i < stop"; auto)+
    let ?k' = "if k = 0 then stop else if k = stop then 0 else k"
    have eq: "zs ! i = ys ! ?k'" using k(3) nth [OF kj(1)] by auto
    show ?thesis
    proof (cases "j = stop")
      case True
      then have "zs ! j = ys ! 0" using same [of j] nth [of j] ij stop by simp
      then show ?thesis using heap_on_max [OF law heap, of ?k'] kj(2) eq True by auto
    next
      case False
      then have "zs ! j = ys ! j" using same [of j] nth [of j] ij stop by simp
      then show ?thesis using old [of ?k' j] kj eq False ij by auto
    qed
  qed
  then show ?thesis by (simp add: sorted_from_def len)
qed

lemma sorted_loop_rep:
  assumes "vec_rep v ys" "stop \<le> length ys"
  obtains v' zs where "sorted_loop cmp v stop = Inr v'" "vec_rep v' zs" "mset zs = mset ys"
    "lawful_cmp cmp \<Longrightarrow> heap_on cmp 0 stop ys \<Longrightarrow> sorted_from cmp stop ys \<Longrightarrow> sorted_cmp cmp zs"
  using assms
proof (induction stop arbitrary: v ys thesis)
  case 0
  then show ?case
    by (subst (asm) sorted_loop.simps) (auto simp: sorted_from_def sorted_cmp_def sorted_wrt_iff_nth_less)
next
  case (Suc stop)
  note rep = Suc.prems(2) and b = Suc.prems(3)
  show ?case
  proof (cases "stop = 0")
    case True
    show ?thesis
    proof (rule Suc.prems(1) [OF _ rep refl])
      show "sorted_loop cmp v (Suc stop) = Inr v" using True by (subst sorted_loop.simps) simp
      show "sorted_cmp cmp ys" if "sorted_from cmp (Suc stop) ys"
        using that True by (auto simp: sorted_from_def sorted_cmp_def sorted_wrt_iff_nth_less)
    qed
  next
    case False
    note r = vec_repD [OF rep]
    let ?ys = "swap_at ys 0 stop"
    let ?m = "(v_mem v)[0 := Some (ys ! stop), stop := Some (ys ! 0)]"
    have sw: "ptr_swap (v_mem v) 0 stop = Inr ?m"
      using r(4,5) b False r(9) [of 0] r(9) [of stop] by (cases "ys = []") simp_all
    have "segment ?m 0 ?ys"
      by (rule segment_swap_at [OF r(7)]) (use b in auto)
    then have rep': "vec_rep (v_set_mem v ?m) ?ys" using vec_repI_same [OF rep] r(5) by simp
    obtain p w us where u: "sift_down_range cmp (v_set_mem v ?m) 0 stop = Inr (p, w)" "vec_rep w us"
      "perm_upto stop ?ys us"
      "lawful_cmp cmp \<Longrightarrow> heap_but cmp 0 stop 0 ?ys \<Longrightarrow> below_parent cmp 0 0 ?ys \<Longrightarrow> heap_on cmp 0 stop us"
      using sift_down_range_rep [OF rep', of 0 stop cmp 0] False b by auto
    have us: "length us = length ys" using perm_uptoD [OF u(3)] by simp
    have "mset ?ys = mset ys"
      using perm_uptoD(2) [OF perm_upto_swap [of 0 "Suc stop" stop ys]] b by simp
    then have ms: "mset us = mset ys" using perm_uptoD(2) [OF u(3)] by simp
    have b': "stop \<le> length us" using b us by simp
    obtain v' zs where z: "sorted_loop cmp w stop = Inr v'" "vec_rep v' zs" "mset zs = mset us"
      "lawful_cmp cmp \<Longrightarrow> heap_on cmp 0 stop us \<Longrightarrow> sorted_from cmp stop us \<Longrightarrow> sorted_cmp cmp zs"
      using Suc.IH [OF _ u(2) b'] by blast
    show ?thesis
    proof (rule Suc.prems(1) [OF _ z(2)])
      show "sorted_loop cmp v (Suc stop) = Inr v'"
        using sw u(1) z(1) False by (subst sorted_loop.simps) simp
      show "sorted_cmp cmp zs" if "lawful_cmp cmp" "heap_on cmp 0 (Suc stop) ys" "sorted_from cmp (Suc stop) ys"
      proof (rule z(4) [OF that(1)])
        have "?ys ! i = ys ! i" if "0 < i" "i < stop" for i
          using that b by (subst nth_swap_at) auto
        then show "heap_on cmp 0 stop us"
          using u(4) heap_but_root [OF that(2), of stop ?ys] that(1) by simp
        show "sorted_from cmp stop us" using sorted_round [OF that _ b u(3)] False by simp
      qed
    qed (use z(3) ms in simp)
  qed
qed


section \<open>PeekMut\<close>

text \<open>While the element is borrowed mutably the vector claims the single element that was stored;
  \<open>peek_rep\<close> describes the heap behind it.\<close>

definition peek_rep :: "'a peek_mut \<Rightarrow> 'a list \<Rightarrow> bool" where
  "peek_rep p ys \<longleftrightarrow>
     (case pm_original_len p of
        None \<Rightarrow> vec_rep (pm_heap p) ys \<and> ys \<noteq> []
      | Some n \<Rightarrow> 1 < n \<and> v_len (pm_heap p) = 1 \<and> vec_rep ((pm_heap p)\<lparr>v_len := n\<rparr>) ys)"

lemma peek_store_rep:
  assumes rep: "peek_rep p ys"
  obtains p' where "peek_mut_store p x = Inr p'" "peek_rep p' (ys[0 := x])" "vec_rep (pm_heap p') [x]"
    "pm_original_len p' \<noteq> None \<or> length ys = 1"
proof -
  define n where "n = length ys"
  define v where "v = (case pm_original_len p of None \<Rightarrow> pm_heap p | Some n \<Rightarrow> (pm_heap p)\<lparr>v_len := n\<rparr>)"
  have v: "vec_rep v ys" "ys \<noteq> []"
    using rep by (auto simp: peek_rep_def v_def split: option.splits dest: vec_repD(3))
  note r = vec_repD [OF v(1)]
  have mem: "v_mem (pm_heap p) = v_mem v" "v_set_mem ((pm_heap p)\<lparr>v_len := k\<rparr>) m = (v_set_mem v m)\<lparr>v_len := k\<rparr>" for k m
    by (auto simp: v_def v_set_mem_def split: option.splits)
  let ?m = "(v_mem v)[0 := Some x]"
  have w: "ptr_write (v_mem v) 0 x = Inr ?m" using v(2) r(4,5) by (cases ys) auto
  have seg: "segment ?m 0 (ys[0 := x])" using r(7) v(2) by (cases ys) (auto simp: segment_Cons)
  then have one: "segment ?m 0 [x]" using v(2) by (cases ys) (auto simp: segment_Cons segment_def)
  have rep1: "vec_rep ((v_set_mem v ?m)\<lparr>v_len := 1\<rparr>) [x]"
    using vec_repI [OF v(1) _ one] r(5) by simp
  have repn: "vec_rep ((v_set_mem v ?m)\<lparr>v_len := n\<rparr>) (ys[0 := x])"
    using vec_repI [OF v(1) _ seg] r(5) by (simp add: n_def)
  show thesis
  proof (cases "pm_original_len p")
    case None
    then have p: "v_len (pm_heap p) = n" "pm_heap p = v" using r(3) by (auto simp: v_def n_def)
    show thesis
    proof (cases "1 < n")
      case True
      let ?p = "p\<lparr>pm_original_len := Some n, pm_heap := (v_set_mem v ?m)\<lparr>v_len := 1\<rparr>\<rparr>"
      show thesis
      proof (rule that [of ?p])
        show "peek_mut_store p x = Inr ?p"
          using True p w mem by (simp add: peek_mut_store_def Let_def)
      qed (use True rep1 repn in \<open>simp_all add: peek_rep_def\<close>)
    next
      case False
      then have n1: "n = 1" using v(2) n_def by (cases ys) auto
      then have ys: "ys[0 := x] = [x]" "length ys = 1" using v(2) n_def by (cases ys; auto)+
      let ?p = "p\<lparr>pm_heap := v_set_mem v ?m\<rparr>"
      have same: "(v_set_mem v ?m)\<lparr>v_len := 1\<rparr> = v_set_mem v ?m"
        using r(3) ys by (simp add: v_set_mem_def)
      show thesis
      proof (rule that [of ?p])
        show "peek_mut_store p x = Inr ?p"
          using n1 p w mem by (simp add: peek_mut_store_def Let_def)
      qed (use None rep1 ys same in \<open>simp_all add: peek_rep_def\<close>)
    qed
  next
    case (Some k)
    then have k: "k = n" "1 < n" "v_len (pm_heap p) = 1"
      using rep r(3) by (auto simp: peek_rep_def v_def n_def)
    let ?p = "p\<lparr>pm_heap := (v_set_mem v ?m)\<lparr>v_len := 1\<rparr>\<rparr>"
    have same: "v_set_mem (pm_heap p) ?m = (v_set_mem v ?m)\<lparr>v_len := 1\<rparr>"
      using mem(2) [of 1 ?m] k(3) by (simp add: v_def v_set_mem_def Some)
    show thesis
    proof (rule that [of ?p])
      show "peek_mut_store p x = Inr ?p"
        using k w mem same by (simp add: peek_mut_store_def Let_def)
    qed (use Some k rep1 repn in \<open>simp_all add: peek_rep_def\<close>)
  qed
qed

lemma sift_down_0_rep:
  assumes rep: "vec_rep v ys" and ne: "ys \<noteq> []"
  obtains p v' zs where "sift_down cmp v 0 = Inr (p, v')" "vec_rep v' zs" "mset zs = mset ys"
    "\<And>xs. lawful_cmp cmp \<Longrightarrow> is_heap cmp xs \<Longrightarrow> ys = xs[0 := ys ! 0] \<Longrightarrow> is_heap cmp zs"
proof -
  have pos: "0 < length ys" using ne by simp
  obtain p v' zs where z: "sift_down_range cmp v 0 (length ys) = Inr (p, v')" "vec_rep v' zs"
    "perm_upto (length ys) ys zs"
    "lawful_cmp cmp \<Longrightarrow> 0 \<le> (0 :: nat) \<Longrightarrow> heap_but cmp 0 (length ys) 0 ys \<Longrightarrow> below_parent cmp 0 0 ys \<Longrightarrow>
      heap_on cmp 0 (length ys) zs"
    using sift_down_range_rep [OF rep pos order_refl, of cmp 0] by metis
  show thesis
  proof (rule that [OF _ z(2) perm_uptoD(2) [OF z(3)]])
    show "sift_down cmp v 0 = Inr (p, v')" using z(1) vec_repD(3) [OF rep] by (simp add: sift_down_def)
    show "is_heap cmp zs" if "lawful_cmp cmp" "is_heap cmp xs" "ys = xs[0 := ys ! 0]" for xs
    proof -
      have "length ys \<le> length xs" "\<And>i. 0 < i \<Longrightarrow> ys ! i = xs ! i"
        using that(3) by (metis length_list_update order_refl, metis nth_list_update_neq less_irrefl)
      then show ?thesis
        using z(4) heap_but_root [OF that(2), of "length ys" ys] that(1) perm_uptoD(1) [OF z(3)] by simp
    qed
  qed
qed

text \<open>Dropping the view, or refreshing it, sifts the stored element down in the whole vector.\<close>

lemma peek_drop_rep:
  assumes rep: "peek_rep p ys"
  obtains v' zs where "peek_mut_drop cmp p = Inr v'" "vec_rep v' zs" "mset zs = mset ys"
    "\<forall>xs. lawful_cmp cmp \<longrightarrow> is_heap cmp xs \<longrightarrow> ys = xs[0 := ys ! 0] \<longrightarrow>
       pm_original_len p \<noteq> None \<or> length ys = 1 \<or> ys = xs \<longrightarrow> is_heap cmp zs"
proof (cases "pm_original_len p")
  case None
  have one: "is_heap cmp ys" if "length ys = 1" using that by simp
  show thesis
    by (rule that [of "pm_heap p" ys]) (use None rep one in \<open>auto simp: peek_rep_def peek_mut_drop_def\<close>)
next
  case (Some n)
  let ?v = "(pm_heap p)\<lparr>v_len := n\<rparr>"
  have v: "vec_rep ?v ys" "ys \<noteq> []" using rep Some vec_repD(3) [of ?v ys] by (auto simp: peek_rep_def)
  obtain q v' zs where z: "sift_down cmp ?v 0 = Inr (q, v')" "vec_rep v' zs" "mset zs = mset ys"
    "\<And>xs. lawful_cmp cmp \<Longrightarrow> is_heap cmp xs \<Longrightarrow> ys = xs[0 := ys ! 0] \<Longrightarrow> is_heap cmp zs"
    using sift_down_0_rep [OF v, of cmp] by blast
  show thesis
    by (rule that [OF _ z(2,3)]) (use z in \<open>auto simp: peek_mut_drop_def Some\<close>)
qed


end
