(* ===== verification/Rust_Vec_Spec.thy ===== *)
theory Rust_Vec_Spec
  imports Rust_Vec_Correct
begin

text \<open>
  The contract of \<open>Vec\<close>: its operations as one datatype with their meaning on lists, the
  interpretations of the locale \<open>container\<close> (for \<open>Vec\<close> and for its \<open>Drain\<close>), and the properties of
  the component.
\<close>

section \<open>The contract\<close>

datatype 'a vec_op =
  VPush 'a | VPop | VInsert usize 'a | VTryRemove usize | VRemove usize
| VSwapRemove usize | VTruncate usize | VClear | VResize usize 'a | VExtendFromWithin bound bound
| VExtend "'a list" | VRetain "'a \<Rightarrow> bool" | VDedup "'a \<Rightarrow> 'a \<Rightarrow> bool" | VDrain bound bound
| VReserve usize | VShrinkToFit | VShrinkTo usize

datatype 'a vec_out = VDone | VElem "'a option" | VElems "'a list"

definition v_unit :: "'b res \<Rightarrow> ('a vec_out \<times> 'b) res" where
  "v_unit m = and_then m (\<lambda>v. Inr (VDone, v))"

definition v_elem :: "('a \<times> 'b) res \<Rightarrow> ('a vec_out \<times> 'b) res" where
  "v_elem m = and_then m (\<lambda>(x, v). Inr (VElem (Some x), v))"

definition v_elems :: "('a list \<times> 'b) res \<Rightarrow> ('a vec_out \<times> 'b) res" where
  "v_elems m = and_then m (\<lambda>(xs, v). Inr (VElems xs, v))"

fun vec_step :: "'a vec_op \<Rightarrow> 'a vec \<Rightarrow> ('a vec_out \<times> 'a vec) res" where
  "vec_step (VPush x) v = v_unit (vec_push v x)"
| "vec_step VPop v = and_then (vec_pop v) (\<lambda>(x, v). Inr (VElem x, v))"
| "vec_step (VInsert i x) v = v_unit (vec_insert v i x)"
| "vec_step (VTryRemove i) v = and_then (vec_try_remove v i) (\<lambda>(x, v). Inr (VElem x, v))"
| "vec_step (VRemove i) v = v_elem (vec_remove v i)"
| "vec_step (VSwapRemove i) v = v_elem (vec_swap_remove v i)"
| "vec_step (VTruncate n) v = v_elems (vec_truncate v n)"
| "vec_step VClear v = v_elems (vec_clear v)"
| "vec_step (VResize n x) v = v_elems (vec_resize v n x)"
| "vec_step (VExtendFromWithin sb eb) v = v_unit (extend_from_within v sb eb)"
| "vec_step (VExtend ys) v = v_unit (append_elements v ys)"
| "vec_step (VRetain p) v =
     v_elems (and_then (vec_retain_mut v (\<lambda>x. Some (p x, x))) (\<lambda>(_, ds, v). Inr (ds, v)))"
| "vec_step (VDedup same) v = v_elems (dedup_by v same)"
| "vec_step (VDrain sb eb) v = v_elems (and_then (vec_drain v sb eb) drain_drop)"
| "vec_step (VReserve n) v = v_unit (vec_reserve v n)"
| "vec_step VShrinkToFit v = v_unit (vec_shrink_to_fit v)"
| "vec_step (VShrinkTo n) v = v_unit (vec_shrink_to v n)"

text \<open>What the operations mean on lists; a panic carries its message.\<close>

fun vec_spec :: "'a vec_op \<Rightarrow> 'a list \<Rightarrow> string + 'a vec_out \<times> 'a list" where
  "vec_spec (VPush x) xs = Inr (VDone, xs @ [x])"
| "vec_spec VPop xs =
     Inr (if xs = [] then (VElem None, []) else (VElem (Some (List.last xs)), butlast xs))"
| "vec_spec (VInsert i x) xs =
     (if i \<le> length xs then Inr (VDone, take i xs @ x # drop i xs)
      else Inl ''insertion index (is {index}) should be <= len (is {len})'')"
| "vec_spec (VTryRemove i) xs =
     Inr (if i < length xs then (VElem (Some (xs ! i)), take i xs @ drop (Suc i) xs) else (VElem None, xs))"
| "vec_spec (VRemove i) xs =
     (if i < length xs then Inr (VElem (Some (xs ! i)), take i xs @ drop (Suc i) xs)
      else Inl ''removal index (is {index}) should be < len (is {len})'')"
| "vec_spec (VSwapRemove i) xs =
     (if i < length xs then Inr (VElem (Some (xs ! i)), butlast (xs[i := List.last xs]))
      else Inl ''swap_remove index (is {index}) should be < len (is {len})'')"
| "vec_spec (VTruncate n) xs = Inr (VElems (drop n xs), take n xs)"
| "vec_spec VClear xs = Inr (VElems xs, [])"
| "vec_spec (VResize n x) xs = Inr (VElems (drop n xs), take n xs @ replicate (n - length xs) x)"
| "vec_spec (VExtendFromWithin sb eb) xs =
     (case slice_range sb eb (length xs) of
        Inl _ \<Rightarrow> Inl ''slice index out of range''
      | Inr (s, e) \<Rightarrow> Inr (VDone, xs @ take (e - s) (drop s xs)))"
| "vec_spec (VExtend ys) xs = Inr (VDone, xs @ ys)"
| "vec_spec (VRetain p) xs = Inr (VElems (filter (\<lambda>x. \<not> p x) xs), filter p xs)"
| "vec_spec (VDedup same) xs =
     (case xs of [] \<Rightarrow> Inr (VElems [], [])
      | x # ys \<Rightarrow> (case dedup_list same x ys of (ks, ds) \<Rightarrow> Inr (VElems ds, x # ks)))"
| "vec_spec (VDrain sb eb) xs =
     (case slice_range sb eb (length xs) of
        Inl _ \<Rightarrow> Inl ''slice index out of range''
      | Inr (s, e) \<Rightarrow> Inr (VElems (take (e - s) (drop s xs)), take s xs @ drop e xs))"
| "vec_spec (VReserve n) xs = Inr (VDone, xs)"
| "vec_spec VShrinkToFit xs = Inr (VDone, xs)"
| "vec_spec (VShrinkTo n) xs = Inr (VDone, xs)"


text \<open>Operations that may allocate, or hand memory back to the allocator (which may refuse the
  smaller block).\<close>

fun vec_grows :: "'a vec_op \<Rightarrow> bool" where
  "vec_grows (VPush x) = True"
| "vec_grows (VInsert i x) = True"
| "vec_grows (VResize n x) = True"
| "vec_grows (VExtendFromWithin sb eb) = True"
| "vec_grows (VExtend ys) = True"
| "vec_grows (VReserve n) = True"
| "vec_grows VShrinkToFit = True"
| "vec_grows (VShrinkTo n) = True"
| "vec_grows _ = False"

lemma slice_range_cases:
  obtains "slice_range sb eb n = Inl (Panic ''slice index out of range'')"
  | s e where "slice_range sb eb n = Inr (s, e)"
proof -
  have "slice_range sb eb n = Inl (Panic ''slice index out of range'') \<or>
    (\<exists>s e. slice_range sb eb n = Inr (s, e))"
    by (cases sb; cases eb) (auto simp: slice_range_def slice_index_fail_def)
  with that show thesis by blast
qed

lemma v_refines:
  "reserve_fails m \<Longrightarrow> refines True R (v_unit m) sp"
  "reserve_fails m2 \<Longrightarrow> refines True R (v_elems m2) sp"
  "m = Inr v \<Longrightarrow> R v a \<Longrightarrow> refines g R (v_unit m) (Inr (VDone, a))"
  "m3 = Inr (x, v) \<Longrightarrow> R v a \<Longrightarrow> refines g R (v_elem m3) (Inr (VElem (Some x), a))"
  "m2 = Inr (xs, v) \<Longrightarrow> R v a \<Longrightarrow> refines g R (v_elems m2) (Inr (VElems xs, a))"
  by (auto simp: v_unit_def v_elems_def v_elem_def reserve_fails_and_then)

lemma vec_shrink_to_refines:
  assumes rep: "vec_rep v xs"
  shows "refines True vec_rep (v_unit (vec_shrink_to v n)) (Inr (VDone, xs))"
proof (cases "n < v_cap v")
  case True
  have b: "length xs \<le> max (length xs) n" "max (length xs) n \<le> v_cap v"
    using True vec_repD(4) [OF rep] by auto
  from vec_shrink_cases [OF rep b] show ?thesis
    by cases (use True vec_repD(3,6) [OF rep] in
      \<open>simp_all add: vec_shrink_to_def reserve_fails_and_then v_refines\<close>)
next
  case False
  then show ?thesis using rep vec_repD(6) [OF rep] by (simp add: vec_shrink_to_def v_refines)
qed

lemma vec_shrink_to_fit_refines:
  assumes rep: "vec_rep v xs"
  shows "refines True vec_rep (v_unit (vec_shrink_to_fit v)) (Inr (VDone, xs))"
proof (cases "length xs < v_cap v")
  case True
  have b: "length xs \<le> length xs" "length xs \<le> v_cap v" using True by auto
  from vec_shrink_cases [OF rep b] show ?thesis
    by cases (use True vec_repD(3,6) [OF rep] in
      \<open>simp_all add: vec_shrink_to_fit_def reserve_fails_and_then v_refines\<close>)
next
  case False
  then show ?thesis using rep vec_repD(3,6) [OF rep] by (simp add: vec_shrink_to_fit_def v_refines)
qed

lemma vec_step_refines:
  assumes rep: "vec_rep v xs"
  shows "refines (vec_grows op) vec_rep (vec_step op v) (vec_spec op xs)"
proof (cases op)
  case (VPush x)
  from vec_push_cases [OF rep, of x] show ?thesis by cases (simp_all add: VPush v_refines)
next
  case VPop
  show ?thesis
  proof (cases "xs = []")
    case True
    then show ?thesis using vec_pop_rep(1) [OF rep] rep by (simp add: VPop refines_ok)
  next
    case False
    then show ?thesis using vec_pop_rep [OF rep] by (simp add: VPop refines_ok)
  qed
next
  case (VInsert i x)
  show ?thesis
  proof (cases "i \<le> length xs")
    case True
    from vec_insert_cases [OF rep True, of x] show ?thesis
      by cases (use True in \<open>simp_all add: VInsert v_refines\<close>)
  next
    case False
    then show ?thesis using vec_repD(3) [OF rep]
      by (simp add: VInsert vec_insert_def v_unit_def refines_panic)
  qed
next
  case (VTryRemove i)
  show ?thesis
    by (rule vec_try_remove_rep [OF rep, of i]) (use rep in \<open>auto simp: VTryRemove refines_ok\<close>)
next
  case (VRemove i)
  show ?thesis
    by (rule vec_try_remove_rep [OF rep, of i])
      (auto simp: VRemove vec_remove_def v_elem_def refines_panic refines_ok)
next
  case (VSwapRemove i)
  show ?thesis
  proof (cases "i < length xs")
    case True
    show ?thesis
      by (rule vec_swap_remove_rep [OF rep True]) (use True in \<open>simp add: VSwapRemove v_refines\<close>)
  next
    case False
    then show ?thesis using vec_repD(3) [OF rep]
      by (simp add: VSwapRemove vec_swap_remove_def v_elem_def refines_panic)
  qed
next
  case (VTruncate n)
  show ?thesis by (rule vec_truncate_rep [OF rep, of n]) (simp add: VTruncate v_refines)
next
  case VClear
  show ?thesis by (rule vec_clear_rep [OF rep]) (simp add: VClear v_refines)
next
  case (VResize n x)
  from vec_resize_cases [OF rep, of n x] show ?thesis by cases (simp_all add: VResize v_refines)
next
  case (VExtendFromWithin sb eb)
  show ?thesis
  proof (cases rule: slice_range_cases [of sb eb "length xs"])
    case 1
    then show ?thesis using vec_repD(3) [OF rep]
      by (simp add: VExtendFromWithin extend_from_within_def v_unit_def refines_panic)
  next
    case (2 s e)
    from extend_from_within_cases [OF rep 2] show ?thesis
      by cases (simp_all add: VExtendFromWithin 2 v_refines)
  qed
next
  case (VExtend ys)
  from append_elements_cases [OF rep, of ys] show ?thesis by cases (simp_all add: VExtend v_refines)
next
  case (VRetain p)
  have "retain_list (\<lambda>x. Some (p x, x)) xs = (False, filter p xs, filter (\<lambda>x. \<not> p x) xs, [])"
    by (subst retain_list_total [where g = "\<lambda>x. (p x, x)"]) (simp_all add: comp_def)
  then show ?thesis
    by (rule vec_retain_mut_rep [OF rep]) (simp add: VRetain v_refines)
next
  case (VDedup same)
  show ?thesis
  proof (cases xs)
    case Nil
    then show ?thesis using rep vec_repD(3) [OF rep] by (simp add: VDedup dedup_by_def v_refines)
  next
    case (Cons x ys)
    obtain ks ds where ref: "dedup_list same x ys = (ks, ds)" by (cases "dedup_list same x ys")
    show ?thesis
      by (rule dedup_by_rep [OF rep [unfolded Cons] ref]) (simp add: VDedup Cons ref v_refines)
  qed
next
  case (VDrain sb eb)
  show ?thesis
  proof (cases rule: slice_range_cases [of sb eb "length xs"])
    case 1
    then show ?thesis using vec_repD(3) [OF rep]
      by (simp add: VDrain vec_drain_def v_elems_def refines_panic)
  next
    case (2 s e)
    obtain d where d: "vec_drain v sb eb = Inr d"
      "drain_rep d (take s xs) (take (e - s) (drop s xs)) (drop e xs)"
      using vec_drain_rep [OF rep 2] by blast
    show ?thesis
      by (rule drain_drop_rep [OF d(2)]) (simp add: VDrain 2 d(1) v_refines)
  qed
next
  case (VReserve n)
  from vec_reserve_cases [OF rep, of n] show ?thesis by cases (simp_all add: VReserve v_refines)
next
  case VShrinkToFit
  then show ?thesis using vec_shrink_to_fit_refines [OF rep] by simp
next
  case (VShrinkTo n)
  then show ?thesis using vec_shrink_to_refines [OF rep] by simp
qed

interpretation vec: container vec_rep vec_step vec_spec vec_grows
  by unfold_locales (rule vec_step_refines)

text \<open>A drain is a container too: it yields from both ends of the drained range.\<close>

definition drain_step :: "bool \<Rightarrow> 'a drain \<Rightarrow> ('a option \<times> 'a drain) res" where
  "drain_step front d = (if front then drain_next d else drain_next_back d)"

definition drain_spec :: "bool \<Rightarrow> 'a list \<Rightarrow> string + 'a option \<times> 'a list" where
  "drain_spec front ms =
     Inr (if ms = [] then (None, []) else if front then (Some (hd ms), tl ms)
          else (Some (List.last ms), butlast ms))"

interpretation drain: container "\<lambda>d ms. drain_rep d hs ms ts" drain_step drain_spec "\<lambda>_. False"
  for hs ts
proof
  fix d :: "'a drain" and ms op
  assume rep: "drain_rep d hs ms ts"
  show "refines False (\<lambda>d ms. drain_rep d hs ms ts) (drain_step op d) (drain_spec op ms)"
  proof (cases "ms = []")
    case True
    then show ?thesis
      using rep drain_next_rep(1) [OF rep] drain_next_back_rep(1) [OF rep]
      by (simp add: drain_step_def drain_spec_def refines_ok)
  next
    case False
    then show ?thesis
      using drain_next_rep [OF rep] drain_next_back_rep [OF rep]
      by (simp add: drain_step_def drain_spec_def refines_ok)
  qed
qed

section \<open>Properties\<close>

definition sample_vec :: "nat vec" where
  "sample_vec = \<lparr>v_buf = buffer_of [Some 3, Some 3, Some 5, Some 8, None, None], v_len = 4\<rparr>"

lemma sample_vec_rep: "vec_rep sample_vec [3, 3, 5, 8]"
  using buffer_of_inv [of "[Some 3, Some 3, Some 5, Some 8, None, None :: nat option]"] u64_layout_ok(3)
  by (auto simp: vec_rep_def vec_wf_def sample_vec_def segment_Cons) (simp_all add: buffer_of_def)

text \<open>
  C2: a \<open>Vec\<close> is a list. Any sequence of operations on a new vector gives the outputs, the panics
  and the final contents that the list semantics \<open>vec_spec\<close> gives, or fails as a refused
  allocation fails, and only when an operation of the sequence may ask the allocator. Nothing a
  safe client does causes undefined behaviour.
\<close>

theorem vec_refines_list:
  assumes "layout_wf e" "lay_align e dvd lay_size e" "0 < lay_size e"
  shows "refines (\<exists>op \<in> set ops. vec_grows op) vec_rep
    (run_steps vec_step ops (vec_new_in alloc e)) (run_steps vec_spec ops [])"
  by (rule vec.run_refines [OF vec_new_rep [OF assms]])

theorem vec_refines_list_witness:
  "refines True vec_rep
     (run_steps vec_step [VExtend [1, 2, 2, 3], VDedup (=), VInsert 1 (9 :: nat), VRemove 7]
       (vec_new_in (\<lambda>_. True) u64_layout))
     (Inl ''removal index (is {index}) should be < len (is {len})'')"
  using vec_refines_list [OF u64_layout_ok, of
      "[VExtend [1, 2, 2, 3], VDedup (=), VInsert 1 (9 :: nat), VRemove 7]" "\<lambda>_. True"]
  by simp

text \<open>
  C14: \<open>Vec::retain_mut\<close> is exact and safe against panics. If the closure never panics, the kept
  elements stay in order with the values it left in them and the others are dropped once each,
  in order. If it panics, the call unwinds with the kept elements followed by the elements not
  yet looked at: nothing is lost, duplicated or dropped twice.
\<close>

theorem vec_retain_mut_panic_safe:
  assumes "vec_rep v xs" "retain_list f xs = (unwinds, ks, ds, rest)"
  shows "(\<exists>v'. vec_retain_mut v f = Inr (unwinds, ds, v') \<and> vec_rep v' (ks @ rest)) \<and>
    length ks + length ds + length rest = length xs \<and>
    rest = drop (length ks + length ds) xs \<and> (unwinds \<longleftrightarrow> rest \<noteq> [])"
proof -
  have "length xs - length rest = length ks + length ds"
    using retain_list_rest [OF assms(2)] by linarith
  then show ?thesis
    using vec_retain_mut_rep [OF assms] retain_list_rest [OF assms(2)] by metis
qed

theorem vec_retain_mut_panic_safe_witness:
  "\<exists>v'. vec_retain_mut sample_vec (\<lambda>x. if x = 5 then None else Some (False, x)) = Inr (True, [3, 3], v') \<and>
    vec_rep v' [5, 8]"
  using vec_retain_mut_panic_safe [OF sample_vec_rep, of "\<lambda>x. if x = 5 then None else Some (False, x)"]
  by simp

text \<open>
  C21: \<open>dedup_by\<close> removes consecutive duplicates: an element is dropped when the closure identifies
  it with the last element kept, every element is kept or dropped exactly once, and with
  equality as the closure what remains is the list without adjacent repetitions.
\<close>

theorem dedup_by_correct:
  assumes "vec_rep v (x # xs)" "dedup_list same x xs = (ks, ds)"
  shows "(\<exists>v'. dedup_by v same = Inr (ds, v') \<and> vec_rep v' (x # ks)) \<and>
    mset ks + mset ds = mset xs \<and> (same = (=) \<longrightarrow> x # ks = remdups_adj (x # xs))"
  using dedup_by_rep [OF assms] dedup_list_mset [OF assms(2)] dedup_list_eq [of x xs] assms(2)
  by (metis fst_conv)

theorem dedup_by_correct_witness:
  "\<exists>v'. dedup_by sample_vec (=) = Inr ([3], v') \<and> vec_rep v' [3, 5, 8]"
  using dedup_by_correct [OF sample_vec_rep, of "(=)"] by simp

text \<open>
  C17: a \<open>Drain\<close> over a range yields the range's elements from both ends in any interleaving, and
  when it is dropped the elements it did not yield are dropped and the vector holds what was
  before and after the range; \<open>keep_rest\<close> puts the elements it did not yield back in between.
\<close>

theorem drain_correct:
  assumes "vec_rep v xs" "slice_range sb eb (length xs) = Inr (s, e)"
    and "run_steps drain_spec calls (take (e - s) (drop s xs)) = Inr (outs, left)"
  shows "\<exists>d d' v' v''. vec_drain v sb eb = Inr d \<and> run_steps drain_step calls d = Inr (outs, d') \<and>
    drain_drop d' = Inr (left, v') \<and> vec_rep v' (take s xs @ drop e xs) \<and>
    drain_keep_rest d' = Inr v'' \<and> vec_rep v'' (take s xs @ left @ drop e xs)"
proof -
  obtain d where d: "vec_drain v sb eb = Inr d"
    "drain_rep d (take s xs) (take (e - s) (drop s xs)) (drop e xs)"
    using vec_drain_rep [OF assms(1,2)] by blast
  obtain d' where d': "run_steps drain_step calls d = Inr (outs, d')"
    "drain_rep d' (take s xs) left (drop e xs)"
    using drain.run_without_growth [OF d(2) _ assms(3)] by auto
  from drain_drop_rep [OF d'(2)] drain_keep_rest_rep [OF d'(2)] d(1) d'(1) show ?thesis by metis
qed

theorem drain_correct_witness:
  "\<exists>d d' v'. vec_drain sample_vec (Included 1) (Excluded 4) = Inr d \<and>
    run_steps drain_step [False] d = Inr ([Some 8], d') \<and>
    drain_drop d' = Inr ([3, 5], v') \<and> vec_rep v' [3]"
  using drain_correct [OF sample_vec_rep, of "Included 1" "Excluded 4" 1 4 "[False]" "[Some 8]" "[3, 5]"]
  by (auto simp: slice_range_def drain_spec_def)

end
