(* ===== verification/Binary_Heap_Spec.thy ===== *)
theory Binary_Heap_Spec
  imports Binary_Heap_Ops Rust_Vec_Spec
begin

text \<open>
  The contract of \<open>BinaryHeap\<close>. The abstract value of a heap is the multiset of its elements;
  under a lawful comparison the vector is in heap order. The locale \<open>priority_queue\<close> states the
  laws a client relies on; its interpretation on the model discharges them for the code.
\<close>

section \<open>Priority queues\<close>

text \<open>What a client relies on, over the multiset of the elements: \<open>push\<close> adds one or fails as a
  refused allocation fails, \<open>pop\<close> removes a greatest one, \<open>peek\<close> returns a greatest one.\<close>

locale priority_queue =
  fixes cmp :: "'a cmp"
    and rep :: "'q \<Rightarrow> 'a multiset \<Rightarrow> bool"
    and push :: "'q \<Rightarrow> 'a \<Rightarrow> 'q res"
    and pop :: "'q \<Rightarrow> ('a option \<times> 'q) res"
    and peek :: "'q \<Rightarrow> 'a option res"
  assumes push_adds: "rep q M \<Longrightarrow>
      reserve_fails (push q x) \<or> (\<exists>q'. push q x = Inr q' \<and> rep q' (add_mset x M))"
    and pop_empty: "rep q {#} \<Longrightarrow> \<exists>q'. pop q = Inr (None, q') \<and> rep q' {#}"
    and pop_greatest: "rep q M \<Longrightarrow> M \<noteq> {#} \<Longrightarrow>
      \<exists>x q'. pop q = Inr (Some x, q') \<and> peek q = Inr (Some x) \<and> x \<in># M \<and>
        (\<forall>y \<in># M. is_le (cmp y x)) \<and> rep q' (M - {#x#})"

text \<open>\<open>IntoIterSorted\<close>: each call of \<open>next\<close> pops; \<open>n\<close> calls.\<close>

fun pop_times :: "('q \<Rightarrow> ('a option \<times> 'q) res) \<Rightarrow> nat \<Rightarrow> 'q \<Rightarrow> ('a option list \<times> 'q) res" where
  "pop_times pop 0 q = Inr ([], q)"
| "pop_times pop (Suc n) q =
     and_then (pop q) (\<lambda>(x, q). and_then (pop_times pop n q) (\<lambda>(xs, q). Inr (x # xs, q)))"

context priority_queue
begin

lemma pop_times_sorted:
  assumes "rep q M" "n \<le> size M"
  shows "\<exists>xs q'. pop_times pop n q = Inr (map Some xs, q') \<and> length xs = n \<and>
    mset xs \<subseteq># M \<and> rep q' (M - mset xs) \<and> sorted_wrt (\<lambda>a b. is_le (cmp b a)) xs \<and>
    (\<forall>x \<in> set xs. \<forall>y \<in># M - mset xs. is_le (cmp y x))"
  using assms
proof (induction n arbitrary: q M)
  case (Suc n)
  have ne: "M \<noteq> {#}" using Suc.prems(2) by auto
  obtain x q1 where x: "pop q = Inr (Some x, q1)" "x \<in># M" "\<forall>y \<in># M. is_le (cmp y x)" "rep q1 (M - {#x#})"
    using pop_greatest [OF Suc.prems(1) ne] by blast
  have n: "n \<le> size (M - {#x#})" using Suc.prems(2) x(2) by (simp add: size_Diff_singleton)
  obtain xs q' where xs: "pop_times pop n q1 = Inr (map Some xs, q')" "length xs = n"
    "mset xs \<subseteq># M - {#x#}" "rep q' (M - {#x#} - mset xs)" "sorted_wrt (\<lambda>a b. is_le (cmp b a)) xs"
    "\<forall>x' \<in> set xs. \<forall>y \<in># M - {#x#} - mset xs. is_le (cmp y x')"
    using Suc.IH [OF x(4) n] by blast
  have eq: "M - mset (x # xs) = M - {#x#} - mset xs" by (simp add: multiset_eq_iff)
  have sub: "y \<in># M" if "y \<in> set xs \<or> y \<in># M - {#x#} - mset xs" for y
  proof -
    have "y \<in># M - {#x#}"
      using that mset_subset_eqD [OF xs(3), of y] in_diffD [of y "M - {#x#}" "mset xs"] by auto
    then show ?thesis by (rule in_diffD)
  qed
  have "mset (x # xs) \<subseteq># M" using xs(3) x(2) by (simp add: insert_subset_eq_iff)
  moreover have "is_le (cmp y x')" if "x' \<in> set (x # xs)" "y \<in># M - mset (x # xs)" for x' y
  proof -
    have y: "y \<in># M - {#x#} - mset xs" using that(2) unfolding eq .
    from set_ConsD [OF that(1)] show ?thesis
    proof
      assume "x' = x"
      then show ?thesis using x(3) sub y by blast
    next
      assume "x' \<in> set xs"
      then show ?thesis using xs(6) y by blast
    qed
  qed
  moreover have "\<forall>y \<in> set xs. is_le (cmp y x)" using x(3) sub by blast
  then have "sorted_wrt (\<lambda>a b. is_le (cmp b a)) (x # xs)" using xs(5) by simp
  moreover have "rep q' (M - mset (x # xs))" using xs(4) unfolding eq .
  moreover have "pop_times pop (Suc n) q = Inr (map Some (x # xs), q')" "length (x # xs) = Suc n"
    using x(1) xs(1,2) by simp_all
  ultimately show ?case by blast
qed simp

lemma pop_all_sorted:
  assumes "rep q M"
  obtains xs q' where "pop_times pop (Suc (size M)) q = Inr (map Some xs @ [None], q')"
    "mset xs = M" "rep q' {#}" "sorted_wrt (\<lambda>a b. is_le (cmp b a)) xs"
proof -
  obtain xs q' where xs: "pop_times pop (size M) q = Inr (map Some xs, q')" "length xs = size M"
    "mset xs \<subseteq># M" "rep q' (M - mset xs)" "sorted_wrt (\<lambda>a b. is_le (cmp b a)) xs"
    using pop_times_sorted [OF assms order_refl] by blast
  have M: "mset xs = M"
  proof (rule ccontr)
    assume "mset xs \<noteq> M"
    then have "mset xs \<subset># M" using xs(3) by (rule_tac subset_mset.le_neq_trans)
    from mset_subset_size [OF this] xs(2) show False by simp
  qed
  then obtain q'' where q'': "pop q' = Inr (None, q'')" "rep q'' {#}" using pop_empty xs(4) by auto
  have "pop_times pop (n + 1) r = Inr (map Some ys @ [None], q'')"
    if "pop_times pop n r = Inr (map Some ys, q')" for n r ys
    using that
  proof (induction n arbitrary: r ys)
    case 0
    then show ?case using q''(1) by simp
  next
    case (Suc n)
    then obtain z zs r' where "pop r = Inr (z, r')" "pop_times pop n r' = Inr (zs, q')" "map Some ys = z # zs"
      by (auto simp: and_then_Inr_iff)
    with Suc.IH show ?case by (auto simp: map_eq_Cons_conv)
  qed
  from this [OF xs(1)] show thesis using that M q''(2) xs(5) by simp
qed

end

definition heap_rep :: "'a cmp \<Rightarrow> 'a vec \<Rightarrow> 'a multiset \<Rightarrow> bool" where
  "heap_rep cmp v M \<longleftrightarrow> lawful_cmp cmp \<and> (\<exists>ys. vec_rep v ys \<and> is_heap cmp ys \<and> mset ys = M)"

lemma heap_greatest:
  assumes "lawful_cmp cmp" "is_heap cmp ys" "ys \<noteq> []"
  shows "ys ! 0 \<in># mset ys" "\<forall>y \<in># mset ys. is_le (cmp y (ys ! 0))"
  using heap_on_max [OF assms(1,2)] assms(3) by (auto simp: in_set_conv_nth intro!: nth_mem)

interpretation binary_heap: priority_queue cmp "heap_rep cmp" "heap_push cmp" "heap_pop cmp" heap_peek
  for cmp
proof
  fix q :: "'a vec" and M :: "'a multiset" and x
  assume "heap_rep cmp q M"
  then obtain ys where ys: "lawful_cmp cmp" "vec_rep q ys" "is_heap cmp ys" "mset ys = M"
    by (auto simp: heap_rep_def)
  show "reserve_fails (heap_push cmp q x) \<or>
    (\<exists>q'. heap_push cmp q x = Inr q' \<and> heap_rep cmp q' (add_mset x M))"
    by (rule heap_push_rep [OF ys(2), of cmp x]) (use ys in \<open>auto simp: heap_rep_def\<close>)
  show "\<exists>q'. heap_pop cmp q = Inr (None, q') \<and> heap_rep cmp q' {#}" if "heap_rep cmp q {#}"
  proof -
    obtain us where us: "vec_rep q us" "is_heap cmp us" "us = []"
      using \<open>heap_rep cmp q {#}\<close> by (auto simp: heap_rep_def)
    obtain v' zs where z: "heap_pop cmp q = Inr (None, v')" "vec_rep v' zs" "{#} = mset zs"
      "lawful_cmp cmp \<Longrightarrow> is_heap cmp us \<Longrightarrow> is_heap cmp zs"
      using heap_pop_rep [OF us(1), of cmp] us(3) by auto
    then show ?thesis using ys(1) us(2) by (auto simp: heap_rep_def)
  qed
  show "\<exists>x q'. heap_pop cmp q = Inr (Some x, q') \<and> heap_peek q = Inr (Some x) \<and> x \<in># M \<and>
      (\<forall>y \<in># M. is_le (cmp y x)) \<and> heap_rep cmp q' (M - {#x#})" if "M \<noteq> {#}"
  proof -
    have ne: "ys \<noteq> []" using that ys(4) by auto
    obtain v' zs where z: "heap_pop cmp q = Inr (Some (ys ! 0), v')" "vec_rep v' zs"
      "mset ys = add_mset (ys ! 0) (mset zs)"
      "lawful_cmp cmp \<Longrightarrow> is_heap cmp ys \<Longrightarrow> is_heap cmp zs"
      using heap_pop_rep [OF ys(2), of cmp] ne by auto
    have "mset zs = M - {#ys ! 0#}" using z(3) ys(4) by simp
    then show ?thesis
      using z heap_peek_rep [OF ys(2)] heap_greatest [OF ys(1,3) ne] ys ne by (auto simp: heap_rep_def)
  qed
qed

section \<open>Any use of a heap\<close>

text \<open>The operations as one datatype. \<open>heap_step\<close> returns the elements that leave the heap (popped,
  rejected, overwritten, or refused by an empty heap), \<open>heap_in\<close> gives those that enter it.\<close>

datatype 'a heap_op =
  HPush 'a | HPop | HExtend "'a list" | HRetain "'a \<Rightarrow> bool option" | HPeekStore 'a | HPeekPop

fun heap_step :: "'a cmp \<Rightarrow> 'a heap_op \<Rightarrow> 'a vec \<Rightarrow> ('a list \<times> 'a vec) res" where
  "heap_step cmp (HPush x) v = and_then (heap_push cmp v x) (\<lambda>v. Inr ([], v))"
| "heap_step cmp HPop v =
     and_then (heap_pop cmp v) (\<lambda>(x, v). Inr (case x of None \<Rightarrow> [] | Some x \<Rightarrow> [x], v))"
| "heap_step cmp (HExtend xs) v = and_then (heap_extend cmp v xs) (\<lambda>v. Inr ([], v))"
| "heap_step cmp (HRetain f) v = and_then (heap_retain cmp v f) (\<lambda>(_, ds, v). Inr (ds, v))"
| "heap_step cmp (HPeekStore x) v =
     (case heap_peek_mut v of
        None \<Rightarrow> Inr ([x], v)
      | Some p \<Rightarrow>
          and_then (ptr_read (v_mem (pm_heap p)) 0) (\<lambda>old.
            and_then (peek_mut_store p x) (\<lambda>p.
              and_then (peek_mut_drop cmp p) (\<lambda>v. Inr ([old], v)))))"
| "heap_step cmp HPeekPop v =
     (case heap_peek_mut v of
        None \<Rightarrow> Inr ([], v)
      | Some p \<Rightarrow> and_then (peek_mut_pop cmp p) (\<lambda>(x, v). Inr ([x], v)))"

fun heap_in :: "'a heap_op \<Rightarrow> 'a list" where
  "heap_in (HPush x) = [x]"
| "heap_in (HExtend xs) = xs"
| "heap_in (HPeekStore x) = [x]"
| "heap_in _ = []"

lemma peek_mut_rep:
  "vec_rep v ys \<Longrightarrow> heap_peek_mut v = (if ys = [] then None else Some \<lparr>pm_heap = v, pm_original_len = None\<rparr>)"
  by (simp add: heap_peek_mut_def vec_repD(3))

lemma peek_store_drop_rep:
  assumes rep: "vec_rep v ys" and ne: "ys \<noteq> []"
  obtains p v' zs where "peek_mut_store \<lparr>pm_heap = v, pm_original_len = None\<rparr> x = Inr p"
    "vec_rep (pm_heap p) [x]" "peek_mut_drop cmp p = Inr v'" "vec_rep v' zs" "mset zs = mset (ys[0 := x])"
    "lawful_cmp cmp \<Longrightarrow> is_heap cmp ys \<Longrightarrow> is_heap cmp zs"
proof -
  let ?p = "\<lparr>pm_heap = v, pm_original_len = None\<rparr>"
  have "peek_rep ?p ys" using rep ne by (simp add: peek_rep_def)
  from peek_store_rep [OF this, of x] obtain p where p: "peek_mut_store ?p x = Inr p" "peek_rep p (ys[0 := x])" "vec_rep (pm_heap p) [x]"
    "pm_original_len p \<noteq> None \<or> length ys = 1"
    .
  obtain v' zs where z: "peek_mut_drop cmp p = Inr v'" "vec_rep v' zs" "mset zs = mset (ys[0 := x])"
    "\<forall>xs. lawful_cmp cmp \<longrightarrow> is_heap cmp xs \<longrightarrow> ys[0 := x] = xs[0 := ys[0 := x] ! 0] \<longrightarrow>
       pm_original_len p \<noteq> None \<or> length (ys[0 := x]) = 1 \<or> ys[0 := x] = xs \<longrightarrow> is_heap cmp zs"
    using peek_drop_rep [OF p(2), of cmp] .
  have "is_heap cmp zs" if "lawful_cmp cmp" "is_heap cmp ys"
    using z(4) that p(4) ne by (metis length_list_update list_update_overwrite nth_list_update_eq length_greater_0_conv)
  with that [OF p(1,3) z(1-3)] show thesis by blast
qed

lemma heap_step_correct:
  assumes rep: "vec_rep v ys"
  shows "reserve_fails (heap_step cmp op v) \<or>
    (\<exists>out v' zs. heap_step cmp op v = Inr (out, v') \<and> vec_rep v' zs \<and>
      mset out + mset zs = mset (heap_in op) + mset ys \<and>
      (lawful_cmp cmp \<longrightarrow> is_heap cmp ys \<longrightarrow> is_heap cmp zs))"
proof (cases op)
  case (HPush x)
  from heap_push_rep [OF rep, of cmp x] show ?thesis
    by cases (auto simp: HPush reserve_fails_and_then)
next
  case HPop
  show ?thesis by (rule heap_pop_rep [OF rep, of cmp]) (auto simp: HPop split: if_splits)
next
  case (HExtend xs)
  from heap_extend_rep [OF rep, of cmp xs] show ?thesis
    by cases (auto simp: HExtend reserve_fails_and_then)
next
  case (HRetain f)
  obtain unwinds ks ds rest where
    ref: "retain_list (\<lambda>x. map_option (\<lambda>keep. (keep, x)) (f x)) ys = (unwinds, ks, ds, rest)"
    by (rule prod_cases4)
  show ?thesis
    by (rule heap_retain_rep [OF rep ref, of cmp]) (auto simp: HRetain retain_list_prefix(3) [OF ref])
next
  case (HPeekStore x)
  show ?thesis
  proof (cases ys)
    case Nil
    then show ?thesis using rep by (auto simp: HPeekStore peek_mut_rep)
  next
    case (Cons a as)
    then have ne: "ys \<noteq> []" by simp
    have rd: "ptr_read (v_mem v) 0 = Inr a"
      using vec_repD(4,5) [OF rep] vec_repD(9) [OF rep, of 0] Cons by simp
    show ?thesis
      by (rule peek_store_drop_rep [OF rep ne, of x cmp])
        (use rd Cons in \<open>auto simp: HPeekStore peek_mut_rep [OF rep]\<close>)
  qed
next
  case HPeekPop
  show ?thesis
  proof (cases "ys = []")
    case True
    then show ?thesis using rep by (auto simp: HPeekPop peek_mut_rep)
  next
    case False
    show ?thesis
      by (rule heap_pop_rep [OF rep, of cmp])
        (use False in \<open>auto simp: HPeekPop peek_mut_rep [OF rep] peek_mut_pop_def\<close>)
  qed
qed

lemma heap_run_correct:
  assumes "vec_rep v ys"
  shows "reserve_fails (run_steps (heap_step cmp) ops v) \<or>
    (\<exists>outs v' zs. run_steps (heap_step cmp) ops v = Inr (outs, v') \<and> vec_rep v' zs \<and>
      mset (concat outs) + mset zs = mset (concat (map heap_in ops)) + mset ys \<and>
      (lawful_cmp cmp \<longrightarrow> is_heap cmp ys \<longrightarrow> is_heap cmp zs))"
  using assms
proof (induction ops arbitrary: v ys)
  case (Cons op ops)
  from heap_step_correct [OF Cons.prems, of cmp op] show ?case
  proof
    assume "reserve_fails (heap_step cmp op v)"
    then show ?thesis by (simp add: reserve_fails_and_then)
  next
    assume "\<exists>out v' zs. heap_step cmp op v = Inr (out, v') \<and> vec_rep v' zs \<and>
      mset out + mset zs = mset (heap_in op) + mset ys \<and> (lawful_cmp cmp \<longrightarrow> is_heap cmp ys \<longrightarrow> is_heap cmp zs)"
    then obtain out v1 zs where s: "heap_step cmp op v = Inr (out, v1)" "vec_rep v1 zs"
      "mset out + mset zs = mset (heap_in op) + mset ys" "lawful_cmp cmp \<longrightarrow> is_heap cmp ys \<longrightarrow> is_heap cmp zs"
      by blast
    from Cons.IH [OF s(2)] show ?thesis
    proof
      assume "reserve_fails (run_steps (heap_step cmp) ops v1)"
      then show ?thesis using s(1) by (simp add: reserve_fails_and_then)
    next
      assume "\<exists>outs v' us. run_steps (heap_step cmp) ops v1 = Inr (outs, v') \<and> vec_rep v' us \<and>
        mset (concat outs) + mset us = mset (concat (map heap_in ops)) + mset zs \<and>
        (lawful_cmp cmp \<longrightarrow> is_heap cmp zs \<longrightarrow> is_heap cmp us)"
      then obtain outs v' us where r: "run_steps (heap_step cmp) ops v1 = Inr (outs, v')" "vec_rep v' us"
        "mset (concat outs) + mset us = mset (concat (map heap_in ops)) + mset zs"
        "lawful_cmp cmp \<longrightarrow> is_heap cmp zs \<longrightarrow> is_heap cmp us"
        by blast
      have "mset (concat (out # outs)) + mset us = mset (concat (map heap_in (op # ops))) + mset ys"
        using s(3) r(3) by (simp add: ac_simps)
      moreover have "run_steps (heap_step cmp) (op # ops) v = Inr (out # outs, v')"
        using s(1) r(1) by simp
      ultimately show ?thesis using r(2,4) s(4) by blast
    qed
  qed
qed auto

section \<open>Properties\<close>

definition sample_heap :: "nat vec" where
  "sample_heap = \<lparr>v_buf = buffer_of [Some 8, Some 5, Some 3, Some 3, None, None], v_len = 4\<rparr>"

lemma sample_heap_rep: "vec_rep sample_heap [8, 5, 3, 3]"
  using buffer_of_inv [of "[Some 8, Some 5, Some 3, Some 3, None, None :: nat option]"] u64_layout_ok(3)
  by (auto simp: vec_rep_def vec_wf_def sample_heap_def segment_Cons) (simp_all add: buffer_of_def)

lemma sample_heap_order: "is_heap cmp_of [8, 5, 3, 3 :: nat]"
  by (auto simp: heap_on_def child_of_def nth_Cons numeral_2_eq_2 split: nat.splits)



text \<open>
  C8: for a lawful comparison, popping a heap until it is empty (\<open>IntoIterSorted\<close>) yields every
  element once, in descending order, and then \<open>None\<close>.
\<close>

theorem heap_pops_descending:
  assumes "lawful_cmp cmp" "vec_rep v ys" "is_heap cmp ys"
  shows "\<exists>xs v'. pop_times (heap_pop cmp) (length ys + 1) v = Inr (map Some xs @ [None], v') \<and>
    mset xs = mset ys \<and> sorted_wrt (\<lambda>a b. is_le (cmp b a)) xs"
proof -
  have "heap_rep cmp v (mset ys)" using assms by (auto simp: heap_rep_def)
  from binary_heap.pop_all_sorted [OF this] show ?thesis by (metis Suc_eq_plus1 size_mset)
qed

theorem heap_pops_descending_witness:
  "\<exists>xs v'. pop_times (heap_pop cmp_of) (length [8, 5, 3, 3 :: nat] + 1) sample_heap =
      Inr (map Some xs @ [None], v') \<and>
    mset xs = mset [8, 5, 3, 3] \<and> sorted_wrt (\<lambda>a b. is_le (cmp_of b a)) xs"
  by (rule heap_pops_descending [OF lawful_cmp_of sample_heap_rep sample_heap_order])

text \<open>
  C7: heap sort. Turning a vector into a heap (\<open>rebuild\<close>) and the heap into a sorted vector
  (\<open>into_sorted_vec\<close>) permutes the elements for every comparison, and sorts them in ascending
  order for a lawful one.
\<close>

theorem heap_sort_correct:
  assumes "vec_rep v ys"
  shows "\<exists>w us v' zs. heap_from_vec cmp v = Inr w \<and> vec_rep w us \<and> mset us = mset ys \<and>
    (lawful_cmp cmp \<longrightarrow> is_heap cmp us) \<and>
    into_sorted_vec cmp w = Inr v' \<and> vec_rep v' zs \<and> mset zs = mset ys \<and>
    (lawful_cmp cmp \<longrightarrow> sorted_cmp cmp zs)"
proof -
  obtain w us where w: "rebuild cmp v = Inr w" "vec_rep w us" "mset us = mset ys"
    "lawful_cmp cmp \<Longrightarrow> is_heap cmp us"
    using rebuild_rep [OF assms, of cmp] by blast
  obtain v' zs where z: "sorted_loop cmp w (length us) = Inr v'" "vec_rep v' zs" "mset zs = mset us"
    "lawful_cmp cmp \<Longrightarrow> is_heap cmp us \<Longrightarrow> sorted_from cmp (length us) us \<Longrightarrow> sorted_cmp cmp zs"
    using sorted_loop_rep [OF w(2) order_refl, of cmp] by blast
  have "sorted_from cmp (length us) us" by (simp add: sorted_from_def)
  then show ?thesis
    using w z vec_repD(3) [OF w(2)] by (auto simp: heap_from_vec_def into_sorted_vec_def)
qed

theorem heap_sort_correct_witness:
  "\<exists>w us v' zs. heap_from_vec cmp_of sample_vec = Inr w \<and> vec_rep w us \<and>
    into_sorted_vec cmp_of w = Inr v' \<and> vec_rep v' zs \<and> mset zs = {#3, 3, 5, 8#} \<and> sorted zs"
  using heap_sort_correct [OF sample_vec_rep, of cmp_of] by auto

text \<open>
  C20: \<open>PeekMut\<close>. Storing through the mutable view and leaking the view leaves a vector that holds
  the stored element alone, a valid heap; dropping the view puts the whole heap back, with the
  greatest element replaced and the order restored.
\<close>

theorem peek_mut_correct:
  assumes "vec_rep v ys" "ys \<noteq> []"
  shows "\<exists>p p' v' zs. heap_peek_mut v = Some p \<and> peek_mut_store p x = Inr p' \<and>
    vec_rep (pm_heap p') [x] \<and> is_heap cmp [x] \<and>
    peek_mut_drop cmp p' = Inr v' \<and> vec_rep v' zs \<and> mset zs = mset (ys[0 := x]) \<and>
    (lawful_cmp cmp \<longrightarrow> is_heap cmp ys \<longrightarrow> is_heap cmp zs)"
  by (rule peek_store_drop_rep [OF assms, of x cmp]) (auto simp: peek_mut_rep [OF assms(1)] assms(2))

theorem peek_mut_correct_witness:
  "\<exists>p p' v' zs. heap_peek_mut sample_heap = Some p \<and> peek_mut_store p 4 = Inr p' \<and>
    peek_mut_drop cmp_of p' = Inr v' \<and> vec_rep v' zs \<and> mset zs = {#5, 4, 3, 3#} \<and> is_heap cmp_of zs"
  using peek_mut_correct [OF sample_heap_rep, of 4 cmp_of] sample_heap_order
  by (auto simp: add_mset_commute)

end
