(* ===== verification/Utf8.thy ===== *)
theory Utf8
  imports Rust_Vec
begin

text \<open>
  UTF-8: encoding of code points (\<open>core/src/char/methods.rs\<close>), decoding and validation
  (\<open>core/src/str/validations.rs\<close>), lossy decoding (\<open>core/src/str/lossy.rs\<close>), character boundaries
  (\<open>core/src/str/mod.rs\<close>). A \<open>char\<close> is a \<open>u32\<close> that satisfies \<open>is_char\<close>; a byte slice is a list.
\<close>

type_synonym u8 = "8 word"
type_synonym u16 = "16 word"
type_synonym u32 = "32 word"
type_synonym u64 = "64 word"

section \<open>Code points\<close>

definition is_char :: "u32 \<Rightarrow> bool" where
  "is_char i \<longleftrightarrow> i < 0x110000 \<and> \<not> (0xD800 \<le> i \<and> i < 0xE000)"

definition char_try_from_u32 :: "u32 \<Rightarrow> u32 option" where
  "char_try_from_u32 i = (if (i XOR 0xD800) - 0x800 \<ge> 0x110000 - 0x800 then None else Some i)"

definition from_u32 :: "u32 \<Rightarrow> u32 option" where
  "from_u32 i = (case char_try_from_u32 i of Some c \<Rightarrow> Some c | None \<Rightarrow> None)"

definition from_u32_unchecked :: "u32 \<Rightarrow> u32 res" where
  "from_u32_unchecked i = ensure (UB BrokenAssumption) (char_try_from_u32 i \<noteq> None) (Inr i)"

definition MAX_ONE_B :: u32 where "MAX_ONE_B = 0x80"
definition MAX_TWO_B :: u32 where "MAX_TWO_B = 0x800"
definition MAX_THREE_B :: u32 where "MAX_THREE_B = 0x10000"

definition TAG_CONT :: u8 where "TAG_CONT = 0x80"
definition TAG_TWO_B :: u8 where "TAG_TWO_B = 0xC0"
definition TAG_THREE_B :: u8 where "TAG_THREE_B = 0xE0"
definition TAG_FOUR_B :: u8 where "TAG_FOUR_B = 0xF0"

definition CONT_MASK :: u8 where "CONT_MASK = 0x3F"

definition len_utf8 :: "u32 \<Rightarrow> usize" where
  "len_utf8 code =
     (if code < MAX_ONE_B then 1 else if code < MAX_TWO_B then 2
      else if code < MAX_THREE_B then 3 else 4)"

definition len_utf16 :: "u32 \<Rightarrow> usize" where
  "len_utf16 code = (if code AND 0xFFFF = code then 1 else 2)"

text \<open>The bytes that \<open>encode_utf8_raw_unchecked\<close> writes, in order of their addresses; the function;
  and its safe version, which gives the prefix of the buffer that holds the encoding.\<close>

definition utf8_bytes :: "u32 \<Rightarrow> u8 list" where
  "utf8_bytes code =
     (let len = len_utf8 code
      in if len = 1 then [ucast code]
         else let last1 = ucast (drop_bit 0 code AND 0x3F) OR TAG_CONT;
                  last2 = ucast (drop_bit 6 code AND 0x3F) OR TAG_CONT;
                  last3 = ucast (drop_bit 12 code AND 0x3F) OR TAG_CONT;
                  last4 = ucast (drop_bit 18 code AND 0x3F) OR TAG_FOUR_B
              in if len = 2 then [last2 OR TAG_TWO_B, last1]
                 else if len = 3 then [last3 OR TAG_THREE_B, last2, last1]
                 else [last4, last3, last2, last1])"

definition encode_utf8_raw_unchecked :: "u32 \<Rightarrow> u8 memory \<Rightarrow> usize \<Rightarrow> u8 memory res" where
  "encode_utf8_raw_unchecked code m dst = ptr_copy_from m dst (map Some (utf8_bytes code))"

definition encode_utf8_raw :: "u32 \<Rightarrow> u8 list \<Rightarrow> (u8 list \<times> u8 list) res" where
  "encode_utf8_raw code dst =
     (let len = len_utf8 code
      in if length dst < len
         then Inl (Panic ''encode_utf8: buffer does not have enough bytes to encode code point'')
         else and_then (encode_utf8_raw_unchecked code (map Some dst) 0) (\<lambda>m.
           and_then (assume_init m) (\<lambda>dst. Inr (take len dst, dst))))"

definition encode_utf16_raw :: "u32 \<Rightarrow> u16 list \<Rightarrow> (u16 list \<times> u16 list) res" where
  "encode_utf16_raw code dst =
     (let len = len_utf16 code
      in case (len, dst) of
           (Suc 0, a # rest) \<Rightarrow> let dst = ucast code # rest in Inr (take len dst, dst)
         | (Suc (Suc 0), a # b # rest) \<Rightarrow>
             let code = code - 0x10000;
                 dst = (ucast (drop_bit 10 code) OR 0xD800) # (ucast (code AND 0x3FF) OR 0xDC00) # rest
             in Inr (take len dst, dst)
         | _ \<Rightarrow> Inl (Panic ''encode_utf16: buffer does not have enough bytes to encode code point''))"

section \<open>Decoding\<close>

text \<open>The argument \<open>width\<close> of \<open>utf8_first_byte\<close> is a literal at every call.\<close>

definition utf8_first_byte :: "u8 \<Rightarrow> nat \<Rightarrow> u32" where
  "utf8_first_byte byte width = ucast (byte AND drop_bit width 0x7F)"

definition utf8_acc_cont_byte :: "u32 \<Rightarrow> u8 \<Rightarrow> u32" where
  "utf8_acc_cont_byte ch byte = push_bit 6 ch OR ucast (byte AND CONT_MASK)"

definition utf8_is_cont_byte :: "u8 \<Rightarrow> bool" where
  "utf8_is_cont_byte byte \<longleftrightarrow> sint byte < - 64"

definition is_utf8_char_boundary :: "u8 \<Rightarrow> bool" where
  "is_utf8_char_boundary b \<longleftrightarrow> sint b \<ge> - 0x40"

text \<open>\<open>next().unwrap_unchecked()\<close> on an exhausted iterator is undefined behaviour.\<close>

fun unwrap_next :: "u8 list \<Rightarrow> (u8 \<times> u8 list) res" where
  "unwrap_next [] = Inl (UB BrokenAssumption)"
| "unwrap_next (b # bytes) = Inr (b, bytes)"

definition unwrap_next_back :: "u8 list \<Rightarrow> (u8 \<times> u8 list) res" where
  "unwrap_next_back bytes =
     (if bytes = [] then Inl (UB BrokenAssumption) else Inr (last bytes, butlast bytes))"

fun next_code_point :: "u8 list \<Rightarrow> (u32 option \<times> u8 list) res" where
  "next_code_point [] = Inr (None, [])"
| "next_code_point (x # bytes) =
     (if x < 128 then Inr (Some (ucast x), bytes)
      else let init = utf8_first_byte x 2
           in and_then (unwrap_next bytes) (\<lambda>(y, bytes).
             let ch = utf8_acc_cont_byte init y
             in if x \<ge> 0xE0
                then and_then (unwrap_next bytes) (\<lambda>(z, bytes).
                  let y_z = utf8_acc_cont_byte (ucast (y AND CONT_MASK)) z;
                      ch = push_bit 12 init OR y_z
                  in if x \<ge> 0xF0
                     then and_then (unwrap_next bytes) (\<lambda>(w, bytes).
                       Inr (Some (push_bit 18 (init AND 7) OR utf8_acc_cont_byte y_z w), bytes))
                     else Inr (Some ch, bytes))
                else Inr (Some ch, bytes)))"

definition next_code_point_reverse :: "u8 list \<Rightarrow> (u32 option \<times> u8 list) res" where
  "next_code_point_reverse bytes =
     (if bytes = [] then Inr (None, [])
      else let w = last bytes; bytes = butlast bytes
           in if w < 128 then Inr (Some (ucast w), bytes)
              else and_then (unwrap_next_back bytes) (\<lambda>(z, bytes).
                and_then
                  (if utf8_is_cont_byte z
                   then and_then (unwrap_next_back bytes) (\<lambda>(y, bytes).
                     and_then
                       (if utf8_is_cont_byte y
                        then and_then (unwrap_next_back bytes) (\<lambda>(x, bytes).
                          Inr (utf8_acc_cont_byte (utf8_first_byte x 4) y, bytes))
                        else Inr (utf8_first_byte y 3, bytes))
                       (\<lambda>(ch, bytes). Inr (utf8_acc_cont_byte ch z, bytes)))
                   else Inr (utf8_first_byte z 2, bytes))
                  (\<lambda>(ch, bytes). Inr (Some (utf8_acc_cont_byte ch w), bytes))))"

text \<open>The iterator \<open>Chars\<close> at both ends.\<close>

definition as_char :: "(u32 option \<times> u8 list) res \<Rightarrow> (u32 option \<times> u8 list) res" where
  "as_char r = and_then r (\<lambda>(ch, bytes). case ch of
     None \<Rightarrow> Inr (None, bytes)
   | Some ch \<Rightarrow> and_then (from_u32_unchecked ch) (\<lambda>ch. Inr (Some ch, bytes)))"

definition chars_next :: "u8 list \<Rightarrow> (u32 option \<times> u8 list) res" where
  "chars_next bytes = as_char (next_code_point bytes)"

definition chars_next_back :: "u8 list \<Rightarrow> (u32 option \<times> u8 list) res" where
  "chars_next_back bytes = as_char (next_code_point_reverse bytes)"

section \<open>Validation\<close>

definition UTF8_CHAR_WIDTH :: "nat list" where
  "UTF8_CHAR_WIDTH =
     replicate 128 1 @ replicate 64 0 @ [0, 0] @ replicate 30 2 @ replicate 16 3 @
     replicate 5 4 @ replicate 11 0"

definition utf8_char_width :: "u8 \<Rightarrow> usize" where
  "utf8_char_width b = UTF8_CHAR_WIDTH ! unat b"

record utf8_error =
  valid_up_to :: usize
  error_len :: "nat option"

text \<open>The macros \<open>err!\<close> and \<open>next!\<close>, and the match on the width of the first byte: the index after
  the sequence that starts at \<open>old_offset\<close>, or an error.\<close>

definition utf8_err :: "usize \<Rightarrow> nat option \<Rightarrow> utf8_error + 'a" where
  "utf8_err old_offset len = Inl \<lparr>valid_up_to = old_offset, error_len = len\<rparr>"

definition utf8_next :: "u8 list \<Rightarrow> usize \<Rightarrow> usize \<Rightarrow> utf8_error + u8 \<times> usize" where
  "utf8_next v old_offset index =
     (let index = index + 1
      in if index \<ge> length v then utf8_err old_offset None else Inr (v ! index, index))"

definition second_of_three :: "u8 \<Rightarrow> u8 \<Rightarrow> bool" where
  "second_of_three first b \<longleftrightarrow>
     first = 0xE0 \<and> 0xA0 \<le> b \<and> b \<le> 0xBF \<or>
     0xE1 \<le> first \<and> first \<le> 0xEC \<and> 0x80 \<le> b \<and> b \<le> 0xBF \<or>
     first = 0xED \<and> 0x80 \<le> b \<and> b \<le> 0x9F \<or>
     0xEE \<le> first \<and> first \<le> 0xEF \<and> 0x80 \<le> b \<and> b \<le> 0xBF"

definition second_of_four :: "u8 \<Rightarrow> u8 \<Rightarrow> bool" where
  "second_of_four first b \<longleftrightarrow>
     first = 0xF0 \<and> 0x90 \<le> b \<and> b \<le> 0xBF \<or>
     0xF1 \<le> first \<and> first \<le> 0xF3 \<and> 0x80 \<le> b \<and> b \<le> 0xBF \<or>
     first = 0xF4 \<and> 0x80 \<le> b \<and> b \<le> 0x8F"

definition utf8_multibyte :: "u8 list \<Rightarrow> usize \<Rightarrow> utf8_error + usize" where
  "utf8_multibyte v old_offset =
     (let first = v ! old_offset; w = utf8_char_width first;
          next = utf8_next v old_offset; err = utf8_err old_offset
      in if w = 2 then
           and_then (next old_offset) (\<lambda>(b, index).
             if sint b \<ge> - 64 then err (Some 1) else Inr (index + 1))
         else if w = 3 then
           and_then (next old_offset) (\<lambda>(b, index).
             if \<not> second_of_three first b then err (Some 1)
             else and_then (next index) (\<lambda>(b, index).
               if sint b \<ge> - 64 then err (Some 2) else Inr (index + 1)))
         else if w = 4 then
           and_then (next old_offset) (\<lambda>(b, index).
             if \<not> second_of_four first b then err (Some 1)
             else and_then (next index) (\<lambda>(b, index).
               if sint b \<ge> - 64 then err (Some 2)
               else and_then (next index) (\<lambda>(b, index).
                 if sint b \<ge> - 64 then err (Some 3) else Inr (index + 1))))
         else err (Some 1))"

text \<open>A machine word read from memory on a little-endian target, at address \<open>addr + index\<close>; an
  unaligned read, or one past the end, is undefined behaviour.\<close>

fun le_word :: "u8 list \<Rightarrow> u64" where
  "le_word [] = 0"
| "le_word (b # bs) = ucast b OR push_bit 8 (le_word bs)"

definition read_usize :: "usize \<Rightarrow> u8 list \<Rightarrow> usize \<Rightarrow> u64 res" where
  "read_usize addr v index =
     ensure (UB OutOfBounds) (index + 8 \<le> length v)
       (ensure (UB BrokenAssumption) (8 dvd addr + index)
         (Inr (le_word (take 8 (drop index v)))))"

definition NONASCII_MASK :: u64 where "NONASCII_MASK = 0x8080808080808080"

definition contains_nonascii :: "u64 \<Rightarrow> bool" where
  "contains_nonascii x \<longleftrightarrow> x AND NONASCII_MASK \<noteq> 0"

function skip_ascii_blocks :: "usize \<Rightarrow> u8 list \<Rightarrow> usize \<Rightarrow> usize \<Rightarrow> usize res" where
  "skip_ascii_blocks addr v blocks_end index =
     (if index < blocks_end
      then and_then (read_usize addr v index) (\<lambda>u. and_then (read_usize addr v (index + 8)) (\<lambda>w.
             if contains_nonascii u \<or> contains_nonascii w then Inr index
             else skip_ascii_blocks addr v blocks_end (index + 16)))
      else Inr index)"
  by pat_completeness auto
termination
  by (relation "measure (\<lambda>(a, v, stop, i). stop - i)") auto

function skip_ascii_bytes :: "u8 list \<Rightarrow> usize \<Rightarrow> usize" where
  "skip_ascii_bytes v index =
     (if index < length v \<and> v ! index < 128 then skip_ascii_bytes v (index + 1) else index)"
  by pat_completeness auto
termination
  by (relation "measure (\<lambda>(v, i). length v - i)") auto

declare skip_ascii_blocks.simps [simp del] skip_ascii_bytes.simps [simp del]

text \<open>The main loop. \<open>align\<close> is what \<open>align_offset\<close> answers for the address of the slice (or
  \<open>usize::MAX\<close>, which it may also answer). The test \<open>index < next\<close> of the model is always true: it
  makes the recursion well-founded.\<close>

definition utf8_step :: "usize \<Rightarrow> usize \<Rightarrow> u8 list \<Rightarrow> usize \<Rightarrow> (utf8_error + usize) res" where
  "utf8_step addr align v index =
     (let len = length v; blocks_end = if len \<ge> 16 then len - 16 + 1 else 0
      in if v ! index \<ge> 128 then Inr (utf8_multibyte v index)
         else if align \<noteq> usize_max \<and> 8 dvd wrapping_sub align index
         then and_then (skip_ascii_blocks addr v blocks_end index) (\<lambda>index.
                Inr (Inr (skip_ascii_bytes v index)))
         else Inr (Inr (index + 1)))"

function utf8_validation_loop :: "usize \<Rightarrow> usize \<Rightarrow> u8 list \<Rightarrow> usize \<Rightarrow> (utf8_error + unit) res" where
  "utf8_validation_loop addr align v index =
     (if index < length v
      then try_then (utf8_step addr align v index) (\<lambda>next.
             if index < next then utf8_validation_loop addr align v next else Inl OutOfFuel)
      else Inr (Inr ()))"
  by pat_completeness auto
termination
  by (relation "measure (\<lambda>(a, al, v, i). length v - i)") auto

declare utf8_validation_loop.simps [simp del]

definition run_utf8_validation :: "usize \<Rightarrow> usize \<Rightarrow> u8 list \<Rightarrow> (utf8_error + unit) res" where
  "run_utf8_validation addr align v = utf8_validation_loop addr align v 0"

section \<open>Lossy decoding\<close>

record utf8_chunk =
  chunk_valid :: "u8 list"
  chunk_invalid :: "u8 list"

definition TAG_CONT_U8 :: u8 where "TAG_CONT_U8 = 128"

definition safe_get :: "u8 list \<Rightarrow> usize \<Rightarrow> u8" where
  "safe_get xs i = (if i < length xs then xs ! i else 0)"

text \<open>One round of the loop of \<open>Utf8Chunks::next\<close>, from the index of a first byte: whether it
  breaks, and the index it leaves.\<close>

definition chunk_char :: "u8 list \<Rightarrow> usize \<Rightarrow> bool \<times> usize" where
  "chunk_char source i =
     (let byte = source ! i; i = i + 1; cont = (\<lambda>i. safe_get source i AND 192 = TAG_CONT_U8)
      in if byte < 128 then (False, i)
         else let w = utf8_char_width byte
              in if w = 2 then if \<not> cont i then (True, i) else (False, i + 1)
                 else if w = 3 then
                   if \<not> second_of_three byte (safe_get source i) then (True, i)
                   else let i = i + 1 in if \<not> cont i then (True, i) else (False, i + 1)
                 else if w = 4 then
                   if \<not> second_of_four byte (safe_get source i) then (True, i)
                   else let i = i + 1
                        in if \<not> cont i then (True, i)
                           else let i = i + 1 in if \<not> cont i then (True, i) else (False, i + 1)
                 else (True, i))"

function chunk_loop :: "u8 list \<Rightarrow> usize \<Rightarrow> usize \<Rightarrow> usize \<times> usize" where
  "chunk_loop source i valid_end =
     (if i < length source
      then let (break, next) = chunk_char source i
           in if break then (next, valid_end) else chunk_loop source next next
      else (i, valid_end))"
  by pat_completeness auto
termination
  by (relation "measure (\<lambda>(v, i, u). length v - i)")
    (auto simp: chunk_char_def Let_def split: if_splits)

declare chunk_loop.simps [simp del]

definition utf8_chunks_next :: "u8 list \<Rightarrow> (utf8_chunk option \<times> u8 list) res" where
  "utf8_chunks_next source =
     (if source = [] then Inr (None, source)
      else let (i, valid_end) = chunk_loop source 0 0
           in ensure (UB OutOfBounds) (valid_end \<le> i \<and> i \<le> length source)
                (let inspected = take i source; remaining = drop i source
                 in Inr (Some \<lparr>chunk_valid = take valid_end inspected,
                               chunk_invalid = drop valid_end inspected\<rparr>, remaining)))"

section \<open>Boundaries\<close>

definition is_char_boundary :: "u8 list \<Rightarrow> usize \<Rightarrow> bool" where
  "is_char_boundary s index \<longleftrightarrow>
     (if index = 0 then True
      else if index \<ge> length s then index = length s
      else is_utf8_char_boundary (s ! index))"

fun floor_boundary_loop :: "u8 list \<Rightarrow> usize \<Rightarrow> usize" where
  "floor_boundary_loop s 0 = 0"
| "floor_boundary_loop s (Suc i) =
     (if is_utf8_char_boundary (s ! Suc i) then Suc i else floor_boundary_loop s i)"

definition floor_char_boundary :: "u8 list \<Rightarrow> usize \<Rightarrow> usize res" where
  "floor_char_boundary s index =
     (if index \<ge> length s then Inr (length s)
      else let i = floor_boundary_loop s index in ensure DebugAssert (i \<ge> index - 3) (Inr i))"

function ceil_boundary_loop :: "u8 list \<Rightarrow> usize \<Rightarrow> usize" where
  "ceil_boundary_loop s i =
     (if i < length s
      then if is_utf8_char_boundary (s ! i) then i else ceil_boundary_loop s (i + 1)
      else i)"
  by pat_completeness auto
termination
  by (relation "measure (\<lambda>(s, i). length s - i)") auto

declare ceil_boundary_loop.simps [simp del]

definition ceil_char_boundary :: "u8 list \<Rightarrow> usize \<Rightarrow> usize res" where
  "ceil_char_boundary s index =
     (if index \<ge> length s then Inr (length s)
      else let i = ceil_boundary_loop s index in ensure DebugAssert (i \<le> index + 3) (Inr i))"

end
