(* ===== verification/Utf8_Correct.thy ===== *)
theory Utf8_Correct
  imports Utf8
begin

text \<open>
  What the encoder, the decoders, the validator and the lossy decoder compute, and how they agree:
  everything is brought to natural numbers.
\<close>

section \<open>Words as numbers\<close>

lemma nat_or_add:
  fixes a b :: nat
  assumes "a < 2 ^ k" "2 ^ k dvd b"
  shows "a OR b = a + b"
proof -
  have "take_bit k a = a" using assms(1) by (simp add: take_bit_nat_eq_self_iff)
  moreover have "take_bit k b = 0" using assms(2) by (simp add: take_bit_eq_mod)
  ultimately have "\<not> bit a n \<or> \<not> bit b n" for n
    by (metis bit_take_bit_iff bit_0_eq bot_apply bot_bool_def)
  then show ?thesis by (intro disjunctive_add [symmetric]) blast
qed

lemma nat_and_63 [simp]: "(a::nat) AND 63 = a mod 64"
  using take_bit_eq_mask [of 6 a] by (simp add: take_bit_eq_mod mask_eq_exp_minus_1)

lemma unat_u8_less [simp]: "unat (b :: u8) < 256"
  using unsigned_less [of b] by simp

lemma unat_ucast_u8: "unat (ucast (c :: u32) :: u8) = unat c mod 256"
  by (simp add: unsigned_ucast_eq take_bit_eq_mod)

lemma unat_ucast_u32 [simp]: "unat (ucast (b :: u8) :: u32) = unat b"
  using unat_u8_less [of b] by (simp add: unsigned_ucast_eq take_bit_eq_mod del: unat_u8_less)

lemma unat_eq_iff: "a = b \<longleftrightarrow> unat a = unat b"
  by (simp add: word_unat_eq_iff)

lemma map_unat_inject [simp]: "map unat xs = map unat ys \<longleftrightarrow> xs = ys"
  by (simp add: inj_map_eq_map inj_def word_unat_eq_iff)

lemmas u8_less = word_less_nat_alt word_le_nat_alt


section \<open>Encoding\<close>

text \<open>The encoding of a code point with arithmetic instead of bit operations.\<close>

definition enc_nat :: "nat \<Rightarrow> nat list" where
  "enc_nat c =
     (if c < 0x80 then [c]
      else if c < 0x800 then [0xC0 + c div 64, 0x80 + c mod 64]
      else if c < 0x10000 then [0xE0 + c div 4096, 0x80 + c div 64 mod 64, 0x80 + c mod 64]
      else [0xF0 + c div 262144, 0x80 + c div 4096 mod 64, 0x80 + c div 64 mod 64, 0x80 + c mod 64])"

lemma unat_tag:
  assumes "unat (t :: u8) < 256" "unat x < 2 ^ k" "2 ^ k dvd unat t"
  shows "unat (ucast (x :: u32) OR t :: u8) = unat x mod 256 + unat t"
proof -
  have "unat x mod 256 < 2 ^ k" using assms(2) by (meson le_less_trans mod_less_eq_dividend)
  then show ?thesis using assms(3) by (simp add: unsigned_or_eq unat_ucast_u8 nat_or_add)
qed

lemma unat_shift_mask: "unat (drop_bit n (c :: u32) AND 0x3F) = unat c div 2 ^ n mod 64"
  unfolding unsigned_and_eq unat_drop_bit_eq by (simp add: drop_bit_eq_div)

lemma unat_cont: "unat (ucast (drop_bit n (c :: u32) AND 0x3F) OR TAG_CONT) = 0x80 + unat c div 2 ^ n mod 64"
  by (subst unat_tag [where k = 6]) (simp_all add: TAG_CONT_def unat_shift_mask)

lemma or_TAG:
  assumes "unat x < 64" "t \<in> {TAG_TWO_B, TAG_THREE_B, TAG_FOUR_B}"
  shows "unat ((ucast (x :: u32) OR TAG_CONT) OR t) = unat (ucast x OR t :: u8)"
proof -
  have "TAG_CONT OR t = t" using assms(2) by (auto simp: TAG_CONT_def TAG_TWO_B_def TAG_THREE_B_def TAG_FOUR_B_def)
  then show ?thesis by (simp add: or.assoc)
qed

lemma utf8_bytes_nat:
  assumes "unat c < 0x200000"
  shows "map unat (utf8_bytes c) = enc_nat (unat c)"
proof -
  have tag: "unat (ucast (drop_bit n c AND 0x3F) OR t :: u8) = unat t + unat c div 2 ^ n mod 64"
    if "2 ^ k dvd unat t" "unat c div 2 ^ n mod 64 < 2 ^ k" for n k and t :: u8
    using that by (subst unat_tag [where k = k]) (simp_all add: unat_shift_mask)
  have two: "unat ((ucast (drop_bit 6 c AND 0x3F) OR TAG_CONT) OR TAG_TWO_B) = 0xC0 + unat c div 64"
    if "unat c < 0x800"
    using that by (subst or_TAG) (auto simp: unat_shift_mask TAG_TWO_B_def tag [where k = 6])
  have three: "unat ((ucast (drop_bit 12 c AND 0x3F) OR TAG_CONT) OR TAG_THREE_B) = 0xE0 + unat c div 4096"
    if "unat c < 0x10000"
    using that by (subst or_TAG) (auto simp: unat_shift_mask TAG_THREE_B_def tag [where k = 5])
  have four: "unat (ucast (drop_bit 18 c AND 0x3F) OR TAG_FOUR_B) = 0xF0 + unat c div 262144"
    using assms by (subst tag [where k = 4]) (auto simp: TAG_FOUR_B_def)
  show ?thesis
    using two three four unat_cont [of 0 c] unat_cont [of 6 c] unat_cont [of 12 c]
    by (auto simp: utf8_bytes_def enc_nat_def len_utf8_def Let_def MAX_ONE_B_def MAX_TWO_B_def
        MAX_THREE_B_def u8_less unat_ucast_u8)
qed

lemma is_char_nat: "is_char c \<longleftrightarrow> unat c < 0x110000 \<and> \<not> (0xD800 \<le> unat c \<and> unat c < 0xE000)"
  by (simp add: is_char_def u8_less)


section \<open>Code points and decoding\<close>

lemma nat_or_add': "(a::nat) < 2 ^ k \<Longrightarrow> 2 ^ k dvd b \<Longrightarrow> b OR a = b + a"
  using nat_or_add [of a k b] by (simp add: or.commute)

lemma unat_push_or:
  assumes "unat (a :: u32) * 2 ^ k < 2 ^ 32" "unat b < 2 ^ k"
  shows "unat (push_bit k a OR b) = unat a * 2 ^ k + unat b"
proof -
  have "unat (push_bit k a) = unat a * 2 ^ k"
    using assms(1) unfolding unsigned_push_bit_eq by (simp add: push_bit_eq_mult take_bit_eq_mod)
  then show ?thesis using assms(2) by (simp add: unsigned_or_eq nat_or_add')
qed

lemma unat_first_byte [simp]:
  "unat (utf8_first_byte x 2) = unat x mod 32" "unat (utf8_first_byte x 3) = unat x mod 16"
  "unat (utf8_first_byte x 4) = unat x mod 8"
proof -
  have and31: "(a::nat) AND 31 = a mod 32" and and15: "(a::nat) AND 15 = a mod 16"
    and and7: "(a::nat) AND 7 = a mod 8" for a
    using take_bit_eq_mask [of 5 a] take_bit_eq_mask [of 4 a] take_bit_eq_mask [of 3 a]
    by (simp_all add: take_bit_eq_mod mask_eq_exp_minus_1)
  show "unat (utf8_first_byte x 2) = unat x mod 32" "unat (utf8_first_byte x 3) = unat x mod 16"
    "unat (utf8_first_byte x 4) = unat x mod 8"
    by (simp_all add: utf8_first_byte_def unsigned_and_eq and31 and15 and7)
qed

lemma unat_cont_mask [simp]: "unat (b AND CONT_MASK) = unat b mod 64"
  by (simp add: CONT_MASK_def unsigned_and_eq)

lemma unat_acc_cont [simp]:
  "unat ch < 0x4000000 \<Longrightarrow> unat (utf8_acc_cont_byte ch b) = unat ch * 64 + unat b mod 64"
  unfolding utf8_acc_cont_byte_def by (subst unat_push_or) simp_all

lemma sint_u8: "sint (b :: u8) < - 64 \<longleftrightarrow> 128 \<le> unat b \<and> unat b < 192"
proof -
  have u: "int (unat b) = uint b" by simp
  have "sint b = take_bit 8 (uint b + 128) - 128"
    by (simp add: sint_uint signed_take_bit_eq_take_bit_shift)
  then have s: "sint b = (uint b + 128) mod 256 - 128" by (simp add: take_bit_eq_mod)
  have "(x + 128) mod 256 - 128 < - 64 \<longleftrightarrow> 128 \<le> x \<and> x < 192" if "0 \<le> x" "x < 256" for x :: int
    using that minus_mod_self2 [of "x + 128" 256, symmetric] mod_pos_pos_trivial [of "x - 128" 256]
      mod_pos_pos_trivial [of "x + 128" 256] by (cases "x < 128") simp_all
  from this [of "uint b"] have "sint b < - 64 \<longleftrightarrow> 128 \<le> uint b \<and> uint b < 192"
    using uint_bounded [of b] unfolding s by simp
  then show ?thesis using u by linarith
qed

lemma is_cont_byte [simp]: "utf8_is_cont_byte b \<longleftrightarrow> 128 \<le> unat b \<and> unat b < 192"
  by (simp only: utf8_is_cont_byte_def sint_u8)

lemma is_boundary_byte [simp]: "is_utf8_char_boundary b \<longleftrightarrow> \<not> (128 \<le> unat b \<and> unat b < 192)"
  using sint_u8 [of b] by (auto simp: is_utf8_char_boundary_def)

lemma sint_not_cont [simp]: "- 64 \<le> sint (b :: u8) \<longleftrightarrow> \<not> (128 \<le> unat b \<and> unat b < 192)"
  using sint_u8 [of b] by auto

lemma xor_eq_0: "a XOR b = 0 \<longleftrightarrow> a = (b :: 'a :: len word)"
  by (auto simp: bit_eq_iff bit_xor_iff)

lemma drop_bit_0_iff: "drop_bit n (w :: u32) = 0 \<longleftrightarrow> unat w < 2 ^ n"
proof -
  have "drop_bit n w = 0 \<longleftrightarrow> unat w div 2 ^ n = 0"
    unfolding drop_bit_eq_div [symmetric] unat_drop_bit_eq [symmetric] by (simp only: unat_eq_0)
  then show ?thesis by (simp add: div_eq_0_iff)
qed

lemma drop_bit_eq_iff: "drop_bit n (w :: u32) = v \<longleftrightarrow> unat w div 2 ^ n = unat v"
  unfolding drop_bit_eq_div [symmetric] unat_drop_bit_eq [symmetric] by (simp only: word_unat_eq_iff)

lemma char_try_from_u32: "char_try_from_u32 i = (if is_char i then Some i else None)"
proof -
  let ?x = "i XOR 0xD800"
  have "unat ?x < 2 ^ 11 \<longleftrightarrow> drop_bit 11 i XOR 0x1B = 0"
    unfolding drop_bit_0_iff [symmetric] drop_bit_xor by simp
  also have "\<dots> \<longleftrightarrow> unat i div 2 ^ 11 = 27"
    unfolding xor_eq_0 drop_bit_eq_iff by simp
  finally have low: "unat ?x < 0x800 \<longleftrightarrow> 0xD800 \<le> unat i \<and> unat i < 0xE000" by auto
  have "drop_bit 16 ?x = drop_bit 16 i" unfolding drop_bit_xor by simp
  then have "unat ?x div 2 ^ 16 = unat i div 2 ^ 16" unfolding drop_bit_eq_iff unat_drop_bit_eq by (simp only: drop_bit_eq_div)
  then have high: "unat ?x < 0x110000 \<longleftrightarrow> unat i < 0x110000"
    using div_less_iff_less_mult [of "2 ^ 16" "unat ?x" 17] div_less_iff_less_mult [of "2 ^ 16" "unat i" 17]
    by simp
  have "0x110000 - 0x800 \<le> x - 0x800 \<longleftrightarrow> unat x < 0x800 \<or> \<not> unat x < 0x110000" for x :: u32
  proof (cases "unat x < 0x800")
    case True
    have "x - 0x800 = x + 0xFFFFF800" by simp
    moreover have "unat (x + 0xFFFFF800) = unat x + unat (0xFFFFF800 :: u32)"
      by (rule unat_add_lem [THEN iffD1]) (use True in simp)
    ultimately have "unat (x - 0x800) = unat x + 0xFFFFF800" by (simp only: unat_numeral) simp
    then show ?thesis using True by (simp add: u8_less)
  next
    case False
    then have "unat (x - 0x800) = unat x - 0x800" by (subst unat_sub) (simp_all add: u8_less)
    then show ?thesis using False by (auto simp add: u8_less)
  qed
  from this [of ?x] show ?thesis unfolding char_try_from_u32_def is_char_nat low high by auto
qed

lemma from_u32: "from_u32 i = (if is_char i then Some i else None)"
  by (simp add: from_u32_def char_try_from_u32)

lemma from_u32_unchecked: "is_char i \<Longrightarrow> from_u32_unchecked i = Inr i"
  by (simp add: from_u32_unchecked_def char_try_from_u32)


lemma enc_cases:
  assumes "unat c < 0x200000"
  obtains (one) a where "unat c < 0x80" "utf8_bytes c = [a]" "unat a = unat c"
  | (two) a b where "0x80 \<le> unat c" "unat c < 0x800" "utf8_bytes c = [a, b]"
      "unat a = 0xC0 + unat c div 64" "unat b = 0x80 + unat c mod 64"
  | (three) a b d where "0x800 \<le> unat c" "unat c < 0x10000" "utf8_bytes c = [a, b, d]"
      "unat a = 0xE0 + unat c div 4096" "unat b = 0x80 + unat c div 64 mod 64" "unat d = 0x80 + unat c mod 64"
  | (four) a b d e where "0x10000 \<le> unat c" "utf8_bytes c = [a, b, d, e]"
      "unat a = 0xF0 + unat c div 262144" "unat b = 0x80 + unat c div 4096 mod 64"
      "unat d = 0x80 + unat c div 64 mod 64" "unat e = 0x80 + unat c mod 64"
  using utf8_bytes_nat [OF assms] that unfolding enc_nat_def
  by (auto simp: map_eq_Cons_conv split: if_splits)

lemma char_small: "is_char c \<Longrightarrow> unat c < 0x200000"
  by (simp add: is_char_nat)

lemma unat_init7: "unat (x AND 7 :: u32) = unat x mod 8"
  using take_bit_eq_mask [of 3 "unat x"] by (simp add: unsigned_and_eq take_bit_eq_mod mask_eq_exp_minus_1)

lemma div_64_64:
  fixes c :: nat
  shows "c div 4096 = c div 64 div 64" "c div 262144 = c div 64 div 64 div 64"
  by (simp_all add: div_mult2_eq [symmetric])

lemma split_64:
  fixes c :: nat
  shows "c div 64 * 64 + c mod 64 = c"
    and "c div 4096 * 4096 + (c div 64 mod 64 * 64 + c mod 64) = c"
    and "c div 262144 * 262144 + ((c div 4096 mod 64 * 64 + c div 64 mod 64) * 64 + c mod 64) = c"
proof -
  have eq: "c' = q * 64 + r" if "c' div 64 = q" "c' mod 64 = r" for c' q r :: nat
    using that by (metis div_mult_mod_eq)
  have d: "c div 4096 = c div 64 div 64" "c div 262144 = c div 64 div 64 div 64" by (simp_all add: div_mult2_eq [symmetric])
  define q1 q2 q3 r0 r1 r2 where "q1 = c div 64" "q2 = q1 div 64" "q3 = q2 div 64" "r0 = c mod 64" "r1 = q1 mod 64" "r2 = q2 mod 64"
  note q = this
  have "c = q1 * 64 + r0" "q1 = q2 * 64 + r1" "q2 = q3 * 64 + r2" using eq q by metis+
  then show "c div 64 * 64 + c mod 64 = c"
    "c div 4096 * 4096 + (c div 64 mod 64 * 64 + c mod 64) = c"
    "c div 262144 * 262144 + ((c div 4096 mod 64 * 64 + c div 64 mod 64) * 64 + c mod 64) = c"
    unfolding d q(1,4) [symmetric] unfolding q(2) [symmetric] q(5) [symmetric]
    unfolding q(3) [symmetric] q(6) [symmetric] by simp_all
qed

lemma mod_drop: "a mod m = 0 \<Longrightarrow> x < m \<Longrightarrow> (a + x) mod m = (x :: nat)"
  by (metis add_0 mod_add_left_eq mod_less)

lemma digits_64:
  fixes a b d :: nat
  assumes "a < 64" "b < 64"
  shows "a * 64 + b < 4096" "d < 64 \<Longrightarrow> (a * 64 + b) * 64 + d < 262144"
  using assms unfolding distrib_right by linarith+

lemma mod_64_less [simp]: "(x :: nat) mod 64 < 67108864"
  by (rule less_trans [OF mod_less_divisor]) simp_all

lemma next_code_point_encode:
  assumes "unat c < 0x200000"
  shows "next_code_point (utf8_bytes c @ r) = Inr (Some c, r)"
  using assms
proof (cases rule: enc_cases)
  case (one a)
  then show ?thesis by (simp add: u8_less word_unat_eq_iff)
next
  case (two a b)
  have lead: "unat c div 64 < 32" using two(2) by simp
  have m: "(0xC0 + unat c div 64) mod 32 = unat c div 64" "(0x80 + unat c mod 64) mod 64 = unat c mod 64"
    using lead by (intro mod_drop; simp)+
  have "\<not> a < 128" "\<not> 0xE0 \<le> a" using two lead unfolding u8_less by simp_all
  then show ?thesis using two m split_64(1) [of "unat c"]
    by (simp add: word_unat_eq_iff Let_def)
next
  case (three a b d)
  have lead: "unat c div 4096 < 16" using three(2) by simp
  have m: "(0xE0 + unat c div 4096) mod 32 = unat c div 4096"
    "(0x80 + unat c mod 64) mod 64 = unat c mod 64" "(0x80 + unat c div 64 mod 64) mod 64 = unat c div 64 mod 64"
    using lead by (intro mod_drop; simp)+
  have low: "unat c div 64 mod 64 * 64 + unat c mod 64 < 4096"
    by (rule digits_64) simp_all
  have "unat (push_bit 12 (utf8_first_byte a 2) OR utf8_acc_cont_byte (ucast (b AND CONT_MASK)) d) = unat c"
    using three m low split_64(2) [of "unat c"] by (subst unat_push_or) simp_all
  moreover have "\<not> a < 128" "0xE0 \<le> a" "\<not> 0xF0 \<le> a" using three lead unfolding u8_less by simp_all
  ultimately show ?thesis using three by (simp add: word_unat_eq_iff Let_def)
next
  case (four a b d e)
  have m: "(0xF0 + unat c div 262144) mod 8 = unat c div 262144"
    "(0x80 + unat c mod 64) mod 64 = unat c mod 64" "(0x80 + unat c div 64 mod 64) mod 64 = unat c div 64 mod 64"
    "(0x80 + unat c div 4096 mod 64) mod 64 = unat c div 4096 mod 64"
    using assms by (intro mod_drop; simp)+
  have low: "(unat c div 4096 mod 64 * 64 + unat c div 64 mod 64) * 64 + unat c mod 64 < 262144"
    by (rule digits_64) simp_all
  have lead: "unat c div 262144 * 262144 < 2 ^ 32" using assms div_times_less_eq_dividend [of "unat c" 262144] by simp
  have digits: "unat b mod 64 = unat c div 4096 mod 64" "unat d mod 64 = unat c div 64 mod 64"
    "unat e mod 64 = unat c mod 64" using m unfolding four by blast+
  have 1: "unat (utf8_first_byte a 2 AND 7) = unat c div 262144"
    using m(1) by (simp add: unat_init7 mod_mod_cancel four(3))
  have "unat (utf8_acc_cont_byte (ucast (b AND CONT_MASK)) d) = unat c div 4096 mod 64 * 64 + unat c div 64 mod 64"
    using digits by (subst unat_acc_cont) simp_all
  moreover from this have "unat (utf8_acc_cont_byte (ucast (b AND CONT_MASK)) d) < 0x4000000"
    using digits_64(1) [of "unat c div 4096 mod 64" "unat c div 64 mod 64"] by simp
  ultimately have 2: "unat (utf8_acc_cont_byte (utf8_acc_cont_byte (ucast (b AND CONT_MASK)) d) e) =
      (unat c div 4096 mod 64 * 64 + unat c div 64 mod 64) * 64 + unat c mod 64"
    using digits by (subst unat_acc_cont) simp_all
  have e: "(2::nat) ^ 18 = 262144" by simp
  have "unat (push_bit 18 (utf8_first_byte a 2 AND 7) OR
      utf8_acc_cont_byte (utf8_acc_cont_byte (ucast (b AND CONT_MASK)) d) e) =
      unat c div 262144 * 2 ^ 18 + ((unat c div 4096 mod 64 * 64 + unat c div 64 mod 64) * 64 + unat c mod 64)"
    unfolding 1 [symmetric] 2 [symmetric]
  proof (rule unat_push_or)
    show "unat (utf8_first_byte a 2 AND 7) * 2 ^ 18 < 2 ^ 32" unfolding 1 e by (rule lead)
    show "unat (utf8_acc_cont_byte (utf8_acc_cont_byte (ucast (b AND CONT_MASK)) d) e) < 2 ^ 18"
      unfolding 2 e by (rule low)
  qed
  then have "unat (push_bit 18 (utf8_first_byte a 2 AND 7) OR
      utf8_acc_cont_byte (utf8_acc_cont_byte (ucast (b AND CONT_MASK)) d) e) = unat c"
    unfolding e split_64(3) .
  moreover have "\<not> a < 128" "0xE0 \<le> a" "0xF0 \<le> a" using four unfolding u8_less by simp_all
  ultimately show ?thesis using four by (simp add: word_unat_eq_iff Let_def)
qed

lemma acc_cont_digit:
  assumes "unat ch = n div 64" "unat b mod 64 = n mod 64" "n < 0x1000000"
  shows "unat (utf8_acc_cont_byte ch b) = n"
  using assms by (subst unat_acc_cont) auto

lemma next_code_point_reverse_encode:
  assumes "unat c < 0x200000"
  shows "next_code_point_reverse (r @ utf8_bytes c) = Inr (Some c, r)"
  using assms
proof (cases rule: enc_cases)
  case (one a)
  then show ?thesis by (simp add: next_code_point_reverse_def u8_less word_unat_eq_iff)
next
  case (two a b)
  have lead: "unat c div 64 < 32" using two(2) by simp
  have "unat (utf8_acc_cont_byte (utf8_first_byte a 2) b) = unat c"
    by (rule acc_cont_digit) (use two lead assms in \<open>simp_all add: mod_drop\<close>)
  moreover have "\<not> b < 128" using two unfolding u8_less by simp
  ultimately show ?thesis using two
    by (simp add: next_code_point_reverse_def unwrap_next_back_def butlast_append word_unat_eq_iff Let_def)
next
  case (three a b d)
  have lead: "unat c div 4096 < 16" using three(2) by simp
  have "unat (utf8_acc_cont_byte (utf8_first_byte a 3) b) = unat c div 64"
    by (rule acc_cont_digit) (use three lead assms in \<open>simp_all add: mod_drop div_mult2_eq [symmetric]\<close>)
  then have "unat (utf8_acc_cont_byte (utf8_acc_cont_byte (utf8_first_byte a 3) b) d) = unat c"
    by (rule acc_cont_digit) (use three assms in \<open>simp_all add: mod_drop\<close>)
  moreover have "\<not> d < 128" using three unfolding u8_less by simp
  moreover have "unat b < 192" unfolding three(5) using mod_less_divisor [of 64 "unat c div 64"] by linarith
  ultimately show ?thesis using three
    by (simp add: next_code_point_reverse_def unwrap_next_back_def butlast_append word_unat_eq_iff Let_def)
next
  case (four a b d e)
  have "unat c div 262144 < 8" using assms by simp
  then have lead: "(240 + unat c div 262144) mod 8 = unat c div 262144" by (intro mod_drop) simp_all
  have first: "unat (utf8_first_byte a 4) = unat c div 262144" using lead by (simp only: unat_first_byte four(3))
  have small: "unat c div k < 16777216" for k using assms by (intro le_less_trans [OF div_le_dividend]) simp
  have e1: "unat (utf8_acc_cont_byte (utf8_first_byte a 4) b) = unat c div 4096"
    by (rule acc_cont_digit) (use first four small in \<open>simp_all add: mod_drop div_mult2_eq [symmetric] del: unat_first_byte unat_acc_cont\<close>)
  have e2: "unat (utf8_acc_cont_byte (utf8_acc_cont_byte (utf8_first_byte a 4) b) d) = unat c div 64"
    by (rule acc_cont_digit) (use e1 four assms small in \<open>simp_all add: mod_drop div_mult2_eq [symmetric] del: unat_first_byte unat_acc_cont\<close>)
  have "unat (utf8_acc_cont_byte (utf8_acc_cont_byte (utf8_acc_cont_byte (utf8_first_byte a 4) b) d) e) = unat c"
    by (rule acc_cont_digit) (use e2 four assms small in \<open>simp_all add: mod_drop del: unat_first_byte unat_acc_cont\<close>)
  moreover have "\<not> e < 128" using four unfolding u8_less by simp
  moreover have "unat d < 192" unfolding four(5) using mod_less_divisor [of 64 "unat c div 64"] by linarith
  moreover have "unat b < 192" unfolding four(4) using mod_less_divisor [of 64 "unat c div 4096"] by linarith
  ultimately show ?thesis using four
    by (simp add: next_code_point_reverse_def unwrap_next_back_def butlast_append word_unat_eq_iff Let_def)
qed

lemma next_code_point_Nil [simp]: "next_code_point_reverse [] = Inr (None, [])"
  by (simp add: next_code_point_reverse_def)

lemma chars_next_encode: "is_char c \<Longrightarrow> chars_next (utf8_bytes c @ r) = Inr (Some c, r)"
  by (simp only: chars_next_def as_char_def next_code_point_encode [OF char_small]) (simp add: from_u32_unchecked)

lemma chars_next_back_encode: "is_char c \<Longrightarrow> chars_next_back (r @ utf8_bytes c) = Inr (Some c, r)"
  by (simp only: chars_next_back_def as_char_def next_code_point_reverse_encode [OF char_small]) (simp add: from_u32_unchecked)

lemma chars_next_Nil [simp]: "chars_next [] = Inr (None, [])" "chars_next_back [] = Inr (None, [])"
  by (simp_all add: chars_next_def chars_next_back_def as_char_def)

lemma utf8_bytes_append_eq:
  assumes "is_char c" "is_char d" "utf8_bytes c @ r = utf8_bytes d @ s"
  shows "c = d \<and> r = s"
proof -
  have "Inr (Some c, r) = next_code_point (utf8_bytes d @ s)"
    using next_code_point_encode [OF char_small [OF assms(1)], of r] unfolding assms(3) by (rule sym)
  then show ?thesis unfolding next_code_point_encode [OF char_small [OF assms(2)]] by blast
qed

lemma length_utf8_bytes: "length (utf8_bytes c) = len_utf8 c"
  by (simp add: utf8_bytes_def len_utf8_def Let_def)

lemma len_utf8_bounds: "1 \<le> len_utf8 c" "len_utf8 c \<le> 4"
  by (simp_all add: len_utf8_def)

lemma utf8_bytes_not_Nil [simp]: "utf8_bytes c \<noteq> []"
  using length_utf8_bytes [of c] len_utf8_bounds [of c] by auto

section \<open>The grammar\<close>

text \<open>The conditions on the bytes that follow a first byte (RFC 3629), and the scan of one sequence:
  its width; or \<open>Inl None\<close> at the end of the input, \<open>Inl (Some n)\<close> when \<open>n\<close> bytes are invalid.\<close>

definition is_cont :: "u8 \<Rightarrow> bool" where
  "is_cont b \<longleftrightarrow> 128 \<le> unat b \<and> unat b < 192"

definition follow :: "u8 \<Rightarrow> (u8 \<Rightarrow> bool) list" where
  "follow a =
     (let w = utf8_char_width a
      in if w = 2 then [is_cont] else if w = 3 then [second_of_three a, is_cont]
         else if w = 4 then [second_of_four a, is_cont, is_cont] else [])"

fun scan_tail :: "nat \<Rightarrow> (u8 \<Rightarrow> bool) list \<Rightarrow> u8 list \<Rightarrow> nat option + nat" where
  "scan_tail n [] s = Inr n"
| "scan_tail n (p # ps) [] = Inl None"
| "scan_tail n (p # ps) (b # s) = (if p b then scan_tail (n + 1) ps s else Inl (Some n))"

fun scan_char :: "u8 list \<Rightarrow> nat option + nat" where
  "scan_char [] = Inl None"
| "scan_char (a # s) = (if utf8_char_width a = 0 then Inl (Some 1) else scan_tail 1 (follow a) s)"

lemma utf8_char_width: "utf8_char_width b =
    (let n = unat b in if n < 128 then 1 else if n < 194 then 0 else if n < 224 then 2
     else if n < 240 then 3 else if n < 245 then 4 else 0)"
  using unat_u8_less [of b]
  by (auto simp: utf8_char_width_def UTF8_CHAR_WIDTH_def Let_def nth_append nth_Cons simp del: unat_u8_less split: nat.splits)

lemma second_of_three: "second_of_three a b \<longleftrightarrow>
    (unat a = 224 \<and> 160 \<le> unat b \<or> 225 \<le> unat a \<and> unat a \<le> 236 \<and> 128 \<le> unat b \<or>
     unat a = 237 \<and> 128 \<le> unat b \<and> unat b < 160 \<or> 238 \<le> unat a \<and> unat a \<le> 239 \<and> 128 \<le> unat b) \<and> unat b < 192"
  by (auto simp: second_of_three_def u8_less word_unat_eq_iff)

lemma second_of_four: "second_of_four a b \<longleftrightarrow>
    (unat a = 240 \<and> 144 \<le> unat b \<or> 241 \<le> unat a \<and> unat a \<le> 243 \<and> 128 \<le> unat b \<or>
     unat a = 244 \<and> 128 \<le> unat b \<and> unat b < 144) \<and> unat b < 192"
  by (auto simp: second_of_four_def u8_less word_unat_eq_iff)

text \<open>The grammar generates exactly the encodings of the \<open>char\<close>s.\<close>

lemma grammar_sound:
  assumes "is_char c"
  obtains a s where "utf8_bytes c = a # s" "utf8_char_width a \<noteq> 0" "list_all2 (\<lambda>p b. p b) (follow a) s"
  using char_small [OF assms]
proof (cases rule: enc_cases)
  case (one a)
  then show thesis by (intro that [of a]) (auto simp: utf8_char_width follow_def)
next
  case (two a b)
  have "2 \<le> unat c div 64" "unat c div 64 < 32" using two(1,2) by simp_all
  then have "utf8_char_width a = 2" unfolding utf8_char_width two(4) by simp
  then show thesis using two by (intro that [of a "[b]"]) (auto simp: follow_def is_cont_def)
next
  case (three a b d)
  have lead: "unat c div 4096 < 16" using three(2) by simp
  then have w: "utf8_char_width a = 3" unfolding utf8_char_width three(4) by simp
  have div: "unat c div 64 = unat c div 4096 * 64 + unat c div 64 mod 64"
    using div_mult_mod_eq [of "unat c div 64" 64] by (simp add: div_mult2_eq [symmetric])
  have range: "32 \<le> unat c div 64" "unat c div 64 < 864 \<or> 896 \<le> unat c div 64"
    using three(1) assms by (auto simp: is_char_nat)
  have "second_of_three a b"
    unfolding second_of_three three(4,5) using range lead div mod_less_divisor [of 64 "unat c div 64"] by linarith
  then show thesis using three w by (intro that [of a "[b, d]"]) (auto simp: follow_def is_cont_def)
next
  case (four a b d e)
  have lead: "unat c div 262144 < 5" using assms by (simp add: is_char_nat div_less_iff_less_mult)
  then have w: "utf8_char_width a = 4" unfolding utf8_char_width four(3) by simp
  have div: "unat c div 4096 = unat c div 262144 * 64 + unat c div 4096 mod 64"
    using div_mult_mod_eq [of "unat c div 4096" 64] by (simp add: div_mult2_eq [symmetric])
  have range: "16 \<le> unat c div 4096" "unat c div 4096 < 272"
    using four(1) assms by (auto simp: is_char_nat)
  have "second_of_four a b"
    unfolding second_of_four four(3,4) using range lead div mod_less_divisor [of 64 "unat c div 4096"] by linarith
  then show thesis using four w by (intro that [of a "[b, d, e]"]) (auto simp: follow_def is_cont_def)
qed


lemma digit_64:
  fixes m y :: nat
  assumes "y < 64"
  shows "(m * 64 + y) div 64 = m" "(m * 64 + y) mod 64 = y"
  using assms by simp_all

lemma range_three:
  fixes m z :: nat
  assumes "32 \<le> m" "m < 864 \<or> 896 \<le> m" "m < 1024" "z < 64"
  shows "2048 \<le> m * 64 + z" "m * 64 + z < 65536" "\<not> (0xD800 \<le> m * 64 + z \<and> m * 64 + z < 0xE000)"
  using assms by auto

lemma range_four:
  fixes m z v :: nat
  assumes "16 \<le> m" "m < 272" "z < 64" "v < 64"
  shows "65536 \<le> (m * 64 + z) * 64 + v" "(m * 64 + z) * 64 + v < 0x110000"
proof -
  have "1024 \<le> m * 64 + z" "m * 64 + z < 17408" using assms by auto
  then show "65536 \<le> (m * 64 + z) * 64 + v" "(m * 64 + z) * 64 + v < 0x110000" using assms(4)
    by (cases "m * 64 + z"; auto)+
qed

lemma enc_nat_eq:
  assumes "unat c = n" "n < 0x200000" "map unat bs = enc_nat n"
  shows "utf8_bytes c = bs"
  using utf8_bytes_nat [of c] assms by (metis map_unat_inject)

lemma grammar_complete:
  assumes "utf8_char_width a \<noteq> 0" "list_all2 (\<lambda>p b. p b) (follow a) s"
  obtains c where "is_char c" "utf8_bytes c = a # s"
proof -
  note finish = that
  have char: thesis if "n < 0x110000" "\<not> (0xD800 \<le> n \<and> n < 0xE000)" "enc_nat n = map unat (a # s)" for n
  proof -
    have u: "unat (word_of_nat n :: u32) = n" using that(1) by (simp add: unat_of_nat take_bit_eq_mod)
    show thesis using finish [of "word_of_nat n"] enc_nat_eq [OF u, of "a # s"] that u
      by (simp add: is_char_nat)
  qed
  have w: "utf8_char_width a \<in> {1, 2, 3, 4}" using assms(1) by (auto simp: utf8_char_width Let_def split: if_splits)
  then consider "utf8_char_width a = 1" | "utf8_char_width a = 2" | "utf8_char_width a = 3" | "utf8_char_width a = 4" by auto
  then show thesis
  proof cases
    case 1
    then have "unat a < 128" "s = []" using assms(2) by (auto simp: follow_def utf8_char_width Let_def split: if_splits)
    then show thesis by (intro char [of "unat a"]) (auto simp: enc_nat_def)
  next
    case 2
    then obtain b where s: "s = [b]" "is_cont b" using assms(2) by (auto simp: follow_def list_all2_Cons1)
    have a: "194 \<le> unat a" "unat a < 224" using 2 by (auto simp: utf8_char_width Let_def split: if_splits)
    define x y where "x = unat a - 192" "y = unat b - 128"
    then have xy: "unat a = 192 + x" "unat b = 128 + y" "2 \<le> x" "x < 32" "y < 64"
      using a s(2) by (auto simp: is_cont_def)
    have "(x * 64 + y) div 64 = x" "(x * 64 + y) mod 64 = y" using xy(5) by simp_all
    then show thesis using xy s by (intro char [of "x * 64 + y"]) (simp_all add: enc_nat_def)
  next
    case 3
    then obtain b d where s: "s = [b, d]" "second_of_three a b" "is_cont d"
      using assms(2) by (auto simp: follow_def list_all2_Cons1)
    define x y z where "x = unat a - 224" "y = unat b - 128" "z = unat d - 128"
    then have xyz: "unat a = 224 + x" "unat b = 128 + y" "unat d = 128 + z" "x < 16" "y < 64" "z < 64"
      and range: "32 \<le> x * 64 + y" "x * 64 + y < 864 \<or> 896 \<le> x * 64 + y"
      using s(2,3) unfolding second_of_three is_cont_def by auto
    let ?n = "(x * 64 + y) * 64 + z"
    have "?n div 64 = x * 64 + y" "?n mod 64 = z" "(x * 64 + y) div 64 = x" "(x * 64 + y) mod 64 = y"
      using xyz(5,6) by (simp_all only: digit_64)
    then have "?n div 64 mod 64 = y" "?n div 4096 = x" "?n mod 64 = z"
      using div_mult2_eq [of ?n 64 64] by simp_all
    moreover have "2048 \<le> ?n" "?n < 65536" "\<not> (0xD800 \<le> ?n \<and> ?n < 0xE000)"
      using range_three [OF range _ xyz(6)] xyz(4,5) by auto
    ultimately show thesis using xyz s by (intro char [of ?n]) (simp_all add: enc_nat_def)
  next
    case 4
    then obtain b d e where s: "s = [b, d, e]" "second_of_four a b" "is_cont d" "is_cont e"
      using assms(2) by (auto simp: follow_def list_all2_Cons1)
    define x y z v where "x = unat a - 240" "y = unat b - 128" "z = unat d - 128" "v = unat e - 128"
    then have xyz: "unat a = 240 + x" "unat b = 128 + y" "unat d = 128 + z" "unat e = 128 + v"
        "y < 64" "z < 64" "v < 64"
      and range: "16 \<le> x * 64 + y" "x * 64 + y < 272"
      using s(2,3,4) unfolding second_of_four is_cont_def by auto
    define m where "m = (x * 64 + y) * 64 + z"
    define n where "n = m * 64 + v"
    have "n div 64 = m" "n mod 64 = v" "m div 64 = x * 64 + y" "m mod 64 = z"
      "(x * 64 + y) div 64 = x" "(x * 64 + y) mod 64 = y"
      unfolding n_def m_def using xyz(5,6,7) by (simp_all only: digit_64)
    then have "n div 64 mod 64 = z" "n div 4096 mod 64 = y" "n div 262144 = x" "n mod 64 = v"
      by (simp_all only: div_64_64)
    moreover have "65536 \<le> n" "n < 0x110000"
      using range_four [OF range xyz(6,7)] unfolding n_def m_def by auto
    ultimately show thesis using xyz s by (intro char [of n]) (simp_all add: enc_nat_def)
  qed
qed


section \<open>Scanning\<close>

abbreviation follows :: "(u8 \<Rightarrow> bool) list \<Rightarrow> u8 list \<Rightarrow> bool" where
  "follows \<equiv> list_all2 (\<lambda>p b. p b)"

lemma scan_tail_follows: "follows ps t \<Longrightarrow> scan_tail n ps (t @ r) = Inr (n + length t)"
  by (induction ps arbitrary: n t) (auto simp: list_all2_Cons1)

lemma scan_tail_Inr:
  "scan_tail n ps s = Inr w \<Longrightarrow> \<exists>t r. s = t @ r \<and> follows ps t \<and> w = n + length t"
proof (induction n ps s rule: scan_tail.induct)
  case (3 n p ps b s)
  then have "p b" and "\<exists>t r. s = t @ r \<and> follows ps t \<and> w = n + 1 + length t" by (auto split: if_splits)
  then obtain t r where "p b" "s = t @ r" "follows ps t" "w = n + 1 + length t" by blast
  then show ?case by (intro exI [of _ "b # t"] exI [of _ r]) simp
qed auto

lemma scan_tail_None:
  "scan_tail n ps s = Inl None \<Longrightarrow> \<forall>p \<in> set ps. \<exists>b. p b \<Longrightarrow> \<exists>r. r \<noteq> [] \<and> follows ps (s @ r)"
proof (induction n ps s rule: scan_tail.induct)
  case (2 n p ps)
  then have "\<forall>p \<in> set (p # ps). p (SOME b. p b)" by (metis someI_ex)
  then have "follows (p # ps) (map (\<lambda>p. SOME b. p b) (p # ps))"
    by (auto simp: list_all2_map2 list_all2_same)
  then show ?case by (intro exI [of _ "map (\<lambda>p. SOME b. p b) (p # ps)"]) simp
qed (auto split: if_splits)

lemma scan_tail_Some:
  "scan_tail n ps s = Inl (Some k) \<Longrightarrow> \<forall>p \<in> set ps. \<exists>b. p b \<Longrightarrow>
    scan_tail n ps (s @ t) = Inl (Some k) \<and> n \<le> k \<and> k < n + length ps \<and> k - n < length s \<and>
    (\<exists>r. follows ps (take (k - n) s @ r))"
proof (induction n ps s rule: scan_tail.induct)
  case (3 n p ps b s)
  show ?case
  proof (cases "p b")
    case True
    then have "scan_tail (n + 1) ps (s @ t) = Inl (Some k) \<and> n + 1 \<le> k \<and> k < n + 1 + length ps \<and>
        k - (n + 1) < length s \<and> (\<exists>r. follows ps (take (k - (n + 1)) s @ r))"
      using 3 by simp
    moreover from this have "k - n = Suc (k - (n + 1))" by (elim conjE) linarith
    ultimately show ?thesis using True by simp
  next
    case False
    have "\<exists>r. follows (p # ps) r"
      using scan_tail_None [of 0 "p # ps" "[]"] 3(3) by auto
    then show ?thesis using 3(2) False by auto
  qed
qed auto

lemma follow_satisfiable: "\<forall>p \<in> set (follow a). \<exists>b. p b"
proof -
  have "is_cont 128" by (simp add: is_cont_def)
  moreover have "second_of_three a 160 \<or> second_of_three a 128" if "utf8_char_width a = 3"
    using that unfolding second_of_three by (auto simp: utf8_char_width Let_def split: if_splits)
  moreover have "second_of_four a 144 \<or> second_of_four a 128" if "utf8_char_width a = 4"
    using that unfolding second_of_four by (auto simp: utf8_char_width Let_def split: if_splits)
  ultimately show ?thesis by (auto simp: follow_def Let_def)
qed

lemma scan_char_encode: "is_char c \<Longrightarrow> scan_char (utf8_bytes c @ r) = Inr (length (utf8_bytes c))"
  by (erule grammar_sound) (simp add: scan_tail_follows)

lemma scan_char_Inr:
  assumes "scan_char s = Inr w"
  obtains c r where "is_char c" "s = utf8_bytes c @ r" "w = length (utf8_bytes c)"
proof (cases s)
  case (Cons a s')
  then have a: "utf8_char_width a \<noteq> 0" and "scan_tail 1 (follow a) s' = Inr w"
    using assms by (auto split: if_splits)
  from scan_tail_Inr [OF this(2)] obtain t r where
    t: "s' = t @ r" "follows (follow a) t" "w = 1 + length t" by blast
  from grammar_complete [OF a t(2)] obtain c where "is_char c" "utf8_bytes c = a # t" .
  then show thesis using that t Cons by simp
qed (use assms in simp)

lemma scan_char_None:
  assumes "scan_char s = Inl None" "s \<noteq> []"
  obtains c r where "is_char c" "utf8_bytes c = s @ r" "r \<noteq> []"
proof (cases s)
  case (Cons a s')
  then have a: "utf8_char_width a \<noteq> 0" and "scan_tail 1 (follow a) s' = Inl None"
    using assms by (auto split: if_splits)
  from scan_tail_None [OF this(2) follow_satisfiable] obtain r where
    r: "r \<noteq> []" "follows (follow a) (s' @ r)" by blast
  from grammar_complete [OF a r(2)] obtain c where "is_char c" "utf8_bytes c = a # s' @ r" .
  then show thesis using that r Cons by simp
qed (use assms in simp)

lemma scan_char_Some:
  assumes "scan_char s = Inl (Some k)"
  shows "scan_char (s @ t) = Inl (Some k)" "1 \<le> k" "k \<le> 3" "k \<le> length s"
    and "2 \<le> k \<Longrightarrow> \<exists>c r. is_char c \<and> utf8_bytes c = take k s @ r"
proof -
  obtain a s' where s: "s = a # s'" using assms by (cases s) auto
  have len: "length (follow a) \<le> 3" by (simp add: follow_def Let_def)
  have "scan_char (s @ t) = Inl (Some k) \<and> 1 \<le> k \<and> k \<le> 3 \<and> k \<le> length s \<and>
      (2 \<le> k \<longrightarrow> (\<exists>c r. is_char c \<and> utf8_bytes c = take k s @ r))"
  proof (cases "utf8_char_width a = 0")
    case False
    then have "scan_tail 1 (follow a) s' = Inl (Some k)" using assms s by simp
    note k = scan_tail_Some [OF this follow_satisfiable, of t]
    then obtain r where r: "follows (follow a) (take (k - 1) s' @ r)" by blast
    from grammar_complete [OF False r] obtain c where c: "is_char c" "utf8_bytes c = a # take (k - 1) s' @ r" .
    have "take k s = a # take (k - 1) s'" using k s by (simp add: take_Cons')
    then have "\<exists>c r. is_char c \<and> utf8_bytes c = take k s @ r" using c by auto
    then show ?thesis using k False s len by auto
  qed (use assms s in auto)
  then show "scan_char (s @ t) = Inl (Some k)" "1 \<le> k" "k \<le> 3" "k \<le> length s"
    "2 \<le> k \<Longrightarrow> \<exists>c r. is_char c \<and> utf8_bytes c = take k s @ r" by blast+
qed

section \<open>Strings\<close>

text \<open>The bytes of a sequence of \<open>char\<close>s, and the byte strings that are UTF-8.\<close>

definition str_bytes :: "u32 list \<Rightarrow> u8 list" where
  "str_bytes cs = concat (map utf8_bytes cs)"

definition chars_ok :: "u32 list \<Rightarrow> bool" where
  "chars_ok cs \<longleftrightarrow> (\<forall>c \<in> set cs. is_char c)"

definition valid_utf8 :: "u8 list \<Rightarrow> bool" where
  "valid_utf8 v \<longleftrightarrow> (\<exists>cs. chars_ok cs \<and> v = str_bytes cs)"

lemma str_bytes_simps [simp]:
  "str_bytes [] = []" "str_bytes (c # cs) = utf8_bytes c @ str_bytes cs"
  "str_bytes (cs @ ds) = str_bytes cs @ str_bytes ds"
  by (simp_all add: str_bytes_def)

lemma str_bytes_Nil_iff [simp]: "str_bytes cs = [] \<longleftrightarrow> cs = []" "[] = str_bytes cs \<longleftrightarrow> cs = []"
  by (cases cs; auto)+

lemma chars_ok_simps [simp]:
  "chars_ok []" "chars_ok (c # cs) \<longleftrightarrow> is_char c \<and> chars_ok cs"
  "chars_ok (cs @ ds) \<longleftrightarrow> chars_ok cs \<and> chars_ok ds"
  by (auto simp: chars_ok_def)

lemma valid_utf8_str_bytes: "chars_ok cs \<Longrightarrow> valid_utf8 (str_bytes cs)"
  by (auto simp: valid_utf8_def)

lemma valid_utf8_Nil [simp]: "valid_utf8 []"
  using valid_utf8_str_bytes [of "[]"] by simp

lemma str_bytes_prefix:
  "chars_ok cs \<Longrightarrow> chars_ok ds \<Longrightarrow> str_bytes cs @ r = str_bytes ds \<Longrightarrow> \<exists>es. ds = cs @ es \<and> r = str_bytes es"
proof (induction cs arbitrary: ds)
  case (Cons c cs)
  then obtain d ds' where ds: "ds = d # ds'" by (cases ds) auto
  then have "c = d \<and> str_bytes cs @ r = str_bytes ds'"
    using Cons.prems by (intro utf8_bytes_append_eq) auto
  then show ?case using Cons.IH [of ds'] Cons.prems ds by auto
qed simp

lemma str_bytes_inject: "chars_ok cs \<Longrightarrow> chars_ok ds \<Longrightarrow> str_bytes cs = str_bytes ds \<longleftrightarrow> cs = ds"
  using str_bytes_prefix [of cs ds "[]"] by auto

lemma valid_utf8_append: "valid_utf8 v \<Longrightarrow> valid_utf8 (v @ r) \<longleftrightarrow> valid_utf8 r"
  unfolding valid_utf8_def by (metis str_bytes_prefix chars_ok_simps(3) str_bytes_simps(3))

lemma valid_utf8_char: "is_char c \<Longrightarrow> valid_utf8 (utf8_bytes c)"
  using valid_utf8_str_bytes [of "[c]"] by simp

lemma valid_utf8_scan:
  assumes "scan_char s = Inl e" "s \<noteq> []"
  shows "\<not> valid_utf8 s"
proof
  assume "valid_utf8 s"
  then obtain cs where cs: "chars_ok cs" "s = str_bytes cs" by (auto simp: valid_utf8_def)
  then obtain c ds where "is_char c" "s = utf8_bytes c @ str_bytes ds" using assms(2) by (cases cs) auto
  then show False using scan_char_encode [of c] assms(1) by simp
qed

lemma valid_utf8_step:
  assumes "valid_utf8 (take i v)" "scan_char (drop i v) = Inr w" "i \<le> length v"
  shows "valid_utf8 (take (i + w) v)" "1 \<le> w" "i + w \<le> length v"
proof -
  obtain c r where c: "is_char c" "drop i v = utf8_bytes c @ r" "w = length (utf8_bytes c)"
    using assms(2) by (rule scan_char_Inr)
  have "take (i + w) v = take i v @ utf8_bytes c" using c by (simp add: take_add)
  then show "valid_utf8 (take (i + w) v)"
    using valid_utf8_append [OF assms(1)] valid_utf8_char [OF c(1)] by simp
  show "1 \<le> w" using c(3) len_utf8_bounds by (simp add: length_utf8_bytes)
  have "length (drop i v) \<ge> w" using c by simp
  then show "i + w \<le> length v" using assms(3) by simp
qed

section \<open>Validation\<close>

lemma scan_ascii: "b < 128 \<Longrightarrow> scan_char (b # s) = Inr 1"
  by (simp add: utf8_char_width follow_def u8_less Let_def)

lemma and_192: "(b :: u8) AND 192 = TAG_CONT_U8 \<longleftrightarrow> is_cont b"
proof -
  have "b AND 192 = push_bit 6 (drop_bit 6 b)"
    by (rule bit_word_eqI, simp only: bit_and_iff bit_push_bit_iff bit_drop_bit_eq)
      (auto simp: less_Suc_eq numeral_eq_Suc)
  moreover have "unat (push_bit 6 (drop_bit 6 b)) = unat b div 64 * 64"
    using div_times_less_eq_dividend [of "unat b" 64] unat_u8_less [of b]
    unfolding unsigned_push_bit_eq unat_drop_bit_eq
    by (simp add: push_bit_eq_mult drop_bit_eq_div take_bit_eq_mod del: unat_u8_less)
  ultimately show ?thesis
    by (auto simp: word_unat_eq_iff TAG_CONT_U8_def is_cont_def)
qed

lemma utf8_multibyte_scan:
  assumes "i < length v" "\<not> v ! i < 128"
  shows "utf8_multibyte v i = (case scan_char (drop i v) of Inl e \<Rightarrow> utf8_err i e | Inr w \<Rightarrow> Inr (i + w))"
proof -
  define xs a s where "xs = take i v" "a = v ! i" "s = drop (Suc i) v"
  then have v: "v = xs @ a # s" "length xs = i" using assms id_take_nth_drop by auto
  have w: "utf8_char_width a \<in> {0, 2, 3, 4}"
    using assms(2) by (auto simp: xs_a_s_def utf8_char_width u8_less Let_def)
  consider "s = []" | b where "s = [b]" | b d where "s = [b, d]" | b d e r where "s = b # d # e # r"
    by (metis list.exhaust)
  then show ?thesis using v w
    by cases (elim insertE emptyE;
      simp add: utf8_multibyte_def utf8_next_def follow_def nth_append is_cont_def Let_def utf8_err_def)+
qed

lemma chunk_char_scan:
  assumes "i < length v"
  shows "chunk_char v i =
    (case scan_char (drop i v) of Inr w \<Rightarrow> (False, i + w) | Inl (Some n) \<Rightarrow> (True, i + n)
     | Inl None \<Rightarrow> (True, length v))"
proof -
  define xs a s where "xs = take i v" "a = v ! i" "s = drop (Suc i) v"
  then have v: "v = xs @ a # s" "length xs = i" using assms id_take_nth_drop by auto
  have zero: "\<not> second_of_three a 0" "\<not> second_of_four a 0" "\<not> is_cont 0"
    by (simp_all add: second_of_three second_of_four is_cont_def)
  show ?thesis
  proof (cases "a < 128")
    case True
    then show ?thesis using v by (simp add: chunk_char_def scan_ascii nth_append Let_def del: scan_char.simps)
  next
    case False
    then have w: "utf8_char_width a \<in> {0, 2, 3, 4}" by (auto simp: utf8_char_width u8_less Let_def)
    consider "s = []" | b where "s = [b]" | b d where "s = [b, d]" | b d e r where "s = b # d # e # r"
      by (metis list.exhaust)
    then show ?thesis using v w zero False
      by cases (elim insertE emptyE;
        simp add: chunk_char_def safe_get_def follow_def nth_append and_192 Let_def)+
  qed
qed

text \<open>Machine words read from memory: their bits are those of the bytes.\<close>

lemma bit_le_word:
  "length bs \<le> 8 \<Longrightarrow> bit (le_word bs) n \<longleftrightarrow> n div 8 < length bs \<and> bit (bs ! (n div 8)) (n mod 8)"
proof (induction bs arbitrary: n)
  case (Cons b bs)
  show ?case
  proof (cases "n < 8")
    case True
    then show ?thesis by (simp add: bit_or_iff bit_push_bit_iff bit_ucast_iff)
  next
    case False
    then have n: "n div 8 = Suc ((n - 8) div 8)" "n mod 8 = (n - 8) mod 8"
      by (simp_all add: le_div_geq le_mod_geq)
    have "\<not> bit b n" using False bit_imp_le_length [of b n] by auto
    moreover have "n < 64" if "(n - 8) div 8 < length bs" using that Cons.prems by (simp add: div_less_iff_less_mult)
    ultimately show ?thesis using Cons.IH [of "n - 8"] Cons.prems False n
      by (auto simp: bit_or_iff bit_push_bit_iff bit_ucast_iff)
  qed
qed simp

lemma word_AND_nonzero: "(a :: 'a :: len word) AND b \<noteq> 0 \<longleftrightarrow> (\<exists>n. bit a n \<and> bit b n)"
  using bit_imp_le_length [of a] by (auto simp: bit_eq_iff bit_and_iff)

lemma replicate_8: "replicate 8 x = [x, x, x, x, x, x, x, x]"
  by (simp add: numeral_eq_Suc)

lemma NONASCII_MASK_bytes: "NONASCII_MASK = le_word (replicate 8 0x80)"
  by (simp add: NONASCII_MASK_def replicate_8)

lemma bit_u8_128: "bit (0x80 :: u8) n \<longleftrightarrow> n = 7"
proof -
  have "(0x80 :: u8) = push_bit 7 1" by simp
  then show ?thesis by (simp only: bit_push_bit_iff bit_1_iff) auto
qed

lemma bit_NONASCII_MASK: "bit NONASCII_MASK n \<longleftrightarrow> n div 8 < 8 \<and> n mod 8 = 7"
proof -
  have "bit NONASCII_MASK n \<longleftrightarrow> n div 8 < 8 \<and> bit (replicate 8 (0x80 :: u8) ! (n div 8)) (n mod 8)"
    unfolding NONASCII_MASK_bytes by (subst bit_le_word) simp_all
  then show ?thesis using bit_u8_128 [of "n mod 8"] by (metis nth_replicate)
qed

lemma bit_7_u8: "bit (b :: u8) 7 \<longleftrightarrow> \<not> b < 128"
proof -
  have "bit b 7 \<longleftrightarrow> odd (unat b div 2 ^ 7)"
    using bit_unsigned_iff [where 'a = nat, of b 7] by (simp add: bit_iff_odd)
  also have "\<dots> \<longleftrightarrow> \<not> unat b < 128"
  proof (cases "unat b < 128")
    case False
    then have "unat b div 128 = 1" using unat_u8_less [of b] by (simp add: div_nat_eqI del: unat_u8_less)
    then show ?thesis using False by simp
  qed simp
  finally show ?thesis by (simp add: u8_less)
qed

lemma contains_nonascii_bytes:
  assumes "length bs = 8"
  shows "contains_nonascii (le_word bs) \<longleftrightarrow> (\<exists>b \<in> set bs. \<not> b < 128)"
proof -
  have "contains_nonascii (le_word bs) \<longleftrightarrow> (\<exists>n. n div 8 < 8 \<and> n mod 8 = 7 \<and> bit (bs ! (n div 8)) 7)"
    unfolding contains_nonascii_def word_AND_nonzero bit_NONASCII_MASK
    using assms by (auto simp: bit_le_word)
  also have "\<dots> \<longleftrightarrow> (\<exists>i < 8. bit (bs ! i) 7)"
  proof
    assume "\<exists>i < 8. bit (bs ! i) 7"
    then obtain i where "i < 8" "bit (bs ! i) 7" by blast
    then show "\<exists>n. n div 8 < 8 \<and> n mod 8 = 7 \<and> bit (bs ! (n div 8)) 7"
      by (intro exI [of _ "i * 8 + 7"]) simp
  qed blast
  also have "\<dots> \<longleftrightarrow> (\<exists>b \<in> set bs. \<not> b < 128)"
    using assms by (auto simp: set_conv_nth bit_7_u8)
  finally show ?thesis .
qed

lemma ascii_valid: "\<forall>b \<in> set s. b < 128 \<Longrightarrow> valid_utf8 s"
proof (induction s)
  case (Cons b s)
  obtain c r where "is_char c" "b # s = utf8_bytes c @ r" "1 = length (utf8_bytes c)"
    using scan_char_Inr [OF scan_ascii [of b s]] Cons.prems by auto
  then have "valid_utf8 [b]" using valid_utf8_char [of c] by (cases "utf8_bytes c") auto
  then show ?case using valid_utf8_append [of "[b]" s] Cons by simp
qed simp

text \<open>\<open>ascii_run v i j\<close>: the bytes from \<open>i\<close> up to \<open>j\<close> are ASCII.\<close>

definition ascii_run :: "u8 list \<Rightarrow> nat \<Rightarrow> nat \<Rightarrow> bool" where
  "ascii_run v i j \<longleftrightarrow> i \<le> j \<and> j \<le> length v \<and> (\<forall>k. i \<le> k \<longrightarrow> k < j \<longrightarrow> v ! k < 128)"

lemma ascii_run_trans: "ascii_run v i j \<Longrightarrow> ascii_run v j k \<Longrightarrow> ascii_run v i k"
  unfolding ascii_run_def by (meson le_trans not_le)

lemma ascii_run_valid:
  assumes "ascii_run v i j" "valid_utf8 (take i v)"
  shows "valid_utf8 (take j v)"
proof -
  have "take j v = take i v @ take (j - i) (drop i v)"
    using assms(1) by (metis ascii_run_def le_add_diff_inverse take_add)
  moreover have "\<forall>b \<in> set (take (j - i) (drop i v)). b < 128"
    using assms(1) by (auto simp: ascii_run_def in_set_conv_nth)
  ultimately show ?thesis using valid_utf8_append [OF assms(2)] ascii_valid by simp
qed

lemma skip_ascii_bytes: "i \<le> length v \<Longrightarrow> ascii_run v i (skip_ascii_bytes v i)"
proof (induction v i rule: skip_ascii_bytes.induct)
  case (1 v i)
  show ?case
  proof (cases "i < length v \<and> v ! i < 128")
    case True
    then have "ascii_run v i (i + 1)" by (auto simp: ascii_run_def less_Suc_eq_le dest: le_antisym)
    then show ?thesis using 1 True ascii_run_trans [of v i "i + 1"]
      by (simp add: skip_ascii_bytes.simps [of v i])
  next
    case False
    then show ?thesis using 1(2) by (auto simp: skip_ascii_bytes.simps [of v i] ascii_run_def)
  qed
qed

lemma read_usize_Inr:
  "i + 8 \<le> length v \<Longrightarrow> 8 dvd addr + i \<Longrightarrow> read_usize addr v i = Inr (le_word (take 8 (drop i v)))"
  by (simp add: read_usize_def)

lemma skip_ascii_blocks:
  assumes "8 dvd addr + i" "stop + 15 \<le> length v" "i \<le> length v"
  shows "\<exists>j. skip_ascii_blocks addr v stop i = Inr j \<and> ascii_run v i j"
  using assms
proof (induction addr v stop i rule: skip_ascii_blocks.induct)
  case (1 addr v stop i)
  show ?case
  proof (cases "i < stop")
    case True
    have r: "read_usize addr v i = Inr (le_word (take 8 (drop i v)))"
      "read_usize addr v (i + 8) = Inr (le_word (take 8 (drop (i + 8) v)))"
      using 1(2,3) True by (intro read_usize_Inr; simp add: add.assoc [symmetric])+
    let ?non = "\<lambda>i. contains_nonascii (le_word (take 8 (drop i v)))"
    show ?thesis
    proof (cases "?non i \<or> ?non (i + 8)")
      case False
      have byte: "v ! k < 128" if "\<not> ?non j" "j \<le> k" "k < j + 8" "j + 8 \<le> length v" for j k
      proof -
        have "v ! k = take 8 (drop j v) ! (k - j)" using that by simp
        then have "v ! k \<in> set (take 8 (drop j v))" using that by (auto simp: in_set_conv_nth intro!: exI [of _ "k - j"])
        then show ?thesis using contains_nonascii_bytes [of "take 8 (drop j v)"] that by auto
      qed
      have "v ! k < 128" if "i \<le> k" "k < i + 16" for k
        using byte [of i k] byte [of "i + 8" k] False that True 1(3) by (cases "k < i + 8") auto
      then have run: "ascii_run v i (i + 16)" using True 1(3) by (simp add: ascii_run_def)
      have "8 dvd addr + (i + 16)" using 1(2) by (simp add: add.assoc [symmetric])
      then obtain j where "skip_ascii_blocks addr v stop (i + 16) = Inr j" "ascii_run v (i + 16) j"
        using 1(1) [OF True r False] 1(3) True by auto
      then show ?thesis using ascii_run_trans [OF run] False True r
        by (simp add: skip_ascii_blocks.simps [of addr v stop i])
    qed (use 1(4) True r in \<open>auto simp: skip_ascii_blocks.simps [of addr v stop i] ascii_run_def\<close>)
  qed (use 1(4) in \<open>auto simp: skip_ascii_blocks.simps [of addr v stop i] ascii_run_def\<close>)
qed

text \<open>\<open>align_offset\<close> for \<open>usize\<close>: the distance to the next aligned address, or \<open>usize::MAX\<close>.\<close>

definition align_offset_ok :: "usize \<Rightarrow> usize \<Rightarrow> bool" where
  "align_offset_ok addr align \<longleftrightarrow> align = usize_max \<or> align < 8 \<and> 8 dvd addr + align"

lemma aligned_index:
  assumes "align_offset_ok addr align" "align \<noteq> usize_max" "8 dvd wrapping_sub align i" "i \<le> usize_max"
  shows "8 dvd addr + i"
proof -
  have "align < 8" "8 dvd addr + align" using assms(1,2) by (auto simp: align_offset_ok_def)
  have "(align + 2 ^ 64 - i) mod 2 ^ 64 mod 8 = 0"
    using assms(3) by (simp add: wrapping_sub_def dvd_eq_mod_eq_0)
  then have "(align + 2 ^ 64 - i) mod 8 = 0"
    by (subst (asm) mod_mod_cancel) simp_all
  then obtain q where q: "align + 2 ^ 64 - i = 8 * q" by (metis mod_0_imp_dvd dvdE)
  then have "addr + i + 8 * q = addr + align + 8 * 2 ^ 61"
    using assms(4) by (simp add: usize_max_def)
  then have "8 dvd addr + i + 8 * q" using \<open>8 dvd addr + align\<close> by (metis dvd_add dvd_triv_left)
  then show ?thesis by (metis dvd_add_left_iff dvd_triv_left)
qed

text \<open>What the validator answers: the whole input is UTF-8, or the prefix up to \<open>valid_up_to\<close> is and
  the scan of the next sequence fails as \<open>error_len\<close> says.\<close>

definition validation_result :: "u8 list \<Rightarrow> utf8_error + unit \<Rightarrow> bool" where
  "validation_result v r \<longleftrightarrow> (case r of
     Inr _ \<Rightarrow> valid_utf8 v
   | Inl e \<Rightarrow> valid_up_to e < length v \<and> valid_utf8 (take (valid_up_to e) v) \<and>
       scan_char (drop (valid_up_to e) v) = Inl (error_len e))"

lemma utf8_step_correct:
  assumes align: "align_offset_ok addr align" and v: "length v \<le> usize_max"
    and i: "i < length v" "valid_utf8 (take i v)"
  shows "(\<exists>e. utf8_step addr align v i = Inr (Inl e) \<and> validation_result v (Inl e)) \<or>
    (\<exists>j. utf8_step addr align v i = Inr (Inr j) \<and> i < j \<and> j \<le> length v \<and> valid_utf8 (take j v))"
proof (cases "v ! i < 128")
  case False
  then have "utf8_step addr align v i = Inr (utf8_multibyte v i)" by (simp add: utf8_step_def Let_def not_less)
  moreover note utf8_multibyte_scan [OF i(1) False]
  ultimately show ?thesis
    using i valid_utf8_step [OF i(2)]
    by (cases "scan_char (drop i v)") (auto simp: utf8_err_def validation_result_def)
next
  case True
  have one: "ascii_run v i (i + 1)" using True i(1) by (auto simp: ascii_run_def less_Suc_eq_le dest: le_antisym)
  show ?thesis
  proof (cases "align \<noteq> usize_max \<and> 8 dvd wrapping_sub align i")
    case False
    then have "utf8_step addr align v i = Inr (Inr (i + 1))" using True by (auto simp: utf8_step_def Let_def not_le [symmetric])
    then show ?thesis using ascii_run_valid [OF one i(2)] one by (auto simp: ascii_run_def)
  next
    case fast: True
    define stop where "stop = (if length v \<ge> 16 then length v - 16 + 1 else 0)"
    have dvd: "8 dvd addr + i" using aligned_index [OF align] fast i(1) v by simp
    obtain j where j: "skip_ascii_blocks addr v stop i = Inr j" "ascii_run v i j"
    proof (cases "length v \<ge> 16")
      case True
      then have "stop + 15 \<le> length v" by (simp add: stop_def)
      from skip_ascii_blocks [OF dvd this] show thesis using i(1) that by auto
    next
      case False
      then show thesis using i(1) that [of i]
        by (simp add: stop_def skip_ascii_blocks.simps [of addr v 0 i] ascii_run_def)
    qed
    have "ascii_run v j (skip_ascii_bytes v j)" using j(2) skip_ascii_bytes [of j v] by (simp add: ascii_run_def)
    then have run: "ascii_run v i (skip_ascii_bytes v j)" using ascii_run_trans j(2) by blast
    have "i < skip_ascii_bytes v j"
    proof (cases "j = i")
      case True
      have "ascii_run v (i + 1) (skip_ascii_bytes v (i + 1))" using i(1) by (intro skip_ascii_bytes) simp
      then show ?thesis using \<open>v ! i < 128\<close> i(1) True
        by (simp add: skip_ascii_bytes.simps [of v i] ascii_run_def)
    qed (use j(2) \<open>ascii_run v j _\<close> in \<open>auto simp: ascii_run_def\<close>)
    moreover have "utf8_step addr align v i = Inr (Inr (skip_ascii_bytes v j))"
      using True fast j(1) by (simp add: utf8_step_def stop_def Let_def not_le [symmetric])
    ultimately show ?thesis using ascii_run_valid [OF run i(2)] run by (auto simp: ascii_run_def)
  qed
qed

lemma utf8_validation_loop:
  assumes "align_offset_ok addr align" "length v \<le> usize_max" "i \<le> length v" "valid_utf8 (take i v)"
  shows "\<exists>r. utf8_validation_loop addr align v i = Inr r \<and> validation_result v r"
  using assms
proof (induction addr align v i rule: utf8_validation_loop.induct)
  case (1 addr align v i)
  note loop = utf8_validation_loop.simps [of addr align v i]
  show ?case
  proof (cases "i < length v")
    case True
    from utf8_step_correct [OF 1(2,3) True 1(5)] show ?thesis
    proof (elim disjE exE conjE)
      fix j
      assume j: "utf8_step addr align v i = Inr (Inr j)" "i < j" "j \<le> length v" "valid_utf8 (take j v)"
      show ?thesis using 1(1) [OF True j(2) 1(2,3) j(3,4)] True j by (simp add: loop)
    qed (use True loop in simp)
  next
    case False
    then have "utf8_validation_loop addr align v i = Inr (Inr ())" by (simp add: loop)
    moreover have "validation_result v (Inr ())" using 1(4,5) False by (simp add: validation_result_def)
    ultimately show ?thesis by blast
  qed
qed

lemma run_utf8_validation:
  assumes "align_offset_ok addr align" "length v \<le> usize_max"
  obtains r where "run_utf8_validation addr align v = Inr r" "validation_result v r"
  using utf8_validation_loop [OF assms, of 0] by (auto simp: run_utf8_validation_def)

text \<open>An error determines the longest valid prefix, and whether more input could repair it.\<close>

lemma validation_error:
  assumes "validation_result v (Inl e)"
  defines "n \<equiv> valid_up_to e"
  shows "n < length v" "valid_utf8 (take n v)" "\<not> valid_utf8 v"
    and "n < j \<Longrightarrow> j \<le> length v \<Longrightarrow> \<not> valid_utf8 (take j v)"
    and "error_len e = None \<Longrightarrow> length v - n \<le> 3 \<and> (\<exists>s. valid_utf8 (v @ s))"
    and "error_len e = Some k \<Longrightarrow> 1 \<le> k \<and> k \<le> 3 \<and> n + k \<le> length v \<and> \<not> valid_utf8 (v @ s)"
proof -
  have e: "n < length v" "valid_utf8 (take n v)" "scan_char (drop n v) = Inl (error_len e)"
    using assms by (auto simp: validation_result_def)
  have split: "v = take n v @ drop n v" by simp
  show "n < length v" "valid_utf8 (take n v)" using e by auto
  have valid: "valid_utf8 (v @ s) \<longleftrightarrow> valid_utf8 (drop n v @ s)" for s
    using valid_utf8_append [OF e(2), of "drop n v @ s"] by (simp add: append.assoc [symmetric])
  show no: "\<not> valid_utf8 v" using valid [of "[]"] valid_utf8_scan [OF e(3)] e(1) by simp
  show "\<not> valid_utf8 (take j v)" if "n < j" "j \<le> length v"
  proof
    assume "valid_utf8 (take j v)"
    moreover have "take j v = take n v @ take (j - n) (drop n v)"
      using that by (metis le_add_diff_inverse less_imp_le take_add)
    ultimately have "valid_utf8 (take (j - n) (drop n v))" using valid_utf8_append [OF e(2)] by simp
    then obtain cs where "chars_ok cs" "take (j - n) (drop n v) = str_bytes cs" by (auto simp: valid_utf8_def)
    moreover from this have "cs \<noteq> []" using that e(1) by auto
    ultimately obtain c ds where "is_char c" "take (j - n) (drop n v) = utf8_bytes c @ str_bytes ds"
      by (cases cs) auto
    then have "drop n v = utf8_bytes c @ str_bytes ds @ drop (j - n) (drop n v)"
      by (metis append.assoc append_take_drop_id)
    then show False using scan_char_encode [OF \<open>is_char c\<close>] e(3) by (metis Inl_Inr_False)
  qed
  show "length v - n \<le> 3 \<and> (\<exists>s. valid_utf8 (v @ s))" if "error_len e = None"
  proof -
    have "scan_char (drop n v) = Inl None" "drop n v \<noteq> []" using e that by auto
    then obtain c r where c: "is_char c" "utf8_bytes c = drop n v @ r" "r \<noteq> []"
      by (rule scan_char_None)
    have "length (drop n v) < length (utf8_bytes c)" using c by simp
    then have "length v - n \<le> 3" using length_utf8_bytes [of c] len_utf8_bounds(2) [of c] by simp
    moreover have "valid_utf8 (v @ r)" using valid valid_utf8_char [OF c(1)] c(2) by simp
    ultimately show ?thesis by blast
  qed
  show "1 \<le> k \<and> k \<le> 3 \<and> n + k \<le> length v \<and> \<not> valid_utf8 (v @ s)" if "error_len e = Some k"
  proof -
    have k: "scan_char (drop n v) = Inl (Some k)" using e that by simp
    then have "\<not> valid_utf8 (drop n v @ s)" using valid_utf8_scan [OF scan_char_Some(1) [OF k]] e(1) by simp
    then show ?thesis using scan_char_Some(2,3,4) [OF k] valid e(1) by auto
  qed
qed

lemma validation_result_unique:
  assumes "validation_result v r" "validation_result v s"
  shows "r = s"
proof -
  have "e = f" if v: "validation_result v (Inl e)" "validation_result v (Inl f)" for e f
  proof -
    have "valid_up_to e = valid_up_to f"
      using validation_error(1,2,4) [OF v(1)] validation_error(1,2,4) [OF v(2)]
      by (meson linorder_neqE_nat less_imp_le)
    then show ?thesis using v by (simp add: validation_result_def)
  qed
  moreover have "\<not> (validation_result v (Inl e) \<and> validation_result v (Inr u))" for e u
    using validation_error(3) [of v e] by (auto simp: validation_result_def)
  ultimately show ?thesis using assms by (cases r; cases s; (blast | (simp; fail)))
qed

section \<open>Lossy decoding\<close>

text \<open>The chunk decoder is a second implementation of the grammar. It agrees with the validator on
  where the valid prefix ends and on how many bytes are invalid.\<close>

definition chunk_end :: "u8 list \<Rightarrow> utf8_error + unit \<Rightarrow> nat \<times> nat" where
  "chunk_end v r = (case r of
     Inr _ \<Rightarrow> (length v, length v)
   | Inl e \<Rightarrow> (case error_len e of Some k \<Rightarrow> valid_up_to e + k | None \<Rightarrow> length v, valid_up_to e))"

lemma chunk_loop_correct:
  "i \<le> length v \<Longrightarrow> valid_utf8 (take i v) \<Longrightarrow>
    \<exists>r. validation_result v r \<and> chunk_loop v i i = chunk_end v r"
proof (induction "length v - i" arbitrary: i rule: less_induct)
  case less
  note loop = chunk_loop.simps [of v i i]
  show ?case
  proof (cases "i < length v")
    case False
    then have "chunk_loop v i i = (i, i)" by (simp add: loop)
    moreover have "i = length v" using less.prems False by simp
    ultimately have "validation_result v (Inr ())" "chunk_loop v i i = (length v, length v)"
      using less.prems by (simp_all add: validation_result_def)
    then show ?thesis by (intro exI [of _ "Inr ()"]) (simp add: chunk_end_def)
  next
    case True
    note char = chunk_char_scan [OF True]
    show ?thesis
    proof (cases "scan_char (drop i v)")
      case (Inr w)
      note step = valid_utf8_step [OF less.prems(2) Inr less.prems(1)]
      have "chunk_loop v i i = chunk_loop v (i + w) (i + w)" using Inr char True by (simp add: loop)
      then show ?thesis using less.hyps [of "i + w"] step True by simp
    next
      case (Inl e)
      let ?e = "\<lparr>valid_up_to = i, error_len = e\<rparr>"
      have "validation_result v (Inl ?e)" using Inl True less.prems by (simp add: validation_result_def)
      moreover have "chunk_loop v i i = chunk_end v (Inl ?e)"
        using Inl char True by (cases e) (simp_all add: loop chunk_end_def)
      ultimately show ?thesis by blast
    qed
  qed
qed

lemma chunk_end_bounds:
  assumes "validation_result v r" "chunk_end v r = (i, u)" "v \<noteq> []"
  shows "u \<le> i" "i \<le> length v" "0 < i"
proof -
  have "u \<le> i \<and> i \<le> length v \<and> 0 < i"
  proof (cases r)
    case (Inl e)
    note e = validation_error [OF assms(1) [unfolded Inl]]
    show ?thesis
      using assms(2) e(1) e(6) Inl by (cases "error_len e") (auto simp: chunk_end_def)
  qed (use assms in \<open>auto simp: chunk_end_def\<close>)
  then show "u \<le> i" "i \<le> length v" "0 < i" by blast+
qed

text \<open>The specification of lossy decoding: a sequence that the grammar rejects, up to its first
  unexpected byte or the end of the input, becomes one replacement character.\<close>

definition REPLACEMENT :: u32 where "REPLACEMENT = 0xFFFD"

lemma REPLACEMENT_char [simp]: "is_char REPLACEMENT"
  by (simp add: is_char_nat REPLACEMENT_def)

function lossy :: "u8 list \<Rightarrow> u32 list" where
  "lossy s =
     (if s = [] then []
      else case scan_char s of
             Inl None \<Rightarrow> [REPLACEMENT]
           | Inl (Some k) \<Rightarrow> REPLACEMENT # lossy (drop k s)
           | Inr w \<Rightarrow> the (fst (projr (next_code_point s))) # lossy (drop w s))"
  by pat_completeness auto
termination
proof (relation "measure length")
  fix s e k
  assume "s \<noteq> []" "scan_char s = Inl e" "e = Some k"
  then show "(drop k s, s) \<in> measure length" using scan_char_Some(2) [of s k] by simp
next
  fix s w
  assume "s \<noteq> []" "scan_char s = Inr w"
  then show "(drop w s, s) \<in> measure length" using scan_char_Inr [of s w] by (metis drop_eq_Nil
      length_drop length_greater_0_conv diff_less in_measure append_Nil2 append_is_Nil_conv list.size(3) le_zero_eq not_gr_zero utf8_bytes_not_Nil)
qed simp

declare lossy.simps [simp del]

lemma lossy_Nil [simp]: "lossy [] = []"
  by (simp add: lossy.simps)

lemma lossy_char: "is_char c \<Longrightarrow> lossy (utf8_bytes c @ s) = c # lossy s"
  by (simp add: lossy.simps [of "utf8_bytes c @ s"] scan_char_encode next_code_point_encode char_small)

lemma lossy_valid: "chars_ok cs \<Longrightarrow> lossy (str_bytes cs @ s) = cs @ lossy s"
  by (induction cs) (simp_all add: lossy_char)

lemma lossy_ok: "chars_ok (lossy s)"
proof (induction s rule: lossy.induct)
  case (1 s)
  show ?case
  proof (cases "s = []")
    case False
    show ?thesis
    proof (cases "scan_char s")
      case (Inl e)
      then show ?thesis using 1(1) [OF False Inl] False
        by (cases e) (simp_all add: lossy.simps [of s])
    next
      case (Inr w)
      then obtain c r where "is_char c" "s = utf8_bytes c @ r" "w = length (utf8_bytes c)" by (rule scan_char_Inr)
      then show ?thesis using 1(2) [OF False Inr] by (simp add: lossy_char)
    qed
  qed simp
qed

lemma lossy_split:
  assumes "validation_result v r" "chunk_end v r = (i, u)"
  obtains cs where "chars_ok cs" "take u v = str_bytes cs"
    "lossy v = cs @ (if u < i then [REPLACEMENT] else []) @ lossy (drop i v)"
proof -
  have "valid_utf8 (take u v)"
    using assms by (auto simp: validation_result_def chunk_end_def split: sum.splits)
  then obtain cs where cs: "chars_ok cs" "take u v = str_bytes cs" by (auto simp: valid_utf8_def)
  then have split: "lossy v = cs @ lossy (drop u v)" using lossy_valid [OF cs(1), of "drop u v"] by (metis append_take_drop_id)
  show thesis
  proof (cases r)
    case (Inl e)
    note e = validation_error [OF assms(1) [unfolded Inl]]
    have u: "u = valid_up_to e" using assms(2) Inl by (simp add: chunk_end_def)
    have scan: "scan_char (drop u v) = Inl (error_len e)" using assms(1) Inl u by (simp add: validation_result_def)
    have "lossy (drop u v) = REPLACEMENT # lossy (drop i v) \<and> u < i"
    proof (cases "error_len e")
      case None
      then have "i = length v" using assms(2) Inl by (simp add: chunk_end_def)
      then show ?thesis using scan None e(1) u by (subst lossy.simps) simp
    next
      case (Some k)
      then have "i = u + k" using assms(2) Inl u by (simp add: chunk_end_def)
      moreover have "1 \<le> k" using e(6) [OF Some] by blast
      ultimately show ?thesis using scan Some e(1) u by (subst lossy.simps) (simp add: add.commute)
    qed
    then show thesis using that cs split by simp
  next
    case (Inr x)
    then have "i = length v" "u = length v" using assms(2) by (auto simp: chunk_end_def)
    then show thesis using that cs split by simp
  qed
qed

lemma utf8_chunks_next_correct:
  assumes "v \<noteq> []"
  obtains r i u where "validation_result v r" "chunk_end v r = (i, u)" "u \<le> i" "0 < i" "i \<le> length v"
    "utf8_chunks_next v = Inr (Some \<lparr>chunk_valid = take u v, chunk_invalid = drop u (take i v)\<rparr>, drop i v)"
proof -
  obtain r where r: "validation_result v r" "chunk_loop v 0 0 = chunk_end v r"
    using chunk_loop_correct [of 0 v] by auto
  obtain i u where iu: "chunk_end v r = (i, u)" by (cases "chunk_end v r")
  note b = chunk_end_bounds(1,2,3) [OF r(1) iu assms]
  then show thesis using that [OF r(1) iu] assms r(2) iu
    by (simp add: utf8_chunks_next_def min_absorb1)
qed

end
