(* ===== verification/Rust_String.thy ===== *)
theory Rust_String
  imports Utf8_Correct Rust_Vec_Correct
begin

text \<open>
  \<open>alloc::string::String\<close> (\<open>alloc/src/string.rs\<close>): a \<open>Vec<u8>\<close> whose bytes are UTF-8, with the
  indexing of \<open>str\<close> it uses (\<open>core/src/str/mod.rs\<close>, \<open>str/traits.rs\<close>). A \<open>&str\<close> argument is the list
  of its bytes.
\<close>

section \<open>State\<close>

record rust_string =
  s_vec :: "u8 vec"

definition u8_layout :: layout where
  "u8_layout = \<lparr>lay_size = 1, lay_align = 1\<rparr>"

definition string_new :: "(layout \<Rightarrow> bool) \<Rightarrow> rust_string" where
  "string_new alloc = \<lparr>s_vec = vec_new_in alloc u8_layout\<rparr>"

definition string_with_capacity :: "(layout \<Rightarrow> bool) \<Rightarrow> usize \<Rightarrow> rust_string res" where
  "string_with_capacity alloc capacity =
     and_then (vec_with_capacity_in capacity alloc u8_layout) (\<lambda>v. Inr \<lparr>s_vec = v\<rparr>)"

definition string_len :: "rust_string \<Rightarrow> usize" where
  "string_len s = v_len (s_vec s)"

definition as_bytes :: "rust_string \<Rightarrow> u8 list res" where
  "as_bytes s = as_slice (s_vec s)"

text \<open>Storing back the memory of the vector and its length (\<open>set_len\<close>).\<close>

definition string_store :: "rust_string \<Rightarrow> u8 memory \<Rightarrow> usize \<Rightarrow> rust_string" where
  "string_store s m len = \<lparr>s_vec = (v_set_mem (s_vec s) m)\<lparr>v_len := len\<rparr>\<rparr>"

definition with_vec :: "'b vec res \<Rightarrow> ('b vec \<Rightarrow> 'c) \<Rightarrow> 'c res" where
  "with_vec m f = and_then m (\<lambda>v. Inr (f v))"

definition string_reserve :: "rust_string \<Rightarrow> usize \<Rightarrow> rust_string res" where
  "string_reserve s additional = with_vec (vec_reserve (s_vec s) additional) (\<lambda>v. \<lparr>s_vec = v\<rparr>)"

definition string_shrink_to_fit :: "rust_string \<Rightarrow> rust_string res" where
  "string_shrink_to_fit s = with_vec (vec_shrink_to_fit (s_vec s)) (\<lambda>v. \<lparr>s_vec = v\<rparr>)"

definition string_shrink_to :: "rust_string \<Rightarrow> usize \<Rightarrow> rust_string res" where
  "string_shrink_to s min_capacity = with_vec (vec_shrink_to (s_vec s) min_capacity) (\<lambda>v. \<lparr>s_vec = v\<rparr>)"

section \<open>Slicing\<close>

text \<open>The failure of \<open>s[begin..end]\<close>. It computes what it prints: a prefix of the string and the
  character around the index.\<close>

definition str_get :: "u8 list \<Rightarrow> usize \<Rightarrow> usize \<Rightarrow> u8 list option" where
  "str_get s start stop =
     (if start \<le> stop \<and> is_char_boundary s start \<and> is_char_boundary s stop
      then Some (take (stop - start) (drop start s)) else None)"

definition slice_error_fail :: "u8 list \<Rightarrow> usize \<Rightarrow> usize \<Rightarrow> 'a res" where
  "slice_error_fail s start stop =
     and_then (floor_char_boundary s 256) (\<lambda>trunc_len.
       case str_get s 0 trunc_len of
         None \<Rightarrow> Inl (Panic ''failed to slice string'')
       | Some s_trunc \<Rightarrow>
           if start > length s \<or> stop > length s
           then Inl (Panic ''byte index {oob_index} is out of bounds of `{s_trunc}`{ellipsis}'')
           else if \<not> start \<le> stop
           then Inl (Panic ''begin <= end ({} <= {}) when slicing `{}`{}'')
           else let index = (if \<not> is_char_boundary s start then start else stop)
                in and_then (floor_char_boundary s index) (\<lambda>char_start.
                  case str_get s char_start (length s) of
                    None \<Rightarrow> Inl (Panic ''failed to slice string'')
                  | Some rest \<Rightarrow> and_then (chars_next rest) (\<lambda>(ch, _). case ch of
                      None \<Rightarrow> Inl (Panic ''called `Option::unwrap()` on a `None` value'')
                    | Some ch \<Rightarrow> Inl (Panic ''byte index {} is not a char boundary; it is inside {:?} (bytes {:?}) of `{}`{}''))))"

definition str_index :: "u8 list \<Rightarrow> usize \<Rightarrow> usize \<Rightarrow> u8 list res" where
  "str_index s start stop =
     (case str_get s start stop of Some r \<Rightarrow> Inr r | None \<Rightarrow> slice_error_fail s start stop)"

definition assert_boundary :: "rust_string \<Rightarrow> usize \<Rightarrow> 'b res \<Rightarrow> 'b res" where
  "assert_boundary s idx k =
     and_then (as_bytes s) (\<lambda>b.
       ensure (Panic ''assertion failed: self.is_char_boundary(idx)'') (is_char_boundary b idx) k)"

section \<open>Characters\<close>

definition string_push :: "rust_string \<Rightarrow> u32 \<Rightarrow> rust_string res" where
  "string_push s ch =
     (let len = string_len s; ch_len = len_utf8 ch
      in and_then (string_reserve s ch_len) (\<lambda>s.
           and_then (encode_utf8_raw_unchecked ch (v_mem (s_vec s)) (string_len s)) (\<lambda>m.
             Inr (string_store s m (len + ch_len)))))"

definition string_pop :: "rust_string \<Rightarrow> (u32 option \<times> rust_string) res" where
  "string_pop s =
     and_then (as_bytes s) (\<lambda>b. and_then (chars_next_back b) (\<lambda>(ch, _). case ch of
       None \<Rightarrow> Inr (None, s)
     | Some ch \<Rightarrow>
         let newlen = string_len s - len_utf8 ch
         in Inr (Some ch, string_store s (v_mem (s_vec s)) newlen)))"

definition string_remove :: "rust_string \<Rightarrow> usize \<Rightarrow> (u32 \<times> rust_string) res" where
  "string_remove s idx =
     and_then (as_bytes s) (\<lambda>b.
       and_then (str_index b idx (length b)) (\<lambda>rest. and_then (chars_next rest) (\<lambda>(ch, _). case ch of
         None \<Rightarrow> Inl (Panic ''cannot remove a char from the end of a string'')
       | Some ch \<Rightarrow>
           let next = idx + len_utf8 ch; len = string_len s
           in and_then (ptr_copy (v_mem (s_vec s)) next idx (len - next)) (\<lambda>m.
                Inr (ch, string_store s m (len - (next - idx)))))))"

definition string_insert :: "rust_string \<Rightarrow> usize \<Rightarrow> u32 \<Rightarrow> rust_string res" where
  "string_insert s idx ch =
     assert_boundary s idx
       (let len = string_len s; ch_len = len_utf8 ch
        in and_then (string_reserve s ch_len) (\<lambda>s.
             and_then (ptr_copy (v_mem (s_vec s)) idx (idx + ch_len) (len - idx)) (\<lambda>m.
               and_then (encode_utf8_raw_unchecked ch m idx) (\<lambda>m.
                 Inr (string_store s m (len + ch_len))))))"

section \<open>Strings\<close>

definition string_push_str :: "rust_string \<Rightarrow> u8 list \<Rightarrow> rust_string res" where
  "string_push_str s string = with_vec (append_elements (s_vec s) string) (\<lambda>v. \<lparr>s_vec = v\<rparr>)"

definition string_insert_str :: "rust_string \<Rightarrow> usize \<Rightarrow> u8 list \<Rightarrow> rust_string res" where
  "string_insert_str s idx string =
     assert_boundary s idx
       (let len = string_len s; amt = length string
        in and_then (string_reserve s amt) (\<lambda>s.
             and_then (ptr_copy (v_mem (s_vec s)) idx (idx + amt) (len - idx)) (\<lambda>m.
               and_then (ptr_copy_from m idx (map Some string)) (\<lambda>m.
                 Inr (string_store s m (len + amt))))))"

definition string_truncate :: "rust_string \<Rightarrow> usize \<Rightarrow> rust_string res" where
  "string_truncate s new_len =
     (if new_len \<le> string_len s
      then assert_boundary s new_len
             (and_then (vec_truncate (s_vec s) new_len) (\<lambda>(_, v). Inr \<lparr>s_vec = v\<rparr>))
      else Inr s)"

definition string_clear :: "rust_string \<Rightarrow> rust_string res" where
  "string_clear s = and_then (vec_clear (s_vec s)) (\<lambda>(_, v). Inr \<lparr>s_vec = v\<rparr>)"

definition string_split_off :: "rust_string \<Rightarrow> usize \<Rightarrow> (rust_string \<times> rust_string) res" where
  "string_split_off s at =
     assert_boundary s at
       (and_then (vec_split_off (s_vec s) at) (\<lambda>(v, other). Inr (\<lparr>s_vec = v\<rparr>, \<lparr>s_vec = other\<rparr>)))"

definition string_extend_from_within :: "rust_string \<Rightarrow> bound \<Rightarrow> bound \<Rightarrow> rust_string res" where
  "string_extend_from_within s start_bound end_bound =
     and_then (slice_range start_bound end_bound (string_len s)) (\<lambda>(start, stop).
       assert_boundary s start (assert_boundary s stop
         (with_vec (extend_from_within (s_vec s) (Included start) (Excluded stop)) (\<lambda>v. \<lparr>s_vec = v\<rparr>))))"

text \<open>\<open>Extend<char>\<close>, for an iterator that yields \<open>cs\<close> and whose size hint has the given lower
  bound; \<open>FromIterator<char>\<close>.\<close>

fun push_all :: "rust_string \<Rightarrow> u32 list \<Rightarrow> rust_string res" where
  "push_all s [] = Inr s"
| "push_all s (c # cs) = and_then (string_push s c) (\<lambda>s. push_all s cs)"

definition string_extend :: "rust_string \<Rightarrow> usize \<Rightarrow> u32 list \<Rightarrow> rust_string res" where
  "string_extend s lower_bound cs = and_then (string_reserve s lower_bound) (\<lambda>s. push_all s cs)"

definition string_from_iter :: "(layout \<Rightarrow> bool) \<Rightarrow> usize \<Rightarrow> u32 list \<Rightarrow> rust_string res" where
  "string_from_iter alloc lower_bound cs = string_extend (string_new alloc) lower_bound cs"

section \<open>Retaining\<close>

text \<open>The loop of \<open>retain\<close>, with a closure that may panic (\<open>None\<close>), and the guard \<open>SetLenOnDrop\<close>. A
  decoded character is at least one byte long; the model's test of that makes the loop
  well-founded.\<close>

function string_retain_loop ::
  "(u32 \<Rightarrow> bool option) \<Rightarrow> u8 memory \<Rightarrow> usize \<Rightarrow> usize \<Rightarrow> usize \<Rightarrow> (bool \<times> usize \<times> usize \<times> u8 memory) res" where
  "string_retain_loop f m len idx del_bytes =
     (if idx < len
      then and_then (slice_at m idx len) (\<lambda>rest. and_then (chars_next rest) (\<lambda>(ch, _). case ch of
             None \<Rightarrow> Inl (UB BrokenAssumption)
           | Some ch \<Rightarrow>
               let ch_len = len_utf8 ch
               in case f ch of
                    None \<Rightarrow> Inr (True, idx, del_bytes, m)
                  | Some keep \<Rightarrow>
                      if \<not> keep then string_retain_loop f m len (idx + ch_len) (del_bytes + ch_len)
                      else and_then
                        (if del_bytes > 0
                         then and_then (slice_at m (idx - del_bytes) (idx - del_bytes + ch_len)) (\<lambda>dst.
                           and_then (encode_utf8_raw ch dst) (\<lambda>(_, dst).
                             ptr_copy_from m (idx - del_bytes) (map Some dst)))
                         else Inr m)
                        (\<lambda>m. string_retain_loop f m len (idx + ch_len) del_bytes)))
      else Inr (False, idx, del_bytes, m))"
  by pat_completeness auto
termination
  by (relation "measure (\<lambda>(f, m, len, idx, del). len - idx)")
    (auto simp: len_utf8_def split: if_splits)

declare string_retain_loop.simps [simp del]

definition set_len_on_drop :: "rust_string \<Rightarrow> u8 memory \<Rightarrow> usize \<Rightarrow> usize \<Rightarrow> rust_string res" where
  "set_len_on_drop s m idx del_bytes =
     (let new_len = idx - del_bytes
      in ensure DebugAssert (new_len \<le> string_len s) (Inr (string_store s m new_len)))"

definition string_retain :: "rust_string \<Rightarrow> (u32 \<Rightarrow> bool option) \<Rightarrow> (bool \<times> rust_string) res" where
  "string_retain s f =
     and_then (string_retain_loop f (v_mem (s_vec s)) (string_len s) 0 0) (\<lambda>(unwinding, idx, del_bytes, m).
       and_then (set_len_on_drop s m idx del_bytes) (\<lambda>s. Inr (unwinding, s)))"

section \<open>Draining\<close>

record string_drain =
  sd_string :: rust_string
  sd_start :: usize
  sd_end :: usize
  sd_iter :: "u8 list"

definition drain_string :: "rust_string \<Rightarrow> bound \<Rightarrow> bound \<Rightarrow> string_drain res" where
  "drain_string s start_bound end_bound =
     and_then (slice_range start_bound end_bound (string_len s)) (\<lambda>(start, stop).
       assert_boundary s start (assert_boundary s stop
         (and_then (as_bytes s) (\<lambda>b.
           Inr \<lparr>sd_string = s, sd_start = start, sd_end = stop,
                sd_iter = take (stop - start) (drop start b)\<rparr>))))"

definition string_drain_next :: "string_drain \<Rightarrow> (u32 option \<times> string_drain) res" where
  "string_drain_next d =
     and_then (chars_next (sd_iter d)) (\<lambda>(ch, rest). Inr (ch, d\<lparr>sd_iter := rest\<rparr>))"

definition string_drain_next_back :: "string_drain \<Rightarrow> (u32 option \<times> string_drain) res" where
  "string_drain_next_back d =
     and_then (chars_next_back (sd_iter d)) (\<lambda>(ch, rest). Inr (ch, d\<lparr>sd_iter := rest\<rparr>))"

definition string_drain_drop :: "string_drain \<Rightarrow> rust_string res" where
  "string_drain_drop d =
     (let self_vec = s_vec (sd_string d)
      in if sd_start d \<le> sd_end d \<and> sd_end d \<le> v_len self_vec
         then and_then (vec_drain self_vec (Included (sd_start d)) (Excluded (sd_end d))) (\<lambda>dr.
                and_then (drain_drop dr) (\<lambda>(_, v). Inr \<lparr>s_vec = v\<rparr>))
         else Inr (sd_string d))"

section \<open>From bytes\<close>

text \<open>\<open>from_utf8\<close> gives the bytes back with the error.\<close>

definition string_from_utf8 ::
  "usize \<Rightarrow> usize \<Rightarrow> u8 vec \<Rightarrow> (u8 vec \<times> utf8_error + rust_string) res" where
  "string_from_utf8 addr align v =
     and_then (as_slice v) (\<lambda>b. and_then (run_utf8_validation addr align b) (\<lambda>r. case r of
       Inr _ \<Rightarrow> Inr (Inr \<lparr>s_vec = v\<rparr>)
     | Inl e \<Rightarrow> Inr (Inl (v, e))))"

datatype cow = Borrowed "u8 list" | Owned rust_string

text \<open>The loop over the remaining chunks. The test on the length is always true: it makes the
  recursion well-founded.\<close>

function push_chunks :: "rust_string \<Rightarrow> u8 list \<Rightarrow> rust_string res" where
  "push_chunks s source =
     and_then (utf8_chunks_next source) (\<lambda>(chunk, rest). case chunk of
       None \<Rightarrow> Inr s
     | Some chunk \<Rightarrow>
         if length rest < length source
         then and_then (string_push_str s (chunk_valid chunk)) (\<lambda>s.
                and_then
                  (if chunk_invalid chunk \<noteq> [] then string_push_str s (utf8_bytes REPLACEMENT) else Inr s)
                  (\<lambda>s. push_chunks s rest))
         else Inl OutOfFuel)"
  by pat_completeness auto
termination
  by (relation "measure (\<lambda>(s, source). length source)") auto

declare push_chunks.simps [simp del]

definition from_utf8_lossy :: "(layout \<Rightarrow> bool) \<Rightarrow> u8 list \<Rightarrow> cow res" where
  "from_utf8_lossy alloc v =
     and_then (utf8_chunks_next v) (\<lambda>(chunk, rest). case chunk of
       None \<Rightarrow> Inr (Borrowed [])
     | Some chunk \<Rightarrow>
         let first_valid = chunk_valid chunk
         in if chunk_invalid chunk = []
            then ensure DebugAssert (length first_valid = length v) (Inr (Borrowed first_valid))
            else and_then (string_with_capacity alloc (length v)) (\<lambda>s.
                   and_then (string_push_str s first_valid) (\<lambda>s.
                     and_then (string_push_str s (utf8_bytes REPLACEMENT)) (\<lambda>s.
                       and_then (push_chunks s rest) (\<lambda>s. Inr (Owned s))))))"

end
