(* ===== verification/Rust_String_Correct.thy ===== *)
theory Rust_String_Correct
  imports Rust_String
begin

text \<open>
  A \<open>String\<close> is a list of \<open>char\<close>s: the representation relation, byte offsets as positions in the
  list, and the effect of every operation.
\<close>

section \<open>Boundaries\<close>

text \<open>Splitting a list of characters at a byte offset; \<open>None\<close> when the offset is inside a character
  or past the end.\<close>

fun chars_split :: "nat \<Rightarrow> u32 list \<Rightarrow> (u32 list \<times> u32 list) option" where
  "chars_split 0 cs = Some ([], cs)"
| "chars_split (Suc n) [] = None"
| "chars_split (Suc n) (c # cs) =
     (if Suc n < len_utf8 c then None
      else case chars_split (Suc n - len_utf8 c) cs of None \<Rightarrow> None | Some (a, b) \<Rightarrow> Some (c # a, b))"

lemma chars_split_Some:
  "chars_split n cs = Some (a, b) \<Longrightarrow> cs = a @ b \<and> length (str_bytes a) = n"
  by (induction n cs arbitrary: a b rule: chars_split.induct)
    (auto simp: length_utf8_bytes split: if_splits option.splits)

lemma chars_split_append: "chars_split (length (str_bytes a)) (a @ b) = Some (a, b)"
proof (induction a)
  case (Cons c a)
  obtain n where n: "length (utf8_bytes c @ str_bytes a) = Suc n"
    by (cases "length (utf8_bytes c @ str_bytes a)") auto
  then have "Suc n - len_utf8 c = length (str_bytes a)" "\<not> Suc n < len_utf8 c"
    using length_utf8_bytes [of c] by auto
  then show ?case using Cons n by simp
qed simp

lemma char_bytes:
  assumes "is_char c"
  shows "0 < i \<Longrightarrow> i < len_utf8 c \<Longrightarrow> \<not> is_utf8_char_boundary (utf8_bytes c ! i)"
    and "is_utf8_char_boundary (utf8_bytes c ! 0)"
proof -
  obtain a s where a: "utf8_bytes c = a # s" "utf8_char_width a \<noteq> 0" "follows (follow a) s"
    using grammar_sound [OF assms] by blast
  have "\<forall>b \<in> set s. 128 \<le> unat b \<and> unat b < 192"
    using a(3) by (auto simp: follow_def Let_def list_all2_Cons1 is_cont_def second_of_three
        second_of_four split: if_splits)
  then show "\<not> is_utf8_char_boundary (utf8_bytes c ! i)" if "0 < i" "i < len_utf8 c"
    using that a(1) length_utf8_bytes [of c] by (cases i) auto
  show "is_utf8_char_boundary (utf8_bytes c ! 0)"
    using a(1,2) by (auto simp: utf8_char_width Let_def split: if_splits)
qed

lemma is_char_boundary_iff:
  assumes "chars_ok cs"
  shows "is_char_boundary (str_bytes cs) n \<longleftrightarrow> chars_split n cs \<noteq> None"
  using assms
proof (induction n cs rule: chars_split.induct)
  case (1 cs)
  then show ?case by (simp add: is_char_boundary_def)
next
  case (2 n)
  then show ?case by (simp add: is_char_boundary_def)
next
  case (3 n c cs)
  note len = length_utf8_bytes [of c]
  have c: "is_char c" "chars_ok cs" using 3(2) by auto
  show ?case
  proof (cases "Suc n < len_utf8 c")
    case True
    then show ?thesis using char_bytes(1) [OF c(1), of "Suc n"] len
      by (simp add: is_char_boundary_def nth_append)
  next
    case False
    have "is_char_boundary (str_bytes (c # cs)) (Suc n) = is_char_boundary (str_bytes cs) (Suc n - len_utf8 c)"
    proof (cases "Suc n = len_utf8 c")
      case True
      have "is_utf8_char_boundary (str_bytes cs ! 0)" if ne: "cs \<noteq> []"
      proof -
        obtain d ds where "cs = d # ds" using ne by (cases cs) auto
        then show ?thesis using char_bytes(2) [of d] c(2) by (simp add: nth_append)
      qed
      then show ?thesis using True len by (cases "cs = []") (auto simp: is_char_boundary_def nth_append)
    qed (use False len in \<open>auto simp: is_char_boundary_def nth_append\<close>)
    then show ?thesis using 3(1) [OF False c(2)] False by (auto split: option.splits)
  qed
qed

lemma boundary_cases:
  assumes "chars_ok cs"
  obtains "\<not> is_char_boundary (str_bytes cs) n" "chars_split n cs = None"
  | a b where "is_char_boundary (str_bytes cs) n" "chars_split n cs = Some (a, b)" "cs = a @ b"
      "n = length (str_bytes a)" "chars_ok a" "chars_ok b"
proof (cases "chars_split n cs")
  case None
  then show thesis using that(1) is_char_boundary_iff [OF assms] by simp
next
  case (Some ab)
  then obtain a b where ab: "chars_split n cs = Some (a, b)" by (cases ab) auto
  note s = chars_split_Some [OF ab]
  then have "chars_ok a" "chars_ok b" using assms by auto
  moreover have "is_char_boundary (str_bytes cs) n" using is_char_boundary_iff [OF assms] ab by blast
  ultimately show thesis using that(2) ab s by blast
qed

lemma floor_boundary_loop:
  assumes "chars_ok cs" "i \<le> length (str_bytes cs)"
  shows "is_char_boundary (str_bytes cs) (floor_boundary_loop (str_bytes cs) i)"
    and "floor_boundary_loop (str_bytes cs) i \<le> i"
    and "\<forall>j. floor_boundary_loop (str_bytes cs) i < j \<longrightarrow> j \<le> i \<longrightarrow> j < length (str_bytes cs) \<longrightarrow>
      \<not> is_utf8_char_boundary (str_bytes cs ! j)"
  using assms(2)
proof (induction i)
  case 0
  {
    case 1 then show ?case by (simp add: is_char_boundary_def)
  next
    case 2 then show ?case by simp
  next
    case 3 then show ?case by simp
  }
next
  case (Suc i)
  {
    case 1 then show ?case using Suc(1) by (auto simp: is_char_boundary_def)
  next
    case 2 then show ?case using Suc(2) by auto
  next
    case 3 then show ?case using Suc(3) by (auto simp: le_Suc_eq)
  }
qed


section \<open>Representation\<close>

definition string_rep :: "rust_string \<Rightarrow> u32 list \<Rightarrow> bool" where
  "string_rep s cs \<longleftrightarrow> chars_ok cs \<and> vec_rep (s_vec s) (str_bytes cs)"

lemma string_repD:
  assumes "string_rep s cs"
  shows "chars_ok cs" "vec_rep (s_vec s) (str_bytes cs)" "string_len s = length (str_bytes cs)"
    "as_bytes s = Inr (str_bytes cs)"
  using assms vec_repD(3) by (auto simp: string_rep_def string_len_def as_bytes_def as_slice_rep)

lemma string_repI: "chars_ok cs \<Longrightarrow> vec_rep v (str_bytes cs) \<Longrightarrow> string_rep \<lparr>s_vec = v\<rparr> cs"
  by (simp add: string_rep_def)

lemma string_store_rep:
  assumes "vec_rep (s_vec s) xs" "length m = v_cap (s_vec s)" "segment m 0 (str_bytes ds)" "chars_ok ds"
    "n = length (str_bytes ds)"
  shows "string_rep (string_store s m n) ds"
  using vec_repI [OF assms(1-3,5)] assms(4) by (simp add: string_rep_def string_store_def)

lemma u8_layout_ok: "layout_wf u8_layout" "lay_align u8_layout dvd lay_size u8_layout" "0 < lay_size u8_layout"
  by (auto simp: u8_layout_def layout_wf_iff isize_max_num intro: exI [of _ 0])

lemma string_new_rep: "string_rep (string_new alloc) []"
  using vec_new_rep [OF u8_layout_ok] by (simp add: string_rep_def string_new_def)

lemma with_vec_cases:
  assumes "reserve_fails m \<or> (\<exists>v. m = Inr v \<and> vec_rep v (str_bytes cs))" "chars_ok cs"
  obtains "reserve_fails (with_vec m (\<lambda>v. \<lparr>s_vec = v\<rparr>))"
  | s where "with_vec m (\<lambda>v. \<lparr>s_vec = v\<rparr>) = Inr s" "string_rep s cs"
  using assms by (auto simp: with_vec_def reserve_fails_and_then string_repI)

text \<open>A new string, empty or with a capacity.\<close>

lemma string_with_capacity_cases:
  obtains "reserve_fails (string_with_capacity alloc n)"
  | s where "string_with_capacity alloc n = Inr s" "string_rep s []"
proof -
  let ?run = "rv_with_capacity_in n alloc u8_layout :: u8 raw_vec res"
  consider "reserve_fails ?run" | b where "?run = Inr b" "rv_inv b" "n \<le> rv_cap b" "rv_elem b = u8_layout"
    using rv_with_capacity_cases [OF u8_layout_ok] by blast
  then show thesis
  proof cases
    case 1
    then show thesis
      by (intro that(1)) (simp add: string_with_capacity_def vec_with_capacity_in_def reserve_fails_and_then)
  next
    case 2
    then have "vec_rep \<lparr>v_buf = b, v_len = 0\<rparr> []"
      using u8_layout_ok(3) by (simp add: vec_rep_def vec_wf_def)
    then have "string_rep \<lparr>s_vec = \<lparr>v_buf = b, v_len = 0\<rparr>\<rparr> []" by (simp add: string_rep_def)
    with 2 show thesis
      by (intro that(2)) (simp_all add: string_with_capacity_def vec_with_capacity_in_def)
  qed
qed

lemma string_reserve_cases:
  assumes "string_rep s cs"
  obtains "reserve_fails (string_reserve s n)"
  | s' where "string_reserve s n = Inr s'" "string_rep s' cs" "length (str_bytes cs) + n \<le> v_cap (s_vec s')"
proof (rule vec_reserve_cases [OF string_repD(2) [OF assms], of n])
  assume "reserve_fails (vec_reserve (s_vec s) n)"
  then show thesis by (intro that(1)) (simp add: string_reserve_def with_vec_def reserve_fails_and_then)
next
  fix v assume "vec_reserve (s_vec s) n = Inr v" "vec_rep v (str_bytes cs)" "length (str_bytes cs) + n \<le> v_cap v"
  then show thesis using string_repD(1) [OF assms]
    by (intro that(2) [of "\<lparr>s_vec = v\<rparr>"]) (simp_all add: string_reserve_def with_vec_def string_repI)
qed

section \<open>Insertion\<close>

text \<open>Moving the tail up and writing bytes into the gap.\<close>

lemma insert_bytes:
  assumes rep: "vec_rep v (xs @ ys)" and cap: "length (xs @ ys) + length new \<le> v_cap v"
  obtains m m' where "ptr_copy (v_mem v) (length xs) (length xs + length new) (length ys) = Inr m"
    "ptr_copy_from m (length xs) (map Some new) = Inr m'" "length m' = v_cap v" "segment m' 0 (xs @ new @ ys)"
proof -
  note r = vec_repD [OF rep]
  let ?m = "move_slots (v_mem v) (length xs) (length xs + length new) (length ys)"
  have seg: "segment (v_mem v) 0 xs" "segment (v_mem v) (length xs) ys"
    using r(7) by (auto simp: segment_append)
  have c: "ptr_copy (v_mem v) (length xs) (length xs + length new) (length ys) = Inr ?m"
    "length ?m = v_cap v" using cap r(5) by simp_all
  have fit: "length xs + length new \<le> length ?m" using c(2) cap by simp
  note w = segment_copy_from [OF fit]
  let ?m' = "take (length xs) ?m @ map Some new @ drop (length xs + length new) ?m"
  have ys: "segment ?m (length xs + length new) ys"
    using segment_move [OF seg(2), of "length xs + length new" "length ys"] cap r(5) by simp
  have xs: "segment ?m 0 xs"
    using segment_move_other [OF seg(1), of "length xs" "length ys" "length xs + length new"] cap r(5) by simp
  have "segment ?m' 0 xs" using w(3) [of 0 xs] xs by simp
  moreover have "segment ?m' (length xs + length new) ys"
    using ys fit by (auto simp: segment_def nth_append)
  moreover have "length ?m' = v_cap v" using c(2) fit by simp
  ultimately show thesis using that [OF c(1) w(1)] w(2) by (simp add: segment_append)
qed

lemma string_push_eq: "string_push s ch = string_push_str s (utf8_bytes ch)"
  by (cases s) (auto simp: string_push_def string_push_str_def append_elements_def string_reserve_def with_vec_def
      encode_utf8_raw_unchecked_def string_store_def string_len_def and_then_assoc length_utf8_bytes
      vec_reserve_def Let_def and_then_def split: sum.splits)

lemma string_insert_eq: "string_insert s idx ch = string_insert_str s idx (utf8_bytes ch)"
  by (simp add: string_insert_def string_insert_str_def encode_utf8_raw_unchecked_def length_utf8_bytes)

lemma string_push_str_cases:
  assumes "string_rep s cs" "chars_ok ds"
  obtains "reserve_fails (string_push_str s (str_bytes ds))"
  | s' where "string_push_str s (str_bytes ds) = Inr s'" "string_rep s' (cs @ ds)"
proof -
  have "reserve_fails (append_elements (s_vec s) (str_bytes ds)) \<or>
      (\<exists>v. append_elements (s_vec s) (str_bytes ds) = Inr v \<and> vec_rep v (str_bytes (cs @ ds)))"
    by (rule append_elements_cases [OF string_repD(2) [OF assms(1)], of "str_bytes ds"]) auto
  moreover have "chars_ok (cs @ ds)" using assms string_repD(1) by simp
  ultimately show thesis by (rule with_vec_cases) (use that in \<open>auto simp: string_push_str_def\<close>)
qed

lemma string_push_cases:
  assumes "string_rep s cs" "is_char c"
  obtains "reserve_fails (string_push s c)" | s' where "string_push s c = Inr s'" "string_rep s' (cs @ [c])"
  using string_push_str_cases [OF assms(1), of "[c]"] assms(2) by (auto simp: string_push_eq)

lemma assert_boundary_rep:
  assumes "string_rep s cs"
  shows "assert_boundary s n k = (if chars_split n cs = None
    then Inl (Panic ''assertion failed: self.is_char_boundary(idx)'') else k)"
  using string_repD(1,4) [OF assms] by (simp add: assert_boundary_def is_char_boundary_iff)

lemma string_insert_str_cases:
  assumes rep: "string_rep s (a @ b)" and ds: "chars_ok ds" and n: "n = length (str_bytes a)"
  obtains "reserve_fails (string_insert_str s n (str_bytes ds))"
  | s' where "string_insert_str s n (str_bytes ds) = Inr s'" "string_rep s' (a @ ds @ b)"
proof -
  have assert': "assert_boundary s n k = k" for k :: "rust_string res"
    using n chars_split_append [of a b] by (simp add: assert_boundary_rep [OF rep])
  have len: "string_len s - n = length (str_bytes b)" using string_repD(3) [OF rep] n by simp
  from string_reserve_cases [OF rep, of "length (str_bytes ds)"] show thesis
  proof cases
    case 1
    then show thesis by (intro that(1)) (simp add: string_insert_str_def assert' reserve_fails_and_then Let_def)
  next
    case (2 w)
    have v: "vec_rep (s_vec w) (str_bytes a @ str_bytes b)" using string_repD(2) [OF 2(2)] by simp
    from insert_bytes [OF v, of "str_bytes ds"] 2(3) obtain m m' where
      m: "ptr_copy (v_mem (s_vec w)) n (n + length (str_bytes ds)) (length (str_bytes b)) = Inr m"
        "ptr_copy_from m n (map Some (str_bytes ds)) = Inr m'" "length m' = v_cap (s_vec w)"
        "segment m' 0 (str_bytes (a @ ds @ b))" using n by auto
    have "string_rep (string_store w m' (string_len s + length (str_bytes ds))) (a @ ds @ b)"
      using string_repD(1,3) [OF rep] ds by (intro string_store_rep [OF v m(3,4)]) simp_all
    then show thesis using m(1,2) 2(1) len
      by (intro that(2)) (simp_all add: string_insert_str_def assert' Let_def)
  qed
qed

lemma string_insert_cases:
  assumes "string_rep s (a @ b)" "is_char c" "n = length (str_bytes a)"
  obtains "reserve_fails (string_insert s n c)"
  | s' where "string_insert s n c = Inr s'" "string_rep s' (a @ c # b)"
  using string_insert_str_cases [OF assms(1) _ assms(3), of "[c]"] assms(2) by (auto simp: string_insert_eq)


section \<open>Removal\<close>

lemma is_char_boundary_length: "is_char_boundary b (length b)"
  by (simp add: is_char_boundary_def)

lemma string_pop_rep:
  assumes rep: "string_rep s cs"
  shows "cs = [] \<Longrightarrow> string_pop s = Inr (None, s)"
    and "cs = ds @ [c] \<Longrightarrow> \<exists>s'. string_pop s = Inr (Some c, s') \<and> string_rep s' ds"
proof -
  note r = string_repD [OF rep]
  show "string_pop s = Inr (None, s)" if "cs = []"
    using that r by (simp add: string_pop_def)
  show "\<exists>s'. string_pop s = Inr (Some c, s') \<and> string_rep s' ds" if cs: "cs = ds @ [c]"
  proof -
    have c: "is_char c" "chars_ok ds" using r(1) cs by auto
    have pop: "chars_next_back (str_bytes cs) = Inr (Some c, str_bytes ds)"
      using chars_next_back_encode [OF c(1), of "str_bytes ds"] cs by simp
    have len: "string_len s - len_utf8 c = length (str_bytes ds)"
      using r(3) cs length_utf8_bytes [of c] by simp
    note v = vec_repD(5,7) [OF r(2)]
    have "string_rep (string_store s (v_mem (s_vec s)) (length (str_bytes ds))) ds"
      using v(2) cs c(2) by (intro string_store_rep [OF r(2) v(1)]) (simp_all add: segment_append)
    then show ?thesis using r(4) pop len by (simp add: string_pop_def)
  qed
qed

lemma string_remove_rep:
  assumes rep: "string_rep s (a @ c # b)" and n: "n = length (str_bytes a)"
  obtains s' where "string_remove s n = Inr (c, s')" "string_rep s' (a @ b)"
proof -
  note r = string_repD [OF rep]
  have ok: "chars_ok a" "is_char c" "chars_ok b" using r(1) by auto
  note v = vec_repD [OF r(2)]
  have bd: "is_char_boundary (str_bytes (a @ c # b)) n"
    using is_char_boundary_iff [OF r(1)] chars_split_append [of a "c # b"] n by simp
  let ?bs = "str_bytes (a @ c # b)"
  have "str_index ?bs n (length ?bs) = Inr (utf8_bytes c @ str_bytes b)"
    using bd n is_char_boundary_length [of ?bs] by (simp add: str_index_def str_get_def)
  moreover have "chars_next (utf8_bytes c @ str_bytes b) = Inr (Some c, str_bytes b)"
    by (rule chars_next_encode [OF ok(2)])
  moreover let ?next = "n + len_utf8 c" let ?m = "move_slots (v_mem (s_vec s)) ?next n (length (str_bytes b))"
  have seg: "segment (v_mem (s_vec s)) 0 (str_bytes a)" "segment (v_mem (s_vec s)) ?next (str_bytes b)"
    using v(7) n by (auto simp: segment_append length_utf8_bytes)
  have fit: "?next + length (str_bytes b) \<le> length (v_mem (s_vec s))" using segmentD(1) [OF seg(2)] .
  then have c: "ptr_copy (v_mem (s_vec s)) ?next n (length (str_bytes b)) = Inr ?m" "length ?m = v_cap (s_vec s)"
    using v(5) by simp_all
  have "segment ?m 0 (str_bytes (a @ b))"
    using segment_move [OF seg(2), of n "length (str_bytes b)"]
      segment_move_other [OF seg(1), of ?next "length (str_bytes b)" n] fit n by (simp add: segment_append)
  then have "string_rep (string_store s ?m (length (str_bytes (a @ b)))) (a @ b)"
    using ok by (intro string_store_rep [OF r(2) c(2)]) simp_all
  moreover have "string_len s - ?next = length (str_bytes b)"
      "string_len s - (?next - n) = length (str_bytes (a @ b))"
    using r(3) n by (simp_all add: length_utf8_bytes)
  ultimately show thesis using that r(4) c(1) by (simp add: string_remove_def Let_def)
qed

lemma string_truncate_rep:
  assumes rep: "string_rep s (a @ b)" and n: "n = length (str_bytes a)"
  obtains s' where "string_truncate s n = Inr s'" "string_rep s' a"
proof -
  note r = string_repD [OF rep]
  have "n \<le> string_len s" using r(3) n by simp
  moreover have "assert_boundary s n k = k" for k :: "rust_string res"
    using n chars_split_append [of a b] by (simp add: assert_boundary_rep [OF rep])
  moreover obtain v where v: "vec_truncate (s_vec s) n = Inr (drop n (str_bytes (a @ b)), v)"
      "vec_rep v (take n (str_bytes (a @ b)))" by (rule vec_truncate_rep [OF r(2)])
  moreover have "string_rep \<lparr>s_vec = v\<rparr> a" using v(2) n r(1) by (intro string_repI) simp_all
  ultimately show thesis using that by (simp add: string_truncate_def)
qed

lemma string_clear_rep:
  assumes "string_rep s cs"
  obtains s' where "string_clear s = Inr s'" "string_rep s' []"
  using vec_clear_rep [OF string_repD(2) [OF assms]] that
  by (metis (no_types, lifting) and_then_simps(1) case_prod_conv string_clear_def string_repI str_bytes_simps(1) chars_ok_simps(1))

lemma string_split_off_cases:
  assumes rep: "string_rep s (a @ b)" and n: "n = length (str_bytes a)"
  obtains "reserve_fails (string_split_off s n)"
  | s' t where "string_split_off s n = Inr (s', t)" "string_rep s' a" "string_rep t b"
proof -
  note r = string_repD [OF rep]
  have le: "n \<le> length (str_bytes (a @ b))" using n by simp
  have assert': "assert_boundary s n k = k" for k :: "(rust_string \<times> rust_string) res"
    using n chars_split_append [of a b] by (simp add: assert_boundary_rep [OF rep])
  from vec_split_off_cases [OF r(2) le] show thesis
  proof cases
    case 1
    then show thesis by (intro that(1)) (simp add: string_split_off_def assert' reserve_fails_and_then)
  next
    case (2 v w)
    then have "string_rep \<lparr>s_vec = v\<rparr> a" "string_rep \<lparr>s_vec = w\<rparr> b"
      using r(1) n by (auto intro: string_repI)
    then show thesis using 2(1) by (intro that(2)) (simp_all add: string_split_off_def assert')
  qed
qed

section \<open>Ranges\<close>

text \<open>A range of bytes between two boundaries is a range of characters.\<close>

lemma chars_split_range:
  assumes "chars_split s cs = Some (a, b)" "chars_split e cs = Some (a', b')" "s \<le> e"
  obtains m where "a' = a @ m" "b = m @ b'" "length (str_bytes m) = e - s"
proof -
  note s = chars_split_Some [OF assms(1)] and e = chars_split_Some [OF assms(2)]
  consider m where "a' = a @ m" "b = m @ b'" | m where "a = a' @ m" "b' = m @ b"
    using s e by (auto simp: append_eq_append_conv2)
  then show thesis
  proof cases
    case 1
    then have "length (str_bytes m) = e - s" using s e by auto
    then show thesis using that 1 by blast
  next
    case 2
    then have "m = []" using s e assms(3) by (cases m) auto
    then show thesis using 2 that [of "[]"] s e by simp
  qed
qed

lemma string_drain_rep:
  assumes rep: "string_rep s cs" and range: "slice_range sb eb (length (str_bytes cs)) = Inr (n, k)"
    and split: "chars_split n cs = Some (a, b)" "chars_split k cs = Some (a', b')"
  obtains m d s' where "b = m @ b'" "drain_string s sb eb = Inr d" "sd_iter d = str_bytes m"
    "sd_string d = s" "string_drain_drop d = Inr s'" "string_rep s' (a @ b')"
proof -
  note r = string_repD [OF rep] and b = slice_range_Inr [OF range]
  obtain m where m: "a' = a @ m" "b = m @ b'" "length (str_bytes m) = k - n"
    by (rule chars_split_range [OF split b(1)])
  note a = chars_split_Some [OF split(1)] and a' = chars_split_Some [OF split(2)]
  let ?d = "\<lparr>sd_string = s, sd_start = n, sd_end = k, sd_iter = take (k - n) (drop n (str_bytes cs))\<rparr>"
  have iter: "take (k - n) (drop n (str_bytes cs)) = str_bytes m"
    using a m by (metis append_eq_conv_conj str_bytes_simps(3))
  have d: "drain_string s sb eb = Inr ?d"
    using range r(3,4) split by (simp add: drain_string_def assert_boundary_rep [OF rep])
  have range': "slice_range (Included n) (Excluded k) (length (str_bytes cs)) = Inr (n, k)"
    using b by (simp add: slice_range_def)
  obtain dr where dr: "vec_drain (s_vec s) (Included n) (Excluded k) = Inr dr"
      "drain_rep dr (take n (str_bytes cs)) (take (k - n) (drop n (str_bytes cs))) (drop k (str_bytes cs))"
    by (rule vec_drain_rep [OF r(2) range'])
  obtain v where v: "drain_drop dr = Inr (take (k - n) (drop n (str_bytes cs)), v)"
      "vec_rep v (take n (str_bytes cs) @ drop k (str_bytes cs))" by (rule drain_drop_rep [OF dr(2)])
  have "take n (str_bytes cs) = str_bytes a" "drop k (str_bytes cs) = str_bytes b'"
    using a a' by (metis append_eq_conv_conj str_bytes_simps(3))+
  then have "string_rep \<lparr>s_vec = v\<rparr> (a @ b')" using v(2) r(1) a m(2) by (intro string_repI) auto
  moreover have "string_drain_drop ?d = Inr \<lparr>s_vec = v\<rparr>"
    using dr(1) v(1) b r(3) by (simp add: string_drain_drop_def string_len_def Let_def)
  ultimately show thesis using that [OF m(2) d] iter by simp
qed

lemma string_extend_from_within_cases:
  assumes rep: "string_rep s cs" and range: "slice_range sb eb (length (str_bytes cs)) = Inr (n, k)"
    and split: "chars_split n cs = Some (a, m @ b')" "chars_split k cs = Some (a @ m, b')"
  obtains "reserve_fails (string_extend_from_within s sb eb)"
  | s' where "string_extend_from_within s sb eb = Inr s'" "string_rep s' (cs @ m)"
proof -
  note r = string_repD [OF rep] and b = slice_range_Inr [OF range]
  note a = chars_split_Some [OF split(1)] and a' = chars_split_Some [OF split(2)]
  have range': "slice_range (Included n) (Excluded k) (length (str_bytes cs)) = Inr (n, k)"
    using b by (simp add: slice_range_def)
  have "take (k - n) (drop n (str_bytes cs)) = str_bytes m" using a a' by auto
  then have "reserve_fails (extend_from_within (s_vec s) (Included n) (Excluded k)) \<or>
      (\<exists>v. extend_from_within (s_vec s) (Included n) (Excluded k) = Inr v \<and> vec_rep v (str_bytes (cs @ m)))"
    by (rule_tac extend_from_within_cases [OF r(2) range']) auto
  moreover have "chars_ok (cs @ m)" using r(1) a by simp
  moreover have "string_extend_from_within s sb eb =
      with_vec (extend_from_within (s_vec s) (Included n) (Excluded k)) (\<lambda>v. \<lparr>s_vec = v\<rparr>)"
    using range r(3) split by (simp add: string_extend_from_within_def assert_boundary_rep [OF rep])
  ultimately show thesis using that by (metis with_vec_cases)
qed


section \<open>Retaining\<close>

text \<open>What \<open>retain\<close> keeps: the accepted characters, up to the one on which the closure panics.\<close>

fun retain_chars :: "(u32 \<Rightarrow> bool option) \<Rightarrow> u32 list \<Rightarrow> bool \<times> u32 list" where
  "retain_chars f [] = (False, [])"
| "retain_chars f (c # cs) =
     (case f c of None \<Rightarrow> (True, [])
      | Some keep \<Rightarrow> (case retain_chars f cs of (u, ks) \<Rightarrow> (u, if keep then c # ks else ks)))"

lemma retain_chars_ok: "chars_ok cs \<Longrightarrow> chars_ok (snd (retain_chars f cs))"
  by (induction cs) (auto split: option.splits prod.splits)

lemma retain_chars_total: "(\<And>c. f c = Some (p c)) \<Longrightarrow> retain_chars f cs = (False, filter p cs)"
  by (induction cs) auto

definition init_below :: "u8 memory \<Rightarrow> nat \<Rightarrow> bool" where
  "init_below m n \<longleftrightarrow> n \<le> length m \<and> (\<forall>i < n. m ! i \<noteq> None)"

lemma init_below_slice:
  assumes "init_below m n" "i \<le> j" "j \<le> n"
  obtains xs where "slice_at m i j = Inr xs" "length xs = j - i"
proof -
  let ?xs = "map (\<lambda>k. the (m ! (i + k))) [0..<j - i]"
  have "slice_at m i j = Inr ?xs"
    using assms by (auto simp: slice_at_Inr_iff init_below_def)
  then show thesis using that [of ?xs] by simp
qed

lemma encode_utf8_raw:
  assumes "length dst = len_utf8 c"
  shows "encode_utf8_raw c dst = Inr (utf8_bytes c, utf8_bytes c)"
proof -
  have "assume_init (map Some (utf8_bytes c)) = Inr (utf8_bytes c)" by (simp add: assume_init_Inr_iff)
  then show ?thesis using assms length_utf8_bytes [of c]
    by (simp add: encode_utf8_raw_def encode_utf8_raw_unchecked_def ptr_copy_from_def)
qed

lemma string_retain_loop:
  assumes "segment m 0 (str_bytes ks)" "segment m idx (str_bytes cs)" "init_below m len"
    "len = idx + length (str_bytes cs)" "idx = length (str_bytes ks) + del" "chars_ok cs"
  shows "\<exists>idx' del' m'. string_retain_loop f m len idx del =
      Inr (fst (retain_chars f cs), idx', del', m') \<and> length m' = length m \<and>
      idx' - del' = length (str_bytes (ks @ snd (retain_chars f cs))) \<and> idx' \<le> len \<and>
      segment m' 0 (str_bytes (ks @ snd (retain_chars f cs)))"
  using assms
proof (induction cs arbitrary: ks m idx del)
  case Nil
  then have "string_retain_loop f m len idx del = Inr (False, idx, del, m)"
    by (subst string_retain_loop.simps) simp
  then show ?case using Nil by simp
next
  case (Cons c cs)
  note loop = string_retain_loop.simps [of f m len idx del]
  note clen = length_utf8_bytes [of c]
  have c: "is_char c" "chars_ok cs" using Cons.prems(6) by auto
  have lt: "idx < len" using Cons.prems(4) len_utf8_bounds(1) [of c] clen by simp
  have "slice_at m idx len = Inr (utf8_bytes c @ str_bytes cs)"
    using segment_slice [OF Cons.prems(2)] Cons.prems(4) by simp
  then have step: "string_retain_loop f m len idx del =
    (case f c of None \<Rightarrow> Inr (True, idx, del, m)
     | Some keep \<Rightarrow>
        if \<not> keep then string_retain_loop f m len (idx + len_utf8 c) (del + len_utf8 c)
        else and_then (if del > 0
             then and_then (slice_at m (idx - del) (idx - del + len_utf8 c)) (\<lambda>dst.
                    and_then (encode_utf8_raw c dst) (\<lambda>(_, dst). ptr_copy_from m (idx - del) (map Some dst)))
             else Inr m)
            (\<lambda>m. string_retain_loop f m len (idx + len_utf8 c) del))"
    using lt chars_next_encode [OF c(1)] by (simp add: loop Let_def)
  have seg: "segment m (idx + len_utf8 c) (str_bytes cs)"
    using Cons.prems(2) clen by (simp add: segment_append)
  have len: "len = idx + len_utf8 c + length (str_bytes cs)" using Cons.prems(4) clen by simp
  show ?case
  proof (cases "f c")
    case None
    then show ?thesis using Cons.prems(1,5) lt step by auto
  next
    case keep: (Some k)
    show ?thesis
    proof (cases k)
      case False
      have idx: "idx + len_utf8 c = length (str_bytes ks) + (del + len_utf8 c)" using Cons.prems(5) by simp
      from Cons.IH [OF Cons.prems(1) seg Cons.prems(3) len idx c(2)] show ?thesis
        using keep False step by (auto split: prod.splits)
    next
      case True
      have idx: "idx + len_utf8 c = length (str_bytes (ks @ [c])) + del" using Cons.prems(5) clen by simp
      obtain m1 where m1: "(if del > 0
             then and_then (slice_at m (idx - del) (idx - del + len_utf8 c)) (\<lambda>dst.
                    and_then (encode_utf8_raw c dst) (\<lambda>(_, dst). ptr_copy_from m (idx - del) (map Some dst)))
             else Inr m) = Inr m1" "length m1 = length m" "segment m1 0 (str_bytes (ks @ [c]))"
          "segment m1 (idx + len_utf8 c) (str_bytes cs)" "init_below m1 len"
      proof (cases "del > 0")
        case False
        then show thesis using that [of m] Cons.prems(1,2,3,5) seg by (simp add: segment_append)
      next
        case del: True
        have pos: "idx - del = length (str_bytes ks)" using Cons.prems(5) by simp
        then have "idx - del + len_utf8 c \<le> len" using Cons.prems(5) len by simp
        then obtain dst where dst: "slice_at m (idx - del) (idx - del + len_utf8 c) = Inr dst"
            "length dst = len_utf8 c" using init_below_slice [OF Cons.prems(3) le_add1, of "idx - del" "len_utf8 c"] by auto
        have fit: "idx - del + length (utf8_bytes c) \<le> length m"
          using \<open>idx - del + len_utf8 c \<le> len\<close> Cons.prems(3) clen by (simp add: init_below_def)
        note w = segment_copy_from [OF fit]
        let ?m = "take (idx - del) m @ map Some (utf8_bytes c) @ drop (idx - del + length (utf8_bytes c)) m"
        have "segment ?m 0 (str_bytes (ks @ [c]))"
          using w(2) w(3) [of 0 "str_bytes ks"] Cons.prems(1) pos by (simp add: segment_append)
        moreover have "segment ?m (idx + len_utf8 c) (str_bytes cs)"
          using seg fit clen by (auto simp: segment_def nth_append ac_simps)
        moreover have "init_below ?m len"
          using Cons.prems(3) fit by (auto simp: init_below_def nth_append)
        moreover have "length ?m = length m" using fit by simp
        ultimately show thesis using that [of ?m] del dst encode_utf8_raw [OF dst(2)] w(1) by simp
      qed
      from Cons.IH [OF m1(3,4,5) len idx c(2)] show ?thesis
        using keep True step m1(1,2) by (auto split: prod.splits)
    qed
  qed
qed

lemma string_retain_rep:
  assumes rep: "string_rep s cs"
  obtains s' where "string_retain s f = Inr (fst (retain_chars f cs), s')" "string_rep s' (snd (retain_chars f cs))"
proof -
  note r = string_repD [OF rep]
  note v = vec_repD [OF r(2)]
  have init: "init_below (v_mem (s_vec s)) (string_len s)"
    using v(4,5,9) r(3) by (simp add: init_below_def)
  obtain idx del m where m: "string_retain_loop f (v_mem (s_vec s)) (string_len s) 0 0 =
      Inr (fst (retain_chars f cs), idx, del, m)" "length m = length (v_mem (s_vec s))"
      "idx - del = length (str_bytes (snd (retain_chars f cs)))" "idx \<le> string_len s"
      "segment m 0 (str_bytes (snd (retain_chars f cs)))"
    using string_retain_loop [of "v_mem (s_vec s)" "[]" 0 cs "string_len s" 0 f] v(7) init r(1,3) by auto
  have "string_rep (string_store s m (idx - del)) (snd (retain_chars f cs))"
    using m(2) v(5) retain_chars_ok [OF r(1)] m(3) by (intro string_store_rep [OF r(2) _ m(5)]) simp_all
  moreover have "set_len_on_drop s m idx del = Inr (string_store s m (idx - del))"
    using m(4) by (simp add: set_len_on_drop_def Let_def)
  ultimately show thesis using that m(1) by (simp add: string_retain_def)
qed


section \<open>Rounding to a boundary\<close>

lemma no_boundary_inside:
  assumes "chars_ok (a @ c # b)" "length (str_bytes a) < j" "j < length (str_bytes a) + len_utf8 c"
  shows "\<not> is_char_boundary (str_bytes (a @ c # b)) j"
proof -
  have "chars_split j (a @ c # b) = None"
  proof (rule ccontr)
    assume "chars_split j (a @ c # b) \<noteq> None"
    then obtain x y where xy: "chars_split j (a @ c # b) = Some (x, y)" by auto
    have "chars_split (length (str_bytes a)) (a @ c # b) = Some (a, c # b)" by (rule chars_split_append)
    from chars_split_range [OF this xy less_imp_le [OF assms(2)]] obtain m where
      m: "x = a @ m" "c # b = m @ y" "length (str_bytes m) = j - length (str_bytes a)" .
    then have "m \<noteq> []" using assms(2) by auto
    then have "hd m = c" "m = hd m # tl m" using m(2) by (cases m; simp)+
    then have "len_utf8 c \<le> length (str_bytes m)" using length_utf8_bytes [of c] by (metis length_append le_add1 str_bytes_simps(2))
    then show False using m(3) assms(2,3) by simp
  qed
  then show ?thesis using is_char_boundary_iff [OF assms(1)] by simp
qed

lemma floor_char_boundary:
  assumes ok: "chars_ok cs" and i: "i < length (str_bytes cs)"
  obtains a c b where "floor_char_boundary (str_bytes cs) i = Inr (length (str_bytes a))" "cs = a @ c # b"
    "length (str_bytes a) \<le> i" "i < length (str_bytes a) + len_utf8 c"
proof -
  let ?j = "floor_boundary_loop (str_bytes cs) i"
  note l = floor_boundary_loop [OF ok less_imp_le [OF i]]
  from boundary_cases [OF ok, of ?j] obtain a b where ab: "cs = a @ b" "?j = length (str_bytes a)" "chars_ok a" "chars_ok b"
    using l(1) by metis
  have "b \<noteq> []" using ab(1,2) l(2) i by auto
  then obtain c b' where b: "b = c # b'" by (cases b) auto
  have lt: "i < ?j + len_utf8 c"
  proof (rule ccontr)
    assume "\<not> i < ?j + len_utf8 c"
    then have j: "?j + len_utf8 c \<le> i" by simp
    have "chars_split (?j + len_utf8 c) cs = Some (a @ [c], b')"
      using chars_split_append [of "a @ [c]" b'] ab b length_utf8_bytes [of c] by simp
    then have "is_char_boundary (str_bytes cs) (?j + len_utf8 c)" using is_char_boundary_iff [OF ok] by simp
    moreover have "\<not> is_utf8_char_boundary (str_bytes cs ! (?j + len_utf8 c))"
      using l(3) j i len_utf8_bounds(1) [of c] by simp
    ultimately show False using j i len_utf8_bounds(1) [of c] by (simp add: is_char_boundary_def split: if_splits)
  qed
  then have "?j \<ge> i - 3" using len_utf8_bounds(2) [of c] by simp
  then have "floor_char_boundary (str_bytes cs) i = Inr ?j" using i by (simp add: floor_char_boundary_def Let_def)
  then show thesis using that [of a c b'] ab b lt l(2) by simp
qed

lemma floor_char_boundary_end: "length s \<le> i \<Longrightarrow> floor_char_boundary s i = Inr (length s)"
  by (simp add: floor_char_boundary_def)

lemma ceil_boundary_loop:
  assumes "chars_ok (a @ c # b)" "length (str_bytes a) < i" "i \<le> length (str_bytes a) + len_utf8 c"
  shows "ceil_boundary_loop (str_bytes (a @ c # b)) i = length (str_bytes a) + len_utf8 c"
  using assms(2,3)
proof (induction "length (str_bytes a) + len_utf8 c - i" arbitrary: i rule: less_induct)
  case less
  let ?s = "str_bytes (a @ c # b)"
  note loop = ceil_boundary_loop.simps [of ?s i]
  have len: "length (str_bytes a) + len_utf8 c \<le> length ?s" using length_utf8_bytes [of c] by simp
  show ?case
  proof (cases "i = length (str_bytes a) + len_utf8 c")
    case True
    have "chars_split i (a @ c # b) = Some (a @ [c], b)"
      using chars_split_append [of "a @ [c]" b] True length_utf8_bytes [of c] by simp
    then have bd: "is_char_boundary ?s i" using is_char_boundary_iff [OF assms(1)] by simp
    show ?thesis
    proof (cases "i < length ?s")
      case True
      then have "is_utf8_char_boundary (?s ! i)" using bd less.prems(1) by (simp add: is_char_boundary_def split: if_splits)
      then show ?thesis using loop True \<open>i = _\<close> by simp
    next
      case False
      then show ?thesis using loop \<open>i = _\<close> by simp
    qed
  next
    case False
    then have lt: "i < length (str_bytes a) + len_utf8 c" using less.prems(2) by simp
    then have "\<not> is_char_boundary ?s i" using no_boundary_inside [OF assms(1) less.prems(1)] by blast
    then have "\<not> is_utf8_char_boundary (?s ! i)" using lt len less.prems(1) by (simp add: is_char_boundary_def split: if_splits)
    moreover have "ceil_boundary_loop ?s (i + 1) = length (str_bytes a) + len_utf8 c"
      using less.hyps [of "i + 1"] lt less.prems(1) by simp
    ultimately show ?thesis using loop lt len by simp
  qed
qed

lemma ceil_char_boundary:
  assumes ok: "chars_ok (a @ c # b)" and i: "length (str_bytes a) < i" "i \<le> length (str_bytes a) + len_utf8 c"
    "i < length (str_bytes (a @ c # b))"
  shows "ceil_char_boundary (str_bytes (a @ c # b)) i = Inr (length (str_bytes a) + len_utf8 c)"
  using ceil_boundary_loop [OF ok i(1,2)] i len_utf8_bounds(2) [of c]
  by (simp add: ceil_char_boundary_def Let_def del: str_bytes_simps)

section \<open>Failing to slice\<close>

text \<open>The code that prepares the message of a failing slice neither panics itself nor fails an
  assertion: the failure is one of the three that the code distinguishes.\<close>

definition slice_message :: "u8 list \<Rightarrow> usize \<Rightarrow> usize \<Rightarrow> string" where
  "slice_message s start stop =
     (if start > length s \<or> stop > length s
      then ''byte index {oob_index} is out of bounds of `{s_trunc}`{ellipsis}''
      else if stop < start then ''begin <= end ({} <= {}) when slicing `{}`{}''
      else ''byte index {} is not a char boundary; it is inside {:?} (bytes {:?}) of `{}`{}'')"

lemma str_get_prefix:
  assumes "chars_ok cs" "chars_split n cs = Some (a, b)"
  shows "str_get (str_bytes cs) 0 n = Some (str_bytes a)"
    "str_get (str_bytes cs) n (length (str_bytes cs)) = Some (str_bytes b)"
  using assms chars_split_Some [OF assms(2)] is_char_boundary_iff [OF assms(1), of n]
    is_char_boundary_length [of "str_bytes cs"]
  by (auto simp: str_get_def is_char_boundary_def)

lemma slice_error_fail:
  assumes ok: "chars_ok cs" and fail: "str_get (str_bytes cs) start stop = None"
  shows "slice_error_fail (str_bytes cs) start stop = Inl (Panic (slice_message (str_bytes cs) start stop))"
proof -
  let ?s = "str_bytes cs"
  obtain t where t: "floor_char_boundary ?s 256 = Inr t" "str_get ?s 0 t \<noteq> None"
  proof (cases "256 < length ?s")
    case True
    from floor_char_boundary [OF ok True] obtain a c b where
      f: "floor_char_boundary ?s 256 = Inr (length (str_bytes a))" "cs = a @ c # b" by metis
    show thesis using that [OF f(1)] str_get_prefix(1) [OF ok, of "length (str_bytes a)" a "c # b"] f(2)
        chars_split_append [of a "c # b"] by auto
  next
    case False
    then have "floor_char_boundary ?s 256 = Inr (length ?s)" by (simp add: floor_char_boundary_end)
    then show thesis using that [of "length ?s"] str_get_prefix(1) [OF ok, of "length ?s" cs "[]"]
        chars_split_append [of cs "[]"] by auto
  qed
  then obtain p where p: "str_get ?s 0 t = Some p" by auto
  show ?thesis
  proof (cases "start > length ?s \<or> stop > length ?s \<or> stop < start")
    case True
    then show ?thesis using t(1) p by (auto simp: slice_error_fail_def slice_message_def)
  next
    case False
    define i where "i = (if \<not> is_char_boundary ?s start then start else stop)"
    have i: "\<not> is_char_boundary ?s i" "i \<le> length ?s"
      using fail False by (auto simp: str_get_def i_def split: if_splits)
    then have "i < length ?s" using is_char_boundary_length [of ?s] by (cases "i = length ?s") auto
    from floor_char_boundary [OF ok this] obtain a c b where
      f: "floor_char_boundary ?s i = Inr (length (str_bytes a))" "cs = a @ c # b" by metis
    have "str_get ?s (length (str_bytes a)) (length ?s) = Some (str_bytes (c # b))"
      using str_get_prefix(2) [OF ok, of "length (str_bytes a)" a "c # b"] f(2) chars_split_append [of a "c # b"] by simp
    moreover have "chars_next (str_bytes (c # b)) = Inr (Some c, str_bytes b)"
      using chars_next_encode [of c] ok f(2) by simp
    ultimately show ?thesis using t(1) p False f(1)
      by (simp add: slice_error_fail_def slice_message_def i_def [symmetric] del: str_bytes_simps)
  qed
qed


section \<open>From bytes\<close>

lemma string_from_utf8_rep:
  assumes "align_offset_ok addr align" "vec_rep v bs"
  obtains r where "validation_result bs r"
    "string_from_utf8 addr align v = Inr (case r of Inr _ \<Rightarrow> Inr \<lparr>s_vec = v\<rparr> | Inl e \<Rightarrow> Inl (v, e))"
proof -
  have "length bs \<le> usize_max"
    using vec_repD(4,8) [OF assms(2)] by (simp add: isize_max_num usize_max_num)
  then obtain r where "run_utf8_validation addr align bs = Inr r" "validation_result bs r"
    by (rule run_utf8_validation [OF assms(1)])
  then show thesis using that as_slice_rep [OF assms(2)]
    by (cases r) (simp_all add: string_from_utf8_def)
qed

lemma validation_Ok: "validation_result bs (Inr u) \<longleftrightarrow> (\<exists>cs. chars_ok cs \<and> bs = str_bytes cs)"
  by (simp add: validation_result_def valid_utf8_def)

lemma replacement_bytes: "utf8_bytes REPLACEMENT = str_bytes [REPLACEMENT]"
  by simp

lemma push_chunks_cases:
  assumes "string_rep s cs"
  shows "reserve_fails (push_chunks s source) \<or>
    (\<exists>s'. push_chunks s source = Inr s' \<and> string_rep s' (cs @ lossy source))"
  using assms
proof (induction s source arbitrary: cs rule: push_chunks.induct)
  case (1 s source)
  note loop = push_chunks.simps [of s source]
  show ?case
  proof (cases "source = []")
    case True
    then have "push_chunks s source = Inr s"
      by (subst push_chunks.simps) (simp add: utf8_chunks_next_def)
    then show ?thesis using 1(2) True by simp
  next
    case False
    from utf8_chunks_next_correct [OF False] obtain r i u where
      c: "validation_result source r" "chunk_end source r = (i, u)" "u \<le> i" "0 < i" "i \<le> length source"
        "utf8_chunks_next source =
          Inr (Some \<lparr>chunk_valid = take u source, chunk_invalid = drop u (take i source)\<rparr>, drop i source)" .
    from lossy_split [OF c(1,2)] obtain ds where
      ds: "chars_ok ds" "take u source = str_bytes ds"
        "lossy source = ds @ (if u < i then [REPLACEMENT] else []) @ lossy (drop i source)" .
    have lt: "length (drop i source) < length source" using c(4,5) by simp
    have inv: "drop u (take i source) \<noteq> [] \<longleftrightarrow> u < i" using c(3,5) by auto
    have step: "push_chunks s source =
      and_then (string_push_str s (str_bytes ds)) (\<lambda>s.
        and_then (if u < i then string_push_str s (utf8_bytes REPLACEMENT) else Inr s)
          (\<lambda>s. push_chunks s (drop i source)))"
      unfolding loop c(6) using lt inv ds(2) by simp
    from string_push_str_cases [OF 1(2) ds(1)] show ?thesis
    proof cases
      case 1
      then show ?thesis using step by (simp add: reserve_fails_and_then)
    next
      case (2 s1)
      note push = 2
      show ?thesis
      proof (cases "u < i")
        case False
        have "reserve_fails (push_chunks s1 (drop i source)) \<or>
            (\<exists>s'. push_chunks s1 (drop i source) = Inr s' \<and> string_rep s' ((cs @ ds) @ lossy (drop i source)))"
          using "1.IH" [OF c(6) refl refl lt, where cs = "cs @ ds"] push inv False ds(2) by simp
        then show ?thesis using step push(1) False ds(3) by simp
      next
        case True
        have "chars_ok [REPLACEMENT]" by simp
        from string_push_str_cases [OF push(2) this] show ?thesis
        proof cases
          case 1
          then show ?thesis using step push(1) True by (simp add: reserve_fails_and_then)
        next
          case (2 s2)
          have "reserve_fails (push_chunks s2 (drop i source)) \<or>
              (\<exists>s'. push_chunks s2 (drop i source) = Inr s' \<and>
                string_rep s' (((cs @ ds) @ [REPLACEMENT]) @ lossy (drop i source)))"
            using "1.IH" [OF c(6) refl refl lt, where cs = "(cs @ ds) @ [REPLACEMENT]"] push inv True ds(2) 2 by simp
          then show ?thesis using step push(1) True ds(3) 2 by simp
        qed
      qed
    qed
  qed
qed

lemma from_utf8_lossy_cases:
  obtains "reserve_fails (from_utf8_lossy alloc v)"
  | "from_utf8_lossy alloc v = Inr (Borrowed v)" "str_bytes (lossy v) = v"
  | s where "from_utf8_lossy alloc v = Inr (Owned s)" "string_rep s (lossy v)" "\<not> valid_utf8 v"
proof (cases "v = []")
  case True
  then show thesis by (intro that(2)) (simp_all add: from_utf8_lossy_def utf8_chunks_next_def)
next
  case False
  from utf8_chunks_next_correct [OF False] obtain r i u where
    c: "validation_result v r" "chunk_end v r = (i, u)" "u \<le> i" "0 < i" "i \<le> length v"
      "utf8_chunks_next v = Inr (Some \<lparr>chunk_valid = take u v, chunk_invalid = drop u (take i v)\<rparr>, drop i v)" .
  from lossy_split [OF c(1,2)] obtain ds where
    ds: "chars_ok ds" "take u v = str_bytes ds"
      "lossy v = ds @ (if u < i then [REPLACEMENT] else []) @ lossy (drop i v)" .
  have inv: "drop u (take i v) = [] \<longleftrightarrow> \<not> u < i" using c(3,5) by auto
  show thesis
  proof (cases r)
    case (Inr x)
    then have ui: "u = length v" "i = length v" using c(2) by (auto simp: chunk_end_def)
    then show thesis using c(6) ds by (intro that(2)) (simp_all add: from_utf8_lossy_def)
  next
    case (Inl e)
    note err = validation_error [OF c(1) [unfolded Inl]]
    have u: "u < i"
    proof (cases "error_len e")
      case (Some k)
      then have "1 \<le> k" using err(6) by blast
      then show ?thesis using c(2) Inl Some by (auto simp: chunk_end_def)
    qed (use c(2) Inl err(1) in \<open>auto simp: chunk_end_def\<close>)
    have lossy_eq: "from_utf8_lossy alloc v =
      and_then (string_with_capacity alloc (length v)) (\<lambda>s.
        and_then (string_push_str s (str_bytes ds)) (\<lambda>s.
          and_then (string_push_str s (str_bytes [REPLACEMENT])) (\<lambda>s.
            and_then (push_chunks s (drop i v)) (\<lambda>s. Inr (Owned s)))))"
      using c(6) u inv ds(2) by (simp add: from_utf8_lossy_def)
    show thesis
    proof (rule string_with_capacity_cases [of alloc "length v"])
      assume "reserve_fails (string_with_capacity alloc (length v))"
      then show thesis using that(1) lossy_eq by (simp add: reserve_fails_and_then)
    next
      fix s0 assume s0: "string_with_capacity alloc (length v) = Inr s0" "string_rep s0 []"
      from string_push_str_cases [OF s0(2) ds(1)] show thesis
      proof cases
        case 1
        then show thesis using that(1) lossy_eq s0(1) by (simp add: reserve_fails_and_then)
      next
        case (2 s1)
        note s1 = 2
        have "chars_ok [REPLACEMENT]" by simp
        from string_push_str_cases [OF s1(2) this] show thesis
        proof cases
          case 1
          then show thesis using that(1) lossy_eq s0(1) s1(1) by (simp add: reserve_fails_and_then)
        next
          case (2 s2)
          from push_chunks_cases [OF 2(2), of "drop i v"] show thesis
          proof
            assume "reserve_fails (push_chunks s2 (drop i v))"
            then show thesis using that(1) lossy_eq s0(1) s1(1) 2(1) by (simp add: reserve_fails_and_then)
          next
            assume "\<exists>s'. push_chunks s2 (drop i v) = Inr s' \<and> string_rep s' ((([] @ ds) @ [REPLACEMENT]) @ lossy (drop i v))"
            then show thesis using that(3) lossy_eq s0(1) s1(1) 2(1) ds(3) u err(3) by auto
          qed
        qed
      qed
    qed
  qed
qed


end
