(* ===== verification/Rust_String_Spec.thy ===== *)
theory Rust_String_Spec
  imports Rust_String_Correct Rust_Vec_Spec
begin

text \<open>
  The contract of \<open>String\<close>: its operations on lists of characters, the interpretation of the
  locale \<open>container\<close>, and the properties of UTF-8 and of \<open>String\<close>.
\<close>

section \<open>The contract\<close>

text \<open>The type \<open>char\<close> for the arguments of operations.\<close>

typedef scalar = "{c :: u32. is_char c}"
  morphisms code_point Scalar
  by (rule exI [of _ REPLACEMENT]) simp

lemma code_point_char [simp]: "is_char (code_point c)"
  using code_point [of c] by simp

lemma code_points_ok [simp]: "chars_ok (map code_point cs)"
  by (auto simp: chars_ok_def)

datatype string_op =
  SPush scalar | SPop | SPushStr "scalar list" | SInsert usize scalar | SInsertStr usize "scalar list"
| SRemove usize | STruncate usize | SClear | SRetain "u32 \<Rightarrow> bool" | SDrain bound bound
| SExtendFromWithin bound bound | SReserve usize | SShrinkToFit | SShrinkTo usize

datatype string_out = SDone | SChar "u32 option"

definition s_unit :: "rust_string res \<Rightarrow> (string_out \<times> rust_string) res" where
  "s_unit m = and_then m (\<lambda>s. Inr (SDone, s))"

fun string_step :: "string_op \<Rightarrow> rust_string \<Rightarrow> (string_out \<times> rust_string) res" where
  "string_step (SPush c) s = s_unit (string_push s (code_point c))"
| "string_step SPop s = and_then (string_pop s) (\<lambda>(c, s). Inr (SChar c, s))"
| "string_step (SPushStr cs) s = s_unit (string_push_str s (str_bytes (map code_point cs)))"
| "string_step (SInsert n c) s = s_unit (string_insert s n (code_point c))"
| "string_step (SInsertStr n cs) s = s_unit (string_insert_str s n (str_bytes (map code_point cs)))"
| "string_step (SRemove n) s = and_then (string_remove s n) (\<lambda>(c, s). Inr (SChar (Some c), s))"
| "string_step (STruncate n) s = s_unit (string_truncate s n)"
| "string_step SClear s = s_unit (string_clear s)"
| "string_step (SRetain p) s = s_unit (and_then (string_retain s (\<lambda>c. Some (p c))) (\<lambda>(_, s). Inr s))"
| "string_step (SDrain sb eb) s = s_unit (and_then (drain_string s sb eb) string_drain_drop)"
| "string_step (SExtendFromWithin sb eb) s = s_unit (string_extend_from_within s sb eb)"
| "string_step (SReserve n) s = s_unit (string_reserve s n)"
| "string_step SShrinkToFit s = s_unit (string_shrink_to_fit s)"
| "string_step (SShrinkTo n) s = s_unit (string_shrink_to s n)"

definition boundary_assert :: string where
  "boundary_assert = ''assertion failed: self.is_char_boundary(idx)''"

text \<open>A range of byte offsets as a range of characters, or the panic it causes.\<close>

definition char_range :: "bound \<Rightarrow> bound \<Rightarrow> u32 list \<Rightarrow> string + u32 list \<times> u32 list \<times> u32 list" where
  "char_range sb eb cs =
     (case slice_range sb eb (length (str_bytes cs)) of
        Inl _ \<Rightarrow> Inl ''slice index out of range''
      | Inr (n, k) \<Rightarrow>
          (case (chars_split n cs, chars_split k cs) of
             (Some (a, b), Some (a', b')) \<Rightarrow> Inr (a, drop (length a) a', b')
           | _ \<Rightarrow> Inl boundary_assert))"

fun string_spec :: "string_op \<Rightarrow> u32 list \<Rightarrow> string + string_out \<times> u32 list" where
  "string_spec (SPush c) cs = Inr (SDone, cs @ [code_point c])"
| "string_spec SPop cs = Inr (if cs = [] then (SChar None, []) else (SChar (Some (last cs)), butlast cs))"
| "string_spec (SPushStr ds) cs = Inr (SDone, cs @ map code_point ds)"
| "string_spec (SInsert n c) cs =
     (case chars_split n cs of None \<Rightarrow> Inl boundary_assert | Some (a, b) \<Rightarrow> Inr (SDone, a @ code_point c # b))"
| "string_spec (SInsertStr n ds) cs =
     (case chars_split n cs of None \<Rightarrow> Inl boundary_assert
      | Some (a, b) \<Rightarrow> Inr (SDone, a @ map code_point ds @ b))"
| "string_spec (SRemove n) cs =
     (case chars_split n cs of
        None \<Rightarrow> Inl (slice_message (str_bytes cs) n (length (str_bytes cs)))
      | Some (a, []) \<Rightarrow> Inl ''cannot remove a char from the end of a string''
      | Some (a, c # b) \<Rightarrow> Inr (SChar (Some c), a @ b))"
| "string_spec (STruncate n) cs =
     (if n \<le> length (str_bytes cs)
      then case chars_split n cs of None \<Rightarrow> Inl boundary_assert | Some (a, b) \<Rightarrow> Inr (SDone, a)
      else Inr (SDone, cs))"
| "string_spec SClear cs = Inr (SDone, [])"
| "string_spec (SRetain p) cs = Inr (SDone, filter p cs)"
| "string_spec (SDrain sb eb) cs =
     (case char_range sb eb cs of Inl msg \<Rightarrow> Inl msg | Inr (a, m, b) \<Rightarrow> Inr (SDone, a @ b))"
| "string_spec (SExtendFromWithin sb eb) cs =
     (case char_range sb eb cs of Inl msg \<Rightarrow> Inl msg | Inr (a, m, b) \<Rightarrow> Inr (SDone, cs @ m))"
| "string_spec (SReserve n) cs = Inr (SDone, cs)"
| "string_spec SShrinkToFit cs = Inr (SDone, cs)"
| "string_spec (SShrinkTo n) cs = Inr (SDone, cs)"

fun string_grows :: "string_op \<Rightarrow> bool" where
  "string_grows (SPush c) = True"
| "string_grows (SPushStr cs) = True"
| "string_grows (SInsert n c) = True"
| "string_grows (SInsertStr n cs) = True"
| "string_grows (SExtendFromWithin sb eb) = True"
| "string_grows (SReserve n) = True"
| "string_grows SShrinkToFit = True"
| "string_grows (SShrinkTo n) = True"
| "string_grows _ = False"

lemma s_refines:
  "reserve_fails m \<Longrightarrow> refines True R (s_unit m) sp"
  "m = Inr s \<Longrightarrow> R s a \<Longrightarrow> refines g R (s_unit m) (Inr (SDone, a))"
  "m = Inl (Panic msg) \<Longrightarrow> refines g R (s_unit m) (Inl msg)"
  by (auto simp: s_unit_def reserve_fails_and_then)


lemma with_vec_refines:
  assumes "refines True vec_rep (v_unit m) (Inr (VDone, str_bytes cs))" "chars_ok cs"
  shows "refines True string_rep (s_unit (with_vec m (\<lambda>v. \<lparr>s_vec = v\<rparr>))) (Inr (SDone, cs))"
proof -
  from assms(1) consider "reserve_fails m" | v where "m = Inr v" "vec_rep v (str_bytes cs)"
    by (cases m) (auto simp: refines_def v_unit_def reserve_fails_def)
  then show ?thesis
    by cases (simp_all add: with_vec_def reserve_fails_and_then string_repI s_refines assms(2))
qed

lemma char_range_cases:
  assumes rep: "string_rep s cs"
  obtains "slice_range sb eb (length (str_bytes cs)) = Inl (Panic ''slice index out of range'')"
      "char_range sb eb cs = Inl ''slice index out of range''"
  | n k where "slice_range sb eb (length (str_bytes cs)) = Inr (n, k)"
      "chars_split n cs = None \<or> chars_split k cs = None" "char_range sb eb cs = Inl boundary_assert"
  | n k a m b where "slice_range sb eb (length (str_bytes cs)) = Inr (n, k)"
      "chars_split n cs = Some (a, m @ b)" "chars_split k cs = Some (a @ m, b)"
      "char_range sb eb cs = Inr (a, m, b)"
proof (cases rule: slice_range_cases [of sb eb "length (str_bytes cs)"])
  case 1
  then show thesis using that(1) by (simp add: char_range_def)
next
  case (2 n k)
  note b = slice_range_Inr [OF 2]
  show thesis
  proof (cases "chars_split n cs = None \<or> chars_split k cs = None")
    case True
    then show thesis using that(2) 2 by (auto simp: char_range_def split: option.splits)
  next
    case False
    then obtain a d a' b' where s: "chars_split n cs = Some (a, d)" "chars_split k cs = Some (a', b')" by auto
    obtain m where "a' = a @ m" "d = m @ b'" using chars_split_range [OF s b(1)] by metis
    then show thesis using that(3) [OF 2] s 2 by (simp add: char_range_def)
  qed
qed

lemma string_step_refines:
  assumes rep: "string_rep s cs"
  shows "refines (string_grows op) string_rep (string_step op s) (string_spec op cs)"
proof (cases op)
  case (SPush c)
  from string_push_cases [OF rep code_point_char [of c]] show ?thesis
    by cases (simp_all add: SPush s_refines)
next
  case SPop
  show ?thesis
  proof (cases cs rule: rev_cases)
    case Nil
    then show ?thesis using string_pop_rep(1) [OF rep] rep by (simp add: SPop refines_ok)
  next
    case (snoc ds c)
    then show ?thesis using string_pop_rep(2) [OF rep snoc] by (auto simp: SPop refines_ok)
  qed
next
  case (SPushStr ds)
  from string_push_str_cases [OF rep code_points_ok [of ds]] show ?thesis
    by cases (simp_all add: SPushStr s_refines)
next
  case (SInsert n c)
  show ?thesis
  proof (cases "chars_split n cs")
    case None
    then show ?thesis by (auto simp: SInsert string_insert_def assert_boundary_rep [OF rep]
          boundary_assert_def intro!: s_refines)
  next
    case (Some ab)
    then obtain a b where ab: "chars_split n cs = Some (a, b)" by (cases ab) auto
    note eq = chars_split_Some [OF ab]
    from string_insert_cases [OF rep [unfolded conjunct1 [OF eq]] code_point_char [of c] conjunct2 [OF eq, symmetric]]
    show ?thesis by cases (simp_all add: SInsert ab s_refines)
  qed
next
  case (SInsertStr n ds)
  show ?thesis
  proof (cases "chars_split n cs")
    case None
    then show ?thesis by (auto simp: SInsertStr string_insert_str_def assert_boundary_rep [OF rep]
          boundary_assert_def intro!: s_refines)
  next
    case (Some ab)
    then obtain a b where ab: "chars_split n cs = Some (a, b)" by (cases ab) auto
    note eq = chars_split_Some [OF ab]
    from string_insert_str_cases [OF rep [unfolded conjunct1 [OF eq]] code_points_ok [of ds] conjunct2 [OF eq, symmetric]]
    show ?thesis by cases (simp_all add: SInsertStr ab s_refines)
  qed
next
  case (SRemove n)
  note r = string_repD [OF rep]
  show ?thesis
  proof (cases "chars_split n cs")
    case None
    then have "str_get (str_bytes cs) n (length (str_bytes cs)) = None"
      using is_char_boundary_iff [OF r(1)] by (simp add: str_get_def)
    then have "str_index (str_bytes cs) n (length (str_bytes cs)) =
        Inl (Panic (slice_message (str_bytes cs) n (length (str_bytes cs))))"
      using slice_error_fail [OF r(1)] by (simp add: str_index_def)
    then show ?thesis using None r(4) by (auto simp: SRemove string_remove_def intro!: refines_panic)
  next
    case (Some ab)
    then obtain a b where ab: "chars_split n cs = Some (a, b)" by (cases ab) auto
    note eq = chars_split_Some [OF ab]
    show ?thesis
    proof (cases b)
      case Nil
      then have "str_index (str_bytes cs) n (length (str_bytes cs)) = Inr []"
        using eq str_get_prefix(2) [OF r(1) ab] by (simp add: str_index_def)
      then have "string_remove s n = Inl (Panic ''cannot remove a char from the end of a string'')"
        using r(4) by (simp add: string_remove_def)
      then show ?thesis using ab Nil by (auto simp: SRemove intro!: refines_panic)
    next
      case (Cons c b')
      have "cs = a @ c # b'" "n = length (str_bytes a)" using eq Cons by auto
      from string_remove_rep [OF rep [unfolded this(1)] this(2)] obtain s' where
        "string_remove s n = Inr (c, s')" "string_rep s' (a @ b')" .
      then show ?thesis using ab Cons by (auto simp: SRemove intro!: refines_ok)
    qed
  qed
next
  case (STruncate n)
  note r = string_repD [OF rep]
  show ?thesis
  proof (cases "n \<le> length (str_bytes cs)")
    case False
    then show ?thesis using rep r(3) by (auto simp: STruncate string_truncate_def intro!: s_refines)
  next
    case True
    show ?thesis
    proof (cases "chars_split n cs")
      case None
      then show ?thesis using True r(3) by (auto simp: STruncate string_truncate_def assert_boundary_rep [OF rep]
            boundary_assert_def intro!: s_refines)
    next
      case (Some ab)
      then obtain a b where ab: "chars_split n cs = Some (a, b)" by (cases ab) auto
      note eq = chars_split_Some [OF ab]
      from string_truncate_rep [OF rep [unfolded conjunct1 [OF eq]] conjunct2 [OF eq, symmetric]] obtain s' where
        "string_truncate s n = Inr s'" "string_rep s' a" .
      then show ?thesis using True ab by (simp add: STruncate s_refines)
    qed
  qed
next
  case SClear
  from string_clear_rep [OF rep] obtain s' where "string_clear s = Inr s'" "string_rep s' []" .
  then show ?thesis by (simp add: SClear s_refines)
next
  case (SRetain p)
  from string_retain_rep [OF rep, of "\<lambda>c. Some (p c)"] obtain s' where
    "string_retain s (\<lambda>c. Some (p c)) = Inr (fst (retain_chars (\<lambda>c. Some (p c)) cs), s')"
    "string_rep s' (snd (retain_chars (\<lambda>c. Some (p c)) cs))" .
  then show ?thesis by (simp add: SRetain s_refines retain_chars_total)
next
  case (SDrain sb eb)
  show ?thesis
  proof (cases rule: char_range_cases [OF rep, of sb eb])
    case 1
    then show ?thesis using string_repD(3) [OF rep]
      by (simp add: SDrain drain_string_def s_refines)
  next
    case (2 n k)
    then show ?thesis using string_repD(3) [OF rep]
      by (auto simp: SDrain drain_string_def assert_boundary_rep [OF rep] boundary_assert_def intro!: s_refines)
  next
    case (3 n k a m b)
    from string_drain_rep [OF rep 3(1,2,3)] obtain d s' where
      "drain_string s sb eb = Inr d" "string_drain_drop d = Inr s'" "string_rep s' (a @ b)" by metis
    then show ?thesis using 3(4) by (simp add: SDrain s_refines)
  qed
next
  case (SExtendFromWithin sb eb)
  show ?thesis
  proof (cases rule: char_range_cases [OF rep, of sb eb])
    case 1
    then show ?thesis using string_repD(3) [OF rep]
      by (simp add: SExtendFromWithin string_extend_from_within_def s_refines)
  next
    case (2 n k)
    then show ?thesis using string_repD(3) [OF rep]
      by (auto simp: SExtendFromWithin string_extend_from_within_def assert_boundary_rep [OF rep]
          boundary_assert_def intro!: s_refines)
  next
    case (3 n k a m b)
    from string_extend_from_within_cases [OF rep 3(1,2,3)] show ?thesis
      by cases (simp_all add: SExtendFromWithin 3(4) s_refines)
  qed
next
  case (SReserve n)
  from string_reserve_cases [OF rep, of n] show ?thesis
    by cases (simp_all add: SReserve s_refines)
next
  case SShrinkToFit
  show ?thesis
    using with_vec_refines [OF vec_shrink_to_fit_refines [OF string_repD(2) [OF rep]] string_repD(1) [OF rep]]
    by (simp add: SShrinkToFit string_shrink_to_fit_def)
next
  case (SShrinkTo n)
  show ?thesis
    using with_vec_refines [OF vec_shrink_to_refines [OF string_repD(2) [OF rep], of n] string_repD(1) [OF rep]]
    by (simp add: SShrinkTo string_shrink_to_def)
qed

interpretation string: container string_rep string_step string_spec string_grows
  by unfold_locales (rule string_step_refines)

section \<open>Properties\<close>

text \<open>Sample bytes: one, two and three byte characters, and an invalid tail.\<close>

definition sample_chars :: "u32 list" where
  "sample_chars = [0x61, 0xE9, 0x20AC]"

definition sample_bytes :: "u8 list" where
  "sample_bytes = [0x61, 0xC3, 0xA9, 0xE2, 0x82, 0xAC]"

definition u8_buffer :: "u8 memory \<Rightarrow> u8 raw_vec" where
  "u8_buffer m = \<lparr>rv_mem = m, rv_cap = length m, rv_alloc = (\<lambda>_. True), rv_elem = u8_layout\<rparr>"

definition byte_vec :: "u8 list \<Rightarrow> u8 vec" where
  "byte_vec bs = \<lparr>v_buf = u8_buffer (map Some bs), v_len = length bs\<rparr>"

lemma sample_bytes_eq: "str_bytes sample_chars = sample_bytes"
  by (simp add: sample_chars_def sample_bytes_def utf8_bytes_def len_utf8_def Let_def MAX_ONE_B_def MAX_TWO_B_def
      MAX_THREE_B_def TAG_CONT_def TAG_TWO_B_def TAG_THREE_B_def)

lemma sample_chars_ok: "chars_ok sample_chars"
  by (simp add: sample_chars_def is_char_nat)

lemma byte_vec_rep: "length bs \<le> 1000 \<Longrightarrow> vec_rep (byte_vec bs) bs"
  using u8_layout_ok
  by (auto simp: byte_vec_def vec_rep_def vec_wf_def u8_buffer_def rv_inv_def segment_def)
    (simp add: u8_layout_def max_size_for_align_def isize_max_num)

lemma sample_string_rep: "string_rep \<lparr>s_vec = byte_vec sample_bytes\<rparr> sample_chars"
  using byte_vec_rep [of sample_bytes] sample_chars_ok
  by (intro string_repI) (simp_all add: sample_bytes_eq, simp add: sample_bytes_def)

text \<open>
  C23: a \<open>String\<close> is a list of \<open>char\<close>s. Any sequence of operations on a new string gives the outputs,
  the panics (among them those for an offset inside a character) and the final characters that the
  list semantics \<open>string_spec\<close> gives, and its bytes are the UTF-8 encoding of the characters; or it
  fails as a refused allocation fails, and only when an operation may allocate. No operation has
  undefined behaviour.
\<close>

theorem string_refines_chars:
  "refines (\<exists>op \<in> set ops. string_grows op) string_rep
    (run_steps string_step ops (string_new alloc)) (run_steps string_spec ops [])"
  by (rule string.run_refines [OF string_new_rep])

theorem string_refines_chars_witness:
  "refines True string_rep
     (run_steps string_step [SPushStr [Scalar 0x61, Scalar 0xE9], SPop, SInsert 1 (Scalar 0x20AC), SRemove 2]
       (string_new (\<lambda>_. True)))
     (Inl ''byte index {} is not a char boundary; it is inside {:?} (bytes {:?}) of `{}`{}'')"
proof -
  have "code_point (Scalar 0x61) = 0x61" "code_point (Scalar 0xE9) = 0xE9" "code_point (Scalar 0x20AC) = 0x20AC"
    by (simp_all add: Scalar_inverse is_char_nat)
  moreover have "length (utf8_bytes 0x61) = 1" "length (utf8_bytes 0x20AC) = 3" "len_utf8 0x61 = 1" "len_utf8 0x20AC = 3"
    by (simp_all add: length_utf8_bytes len_utf8_def MAX_ONE_B_def MAX_TWO_B_def MAX_THREE_B_def)
  ultimately show ?thesis
    using string_refines_chars [of "[SPushStr [Scalar 0x61, Scalar 0xE9], SPop, SInsert 1 (Scalar 0x20AC), SRemove 2]"
        "\<lambda>_. True"] by (simp add: slice_message_def numeral_2_eq_2)
qed

text \<open>
  C24: \<open>String::from_utf8\<close> is exact. It succeeds on the encodings of lists of characters and only on
  them. Otherwise it gives the bytes back with an error whose \<open>valid_up_to\<close> is the length of the
  longest valid prefix; \<open>error_len\<close> is \<open>None\<close> when at most three bytes remain and more input could
  make the whole valid, and else a number of bytes from 1 to 3 that no continuation can make valid,
  all but the last of which, if several, begin a character. Neither the word-at-a-time ASCII path
  nor the alignment of the buffer matters, and no read is misaligned or out of bounds.
\<close>

theorem from_utf8_exact:
  assumes "align_offset_ok addr align" "vec_rep v bs"
  shows "\<exists>r. string_from_utf8 addr align v = Inr r \<and> (case r of
     Inr s \<Rightarrow> \<exists>cs. bs = str_bytes cs \<and> string_rep s cs
   | Inl (w, e) \<Rightarrow> w = v \<and> valid_up_to e < length bs \<and> \<not> valid_utf8 bs \<and>
       valid_utf8 (take (valid_up_to e) bs) \<and>
       (\<forall>j. valid_up_to e < j \<longrightarrow> j \<le> length bs \<longrightarrow> \<not> valid_utf8 (take j bs)) \<and>
       (case error_len e of
          None \<Rightarrow> length bs - valid_up_to e \<le> 3 \<and> (\<exists>t. valid_utf8 (bs @ t))
        | Some k \<Rightarrow> 1 \<le> k \<and> k \<le> 3 \<and> valid_up_to e + k \<le> length bs \<and> (\<forall>t. \<not> valid_utf8 (bs @ t)) \<and>
            (2 \<le> k \<longrightarrow> (\<exists>c t. is_char c \<and> utf8_bytes c = take k (drop (valid_up_to e) bs) @ t))))"
proof -
  obtain r where r: "validation_result bs r"
    "string_from_utf8 addr align v = Inr (case r of Inr _ \<Rightarrow> Inr \<lparr>s_vec = v\<rparr> | Inl e \<Rightarrow> Inl (v, e))"
    by (rule string_from_utf8_rep [OF assms])
  show ?thesis
  proof (cases r)
    case (Inr u)
    then obtain cs where "chars_ok cs" "bs = str_bytes cs" using r(1) validation_Ok by blast
    then show ?thesis using r(2) Inr assms(2) string_repI [of cs v] by auto
  next
    case (Inl e)
    note err = validation_error [OF r(1) [unfolded Inl]]
    show ?thesis
    proof (cases "error_len e")
      case None
      then show ?thesis using r(2) Inl err(1-5) by simp
    next
      case (Some k)
      then have "scan_char (drop (valid_up_to e) bs) = Inl (Some k)"
        using r(1) Inl by (simp add: validation_result_def)
      note scan_char_Some(5) [OF this]
      moreover have "1 \<le> k \<and> k \<le> 3 \<and> valid_up_to e + k \<le> length bs \<and> \<not> valid_utf8 (bs @ t)" for t
        by (rule err(6) [OF Some])
      ultimately show ?thesis using r(2) Inl err(1-4) Some by simp
    qed
  qed
qed

theorem from_utf8_exact_witness:
  "\<exists>s cs. string_from_utf8 2 6 (byte_vec sample_bytes) = Inr (Inr s) \<and> sample_bytes = str_bytes cs \<and> string_rep s cs"
proof -
  have "align_offset_ok 2 6" by (simp add: align_offset_ok_def)
  moreover have "vec_rep (byte_vec sample_bytes) sample_bytes"
    by (rule byte_vec_rep) (simp add: sample_bytes_def)
  moreover have "valid_utf8 sample_bytes"
    using valid_utf8_str_bytes [OF sample_chars_ok] by (simp add: sample_bytes_eq)
  ultimately show ?thesis
    apply -
    apply (drule (1) from_utf8_exact)
    apply (elim exE)
    subgoal for r by (cases r) auto
    done
qed

text \<open>
  C25: encoding and decoding are inverse. For every \<open>char\<close>, \<open>encode_utf8_raw\<close> writes its \<open>len_utf8\<close>
  bytes at the front of a long enough buffer and panics on a shorter one; \<open>Chars\<close> decodes them
  again from the front of any bytes they precede and from the back of any bytes they follow.
\<close>

theorem utf8_roundtrip:
  assumes "is_char c"
  shows "length (utf8_bytes c) = len_utf8 c \<and>
    encode_utf8_raw c dst =
      (if length dst < len_utf8 c
       then Inl (Panic ''encode_utf8: buffer does not have enough bytes to encode code point'')
       else Inr (utf8_bytes c, utf8_bytes c @ drop (len_utf8 c) dst)) \<and>
    chars_next (utf8_bytes c @ r) = Inr (Some c, r) \<and>
    chars_next_back (r @ utf8_bytes c) = Inr (Some c, r)"
proof -
  have "assume_init (map Some (utf8_bytes c @ drop (len_utf8 c) dst)) = Inr (utf8_bytes c @ drop (len_utf8 c) dst)"
    unfolding assume_init_Inr_iff ..
  then show ?thesis using assms chars_next_encode chars_next_back_encode length_utf8_bytes [of c]
    by (simp add: encode_utf8_raw_def encode_utf8_raw_unchecked_def ptr_copy_from_def drop_map)
qed

theorem utf8_roundtrip_witness:
  "chars_next (utf8_bytes 0x1F496 @ [0x61]) = Inr (Some 0x1F496, [0x61]) \<and>
   chars_next_back ([0x61] @ utf8_bytes 0x1F496) = Inr (Some 0x1F496, [0x61])"
  using utf8_roundtrip [of "0x1F496" "[]" "[0x61]"] by (simp add: is_char_nat)

text \<open>
  C40: the single comparison with which \<open>char::from_u32\<close> rejects surrogates and large numbers is
  exact, for all 2^32 arguments.
\<close>

theorem from_u32_exact:
  "from_u32 i = (if i < 0x110000 \<and> \<not> (0xD800 \<le> i \<and> i < 0xE000) then Some i else None)"
  by (simp add: from_u32 is_char_def)

text \<open>
  C26: the lossy decoder and the validator, two separate implementations of the grammar, agree. The
  first chunk's valid part ends at \<open>valid_up_to\<close>, and its invalid part has \<open>error_len\<close> bytes, or
  all the rest when that is \<open>None\<close>.
\<close>

theorem utf8_chunks_agree:
  assumes "align_offset_ok addr align" "length v \<le> usize_max" "v \<noteq> []"
    and "run_utf8_validation addr align v = Inr r"
  defines "u \<equiv> (case r of Inr _ \<Rightarrow> length v | Inl e \<Rightarrow> valid_up_to e)"
  defines "k \<equiv> (case r of Inr _ \<Rightarrow> 0 | Inl e \<Rightarrow> (case error_len e of Some k \<Rightarrow> k | None \<Rightarrow> length v - u))"
  shows "utf8_chunks_next v =
    Inr (Some \<lparr>chunk_valid = take u v, chunk_invalid = take k (drop u v)\<rparr>, drop (u + k) v)"
proof -
  from utf8_chunks_next_correct [OF assms(3)] obtain r' i u' where
    c: "validation_result v r'" "chunk_end v r' = (i, u')" "u' \<le> i" "i \<le> length v"
      "utf8_chunks_next v = Inr (Some \<lparr>chunk_valid = take u' v, chunk_invalid = drop u' (take i v)\<rparr>, drop i v)" by metis
  have "validation_result v r"
    using run_utf8_validation [OF assms(1,2)] assms(4) by (metis sum.inject(2))
  then have "r' = r" using validation_result_unique c(1) by blast
  moreover have "valid_up_to e \<le> length v" if "r' = Inl e" for e
    using validation_error(1) c(1) that by (simp add: less_imp_le)
  ultimately have "u' = u \<and> i = u + k"
    using c(2) by (auto simp: u_def k_def chunk_end_def split: sum.splits option.splits)
  then show ?thesis using c(3,5) by (simp add: drop_take)
qed

theorem utf8_chunks_agree_witness:
  "utf8_chunks_next sample_bytes =
    Inr (Some \<lparr>chunk_valid = sample_bytes, chunk_invalid = []\<rparr>, [])"
proof -
  have a: "align_offset_ok 2 6" "length sample_bytes \<le> usize_max"
    by (simp_all add: align_offset_ok_def sample_bytes_def usize_max_def)
  obtain r where r: "run_utf8_validation 2 6 sample_bytes = Inr r" "validation_result sample_bytes r"
    by (rule run_utf8_validation [OF a])
  have "valid_utf8 sample_bytes" using valid_utf8_str_bytes [OF sample_chars_ok] by (simp add: sample_bytes_eq)
  then have "r = Inr ()" using validation_error(3) [of sample_bytes] r(2) by (cases r) auto
  then show ?thesis using utf8_chunks_agree [OF a _ r(1)] by (simp add: sample_bytes_def)
qed


text \<open>
  C27: \<open>String::retain\<close> keeps exactly the accepted characters. If the closure panics, the string holds
  the characters kept so far and nothing else, still valid UTF-8.
\<close>

theorem string_retain_panic_safe:
  assumes "string_rep s cs"
  shows "\<exists>s'. string_retain s f = Inr (\<exists>c \<in> set cs. f c = None, s') \<and>
    string_rep s' (filter (\<lambda>c. f c = Some True) (takeWhile (\<lambda>c. f c \<noteq> None) cs))"
proof -
  have "retain_chars f ds = (\<exists>c \<in> set ds. f c = None,
      filter (\<lambda>c. f c = Some True) (takeWhile (\<lambda>c. f c \<noteq> None) ds))" for ds
  proof (induction ds)
    case (Cons d ds)
    show ?case
    proof (cases "f d")
      case (Some b)
      then show ?thesis by (cases b) (simp_all add: Cons del: not_None_eq)
    qed simp
  qed simp
  note chars = this [of cs]
  obtain s' where "string_retain s f = Inr (fst (retain_chars f cs), s')" "string_rep s' (snd (retain_chars f cs))"
    by (rule string_retain_rep [OF assms])
  then show ?thesis by (simp only: chars fst_conv snd_conv) blast
qed

theorem string_retain_panic_safe_witness:
  "\<exists>s'. string_retain \<lparr>s_vec = byte_vec sample_bytes\<rparr> (\<lambda>c. if c = 0x20AC then None else Some (c \<noteq> 0x61)) =
      Inr (True, s') \<and> string_rep s' [0xE9]"
  using string_retain_panic_safe [OF sample_string_rep, of "\<lambda>c. if c = 0x20AC then None else Some (c \<noteq> 0x61)"]
  by (simp add: sample_chars_def del: not_None_eq)

text \<open>
  C39: an out-of-range or mid-character slice fails with the panic that names the reason; the code
  that prepares the message never panics on its own account.
\<close>

theorem str_index_failure:
  assumes "chars_ok cs"
  shows "str_index (str_bytes cs) start stop =
    (if start \<le> stop \<and> is_char_boundary (str_bytes cs) start \<and> is_char_boundary (str_bytes cs) stop
     then Inr (take (stop - start) (drop start (str_bytes cs)))
     else Inl (Panic (slice_message (str_bytes cs) start stop)))"
  using slice_error_fail [OF assms, of start stop]
  by (auto simp: str_index_def str_get_def)

theorem str_index_failure_witness:
  "str_index sample_bytes 2 3 =
    Inl (Panic ''byte index {} is not a char boundary; it is inside {:?} (bytes {:?}) of `{}`{}'')"
proof -
  have "is_char_boundary sample_bytes 2 \<longleftrightarrow> False"
    by (simp add: is_char_boundary_def sample_bytes_def)
  moreover have "slice_message sample_bytes 2 3 =
      ''byte index {} is not a char boundary; it is inside {:?} (bytes {:?}) of `{}`{}''"
    by (simp add: slice_message_def sample_bytes_def)
  ultimately show ?thesis using str_index_failure [OF sample_chars_ok, of 2 3] by (simp add: sample_bytes_eq)
qed

end
