(* ===== verification/Rust_Closure.thy ===== *)
theory Rust_Closure
  imports Rust_Prelude
begin

text \<open>
  Code that calls a closure of its user. The closure has a state of its own (it is an \<open>FnMut\<close>) and
  may panic at any call, so a program over a state \<open>'s\<close> ends in a fault, returns (\<open>Some x\<close>) or
  unwinds (\<open>None\<close>), and in the last two cases the state it leaves matters: destructors run on it.
  The weakest precondition \<open>wp m N U s\<close> says that \<open>m\<close> has no fault from \<open>s\<close>, establishes \<open>N\<close> when it
  returns and \<open>U\<close> when it unwinds.
\<close>

named_theorems wp_simps \<open>weakest preconditions of the program constructs\<close>

section \<open>Programs\<close>

type_synonym ('s, 'x) prog = "'s \<Rightarrow> ('x option \<times> 's) res"

definition ret :: "'x \<Rightarrow> ('s, 'x) prog" where
  "ret x s = Inr (Some x, s)"

definition failing :: "fault \<Rightarrow> ('s, 'x) prog" where
  "failing e s = Inl e"

definition unwind :: "('s, 'x) prog" where
  "unwind s = Inr (None, s)"

definition bind :: "('s, 'x) prog \<Rightarrow> ('x \<Rightarrow> ('s, 'y) prog) \<Rightarrow> ('s, 'y) prog" where
  "bind m f s = and_then (m s) (\<lambda>(r, s). case r of None \<Rightarrow> Inr (None, s) | Some x \<Rightarrow> f x s)"

definition reads :: "('s \<Rightarrow> 'x res) \<Rightarrow> ('s, 'x) prog" where
  "reads f s = and_then (f s) (\<lambda>x. Inr (Some x, s))"

definition writes :: "('s \<Rightarrow> 's res) \<Rightarrow> ('s, unit) prog" where
  "writes f s = and_then (f s) (\<lambda>s. Inr (Some (), s))"

definition checks :: "fault \<Rightarrow> ('s \<Rightarrow> bool) \<Rightarrow> ('s, unit) prog" where
  "checks e b s = ensure e (b s) (Inr (Some (), s))"

text \<open>A program on a part of the state.\<close>

definition zoom :: "('s \<Rightarrow> 't) \<Rightarrow> ('s \<Rightarrow> 't \<Rightarrow> 's) \<Rightarrow> ('t, 'x) prog \<Rightarrow> ('s, 'x) prog" where
  "zoom get put m s = and_then (m (get s)) (\<lambda>(r, t). Inr (r, put s t))"

text \<open>A destructor that runs at the end of a scope, and one that runs only on unwinding because
  the code forgets the guard at the end.\<close>

definition on_drop :: "('s, 'x) prog \<Rightarrow> ('s \<Rightarrow> 's res) \<Rightarrow> ('s, 'x) prog" where
  "on_drop m g s = and_then (m s) (\<lambda>(r, s). and_then (g s) (\<lambda>s. Inr (r, s)))"

definition on_unwind :: "('s, 'x) prog \<Rightarrow> ('s \<Rightarrow> 's res) \<Rightarrow> ('s, 'x) prog" where
  "on_unwind m g s = and_then (m s) (\<lambda>(r, s). case r of
     None \<Rightarrow> and_then (g s) (\<lambda>s. Inr (None, s)) | Some x \<Rightarrow> Inr (Some x, s))"

fun for_each :: "nat list \<Rightarrow> (nat \<Rightarrow> ('s, unit) prog) \<Rightarrow> ('s, unit) prog" where
  "for_each [] f = ret ()"
| "for_each (i # is) f = bind (f i) (\<lambda>_. for_each is f)"

section \<open>Weakest preconditions\<close>

definition wp :: "('s, 'x) prog \<Rightarrow> ('x \<Rightarrow> 's \<Rightarrow> bool) \<Rightarrow> ('s \<Rightarrow> bool) \<Rightarrow> 's \<Rightarrow> bool" where
  "wp m N U s \<longleftrightarrow> (case m s of Inl e \<Rightarrow> False | Inr (r, t) \<Rightarrow> (case r of Some x \<Rightarrow> N x t | None \<Rightarrow> U t))"

lemma wp_ret [wp_simps]: "wp (ret x) N U s \<longleftrightarrow> N x s"
  by (simp add: wp_def ret_def)

lemma wp_unwind [wp_simps]: "wp unwind N U s \<longleftrightarrow> U s"
  by (simp add: wp_def unwind_def)

lemma wp_failing [wp_simps]: "wp (failing e) N U s \<longleftrightarrow> False"
  by (simp add: wp_def failing_def)

lemma wp_bind [wp_simps]: "wp (bind m f) N U s \<longleftrightarrow> wp m (\<lambda>x. wp (f x) N U) U s"
  by (auto simp: wp_def bind_def split: sum.splits option.splits)

lemma wp_fun [wp_simps]:
  "wp (ret x) N U = N x" "wp (bind m f) N U = wp m (\<lambda>x. wp (f x) N U) U"
  by (simp_all add: fun_eq_iff wp_ret wp_bind)

lemma wp_checks [wp_simps]: "wp (checks e b) N U s \<longleftrightarrow> b s \<and> N () s"
  by (simp add: wp_def checks_def ensure_def)

lemma wp_reads: "wp (reads f) N U s \<longleftrightarrow> (\<exists>x. f s = Inr x \<and> N x s)"
  by (auto simp: wp_def reads_def and_then_def split: sum.splits)

lemma wp_writes: "wp (writes f) N U s \<longleftrightarrow> (\<exists>t. f s = Inr t \<and> N () t)"
  by (auto simp: wp_def writes_def and_then_def split: sum.splits)

lemma wp_readsI: "f s = Inr x \<Longrightarrow> N x s \<Longrightarrow> wp (reads f) N U s"
  by (auto simp: wp_reads)

lemma wp_writesI: "f s = Inr t \<Longrightarrow> N () t \<Longrightarrow> wp (writes f) N U s"
  by (auto simp: wp_writes)

lemma wp_zoom [wp_simps]:
  "wp (zoom get put m) N U s \<longleftrightarrow> wp m (\<lambda>x t. N x (put s t)) (\<lambda>t. U (put s t)) (get s)"
  by (auto simp: wp_def zoom_def and_then_def split: sum.splits)

lemma wp_on_drop [wp_simps]:
  "wp (on_drop m g) N U s \<longleftrightarrow>
    wp m (\<lambda>x s. \<exists>t. g s = Inr t \<and> N x t) (\<lambda>s. \<exists>t. g s = Inr t \<and> U t) s"
  by (auto simp: wp_def on_drop_def and_then_def split: sum.splits option.splits)

lemma wp_on_unwind [wp_simps]:
  "wp (on_unwind m g) N U s \<longleftrightarrow> wp m N (\<lambda>s. \<exists>t. g s = Inr t \<and> U t) s"
  by (auto simp: wp_def on_unwind_def and_then_def split: sum.splits option.splits)

lemma wp_mono:
  assumes "wp m N U s" "\<And>x t. N x t \<Longrightarrow> N' x t" "\<And>t. U t \<Longrightarrow> U' t"
  shows "wp m N' U' s"
  using assms by (auto simp: wp_def split: sum.splits option.splits)

lemma wp_if [wp_simps]:
  "wp (if b then m else m') N U s \<longleftrightarrow> (if b then wp m N U s else wp m' N U s)"
  by simp

lemma wp_Inr:
  assumes "wp m N U s"
  obtains x t where "m s = Inr (Some x, t)" "N x t" | t where "m s = Inr (None, t)" "U t"
proof (cases "m s")
  case (Inr p)
  then show thesis using assms that by (cases p; cases "fst p") (auto simp: wp_def)
qed (use assms in \<open>simp add: wp_def\<close>)

lemma wp_for_each:
  assumes "I a s" "a \<le> b"
    and "\<And>i s. a \<le> i \<Longrightarrow> i < b \<Longrightarrow> I i s \<Longrightarrow> wp (f i) (\<lambda>_. I (Suc i)) U s"
    and "\<And>s. I b s \<Longrightarrow> N () s"
  shows "wp (for_each [a..<b] f) N U s"
  using assms(1-3)
proof (induction "b - a" arbitrary: a s)
  case 0
  then show ?case using assms(4) by (simp add: wp_simps)
next
  case (Suc n)
  then have step: "wp (f a) (\<lambda>_. I (Suc a)) U s" by simp
  have "wp (for_each [Suc a..<b] f) N U t" if "I (Suc a) t" for t
    using Suc that by (intro Suc.hyps(1)) auto
  then show ?case using Suc(2) by (simp add: upt_conv_Cons wp_simps) (rule wp_mono [OF step]; simp)
qed

section \<open>Comparisons\<close>

text \<open>A comparison closure \<open>is_less\<close>: its state, two arguments, and its answer, or a panic. The state
  of a program that calls it is the closure's state and a memory.\<close>

type_synonym ('c, 'a) closure = "'c \<Rightarrow> 'a \<Rightarrow> 'a \<Rightarrow> bool option \<times> 'c"

definition call :: "('c, 'a) closure \<Rightarrow> 'a \<Rightarrow> 'a \<Rightarrow> ('c \<times> 'm, bool) prog" where
  "call is_less a b = (\<lambda>(c, m). case is_less c a b of (r, c) \<Rightarrow> Inr (r, (c, m)))"

text \<open>What a closure is when it does compute \<open>f\<close>: it neither panics nor depends on its state.\<close>

definition computes :: "('c, 'a) closure \<Rightarrow> ('a \<Rightarrow> 'a \<Rightarrow> bool) \<Rightarrow> bool" where
  "computes is_less f \<longleftrightarrow> (\<forall>c a b. fst (is_less c a b) = Some (f a b))"

lemma wp_call:
  "wp (call is_less a b) N U (c, m) \<longleftrightarrow> (case is_less c a b of (r, c) \<Rightarrow>
     (case r of Some x \<Rightarrow> N x (c, m) | None \<Rightarrow> U (c, m)))"
  by (auto simp: wp_def call_def split: prod.splits option.splits)

lemma wp_callI:
  assumes "\<And>x c. (\<And>f. computes is_less f \<Longrightarrow> x = f a b) \<Longrightarrow> N x (c, m)"
    and "\<And>c. (\<And>f. \<not> computes is_less f) \<Longrightarrow> U (c, m)"
  shows "wp (call is_less a b) N U (c, m)"
proof (cases "is_less c a b")
  case (Pair r d)
  have r: "r = Some (f a b)" if "computes is_less f" for f
    using that Pair unfolding computes_def by (metis fst_conv)
  show ?thesis
  proof (cases r)
    case None
    then show ?thesis using assms(2) [of d] r Pair by (auto simp: wp_call)
  next
    case (Some x)
    then show ?thesis using assms(1) [of x d] r Pair by (auto simp: wp_call)
  qed
qed

section \<open>Slices\<close>

text \<open>Access to a slice, given as a memory all of whose slots are initialised, and to a slice with a
  scratch buffer beside it.\<close>

definition peek :: "usize \<Rightarrow> ('c \<times> 'a memory, 'a) prog" where
  "peek i = reads (\<lambda>(c, m). ptr_read m i)"

definition poke :: "usize \<Rightarrow> 'a \<Rightarrow> ('c \<times> 'a memory, unit) prog" where
  "poke i x = writes (\<lambda>(c, m). and_then (ptr_write m i x) (\<lambda>m. Inr (c, m)))"

definition slice_len :: "('c \<times> 'a memory, usize) prog" where
  "slice_len = reads (\<lambda>(c, m). Inr (length m))"

definition less_at :: "('c, 'a) closure \<Rightarrow> usize \<Rightarrow> usize \<Rightarrow> ('c \<times> 'a memory, bool) prog" where
  "less_at is_less i j = bind (peek i) (\<lambda>x. bind (peek j) (\<lambda>y. call is_less x y))"

definition in_slice :: "('c \<times> 'a memory, 'x) prog \<Rightarrow> ('c \<times> 'a memory \<times> 'a memory, 'x) prog" where
  "in_slice = zoom (\<lambda>(c, v, b). (c, v)) (\<lambda>(_, _, b) (c, v). (c, v, b))"

definition in_scratch :: "('c \<times> 'a memory, 'x) prog \<Rightarrow> ('c \<times> 'a memory \<times> 'a memory, 'x) prog" where
  "in_scratch = zoom (\<lambda>(c, v, b). (c, b)) (\<lambda>(_, v, _) (c, b). (c, v, b))"

text \<open>\<open>copy_nonoverlapping\<close> between two blocks.\<close>

definition copy_between :: "'a memory \<Rightarrow> usize \<Rightarrow> 'a memory \<Rightarrow> usize \<Rightarrow> usize \<Rightarrow> 'a memory res" where
  "copy_between m src m' dst n =
     ensure (UB OutOfBounds) (src + n \<le> length m) (ptr_copy_from m' dst (take n (drop src m)))"

definition copy_out :: "usize \<Rightarrow> usize \<Rightarrow> usize \<Rightarrow> ('c \<times> 'a memory \<times> 'a memory, unit) prog" where
  "copy_out src dst n = writes (\<lambda>(c, v, b). and_then (copy_between v src b dst n) (\<lambda>b. Inr (c, v, b)))"

definition copy_back :: "usize \<Rightarrow> usize \<Rightarrow> usize \<Rightarrow> ('c \<times> 'a memory \<times> 'a memory, unit) prog" where
  "copy_back src dst n = writes (\<lambda>(c, v, b). and_then (copy_between b src v dst n) (\<lambda>v. Inr (c, v, b)))"

text \<open>A program on the subslice \<open>v[start..stop]\<close>, which panics when the range is out of bounds.\<close>

definition on_subslice ::
  "usize \<Rightarrow> usize \<Rightarrow> ('c \<times> 'a memory \<times> 'a memory, 'x) prog \<Rightarrow> ('c \<times> 'a memory \<times> 'a memory, 'x) prog" where
  "on_subslice start stop p =
     bind (checks (Panic ''slice index out of range'') (\<lambda>(c, v, b). start \<le> stop \<and> stop \<le> length v)) (\<lambda>_.
       zoom (\<lambda>(c, v, b). (c, take (stop - start) (drop start v), b))
            (\<lambda>(_, v, _) (c, w, b). (c, take start v @ w @ drop stop v, b)) p)"

lemma wp_peek [wp_simps]:
  "wp (peek i) N U (c, m) \<longleftrightarrow> i < length m \<and> (\<exists>x. m ! i = Some x \<and> N x (c, m))"
  by (auto simp: peek_def wp_reads ptr_read_Inr_iff)

lemma wp_poke [wp_simps]:
  "wp (poke i x) N U (c, m) \<longleftrightarrow> i < length m \<and> N () (c, m[i := Some x])"
  by (auto simp: poke_def wp_writes ptr_write_def)

lemma wp_slice_len [wp_simps]: "wp slice_len N U (c, m) \<longleftrightarrow> N (length m) (c, m)"
  by (simp add: slice_len_def wp_reads)

lemma wp_in_slice [wp_simps]:
  "wp (in_slice p) N U (c, v, b) \<longleftrightarrow> wp p (\<lambda>x (c, v). N x (c, v, b)) (\<lambda>(c, v). U (c, v, b)) (c, v)"
  by (simp add: in_slice_def wp_zoom split_def)

lemma wp_in_scratch [wp_simps]:
  "wp (in_scratch p) N U (c, v, b) \<longleftrightarrow> wp p (\<lambda>x (c, b). N x (c, v, b)) (\<lambda>(c, b). U (c, v, b)) (c, b)"
  by (simp add: in_scratch_def wp_zoom split_def)

lemma copy_between_Inr [simp]:
  "src + n \<le> length m \<Longrightarrow> dst + n \<le> length m' \<Longrightarrow>
    copy_between m src m' dst n = Inr (take dst m' @ take n (drop src m) @ drop (dst + n) m')"
  by (simp add: copy_between_def ptr_copy_from_def)

lemma wp_copy_out [wp_simps]:
  "src + n \<le> length v \<Longrightarrow> dst + n \<le> length b \<Longrightarrow> wp (copy_out src dst n) N U (c, v, b) \<longleftrightarrow>
    N () (c, v, take dst b @ take n (drop src v) @ drop (dst + n) b)"
  by (simp add: copy_out_def wp_writes)

lemma wp_copy_back [wp_simps]:
  "src + n \<le> length b \<Longrightarrow> dst + n \<le> length v \<Longrightarrow> wp (copy_back src dst n) N U (c, v, b) \<longleftrightarrow>
    N () (c, take dst v @ take n (drop src b) @ drop (dst + n) v, b)"
  by (simp add: copy_back_def wp_writes)

lemma wp_on_subslice [wp_simps]:
  "wp (on_subslice i j p) N U (c, v, b) \<longleftrightarrow> i \<le> j \<and> j \<le> length v \<and>
    wp p (\<lambda>x (c, w, b). N x (c, take i v @ w @ drop j v, b)) (\<lambda>(c, w, b). U (c, take i v @ w @ drop j v, b))
      (c, take (j - i) (drop i v), b)"
  by (simp add: on_subslice_def wp_simps split_def)

lemma wp_less_atI:
  assumes "i < length m" "j < length m" "m ! i = Some x" "m ! j = Some y"
    and "\<And>r c. (\<And>f. computes is_less f \<Longrightarrow> r = f x y) \<Longrightarrow> N r (c, m)"
    and "\<And>c. (\<And>f. \<not> computes is_less f) \<Longrightarrow> U (c, m)"
  shows "wp (less_at is_less i j) N U (c, m)"
proof -
  have "wp (call is_less x y) N U (c, m)"
    by (rule wp_callI) (use assms(5,6) in blast)+
  then show ?thesis using assms(1-4) by (simp add: less_at_def wp_simps)
qed

section \<open>Destructors\<close>

text \<open>The destructor of a value changes a state of the program and may panic (\<open>False\<close>).\<close>

type_synonym ('c, 'a) glue = "'c \<Rightarrow> 'a \<Rightarrow> bool \<times> 'c"

definition drop_value :: "('c, 'a) glue \<Rightarrow> 'a \<Rightarrow> ('c \<times> 'm, unit) prog" where
  "drop_value d x = (\<lambda>(c, m). case d c x of (ok, c) \<Rightarrow> Inr (if ok then Some () else None, (c, m)))"

lemma wp_drop_value [wp_simps]:
  "wp (drop_value d x) N U (c, s) \<longleftrightarrow> (case d c x of (ok, c) \<Rightarrow> if ok then N () (c, s) else U (c, s))"
  by (auto simp: drop_value_def wp_def split: prod.splits)

text \<open>Code that runs however the code before it ends: when that unwinds, the unwinding goes on
  afterwards, and a panic of the second during unwinding aborts.\<close>

definition cleanup :: "('s, unit) prog \<Rightarrow> ('s, unit) prog \<Rightarrow> ('s, unit) prog" where
  "cleanup m n s = and_then (m s) (\<lambda>(r, s). case r of
     Some _ \<Rightarrow> n s
   | None \<Rightarrow> and_then (n s) (\<lambda>(r, s). case r of Some _ \<Rightarrow> Inr (None, s) | None \<Rightarrow> Inl Abort))"

section \<open>Programs that may abort\<close>

text \<open>A program that may also end by aborting, as one does when the allocator has no memory left.\<close>

definition wpa :: "('s, 'x) prog \<Rightarrow> ('x \<Rightarrow> 's \<Rightarrow> bool) \<Rightarrow> ('s \<Rightarrow> bool) \<Rightarrow> 's \<Rightarrow> bool" where
  "wpa m N U s \<longleftrightarrow> m s = Inl Abort \<or> wp m N U s"

lemma wpaI: "wp m N U s \<Longrightarrow> wpa m N U s"
  by (simp add: wpa_def)

lemma wpa_ret [wp_simps]: "wpa (ret x) N U s \<longleftrightarrow> N x s"
  by (simp add: wpa_def wp_simps) (simp add: ret_def)

lemma wpa_bind: "wpa m (\<lambda>x. wpa (f x) N U) U s \<Longrightarrow> wpa (bind m f) N U s"
  by (auto simp: wpa_def wp_def bind_def and_then_def split: sum.splits option.splits)

lemma wpa_mono:
  "wpa m N U s \<Longrightarrow> (\<And>x t. N x t \<Longrightarrow> N' x t) \<Longrightarrow> (\<And>t. U t \<Longrightarrow> U' t) \<Longrightarrow> wpa m N' U' s"
  by (auto simp: wpa_def wp_def split: sum.splits option.splits)

lemma wpa_zoom: "wpa m (\<lambda>x t. N x (put s t)) (\<lambda>t. U (put s t)) (get s) \<Longrightarrow> wpa (zoom get put m) N U s"
  by (auto simp: wpa_def wp_simps) (auto simp: zoom_def)

lemma wpa_cleanup:
  assumes "wpa m (\<lambda>_. wpa n N U) (wpa n (\<lambda>_. U) (\<lambda>_. True)) s"
  shows "wpa (cleanup m n) N U s"
  using assms
  by (auto simp: wpa_def wp_def cleanup_def and_then_def split: sum.splits option.splits)

end
