(* ===== verification/Stable_Sorting.thy ===== *)
theory Stable_Sorting
  imports Rust_Closure
begin

text \<open>
  What a stable sort computes. \<open>lt\<close> is a strict weak order; \<open>stable_perm\<close> relates two lists with the
  same elements in which equivalent elements have the same order; a sorted list that is a stable
  permutation of another is unique, and \<open>stable_sort\<close> computes it. \<open>merge_by\<close> is the merge of two
  sorted lists, described from both ends.
\<close>

section \<open>Orders\<close>

definition strict_weak :: "('a \<Rightarrow> 'a \<Rightarrow> bool) \<Rightarrow> bool" where
  "strict_weak lt \<longleftrightarrow> (\<forall>a b. lt a b \<longrightarrow> \<not> lt b a) \<and>
     (\<forall>a b c. \<not> lt a b \<longrightarrow> \<not> lt b c \<longrightarrow> \<not> lt a c)"

text \<open>The contract of the sorting functions: the closure computes a strict weak order.\<close>

definition lawful :: "('c, 'a) closure \<Rightarrow> ('a \<Rightarrow> 'a \<Rightarrow> bool) \<Rightarrow> bool" where
  "lawful is_less lt \<longleftrightarrow> computes is_less lt \<and> strict_weak lt"

definition eqv :: "('a \<Rightarrow> 'a \<Rightarrow> bool) \<Rightarrow> 'a \<Rightarrow> 'a \<Rightarrow> bool" where
  "eqv lt a b \<longleftrightarrow> \<not> lt a b \<and> \<not> lt b a"

definition sorted_by :: "('a \<Rightarrow> 'a \<Rightarrow> bool) \<Rightarrow> 'a list \<Rightarrow> bool" where
  "sorted_by lt = sorted_wrt (\<lambda>a b. \<not> lt b a)"

definition stable_perm :: "('a \<Rightarrow> 'a \<Rightarrow> bool) \<Rightarrow> 'a list \<Rightarrow> 'a list \<Rightarrow> bool" where
  "stable_perm lt xs ys \<longleftrightarrow> (\<forall>a. filter (eqv lt a) xs = filter (eqv lt a) ys)"

lemma lawfulD: "lawful is_less lt \<Longrightarrow> computes is_less lt" "lawful is_less lt \<Longrightarrow> strict_weak lt"
  by (simp_all add: lawful_def)

lemma strict_weak_irrefl [simp]: "strict_weak lt \<Longrightarrow> \<not> lt a a"
  unfolding strict_weak_def by blast

lemma strict_weak_asym: "strict_weak lt \<Longrightarrow> lt a b \<Longrightarrow> \<not> lt b a"
  unfolding strict_weak_def by blast

lemma strict_weak_neg: "strict_weak lt \<Longrightarrow> \<not> lt a b \<Longrightarrow> \<not> lt b c \<Longrightarrow> \<not> lt a c"
  unfolding strict_weak_def by blast

lemma strict_weak_trans: "strict_weak lt \<Longrightarrow> lt a b \<Longrightarrow> lt b c \<Longrightarrow> lt a c"
  unfolding strict_weak_def by blast

lemma eqv_refl [simp]: "strict_weak lt \<Longrightarrow> eqv lt a a"
  by (simp add: eqv_def)

lemma sorted_by_Nil [simp]: "sorted_by lt []"
  by (simp add: sorted_by_def)

lemma sorted_by_Cons: "sorted_by lt (x # xs) \<longleftrightarrow> (\<forall>y \<in> set xs. \<not> lt y x) \<and> sorted_by lt xs"
  by (simp add: sorted_by_def)

lemma sorted_by_append:
  "sorted_by lt (xs @ ys) \<longleftrightarrow>
    sorted_by lt xs \<and> sorted_by lt ys \<and> (\<forall>x \<in> set xs. \<forall>y \<in> set ys. \<not> lt y x)"
  by (simp add: sorted_by_def sorted_wrt_append)

lemma sorted_by_take: "sorted_by lt xs \<Longrightarrow> sorted_by lt (take n xs)"
  by (simp add: sorted_by_def sorted_wrt_take)

lemma sorted_by_drop: "sorted_by lt xs \<Longrightarrow> sorted_by lt (drop n xs)"
  by (simp add: sorted_by_def sorted_wrt_drop)

lemma sorted_by_short: "length xs \<le> 1 \<Longrightarrow> sorted_by lt xs"
  by (cases xs) (auto simp: sorted_by_Cons)

text \<open>In a strict weak order neighbours are enough.\<close>

lemma sorted_by_snoc:
  assumes "strict_weak lt" "sorted_by lt (xs @ [x])" "\<not> lt y x"
  shows "sorted_by lt (xs @ [x, y])"
proof -
  have "\<not> lt y z" if "z \<in> set xs" for z
    using assms that strict_weak_neg [of lt y x z] by (auto simp: sorted_by_append)
  then show ?thesis using assms(2,3) by (auto simp: sorted_by_append sorted_by_Cons)
qed

section \<open>Stable permutations\<close>

lemma stable_perm_refl [simp]: "stable_perm lt xs xs"
  by (simp add: stable_perm_def)

lemma stable_perm_sym: "stable_perm lt xs ys \<Longrightarrow> stable_perm lt ys xs"
  by (simp add: stable_perm_def)

lemma stable_perm_trans: "stable_perm lt xs ys \<Longrightarrow> stable_perm lt ys zs \<Longrightarrow> stable_perm lt xs zs"
  by (simp add: stable_perm_def)

lemma stable_perm_append:
  "stable_perm lt xs xs' \<Longrightarrow> stable_perm lt ys ys' \<Longrightarrow> stable_perm lt (xs @ ys) (xs' @ ys')"
  by (simp add: stable_perm_def)

lemma stable_perm_commute:
  assumes "strict_weak lt" "\<And>x y. x \<in> set xs \<Longrightarrow> y \<in> set ys \<Longrightarrow> lt x y \<or> lt y x"
  shows "stable_perm lt (xs @ ys) (ys @ xs)"
proof -
  have "filter (eqv lt a) xs = [] \<or> filter (eqv lt a) ys = []" for a
  proof (rule ccontr)
    assume "\<not> ?thesis"
    then obtain x y where "x \<in> set xs" "y \<in> set ys" "eqv lt a x" "eqv lt a y"
      by (auto simp: filter_empty_conv)
    then show False using assms(2) [of x y] strict_weak_neg [OF assms(1)] unfolding eqv_def by blast
  qed
  then show ?thesis unfolding stable_perm_def filter_append by (metis append_Nil append_Nil2)
qed

lemma stable_perm_swap: "strict_weak lt \<Longrightarrow> lt a b \<or> lt b a \<Longrightarrow> stable_perm lt [a, b] [b, a]"
  using stable_perm_commute [of lt "[a]" "[b]"] by auto

lemma stable_perm_mset:
  assumes "strict_weak lt" "stable_perm lt xs ys"
  shows "mset xs = mset ys"
proof (rule multiset_eqI)
  fix a
  have "count (mset zs) a = count (mset (filter (eqv lt a) zs)) a" for zs
    using assms(1) by simp
  then show "count (mset xs) a = count (mset ys) a"
    using assms(2) unfolding stable_perm_def by metis
qed

lemma stable_perm_length: "strict_weak lt \<Longrightarrow> stable_perm lt xs ys \<Longrightarrow> length xs = length ys"
  using stable_perm_mset mset_eq_length by blast

lemma stable_perm_set: "strict_weak lt \<Longrightarrow> stable_perm lt xs ys \<Longrightarrow> set xs = set ys"
  using stable_perm_mset mset_eq_setD by blast

lemma stable_sorted_unique:
  assumes "strict_weak lt" "sorted_by lt ys" "sorted_by lt zs" "stable_perm lt ys zs"
  shows "ys = zs"
  using assms(2-4)
proof (induction ys arbitrary: zs)
  case Nil
  then show ?case using stable_perm_length [OF assms(1)] by fastforce
next
  case (Cons y ys)
  then obtain z zs' where z: "zs = z # zs'"
    using stable_perm_length [OF assms(1) Cons.prems(3)] by (cases zs) auto
  have set: "set (y # ys) = set (z # zs')" using stable_perm_set [OF assms(1) Cons.prems(3)] z by simp
  have "\<not> lt z y" "\<not> lt y z"
    using Cons.prems(1,2) set assms(1) unfolding z sorted_by_Cons by (metis set_ConsD list.set_intros(1) strict_weak_irrefl)+
  then have e: "eqv lt y z" by (simp add: eqv_def)
  have "filter (eqv lt y) (y # ys) = filter (eqv lt y) (z # zs')"
    using Cons.prems(3) unfolding stable_perm_def z by blast
  then have "y = z" using e assms(1) by simp
  moreover from this have "stable_perm lt ys zs'"
    using Cons.prems(3) z unfolding stable_perm_def by (auto split: if_splits)
  ultimately show ?case using Cons.IH [of zs'] Cons.prems(1,2) z by (simp add: sorted_by_Cons)
qed

section \<open>The reference sort\<close>

fun insert_by :: "('a \<Rightarrow> 'a \<Rightarrow> bool) \<Rightarrow> 'a \<Rightarrow> 'a list \<Rightarrow> 'a list" where
  "insert_by lt x [] = [x]"
| "insert_by lt x (y # ys) = (if lt y x then y # insert_by lt x ys else x # y # ys)"

definition stable_sort :: "('a \<Rightarrow> 'a \<Rightarrow> bool) \<Rightarrow> 'a list \<Rightarrow> 'a list" where
  "stable_sort lt xs = foldr (insert_by lt) xs []"

lemma set_insert_by [simp]: "set (insert_by lt x ys) = insert x (set ys)"
  by (induction ys) auto

lemma insert_by_correct:
  assumes "strict_weak lt"
  shows "sorted_by lt ys \<Longrightarrow> sorted_by lt (insert_by lt x ys)"
    and "stable_perm lt (insert_by lt x ys) (x # ys)"
proof -
  show "sorted_by lt ys \<Longrightarrow> sorted_by lt (insert_by lt x ys)"
  proof (induction ys)
    case (Cons y ys)
    have "\<not> lt z x" if "\<not> lt y x" "z \<in> set ys" for z
      using Cons.prems strict_weak_neg [OF assms _ that(1), of z] that(2) by (auto simp: sorted_by_Cons)
    then show ?case using Cons strict_weak_asym [OF assms, of y x] by (simp add: sorted_by_Cons)
  qed (simp add: sorted_by_Cons)
  show "stable_perm lt (insert_by lt x ys) (x # ys)"
  proof (induction ys)
    case (Cons y ys)
    show ?case
    proof (cases "lt y x")
      case True
      have "stable_perm lt ([y] @ insert_by lt x ys) ([y] @ x # ys)"
        by (rule stable_perm_append [OF stable_perm_refl Cons])
      moreover have "stable_perm lt ([y, x] @ ys) ([x, y] @ ys)"
        using True by (intro stable_perm_append stable_perm_swap assms stable_perm_refl) simp
      ultimately have "stable_perm lt ([y] @ insert_by lt x ys) ([x, y] @ ys)"
        using stable_perm_trans [of lt "[y] @ insert_by lt x ys" "[y, x] @ ys"] by simp
      then show ?thesis using True by simp
    qed simp
  qed simp
qed

lemma stable_sort_correct:
  assumes "strict_weak lt"
  shows "sorted_by lt (stable_sort lt xs)" "stable_perm lt xs (stable_sort lt xs)"
proof -
  show "sorted_by lt (stable_sort lt xs)"
    by (induction xs) (simp_all add: stable_sort_def insert_by_correct(1) [OF assms])
  show "stable_perm lt xs (stable_sort lt xs)"
  proof (induction xs)
    case (Cons x xs)
    have "stable_perm lt ([x] @ xs) ([x] @ stable_sort lt xs)"
      by (rule stable_perm_append [OF stable_perm_refl Cons])
    then have "stable_perm lt (x # xs) (insert_by lt x (stable_sort lt xs))"
      using stable_perm_trans [OF _ stable_perm_sym [OF insert_by_correct(2) [OF assms]]] by simp
    then show ?case by (simp add: stable_sort_def)
  qed (simp add: stable_sort_def)
qed

lemma stable_sort_eqI:
  "strict_weak lt \<Longrightarrow> sorted_by lt ys \<Longrightarrow> stable_perm lt xs ys \<Longrightarrow> ys = stable_sort lt xs"
  using stable_sort_correct [of lt xs] stable_sorted_unique [of lt ys "stable_sort lt xs"]
    stable_perm_trans [OF stable_perm_sym] by metis

section \<open>Merging\<close>

fun merge_by :: "('a \<Rightarrow> 'a \<Rightarrow> bool) \<Rightarrow> 'a list \<Rightarrow> 'a list \<Rightarrow> 'a list" where
  "merge_by lt [] ys = ys"
| "merge_by lt xs [] = xs"
| "merge_by lt (x # xs) (y # ys) =
     (if lt y x then y # merge_by lt (x # xs) ys else x # merge_by lt xs (y # ys))"

lemma merge_by_Nil2 [simp]: "merge_by lt xs [] = xs"
  by (cases xs) simp_all

lemma mset_merge_by [simp]: "mset (merge_by lt xs ys) = mset xs + mset ys"
  by (induction lt xs ys rule: merge_by.induct) auto

lemma length_merge_by [simp]: "length (merge_by lt xs ys) = length xs + length ys"
  by (metis mset_merge_by size_mset size_union)

lemma set_merge_by [simp]: "set (merge_by lt xs ys) = set xs \<union> set ys"
  by (metis mset_merge_by set_mset_mset set_mset_union)

lemma map_merge_by: "map f (merge_by (\<lambda>a b. lt (f a) (f b)) xs ys) = merge_by lt (map f xs) (map f ys)"
  by (induction "\<lambda>a b. lt (f a) (f b)" xs ys rule: merge_by.induct) auto

lemma merge_by_sorted:
  "strict_weak lt \<Longrightarrow> sorted_by lt xs \<Longrightarrow> sorted_by lt ys \<Longrightarrow> sorted_by lt (merge_by lt xs ys)"
proof (induction lt xs ys rule: merge_by.induct)
  case (3 lt x xs y ys)
  show ?case
  proof (cases "lt y x")
    case True
    have "\<not> lt u y" if "u \<in> set xs" for u
    proof
      assume "lt u y"
      then have "lt u x" using True strict_weak_trans [OF 3(3)] by blast
      then show False using 3(4) that by (auto simp: sorted_by_Cons)
    qed
    then show ?thesis using 3 True strict_weak_asym [OF 3(3) True] by (simp add: sorted_by_Cons ball_Un)
  next
    case False
    have "\<not> lt u x" if "u \<in> set ys" for u
      using strict_weak_neg [OF 3(3) _ False, of u] 3(5) that by (auto simp: sorted_by_Cons)
    then show ?thesis using 3 False by (simp add: sorted_by_Cons ball_Un)
  qed
qed simp_all

lemma merge_by_stable:
  "strict_weak lt \<Longrightarrow> sorted_by lt xs \<Longrightarrow> stable_perm lt (merge_by lt xs ys) (xs @ ys)"
proof (induction lt xs ys rule: merge_by.induct)
  case (3 lt x xs y ys)
  show ?case
  proof (cases "lt y x")
    case True
    have "lt y u" if "u \<in> set (x # xs)" for u
    proof (rule ccontr)
      assume "\<not> lt y u"
      moreover have "\<not> lt u x" using that 3(4) strict_weak_irrefl [OF 3(3)] by (auto simp: sorted_by_Cons)
      ultimately show False using strict_weak_neg [OF 3(3)] True by blast
    qed
    then have "stable_perm lt ([y] @ x # xs) ((x # xs) @ [y])"
      by (intro stable_perm_commute 3(3)) auto
    then have "stable_perm lt (([y] @ x # xs) @ ys) (((x # xs) @ [y]) @ ys)"
      by (rule stable_perm_append) simp
    moreover have "stable_perm lt ([y] @ merge_by lt (x # xs) ys) ([y] @ (x # xs) @ ys)"
      using 3 True by (intro stable_perm_append) simp_all
    ultimately have "stable_perm lt ([y] @ merge_by lt (x # xs) ys) ((x # xs) @ y # ys)"
      using stable_perm_trans [of lt "[y] @ merge_by lt (x # xs) ys" "[y] @ (x # xs) @ ys"] by simp
    then show ?thesis using True by simp
  next
    case False
    have "stable_perm lt ([x] @ merge_by lt xs (y # ys)) ([x] @ xs @ y # ys)"
      using 3 False by (intro stable_perm_append) (simp_all add: sorted_by_Cons)
    then show ?thesis using False by simp
  qed
qed simp_all

text \<open>The last element of a merge.\<close>

lemma merge_by_back:
  assumes "strict_weak lt" "sorted_by lt (xs @ [a])" "sorted_by lt (ys @ [b])"
  shows "merge_by lt (xs @ [a]) (ys @ [b]) =
    (if lt b a then merge_by lt xs (ys @ [b]) @ [a] else merge_by lt (xs @ [a]) ys @ [b])"
proof (rule stable_sorted_unique [OF assms(1)])
  note neg = strict_weak_neg [OF assms(1)]
  have xs: "sorted_by lt xs" "\<And>x. x \<in> set xs \<Longrightarrow> \<not> lt a x"
    and ys: "sorted_by lt ys" "\<And>y. y \<in> set ys \<Longrightarrow> \<not> lt b y"
    using assms(2,3) by (auto simp: sorted_by_append)
  show "sorted_by lt (merge_by lt (xs @ [a]) (ys @ [b]))"
    by (rule merge_by_sorted [OF assms])
  have perm: "stable_perm lt (merge_by lt (xs @ [a]) (ys @ [b])) ((xs @ [a]) @ ys @ [b])"
    by (rule merge_by_stable [OF assms(1,2)])
  show "sorted_by lt (if lt b a then merge_by lt xs (ys @ [b]) @ [a] else merge_by lt (xs @ [a]) ys @ [b])"
  proof (cases "lt b a")
    case True
    have "\<not> lt a y" if "y \<in> set ys" for y
      using ys(2) [OF that] True strict_weak_asym [OF assms(1)] strict_weak_trans [OF assms(1)] by blast
    then show ?thesis
      using True xs(2) strict_weak_asym [OF assms(1) True] merge_by_sorted [OF assms(1) xs(1) assms(3)]
      by (auto simp: sorted_by_append sorted_by_Cons)
  next
    case False
    have "\<not> lt b x" if "x \<in> set xs" for x
      using neg [OF False] xs(2) [OF that] by blast
    then show ?thesis
      using False ys(2) merge_by_sorted [OF assms(1,2) ys(1)]
      by (auto simp: sorted_by_append sorted_by_Cons)
  qed
  show "stable_perm lt (merge_by lt (xs @ [a]) (ys @ [b]))
    (if lt b a then merge_by lt xs (ys @ [b]) @ [a] else merge_by lt (xs @ [a]) ys @ [b])"
  proof (cases "lt b a")
    case True
    have "lt y a" if "y \<in> set (ys @ [b])" for y
    proof (rule ccontr)
      assume "\<not> lt y a"
      moreover have "\<not> lt b y" using that ys(2) strict_weak_irrefl [OF assms(1)] by auto
      ultimately show False using neg True by blast
    qed
    then have "stable_perm lt ([a] @ ys @ [b]) ((ys @ [b]) @ [a])"
      by (intro stable_perm_commute assms(1)) auto
    then have 1: "stable_perm lt (xs @ [a] @ ys @ [b]) (xs @ (ys @ [b]) @ [a])"
      by (rule stable_perm_append [OF stable_perm_refl])
    have 2: "stable_perm lt (merge_by lt xs (ys @ [b]) @ [a]) ((xs @ ys @ [b]) @ [a])"
      by (intro stable_perm_append merge_by_stable assms(1) xs(1) stable_perm_refl)
    have "stable_perm lt (merge_by lt (xs @ [a]) (ys @ [b])) (xs @ (ys @ [b]) @ [a])"
      using stable_perm_trans [OF perm, of "xs @ (ys @ [b]) @ [a]"] 1 by simp
    then have "stable_perm lt (merge_by lt (xs @ [a]) (ys @ [b])) (merge_by lt xs (ys @ [b]) @ [a])"
      using stable_perm_trans [OF _ stable_perm_sym [OF 2]] by simp
    then show ?thesis using True by simp
  next
    case False
    have 2: "stable_perm lt (merge_by lt (xs @ [a]) ys @ [b]) (((xs @ [a]) @ ys) @ [b])"
      by (intro stable_perm_append merge_by_stable assms(1,2) stable_perm_refl)
    have "stable_perm lt (merge_by lt (xs @ [a]) (ys @ [b])) (merge_by lt (xs @ [a]) ys @ [b])"
      using stable_perm_trans [OF perm, of "merge_by lt (xs @ [a]) ys @ [b]"] stable_perm_sym [OF 2] by simp
    then show ?thesis using False by simp
  qed
qed

end
