(* ===== verification/Sort_Small.thy ===== *)
theory Sort_Small
  imports Stable_Sorting Alloc_Layout
begin

text \<open>
  The small sorts of \<open>slice::sort\<close> (\<open>core/src/slice/sort/shared/smallsort.rs\<close>) and the search for an
  existing run (\<open>shared/mod.rs\<close>). A pointer into the slice or the scratch buffer is an index; a
  read of an uninitialised slot, or out of bounds, is undefined behaviour.
\<close>

text \<open>What the sort asks of the element type: its layout, and whether it is \<open>Freeze\<close>.\<close>

record sort_type =
  ty_layout :: layout
  ty_freeze :: bool

section \<open>Existing runs\<close>

text \<open>The two loops of \<open>find_existing_run\<close>, from \<open>run_len\<close> on with \<open>k\<close> elements left.\<close>

fun run_scan :: "('c, 'a) closure \<Rightarrow> bool \<Rightarrow> usize \<Rightarrow> nat \<Rightarrow> ('c \<times> 'a memory, usize) prog" where
  "run_scan is_less descending run_len 0 = ret run_len"
| "run_scan is_less descending run_len (Suc k) =
     bind (less_at is_less run_len (run_len - 1)) (\<lambda>b.
       if b = descending then run_scan is_less descending (run_len + 1) k else ret run_len)"

definition find_existing_run :: "('c, 'a) closure \<Rightarrow> ('c \<times> 'a memory, usize \<times> bool) prog" where
  "find_existing_run is_less =
     bind slice_len (\<lambda>len.
       if len < 2 then ret (len, False)
       else bind (less_at is_less 1 0) (\<lambda>strictly_descending.
              bind (run_scan is_less strictly_descending 2 (len - 2)) (\<lambda>run_len.
                ret (run_len, strictly_descending))))"

section \<open>Insertion\<close>

text \<open>The loop of \<open>insert_tail\<close>. The state carries the destination of the gap guard, which \<open>gap_fill\<close>
  drops; \<open>sift = begin + k\<close>.\<close>

definition gap_move :: "usize \<Rightarrow> ('c \<times> usize \<times> 'a memory, unit) prog" where
  "gap_move sift =
     writes (\<lambda>(c, dst, m). and_then (ptr_copy_nonoverlapping m sift dst 1) (\<lambda>m. Inr (c, sift, m)))"

definition gap_fill :: "'a \<Rightarrow> 'c \<times> usize \<times> 'a memory \<Rightarrow> ('c \<times> usize \<times> 'a memory) res" where
  "gap_fill tmp = (\<lambda>(c, dst, m). and_then (ptr_write m dst tmp) (\<lambda>m. Inr (c, dst, m)))"

fun insert_shift :: "('c, 'a) closure \<Rightarrow> 'a \<Rightarrow> usize \<Rightarrow> nat \<Rightarrow> ('c \<times> usize \<times> 'a memory, unit) prog" where
  "insert_shift is_less tmp begin 0 = gap_move begin"
| "insert_shift is_less tmp begin (Suc k) =
     bind (gap_move (begin + Suc k)) (\<lambda>_.
       bind (reads (\<lambda>(c, dst, m). ptr_read m (begin + k))) (\<lambda>x.
         bind (call is_less tmp x) (\<lambda>b. if \<not> b then ret () else insert_shift is_less tmp begin k)))"

definition insert_tail :: "('c, 'a) closure \<Rightarrow> usize \<Rightarrow> usize \<Rightarrow> ('c \<times> 'a memory, unit) prog" where
  "insert_tail is_less begin tail =
     bind (checks (UB OutOfBounds) (\<lambda>_. begin < tail)) (\<lambda>_.
       bind (less_at is_less tail (tail - 1)) (\<lambda>b.
         if \<not> b then ret ()
         else bind (peek tail) (\<lambda>tmp.
                zoom (\<lambda>(c, m). (c, tail, m)) (\<lambda>_ (c, _, m). (c, m))
                  (on_drop (insert_shift is_less tmp begin (tail - 1 - begin)) (gap_fill tmp)))))"

definition insertion_sort_shift_left :: "('c, 'a) closure \<Rightarrow> usize \<Rightarrow> ('c \<times> 'a memory, unit) prog" where
  "insertion_sort_shift_left is_less offset =
     bind slice_len (\<lambda>len.
       if offset = 0 \<or> offset > len then failing Abort
       else for_each [offset..<len] (insert_tail is_less 0))"

section \<open>Four and eight elements\<close>

text \<open>\<open>sort4_stable\<close> reads four elements of the slice at \<open>v_base\<close> and writes them to the scratch buffer
  at \<open>dst\<close>.\<close>

definition sort4_stable ::
  "('c, 'a) closure \<Rightarrow> usize \<Rightarrow> usize \<Rightarrow> ('c \<times> 'a memory \<times> 'a memory, unit) prog" where
  "sort4_stable is_less v_base dst =
     bind (in_slice (less_at is_less (v_base + 1) v_base)) (\<lambda>c1.
     bind (in_slice (less_at is_less (v_base + 3) (v_base + 2))) (\<lambda>c2.
       let a = v_base + of_bool c1; b = v_base + of_bool (\<not> c1);
           c = v_base + 2 + of_bool c2; d = v_base + 2 + of_bool (\<not> c2)
       in bind (in_slice (less_at is_less c a)) (\<lambda>c3.
          bind (in_slice (less_at is_less d b)) (\<lambda>c4.
            let min = (if c3 then c else a); max = (if c4 then b else d);
                unknown_left = (if c3 then a else if c4 then c else b);
                unknown_right = (if c4 then d else if c3 then b else c)
            in bind (in_slice (less_at is_less unknown_right unknown_left)) (\<lambda>c5.
                 let lo = (if c5 then unknown_right else unknown_left);
                     hi = (if c5 then unknown_left else unknown_right)
                 in bind (copy_out min dst 1) (\<lambda>_. bind (copy_out lo (dst + 1) 1) (\<lambda>_.
                    bind (copy_out hi (dst + 2) 1) (\<lambda>_. copy_out max (dst + 3) 1))))))))"

text \<open>The steps of \<open>bidirectional_merge\<close>: the source is a slice \<open>src\<close>, its pointers are integers because
  two of them may end one before its start; the destination is the memory of the state.\<close>

definition src_read :: "'a list \<Rightarrow> int \<Rightarrow> ('s, 'a) prog" where
  "src_read src i = (if 0 \<le> i \<and> nat i < length src then ret (src ! nat i) else failing (UB OutOfBounds))"

definition merge_up_step ::
  "('c, 'a) closure \<Rightarrow> 'a list \<Rightarrow> int \<Rightarrow> int \<Rightarrow> usize \<Rightarrow> ('c \<times> 'a memory, int \<times> int \<times> usize) prog" where
  "merge_up_step is_less src left_src right_src dst =
     bind (src_read src right_src) (\<lambda>x. bind (src_read src left_src) (\<lambda>y.
     bind (call is_less x y) (\<lambda>b.
       let is_l = \<not> b
       in bind (poke dst (if is_l then y else x)) (\<lambda>_.
            ret (left_src + of_bool is_l, right_src + of_bool (\<not> is_l), dst + 1)))))"

definition merge_down_step ::
  "('c, 'a) closure \<Rightarrow> 'a list \<Rightarrow> int \<Rightarrow> int \<Rightarrow> usize \<Rightarrow> ('c \<times> 'a memory, int \<times> int \<times> usize) prog" where
  "merge_down_step is_less src left_src right_src dst =
     bind (src_read src right_src) (\<lambda>x. bind (src_read src left_src) (\<lambda>y.
     bind (call is_less x y) (\<lambda>b.
       let is_l = \<not> b
       in bind (poke dst (if is_l then x else y)) (\<lambda>_.
          bind (checks (UB OutOfBounds) (\<lambda>_. 0 < dst)) (\<lambda>_.
            ret (left_src - of_bool (\<not> is_l), right_src - of_bool is_l, dst - 1))))))"

fun bidirectional_loop ::
  "('c, 'a) closure \<Rightarrow> 'a list \<Rightarrow> nat \<Rightarrow> int \<times> int \<times> usize \<Rightarrow> int \<times> int \<times> usize \<Rightarrow>
    ('c \<times> 'a memory, (int \<times> int \<times> usize) \<times> int \<times> int \<times> usize) prog" where
  "bidirectional_loop is_less src 0 up down = ret (up, down)"
| "bidirectional_loop is_less src (Suc k) (left, right, dst) (left_rev, right_rev, dst_rev) =
     bind (merge_up_step is_less src left right dst) (\<lambda>up.
     bind (merge_down_step is_less src left_rev right_rev dst_rev) (\<lambda>down.
       bidirectional_loop is_less src k up down))"

text \<open>A comparison that is no order is reported by a panic (\<open>panic_on_ord_violation\<close>).\<close>

definition bidirectional_merge ::
  "('c, 'a) closure \<Rightarrow> 'a list \<Rightarrow> usize \<Rightarrow> ('c \<times> 'a memory, unit) prog" where
  "bidirectional_merge is_less src dst =
     (let len = length src; len_div_2 = len div 2
      in bind (checks (UB BrokenAssumption) (\<lambda>_. len_div_2 \<noteq> 0)) (\<lambda>_.
         bind (bidirectional_loop is_less src len_div_2 (0, int len_div_2, dst)
                 (int len_div_2 - 1, int len - 1, dst + (len - 1)))
           (\<lambda>((left, right, dst), (left_rev, right_rev, dst_rev)).
             let left_end = left_rev + 1; right_end = right_rev + 1
             in bind (if len mod 2 \<noteq> 0
                      then let left_nonempty = left < left_end
                           in bind (src_read src (if left_nonempty then left else right)) (\<lambda>x.
                              bind (poke dst x) (\<lambda>_.
                                ret (left + of_bool left_nonempty, right + of_bool (\<not> left_nonempty))))
                      else ret (left, right))
                  (\<lambda>(left, right). if left \<noteq> left_end \<or> right \<noteq> right_end then unwind else ret ()))))"

definition sort8_stable ::
  "('c, 'a) closure \<Rightarrow> usize \<Rightarrow> usize \<Rightarrow> usize \<Rightarrow> ('c \<times> 'a memory \<times> 'a memory, unit) prog" where
  "sort8_stable is_less v_base dst scratch_base =
     bind (sort4_stable is_less v_base scratch_base) (\<lambda>_.
     bind (sort4_stable is_less (v_base + 4) (scratch_base + 4)) (\<lambda>_.
     bind (checks (UB Overlapping) (\<lambda>_. dst + 8 \<le> scratch_base \<or> scratch_base + 8 \<le> dst)) (\<lambda>_.
     bind (reads (\<lambda>(c, v, b). slice_at b scratch_base (scratch_base + 8))) (\<lambda>src.
       in_scratch (bidirectional_merge is_less src dst)))))"

section \<open>The small sort\<close>

definition SMALL_SORT_FALLBACK_THRESHOLD :: usize where "SMALL_SORT_FALLBACK_THRESHOLD = 16"
definition SMALL_SORT_GENERAL_THRESHOLD :: usize where "SMALL_SORT_GENERAL_THRESHOLD = 32"

definition SMALL_SORT_GENERAL_SCRATCH_LEN :: usize where
  "SMALL_SORT_GENERAL_SCRATCH_LEN = SMALL_SORT_GENERAL_THRESHOLD + 16"

text \<open>The extension of a presorted part of the scratch buffer, and the guard \<open>CopyOnDrop\<close> that copies
  the scratch buffer to the slice if the last merge unwinds.\<close>

definition extend_sorted ::
  "('c, 'a) closure \<Rightarrow> usize \<Rightarrow> usize \<Rightarrow> usize \<Rightarrow> ('c \<times> 'a memory \<times> 'a memory, unit) prog" where
  "extend_sorted is_less offset presorted_len desired_len =
     for_each [presorted_len..<desired_len] (\<lambda>i.
       bind (copy_out (offset + i) (offset + i) 1) (\<lambda>_.
         in_scratch (insert_tail is_less offset (offset + i))))"

definition copy_on_drop ::
  "usize \<Rightarrow> 'c \<times> 'a memory \<times> 'a memory \<Rightarrow> ('c \<times> 'a memory \<times> 'a memory) res" where
  "copy_on_drop len = (\<lambda>(c, v, b). and_then (copy_between b 0 v 0 len) (\<lambda>v. Inr (c, v, b)))"

definition presort ::
  "sort_type \<Rightarrow> ('c, 'a) closure \<Rightarrow> usize \<Rightarrow> ('c \<times> 'a memory \<times> 'a memory, usize) prog" where
  "presort ty is_less len =
     (let len_div_2 = len div 2
      in if lay_size (ty_layout ty) \<le> 16 \<and> len \<ge> 16
         then bind (sort8_stable is_less 0 0 len) (\<lambda>_.
              bind (sort8_stable is_less len_div_2 len_div_2 (len + 8)) (\<lambda>_. ret 8))
         else if len \<ge> 8
         then bind (sort4_stable is_less 0 0) (\<lambda>_.
              bind (sort4_stable is_less len_div_2 len_div_2) (\<lambda>_. ret 4))
         else bind (copy_out 0 0 1) (\<lambda>_. bind (copy_out len_div_2 len_div_2 1) (\<lambda>_. ret 1)))"

definition small_sort_general_with_scratch ::
  "sort_type \<Rightarrow> ('c, 'a) closure \<Rightarrow> ('c \<times> 'a memory \<times> 'a memory, unit) prog" where
  "small_sort_general_with_scratch ty is_less =
     bind (reads (\<lambda>(c, v, b). Inr (length v, length b))) (\<lambda>(len, scratch_len).
       if len < 2 then ret ()
       else if scratch_len < len + 16 then failing Abort
       else let len_div_2 = len div 2
            in bind (presort ty is_less len) (\<lambda>presorted_len.
               bind (extend_sorted is_less 0 presorted_len len_div_2) (\<lambda>_.
               bind (extend_sorted is_less len_div_2 presorted_len (len - len_div_2)) (\<lambda>_.
               bind (reads (\<lambda>(c, v, b). slice_at b 0 len)) (\<lambda>src.
                 on_unwind (in_slice (bidirectional_merge is_less src 0)) (copy_on_drop len))))))"

definition small_sort_threshold :: "sort_type \<Rightarrow> usize" where
  "small_sort_threshold ty =
     (if ty_freeze ty then SMALL_SORT_GENERAL_THRESHOLD else SMALL_SORT_FALLBACK_THRESHOLD)"

definition small_sort ::
  "sort_type \<Rightarrow> ('c, 'a) closure \<Rightarrow> ('c \<times> 'a memory \<times> 'a memory, unit) prog" where
  "small_sort ty is_less =
     (if ty_freeze ty then small_sort_general_with_scratch ty is_less
      else in_slice (bind slice_len (\<lambda>len.
             if len \<ge> 2 then insertion_sort_shift_left is_less 1 else ret ())))"

end
