(* ===== verification/Sort_Small_Correct.thy ===== *)
theory Sort_Small_Correct
  imports Sort_Small
begin

text \<open>
  The small sorts: for any comparison, also one that panics or is inconsistent, the slice is a
  permutation of what it was, and every access is in bounds; for a lawful comparison it is sorted
  stably. \<open>sorts\<close> states this contract for a program.
\<close>

section \<open>Existing runs\<close>

lemma run_scan_wp:
  assumes "1 \<le> n" "n + k = length xs"
    and "\<And>c r. n \<le> r \<Longrightarrow> r \<le> length xs \<Longrightarrow>
      (computes is_less lt \<Longrightarrow> \<forall>i. n \<le> i \<longrightarrow> i < r \<longrightarrow> lt (xs ! i) (xs ! (i - 1)) = desc) \<Longrightarrow> N r (c, map Some xs)"
    and "\<And>c. \<not> computes is_less lt \<Longrightarrow> U (c, map Some xs)"
  shows "wp (run_scan is_less desc n k) N U (c, map Some xs)"
  using assms(1-3)
proof (induction k arbitrary: n c)
  case 0
  then show ?case by (simp add: wp_simps)
next
  case (Suc k)
  note prems = Suc.prems
  show ?case unfolding run_scan.simps wp_bind
  proof (rule wp_less_atI)
    fix r c assume r: "\<And>f. computes is_less f \<Longrightarrow> r = f (xs ! n) (xs ! (n - 1))"
    show "wp (if r = desc then run_scan is_less desc (n + 1) k else ret n) N U (c, map Some xs)"
    proof (cases "r = desc")
      case True
      have "wp (run_scan is_less desc (n + 1) k) N U (c, map Some xs)"
      proof (rule Suc.IH)
        fix c q assume q: "n + 1 \<le> q" "q \<le> length xs"
          "computes is_less lt \<Longrightarrow> \<forall>i. n + 1 \<le> i \<longrightarrow> i < q \<longrightarrow> lt (xs ! i) (xs ! (i - 1)) = desc"
        show "N q (c, map Some xs)"
        proof (rule prems(3))
          assume "computes is_less lt"
          then show "\<forall>i. n \<le> i \<longrightarrow> i < q \<longrightarrow> lt (xs ! i) (xs ! (i - 1)) = desc"
            using q(3) r True by (metis Suc_eq_plus1 le_antisym not_less_eq_eq)
        qed (use q in auto)
      qed (use prems in auto)
      then show ?thesis using True by simp
    next
      case False
      then show ?thesis using prems by (auto simp: wp_simps)
    qed
  qed (use prems assms(4) in auto)
qed

lemma strict_weak_transp: "strict_weak lt \<Longrightarrow> transp (\<lambda>a b. \<not> lt b a)" "strict_weak lt \<Longrightarrow> transp (\<lambda>a b. lt b a)"
  by (auto intro!: transpI dest: strict_weak_neg strict_weak_trans)

lemma find_existing_run_wp:
  assumes "\<And>c n rev. n \<le> length xs \<Longrightarrow> (2 \<le> length xs \<longrightarrow> 2 \<le> n) \<Longrightarrow>
      (lawful is_less lt \<Longrightarrow>
        if rev then sorted_wrt (\<lambda>a b. lt b a) (take n xs) else sorted_by lt (take n xs)) \<Longrightarrow>
      N (n, rev) (c, map Some xs)"
    and "\<And>c. \<not> lawful is_less lt \<Longrightarrow> U (c, map Some xs)"
  shows "wp (find_existing_run is_less) N U (c, map Some xs)"
proof (cases "length xs < 2")
  case True
  then have "wp (find_existing_run is_less) N U (c, map Some xs) \<longleftrightarrow> N (length xs, False) (c, map Some xs)"
    by (simp add: find_existing_run_def wp_simps)
  then show ?thesis using assms(1) [of "length xs" False c] True sorted_by_short [of xs] by simp
next
  case False
  then have len: "0 < length xs" "1 < length xs" by linarith+
  have Uc: "\<And>c. \<not> computes is_less lt \<Longrightarrow> U (c, map Some xs)" using assms(2) lawfulD(1) by blast
  have "wp (less_at is_less 1 0) (\<lambda>d. wp (bind (run_scan is_less d 2 (length xs - 2)) (\<lambda>n. ret (n, d))) N U) U (c, map Some xs)"
  proof (rule wp_less_atI)
    fix d c assume d: "\<And>f. computes is_less f \<Longrightarrow> d = f (xs ! 1) (xs ! 0)"
    show "wp (bind (run_scan is_less d 2 (length xs - 2)) (\<lambda>n. ret (n, d))) N U (c, map Some xs)"
      unfolding wp_bind wp_ret
    proof (rule run_scan_wp)
      fix c r assume r: "2 \<le> r" "r \<le> length xs"
        "computes is_less lt \<Longrightarrow> \<forall>i. 2 \<le> i \<longrightarrow> i < r \<longrightarrow> lt (xs ! i) (xs ! (i - 1)) = d"
      show "N (r, d) (c, map Some xs)"
      proof (rule assms(1))
        assume lawful: "lawful is_less lt"
        have step: "lt (xs ! Suc i) (xs ! i) = d" if "Suc i < r" for i
          using d [OF lawfulD(1) [OF lawful]] r(3) [OF lawfulD(1) [OF lawful], THEN spec, of "Suc i"] that
          by (cases i) simp_all
        note tr = strict_weak_transp [OF lawfulD(2) [OF lawful]]
        have "sorted_wrt (\<lambda>a b. lt b a) (take r xs)" if d
          unfolding sorted_wrt_iff_nth_Suc_transp [OF tr(2)] using step that r(2) by simp
        moreover have "sorted_by lt (take r xs)" if "\<not> d"
          unfolding sorted_by_def sorted_wrt_iff_nth_Suc_transp [OF tr(1)] using step that r(2) by simp
        ultimately show "if d then sorted_wrt (\<lambda>a b. lt b a) (take r xs) else sorted_by lt (take r xs)"
          by simp
      qed (use r in auto)
    next
      show "\<And>c. \<not> computes is_less lt \<Longrightarrow> U (c, map Some xs)" by (rule Uc)
    qed (use False in simp_all)
  next
    show "\<And>c. (\<And>f. \<not> computes is_less f) \<Longrightarrow> U (c, map Some xs)" by (rule Uc)
  qed (use len in simp_all)
  then show ?thesis using False by (simp add: find_existing_run_def wp_simps)
qed

section \<open>Insertion\<close>

lemma gap_move_wp:
  assumes "dst = Suc sift" "sift = length pre + length ys"
  shows "wp (gap_move sift) N U (c, dst, pre @ map Some (ys @ [y]) @ g # post) \<longleftrightarrow>
    N () (c, sift, pre @ map Some ys @ Some y # Some y # post)"
  using assms by (simp add: gap_move_def wp_writes move_slots_def)

definition gap_state :: "('c, 'a) closure \<Rightarrow> ('a \<Rightarrow> 'a \<Rightarrow> bool) \<Rightarrow> 'a memory \<Rightarrow> 'a list \<Rightarrow> 'a memory \<Rightarrow> 'a \<Rightarrow> usize \<times> 'a memory \<Rightarrow> bool" where
  "gap_state is_less lt pre ys post tmp = (\<lambda>(dst, m). \<exists>ys1 ys2 g. ys = ys1 @ ys2 \<and> dst = length pre + length ys1 \<and>
     m = pre @ map Some ys1 @ g # map Some ys2 @ post \<and>
     (computes is_less lt \<longrightarrow> (\<forall>y \<in> set ys2. lt tmp y) \<and> (ys1 = [] \<or> \<not> lt tmp (last ys1))))"

lemma insert_shift_wp:
  assumes "length ys1 = Suc k" "ys = ys1 @ ys2" "dst = length pre + length ys1"
    and "computes is_less lt \<Longrightarrow> (\<forall>y \<in> set ys2. lt tmp y) \<and> lt tmp (last ys1)"
    and N: "\<And>c dst m. gap_state is_less lt pre ys post tmp (dst, m) \<Longrightarrow> N () (c, dst, m)"
    and U: "\<And>c ys1 ys2 g. \<not> computes is_less lt \<Longrightarrow> ys = ys1 @ ys2 \<Longrightarrow>
      U (c, length pre + length ys1, pre @ map Some ys1 @ g # map Some ys2 @ post)"
  shows "wp (insert_shift is_less tmp (length pre) k) N U (c, dst, pre @ map Some ys1 @ g # map Some ys2 @ post)"
  using assms(1-4)
proof (induction k arbitrary: c dst ys1 ys2 g)
  case 0
  then obtain y where y: "ys1 = [y]" by (metis length_0_conv length_Suc_conv)
  have "gap_state is_less lt pre ys post tmp (length pre, pre @ Some y # Some y # map Some ys2 @ post)"
    unfolding gap_state_def using 0 y by (intro case_prodI exI [of _ "[]"] exI [of _ "y # ys2"]) auto
  then show ?case using gap_move_wp [of dst "length pre" pre "[]" N U c y g "map Some ys2 @ post"] 0 y N by simp
next
  case (Suc k)
  obtain zs y where y: "ys1 = zs @ [y]" "length zs = Suc k"
    using Suc.prems(1) by (metis length_Suc_conv_rev)
  then have ys: "ys = zs @ y # ys2" using Suc.prems(2) by simp
  let ?m = "pre @ map Some zs @ Some y # Some y # map Some ys2 @ post"
  have less: "computes is_less lt \<Longrightarrow> \<forall>z \<in> set (y # ys2). lt tmp z" using Suc.prems(4) y by simp
  have read: "ptr_read ?m (length pre + k) = Inr (last zs)"
    using y(2) by (simp add: ptr_read_Inr_iff nth_append last_conv_nth)
      (metis diff_Suc_1 last_conv_nth length_0_conv nat.distinct(1))
  have "wp (call is_less tmp (last zs)) (\<lambda>b. wp (if \<not> b then ret () else insert_shift is_less tmp (length pre) k) N U) U
     (c, length pre + Suc k, ?m)"
  proof (rule wp_callI)
    fix b c assume b: "\<And>f. computes is_less f \<Longrightarrow> b = f tmp (last zs)"
    have "wp (insert_shift is_less tmp (length pre) k) N U (c, length pre + Suc k, pre @ map Some zs @ Some y # map Some (y # ys2) @ post)" if b
    proof (rule Suc.IH)
      assume "computes is_less lt"
      then show "(\<forall>z \<in> set (y # ys2). lt tmp z) \<and> lt tmp (last zs)" using less b that by blast
    qed (use y ys in simp_all)
    moreover have "gap_state is_less lt pre ys post tmp (length pre + Suc k, ?m)" if "\<not> b"
      unfolding gap_state_def using that less b ys y by (intro case_prodI exI [of _ zs] exI [of _ "y # ys2"]) auto
    ultimately show "wp (if \<not> b then ret () else insert_shift is_less tmp (length pre) k) N U (c, length pre + Suc k, ?m)"
      using N by (simp add: wp_simps)
  next
    fix c assume "\<And>f. \<not> computes is_less f"
    then show "U (c, length pre + Suc k, ?m)" using U [of zs "y # ys2" c "Some y"] ys y by simp
  qed
  moreover have "dst = Suc (length pre + Suc k)" using Suc.prems(1,3) by simp
  ultimately show ?case
    using gap_move_wp [of dst "length pre + Suc k" pre zs _ U c y g "map Some ys2 @ post"] y read
    by (simp add: wp_simps wp_reads)
qed

lemma insert_tail_wp:
  assumes "ys \<noteq> []"
    and N: "\<And>c zs. mset zs = mset (ys @ [t]) \<Longrightarrow>
      (lawful is_less lt \<Longrightarrow> sorted_by lt ys \<Longrightarrow> sorted_by lt zs \<and> stable_perm lt (ys @ [t]) zs) \<Longrightarrow>
      N () (c, pre @ map Some zs @ post)"
    and U: "\<And>c zs. mset zs = mset (ys @ [t]) \<Longrightarrow> \<not> lawful is_less lt \<Longrightarrow> U (c, pre @ map Some zs @ post)"
  shows "wp (insert_tail is_less (length pre) (length pre + length ys)) N U
    (c, pre @ map Some (ys @ [t]) @ post)"
proof -
  define xs where "xs = butlast ys"
  define y where "y = last ys"
  then have ys: "ys = xs @ [y]" using assms(1) by (simp add: xs_def)
  let ?m = "pre @ map Some (ys @ [t]) @ post" and ?tail = "length pre + length ys"
  have read: "?m ! (?tail - 1) = Some y" "?m ! ?tail = Some t" "?tail < length ?m"
    by (simp_all add: ys nth_append)
  have fill: "gap_fill t (c, length pre + length ys1, pre @ map Some ys1 @ g # map Some ys2 @ post) =
      Inr (c, length pre + length ys1, pre @ map Some (ys1 @ t # ys2) @ post)" for c ys1 ys2 g
    by (simp add: gap_fill_def list_update_append)
  have shift: "wp (zoom (\<lambda>(c, m). (c, ?tail, m)) (\<lambda>_ (c, _, m). (c, m))
      (on_drop (insert_shift is_less t (length pre) (length xs)) (gap_fill t))) N U (c, ?m)"
    if "computes is_less lt \<Longrightarrow> lt t y" for c
  proof -
    have "wp (insert_shift is_less t (length pre) (length xs))
        (\<lambda>x (c, dst, m). \<exists>s. gap_fill t (c, dst, m) = Inr s \<and> N x (fst s, snd (snd s)))
        (\<lambda>(c, dst, m). \<exists>s. gap_fill t (c, dst, m) = Inr s \<and> U (fst s, snd (snd s)))
        (c, ?tail, pre @ map Some ys @ Some t # map Some [] @ post)"
    proof (rule insert_shift_wp [where lt = lt and ys = ys])
      fix c dst m assume "gap_state is_less lt pre ys post t (dst, m)"
      then obtain ys1 ys2 g where g: "ys = ys1 @ ys2" "dst = length pre + length ys1"
          "m = pre @ map Some ys1 @ g # map Some ys2 @ post"
        and less: "computes is_less lt \<Longrightarrow> (\<forall>y \<in> set ys2. lt t y) \<and> (ys1 = [] \<or> \<not> lt t (last ys1))"
        unfolding gap_state_def by auto
      have "N () (c, pre @ map Some (ys1 @ t # ys2) @ post)"
      proof (rule N)
        assume l: "lawful is_less lt" "sorted_by lt ys"
        note sw = lawfulD(2) [OF l(1)]
        have b: "\<forall>y \<in> set ys2. lt t y" "ys1 = [] \<or> \<not> lt t (last ys1)" using less lawfulD(1) [OF l(1)] by auto
        have "\<not> lt t u" if "u \<in> set ys1" for u
        proof (cases "u = last ys1")
          case False
          then have "\<not> lt (last ys1) u"
            using l(2) that g(1) by (cases ys1 rule: rev_cases) (auto simp: sorted_by_append sorted_by_Cons)
          then show ?thesis using strict_weak_neg [OF sw, of t "last ys1" u] b(2) that by auto
        qed (use b(2) that in auto)
        moreover have "\<not> lt u t" if "u \<in> set ys2" for u using b(1) that strict_weak_asym [OF sw] by blast
        ultimately have "sorted_by lt (ys1 @ t # ys2)"
          using l(2) g(1) by (auto simp: sorted_by_append sorted_by_Cons)
        moreover have "stable_perm lt (ys2 @ [t]) ([t] @ ys2)"
          using b(1) by (intro stable_perm_commute sw) auto
        then have "stable_perm lt (ys1 @ ys2 @ [t]) (ys1 @ [t] @ ys2)"
          by (rule stable_perm_append [OF stable_perm_refl])
        ultimately show "sorted_by lt (ys1 @ t # ys2) \<and> stable_perm lt (ys @ [t]) (ys1 @ t # ys2)"
          by (simp add: g(1))
      qed (simp add: g(1))
      then show "case (c, dst, m) of (c, dst, m) \<Rightarrow> \<exists>s. gap_fill t (c, dst, m) = Inr s \<and> N () (fst s, snd (snd s))"
        by (simp add: g fill)
    next
      fix c ys1 ys2 g assume "\<not> computes is_less lt" "ys = ys1 @ ys2"
      then have "U (c, pre @ map Some (ys1 @ t # ys2) @ post)" by (intro U) (auto simp: lawful_def)
      then show "case (c, length pre + length ys1, pre @ map Some ys1 @ g # map Some ys2 @ post) of
          (c, dst, m) \<Rightarrow> \<exists>s. gap_fill t (c, dst, m) = Inr s \<and> U (fst s, snd (snd s))"
        by (simp add: fill)
    qed (use ys that in auto)
    then show ?thesis by (simp add: wp_simps split_def)
  qed
  have "wp (less_at is_less ?tail (?tail - 1)) (\<lambda>b. wp (if \<not> b then ret () else
      bind (peek ?tail) (\<lambda>tmp. zoom (\<lambda>(c, m). (c, ?tail, m)) (\<lambda>_ (c, _, m). (c, m))
        (on_drop (insert_shift is_less tmp (length pre) (length xs)) (gap_fill tmp)))) N U) U (c, ?m)"
  proof (rule wp_less_atI)
    fix b c assume b: "\<And>f. computes is_less f \<Longrightarrow> b = f t y"
    have "N () (c, ?m)" if "\<not> b"
    proof (rule N)
      assume l: "lawful is_less lt" "sorted_by lt ys"
      then have "\<not> lt t y" using b lawfulD(1) that by blast
      then show "sorted_by lt (ys @ [t]) \<and> stable_perm lt (ys @ [t]) (ys @ [t])"
        using sorted_by_snoc [OF lawfulD(2) [OF l(1)], of xs y t] l(2) ys by simp
    qed simp
    moreover have "wp (zoom (\<lambda>(c, m). (c, ?tail, m)) (\<lambda>_ (c, _, m). (c, m))
      (on_drop (insert_shift is_less t (length pre) (length xs)) (gap_fill t))) N U (c, ?m)" if b
    proof (rule shift)
      show "computes is_less lt \<Longrightarrow> lt t y" using b that by blast
    qed
    ultimately show "wp (if \<not> b then ret () else
      bind (peek ?tail) (\<lambda>tmp. zoom (\<lambda>(c, m). (c, ?tail, m)) (\<lambda>_ (c, _, m). (c, m))
        (on_drop (insert_shift is_less tmp (length pre) (length xs)) (gap_fill tmp)))) N U (c, ?m)"
      using read by (simp add: wp_ret wp_bind wp_peek)
  next
    fix c assume "\<And>f. \<not> computes is_less f"
    then show "U (c, ?m)" by (intro U) (auto simp: lawful_def)
  qed (use read in auto)
  moreover have e: "?tail - 1 - length pre = length xs" "length pre < ?tail" using ys by simp_all
  ultimately show ?thesis unfolding insert_tail_def e(1) wp_bind wp_checks by simp
qed

text \<open>The insertion sort of the whole slice.\<close>

lemma insertion_sort_wp:
  fixes is_less :: "('c, 'a) closure"
  assumes "0 < offset" "offset \<le> length xs"
    and N: "\<And>c ys. mset ys = mset xs \<Longrightarrow>
      (lawful is_less lt \<Longrightarrow> sorted_by lt (take offset xs) \<Longrightarrow> sorted_by lt ys \<and> stable_perm lt xs ys) \<Longrightarrow>
      N () (c, map Some ys)"
    and U: "\<And>c ys. mset ys = mset xs \<Longrightarrow> \<not> lawful is_less lt \<Longrightarrow> U (c, map Some ys)"
  shows "wp (insertion_sort_shift_left is_less offset) N U (c, map Some xs)"
proof -
  let ?I = "\<lambda>i (c :: 'c, m). \<exists>ys. m = map Some (ys @ drop i xs) \<and> mset ys = mset (take i xs) \<and>
    (lawful is_less lt \<longrightarrow> sorted_by lt (take offset xs) \<longrightarrow> sorted_by lt ys \<and> stable_perm lt (take i xs) ys)"
  have "wp (for_each [offset..<length xs] (insert_tail is_less 0)) N U (c, map Some xs)"
  proof (rule wp_for_each [where I = ?I])
    show "?I offset (c, map Some xs)"
      by (auto intro!: exI [of _ "take offset xs"] simp flip: map_append)
  next
    fix i s assume i: "offset \<le> i" "i < length xs" and "?I i s"
    obtain c m where s: "s = (c, m)" by fastforce
    with \<open>?I i s\<close> obtain ys where ys: "m = map Some (ys @ drop i xs)" "mset ys = mset (take i xs)"
        "lawful is_less lt \<Longrightarrow> sorted_by lt (take offset xs) \<Longrightarrow> sorted_by lt ys \<and> stable_perm lt (take i xs) ys"
      by auto
    have len: "length ys = i" using mset_eq_length [OF ys(2)] i(2) by simp
    have drop: "drop i xs = xs ! i # drop (Suc i) xs" by (rule Cons_nth_drop_Suc [symmetric]) (rule i(2))
    have take: "take (Suc i) xs = take i xs @ [xs ! i]" by (rule take_Suc_conv_app_nth) (rule i(2))
    have "wp (insert_tail is_less (length ([] :: 'a memory)) (length ([] :: 'a memory) + length ys)) (\<lambda>_. ?I (Suc i)) U
        (c, [] @ map Some (ys @ [xs ! i]) @ map Some (drop (Suc i) xs))"
    proof (rule insert_tail_wp)
      show "ys \<noteq> []" using len assms(1) i(1) by auto
    next
      fix c zs assume zs: "mset zs = mset (ys @ [xs ! i])"
        "lawful is_less lt \<Longrightarrow> sorted_by lt ys \<Longrightarrow> sorted_by lt zs \<and> stable_perm lt (ys @ [xs ! i]) zs"
      have "stable_perm lt (take (Suc i) xs) zs" if "stable_perm lt (take i xs) ys" "stable_perm lt (ys @ [xs ! i]) zs"
        using stable_perm_trans [OF stable_perm_append [OF that(1) stable_perm_refl] that(2)] by (simp add: take)
      then show "?I (Suc i) (c, [] @ map Some zs @ map Some (drop (Suc i) xs))"
        using zs ys(2,3) by (auto intro!: exI [of _ zs] simp: take)
    next
      fix c zs assume "mset zs = mset (ys @ [xs ! i])" "\<not> lawful is_less lt"
      moreover have "mset (zs @ drop (Suc i) xs) = mset (take (Suc i) xs) + mset (drop (Suc i) xs)"
        using calculation(1) ys(2) by (simp add: take)
      then have "mset (zs @ drop (Suc i) xs) = mset xs"
        by (metis append_take_drop_id mset_append)
      ultimately have "U (c, map Some (zs @ drop (Suc i) xs))" by (intro U)
      then show "U (c, [] @ map Some zs @ map Some (drop (Suc i) xs))" by simp
    qed
    then show "wp (insert_tail is_less 0 i) (\<lambda>_. ?I (Suc i)) U s" by (simp add: s ys(1) len drop)
  next
    fix s assume "?I (length xs) s"
    then show "N () s" using N by auto
  qed (use assms in simp)
  then show ?thesis using assms(1,2) by (simp add: insertion_sort_shift_left_def wp_simps)
qed

section \<open>The bidirectional merge\<close>

text \<open>
  The elements are tagged with the half they come from, so that the merge of the tagged halves says
  which element each step consumes. After \<open>j\<close> rounds the first \<open>j\<close> elements \<open>A\<close> and the last \<open>j\<close>
  elements \<open>B\<close> of the destination are written.
\<close>

definition tlt :: "('a \<Rightarrow> 'a \<Rightarrow> bool) \<Rightarrow> bool \<times> 'a \<Rightarrow> bool \<times> 'a \<Rightarrow> bool" where
  "tlt lt p q = lt (snd p) (snd q)"

lemma strict_weak_tlt [simp]: "strict_weak lt \<Longrightarrow> strict_weak (tlt lt)"
  unfolding strict_weak_def tlt_def by blast

lemma sorted_by_tlt [simp]: "sorted_by (tlt lt) (map (Pair b) xs) \<longleftrightarrow> sorted_by lt xs"
  by (simp add: sorted_by_def tlt_def sorted_wrt_map)

lemma map_snd_merge_tlt: "map snd (merge_by (tlt lt) xs ys) = merge_by lt (map snd xs) (map snd ys)"
  unfolding tlt_def by (rule map_merge_by)

definition halves_sorted :: "('a \<Rightarrow> 'a \<Rightarrow> bool) \<Rightarrow> 'a list \<Rightarrow> bool" where
  "halves_sorted lt xs \<longleftrightarrow>
     sorted_by lt (take (length xs div 2) xs) \<and> sorted_by lt (drop (length xs div 2) xs)"

definition up_inv :: "bool \<Rightarrow> ('a \<Rightarrow> 'a \<Rightarrow> bool) \<Rightarrow> 'a list \<Rightarrow> nat \<Rightarrow> nat \<Rightarrow> nat \<Rightarrow> (bool \<times> 'a) list \<Rightarrow> bool" where
  "up_inv law lt xs j l r A \<longleftrightarrow>
     (let L = map (Pair True) (take (length xs div 2) xs); R = map (Pair False) (drop (length xs div 2) xs)
      in l + r = j \<and> length A = j \<and> mset A = mset (take l L) + mset (take r R) \<and>
         (law \<longrightarrow> merge_by (tlt lt) L R = A @ merge_by (tlt lt) (drop l L) (drop r R)))"

definition down_inv :: "bool \<Rightarrow> ('a \<Rightarrow> 'a \<Rightarrow> bool) \<Rightarrow> 'a list \<Rightarrow> nat \<Rightarrow> nat \<Rightarrow> nat \<Rightarrow> (bool \<times> 'a) list \<Rightarrow> bool" where
  "down_inv law lt xs j l r B \<longleftrightarrow>
     (let L = map (Pair True) (take (length xs div 2) xs); R = map (Pair False) (drop (length xs div 2) xs)
      in l + r + j = length xs \<and> l \<le> length L \<and> r \<le> length R \<and> length B = j \<and>
         mset B = mset (drop l L) + mset (drop r R) \<and>
         (law \<longrightarrow> merge_by (tlt lt) L R = merge_by (tlt lt) (take l L) (take r R) @ B))"

lemma up_inv_step:
  assumes inv: "up_inv law lt xs j l r A" and j: "j < length xs div 2"
    and b: "law \<Longrightarrow> b = lt (xs ! (length xs div 2 + r)) (xs ! l)"
  shows "up_inv law lt xs (Suc j) (l + of_bool (\<not> b)) (r + of_bool b)
    (A @ [if b then (False, xs ! (length xs div 2 + r)) else (True, xs ! l)])"
proof -
  define h where "h = length xs div 2"
  define L where "L = map (Pair True) (take h xs)"
  define R where "R = map (Pair False) (drop h xs)"
  have i: "l + r = j" "length A = j" "mset A = mset (take l L) + mset (take r R)"
    "law \<Longrightarrow> merge_by (tlt lt) L R = A @ merge_by (tlt lt) (drop l L) (drop r R)"
    using inv by (simp_all add: up_inv_def Let_def h_def L_def R_def)
  have h: "h \<le> length xs" "h \<le> length xs - h" by (simp_all add: h_def)
  have l: "l < length L" "L ! l = (True, xs ! l)" using i(1) j h by (simp_all add: L_def h_def)
  have r: "r < length R" "R ! r = (False, xs ! (h + r))" using i(1) j h by (simp_all add: R_def h_def)
  have "law \<Longrightarrow> merge_by (tlt lt) L R =
      (A @ [if b then R ! r else L ! l]) @ merge_by (tlt lt) (drop (l + of_bool (\<not> b)) L) (drop (r + of_bool b) R)"
    using i(4) b Cons_nth_drop_Suc [OF l(1)] Cons_nth_drop_Suc [OF r(1)] l(2) r(2)
      merge_by.simps(3) [of "tlt lt" "L ! l" "drop (Suc l) L" "R ! r" "drop (Suc r) R"]
    by (simp add: tlt_def h_def)
  moreover have "mset (A @ [if b then R ! r else L ! l]) =
      mset (take (l + of_bool (\<not> b)) L) + mset (take (r + of_bool b) R)"
    using i(3) take_Suc_conv_app_nth [OF l(1)] take_Suc_conv_app_nth [OF r(1)] by simp
  ultimately show ?thesis using i(1,2) l(2) r(2)
    unfolding up_inv_def Let_def h_def [symmetric] L_def [symmetric] R_def [symmetric] by (cases b) auto
qed

lemma down_inv_step:
  assumes inv: "down_inv law lt xs j l r B" and j: "j < length xs div 2"
    and b: "law \<Longrightarrow> b = lt (xs ! (length xs div 2 + r - 1)) (xs ! (l - 1))"
    and law: "law \<Longrightarrow> strict_weak lt \<and> halves_sorted lt xs"
  shows "0 < l" "0 < r" "down_inv law lt xs (Suc j) (l - of_bool b) (r - of_bool (\<not> b))
    ((if b then (True, xs ! (l - 1)) else (False, xs ! (length xs div 2 + r - 1))) # B)"
proof -
  define h where "h = length xs div 2"
  define L where "L = map (Pair True) (take h xs)"
  define R where "R = map (Pair False) (drop h xs)"
  have i: "l + r + j = length xs" "l \<le> length L" "r \<le> length R" "length B = j"
    "mset B = mset (drop l L) + mset (drop r R)"
    "law \<Longrightarrow> merge_by (tlt lt) L R = merge_by (tlt lt) (take l L) (take r R) @ B"
    using inv by (simp_all add: down_inv_def Let_def h_def L_def R_def)
  have h: "h \<le> length xs" "h \<le> length xs - h" "length L = h" "length R = length xs - h"
    by (simp_all add: h_def L_def R_def)
  show pos: "0 < l" "0 < r" using i(1-3) j h unfolding h_def [symmetric] by linarith+
  then obtain l' r' where s: "l = Suc l'" "r = Suc r'" by (metis gr0_conv_Suc)
  have l: "l' < length L" "L ! l' = (True, xs ! l')" using i(2) s by (simp_all add: L_def)
  have r: "r' < length R" "R ! r' = (False, xs ! (h + r'))" using i(3) s h(1) by (simp_all add: R_def)
  have "merge_by (tlt lt) L R =
      merge_by (tlt lt) (take (l - of_bool b) L) (take (r - of_bool (\<not> b)) R) @ (if b then L ! l' else R ! r') # B"
    if "law"
  proof -
    have sw: "strict_weak (tlt lt)" and so: "sorted_by (tlt lt) L" "sorted_by (tlt lt) R"
      using law [OF that] by (simp_all add: halves_sorted_def L_def R_def h_def)
    have t: "take l L = take l' L @ [L ! l']" "take r R = take r' R @ [R ! r']"
      using s take_Suc_conv_app_nth [OF l(1)] take_Suc_conv_app_nth [OF r(1)] by simp_all
    have "b = tlt lt (R ! r') (L ! l')" using b [OF that] s l(2) r(2) by (simp add: tlt_def h_def)
    then have "merge_by (tlt lt) (take l L) (take r R) =
        (if b then merge_by (tlt lt) (take l' L) (take r R) @ [L ! l'] else merge_by (tlt lt) (take l L) (take r' R) @ [R ! r'])"
      unfolding t using sorted_by_take [OF so(1), of l] sorted_by_take [OF so(2), of r] unfolding t
      by (subst merge_by_back [OF sw]) simp_all
    then show ?thesis using i(6) [OF that] s by simp
  qed
  moreover have "mset ((if b then L ! l' else R ! r') # B) =
      mset (drop (l - of_bool b) L) + mset (drop (r - of_bool (\<not> b)) R)"
    using i(5) s Cons_nth_drop_Suc [OF l(1), symmetric] Cons_nth_drop_Suc [OF r(1), symmetric] by simp
  ultimately show "down_inv law lt xs (Suc j) (l - of_bool b) (r - of_bool (\<not> b))
    ((if b then (True, xs ! (l - 1)) else (False, xs ! (length xs div 2 + r - 1))) # B)"
    using i(1-4) l(2) r(2) s
    unfolding down_inv_def Let_def h_def [symmetric] L_def [symmetric] R_def [symmetric] by (cases b) auto
qed

lemma wp_src_read [wp_simps]:
  "wp (src_read xs i) N U s \<longleftrightarrow> 0 \<le> i \<and> nat i < length xs \<and> N (xs ! nat i) s"
  by (auto simp: src_read_def wp_simps)

definition merging :: "'a memory \<Rightarrow> (bool \<times> 'a) list \<Rightarrow> 'a memory \<Rightarrow> (bool \<times> 'a) list \<Rightarrow> 'a memory \<Rightarrow> 'a memory" where
  "merging pre A g B post = pre @ map (Some \<circ> snd) A @ g @ map (Some \<circ> snd) B @ post"

lemma merging_front:
  "length A = j \<Longrightarrow> (merging pre A (x # g) B post)[length pre + j := Some (snd a)] = merging pre (A @ [a]) g B post"
  by (simp add: merging_def list_update_append)

lemma merging_back:
  "i = length pre + (length A + length g) \<Longrightarrow>
    (merging pre A (g @ [x]) B post)[i := Some (snd b)] = merging pre A g (b # B) post"
  by (simp add: merging_def list_update_append)

lemma length_merging [simp]:
  "length (merging pre A g B post) = length pre + length A + length g + length B + length post"
  by (simp add: merging_def)

lemma bidirectional_loop_wp:
  fixes is_less :: "('c, 'a) closure" and xs :: "'a list" and lt :: "'a \<Rightarrow> 'a \<Rightarrow> bool"
  defines "law \<equiv> lawful is_less lt \<and> halves_sorted lt xs"
  defines "n \<equiv> length xs"
  defines "h \<equiv> length xs div 2"
  assumes "up_inv law lt xs j l r A" "down_inv law lt xs j l2 r2 B" "j + k = h" "length g = n - 2 * j"
    and N: "\<And>c l r A l2 r2 B g. up_inv law lt xs h l r A \<Longrightarrow> down_inv law lt xs h l2 r2 B \<Longrightarrow>
      length g = n - 2 * h \<Longrightarrow>
      N ((int l, int (h + r), length pre + h), (int l2 - 1, int (h + r2) - 1, length pre + (n - 1 - h)))
        (c, merging pre A g B post)"
    and U: "\<And>c g. \<not> law \<Longrightarrow> length g = n \<Longrightarrow> U (c, pre @ g @ post)"
  shows "wp (bidirectional_loop is_less xs k (int l, int (h + r), length pre + j)
      (int l2 - 1, int (h + r2) - 1, length pre + (n - 1 - j))) N U (c, merging pre A g B post)"
  using assms(4-7)
proof (induction k arbitrary: c j l r A l2 r2 B g)
  case 0
  then show ?case using N [of l r A l2 r2 B g c] by (simp add: wp_simps)
next
  case (Suc k)
  note up = Suc.prems(1) and down = Suc.prems(2)
  have j: "j < h" using Suc.prems(3) by simp
  have n: "2 * h \<le> n" by (simp add: n_def h_def)
  have lr: "l + r = j" "length A = j" using up by (simp_all add: up_inv_def Let_def)
  have B: "length B = j" using down by (simp add: down_inv_def Let_def)
  have law: "law \<Longrightarrow> strict_weak lt \<and> halves_sorted lt xs" by (simp add: law_def lawful_def)
  have l2r2: "l2 + r2 + j = n" "l2 \<le> h" "r2 \<le> n - h"
    using down by (simp_all add: down_inv_def Let_def n_def h_def)
  have pos: "0 < l2" "0 < r2" using l2r2 j n by linarith+
  have "length g \<ge> 2" using Suc.prems(4) j n by simp
  then obtain x g1 where g1: "g = x # g1" "g1 \<noteq> []" by (cases g; cases "tl g") auto
  then obtain g2 y where g2: "g = x # g2 @ [y]" by (metis rev_exhaust)
  have lg: "length g2 = n - 2 * Suc j" using Suc.prems(4) g2 by simp
  have read: "h + r < length xs" "l < length xs" "h + r2 - 1 < length xs" "l2 - 1 < length xs"
    using lr l2r2 j n pos unfolding n_def by linarith+
  have ints: "nat (int (h + r2) - 1) = h + r2 - 1" "nat (int l2 - 1) = l2 - 1"
    "int (h + r2 - of_bool (\<not> b)) - 1 = int (h + r2) - 1 - of_bool (\<not> b)"
    "int (l2 - of_bool b) - 1 = int l2 - 1 - of_bool b" for b
    using pos by (cases b; simp)+
  let ?down = "\<lambda>up'. wp (merge_down_step is_less xs (int l2 - 1) (int (h + r2) - 1) (length pre + (n - 1 - j)))
    (\<lambda>down'. wp (bidirectional_loop is_less xs k up' down') N U) U"
  have unwound: "U (c, merging pre A' g' B' post)" if "\<not> law" "length A' + length g' + length B' = n" for c A' g' B'
    using U [OF that(1), of "map (Some \<circ> snd) A' @ g' @ map (Some \<circ> snd) B'"] that(2) by (simp add: merging_def)
  have down_wp: "?down (int l', int (h + r'), length pre + Suc j) (c, merging pre A' (g2 @ [y]) B post)"
    if up': "up_inv law lt xs (Suc j) l' r' A'" for c l' r' A'
  proof -
    have A': "length A' = Suc j" using up' by (simp add: up_inv_def Let_def)
    have at: "length pre + (n - 1 - j) = length pre + (length A' + length g2)"
      using A' lg j n by simp
    have "wp (call is_less (xs ! (h + r2 - 1)) (xs ! (l2 - 1))) (\<lambda>b.
        wp (bind (poke (length pre + (n - 1 - j)) (if \<not> b then xs ! (h + r2 - 1) else xs ! (l2 - 1))) (\<lambda>_.
          bind (checks (UB OutOfBounds) (\<lambda>_. 0 < length pre + (n - 1 - j))) (\<lambda>_.
            ret (int l2 - 1 - of_bool (\<not> \<not> b), int (h + r2) - 1 - of_bool (\<not> b), length pre + (n - 1 - j) - 1))))
        (\<lambda>down'. wp (bidirectional_loop is_less xs k (int l', int (h + r'), length pre + Suc j) down') N U) U) U
        (c, merging pre A' (g2 @ [y]) B post)"
    proof (rule wp_callI)
      fix b c assume b: "\<And>f. computes is_less f \<Longrightarrow> b = f (xs ! (h + r2 - 1)) (xs ! (l2 - 1))"
      let ?e = "if b then (True, xs ! (l2 - 1)) else (False, xs ! (h + r2 - 1))"
      have "down_inv law lt xs (Suc j) (l2 - of_bool b) (r2 - of_bool (\<not> b)) (?e # B)"
        unfolding h_def
      proof (rule down_inv_step(3) [OF down])
        show "law \<Longrightarrow> b = lt (xs ! (length xs div 2 + r2 - 1)) (xs ! (l2 - 1))"
          using b [folded h_def] unfolding law_def lawful_def h_def by blast
      qed (use j law in \<open>simp_all add: h_def\<close>)
      from Suc.IH [OF up' this _ lg, of c]
      have "wp (bidirectional_loop is_less xs k (int l', int (h + r'), length pre + Suc j)
          (int (l2 - of_bool b) - 1, int (h + (r2 - of_bool (\<not> b))) - 1, length pre + (n - 1 - Suc j))) N U
          (c, merging pre A' g2 (?e # B) post)"
        using Suc.prems(3) by simp
      moreover have "int (h + (r2 - of_bool (\<not> b))) = int (h + r2 - of_bool (\<not> b))" using pos by simp
      moreover have "length pre + (n - 1 - Suc j) = length pre + (n - 1 - j) - 1" "0 < n - 1 - j"
        using j n by simp_all
      moreover have "(merging pre A' (g2 @ [y]) B post)[length pre + (n - 1 - j) :=
          Some (if \<not> b then xs ! (h + r2 - 1) else xs ! (l2 - 1))] = merging pre A' g2 (?e # B) post"
        using merging_back [OF at, of y B post ?e] by (cases b) simp_all
      ultimately show "wp (bind (poke (length pre + (n - 1 - j)) (if \<not> b then xs ! (h + r2 - 1) else xs ! (l2 - 1))) (\<lambda>_.
          bind (checks (UB OutOfBounds) (\<lambda>_. 0 < length pre + (n - 1 - j))) (\<lambda>_.
            ret (int l2 - 1 - of_bool (\<not> \<not> b), int (h + r2) - 1 - of_bool (\<not> b), length pre + (n - 1 - j) - 1))))
        (\<lambda>down'. wp (bidirectional_loop is_less xs k (int l', int (h + r'), length pre + Suc j) down') N U) U
        (c, merging pre A' (g2 @ [y]) B post)"
        using ints(3,4) [of b] A' lg B j n at
        by (cases b) (simp_all add: wp_bind wp_poke wp_checks wp_ret)
    next
      fix c assume "\<And>f. \<not> computes is_less f"
      then have "\<not> law" by (auto simp: law_def lawful_def)
      then show "U (c, merging pre A' (g2 @ [y]) B post)" by (rule unwound) (use A' lg B j n in simp)
    qed
    then show ?thesis using read pos unfolding merge_down_step_def Let_def wp_bind wp_src_read ints by simp
  qed
  have "wp (call is_less (xs ! (h + r)) (xs ! l)) (\<lambda>b.
      wp (bind (poke (length pre + j) (if \<not> b then xs ! l else xs ! (h + r))) (\<lambda>_.
        ret (int l + of_bool (\<not> b), int (h + r) + of_bool (\<not> \<not> b), length pre + j + 1))) ?down U) U
      (c, merging pre A g B post)"
  proof (rule wp_callI)
    fix b c assume b: "\<And>f. computes is_less f \<Longrightarrow> b = f (xs ! (h + r)) (xs ! l)"
    let ?e = "if b then (False, xs ! (h + r)) else (True, xs ! l)"
    have up': "up_inv law lt xs (Suc j) (l + of_bool (\<not> b)) (r + of_bool b) (A @ [?e])"
      unfolding h_def
    proof (rule up_inv_step [OF up])
      show "law \<Longrightarrow> b = lt (xs ! (length xs div 2 + r)) (xs ! l)"
        using b [folded h_def] unfolding law_def lawful_def h_def by blast
    qed (use j in \<open>simp add: h_def\<close>)
    have "(merging pre A g B post)[length pre + j := Some (if \<not> b then xs ! l else xs ! (h + r))] =
        merging pre (A @ [?e]) (g2 @ [y]) B post"
      using merging_front [OF lr(2), of pre x "g2 @ [y]" B post ?e] by (cases b) (simp_all add: g2)
    then show "wp (bind (poke (length pre + j) (if \<not> b then xs ! l else xs ! (h + r))) (\<lambda>_.
        ret (int l + of_bool (\<not> b), int (h + r) + of_bool (\<not> \<not> b), length pre + j + 1))) ?down U
        (c, merging pre A g B post)"
      using down_wp [OF up', of c] lr g2 by (simp add: wp_bind wp_poke wp_ret add.assoc)
  next
    fix c assume "\<And>f. \<not> computes is_less f"
    then have "\<not> law" by (auto simp: law_def lawful_def)
    then show "U (c, merging pre A g B post)" by (rule unwound) (use lr B Suc.prems(4) j n in simp)
  qed
  then show ?case using read unfolding bidirectional_loop.simps merge_up_step_def Let_def wp_bind wp_src_read nat_int by simp
qed

text \<open>The whole merge: \<open>g\<close> is what the destination held before.\<close>

lemma merge_tagged_split:
  assumes "length xs = 2 * h + m" "m \<le> 1" "h = length xs div 2"
    and up: "up_inv law lt xs h l r A" and down: "down_inv law lt xs h l2 r2 B"
  shows "law \<Longrightarrow> m = 0 \<Longrightarrow> l = l2 \<and> r = r2"
    and "law \<Longrightarrow> m = 1 \<Longrightarrow> l2 = l + of_bool (l < l2) \<and> r2 = r + of_bool (\<not> l < l2)"
    and "l = l2 \<Longrightarrow> r = r2 \<Longrightarrow> mset (map snd (A @ B)) = mset xs"
    and "l2 = l + of_bool (l < l2) \<Longrightarrow> r2 = r + of_bool (\<not> l < l2) \<Longrightarrow>
      mset (map snd A @ [if l < l2 then xs ! l else xs ! (h + r)] @ map snd B) = mset xs"
    and "law \<Longrightarrow> m = 0 \<Longrightarrow> map snd (A @ B) = merge_by lt (take h xs) (drop h xs)"
    and "law \<Longrightarrow> m = 1 \<Longrightarrow> map snd A @ [if l < l2 then xs ! l else xs ! (h + r)] @ map snd B =
      merge_by lt (take h xs) (drop h xs)"
proof -
  define L where "L = map (Pair True) (take h xs)"
  define R where "R = map (Pair False) (drop h xs)"
  note defs = assms(3) [symmetric] L_def [symmetric] R_def [symmetric]
  have u: "l + r = h" "length A = h" "mset A = mset (take l L) + mset (take r R)"
    "law \<Longrightarrow> merge_by (tlt lt) L R = A @ merge_by (tlt lt) (drop l L) (drop r R)"
    using up unfolding up_inv_def Let_def defs by blast+
  have d: "l2 + r2 + h = length xs" "l2 \<le> length L" "r2 \<le> length R" "length B = h"
    "mset B = mset (drop l2 L) + mset (drop r2 R)"
    "law \<Longrightarrow> merge_by (tlt lt) L R = merge_by (tlt lt) (take l2 L) (take r2 R) @ B"
    using down unfolding down_inv_def Let_def defs by blast+
  have len: "length L = h" "length R = h + m" using assms(1,3) by (simp_all add: L_def R_def)
  have lefts: "length (filter fst (take i L)) = min i h" "filter fst (take i R) = []" for i
    using len by (simp_all add: L_def R_def take_map filter_map comp_def)
  have count: "i = l2'" if "mset (take i L) + mset (take k R) = mset (take l2' L) + mset (take k' R)" "i \<le> h" "l2' \<le> h"
    for i k l2' k'
  proof -
    have "mset (filter fst (take i L @ take k R)) = mset (filter fst (take l2' L @ take k' R))"
      using that(1) by (simp only: mset_filter mset_append)
    then have "length (filter fst (take i L @ take k R)) = length (filter fst (take l2' L @ take k' R))"
      by (rule mset_eq_length)
    then show ?thesis using that(2,3) lefts by simp
  qed
  have LR: "map snd (L @ R) = xs" by (simp add: L_def R_def comp_def)
  have nthL: "L ! i = (True, xs ! i)" if "i < h" for i using that len by (simp add: L_def)
  have nthR: "R ! i = (False, xs ! (h + i))" if "i < length R" for i using that by (simp add: R_def)
  have snd_eq: "mset (map snd X) = mset xs" if "mset X = mset L + mset R" for X
    using that LR by (metis mset_append mset_map)
  have merged: "law \<Longrightarrow> map snd (merge_by (tlt lt) L R) = merge_by lt (take h xs) (drop h xs)"
    unfolding map_snd_merge_tlt by (simp add: L_def R_def comp_def)
  have one: "l2 = l + of_bool (l < l2) \<and> r2 = r + of_bool (\<not> l < l2) \<and>
      map snd A @ [if l < l2 then xs ! l else xs ! (h + r)] @ map snd B = merge_by lt (take h xs) (drop h xs)"
    if law "m = 1"
  proof -
    define C where "C = merge_by (tlt lt) (take l2 L) (take r2 R)"
    have C: "length C = Suc h" "mset C = mset (take l2 L) + mset (take r2 R)"
      using d(1-3) assms(1) that(2) by (simp_all add: C_def)
    have "A @ merge_by (tlt lt) (drop l L) (drop r R) = C @ B"
      using u(4) d(6) that(1) by (simp add: C_def)
    then have "take (length A) C = A" using C(1) u(2)
      by (metis append_eq_append_conv_if append_eq_conv_conj le_SucI le_refl)
    then obtain t where t: "C = A @ [t]"
      using C(1) u(2) by (metis append_take_drop_id length_Suc_conv length_append add_left_cancel add_Suc_right
          add.right_neutral length_0_conv)
    then have e: "mset (take l2 L) + mset (take r2 R) = mset (take l L) + mset (take r R) + {#t#}"
      using C(2) u(3) by simp
    have "mset (filter fst (take l2 L @ take r2 R)) = mset (filter fst (take l L @ take r R @ [t]))"
      using e by (simp only: mset_filter mset_append mset.simps add.assoc)
    then have "length (filter fst (take l2 L @ take r2 R)) = length (filter fst (take l L @ take r R @ [t]))"
      by (rule mset_eq_length)
    then have l2: "l2 = l + of_bool (fst t)" using lefts u(1) d(2) len by simp
    then have r2: "r2 = r + of_bool (\<not> fst t)" using u(1) d(1) assms(1) that(2) by (cases "fst t") simp_all
    have "t = (if l < l2 then (True, xs ! l) else (False, xs ! (h + r)))"
    proof (cases "fst t")
      case True
      then have "l < length L" "l2 = Suc l" "r2 = r" using l2 r2 d(2) by simp_all
      then have "t = L ! l" using e by (simp add: take_Suc_conv_app_nth)
      then show ?thesis using nthL [of l] \<open>l < length L\<close> \<open>l2 = Suc l\<close> len by simp
    next
      case False
      then have "r < length R" "l2 = l" "r2 = Suc r" using l2 r2 d(3) by simp_all
      then have "t = R ! r" using e by (simp add: take_Suc_conv_app_nth)
      then show ?thesis using nthR [of r] \<open>r < length R\<close> \<open>l2 = l\<close> by simp
    qed
    moreover have "merge_by (tlt lt) L R = (A @ [t]) @ B" using d(6) that(1) t by (simp add: C_def)
    ultimately have "map snd (merge_by (tlt lt) L R) = map snd A @ [if l < l2 then xs ! l else xs ! (h + r)] @ map snd B"
      by simp
    then show ?thesis using l2 r2 merged [OF that(1)] by (cases "fst t") simp_all
  qed
  have zero: "l = l2 \<and> r = r2 \<and> map snd (A @ B) = merge_by lt (take h xs) (drop h xs)" if law "m = 0"
  proof -
    have "A @ merge_by (tlt lt) (drop l L) (drop r R) = merge_by (tlt lt) (take l2 L) (take r2 R) @ B"
      using u(4) d(6) that(1) by simp
    moreover have "length A = length (merge_by (tlt lt) (take l2 L) (take r2 R))"
      using u(2) d(1-3) assms(1) that(2) by simp
    ultimately have A: "A = merge_by (tlt lt) (take l2 L) (take r2 R)" by simp
    then have "mset (take l L) + mset (take r R) = mset (take l2 L) + mset (take r2 R)" using u(3) by simp
    then have "l = l2" by (rule count) (use u(1) d(2) len in simp_all)
    moreover have "map snd (A @ B) = merge_by lt (take h xs) (drop h xs)"
      using A d(6) that(1) merged by metis
    ultimately show ?thesis using u(1) d(1) assms(1) that(2) by simp
  qed
  have AB: "mset (A @ B) = mset L + mset R" if "l = l2" "r = r2"
  proof -
    have "mset (A @ B) = mset (take l2 L @ drop l2 L) + mset (take r2 R @ drop r2 R)"
      unfolding mset_append using u(3) d(5) that by simp
    then show ?thesis by simp
  qed
  have ABx: "mset (A @ [if l < l2 then L ! l else R ! r] @ B) = mset L + mset R"
    if "l2 = l + of_bool (l < l2)" "r2 = r + of_bool (\<not> l < l2)"
  proof (cases "l < l2")
    case True
    then have "l < length L" "l2 = Suc l" "r2 = r" using that d(2) by simp_all
    then have "mset (take l2 L @ drop l2 L) = mset (take l L) + {#L ! l#} + mset (drop l2 L)"
      by (simp add: take_Suc_conv_app_nth del: append_take_drop_id)
    then have "mset L = mset (take l L) + {#L ! l#} + mset (drop l2 L)" by simp
    moreover have "mset R = mset (take r R) + mset (drop r2 R)"
      using \<open>r2 = r\<close> by (metis append_take_drop_id mset_append)
    ultimately show ?thesis using u(3) d(5) True by simp
  next
    case False
    then have "r < length R" "r2 = Suc r" "l2 = l" using that d(3) by simp_all
    then have "mset (take r2 R @ drop r2 R) = mset (take r R) + {#R ! r#} + mset (drop r2 R)"
      by (simp add: take_Suc_conv_app_nth del: append_take_drop_id)
    then have "mset R = mset (take r R) + {#R ! r#} + mset (drop r2 R)" by simp
    moreover have "mset L = mset (take l L) + mset (drop l2 L)"
      using \<open>l2 = l\<close> by (metis append_take_drop_id mset_append)
    ultimately show ?thesis using u(3) d(5) False by simp
  qed
    show "law \<Longrightarrow> m = 0 \<Longrightarrow> l = l2 \<and> r = r2" using zero by blast
    show "law \<Longrightarrow> m = 1 \<Longrightarrow> l2 = l + of_bool (l < l2) \<and> r2 = r + of_bool (\<not> l < l2)" using one by blast
    show "l = l2 \<Longrightarrow> r = r2 \<Longrightarrow> mset (map snd (A @ B)) = mset xs" using snd_eq AB by blast
    show "mset (map snd A @ [if l < l2 then xs ! l else xs ! (h + r)] @ map snd B) = mset xs"
      if g: "l2 = l + of_bool (l < l2)" "r2 = r + of_bool (\<not> l < l2)"
    proof -
      have "snd (if l < l2 then L ! l else R ! r) = (if l < l2 then xs ! l else xs ! (h + r))"
      proof (cases "l < l2")
        case True
        then show ?thesis using nthL [of l] d(2) len by simp
      next
        case False
        then show ?thesis using nthR [of r] d(3) g(2) by simp
      qed
      then show ?thesis using snd_eq [OF ABx [OF g]] by simp
    qed
    show "law \<Longrightarrow> m = 0 \<Longrightarrow> map snd (A @ B) = merge_by lt (take h xs) (drop h xs)" using zero by blast
    show "law \<Longrightarrow> m = 1 \<Longrightarrow> map snd A @ [if l < l2 then xs ! l else xs ! (h + r)] @ map snd B =
        merge_by lt (take h xs) (drop h xs)" using one by blast
qed

lemma bidirectional_merge_wp:
  fixes is_less :: "('c, 'a) closure" and xs :: "'a list" and lt :: "'a \<Rightarrow> 'a \<Rightarrow> bool"
  defines "law \<equiv> lawful is_less lt \<and> halves_sorted lt xs"
  defines "h \<equiv> length xs div 2"
  assumes len: "2 \<le> length xs" "length g = length xs"
    and N: "\<And>c zs. mset zs = mset xs \<Longrightarrow> (law \<Longrightarrow> zs = merge_by lt (take h xs) (drop h xs)) \<Longrightarrow>
      N () (c, pre @ map Some zs @ post)"
    and U: "\<And>c g. \<not> law \<Longrightarrow> length g = length xs \<Longrightarrow> U (c, pre @ g @ post)"
  shows "wp (bidirectional_merge is_less xs (length pre)) N U (c, pre @ g @ post)"
proof -
  define m where "m = length xs mod 2"
  have m: "length xs = 2 * h + m" "m \<le> 1" by (simp_all add: h_def m_def)
  have h: "h \<noteq> 0" "h \<le> length xs" using len(1) unfolding h_def by linarith+
  let ?rest = "\<lambda>((left, right, dst), (left_rev, right_rev, dst_rev)).
    let left_end = left_rev + 1; right_end = right_rev + 1
    in bind (if length xs mod 2 \<noteq> 0
             then let left_nonempty = left < left_end
                  in bind (src_read xs (if left_nonempty then left else right)) (\<lambda>x.
                     bind (poke dst x) (\<lambda>_.
                       ret (left + of_bool left_nonempty, right + of_bool (\<not> left_nonempty))))
             else ret (left, right))
         (\<lambda>(left, right). if left \<noteq> left_end \<or> right \<noteq> right_end then unwind else ret ())"
  have "wp (bidirectional_loop is_less xs h (int 0, int (h + 0), length pre + 0)
      (int h - 1, int (h + (length xs - h)) - 1, length pre + (length xs - 1 - 0)))
      (\<lambda>s. wp (?rest s) N U) U (c, merging pre [] g [] post)"
  proof (rule bidirectional_loop_wp [where lt = lt and xs = xs, folded h_def])
    fix c l r l2 r2 A B and g :: "'a memory"
    assume up: "up_inv (lawful is_less lt \<and> halves_sorted lt xs) lt xs h l r A"
      and down: "down_inv (lawful is_less lt \<and> halves_sorted lt xs) lt xs h l2 r2 B"
      and g: "length g = length xs - 2 * h"
    note up = up [folded law_def] and down = down [folded law_def]
    have l: "l + r = h" "length A = h" using up by (simp_all add: up_inv_def Let_def)
    note parts = merge_tagged_split [OF m h_def [THEN meta_eq_to_obj_eq] up down]
    have lB: "length B = h" using down by (simp add: down_inv_def Let_def)
    have U': "U (c, merging pre A g' B post)" if "\<not> law" "length g' = m" for g'
      using U [OF that(1), of "map (Some \<circ> snd) A @ g' @ map (Some \<circ> snd) B"] that(2) l(2) lB m(1)
      by (simp add: merging_def)
    show "wp (?rest ((int l, int (h + r), length pre + h), int l2 - 1, int (h + r2) - 1,
        length pre + (length xs - 1 - h))) N U (c, merging pre A g B post)"
    proof (cases "m = 0")
      case True
      then have "g = []" using g m(1) by simp
      then have "merging pre A g B post = pre @ map Some (map snd (A @ B)) @ post"
        by (simp add: merging_def)
      moreover have "N () (c, pre @ map Some (map snd (A @ B)) @ post)" if "l = l2" "r = r2"
        using parts(3) [OF that] parts(5) True by (intro N) blast+
      moreover have "U (c, merging pre A g B post)" if "\<not> (l = l2 \<and> r = r2)"
        using parts(1) True that g m(1) by (intro U') auto
      ultimately show ?thesis using True by (auto simp: m_def wp_simps Let_def)
    next
      case False
      then have m1: "m = 1" using m(2) by simp
      then obtain x where x: "g = [x]" using g m(1) by (cases g) auto
      let ?e = "if l < l2 then (True, xs ! l) else (False, xs ! (h + r))"
      have put: "(merging pre A g B post)[length pre + h := Some (snd ?e)] = pre @ map Some (map snd A @ [snd ?e] @ map snd B) @ post"
        using merging_front [OF l(2), of pre x "[]" B post ?e] x by (simp add: merging_def)
      let ?b = "l < l2"
      have good: "N () (c, pre @ map Some (map snd A @ [snd ?e] @ map snd B) @ post)"
        if "l2 = l + of_bool ?b" "r2 = r + of_bool (\<not> ?b)"
        using parts(4) [OF that] parts(6) m1 by (intro N) (simp_all split: if_splits)
      have bad: "U (c, pre @ map Some (map snd A @ [snd ?e] @ map snd B) @ post)"
        if "\<not> (l2 = l + of_bool ?b \<and> r2 = r + of_bool (\<not> ?b))"
      proof -
        have "\<not> law" using parts(2) m1 that by blast
        then show ?thesis using U' [of "[Some (snd ?e)]"] m1 by (simp add: merging_def comp_def)
      qed
      have "l < length xs" "h + r < length xs" using l(1) h m(1) m1 by simp_all
      then show ?thesis
        using put good bad m1 x l(2) lB by (cases ?b) (auto simp: m_def wp_simps Let_def nat_int_add)
    qed
  next
    fix c and g :: "'a memory" assume "\<not> (lawful is_less lt \<and> halves_sorted lt xs)" "length g = length xs"
    then show "U (c, pre @ g @ post)" by (intro U) (simp_all add: law_def)
  qed (use len h m in \<open>simp_all add: up_inv_def down_inv_def Let_def h_def [symmetric]\<close>)
  then show ?thesis using h
    by (simp add: bidirectional_merge_def Let_def h_def [symmetric] wp_bind wp_checks merging_def)
qed

section \<open>Four elements\<close>

text \<open>A memory after a list was written at an offset.\<close>

definition wrote :: "'a memory \<Rightarrow> usize \<Rightarrow> 'a list \<Rightarrow> 'a memory" where
  "wrote b dst zs = take dst b @ map Some zs @ drop (dst + length zs) b"

lemma length_wrote [simp]: "dst + length zs \<le> length b \<Longrightarrow> length (wrote b dst zs) = length b"
  by (simp add: wrote_def)

lemma segment_wrote: "dst + length zs \<le> length b \<Longrightarrow> segment (wrote b dst zs) dst zs"
  by (simp add: wrote_def segment_def nth_append)

lemma segment_wrote_other:
  "dst + length zs \<le> length b \<Longrightarrow> p + length xs \<le> dst \<or> dst + length zs \<le> p \<Longrightarrow>
    segment b p xs \<Longrightarrow> segment (wrote b dst zs) p xs"
  by (auto simp: wrote_def segment_def nth_append)

lemma wrote_four:
  "dst + 4 \<le> length b \<Longrightarrow>
    b[dst := Some w, dst + 1 := Some x, dst + 2 := Some y, dst + 3 := Some z] = wrote b dst [w, x, y, z]"
  by (rule nth_equalityI) (auto simp: wrote_def nth_list_update nth_append nth_Cons' numeral_eq_Suc
      intro!: arg_cong [where f = "(!) b"])

lemma wp_copy_out_one:
  assumes "i < length xs" "j < length b"
  shows "wp (copy_out i j 1) N U (c, map Some xs, b) \<longleftrightarrow> N () (c, map Some xs, b[j := Some (xs ! i)])"
proof -
  have "take 1 (drop i (map Some xs)) = [Some (xs ! i)]"
    using assms(1) by (simp add: take_Suc_conv_app_nth)
  moreover have "take j b @ Some (xs ! i) # drop (j + 1) b = b[j := Some (xs ! i)]"
    using upd_conv_take_nth_drop [OF assms(2)] by simp
  ultimately show ?thesis using assms by (simp add: wp_copy_out)
qed

lemma wp_copy_out_four:
  assumes "i0 < length xs" "i1 < length xs" "i2 < length xs" "i3 < length xs" "dst + 4 \<le> length b"
  shows "wp (copy_out i0 dst 1) (\<lambda>_. wp (copy_out i1 (dst + 1) 1) (\<lambda>_. wp (copy_out i2 (dst + 2) 1)
      (\<lambda>_. wp (copy_out i3 (dst + 3) 1) N U) U) U) U (c, map Some xs, b) \<longleftrightarrow>
    N () (c, map Some xs, wrote b dst [xs ! i0, xs ! i1, xs ! i2, xs ! i3])"
  using assms wrote_four [OF assms(5)] by (simp add: wp_copy_out_one [unfolded One_nat_def])

lemma wp_slice_less_atI:
  assumes "i < length xs" "j < length xs"
    and "\<And>r c. (\<And>f. computes is_less f \<Longrightarrow> r = f (xs ! i) (xs ! j)) \<Longrightarrow> N r (c, map Some xs, b)"
    and "\<And>c. (\<And>f. \<not> computes is_less f) \<Longrightarrow> U (c, map Some xs, b)"
  shows "wp (in_slice (less_at is_less i j)) N U (c, map Some xs, b)"
  unfolding wp_in_slice
  by (rule wp_less_atI [where x = "xs ! i" and y = "xs ! j"]) (use assms in auto)

lemma merge_two_two:
  assumes sw: "strict_weak lt" and ab: "\<not> lt b a" and cd: "\<not> lt d c"
  defines "c3 \<equiv> lt c a" and "c4 \<equiv> lt d b"
  defines "ul \<equiv> (if c3 then a else if c4 then c else b)" and "ur \<equiv> (if c4 then d else if c3 then b else c)"
  shows "[if c3 then c else a, if lt ur ul then ur else ul, if lt ur ul then ul else ur, if c4 then b else d] =
    merge_by lt [a, b] [c, d]"
proof -
  note neg = strict_weak_neg [OF sw]
  have 1: "lt c b" if "lt d b" using neg [of c b d] neg [of d c b] cd that by blast
  have 2: "lt c b" if "lt c a" using neg [of c b a] ab that by blast
  have 3: "lt d b" if "lt d a" using neg [of d b a] ab that by blast
  have 4: "lt c a" if "lt d a" using neg [of d c a] cd that by blast
  show ?thesis using 1 2 3 4 ab cd unfolding c3_def c4_def ul_def ur_def
    by (cases "lt c a"; cases "lt d b"; cases "lt c b"; cases "lt d a"; simp)
qed

lemma sort4_stable_wp:
  assumes len: "v_base + 4 \<le> length xs" "dst + 4 \<le> length b"
  defines "ys \<equiv> take 4 (drop v_base xs)"
  assumes N: "\<And>c zs. length zs = 4 \<Longrightarrow> mset zs = mset ys \<Longrightarrow>
      (lawful is_less lt \<Longrightarrow> sorted_by lt zs \<and> stable_perm lt ys zs) \<Longrightarrow> N () (c, map Some xs, wrote b dst zs)"
    and U: "\<And>c. \<not> computes is_less lt \<Longrightarrow> U (c, map Some xs, b)"
  shows "wp (sort4_stable is_less v_base dst) N U (c, map Some xs, b)"
proof -
  define x0 x1 x2 x3 where "x0 = xs ! v_base" "x1 = xs ! (v_base + 1)" "x2 = xs ! (v_base + 2)" "x3 = xs ! (v_base + 3)"
  note x = this
  have ys: "ys = [x0, x1, x2, x3]"
    unfolding ys_def using len(1) by (intro nth_equalityI) (auto simp: x nth_Cons' numeral_eq_Suc less_Suc_eq)
  have U': "\<And>c. (\<And>f. \<not> computes is_less f) \<Longrightarrow> U (c, map Some xs, b)" using U by blast
  have sorted: "sorted_by lt zs \<and> stable_perm lt ys zs"
    if law: "lawful is_less lt" and c: "c1 = lt x1 x0" "c2 = lt x3 x2"
      and zs: "zs = merge_by lt [if c1 then x1 else x0, if c1 then x0 else x1] [if c2 then x3 else x2, if c2 then x2 else x3]"
    for zs c1 c2
  proof -
    note sw = lawfulD(2) [OF law]
    have two: "sorted_by lt [if lt q p then q else p, if lt q p then p else q] \<and>
        stable_perm lt [p, q] [if lt q p then q else p, if lt q p then p else q]" for p q
      using strict_weak_asym [OF sw, of q p] stable_perm_swap [OF sw, of p q] by (simp add: sorted_by_Cons)
    have "stable_perm lt ([x0, x1] @ [x2, x3])
      ([if c1 then x1 else x0, if c1 then x0 else x1] @ [if c2 then x3 else x2, if c2 then x2 else x3])"
      unfolding c by (intro stable_perm_append) (use two in blast)+
    moreover have "stable_perm lt zs
      ([if c1 then x1 else x0, if c1 then x0 else x1] @ [if c2 then x3 else x2, if c2 then x2 else x3])"
      unfolding zs c by (rule merge_by_stable [OF sw]) (use two in blast)
    ultimately have "stable_perm lt ys zs" using stable_perm_trans stable_perm_sym ys by fastforce
    moreover have "sorted_by lt zs"
      unfolding zs c by (rule merge_by_sorted [OF sw]) (use two in blast)+
    ultimately show ?thesis by blast
  qed
  have rd: "xs ! (v_base + of_bool p) = (if p then x1 else x0)" "xs ! (v_base + 2 + of_bool p) = (if p then x3 else x2)"
    "v_base + of_bool p < length xs" "v_base + 2 + of_bool p < length xs" for p
    using len(1) by (simp_all add: x numeral_3_eq_3)
  show ?thesis
    unfolding sort4_stable_def Let_def wp_bind
    apply (rule wp_slice_less_atI)
    using len apply simp
    using len apply simp
     apply (rule wp_slice_less_atI)
    using len apply simp
    using len apply simp
      apply (rule wp_slice_less_atI)
        apply (rule rd)
       apply (rule rd)
      apply (rule wp_slice_less_atI)
         apply (rule rd)
        apply (rule rd)
       apply (rule wp_slice_less_atI)
    subgoal using rd by simp
    subgoal using rd by simp
    subgoal premises p for c1 ca c2 cb c3 cc c4 cd c5 ce
    proof -
      define a where "a = (if c1 then x1 else x0)"
      define b' where "b' = (if c1 then x0 else x1)"
      define c where "c = (if c2 then x3 else x2)"
      define d where "d = (if c2 then x2 else x3)"
      let ?zs = "[if c3 then c else a, if c5 then (if c4 then d else if c3 then b' else c) else (if c3 then a else if c4 then c else b'),
          if c5 then (if c3 then a else if c4 then c else b') else (if c4 then d else if c3 then b' else c), if c4 then b' else d]"
      have at: "xs ! (v_base + of_bool c1) = a" "xs ! (v_base + of_bool (\<not> c1)) = b'"
        "xs ! (v_base + 2 + of_bool c2) = c" "xs ! (v_base + 2 + of_bool (\<not> c2)) = d"
        unfolding rd by (simp_all add: a_def b'_def c_def d_def)
      have "N () (ce, map Some xs, wrote b dst ?zs)"
      proof (rule N)
        show "mset ?zs = mset ys"
          unfolding ys by (cases c1; cases c2; cases c3; cases c4; cases c5) (simp_all add: a_def b'_def c_def d_def)
        assume law: "lawful is_less lt"
        note co = lawfulD(1) [OF law]
        show "sorted_by lt ?zs \<and> stable_perm lt ys ?zs"
        proof (rule sorted [OF law])
          show c12: "c1 = lt x1 x0" "c2 = lt x3 x2" using p(1,2) [OF co] by (simp_all add: x numeral_3_eq_3)
          have e: "c3 = lt c a" "c4 = lt d b'" using p(3,4) [OF co] unfolding at by simp_all
          have e5: "c5 = lt (if c4 then d else if c3 then b' else c) (if c3 then a else if c4 then c else b')"
            using p(5) [OF co] by (cases c3; cases c4) (simp_all only: if_True if_False at)
          have "\<not> lt b' a" "\<not> lt d c"
            using strict_weak_asym [OF lawfulD(2) [OF law]] by (auto simp: a_def b'_def c_def d_def c12)
          then show "?zs = merge_by lt [if c1 then x1 else x0, if c1 then x0 else x1]
              [if c2 then x3 else x2, if c2 then x2 else x3]"
            unfolding a_def [symmetric] b'_def [symmetric] c_def [symmetric] d_def [symmetric] e5 e
            by (rule merge_two_two [OF lawfulD(2) [OF law]])
        qed
      qed simp
      moreover have "[xs ! (if c3 then v_base + 2 + of_bool c2 else v_base + of_bool c1),
          xs ! (if c5 then if c4 then v_base + 2 + of_bool (\<not> c2) else if c3 then v_base + of_bool (\<not> c1) else v_base + 2 + of_bool c2
            else if c3 then v_base + of_bool c1 else if c4 then v_base + 2 + of_bool c2 else v_base + of_bool (\<not> c1)),
          xs ! (if c5 then if c3 then v_base + of_bool c1 else if c4 then v_base + 2 + of_bool c2 else v_base + of_bool (\<not> c1)
            else if c4 then v_base + 2 + of_bool (\<not> c2) else if c3 then v_base + of_bool (\<not> c1) else v_base + 2 + of_bool c2),
          xs ! (if c4 then v_base + of_bool (\<not> c1) else v_base + 2 + of_bool (\<not> c2))] = ?zs"
        by (cases c3; cases c4; cases c5) (simp_all only: if_True if_False at)
      ultimately show ?thesis
        by (subst wp_copy_out_four) (use rd len(2) in auto)
    qed
           apply (rule U', assumption)+
    done
qed

definition sorted_from :: "('c, 'a) closure \<Rightarrow> ('a \<Rightarrow> 'a \<Rightarrow> bool) \<Rightarrow> 'a list \<Rightarrow> 'a list \<Rightarrow> bool" where
  "sorted_from is_less lt xs ys \<longleftrightarrow>
     mset ys = mset xs \<and> (lawful is_less lt \<longrightarrow> sorted_by lt ys \<and> stable_perm lt xs ys)"

lemma sorted_from_length: "sorted_from is_less lt xs ys \<Longrightarrow> length ys = length xs"
  by (metis sorted_from_def size_mset)

lemma sorted_from_one [simp]: "sorted_from is_less lt [x] [x]"
  by (simp add: sorted_from_def sorted_by_Cons)

lemma sorted_from_merge:
  assumes "sorted_from is_less lt xs xs'" "sorted_from is_less lt ys ys'" "mset zs = mset (xs' @ ys')"
    and "lawful is_less lt \<Longrightarrow> zs = merge_by lt xs' ys'"
  shows "sorted_from is_less lt (xs @ ys) zs"
  unfolding sorted_from_def
proof (intro conjI impI)
  show "mset zs = mset (xs @ ys)" using assms(1-3) by (simp add: sorted_from_def)
  assume law: "lawful is_less lt"
  note sw = lawfulD(2) [OF law]
  have s: "sorted_by lt xs'" "sorted_by lt ys'" "stable_perm lt xs xs'" "stable_perm lt ys ys'"
    using assms(1,2) law by (auto simp: sorted_from_def)
  show "sorted_by lt zs" unfolding assms(4) [OF law] by (rule merge_by_sorted [OF sw s(1,2)])
  show "stable_perm lt (xs @ ys) zs"
    unfolding assms(4) [OF law]
    by (rule stable_perm_trans [OF stable_perm_append [OF s(3,4)] stable_perm_sym [OF merge_by_stable [OF sw s(1)]]])
qed

lemma bidirectional_merge_at:
  fixes is_less :: "('c, 'a) closure"
  assumes "2 \<le> length xs" "dst + length xs \<le> length m" "h = length xs div 2"
    and N: "\<And>c zs. mset zs = mset xs \<Longrightarrow>
      (lawful is_less lt \<Longrightarrow> halves_sorted lt xs \<Longrightarrow> zs = merge_by lt (take h xs) (drop h xs)) \<Longrightarrow>
      N () (c, wrote m dst zs)"
    and U: "\<And>c m'. \<not> (lawful is_less lt \<and> halves_sorted lt xs) \<Longrightarrow> length m' = length m \<Longrightarrow> U (c, m')"
  shows "wp (bidirectional_merge is_less xs dst) N U (c, m)"
proof -
  let ?pre = "take dst m" and ?g = "take (length xs) (drop dst m)" and ?post = "drop (dst + length xs) m"
  have len: "length ?pre = dst" "length ?g = length xs" using assms(2) by simp_all
  have "m = ?pre @ ?g @ ?post" by (metis append_take_drop_id drop_drop add.commute)
  moreover have "wp (bidirectional_merge is_less xs (length ?pre)) N U (c, ?pre @ ?g @ ?post)"
  proof (rule bidirectional_merge_wp [where lt = lt])
    fix c zs assume zs: "mset zs = mset xs" "lawful is_less lt \<and> halves_sorted lt xs \<Longrightarrow>
      zs = merge_by lt (take (length xs div 2) xs) (drop (length xs div 2) xs)"
    then have "N () (c, wrote m dst zs)" using assms(3) by (intro N) simp_all
    then show "N () (c, ?pre @ map Some zs @ ?post)" using mset_eq_length [OF zs(1)] by (simp add: wrote_def)
  next
    fix c and g :: "'a memory" assume "\<not> (lawful is_less lt \<and> halves_sorted lt xs)" "length g = length xs"
    then show "U (c, ?pre @ g @ ?post)" using assms(2) by (intro U) simp_all
  qed (use assms(1) len in simp_all)
  ultimately show ?thesis using len(1) by simp
qed

lemma halves_sorted_append:
  "length xs = length (xs @ ys) div 2 \<Longrightarrow> sorted_by lt xs \<Longrightarrow> sorted_by lt ys \<Longrightarrow> halves_sorted lt (xs @ ys)"
  unfolding halves_sorted_def by (metis append_eq_conv_conj)

lemma sort8_stable_wp:
  fixes is_less :: "('c, 'a) closure"
  assumes len: "v_base + 8 \<le> length xs" "dst + 8 \<le> length b" "tmp + 8 \<le> length b"
    and disjoint: "dst + 8 \<le> tmp \<or> tmp + 8 \<le> dst"
    and N: "\<And>c b' zs. sorted_from is_less lt (take 8 (drop v_base xs)) zs \<Longrightarrow> length b' = length b \<Longrightarrow>
      segment b' dst zs \<Longrightarrow> (\<forall>p ys. segment b p ys \<longrightarrow> p + length ys \<le> dst \<or> dst + 8 \<le> p \<longrightarrow>
        p + length ys \<le> tmp \<or> tmp + 8 \<le> p \<longrightarrow> segment b' p ys) \<Longrightarrow> N () (c, map Some xs, b')"
    and U: "\<And>c b'. \<not> lawful is_less lt \<Longrightarrow> length b' = length b \<Longrightarrow> U (c, map Some xs, b')"
  shows "wp (sort8_stable is_less v_base dst tmp) N U (c, map Some xs, b)"
  unfolding sort8_stable_def wp_bind
proof (rule sort4_stable_wp [where lt = lt])
  fix c z1 assume z1: "length z1 = 4" "mset z1 = mset (take 4 (drop v_base xs))"
    "lawful is_less lt \<Longrightarrow> sorted_by lt z1 \<and> stable_perm lt (take 4 (drop v_base xs)) z1"
  let ?b1 = "wrote b tmp z1"
  have b1: "length ?b1 = length b" "segment ?b1 tmp z1"
    using z1(1) len(3) by (simp_all add: segment_wrote)
  show "wp (sort4_stable is_less (v_base + 4) (tmp + 4)) (\<lambda>_. wp (checks (UB Overlapping) (\<lambda>_. dst + 8 \<le> tmp \<or> tmp + 8 \<le> dst))
      (\<lambda>_. wp (reads (\<lambda>(c, v, b). slice_at b tmp (tmp + 8))) (\<lambda>src. wp (in_scratch (bidirectional_merge is_less src dst)) N U) U) U)
      U (c, map Some xs, ?b1)"
  proof (rule sort4_stable_wp [where lt = lt])
    fix c z2 assume z2: "length z2 = 4" "mset z2 = mset (take 4 (drop (v_base + 4) xs))"
      "lawful is_less lt \<Longrightarrow> sorted_by lt z2 \<and> stable_perm lt (take 4 (drop (v_base + 4) xs)) z2"
    let ?b2 = "wrote ?b1 (tmp + 4) z2"
    have b2: "length ?b2 = length b" using b1(1) z2(1) len(3) by simp
    have "segment ?b2 tmp z1" by (rule segment_wrote_other) (use b1 z1(1) z2(1) len(3) in simp_all)
    moreover have "segment ?b2 (tmp + 4) z2" by (rule segment_wrote) (use b1(1) z2(1) len(3) in simp)
    ultimately have "segment ?b2 tmp (z1 @ z2)" using z1(1) by (simp add: segment_append)
    then have read: "slice_at ?b2 tmp (tmp + 8) = Inr (z1 @ z2)"
      using segment_slice [of ?b2 tmp "z1 @ z2"] z1(1) z2(1) by simp
    have src: "take 8 (drop v_base xs) = take 4 (drop v_base xs) @ take 4 (drop (v_base + 4) xs)"
      using take_add [of 4 4 "drop v_base xs"] by (simp add: add.commute)
    have from12: "sorted_from is_less lt (take 4 (drop v_base xs)) z1" "sorted_from is_less lt (take 4 (drop (v_base + 4) xs)) z2"
      using z1 z2 by (simp_all add: sorted_from_def)
    have halves: "halves_sorted lt (z1 @ z2)" if "lawful is_less lt"
      using z1(1,3) z2(1,3) that by (intro halves_sorted_append) simp_all
    have "wp (bidirectional_merge is_less (z1 @ z2) dst) (\<lambda>x (c, b). N x (c, map Some xs, b))
        (\<lambda>(c, b). U (c, map Some xs, b)) (c, ?b2)"
    proof (rule bidirectional_merge_at [where lt = lt])
      fix c zs assume zs: "mset zs = mset (z1 @ z2)"
        "lawful is_less lt \<Longrightarrow> halves_sorted lt (z1 @ z2) \<Longrightarrow> zs = merge_by lt (take 4 (z1 @ z2)) (drop 4 (z1 @ z2))"
      have l8: "length zs = 8" using mset_eq_length [OF zs(1)] z1(1) z2(1) by simp
      have "N () (c, map Some xs, wrote ?b2 dst zs)"
      proof (rule N)
        show "sorted_from is_less lt (take 8 (drop v_base xs)) zs"
          unfolding src using from12 zs z1(1) halves by (intro sorted_from_merge) simp_all
        show "segment (wrote ?b2 dst zs) dst zs" using l8 b2 len(2) by (intro segment_wrote) simp
        show "\<forall>p ys. segment b p ys \<longrightarrow> p + length ys \<le> dst \<or> dst + 8 \<le> p \<longrightarrow>
          p + length ys \<le> tmp \<or> tmp + 8 \<le> p \<longrightarrow> segment (wrote ?b2 dst zs) p ys"
          using l8 b1(1) b2 len z1(1) z2(1) by (intro allI impI segment_wrote_other) auto
      qed (use l8 b2 len(2) in simp)
      then show "case (c, wrote ?b2 dst zs) of (c, b) \<Rightarrow> N () (c, map Some xs, b)" by simp
    next
      fix c and m' :: "'a memory" assume "\<not> (lawful is_less lt \<and> halves_sorted lt (z1 @ z2))" "length m' = length ?b2"
      then show "case (c, m') of (c, b) \<Rightarrow> U (c, map Some xs, b)" using U [of m' c] halves b2 by auto
    qed (use z1(1) z2(1) b2 len(2) in simp_all)
    then show "wp (checks (UB Overlapping) (\<lambda>_. dst + 8 \<le> tmp \<or> tmp + 8 \<le> dst))
      (\<lambda>_. wp (reads (\<lambda>(c, v, b). slice_at b tmp (tmp + 8))) (\<lambda>src. wp (in_scratch (bidirectional_merge is_less src dst)) N U) U)
      U (c, map Some xs, ?b2)"
      using disjoint read by (simp add: wp_checks wp_reads wp_in_scratch)
  next
    show "\<And>c. \<not> computes is_less lt \<Longrightarrow> U (c, map Some xs, ?b1)" using U b1(1) by (auto simp: lawful_def)
  qed (use len b1 in simp_all)
next
  show "\<And>c. \<not> computes is_less lt \<Longrightarrow> U (c, map Some xs, b)" using U by (auto simp: lawful_def)
qed (use len in simp_all)

section \<open>The small sort\<close>

lemma segment_copied:
  "i < length xs \<Longrightarrow> j < length b \<Longrightarrow> segment (b[j := Some (xs ! i)]) j (take 1 (drop i xs))"
  by (simp add: segment_def take_Suc_conv_app_nth)

lemma presort_wp:
  fixes is_less :: "('c, 'a) closure" and xs :: "'a list"
  defines "h \<equiv> length xs div 2"
  assumes len: "2 \<le> length xs" "length xs + 16 \<le> length b"
    and N: "\<And>c b' p z1 z2. 1 \<le> p \<Longrightarrow> p \<le> h \<Longrightarrow> sorted_from is_less lt (take p xs) z1 \<Longrightarrow>
      sorted_from is_less lt (take p (drop h xs)) z2 \<Longrightarrow> length b' = length b \<Longrightarrow> segment b' 0 z1 \<Longrightarrow>
      segment b' h z2 \<Longrightarrow> N p (c, map Some xs, b')"
    and U: "\<And>c b'. \<not> lawful is_less lt \<Longrightarrow> length b' = length b \<Longrightarrow> U (c, map Some xs, b')"
  shows "wp (presort ty is_less (length xs)) N U (c, map Some xs, b)"
proof -
  have h: "0 < h" "2 * h \<le> length xs" using len(1) unfolding h_def by linarith+
  have Uc: "\<And>c b'. \<not> computes is_less lt \<Longrightarrow> length b' = length b \<Longrightarrow> U (c, map Some xs, b')"
    using U by (auto simp: lawful_def)
  consider "lay_size (ty_layout ty) \<le> 16 \<and> 16 \<le> length xs"
    | "\<not> (lay_size (ty_layout ty) \<le> 16 \<and> 16 \<le> length xs)" "8 \<le> length xs"
    | "\<not> (lay_size (ty_layout ty) \<le> 16 \<and> 16 \<le> length xs)" "\<not> 8 \<le> length xs" by blast
  then show ?thesis
  proof cases
    case 1
    then have h8: "8 \<le> h" unfolding h_def by linarith
    have "wp (sort8_stable is_less 0 0 (length xs)) (\<lambda>_. wp (sort8_stable is_less h h (length xs + 8)) (\<lambda>_. N 8) U) U
        (c, map Some xs, b)"
    proof (rule sort8_stable_wp [where lt = lt])
      fix c b1 z1 assume z1: "sorted_from is_less lt (take 8 (drop 0 xs)) z1" "length b1 = length b" "segment b1 0 z1"
      have l1: "length z1 = 8" using sorted_from_length [OF z1(1)] h8 h(2) by simp
      show "wp (sort8_stable is_less h h (length xs + 8)) (\<lambda>_. N 8) U (c, map Some xs, b1)"
      proof (rule sort8_stable_wp [where lt = lt])
        fix c b2 z2 assume z2: "sorted_from is_less lt (take 8 (drop h xs)) z2" "length b2 = length b1" "segment b2 h z2"
          and frame: "\<forall>p ys. segment b1 p ys \<longrightarrow> p + length ys \<le> h \<or> h + 8 \<le> p \<longrightarrow>
            p + length ys \<le> length xs + 8 \<or> length xs + 8 + 8 \<le> p \<longrightarrow> segment b2 p ys"
        have "segment b2 0 z1" using frame z1(3) l1 h8 h(2) by simp
        then show "N 8 (c, map Some xs, b2)" using N [of 8 z1 z2 b2 c] z1 z2 h8 by simp
      next
        show "\<And>c b'. \<not> lawful is_less lt \<Longrightarrow> length b' = length b1 \<Longrightarrow> U (c, map Some xs, b')"
          using U z1(2) by simp
      qed (use len z1(2) h8 h in simp_all)
    qed (use len U h h8 in simp_all)
    then show ?thesis using 1 by (simp add: presort_def wp_simps h_def [symmetric] Let_def)
  next
    case 2
    then have h4: "4 \<le> h" unfolding h_def by linarith
    have "wp (sort4_stable is_less 0 0) (\<lambda>_. wp (sort4_stable is_less h h) (\<lambda>_. N 4) U) U (c, map Some xs, b)"
    proof (rule sort4_stable_wp [where lt = lt])
      fix c z1 assume z1: "length z1 = 4" "mset z1 = mset (take 4 (drop 0 xs))"
        "lawful is_less lt \<Longrightarrow> sorted_by lt z1 \<and> stable_perm lt (take 4 (drop 0 xs)) z1"
      have l1: "length (wrote b 0 z1) = length b" using z1(1) len by simp
      show "wp (sort4_stable is_less h h) (\<lambda>_. N 4) U (c, map Some xs, wrote b 0 z1)"
      proof (rule sort4_stable_wp [where lt = lt])
        fix c z2 assume z2: "length z2 = 4" "mset z2 = mset (take 4 (drop h xs))"
          "lawful is_less lt \<Longrightarrow> sorted_by lt z2 \<and> stable_perm lt (take 4 (drop h xs)) z2"
        have fit: "h + length z2 \<le> length (wrote b 0 z1)" using z2(1) l1 len h h4 by simp
        have "segment (wrote (wrote b 0 z1) h z2) 0 z1"
          by (rule segment_wrote_other [OF fit]) (use z1(1) h4 len in \<open>simp_all add: segment_wrote\<close>)
        then show "N 4 (c, map Some xs, wrote (wrote b 0 z1) h z2)"
          using N [of 4 z1 z2 "wrote (wrote b 0 z1) h z2" c] z1 z2 h4 segment_wrote [OF fit] fit l1
          by (simp add: sorted_from_def)
      qed (use len h h4 l1 Uc in simp_all)
    qed (use len h h4 Uc in simp_all)
    then show ?thesis
      unfolding presort_def Let_def h_def [symmetric] if_not_P [OF 2(1)] if_P [OF 2(2)] wp_fun by simp
  next
    case 3
    have i: "0 < length xs" "h < length xs" "0 < length b" "h < length b" using h len by linarith+
    let ?b1 = "b[0 := Some (xs ! 0)]" and ?b2 = "b[0 := Some (xs ! 0), h := Some (xs ! h)]"
    have "segment ?b1 0 [xs ! 0]" using i by (simp add: segment_def)
    then have s: "segment ?b2 0 [xs ! 0]" "segment ?b2 h [xs ! h]" using h i by (simp_all add: segment_def)
    have "sorted_from is_less lt (take 1 xs) [xs ! 0]" "sorted_from is_less lt (take 1 (drop h xs)) [xs ! h]"
      using i by (simp_all add: take_Suc_conv_app_nth)
    then have "N 1 (c, map Some xs, ?b2)" using N [of 1 "[xs ! 0]" "[xs ! h]" ?b2 c] s h by simp
    moreover have "wp (copy_out 0 0 1) (\<lambda>_. wp (copy_out h h 1) (\<lambda>_. N 1) U) U (c, map Some xs, b) \<longleftrightarrow> N 1 (c, map Some xs, ?b2)"
      using i by (subst wp_copy_out_one, simp, simp, subst wp_copy_out_one, simp, simp, simp)
    ultimately show ?thesis
      unfolding presort_def Let_def h_def [symmetric] if_not_P [OF 3(1)] if_not_P [OF 3(2)] wp_fun by simp
  qed
qed

lemma extend_sorted_wp:
  fixes is_less :: "('c, 'a) closure"
  assumes p: "1 \<le> p" "p \<le> n" "off + n \<le> length xs" "off + n \<le> length b"
    and z: "sorted_from is_less lt (take p (drop off xs)) z" "segment b off z"
    and N: "\<And>c b' zs. sorted_from is_less lt (take n (drop off xs)) zs \<Longrightarrow> length b' = length b \<Longrightarrow>
      segment b' off zs \<Longrightarrow> (\<forall>q ys. segment b q ys \<longrightarrow> q + length ys \<le> off \<or> off + n \<le> q \<longrightarrow> segment b' q ys) \<Longrightarrow>
      N () (c, map Some xs, b')"
    and U: "\<And>c b'. \<not> lawful is_less lt \<Longrightarrow> length b' = length b \<Longrightarrow> U (c, map Some xs, b')"
  shows "wp (extend_sorted is_less off p n) N U (c, map Some xs, b)"
proof -
  let ?I = "\<lambda>i (c :: 'c, v, b'). v = map Some xs \<and> length b' = length b \<and>
    (\<exists>zs. sorted_from is_less lt (take i (drop off xs)) zs \<and> segment b' off zs) \<and>
    (\<forall>q ys. segment b q ys \<longrightarrow> q + length ys \<le> off \<or> off + n \<le> q \<longrightarrow> segment b' q ys)"
  show ?thesis
    unfolding extend_sorted_def
  proof (rule wp_for_each [where I = ?I])
    show "?I p (c, map Some xs, b)" using z by auto
  next
    fix i s assume i: "p \<le> i" "i < n" and "?I i s"
    obtain c v b1 where s: "s = (c, v, b1)" by (cases s) auto
    with \<open>?I i s\<close> obtain zs where I: "v = map Some xs" "length b1 = length b"
        "sorted_from is_less lt (take i (drop off xs)) zs" "segment b1 off zs"
        "\<forall>q ys. segment b q ys \<longrightarrow> q + length ys \<le> off \<or> off + n \<le> q \<longrightarrow> segment b1 q ys" by auto
    let ?x = "xs ! (off + i)"
    have lz: "length zs = i" using sorted_from_length [OF I(3)] i p by simp
    have bounds: "off + i < length xs" "off + i < length b1" using i p I(2) by simp_all
    let ?b2 = "b1[off + i := Some ?x]" and ?pre = "take off b1" and ?post = "drop (Suc (off + i)) b1"
    have b2: "?b2 = ?pre @ map Some (zs @ [?x]) @ ?post"
    proof -
      have "take i (drop off b1) = map Some zs"
        using segmentD [OF I(4)] lz bounds(2) by (intro nth_equalityI) simp_all
      then have "take (off + i) b1 = ?pre @ map Some zs" by (simp add: take_add)
      then show ?thesis using bounds(2) by (simp add: upd_conv_take_nth_drop)
    qed
    have take: "take (Suc i) (drop off xs) = take i (drop off xs) @ [?x]"
      using bounds(1) by (simp add: take_Suc_conv_app_nth)
    have keep: "length (?pre @ map Some zs' @ ?post) = length b \<and>
        (\<forall>q ys. segment b q ys \<longrightarrow> q + length ys \<le> off \<or> off + n \<le> q \<longrightarrow> segment (?pre @ map Some zs' @ ?post) q ys)"
      if "length zs' = Suc i" for zs'
    proof -
      have w: "?pre @ map Some zs' @ ?post = wrote b1 off zs'" using that by (simp add: wrote_def)
      have fit: "off + length zs' \<le> length b1" using that bounds(2) by simp
      show ?thesis
        unfolding w using fit I(2,5) that i by (auto intro!: segment_wrote_other)
    qed
    have "wp (insert_tail is_less (length ?pre) (length ?pre + length zs)) (\<lambda>_ (c, b). ?I (Suc i) (c, map Some xs, b))
        (\<lambda>(c, b). U (c, map Some xs, b)) (c, ?pre @ map Some (zs @ [?x]) @ ?post)"
    proof (rule insert_tail_wp [where lt = lt])
      show "zs \<noteq> []" using lz i p by auto
    next
      fix c zs' assume zs': "mset zs' = mset (zs @ [?x])"
        "lawful is_less lt \<Longrightarrow> sorted_by lt zs \<Longrightarrow> sorted_by lt zs' \<and> stable_perm lt (zs @ [?x]) zs'"
      have lz': "length zs' = Suc i" using mset_eq_length [OF zs'(1)] lz by simp
      have "sorted_from is_less lt (take (Suc i) (drop off xs)) zs'"
        unfolding sorted_from_def take
      proof (intro conjI impI)
        show "mset zs' = mset (take i (drop off xs) @ [?x])" using zs'(1) I(3) by (simp add: sorted_from_def)
        assume law: "lawful is_less lt"
        then have "sorted_by lt zs" "stable_perm lt (take i (drop off xs)) zs" using I(3) by (simp_all add: sorted_from_def)
        then show "sorted_by lt zs'" "stable_perm lt (take i (drop off xs) @ [?x]) zs'"
          using zs'(2) [OF law] stable_perm_trans [OF stable_perm_append [OF _ stable_perm_refl]] by blast+
      qed
      moreover have "segment (?pre @ map Some zs' @ ?post) off zs'"
        using lz' bounds(2) segment_wrote [of off zs' b1] by (simp add: wrote_def)
      ultimately show "case (c, ?pre @ map Some zs' @ ?post) of (c, b) \<Rightarrow> ?I (Suc i) (c, map Some xs, b)"
        using keep [OF lz'] by auto
    next
      fix c zs' assume zs': "mset zs' = mset (zs @ [?x])" "\<not> lawful is_less lt"
      have "length zs' = Suc i" using mset_eq_length [OF zs'(1)] lz by simp
      then show "case (c, ?pre @ map Some zs' @ ?post) of (c, b) \<Rightarrow> U (c, map Some xs, b)"
        using U [OF zs'(2)] keep [of zs'] by simp
    qed
    moreover have "length ?pre = off" using bounds by simp
    ultimately have ins: "wp (insert_tail is_less off (off + i)) (\<lambda>_ (c, b). ?I (Suc i) (c, map Some xs, b))
        (\<lambda>(c, b). U (c, map Some xs, b)) (c, ?b2)" using b2 lz by simp
    show "wp (bind (copy_out (off + i) (off + i) 1) (\<lambda>_. in_scratch (insert_tail is_less off (off + i))))
        (\<lambda>_. ?I (Suc i)) U s"
      unfolding s I(1) wp_bind by (subst wp_copy_out_one [OF bounds]) (use ins in \<open>simp add: wp_in_scratch split_def\<close>)
  next
    fix s assume "?I n s"
    then show "N () s" using N by auto
  qed (use p in simp)
qed

text \<open>The contract of the sorting programs: the slice is a permutation of what it was, however the
  program ends; for a lawful comparison it ends normally, with the slice sorted stably.\<close>

definition sort_done :: "('c, 'a) closure \<Rightarrow> ('a \<Rightarrow> 'a \<Rightarrow> bool) \<Rightarrow> 'a list \<Rightarrow> nat \<Rightarrow> 'c \<times> 'a memory \<times> 'a memory \<Rightarrow> bool" where
  "sort_done is_less lt xs n = (\<lambda>(c, v, b). length b = n \<and> (\<exists>ys. v = map Some ys \<and> sorted_from is_less lt xs ys))"

definition sort_unwound :: "('c, 'a) closure \<Rightarrow> ('a \<Rightarrow> 'a \<Rightarrow> bool) \<Rightarrow> 'a list \<Rightarrow> nat \<Rightarrow> 'c \<times> 'a memory \<times> 'a memory \<Rightarrow> bool" where
  "sort_unwound is_less lt xs n = (\<lambda>(c, v, b). \<not> lawful is_less lt \<and> length b = n \<and> (\<exists>ys. v = map Some ys \<and> mset ys = mset xs))"

definition sorts :: "('c, 'a) closure \<Rightarrow> ('a \<Rightarrow> 'a \<Rightarrow> bool) \<Rightarrow> ('c \<times> 'a memory \<times> 'a memory, unit) prog \<Rightarrow> 'a list \<Rightarrow> nat \<Rightarrow> bool" where
  "sorts is_less lt p xs n \<longleftrightarrow> (\<forall>c b. length b = n \<longrightarrow>
     wp p (\<lambda>_. sort_done is_less lt xs n) (sort_unwound is_less lt xs n) (c, map Some xs, b))"

lemma sort_doneI [intro]: "sorted_from is_less lt xs ys \<Longrightarrow> length b = n \<Longrightarrow> sort_done is_less lt xs n (c, map Some ys, b)"
  by (auto simp: sort_done_def)

lemma sort_unwoundI [intro]:
  "\<not> lawful is_less lt \<Longrightarrow> mset ys = mset xs \<Longrightarrow> length b = n \<Longrightarrow> sort_unwound is_less lt xs n (c, map Some ys, b)"
  by (auto simp: sort_unwound_def)

lemma sortsD:
  assumes "sorts is_less lt p xs n" "length b = n"
    and "\<And>c ys b'. sorted_from is_less lt xs ys \<Longrightarrow> length b' = n \<Longrightarrow> N () (c, map Some ys, b')"
    and "\<And>c ys b'. \<not> lawful is_less lt \<Longrightarrow> mset ys = mset xs \<Longrightarrow> length b' = n \<Longrightarrow> U (c, map Some ys, b')"
  shows "wp p N U (c, map Some xs, b)"
proof -
  have "wp p (\<lambda>_. sort_done is_less lt xs n) (sort_unwound is_less lt xs n) (c, map Some xs, b)"
    using assms(1,2) by (simp add: sorts_def)
  then show ?thesis
    by (rule wp_mono) (use assms(3,4) in \<open>auto simp: sort_done_def sort_unwound_def\<close>)
qed

lemma sorted_from_refl: "sorted_by lt xs \<Longrightarrow> sorted_from is_less lt xs xs"
  by (simp add: sorted_from_def)

lemma sorted_from_short: "length xs \<le> 1 \<Longrightarrow> sorted_from is_less lt xs xs"
  by (simp add: sorted_from_refl sorted_by_short)

lemma wp_reads_pure: "wp (reads (\<lambda>(c, v, b). Inr (f v b))) N U (c, v, b) \<longleftrightarrow> N (f v b) (c, v, b)"
  by (simp add: wp_reads)

lemma small_sort_general_sorts:
  fixes is_less :: "('c, 'a) closure"
  assumes "length xs + 16 \<le> n"
  shows "sorts is_less lt (small_sort_general_with_scratch ty is_less) xs n"
  unfolding sorts_def
proof (intro allI impI)
  fix c and b :: "'a memory" assume b: "length b = n"
  let ?D = "sort_done is_less lt xs n" and ?W = "sort_unwound is_less lt xs n"
  show "wp (small_sort_general_with_scratch ty is_less) (\<lambda>_. ?D) ?W (c, map Some xs, b)"
  proof (cases "length xs < 2")
    case True
    then have "?D (c, map Some xs, b)" using b by (intro sort_doneI sorted_from_short) simp_all
    then show ?thesis using True by (simp add: small_sort_general_with_scratch_def wp_simps wp_reads)
  next
    case False
    define h where "h = length xs div 2"
    have h: "1 \<le> h" "h \<le> length xs" "h \<le> length xs - h" using False unfolding h_def by linarith+
    let ?merge = "\<lambda>s. wp (reads (\<lambda>(c, v, b). slice_at b 0 (length xs)))
      (\<lambda>src. wp (on_unwind (in_slice (bidirectional_merge is_less src 0)) (copy_on_drop (length xs))) (\<lambda>_. ?D) ?W) ?W s"
    have unwound: "?W (c, map Some xs, b')" if "\<not> lawful is_less lt" "length b' = length b" for c b'
      using that b by (intro sort_unwoundI) simp_all
    have "wp (presort ty is_less (length xs)) (\<lambda>p. wp (extend_sorted is_less 0 p h) (\<lambda>_.
        wp (extend_sorted is_less h p (length xs - h)) (\<lambda>_. ?merge) ?W) ?W) ?W (c, map Some xs, b)"
    proof (rule presort_wp [where lt = lt and xs = xs, folded h_def])
      fix c b1 p z1 z2
      assume p: "1 \<le> p" "p \<le> h" "sorted_from is_less lt (take p xs) z1" "sorted_from is_less lt (take p (drop h xs)) z2"
        "length b1 = length b" "segment b1 0 z1" "segment b1 h z2"
      have lz2: "length z2 = p" using sorted_from_length [OF p(4)] p(2) h by simp
      show "wp (extend_sorted is_less 0 p h) (\<lambda>_. wp (extend_sorted is_less h p (length xs - h)) (\<lambda>_. ?merge) ?W) ?W
          (c, map Some xs, b1)"
      proof (rule extend_sorted_wp [where lt = lt])
        show "sorted_from is_less lt (take p (drop 0 xs)) z1" using p(3) by simp
      next
        fix c b2 s1
        assume s1: "sorted_from is_less lt (take h (drop 0 xs)) s1" "length b2 = length b1" "segment b2 0 s1"
          and frame1: "\<forall>q ys. segment b1 q ys \<longrightarrow> q + length ys \<le> 0 \<or> 0 + h \<le> q \<longrightarrow> segment b2 q ys"
        have ls1: "length s1 = h" using sorted_from_length [OF s1(1)] h by simp
        show "wp (extend_sorted is_less h p (length xs - h)) (\<lambda>_. ?merge) ?W (c, map Some xs, b2)"
        proof (rule extend_sorted_wp [where lt = lt])
          show "segment b2 h z2" using frame1 p(7) by simp
        next
          fix c b3 s2
          assume s2: "sorted_from is_less lt (take (length xs - h) (drop h xs)) s2" "length b3 = length b2" "segment b3 h s2"
            and frame2: "\<forall>q ys. segment b2 q ys \<longrightarrow> q + length ys \<le> h \<or> h + (length xs - h) \<le> q \<longrightarrow> segment b3 q ys"
          have ls2: "length s2 = length xs - h" using sorted_from_length [OF s2(1)] by simp
          let ?src = "s1 @ s2"
          have lsrc: "length ?src = length xs" using ls1 ls2 h by simp
          have "segment b3 0 s1" using frame2 s1(3) ls1 by simp
          then have seg: "segment b3 0 ?src" using s2(3) ls1 by (simp add: segment_append)
          then have read: "slice_at b3 0 (length xs) = Inr ?src" using segment_slice_0 lsrc by metis
          have "mset ?src = mset (take h xs @ drop h xs)"
            using s1(1) s2(1) unfolding mset_append by (simp add: sorted_from_def)
          then have mset: "mset ?src = mset xs" by simp
          have lb3: "length b3 = n" using s2(2) s1(2) p(5) b by simp
          have halves: "lawful is_less lt \<Longrightarrow> halves_sorted lt ?src"
            using s1(1) s2(1) ls1 lsrc by (intro halves_sorted_append) (simp_all add: sorted_from_def h_def)
          have "wp (bidirectional_merge is_less ?src 0) (\<lambda>_ (c, v). ?D (c, v, b3))
              (\<lambda>(c, v). \<exists>t. copy_on_drop (length xs) (c, v, b3) = Inr t \<and> ?W t) (c, map Some xs)"
          proof (rule bidirectional_merge_at [where lt = lt])
            show "h = length ?src div 2" using lsrc h_def by simp
          next
            fix c zs assume zs: "mset zs = mset ?src"
              "lawful is_less lt \<Longrightarrow> halves_sorted lt ?src \<Longrightarrow> zs = merge_by lt (take h ?src) (drop h ?src)"
            have "sorted_from is_less lt (take h xs @ drop h xs) zs"
              using s1(1) s2(1) zs ls1 halves by (intro sorted_from_merge) simp_all
            moreover have "wrote (map Some xs) 0 zs = map Some zs"
              using mset_eq_length [OF zs(1)] lsrc by (simp add: wrote_def)
            ultimately show "case (c, wrote (map Some xs) 0 zs) of (c, v) \<Rightarrow> ?D (c, v, b3)"
              using lb3 by (auto simp del: map_append)
          next
            fix c :: 'c and m' :: "'a memory"
            assume m': "\<not> (lawful is_less lt \<and> halves_sorted lt ?src)" "length m' = length (map Some xs)"
            have "take (length xs) b3 = map Some ?src"
              using segmentD [OF seg] lsrc by (intro nth_equalityI) (auto simp del: map_append)
            then have "copy_on_drop (length xs) (c, m', b3) = Inr (c, map Some ?src, b3)"
              using m'(2) segmentD(1) [OF seg] lsrc by (simp add: copy_on_drop_def)
            moreover have "?W (c, map Some ?src, b3)" using m'(1) halves mset lb3 by (intro sort_unwoundI) auto
            ultimately show "case (c, m') of (c, v) \<Rightarrow> \<exists>t. copy_on_drop (length xs) (c, v, b3) = Inr t \<and> ?W t"
              by auto
          qed (use lsrc False in simp_all)
          then show "?merge (c, map Some xs, b3)" using read by (simp add: wp_simps wp_reads split_def)
        next
          show "\<And>c b'. \<not> lawful is_less lt \<Longrightarrow> length b' = length b2 \<Longrightarrow> ?W (c, map Some xs, b')"
            using unwound s1(2) p(5) by simp
        qed (use p h assms b s1(2) in simp_all)
      next
        show "\<And>c b'. \<not> lawful is_less lt \<Longrightarrow> length b' = length b1 \<Longrightarrow> ?W (c, map Some xs, b')"
          using unwound p(5) by simp
      qed (use p h assms b in simp_all)
    qed (use False assms b unwound in simp_all)
    then show ?thesis using False assms b
      by (simp add: small_sort_general_with_scratch_def wp_fun wp_reads_pure Let_def h_def [symmetric])
  qed
qed

lemma small_sort_sorts:
  fixes is_less :: "('c, 'a) closure"
  assumes "length xs \<le> small_sort_threshold ty" "SMALL_SORT_GENERAL_SCRATCH_LEN \<le> n"
  shows "sorts is_less lt (small_sort ty is_less) xs n"
proof (cases "ty_freeze ty")
  case True
  then have "length xs + 16 \<le> n"
    using assms by (simp add: small_sort_threshold_def SMALL_SORT_GENERAL_THRESHOLD_def SMALL_SORT_GENERAL_SCRATCH_LEN_def)
  from small_sort_general_sorts [OF this] show ?thesis using True by (simp add: small_sort_def)
next
  case False
  show ?thesis
    unfolding sorts_def
  proof (intro allI impI)
    fix c and b :: "'a memory" assume b: "length b = n"
    let ?D = "sort_done is_less lt xs n" and ?W = "sort_unwound is_less lt xs n"
    have "wp (insertion_sort_shift_left is_less 1) (\<lambda>_ (c, v). ?D (c, v, b)) (\<lambda>(c, v). ?W (c, v, b)) (c, map Some xs)"
      if "2 \<le> length xs"
    proof (rule insertion_sort_wp [where lt = lt])
      fix c ys assume "mset ys = mset xs"
        "lawful is_less lt \<Longrightarrow> sorted_by lt (take 1 xs) \<Longrightarrow> sorted_by lt ys \<and> stable_perm lt xs ys"
      moreover have "sorted_by lt (take 1 xs)" by (rule sorted_by_short) simp
      ultimately have "sorted_from is_less lt xs ys" by (simp add: sorted_from_def)
      then show "case (c, map Some ys) of (c, v) \<Rightarrow> ?D (c, v, b)" using b by auto
    qed (use that b in auto)
    moreover have "?D (c, map Some xs, b)" if "\<not> 2 \<le> length xs"
      using that b by (intro sort_doneI sorted_from_short) simp_all
    ultimately show "wp (small_sort ty is_less) (\<lambda>_. ?D) ?W (c, map Some xs, b)"
      using False by (simp add: small_sort_def wp_simps split_def)
  qed
qed

end
