(* ===== verification/Sort_Merge.thy ===== *)
theory Sort_Merge
  imports Sort_Small_Correct
begin

text \<open>
  The merge of the stable sort (\<open>core/src/slice/sort/stable/merge.rs\<close>): the shorter run is saved in
  the scratch buffer, and the guard \<open>MergeState\<close> copies what is left of it back, also when the
  comparison panics.
\<close>

section \<open>Definitions\<close>

text \<open>\<open>start\<close> and \<open>end\<close> point into the scratch buffer, \<open>dst\<close> into the slice.\<close>

record merge_state =
  ms_start :: usize
  ms_end :: usize
  ms_dst :: usize

type_synonym ('c, 'a) merging_state = "'c \<times> merge_state \<times> 'a memory \<times> 'a memory"

definition ms_drop :: "('c, 'a) merging_state \<Rightarrow> ('c, 'a) merging_state res" where
  "ms_drop = (\<lambda>(c, ms, v, b).
     ensure (UB BrokenAssumption) (ms_start ms \<le> ms_end ms)
       (and_then (copy_between b (ms_start ms) v (ms_dst ms) (ms_end ms - ms_start ms)) (\<lambda>v.
         Inr (c, ms, v, b))))"

definition get_state :: "(('c, 'a) merging_state, merge_state) prog" where
  "get_state = reads (\<lambda>(c, ms, v, b). Inr ms)"

definition read_slice :: "usize \<Rightarrow> (('c, 'a) merging_state, 'a) prog" where
  "read_slice i = reads (\<lambda>(c, ms, v, b). ptr_read v i)"

definition read_buf :: "usize \<Rightarrow> (('c, 'a) merging_state, 'a) prog" where
  "read_buf i = reads (\<lambda>(c, ms, v, b). ptr_read b i)"

text \<open>The copy of one element to \<open>out\<close>, from the scratch buffer or within the slice, and the new
  pointers.\<close>

definition merge_copy :: "bool \<Rightarrow> usize \<Rightarrow> usize \<Rightarrow> merge_state \<Rightarrow> (('c, 'a) merging_state, unit) prog" where
  "merge_copy from_buf src out ms' = writes (\<lambda>(c, ms, v, b).
     and_then (if from_buf then copy_between b src v out 1 else ptr_copy_nonoverlapping v src out 1) (\<lambda>v.
       Inr (c, ms', v, b)))"

fun ms_merge_up ::
  "('c, 'a) closure \<Rightarrow> nat \<Rightarrow> usize \<Rightarrow> usize \<Rightarrow> (('c, 'a) merging_state, unit) prog" where
  "ms_merge_up is_less 0 right_end right = failing OutOfFuel"
| "ms_merge_up is_less (Suc n) right_end right =
     bind get_state (\<lambda>ms.
       if ms_start ms \<noteq> ms_end ms \<and> right \<noteq> right_end
       then bind (read_slice right) (\<lambda>x. bind (read_buf (ms_start ms)) (\<lambda>y. bind (call is_less x y) (\<lambda>r.
              let consume_left = \<not> r; src = (if consume_left then ms_start ms else right)
              in bind (merge_copy consume_left src (ms_dst ms)
                         (ms\<lparr>ms_start := ms_start ms + of_bool consume_left, ms_dst := ms_dst ms + 1\<rparr>))
                   (\<lambda>_. ms_merge_up is_less n right_end (right + of_bool (\<not> consume_left))))))
       else ret ())"

fun ms_merge_down ::
  "('c, 'a) closure \<Rightarrow> nat \<Rightarrow> usize \<Rightarrow> usize \<Rightarrow> usize \<Rightarrow> (('c, 'a) merging_state, unit) prog" where
  "ms_merge_down is_less 0 left_end right_end out = failing OutOfFuel"
| "ms_merge_down is_less (Suc n) left_end right_end out =
     bind get_state (\<lambda>ms.
       bind (checks (UB OutOfBounds) (\<lambda>_. 0 < ms_dst ms \<and> 0 < ms_end ms \<and> 0 < out)) (\<lambda>_.
         let left = ms_dst ms - 1; right = ms_end ms - 1; out = out - 1
         in bind (read_buf right) (\<lambda>x. bind (read_slice left) (\<lambda>y. bind (call is_less x y) (\<lambda>consume_left.
              let src = (if consume_left then left else right);
                  dst = left + of_bool (\<not> consume_left); stop = right + of_bool consume_left
              in bind (merge_copy (\<not> consume_left) src out (ms\<lparr>ms_dst := dst, ms_end := stop\<rparr>)) (\<lambda>_.
                   if dst = left_end \<or> stop = right_end then ret ()
                   else ms_merge_down is_less n left_end right_end out))))))"

definition merge :: "('c, 'a) closure \<Rightarrow> usize \<Rightarrow> ('c \<times> 'a memory \<times> 'a memory, unit) prog" where
  "merge is_less mid =
     bind (reads (\<lambda>(c, v, b). Inr (length v, length b))) (\<lambda>(len, scratch_len).
       if mid = 0 \<or> mid \<ge> len \<or> scratch_len < min mid (len - mid) then ret ()
       else let left_len = mid; right_len = len - mid; left_is_shorter = left_len \<le> right_len;
                save_base = (if left_is_shorter then 0 else mid);
                save_len = (if left_is_shorter then left_len else right_len)
            in bind (copy_out save_base 0 save_len) (\<lambda>_.
                 zoom (\<lambda>(c, v, b). (c, \<lparr>ms_start = 0, ms_end = save_len, ms_dst = save_base\<rparr>, v, b))
                      (\<lambda>_ (c, _, v, b). (c, v, b))
                   (on_drop (if left_is_shorter then ms_merge_up is_less (len + 1) len mid
                             else ms_merge_down is_less (len + 1) 0 0 len) ms_drop)))"

section \<open>Correctness\<close>

lemma wp_merging [wp_simps]:
  "wp get_state N U (c, ms, v, b) \<longleftrightarrow> N ms (c, ms, v, b)"
  "wp (read_slice i) N' U (c, ms, v, b) \<longleftrightarrow> i < length v \<and> (\<exists>x. v ! i = Some x \<and> N' x (c, ms, v, b))"
  "wp (read_buf i) N' U (c, ms, v, b) \<longleftrightarrow> i < length b \<and> (\<exists>x. b ! i = Some x \<and> N' x (c, ms, v, b))"
  by (auto simp: get_state_def read_slice_def read_buf_def wp_reads ptr_read_Inr_iff)

lemma wp_merge_copy:
  assumes "out < length v"
    and "from_buf \<Longrightarrow> src < length b \<and> b ! src = Some x"
    and "\<not> from_buf \<Longrightarrow> src < length v \<and> v ! src = Some x \<and> src \<noteq> out"
    and "N () (c, ms', v[out := Some x], b)"
  shows "wp (merge_copy from_buf src out ms') N U (c, ms, v, b)"
proof -
  have put: "take out v @ Some x # drop (Suc out) v = v[out := Some x]"
    using upd_conv_take_nth_drop [OF assms(1)] by simp
  show ?thesis
  proof (cases from_buf)
    case True
    then have "take 1 (drop src b) = [Some x]" using assms(2) by (simp add: take_Suc_conv_app_nth)
    then show ?thesis using True assms put by (simp add: merge_copy_def wp_writes)
  next
    case False
    then have "take 1 (drop src v) = [Some x]" using assms(3) by (simp add: take_Suc_conv_app_nth)
    moreover have "ptr_copy_nonoverlapping v src out 1 = Inr (move_slots v src out 1)"
      using assms(1,3) False by (intro ptr_copy_nonoverlapping_Inr) auto
    ultimately show ?thesis using False assms put by (simp add: merge_copy_def wp_writes move_slots_def)
  qed
qed

definition merged :: "bool \<Rightarrow> ('a \<Rightarrow> 'a \<Rightarrow> bool) \<Rightarrow> 'a list \<Rightarrow> 'a list \<Rightarrow> 'a list \<Rightarrow> bool" where
  "merged law lt L R zs \<longleftrightarrow> mset zs = mset (L @ R) \<and> (law \<longrightarrow> zs = merge_by lt L R)"

lemma merge_up_wp:
  fixes is_less :: "('c, 'a) closure" and lt :: "'a \<Rightarrow> 'a \<Rightarrow> bool" and L R :: "'a list"
  defines "law \<equiv> lawful is_less lt"
  assumes "i \<le> length L" "j \<le> length R" "(length L - i) + (length R - j) < n"
    and "length A = i + j" "length g = length L - i" "segment b 0 L"
    and "mset A = mset (take i L) + mset (take j R)"
    and "law \<Longrightarrow> merge_by lt L R = A @ merge_by lt (drop i L) (drop j R)"
    and N: "\<And>c ms v zs. ms_drop (c, ms, v, b) = Inr (c, ms, map Some zs, b) \<Longrightarrow> merged law lt L R zs \<Longrightarrow>
      N () (c, ms, v, b)"
    and U: "\<And>c ms v zs. ms_drop (c, ms, v, b) = Inr (c, ms, map Some zs, b) \<Longrightarrow> \<not> law \<Longrightarrow>
      mset zs = mset (L @ R) \<Longrightarrow> U (c, ms, v, b)"
  shows "wp (ms_merge_up is_less n (length L + length R) (length L + j)) N U
    (c, \<lparr>ms_start = i, ms_end = length L, ms_dst = i + j\<rparr>, map Some A @ g @ map Some (drop j R), b)"
  using assms(2-9)
proof (induction n arbitrary: i j A g c)
  case (Suc n)
  let ?ms = "\<lparr>ms_start = i, ms_end = length L, ms_dst = i + j\<rparr>" and ?v = "map Some A @ g @ map Some (drop j R)"
  let ?zs = "A @ drop i L @ drop j R"
  note bnd = Suc.prems(1-3) and A = Suc.prems(4) and g = Suc.prems(5) and seg = Suc.prems(6)
  have b: "length L \<le> length b" "\<And>k. k < length L \<Longrightarrow> b ! k = Some (L ! k)"
    using segmentD [OF seg] by simp_all
  have "take (length L - i) (drop i b) = map Some (drop i L)"
    using b bnd(1) by (intro nth_equalityI) simp_all
  then have drop: "ms_drop (c, ?ms, ?v, b) = Inr (c, ?ms, map Some ?zs, b)" for c
    using b(1) bnd(1) A g by (simp add: ms_drop_def)
  have "mset ?zs = mset (take i L @ drop i L) + mset (take j R @ drop j R)"
    unfolding mset_append using Suc.prems(7) by simp
  then have mset: "mset ?zs = mset (L @ R)" by simp
  show ?case
  proof (cases "i \<noteq> length L \<and> j \<noteq> length R")
    case False
    then have "law \<Longrightarrow> ?zs = merge_by lt L R" using Suc.prems(8) bnd by auto
    then have "N () (c, ?ms, ?v, b)" using mset by (intro N [OF drop]) (simp add: merged_def)
    then show ?thesis using False by (auto simp: wp_simps)
  next
    case True
    then have ij: "i < length L" "j < length R" using bnd by simp_all
    obtain y g' where g': "g = y # g'" using g ij(1) by (cases g) auto
    have R: "drop j R = R ! j # drop (Suc j) R" using ij(2) by (simp add: Cons_nth_drop_Suc)
    have at: "?v ! (length L + j) = Some (R ! j)" "length L + j < length ?v" "i + j < length ?v"
      using A g ij R by (simp_all add: nth_append)
    have put: "?v[i + j := x] = map Some A @ x # g' @ map Some (drop j R)" for x
      using A by (simp add: g' list_update_append)
    let ?next = "\<lambda>cl. wp (ms_merge_up is_less n (length L + length R) (length L + j + of_bool (\<not> cl))) N U"
    have "wp (call is_less (R ! j) (L ! i)) (\<lambda>r. wp (merge_copy (\<not> r) (if \<not> r then i else length L + j) (i + j)
        (?ms\<lparr>ms_start := i + of_bool (\<not> r), ms_dst := i + j + 1\<rparr>)) (\<lambda>_. ?next (\<not> r)) U) U (c, ?ms, ?v, b)"
    proof (rule wp_callI)
      fix r c assume r: "\<And>f. computes is_less f \<Longrightarrow> r = f (R ! j) (L ! i)"
      let ?x = "if r then R ! j else L ! i"
      let ?i = "i + of_bool (\<not> r)" and ?j = "j + of_bool r"
      let ?g = "if r then g' @ [Some (R ! j)] else g'"
      have step: "wp (ms_merge_up is_less n (length L + length R) (length L + ?j)) N U
          (c, \<lparr>ms_start = ?i, ms_end = length L, ms_dst = ?i + ?j\<rparr>, map Some (A @ [?x]) @ ?g @ map Some (drop ?j R), b)"
      proof (rule Suc.IH)
        show "mset (A @ [?x]) = mset (take ?i L) + mset (take ?j R)"
          using Suc.prems(7) take_Suc_conv_app_nth [OF ij(1)] take_Suc_conv_app_nth [OF ij(2)] by simp
        assume law
        then have "r = lt (R ! j) (L ! i)" using r by (simp add: law_def lawful_def)
        then show "merge_by lt L R = (A @ [?x]) @ merge_by lt (drop ?i L) (drop ?j R)"
          using Suc.prems(8) [OF \<open>law\<close>] Cons_nth_drop_Suc [OF ij(1)] R
            merge_by.simps(3) [of lt "L ! i" "drop (Suc i) L" "R ! j" "drop (Suc j) R"] by simp
      qed (use A g g' seg ij bnd in auto)
      have mem: "?v[i + j := Some ?x] = map Some (A @ [?x]) @ ?g @ map Some (drop ?j R)"
        using put [of "Some ?x"] R by simp
      show "wp (merge_copy (\<not> r) (if \<not> r then i else length L + j) (i + j)
        (?ms\<lparr>ms_start := i + of_bool (\<not> r), ms_dst := i + j + 1\<rparr>)) (\<lambda>_. ?next (\<not> r)) U (c, ?ms, ?v, b)"
      proof (rule wp_merge_copy [where x = ?x])
        show "\<not> \<not> r \<Longrightarrow> (if \<not> r then i else length L + j) < length ?v \<and>
            ?v ! (if \<not> r then i else length L + j) = Some ?x \<and> (if \<not> r then i else length L + j) \<noteq> i + j"
          using at ij by simp
        show "?next (\<not> r) (c, ?ms\<lparr>ms_start := i + of_bool (\<not> r), ms_dst := i + j + 1\<rparr>, ?v[i + j := Some ?x], b)"
          unfolding mem using step by (cases r) simp_all
      qed (use at b ij in auto)
    next
      fix c assume "\<And>f. \<not> computes is_less f"
      then show "U (c, ?ms, ?v, b)" using mset by (intro U [OF drop]) (auto simp: law_def lawful_def)
    qed
    then show ?thesis using True at b ij by (simp add: wp_simps Let_def cong: if_cong)
  qed
qed simp

lemma merge_down_wp:
  fixes is_less :: "('c, 'a) closure" and lt :: "'a \<Rightarrow> 'a \<Rightarrow> bool" and L R :: "'a list"
  defines "law \<equiv> lawful is_less lt"
  assumes "0 < i" "0 < j" "i \<le> length L" "j \<le> length R" "i + j < n"
    and "length g = j" "segment b 0 R" "i + j + length B = length L + length R"
    and "mset B = mset (drop i L) + mset (drop j R)"
    and "law \<Longrightarrow> merge_by lt L R = merge_by lt (take i L) (take j R) @ B"
    and sorted: "law \<Longrightarrow> sorted_by lt L \<and> sorted_by lt R"
    and N: "\<And>c ms v zs. ms_drop (c, ms, v, b) = Inr (c, ms, map Some zs, b) \<Longrightarrow> merged law lt L R zs \<Longrightarrow>
      N () (c, ms, v, b)"
    and U: "\<And>c ms v zs. ms_drop (c, ms, v, b) = Inr (c, ms, map Some zs, b) \<Longrightarrow> \<not> law \<Longrightarrow>
      mset zs = mset (L @ R) \<Longrightarrow> U (c, ms, v, b)"
  shows "wp (ms_merge_down is_less n 0 0 (i + j)) N U
    (c, \<lparr>ms_start = 0, ms_end = j, ms_dst = i\<rparr>, map Some (take i L) @ g @ map Some B, b)"
  using assms(2-11)
proof (induction n arbitrary: i j B g c)
  case (Suc n)
  let ?ms = "\<lambda>i j. \<lparr>ms_start = 0, ms_end = j, ms_dst = i\<rparr>" and ?v = "\<lambda>i g B. map Some (take i L) @ g @ map Some B"
  note ij = Suc.prems(1-4) and g = Suc.prems(6) and seg = Suc.prems(7)
  have b: "length R \<le> length b" "\<And>k. k < length R \<Longrightarrow> b ! k = Some (R ! k)"
    using segmentD [OF seg] by simp_all
  have drop: "ms_drop (c, ?ms i j, ?v i g B, b) = Inr (c, ?ms i j, map Some (take i L @ take j R @ B), b)"
    if "i \<le> length L" "j \<le> length R" "length g = j" for c i j g B
  proof -
    have "take j b = map Some (take j R)" using b that(2) by (intro nth_equalityI) simp_all
    then show ?thesis using b(1) that by (simp add: ms_drop_def)
  qed
  have mset: "mset (take i L @ take j R @ B) = mset (L @ R)"
    if "mset B = mset (drop i L) + mset (drop j R)" for i j B
  proof -
    have "mset (take i L @ take j R @ B) = mset (take i L @ drop i L) + mset (take j R @ drop j R)"
      unfolding mset_append using that by simp
    then show ?thesis by simp
  qed
  obtain i' j' where i': "i = Suc i'" "j = Suc j'" using ij(1,2) by (metis gr0_conv_Suc)
  obtain g' z where g': "g = g' @ [z]" "length g' = j'" using g i' by (metis length_Suc_conv_rev)
  have lt': "i' < length L" "j' < length R" using ij i' by simp_all
  have tk: "take i L = take i' L @ [L ! i']" "take j R = take j' R @ [R ! j']"
    unfolding i' by (simp_all add: take_Suc_conv_app_nth lt')
  have at: "?v i g B ! i' = Some (L ! i')" "i' < length (?v i g B)" "i + j - 1 < length (?v i g B)"
    using lt' g' i' by (simp_all add: nth_append)
  have put: "(?v i g B)[i + j - 1 := Some x] = map Some (take i L) @ g' @ map Some (x # B)" for x
    using lt' g' i' by (simp add: list_update_append)
  let ?next = "\<lambda>cl. wp (if i' + of_bool (\<not> cl) = 0 \<or> j' + of_bool cl = 0 then ret ()
      else ms_merge_down is_less n 0 0 (i + j - 1)) N U"
  have "wp (call is_less (R ! j') (L ! i')) (\<lambda>r. wp (merge_copy (\<not> r) (if r then i' else j') (i + j - 1)
      ((?ms i j)\<lparr>ms_dst := i' + of_bool (\<not> r), ms_end := j' + of_bool r\<rparr>)) (\<lambda>_. ?next r) U) U (c, ?ms i j, ?v i g B, b)"
  proof (rule wp_callI)
    fix r c assume r: "\<And>f. computes is_less f \<Longrightarrow> r = f (R ! j') (L ! i')"
    let ?x = "if r then L ! i' else R ! j'"
    let ?i = "i' + of_bool (\<not> r)" and ?j = "j' + of_bool r"
    let ?g = "if r then Some (L ! i') # g' else g'"
    have mem: "(?v i g B)[i + j - 1 := Some ?x] = ?v ?i ?g (?x # B)"
      using put tk by (simp add: i')
    have bag: "mset (?x # B) = mset (drop ?i L) + mset (drop ?j R)"
      using Suc.prems(9) Cons_nth_drop_Suc [OF lt'(1), symmetric] Cons_nth_drop_Suc [OF lt'(2), symmetric] i' by simp
    have bnd: "?i \<le> length L" "?j \<le> length R" "length ?g = ?j" using lt' g' by simp_all
    have rest: "merge_by lt L R = merge_by lt (take ?i L) (take ?j R) @ ?x # B" if law
    proof -
      have "r = lt (R ! j') (L ! i')" and sw: "strict_weak lt"
        using r that by (simp_all add: law_def lawful_def)
      moreover have "sorted_by lt (take i L)" "sorted_by lt (take j R)"
        using sorted [OF that] by (simp_all add: sorted_by_take)
      ultimately show ?thesis
        using Suc.prems(10) [OF that] merge_by_back [OF sw, of "take i' L" "L ! i'" "take j' R" "R ! j'"]
        unfolding tk by (simp add: tk [unfolded i'])
    qed
    have "?next r (c, ?ms ?i ?j, ?v ?i ?g (?x # B), b)"
    proof (cases "?i = 0 \<or> ?j = 0")
      case True
      then have "law \<Longrightarrow> take ?i L @ take ?j R @ ?x # B = merge_by lt L R" using rest by auto
      then have "N () (c, ?ms ?i ?j, ?v ?i ?g (?x # B), b)"
        using mset [OF bag] by (intro N [OF drop [OF bnd]]) (simp add: merged_def)
      then show ?thesis using True by (simp add: wp_ret)
    next
      case False
      have "wp (ms_merge_down is_less n 0 0 (?i + ?j)) N U (c, ?ms ?i ?j, ?v ?i ?g (?x # B), b)"
        by (rule Suc.IH) (use False bnd seg bag rest Suc.prems(5,8) i' in auto)
      moreover have "?i + ?j = i + j - 1" using i' by simp
      ultimately show ?thesis by (simp only: if_not_P [OF False])
    qed
    then show "wp (merge_copy (\<not> r) (if r then i' else j') (i + j - 1)
      ((?ms i j)\<lparr>ms_dst := i' + of_bool (\<not> r), ms_end := j' + of_bool r\<rparr>)) (\<lambda>_. ?next r) U (c, ?ms i j, ?v i g B, b)"
      unfolding mem [symmetric] by (intro wp_merge_copy [where x = ?x]) (use at b lt' i' in auto)
  next
    fix c assume "\<And>f. \<not> computes is_less f"
    then show "U (c, ?ms i j, ?v i g B, b)" using mset [OF Suc.prems(9)]
      by (intro U [OF drop]) (use ij g in \<open>auto simp: law_def lawful_def\<close>)
  qed
  then show ?case using i' at b lt' by (simp add: wp_simps Let_def cong: if_cong)
qed simp

lemma merge_wp:
  fixes is_less :: "('c, 'a) closure" and lt :: "'a \<Rightarrow> 'a \<Rightarrow> bool" and L R :: "'a list"
  assumes room: "min (length L) (length R) \<le> length b"
    and sorted: "lawful is_less lt \<Longrightarrow> sorted_by lt L \<and> sorted_by lt R"
    and N: "\<And>c zs b'. merged (lawful is_less lt) lt L R zs \<Longrightarrow> length b' = length b \<Longrightarrow> N () (c, map Some zs, b')"
    and U: "\<And>c zs b'. \<not> lawful is_less lt \<Longrightarrow> mset zs = mset (L @ R) \<Longrightarrow> length b' = length b \<Longrightarrow>
      U (c, map Some zs, b')"
  shows "wp (merge is_less (length L)) N U (c, map Some (L @ R), b)"
proof (cases "L = [] \<or> R = []")
  case True
  then have "merge_by lt L R = L @ R" by auto
  then have "N () (c, map Some (L @ R), b)" by (intro N) (simp_all add: merged_def)
  then show ?thesis using True by (auto simp: merge_def wp_simps wp_reads)
next
  case False
  let ?S = "if length L \<le> length R then L else R"
  let ?b = "take 0 b @ map Some ?S @ drop (0 + length ?S) b"
  have fit: "length ?S \<le> length b" using room by (simp add: min_def split: if_splits)
  have lb: "length ?b = length b" using fit by simp
  have seg: "segment ?b 0 ?S" using fit by (simp add: segment_def nth_append)
  let ?ms = "\<lparr>ms_start = 0, ms_end = length ?S, ms_dst = if length L \<le> length R then 0 else length L\<rparr>"
  let ?N = "\<lambda>x s. \<exists>t. ms_drop s = Inr t \<and> N x (case t of (c, _, v, b) \<Rightarrow> (c, v, b))"
  let ?U = "\<lambda>s. \<exists>t. ms_drop s = Inr t \<and> U (case t of (c, _, v, b) \<Rightarrow> (c, v, b))"
  have "wp (if length L \<le> length R then ms_merge_up is_less (length (L @ R) + 1) (length (L @ R)) (length L)
        else ms_merge_down is_less (length (L @ R) + 1) 0 0 (length (L @ R))) ?N ?U (c, ?ms, map Some (L @ R), ?b)"
  proof (cases "length L \<le> length R")
    case True
    have "wp (ms_merge_up is_less (length (L @ R) + 1) (length L + length R) (length L + 0)) ?N ?U
        (c, \<lparr>ms_start = 0, ms_end = length L, ms_dst = 0 + 0\<rparr>, map Some [] @ map Some L @ map Some (drop 0 R), ?b)"
    proof (rule merge_up_wp [where lt = lt])
      fix c :: 'c and ms v zs assume "ms_drop (c, ms, v, ?b) = Inr (c, ms, map Some zs, ?b)" "merged (lawful is_less lt) lt L R zs"
      then show "?N () (c, ms, v, ?b)" using N [of zs ?b c] lb by simp
    next
      fix c :: 'c and ms v zs assume "ms_drop (c, ms, v, ?b) = Inr (c, ms, map Some zs, ?b)" "\<not> lawful is_less lt" "mset zs = mset (L @ R)"
      then show "?U (c, ms, v, ?b)" using U [of zs ?b c] lb by simp
    qed (use seg True in simp_all)
    then show ?thesis using True by simp
  next
    case False
    note longer = this
    have "wp (ms_merge_down is_less (length (L @ R) + 1) 0 0 (length L + length R)) ?N ?U
        (c, \<lparr>ms_start = 0, ms_end = length R, ms_dst = length L\<rparr>, map Some (take (length L) L) @ map Some R @ map Some [], ?b)"
    proof (rule merge_down_wp [where lt = lt])
      fix c :: 'c and ms v zs assume "ms_drop (c, ms, v, ?b) = Inr (c, ms, map Some zs, ?b)" "merged (lawful is_less lt) lt L R zs"
      then show "?N () (c, ms, v, ?b)" using N [of zs ?b c] lb by simp
    next
      fix c :: 'c and ms v zs assume "ms_drop (c, ms, v, ?b) = Inr (c, ms, map Some zs, ?b)" "\<not> lawful is_less lt" "mset zs = mset (L @ R)"
      then show "?U (c, ms, v, ?b)" using U [of zs ?b c] lb by simp
    qed (use seg longer sorted \<open>\<not> (L = [] \<or> R = [])\<close> in simp_all)
    then show ?thesis using False by simp
  qed
  then show ?thesis using False room fit
    by (cases "length L \<le> length R")
      (simp_all add: merge_def wp_fun wp_reads_pure Let_def wp_copy_out wp_zoom wp_on_drop min_def
        del: ms_merge_up.simps ms_merge_down.simps cong: if_cong)
qed

end
