(* ===== verification/Sort_Partition.thy ===== *)
theory Sort_Partition
  imports Sort_Merge
begin

text \<open>
  The choice of a pivot (\<open>core/src/slice/sort/shared/pivot.rs\<close>) and the stable partition of a slice
  around it (\<open>stable/quicksort.rs\<close>).
\<close>

section \<open>The pivot\<close>

definition PSEUDO_MEDIAN_REC_THRESHOLD :: usize where "PSEUDO_MEDIAN_REC_THRESHOLD = 64"

definition median3 :: "('c, 'a) closure \<Rightarrow> usize \<Rightarrow> usize \<Rightarrow> usize \<Rightarrow> ('c \<times> 'a memory, usize) prog" where
  "median3 is_less a b c =
     bind (less_at is_less a b) (\<lambda>x. bind (less_at is_less a c) (\<lambda>y.
       if x = y then bind (less_at is_less b c) (\<lambda>z. ret (if z \<noteq> x then c else b))
       else ret a))"

function median3_rec ::
  "('c, 'a) closure \<Rightarrow> usize \<Rightarrow> usize \<Rightarrow> usize \<Rightarrow> usize \<Rightarrow> ('c \<times> 'a memory, usize) prog" where
  "median3_rec is_less a b c n =
     (if n * 8 \<ge> PSEUDO_MEDIAN_REC_THRESHOLD
      then let n8 = n div 8
           in bind (median3_rec is_less a (a + n8 * 4) (a + n8 * 7) n8) (\<lambda>a.
              bind (median3_rec is_less b (b + n8 * 4) (b + n8 * 7) n8) (\<lambda>b.
              bind (median3_rec is_less c (c + n8 * 4) (c + n8 * 7) n8) (\<lambda>c.
                median3 is_less a b c)))
      else median3 is_less a b c)"
  by pat_completeness auto

termination
  by (relation "measure (\<lambda>(_, _, _, _, n). n)") (auto simp: PSEUDO_MEDIAN_REC_THRESHOLD_def)

declare median3_rec.simps [simp del]

definition choose_pivot :: "('c, 'a) closure \<Rightarrow> ('c \<times> 'a memory, usize) prog" where
  "choose_pivot is_less =
     bind slice_len (\<lambda>len.
       if len < 8 then failing Abort
       else let len_div_8 = len div 8; a = 0; b = len_div_8 * 4; c = len_div_8 * 7
            in bind (if len < PSEUDO_MEDIAN_REC_THRESHOLD then median3 is_less a b c
                     else median3_rec is_less a b c len_div_8) (\<lambda>index.
                 bind (checks (UB BrokenAssumption) (\<lambda>(c, v). index < length v)) (\<lambda>_. ret index)))"

lemma wp_less_at_list:
  assumes "i < length xs" "j < length xs" "\<And>r c. N r (c, map Some xs)"
    and "\<And>c. (\<And>f. \<not> computes is_less f) \<Longrightarrow> U (c, map Some xs)"
  shows "wp (less_at is_less i j) N U (c, map Some xs)"
  by (rule wp_less_atI [where x = "xs ! i" and y = "xs ! j"]) (use assms in auto)

lemma median3_wp:
  assumes "a < length xs" "b < length xs" "c < length xs"
    and "\<And>i s. i < length xs \<Longrightarrow> N i (s, map Some xs)"
    and "\<And>s. (\<And>f. \<not> computes is_less f) \<Longrightarrow> U (s, map Some xs)"
  shows "wp (median3 is_less a b c) N U (s, map Some xs)"
  unfolding median3_def wp_fun
  by (intro wp_less_at_list assms) (auto simp: wp_simps intro!: wp_less_at_list assms)

lemma median3_rec_wp:
  assumes "a + n \<le> length xs" "b + n \<le> length xs" "c + n \<le> length xs" "0 < n"
    and "\<And>i s. i < length xs \<Longrightarrow> N i (s, map Some xs)"
    and "\<And>s. (\<And>f. \<not> computes is_less f) \<Longrightarrow> U (s, map Some xs)"
  shows "wp (median3_rec is_less a b c n) N U (s, map Some xs)"
  using assms
proof (induction is_less a b c n arbitrary: N s rule: median3_rec.induct)
  case (1 is_less a b c n)
  note U = 1(9)
  show ?case
  proof (cases "n * 8 \<ge> PSEUDO_MEDIAN_REC_THRESHOLD")
    case True
    define n8 where "n8 = n div 8"
    have n: "0 < n8" "n8 * 8 \<le> n" using True by (auto simp: n8_def PSEUDO_MEDIAN_REC_THRESHOLD_def)
    have IH: "wp (median3_rec is_less p (p + n8 * 4) (p + n8 * 7) n8) N' U (s, map Some xs)"
      if "p \<in> {a, b, c}" "\<And>i s. i < length xs \<Longrightarrow> N' i (s, map Some xs)" for p N' s
    proof -
      have bnd: "p + n \<le> length xs" using that(1) 1(4-6) by auto
      from that(1) consider "p = a" | "p = b" | "p = c" by blast
      then show ?thesis
      proof cases
        case 1
        show ?thesis unfolding 1
          by (rule "1.IH"(1) [OF True n8_def]) (use bnd n that(2) U 1 in auto)
      next
        case 2
        show ?thesis unfolding 2
          by (rule "1.IH"(2) [OF True n8_def]) (use bnd n that(2) U 2 in auto)
      next
        case 3
        show ?thesis unfolding 3
          by (rule "1.IH"(3) [OF True n8_def]) (use bnd n that(2) U 3 in auto)
      qed
    qed
    have "wp (median3_rec is_less a (a + n8 * 4) (a + n8 * 7) n8) (\<lambda>a'.
      wp (median3_rec is_less b (b + n8 * 4) (b + n8 * 7) n8) (\<lambda>b'.
      wp (median3_rec is_less c (c + n8 * 4) (c + n8 * 7) n8) (\<lambda>c'. wp (median3 is_less a' b' c') N U) U) U) U
      (s, map Some xs)"
      by (rule IH, simp, rule IH, simp, rule IH, simp, rule median3_wp) (use 1(8) U in auto)
    then show ?thesis using True
      by (subst median3_rec.simps) (simp add: Let_def wp_fun n8_def)
  next
    case False
    have "wp (median3 is_less a b c) N U (s, map Some xs)"
      by (rule median3_wp) (use 1 in auto)
    then show ?thesis using False by (subst median3_rec.simps) simp
  qed
qed

lemma choose_pivot_wp:
  assumes "8 \<le> length xs" "\<And>i s. i < length xs \<Longrightarrow> N i (s, map Some xs)"
    and "\<And>s. (\<And>f. \<not> computes is_less f) \<Longrightarrow> U (s, map Some xs)"
  shows "wp (choose_pivot is_less) N U (s, map Some xs)"
proof -
  define q where "q = length xs div 8"
  have q: "0 < q" "q * 8 \<le> length xs" using assms(1) unfolding q_def by (auto simp: div_greater_zero_iff)
  have N: "wp (bind (checks (UB BrokenAssumption) (\<lambda>(c, v). i < length v)) (\<lambda>_. ret i)) N U (s, map Some xs)"
    if "i < length xs" for i s
    using that assms(2) by (simp add: wp_simps)
  note N' = N [simplified wp_fun]
  have "wp (median3 is_less 0 (q * 4) (q * 7))
      (\<lambda>i. wp (checks (UB BrokenAssumption) (\<lambda>(c, v). i < length v)) (\<lambda>_. N i) U) U (s, map Some xs)"
    by (rule median3_wp) (use q N' assms(3) in auto)
  moreover have "wp (median3_rec is_less 0 (q * 4) (q * 7) q)
      (\<lambda>i. wp (checks (UB BrokenAssumption) (\<lambda>(c, v). i < length v)) (\<lambda>_. N i) U) U (s, map Some xs)"
    by (rule median3_rec_wp) (use q N' assms(3) in auto)
  ultimately show ?thesis using assms(1)
    by (simp add: choose_pivot_def wp_slice_len wp_fun wp_if Let_def q_def [symmetric])
qed

section \<open>The partition\<close>

text \<open>The scratch buffer starts at index 0: the pointer \<open>scratch_base\<close> is no field.\<close>

record partition_state =
  ps_scan :: usize
  ps_num_left :: usize
  ps_scratch_rev :: usize

definition partition_new :: "usize \<Rightarrow> partition_state" where
  "partition_new len = \<lparr>ps_scan = 0, ps_num_left = 0, ps_scratch_rev = len\<rparr>"

definition partition_one ::
  "bool \<Rightarrow> partition_state \<Rightarrow> ('c \<times> 'a memory \<times> 'a memory, partition_state \<times> usize) prog" where
  "partition_one towards_left st =
     bind (checks (UB OutOfBounds) (\<lambda>_. 0 < ps_scratch_rev st)) (\<lambda>_.
       let scratch_rev = ps_scratch_rev st - 1;
           dst = (if towards_left then 0 else scratch_rev) + ps_num_left st
       in bind (copy_out (ps_scan st) dst 1) (\<lambda>_.
            ret (\<lparr>ps_scan = ps_scan st + 1, ps_num_left = ps_num_left st + of_bool towards_left,
                  ps_scratch_rev = scratch_rev\<rparr>, dst)))"

text \<open>One turn of the inner loops handles \<open>k\<close> elements: four in the unrolled loop, else one.\<close>

primrec partition_steps ::
  "('c, 'a) closure \<Rightarrow> usize \<Rightarrow> nat \<Rightarrow> partition_state \<Rightarrow>
    ('c \<times> 'a memory \<times> 'a memory, partition_state) prog" where
  "partition_steps is_less pivot 0 st = ret st"
| "partition_steps is_less pivot (Suc k) st =
     bind (in_slice (less_at is_less (ps_scan st) pivot)) (\<lambda>r.
     bind (partition_one r st) (\<lambda>(st, _). partition_steps is_less pivot k st))"

primrec partition_while ::
  "('c, 'a) closure \<Rightarrow> usize \<Rightarrow> nat \<Rightarrow> usize \<Rightarrow> nat \<Rightarrow> partition_state \<Rightarrow>
    ('c \<times> 'a memory \<times> 'a memory, partition_state) prog" where
  "partition_while is_less pivot k stop 0 st = failing OutOfFuel"
| "partition_while is_less pivot k stop (Suc n) st =
     (if ps_scan st < stop
      then bind (partition_steps is_less pivot k st) (\<lambda>st. partition_while is_less pivot k stop n st)
      else ret st)"

definition UNROLL_LEN :: usize where "UNROLL_LEN = 4"

text \<open>The loops up to \<open>loop_end_pos\<close>, with fuel for one turn per element.\<close>

definition partition_until ::
  "sort_type \<Rightarrow> ('c, 'a) closure \<Rightarrow> usize \<Rightarrow> usize \<Rightarrow> partition_state \<Rightarrow>
    ('c \<times> 'a memory \<times> 'a memory, partition_state) prog" where
  "partition_until ty is_less pivot loop_end_pos st =
     bind (if lay_size (ty_layout ty) \<le> 16
           then partition_while is_less pivot UNROLL_LEN (loop_end_pos - (UNROLL_LEN - 1)) (loop_end_pos + 1) st
           else ret st)
       (partition_while is_less pivot 1 loop_end_pos (loop_end_pos + 1))"

definition stable_partition ::
  "sort_type \<Rightarrow> ('c, 'a) closure \<Rightarrow> usize \<Rightarrow> bool \<Rightarrow> ('c \<times> 'a memory \<times> 'a memory, usize) prog" where
  "stable_partition ty is_less pivot_pos pivot_goes_left =
     bind (reads (\<lambda>(c, v, b). Inr (length v, length b))) (\<lambda>(len, scratch_len).
       if scratch_len < len \<or> pivot_pos \<ge> len then failing Abort
       else bind (partition_until ty is_less pivot_pos pivot_pos (partition_new len)) (\<lambda>st.
            bind (partition_one pivot_goes_left st) (\<lambda>(st, pivot_in_scratch).
            bind (partition_until ty is_less pivot_pos len st) (\<lambda>st.
            bind (if \<not> ty_freeze ty then copy_out pivot_pos pivot_in_scratch 1 else ret ()) (\<lambda>_.
            bind (copy_back 0 0 (ps_num_left st)) (\<lambda>_.
            bind (for_each [0..<len - ps_num_left st] (\<lambda>i.
                    copy_back (len - 1 - i) (ps_num_left st + i) 1)) (\<lambda>_.
              ret (ps_num_left st))))))))"


section \<open>Correctness\<close>

text \<open>After \<open>i\<close> elements: \<open>A\<close> at the start of the scratch buffer, \<open>B\<close> reversed at its end. A slot of
  \<open>keep\<close> holds the pivot.\<close>

definition partitioned ::
  "bool \<Rightarrow> ('a \<Rightarrow> bool) \<Rightarrow> 'a list \<Rightarrow> 'a \<Rightarrow> usize set \<Rightarrow> nat \<Rightarrow> 'a list \<Rightarrow> 'a list \<Rightarrow> partition_state \<Rightarrow> 'a memory \<Rightarrow> bool" where
  "partitioned law P xs p keep i A B st b \<longleftrightarrow>
     st = \<lparr>ps_scan = i, ps_num_left = length A, ps_scratch_rev = length xs - i\<rparr> \<and>
     i \<le> length xs \<and> length A + length B = i \<and> segment b 0 A \<and> segment b (length xs - length B) (rev B) \<and>
     mset A + mset B = mset (take i xs) \<and>
     (law \<longrightarrow> A = filter P (take i xs) \<and> B = filter (\<lambda>x. \<not> P x) (take i xs)) \<and>
     (\<forall>d \<in> keep. b ! d = Some p \<and> (d < length A \<or> length xs - length B \<le> d \<and> d < length xs))"

lemma copy_out_one:
  assumes "i < length xs" "d < length b"
  shows "wp (copy_out i d 1) N U (c, map Some xs, b) \<longleftrightarrow> N () (c, map Some xs, b[d := Some (xs ! i)])"
proof -
  have "take (Suc 0) (drop i xs) = [xs ! i]" using assms(1) by (simp add: take_Suc_conv_app_nth)
  then show ?thesis
    using assms upd_conv_take_nth_drop [OF assms(2), of "Some (xs ! i)"]
    by (simp add: wp_copy_out drop_map take_map)
qed

lemma partition_one_wp:
  assumes part: "partitioned law P xs p keep i A B st b" and i: "i < length xs" "length xs \<le> length b"
    and left: "law \<Longrightarrow> left = P (xs ! i)"
    and N: "\<And>A' B' st' dst. partitioned law P xs p (keep \<union> {d. d = dst \<and> xs ! i = p}) (Suc i) A' B' st' (b[dst := Some (xs ! i)]) \<Longrightarrow>
      (left \<longrightarrow> A' \<noteq> []) \<Longrightarrow> (\<not> left \<longrightarrow> B' \<noteq> []) \<Longrightarrow> length A \<le> length A' \<Longrightarrow> length B \<le> length B' \<Longrightarrow>
      N (st', dst) (c, map Some xs, b[dst := Some (xs ! i)])"
  shows "wp (partition_one left st) N U (c, map Some xs, b)"
proof -
  have st: "st = \<lparr>ps_scan = i, ps_num_left = length A, ps_scratch_rev = length xs - i\<rparr>"
    and len: "length A + length B = i" and seg: "segment b 0 A" "segment b (length xs - length B) (rev B)"
    and bag: "mset A + mset B = mset (take i xs)"
    and law: "law \<Longrightarrow> A = filter P (take i xs) \<and> B = filter (\<lambda>x. \<not> P x) (take i xs)"
    and keep: "\<And>d. d \<in> keep \<Longrightarrow> b ! d = Some p \<and> (d < length A \<or> length xs - length B \<le> d \<and> d < length xs)"
    using part unfolding partitioned_def by auto
  let ?dst = "if left then length A else length xs - Suc (length B)"
  let ?A = "if left then A @ [xs ! i] else A" and ?B = "if left then B else B @ [xs ! i]"
  let ?st = "\<lparr>ps_scan = Suc i, ps_num_left = length A + of_bool left, ps_scratch_rev = length xs - Suc i\<rparr>"
  let ?b = "b[?dst := Some (xs ! i)]"
  have dst: "?dst < length b" "?dst < length xs" "length A \<le> ?dst" "?dst < length xs - length B"
    using len i by auto
  have tk: "take (Suc i) xs = take i xs @ [xs ! i]" using i(1) by (simp add: take_Suc_conv_app_nth)
  have part': "partitioned law P xs p (keep \<union> {d. d = ?dst \<and> xs ! i = p}) (Suc i) ?A ?B ?st ?b"
    unfolding partitioned_def
  proof (intro conjI impI ballI)
    show "segment ?b 0 ?A" using seg(1) dst by (simp add: segment_snoc)
    show "segment ?b (length xs - length ?B) (rev ?B)"
      using seg(2) dst len i by (auto simp: segment_Cons Suc_diff_Suc)
    show "mset ?A + mset ?B = mset (take (Suc i) xs)" using bag by (simp add: tk)
    show "?A = filter P (take (Suc i) xs)" if law using law [OF that] left [OF that] by (auto simp: tk)
    show "?B = filter (\<lambda>x. \<not> P x) (take (Suc i) xs)" if law using law [OF that] left [OF that] by (auto simp: tk)
    fix d assume d: "d \<in> keep \<union> {d. d = ?dst \<and> xs ! i = p}"
    show "?b ! d = Some p" using d keep [of d] dst by (auto simp: nth_list_update)
    show "d < length ?A \<or> length xs - length ?B \<le> d \<and> d < length xs" using d keep [of d] len i by auto
  qed (use len i in auto)
  have N': "N (?st, ?dst) (c, map Some xs, ?b)" by (rule N [OF part']) simp_all
  have "(if left then 0 else length xs - i - 1) + length A = ?dst" using len i by auto
  then show ?thesis
    using i N' dst(1) copy_out_one [OF i(1), unfolded One_nat_def]
    by (cases left) (simp_all add: st partition_one_def wp_fun wp_checks Let_def copy_out_one [OF i(1), unfolded One_nat_def])
qed

lemma partition_steps_wp:
  fixes is_less :: "('c, 'a) closure"
  assumes "partitioned law P xs (xs ! pv) keep i A B st b" "i + k \<le> length xs" "length xs \<le> length b"
    and pv: "pv < length xs" "pv < i \<or> i + k \<le> pv"
    and law: "law \<Longrightarrow> computes is_less g" "\<And>x. P x = g x (xs ! pv)"
    and N: "\<And>A' B' st' b' c. partitioned law P xs (xs ! pv) keep (i + k) A' B' st' b' \<Longrightarrow> length b' = length b \<Longrightarrow>
      length A \<le> length A' \<Longrightarrow> length B \<le> length B' \<Longrightarrow> N st' (c, map Some xs, b')"
    and U: "\<And>c b'. (\<And>f. \<not> computes is_less f) \<Longrightarrow> length b' = length b \<Longrightarrow> U (c, map Some xs, b')"
  shows "wp (partition_steps is_less pv k st) N U (c, map Some xs, b)"
  using assms(1-3) pv(2) N U
proof (induction k arbitrary: i A B st b c)
  case 0
  then show ?case by (simp add: wp_simps)
next
  case (Suc k)
  have scan: "ps_scan st = i" using Suc.prems(1) by (simp add: partitioned_def)
  have "wp (less_at is_less i pv) (\<lambda>r (c, v). wp (partition_one r st)
      (\<lambda>x. wp (partition_steps is_less pv k (fst x)) N U) U (c, v, b)) (\<lambda>(c, v). U (c, v, b)) (c, map Some xs)"
  proof (rule wp_less_atI [where x = "xs ! i" and y = "xs ! pv"])
    fix r c assume r: "\<And>f. computes is_less f \<Longrightarrow> r = f (xs ! i) (xs ! pv)"
    have "wp (partition_one r st) (\<lambda>x. wp (partition_steps is_less pv k (fst x)) N U) U (c, map Some xs, b)"
    proof (rule partition_one_wp [OF Suc.prems(1)])
      show "law \<Longrightarrow> r = P (xs ! i)" using r law by blast
      fix A' B' st' dst
      assume part: "partitioned law P xs (xs ! pv) (keep \<union> {d. d = dst \<and> xs ! i = xs ! pv}) (Suc i) A' B' st' (b[dst := Some (xs ! i)])"
        and le: "length A \<le> length A'" "length B \<le> length B'"
      have "wp (partition_steps is_less pv k st') N U (c, map Some xs, b[dst := Some (xs ! i)])"
      proof (rule Suc.IH)
        show "partitioned law P xs (xs ! pv) keep (Suc i) A' B' st' (b[dst := Some (xs ! i)])"
          using part by (auto simp: partitioned_def)
        fix A'' B'' st'' b' c
        assume "partitioned law P xs (xs ! pv) keep (Suc i + k) A'' B'' st'' b'"
          "length b' = length (b[dst := Some (xs ! i)])" "length A' \<le> length A''" "length B' \<le> length B''"
        then show "N st'' (c, map Some xs, b')" using Suc.prems(5) [of A'' B'' st'' b'] le by simp
      qed (use Suc.prems(2-4,6) in auto)
      then show "wp (partition_steps is_less pv k (fst (st', dst))) N U (c, map Some xs, b[dst := Some (xs ! i)])"
        by simp
    qed (use Suc.prems in auto)
    then show "case (c, map Some xs) of (c, v) \<Rightarrow> wp (partition_one r st) (\<lambda>x. wp (partition_steps is_less pv k (fst x)) N U) U (c, v, b)"
      by simp
  next
    fix c assume "\<And>f. \<not> computes is_less f"
    then show "case (c, map Some xs) of (c, v) \<Rightarrow> U (c, v, b)" using Suc.prems(6) by simp
  qed (use Suc.prems(2) pv(1) in auto)
  then show ?case by (simp add: scan wp_fun wp_in_slice case_prod_unfold)
qed

lemma partition_while_wp:
  fixes is_less :: "('c, 'a) closure"
  assumes "partitioned law P xs (xs ! pv) keep i A B st b" "i \<le> limit" "stop = 0 \<or> stop + k \<le> limit + 1" "stop - i < n" "0 < k"
    and room: "limit \<le> length xs" "length xs \<le> length b"
    and pv: "pv < length xs" "pv < i \<or> limit \<le> pv"
    and law: "law \<Longrightarrow> computes is_less g" "\<And>x. P x = g x (xs ! pv)"
    and N: "\<And>A' B' st' b' c j. partitioned law P xs (xs ! pv) keep j A' B' st' b' \<Longrightarrow> length b' = length b \<Longrightarrow>
      length A \<le> length A' \<Longrightarrow> length B \<le> length B' \<Longrightarrow> i \<le> j \<Longrightarrow> j \<le> limit \<Longrightarrow> stop \<le> j \<Longrightarrow> N st' (c, map Some xs, b')"
    and U: "\<And>c b'. (\<And>f. \<not> computes is_less f) \<Longrightarrow> length b' = length b \<Longrightarrow> U (c, map Some xs, b')"
  shows "wp (partition_while is_less pv k stop n st) N U (c, map Some xs, b)"
  using assms(1-4) room(2) pv(2) N U
proof (induction n arbitrary: i A B st b c)
  case 0
  then show ?case by simp
next
  case (Suc n)
  have scan: "ps_scan st = i" using Suc.prems(1) by (simp add: partitioned_def)
  show ?case
  proof (cases "i < stop")
    case False
    then show ?thesis using Suc.prems(7) [OF Suc.prems(1)] Suc.prems(2) scan by (simp add: wp_simps)
  next
    case True
    have "wp (partition_steps is_less pv k st) (\<lambda>st. wp (partition_while is_less pv k stop n st) N U) U (c, map Some xs, b)"
    proof (rule partition_steps_wp [OF Suc.prems(1)])
      fix A' B' st' b' c
      assume part: "partitioned law P xs (xs ! pv) keep (i + k) A' B' st' b'" "length b' = length b"
        and le: "length A \<le> length A'" "length B \<le> length B'"
      show "wp (partition_while is_less pv k stop n st') N U (c, map Some xs, b')"
      proof (rule Suc.IH [OF part(1)])
        fix A'' B'' st'' b'' c j
        assume "partitioned law P xs (xs ! pv) keep j A'' B'' st'' b''" "length b'' = length b'"
          "length A' \<le> length A''" "length B' \<le> length B''" "i + k \<le> j" "j \<le> limit" "stop \<le> j"
        then show "N st'' (c, map Some xs, b'')" using Suc.prems(7) [of j A'' B'' st'' b''] part(2) le by simp
      qed (use Suc.prems(2-6,8) True part(2) \<open>0 < k\<close> in auto)
    qed (use Suc.prems(2-6,8) True room(1) pv(1) law in auto)
    then show ?thesis using True by (simp add: scan wp_fun)
  qed
qed


lemma partition_until_wp:
  fixes is_less :: "('c, 'a) closure"
  assumes "partitioned law P xs (xs ! pv) keep i A B st b" "i \<le> limit" "limit \<le> length xs" "length xs \<le> length b"
    and pv: "pv < length xs" "pv < i \<or> limit \<le> pv"
    and law: "law \<Longrightarrow> computes is_less g" "\<And>x. P x = g x (xs ! pv)"
    and N: "\<And>A' B' st' b' c. partitioned law P xs (xs ! pv) keep limit A' B' st' b' \<Longrightarrow> length b' = length b \<Longrightarrow>
      length A \<le> length A' \<Longrightarrow> length B \<le> length B' \<Longrightarrow> N st' (c, map Some xs, b')"
    and U: "\<And>c b'. (\<And>f. \<not> computes is_less f) \<Longrightarrow> length b' = length b \<Longrightarrow> U (c, map Some xs, b')"
  shows "wp (partition_until ty is_less pv limit st) N U (c, map Some xs, b)"
proof -
  have one: "wp (partition_while is_less pv 1 limit (limit + 1) st') N U (c, map Some xs, b')"
    if part: "partitioned law P xs (xs ! pv) keep j A' B' st' b'" and b': "length b' = length b" "i \<le> j" "j \<le> limit"
      and le: "length A \<le> length A'" "length B \<le> length B'" for A' B' st' b' c j
  proof (rule partition_while_wp [OF part \<open>j \<le> limit\<close>])
    fix A'' B'' st'' b'' c j'
    assume part': "partitioned law P xs (xs ! pv) keep j' A'' B'' st'' b''" and b'': "length b'' = length b'"
      "length A' \<le> length A''" "length B' \<le> length B''" "j' \<le> limit" "limit \<le> j'"
    then have "j' = limit" by simp
    with part' have "partitioned law P xs (xs ! pv) keep limit A'' B'' st'' b''" by simp
    from N [OF this] show "N st'' (c, map Some xs, b'')" using b'' b' le by simp
  next
    show "pv < j \<or> limit \<le> pv" using pv(2) b'(2) by linarith
  qed (use assms(3,4) b' pv law U in auto)
  have "wp (partition_while is_less pv UNROLL_LEN (limit - (UNROLL_LEN - 1)) (limit + 1) st)
      (\<lambda>st. wp (partition_while is_less pv 1 limit (limit + 1) st) N U) U (c, map Some xs, b)"
  proof (rule partition_while_wp [OF assms(1,2)])
    fix A' B' st' b' c j
    assume "partitioned law P xs (xs ! pv) keep j A' B' st' b'" "length b' = length b"
      "length A \<le> length A'" "length B \<le> length B'" "i \<le> j" "j \<le> limit"
    then show "wp (partition_while is_less pv 1 limit (limit + 1) st') N U (c, map Some xs, b')"
      by (intro one [of j A' B'])
  qed (use assms(3,4) pv law U in \<open>auto simp: UNROLL_LEN_def\<close>)
  moreover have "wp (partition_while is_less pv 1 limit (limit + 1) st) N U (c, map Some xs, b)"
    by (rule one [OF assms(1)]) (use assms(2) in auto)
  ultimately show ?thesis by (simp add: partition_until_def wp_fun wp_if del: partition_while.simps)
qed

lemma copy_back_tail_wp:
  assumes seg: "segment b (length xs - length B) (rev B)" and len: "length A + length B = length xs" "length xs \<le> length b"
    and N: "N () (c, map Some (A @ B), b)"
  shows "wp (for_each [0..<length xs - length A] (\<lambda>i. copy_back (length xs - 1 - i) (length A + i) 1)) N U
    (c, map Some (A @ drop (length A) xs), b)"
proof (rule wp_for_each [where I = "\<lambda>i s. s = (c, map Some (A @ take i B @ drop (length A + i) xs), b)"])
  fix i s assume i: "i < length xs - length A" and s: "s = (c, map Some (A @ take i B @ drop (length A + i) xs), b)"
  have iB: "i < length B" using i len by simp
  have "length B - 1 - i < length (rev B)" using iB by simp
  then have "b ! (length xs - length B + (length B - 1 - i)) = Some (rev B ! (length B - 1 - i))"
    using seg unfolding segment_def by blast
  moreover have "length xs - length B + (length B - 1 - i) = length xs - 1 - i" using iB len by simp
  ultimately have rd: "b ! (length xs - 1 - i) = Some (B ! i)" using iB by (simp add: rev_nth)
  have src: "length xs - 1 - i < length b" using iB len by linarith
  have "take (Suc 0) (drop (length xs - 1 - i) b) = [Some (B ! i)]"
    using src rd by (simp add: take_Suc_conv_app_nth)
  then have t: "take (Suc 0) (drop (length xs - Suc i) b) = [Some (B ! i)]" by simp
  have tk: "take (Suc i) B = take i B @ [B ! i]" using iB by (simp add: take_Suc_conv_app_nth)
  show "wp (copy_back (length xs - 1 - i) (length A + i) 1) (\<lambda>_ s. s = (c, map Some (A @ take (Suc i) B @ drop (length A + Suc i) xs), b)) U s"
    using iB len t src i unfolding s by (subst wp_copy_back) (simp_all add: tk min_def drop_map)
next
  fix s assume "s = (c, map Some (A @ take (length xs - length A) B @ drop (length A + (length xs - length A)) xs), b)"
  then show "N () s" using N len by simp
qed simp_all

lemma stable_partition_wp:
  fixes is_less :: "('c, 'a) closure"
  assumes room: "length xs \<le> length b" "pv < length xs"
    and law: "law \<Longrightarrow> computes is_less g \<and> g (xs ! pv) (xs ! pv) = left"
    and N: "\<And>A B b' c. mset (A @ B) = mset xs \<Longrightarrow> length b' = length b \<Longrightarrow> (left \<Longrightarrow> A \<noteq> []) \<Longrightarrow> (\<not> left \<Longrightarrow> B \<noteq> []) \<Longrightarrow>
      (law \<Longrightarrow> A = filter (\<lambda>x. g x (xs ! pv)) xs \<and> B = filter (\<lambda>x. \<not> g x (xs ! pv)) xs) \<Longrightarrow>
      N (length A) (c, map Some (A @ B), b')"
    and U: "\<And>c b'. (\<And>f. \<not> computes is_less f) \<Longrightarrow> length b' = length b \<Longrightarrow> U (c, map Some xs, b')"
  shows "wp (stable_partition ty is_less pv left) N U (c, map Some xs, b)"
proof -
  let ?P = "\<lambda>x. g x (xs ! pv)" and ?p = "xs ! pv" and ?n = "length xs"
  define finish where "finish = (\<lambda>st :: partition_state. bind (copy_back 0 0 (ps_num_left st)) (\<lambda>_.
    bind (for_each [0..<?n - ps_num_left st] (\<lambda>i. copy_back (?n - 1 - i) (ps_num_left st + i) 1)) (\<lambda>_.
      (ret (ps_num_left st) :: ('c \<times> 'a memory \<times> 'a memory, usize) prog))))"
  define middle :: "partition_state \<times> usize \<Rightarrow> ('c \<times> 'a memory \<times> 'a memory, usize) prog"
    where "middle = (\<lambda>(st :: partition_state, dst). bind (partition_until ty is_less pv ?n st) (\<lambda>st.
      bind (if \<not> ty_freeze ty then copy_out pv dst 1 else ret ()) (\<lambda>_. finish st)))"
  have finish: "wp (finish st) N U (c, map Some xs, b')"
    if part: "partitioned law ?P xs ?p {dst} ?n A B st b'" and b': "length b' = length b"
      and ne: "left \<Longrightarrow> A \<noteq> []" "\<not> left \<Longrightarrow> B \<noteq> []" for A B st b' c dst
  proof -
    have nl: "ps_num_left st = length A" and len: "length A + length B = ?n" and seg: "segment b' 0 A"
        "segment b' (?n - length B) (rev B)"
      and bag: "mset A + mset B = mset xs" and flt: "law \<Longrightarrow> A = filter ?P xs \<and> B = filter (\<lambda>x. \<not> ?P x) xs"
      using part by (auto simp: partitioned_def)
    have "take (length A) b' = map Some A" using segmentD [OF seg(1)] by (intro nth_equalityI) simp_all
    moreover have "wp (for_each [0..<?n - length A] (\<lambda>i. copy_back (?n - 1 - i) (length A + i) 1))
        (\<lambda>_. N (length A)) U (c, map Some (A @ drop (length A) xs), b')"
    proof (rule copy_back_tail_wp [OF seg(2) len])
      show "N (length A) (c, map Some (A @ B), b')" by (rule N) (use bag b' ne flt in simp_all)
    qed (use room b' in simp)
    ultimately show ?thesis using len room b' by (simp add: finish_def nl wp_fun wp_copy_back drop_map)
  qed
  have middle: "wp (middle (st, dst)) N U (c, map Some xs, b')"
    if part: "partitioned law ?P xs ?p {dst} (Suc pv) A B st b'" and b': "length b' = length b"
      and ne: "left \<Longrightarrow> A \<noteq> []" "\<not> left \<Longrightarrow> B \<noteq> []" for A B st b' c dst
  proof -
    have "wp (partition_until ty is_less pv ?n st)
        (\<lambda>st. wp (if \<not> ty_freeze ty then copy_out pv dst 1 else ret ()) (\<lambda>_. wp (finish st) N U) U) U (c, map Some xs, b')"
    proof (rule partition_until_wp [OF part])
      fix A' B' st' b'' c
      assume part': "partitioned law ?P xs ?p {dst} ?n A' B' st' b''" and b'': "length b'' = length b'"
        and le: "length A \<le> length A'" "length B \<le> length B'"
      have fin: "wp (finish st') N U (c, map Some xs, b'')"
        by (rule finish [OF part']) (use ne le b' b'' in auto)
      have dst: "b'' ! dst = Some ?p" "dst < length b''"
        using part' room(1) b' b'' segmentD(1) by (auto simp: partitioned_def)
      have "b''[dst := Some ?p] = b''" using dst by (metis list_update_id)
      then have "wp (copy_out pv dst 1) (\<lambda>_. wp (finish st') N U) U (c, map Some xs, b'')"
        using fin by (simp only: copy_out_one [OF room(2) dst(2)])
      then show "wp (if \<not> ty_freeze ty then copy_out pv dst 1 else ret ()) (\<lambda>_. wp (finish st') N U) U (c, map Some xs, b'')"
        using fin by (simp add: wp_ret)
    qed (use room b' law U in auto)
    then show ?thesis by (simp add: middle_def wp_fun)
  qed
  have "wp (partition_until ty is_less pv pv (partition_new ?n)) (\<lambda>st. wp (partition_one left st) (\<lambda>x. wp (middle x) N U) U) U
      (c, map Some xs, b)"
  proof (rule partition_until_wp [where keep = "{}" and i = 0 and A = "[]" and B = "[]" and law = law and P = ?P])
    show "partitioned law ?P xs ?p {} 0 [] [] (partition_new ?n) b"
      using room(1) by (simp add: partitioned_def partition_new_def)
    fix A B st b' c
    assume part: "partitioned law ?P xs ?p {} pv A B st b'" and b': "length b' = length b"
    show "wp (partition_one left st) (\<lambda>x. wp (middle x) N U) U (c, map Some xs, b')"
    proof (rule partition_one_wp [OF part])
      fix A' B' st' dst
      assume "partitioned law ?P xs ?p ({} \<union> {d. d = dst \<and> ?p = ?p}) (Suc pv) A' B' st' (b'[dst := Some ?p])"
        "left \<longrightarrow> A' \<noteq> []" "\<not> left \<longrightarrow> B' \<noteq> []"
      then show "wp (middle (st', dst)) N U (c, map Some xs, b'[dst := Some ?p])"
        using b' by (intro middle [of dst A' B']) auto
    qed (use room b' law in auto)
  qed (use room law U in auto)
  then show ?thesis using room
    by (simp add: stable_partition_def wp_bind wp_fun wp_reads_pure middle_def finish_def)
qed

end
