(* ===== verification/Drift_Sort.thy ===== *)
theory Drift_Sort
  imports Sort_Partition Rust_Vec Rust_Ord
begin

text \<open>
  Driftsort (\<open>core/src/slice/sort/stable/drift.rs\<close>, \<open>quicksort.rs\<close>, \<open>mod.rs\<close>): the loop that finds runs,
  sorted or not, and merges them in the order of a merge tree, quicksort, which falls back to that
  loop, and the functions of \<open>alloc/src/slice.rs\<close> that call the sort. The two loops call each other:
  \<open>drift_sort\<close> has quicksort as its argument \<open>qs\<close>, and \<open>quicksort\<close> recurses on fuel.
\<close>

section \<open>Logical runs\<close>

text \<open>A \<open>DriftsortRun\<close> keeps its length and a flag in one machine word.\<close>

type_synonym drift_run = usize

definition new_sorted :: "usize \<Rightarrow> drift_run" where
  "new_sorted len = (push_bit 1 len mod 2 ^ 64) OR 1"

definition new_unsorted :: "usize \<Rightarrow> drift_run" where
  "new_unsorted len = push_bit 1 len mod 2 ^ 64"

definition run_sorted :: "drift_run \<Rightarrow> bool" where
  "run_sorted r \<longleftrightarrow> r AND 1 = 1"

definition run_len :: "drift_run \<Rightarrow> usize" where
  "run_len r = drop_bit 1 r"

section \<open>The merge tree\<close>

definition div_ceil :: "usize \<Rightarrow> usize \<Rightarrow> usize" where
  "div_ceil a b = (let d = a div b; r = a mod b in if r > 0 then d + 1 else d)"

definition merge_tree_scale_factor :: "usize \<Rightarrow> usize" where
  "merge_tree_scale_factor n = div_ceil (2 ^ 62) n"

text \<open>The arithmetic wraps around, as it does in a build without overflow checks.\<close>

definition merge_tree_depth :: "usize \<Rightarrow> usize \<Rightarrow> usize \<Rightarrow> usize \<Rightarrow> nat" where
  "merge_tree_depth left mid right scale_factor =
     (let x = wrapping_add left mid; y = wrapping_add mid right
      in leading_zeros ((scale_factor * x) mod 2 ^ 64 XOR (scale_factor * y) mod 2 ^ 64))"

definition sqrt_approx :: "usize \<Rightarrow> usize" where
  "sqrt_approx n =
     (let ilog = ilog2 (n OR 1); shift = div_ceil ilog 2
      in (push_bit shift 1 + drop_bit shift n) div 2)"

section \<open>Runs of a slice\<close>

definition slice_reverse :: "('c \<times> 'a memory \<times> 'a memory, unit) prog" where
  "slice_reverse =
     bind (reads (\<lambda>(c, v, b). Inr (length v))) (\<lambda>len.
       for_each [0..<len div 2] (\<lambda>i.
         writes (\<lambda>(c, v, b). and_then (ptr_swap v i (len - len div 2 + (len div 2 - 1 - i))) (\<lambda>v. Inr (c, v, b)))))"

type_synonym ('c, 'a) sorter = "nat \<Rightarrow> 'a option \<Rightarrow> ('c \<times> 'a memory \<times> 'a memory, unit) prog"

definition stable_quicksort :: "('c, 'a) sorter \<Rightarrow> ('c \<times> 'a memory \<times> 'a memory, unit) prog" where
  "stable_quicksort qs =
     bind (reads (\<lambda>(c, v, b). Inr (length v))) (\<lambda>len. qs (2 * ilog2 (len OR 1)) None)"

definition create_run ::
  "sort_type \<Rightarrow> ('c, 'a) sorter \<Rightarrow> ('c, 'a) closure \<Rightarrow> usize \<Rightarrow> bool \<Rightarrow>
    ('c \<times> 'a memory \<times> 'a memory, drift_run) prog" where
  "create_run ty qs is_less min_good_run_len eager_sort =
     bind (reads (\<lambda>(c, v, b). Inr (length v))) (\<lambda>len.
     bind (if len \<ge> min_good_run_len
           then bind (in_slice (find_existing_run is_less)) (\<lambda>(run_len, was_reversed).
                bind (checks (UB BrokenAssumption) (\<lambda>_. run_len \<le> len)) (\<lambda>_.
                  if run_len \<ge> min_good_run_len
                  then bind (if was_reversed then on_subslice 0 run_len slice_reverse else ret ()) (\<lambda>_.
                         ret (Some (new_sorted run_len)))
                  else ret None))
           else ret None) (\<lambda>good.
       case good of
         Some run \<Rightarrow> ret run
       | None \<Rightarrow>
           if eager_sort
           then let eager_run_len = min (small_sort_threshold ty) len
                in bind (on_subslice 0 eager_run_len (qs 0 None)) (\<lambda>_. ret (new_sorted eager_run_len))
           else ret (new_unsorted (min min_good_run_len len))))"

definition logical_merge ::
  "('c, 'a) sorter \<Rightarrow> ('c, 'a) closure \<Rightarrow> drift_run \<Rightarrow> drift_run \<Rightarrow>
    ('c \<times> 'a memory \<times> 'a memory, drift_run) prog" where
  "logical_merge qs is_less left right =
     bind (reads (\<lambda>(c, v, b). Inr (length v, length b))) (\<lambda>(len, scratch_len).
       let can_fit_in_scratch = len \<le> scratch_len
       in if \<not> can_fit_in_scratch \<or> run_sorted left \<or> run_sorted right
          then bind (if \<not> run_sorted left then on_subslice 0 (run_len left) (stable_quicksort qs) else ret ()) (\<lambda>_.
               bind (if \<not> run_sorted right then on_subslice (run_len left) len (stable_quicksort qs) else ret ()) (\<lambda>_.
               bind (merge is_less (run_len left)) (\<lambda>_. ret (new_sorted len))))
          else ret (new_unsorted len))"

section \<open>The main loop\<close>

text \<open>The two arrays of 66 entries are uninitialised at first.\<close>

record drift_state =
  dr_scan_idx :: usize
  dr_prev_run :: drift_run
  dr_stack_len :: usize
  dr_runs :: "drift_run memory"
  dr_depths :: "nat memory"

definition drift_start :: drift_state where
  "drift_start = \<lparr>dr_scan_idx = 0, dr_prev_run = new_sorted 0, dr_stack_len = 0,
     dr_runs = replicate 66 None, dr_depths = replicate 66 None\<rparr>"

definition liftr :: "'x res \<Rightarrow> ('s, 'x) prog" where
  "liftr r = reads (\<lambda>_. r)"

text \<open>The loop that merges the runs that want to be deeper in the tree; \<open>n\<close> is the stack length.\<close>

fun collapse_runs ::
  "('c, 'a) sorter \<Rightarrow> ('c, 'a) closure \<Rightarrow> nat \<Rightarrow> drift_state \<Rightarrow> nat \<Rightarrow>
    ('c \<times> 'a memory \<times> 'a memory, drift_state) prog" where
  "collapse_runs qs is_less desired_depth st (Suc (Suc k)) =
     bind (liftr (ptr_read (dr_depths st) (Suc k))) (\<lambda>depth.
       if depth \<ge> desired_depth
       then bind (liftr (ptr_read (dr_runs st) (Suc k))) (\<lambda>left.
            let merged_len = run_len left + run_len (dr_prev_run st)
            in bind (checks (UB OutOfBounds) (\<lambda>(c, v, b). merged_len \<le> dr_scan_idx st \<and> dr_scan_idx st \<le> length v)) (\<lambda>_.
               bind (on_subslice (dr_scan_idx st - merged_len) (dr_scan_idx st)
                      (logical_merge qs is_less left (dr_prev_run st))) (\<lambda>prev_run.
                 collapse_runs qs is_less desired_depth
                   (st\<lparr>dr_prev_run := prev_run, dr_stack_len := Suc k\<rparr>) (Suc k))))
       else ret st)"
| "collapse_runs qs is_less desired_depth st n = ret st"

definition push_run :: "nat \<Rightarrow> drift_state \<Rightarrow> drift_state res" where
  "push_run desired_depth st =
     and_then (ptr_write (dr_runs st) (dr_stack_len st) (dr_prev_run st)) (\<lambda>runs.
     and_then (ptr_write (dr_depths st) (dr_stack_len st) desired_depth) (\<lambda>depths.
       Inr (st\<lparr>dr_runs := runs, dr_depths := depths, dr_stack_len := dr_stack_len st + 1\<rparr>)))"

text \<open>The loop of \<open>sort\<close>; every turn but the last advances the scan.\<close>

primrec drift_loop ::
  "sort_type \<Rightarrow> ('c, 'a) sorter \<Rightarrow> ('c, 'a) closure \<Rightarrow> bool \<Rightarrow> usize \<Rightarrow> usize \<Rightarrow> usize \<Rightarrow> nat \<Rightarrow> drift_state \<Rightarrow>
    ('c \<times> 'a memory \<times> 'a memory, drift_run) prog" where
  "drift_loop ty qs is_less eager_sort len scale_factor min_good_run_len 0 st = failing OutOfFuel"
| "drift_loop ty qs is_less eager_sort len scale_factor min_good_run_len (Suc n) st =
     bind (if dr_scan_idx st < len
           then bind (on_subslice (dr_scan_idx st) len (create_run ty qs is_less min_good_run_len eager_sort)) (\<lambda>next_run.
                  ret (next_run, merge_tree_depth (wrapping_sub (dr_scan_idx st) (run_len (dr_prev_run st))) (dr_scan_idx st)
                    (dr_scan_idx st + run_len next_run) scale_factor))
           else ret (new_sorted 0, 0)) (\<lambda>(next_run, desired_depth).
     bind (collapse_runs qs is_less desired_depth st (dr_stack_len st)) (\<lambda>st.
     bind (liftr (push_run desired_depth st)) (\<lambda>st.
       if dr_scan_idx st \<ge> len then ret (dr_prev_run st)
       else drift_loop ty qs is_less eager_sort len scale_factor min_good_run_len n
              (st\<lparr>dr_scan_idx := dr_scan_idx st + run_len next_run, dr_prev_run := next_run\<rparr>))))"

definition MIN_SQRT_RUN_LEN :: usize where "MIN_SQRT_RUN_LEN = 64"

definition min_good_run_len :: "usize \<Rightarrow> usize" where
  "min_good_run_len len =
     (if len \<le> MIN_SQRT_RUN_LEN * MIN_SQRT_RUN_LEN then min (len - len div 2) MIN_SQRT_RUN_LEN
      else sqrt_approx len)"

definition drift_sort ::
  "sort_type \<Rightarrow> ('c, 'a) sorter \<Rightarrow> ('c, 'a) closure \<Rightarrow> bool \<Rightarrow> ('c \<times> 'a memory \<times> 'a memory, unit) prog" where
  "drift_sort ty qs is_less eager_sort =
     bind (reads (\<lambda>(c, v, b). Inr (length v))) (\<lambda>len.
       if len < 2 then ret ()
       else bind (drift_loop ty qs is_less eager_sort len (merge_tree_scale_factor len) (min_good_run_len len)
                   (len + 1) drift_start) (\<lambda>prev_run.
              if \<not> run_sorted prev_run then stable_quicksort qs else ret ()))"

section \<open>Quicksort\<close>

text \<open>The closure \<open>|a, b| !is_less(b, a)\<close> of the partition around an equal pivot.\<close>

definition flipped :: "('c, 'a) closure \<Rightarrow> ('c, 'a) closure" where
  "flipped is_less = (\<lambda>c a b. case is_less c b a of (r, c) \<Rightarrow> (map_option Not r, c))"

text \<open>Whether the pivot equals the left ancestor pivot.\<close>

definition is_ancestor_pivot ::
  "('c, 'a) closure \<Rightarrow> 'a option \<Rightarrow> usize \<Rightarrow> ('c \<times> 'a memory, bool) prog" where
  "is_ancestor_pivot is_less left_ancestor_pivot pivot_pos =
     (case left_ancestor_pivot of
        None \<Rightarrow> ret False
      | Some la_pivot \<Rightarrow> bind (peek pivot_pos) (\<lambda>x. bind (call is_less la_pivot x) (\<lambda>r. ret (\<not> r))))"

primrec quicksort :: "nat \<Rightarrow> sort_type \<Rightarrow> ('c, 'a) closure \<Rightarrow> ('c, 'a) sorter" where
  "quicksort 0 ty is_less limit left_ancestor_pivot = failing OutOfFuel"
| "quicksort (Suc n) ty is_less limit left_ancestor_pivot =
     bind (reads (\<lambda>(c, v, b). Inr (length v))) (\<lambda>len.
       if len \<le> small_sort_threshold ty then small_sort ty is_less
       else if limit = 0 then drift_sort ty (quicksort n ty is_less) is_less True
       else bind (in_slice (choose_pivot is_less)) (\<lambda>pivot_pos.
            bind (in_slice (peek pivot_pos)) (\<lambda>pivot_copy.
              let pivot_ref = (if ty_freeze ty then Some pivot_copy else None)
              in bind (in_slice (is_ancestor_pivot is_less left_ancestor_pivot pivot_pos)) (\<lambda>equal.
                 bind (if \<not> equal then stable_partition ty is_less pivot_pos False else ret 0) (\<lambda>left_partition_len.
                   if equal \<or> left_partition_len = 0
                   then bind (stable_partition ty (flipped is_less) pivot_pos True) (\<lambda>mid_eq.
                          on_subslice mid_eq len (quicksort n ty is_less (limit - 1) None))
                   else bind (on_subslice left_partition_len len (quicksort n ty is_less (limit - 1) pivot_ref)) (\<lambda>_.
                          on_subslice 0 left_partition_len (quicksort n ty is_less (limit - 1) left_ancestor_pivot)))))))"

section \<open>The entry points\<close>

definition MAX_FULL_ALLOC_BYTES :: usize where "MAX_FULL_ALLOC_BYTES = 8000000"

definition scratch_alloc_len :: "sort_type \<Rightarrow> usize \<Rightarrow> usize" where
  "scratch_alloc_len ty len =
     (let max_full_alloc = MAX_FULL_ALLOC_BYTES div lay_size (ty_layout ty)
      in max (max (len - len div 2) (min len max_full_alloc)) SMALL_SORT_GENERAL_SCRATCH_LEN)"

text \<open>The scratch buffer: 4 KiB on the stack, or a \<open>Vec\<close> (\<open>BufGuard\<close>).\<close>

definition spare_capacity :: "'a vec \<Rightarrow> 'a memory" where
  "spare_capacity v = drop (v_len v) (rv_mem (v_buf v))"

definition sort_scratch :: "sort_type \<Rightarrow> (layout \<Rightarrow> bool) \<Rightarrow> usize \<Rightarrow> 'a memory res" where
  "sort_scratch ty alloc len =
     (let stack_len = 4096 div lay_size (ty_layout ty); alloc_len = scratch_alloc_len ty len
      in if stack_len \<ge> alloc_len then Inr (replicate stack_len None)
         else and_then (vec_with_capacity_in alloc_len alloc (ty_layout ty)) (\<lambda>heap_buf.
                Inr (spare_capacity heap_buf)))"

definition driftsort_main ::
  "sort_type \<Rightarrow> (layout \<Rightarrow> bool) \<Rightarrow> ('c, 'a) closure \<Rightarrow> ('c \<times> 'a memory, unit) prog" where
  "driftsort_main ty alloc is_less =
     bind slice_len (\<lambda>len.
     bind (liftr (sort_scratch ty alloc len)) (\<lambda>scratch.
       let eager_sort = len \<le> small_sort_threshold ty * 2
       in zoom (\<lambda>(c, v). (c, v, scratch)) (\<lambda>_ (c, v, _). (c, v))
            (drift_sort ty (quicksort (len + 2) ty is_less) is_less eager_sort)))"

definition MAX_LEN_ALWAYS_INSERTION_SORT :: usize where "MAX_LEN_ALWAYS_INSERTION_SORT = 20"

definition stable_sort_slice ::
  "sort_type \<Rightarrow> (layout \<Rightarrow> bool) \<Rightarrow> ('c, 'a) closure \<Rightarrow> ('c \<times> 'a memory, unit) prog" where
  "stable_sort_slice ty alloc is_less =
     (if lay_size (ty_layout ty) = 0 then ret ()
      else bind slice_len (\<lambda>len.
             if len < 2 then ret ()
             else if len \<le> MAX_LEN_ALWAYS_INSERTION_SORT then insertion_sort_shift_left is_less 1
             else driftsort_main ty alloc is_less))"

text \<open>\<open>sort_by\<close> has a comparison that answers with an \<open>Ordering\<close>, \<open>sort_by_key\<close> extracts keys.\<close>

definition by_compare :: "('c \<Rightarrow> 'a \<Rightarrow> 'a \<Rightarrow> ordering option \<times> 'c) \<Rightarrow> ('c, 'a) closure" where
  "by_compare compare = (\<lambda>c a b. case compare c a b of (r, c) \<Rightarrow> (map_option (\<lambda>ord. ord = Less) r, c))"

definition sort_by ::
  "sort_type \<Rightarrow> (layout \<Rightarrow> bool) \<Rightarrow> ('c \<Rightarrow> 'a \<Rightarrow> 'a \<Rightarrow> ordering option \<times> 'c) \<Rightarrow> ('c \<times> 'a memory, unit) prog" where
  "sort_by ty alloc compare = stable_sort_slice ty alloc (by_compare compare)"

definition by_key :: "('c \<Rightarrow> 'a \<Rightarrow> 'k option \<times> 'c) \<Rightarrow> ('c, 'k) closure \<Rightarrow> ('c, 'a) closure" where
  "by_key f lt = (\<lambda>c a b. case f c a of
      (None, c) \<Rightarrow> (None, c)
    | (Some ka, c) \<Rightarrow> (case f c b of (None, c) \<Rightarrow> (None, c) | (Some kb, c) \<Rightarrow> lt c ka kb))"

definition sort_by_key ::
  "sort_type \<Rightarrow> (layout \<Rightarrow> bool) \<Rightarrow> ('c \<Rightarrow> 'a \<Rightarrow> 'k option \<times> 'c) \<Rightarrow> ('c, 'k) closure \<Rightarrow> ('c \<times> 'a memory, unit) prog" where
  "sort_by_key ty alloc f lt = stable_sort_slice ty alloc (by_key f lt)"

end
