(* ===== verification/Drift_Sort_Correct.thy ===== *)
theory Drift_Sort_Correct
  imports Drift_Sort
begin

text \<open>
Driftsort and quicksort are correct: the invariant of the run stack, the contract of every routine (\<open>sorts\<close>), and
  that the fuel and the 66 stack slots are enough.
\<close>

section \<open>Words of the loop\<close>

lemma run_encoding:
  assumes "l \<le> isize_max"
  shows "run_len (new_sorted l) = l" "run_sorted (new_sorted l)" "run_len (new_unsorted l) = l"
    "\<not> run_sorted (new_unsorted l)"
proof -
  have "push_bit 1 l < 2 ^ 64" using assms by (simp add: usize_simps push_bit_eq_mult)
  then have w: "push_bit 1 l mod 2 ^ 64 = 2 * l" by (simp add: push_bit_eq_mult)
  have o: "2 * l OR 1 = 2 * l + 1" using or_one_eq [of "2 * l"] by simp
  show "run_len (new_sorted l) = l" "run_sorted (new_sorted l)" "run_len (new_unsorted l) = l" "\<not> run_sorted (new_unsorted l)"
    unfolding run_len_def run_sorted_def new_sorted_def new_unsorted_def w o
    by (simp_all add: drop_bit_eq_div and_one_eq)
qed

lemma leading_zeros_le: "leading_zeros n \<le> 64"
  unfolding leading_zeros_def using length_takeWhile_le [of "\<lambda>i. \<not> bit n i" "rev [0..<64]"] by simp

lemma merge_tree_depth_le: "merge_tree_depth l m r s \<le> 64"
  by (simp add: merge_tree_depth_def Let_def leading_zeros_le)

lemma div_ceil_bounds:
  assumes "0 < b"
  shows "a \<le> div_ceil a b * b" "div_ceil a b * b < a + b"
proof -
  define q r where "q = a div b" and "r = a mod b"
  have e: "a = q * b + r" and m: "r < b" using assms by (simp_all add: q_def r_def)
  have "div_ceil a b = (if r > 0 then q + 1 else q)" by (simp add: div_ceil_def Let_def q_def r_def)
  then show "a \<le> div_ceil a b * b" "div_ceil a b * b < a + b" using e m by auto
qed

text \<open>The approximation of the square root is between the root and 3/2 of it or so: it is positive, and at most
  half of a number above 64.\<close>

lemma sqrt_approx_bounds:
  assumes "4096 < n" "n \<le> isize_max"
  shows "0 < sqrt_approx n" "sqrt_approx n \<le> n - n div 2"
proof -
  define e where "e = ilog2 (n OR 1)"
  define s where "s = div_ceil e 2"
  have or: "n \<le> n OR 1" "n OR 1 \<le> n + 1" using or_one_eq [of n] by simp_all
  have "0 < n OR 1" "n OR 1 < 2 ^ 64" using or assms by (simp_all add: usize_simps)
  then have e: "2 ^ e \<le> n OR 1" "n OR 1 < 2 ^ (e + 1)" using ilog2_bounds unfolding e_def by blast+
  have s: "e \<le> 2 * s" "2 * s < e + 2" using div_ceil_bounds [of 2 e] unfolding s_def by simp_all
  have "12 \<le> e"
  proof (rule ccontr)
    assume "\<not> 12 \<le> e"
    then have "(2 :: nat) ^ (e + 1) \<le> 2 ^ 12" by (intro power_increasing) simp_all
    then show False using e(2) or(1) assms(1) by simp
  qed
  then have s6: "6 \<le> s" "s + 4 \<le> e" using s by linarith+
  have "(2 :: nat) ^ s * 2 ^ 4 \<le> 2 ^ e" using s6(2) by (metis power_add power_increasing one_le_numeral)
  then have a: "2 ^ s * 16 \<le> n + 1" using e(1) or(2) by simp
  have "(2 :: nat) ^ 6 \<le> 2 ^ s" using s6(1) by (intro power_increasing) simp_all
  then have p: "64 \<le> (2 :: nat) ^ s" by simp
  then have d: "n div 2 ^ s \<le> n div 64" by (intro div_le_mono2) simp_all
  have v: "sqrt_approx n = (2 ^ s + n div 2 ^ s) div 2"
    by (simp add: sqrt_approx_def Let_def e_def s_def push_bit_eq_mult drop_bit_eq_div)
  show "0 < sqrt_approx n" using p unfolding v by linarith
  show "sqrt_approx n \<le> n - n div 2" using a d assms(1) unfolding v by linarith
qed

lemma min_good_run_len_bounds:
  assumes "2 \<le> n" "n \<le> isize_max"
  shows "0 < min_good_run_len n" "min_good_run_len n \<le> n - n div 2"
  using sqrt_approx_bounds [of n] assms by (auto simp: min_good_run_len_def MIN_SQRT_RUN_LEN_def)

section \<open>Reversal\<close>

lemma slice_reverse_wp:
  assumes "N () (c, map Some (rev xs), b)"
  shows "wp slice_reverse N U (c, map Some xs, b)"
proof -
  let ?n = "length xs" and ?h = "length xs div 2"
  let ?v = "\<lambda>i. map (\<lambda>k. Some (xs ! (if k < i \<or> ?n - i \<le> k then ?n - 1 - k else k))) [0..<?n]"
  have v0: "map Some xs = ?v 0" by (rule nth_equalityI) simp_all
  have "wp (for_each [0..<?h] (\<lambda>i. writes (\<lambda>(c, v, b).
      and_then (ptr_swap v i (?n - ?h + (?h - 1 - i))) (\<lambda>v. Inr (c, v, b))))) N U (c, map Some xs, b)"
  proof (rule wp_for_each [where I = "\<lambda>i s. s = (c, ?v i, b)"])
    fix i s assume i: "i < ?h" and s: "s = (c, ?v i, b)"
    have j: "?n - ?h + (?h - 1 - i) = ?n - 1 - i" using i by simp
    have ij: "i < ?n - 1 - i" "?n - 1 - i < ?n" using i by simp_all
    have "(?v i)[i := Some (xs ! (?n - 1 - i)), ?n - 1 - i := Some (xs ! i)] = ?v (Suc i)"
      by (rule nth_equalityI) (use ij in \<open>auto simp: nth_list_update\<close>)
    moreover have "ptr_swap (?v i) i (?n - 1 - i) = Inr ((?v i)[i := Some (xs ! (?n - 1 - i)), ?n - 1 - i := Some (xs ! i)])"
      by (rule ptr_swap_Inr) (use ij in auto)
    ultimately show "wp (writes (\<lambda>(c, v, b). and_then (ptr_swap v i (?n - ?h + (?h - 1 - i))) (\<lambda>v. Inr (c, v, b))))
        (\<lambda>_ s. s = (c, ?v (Suc i), b)) U s"
      unfolding s j by (intro wp_writesI) simp_all
  next
    fix s assume s: "s = (c, ?v ?h, b)"
    have "?v ?h = map Some (rev xs)"
    proof (rule nth_equalityI)
      fix k assume "k < length (?v ?h)"
      then have k: "k < ?n" by simp
      have "xs ! k = xs ! (?n - 1 - k)" if "\<not> k < ?h" "\<not> ?n - ?h \<le> k"
      proof -
        have "k = ?n - 1 - k" using that by linarith
        then show ?thesis by simp
      qed
      then show "?v ?h ! k = map Some (rev xs) ! k" using k by (auto simp: rev_nth)
    qed simp
    then show "N () s" using assms s by simp
  qed (simp_all add: v0 del: upt.simps)
  then show ?thesis by (simp add: slice_reverse_def wp_fun wp_reads_pure)
qed

section \<open>Parts of a slice\<close>

definition shuffled :: "('c, 'a) closure \<Rightarrow> ('a \<Rightarrow> 'a \<Rightarrow> bool) \<Rightarrow> 'a list \<Rightarrow> 'a list \<Rightarrow> bool" where
  "shuffled is_less lt xs ys \<longleftrightarrow> mset ys = mset xs \<and> (lawful is_less lt \<longrightarrow> stable_perm lt xs ys)"

lemma shuffled_refl [simp]: "shuffled is_less lt xs xs"
  by (simp add: shuffled_def)

lemma shuffled_trans: "shuffled is_less lt xs ys \<Longrightarrow> shuffled is_less lt ys zs \<Longrightarrow> shuffled is_less lt xs zs"
  by (auto simp: shuffled_def intro: stable_perm_trans)

lemma shuffled_append:
  "shuffled is_less lt xs xs' \<Longrightarrow> shuffled is_less lt ys ys' \<Longrightarrow> shuffled is_less lt (xs @ ys) (xs' @ ys')"
  by (auto simp: shuffled_def intro: stable_perm_append)

lemma shuffled_length: "shuffled is_less lt xs ys \<Longrightarrow> length ys = length xs"
  by (metis shuffled_def size_mset)

lemma sorted_from_iff:
  "sorted_from is_less lt xs ys \<longleftrightarrow> shuffled is_less lt xs ys \<and> (lawful is_less lt \<longrightarrow> sorted_by lt ys)"
  by (auto simp: sorted_from_def shuffled_def)

lemma wp_on_subsliceI:
  assumes "wp p (\<lambda>x (c, w, b). N x (c, map Some A @ w @ map Some C, b)) (\<lambda>(c, w, b). U (c, map Some A @ w @ map Some C, b))
    (c, map Some M, b)" "i = length A" "j = length A + length M"
  shows "wp (on_subslice i j p) N U (c, map Some (A @ M @ C), b)"
  using assms by (simp add: wp_on_subslice)

lemma on_subslice_sorts:
  assumes "sorts is_less lt p M n" "length b = n" "i = length A" "j = length A + length M"
    and "\<And>c ys b'. sorted_from is_less lt M ys \<Longrightarrow> length b' = n \<Longrightarrow> N () (c, map Some (A @ ys @ C), b')"
    and "\<And>c ys b'. \<not> lawful is_less lt \<Longrightarrow> mset ys = mset M \<Longrightarrow> length b' = n \<Longrightarrow> U (c, map Some (A @ ys @ C), b')"
  shows "wp (on_subslice i j p) N U (c, map Some (A @ M @ C), b)"
proof (rule wp_on_subsliceI [OF _ assms(3,4)])
  show "wp p (\<lambda>x (c, w, b). N x (c, map Some A @ w @ map Some C, b)) (\<lambda>(c, w, b). U (c, map Some A @ w @ map Some C, b))
      (c, map Some M, b)"
    by (rule sortsD [OF assms(1,2)]) (use assms(5,6) in simp_all)
qed

lemma stable_quicksort_sorts:
  assumes "\<And>limit. sorts is_less lt (qs limit None) xs n"
  shows "sorts is_less lt (stable_quicksort qs) xs n"
  using assms by (simp add: sorts_def stable_quicksort_def wp_fun wp_reads_pure)

section \<open>Runs\<close>

definition run_ok :: "('c, 'a) closure \<Rightarrow> ('a \<Rightarrow> 'a \<Rightarrow> bool) \<Rightarrow> bool \<Rightarrow> nat \<Rightarrow> drift_run \<Rightarrow> 'a list \<Rightarrow> bool" where
  "run_ok is_less lt eager n r seg \<longleftrightarrow> length seg = run_len r \<and>
     (if run_sorted r then lawful is_less lt \<longrightarrow> sorted_by lt seg else \<not> eager \<and> length seg \<le> n)"

lemma run_ok_sorted:
  "length seg \<le> isize_max \<Longrightarrow> (lawful is_less lt \<Longrightarrow> sorted_by lt seg) \<Longrightarrow> l = length seg \<Longrightarrow>
    run_ok is_less lt eager n (new_sorted l) seg"
  by (simp add: run_ok_def run_encoding)

lemma run_ok_unsorted:
  "length seg \<le> isize_max \<Longrightarrow> \<not> eager \<Longrightarrow> length seg \<le> n \<Longrightarrow> l = length seg \<Longrightarrow>
    run_ok is_less lt eager n (new_unsorted l) seg"
  by (simp add: run_ok_def run_encoding)

lemma descending_rev:
  assumes "strict_weak lt" "sorted_wrt (\<lambda>a b. lt b a) xs"
  shows "sorted_by lt (rev xs)" "stable_perm lt xs (rev xs)"
  using assms(2)
proof (induction xs)
  case (Cons x xs)
  {
    case 1
    then show ?case using Cons(1) strict_weak_asym [OF assms(1)] by (auto simp: sorted_by_append sorted_by_Cons)
  next
    case 2
    have "stable_perm lt ([x] @ xs) ([x] @ rev xs)" using 2 Cons(2) by (intro stable_perm_append) auto
    moreover have "stable_perm lt ([x] @ rev xs) (rev xs @ [x])"
      using 2 by (intro stable_perm_commute [OF assms(1)]) auto
    ultimately show ?case using stable_perm_trans [of lt "[x] @ xs" "[x] @ rev xs" "rev xs @ [x]"] by simp
  }
qed simp_all

lemma small_sort_threshold_bounds: "16 \<le> small_sort_threshold ty" "small_sort_threshold ty \<le> 32"
  by (simp_all add: small_sort_threshold_def SMALL_SORT_GENERAL_THRESHOLD_def SMALL_SORT_FALLBACK_THRESHOLD_def)

lemma create_run_wp:
  fixes is_less :: "('c, 'a) closure"
  assumes xs: "xs \<noteq> []" "length xs \<le> isize_max" and b: "length b = n"
    and good: "0 < good" "good \<le> n"
    and qs: "\<And>ys. length ys \<le> small_sort_threshold ty \<Longrightarrow> length ys \<le> length xs \<Longrightarrow> sorts is_less lt (qs 0 None) ys n"
    and N: "\<And>r c seg b'. run_ok is_less lt eager n r seg \<Longrightarrow> 0 < run_len r \<Longrightarrow> run_len r \<le> length xs \<Longrightarrow>
      shuffled is_less lt (take (run_len r) xs) seg \<Longrightarrow> length b' = n \<Longrightarrow>
      N r (c, map Some (seg @ drop (run_len r) xs), b')"
    and U: "\<And>c ys b'. \<not> lawful is_less lt \<Longrightarrow> mset ys = mset xs \<Longrightarrow> length b' = n \<Longrightarrow> U (c, map Some ys, b')"
  shows "wp (create_run ty qs is_less good eager) N U (c, map Some xs, b)"
proof -
  let ?len = "length xs"
  define fallback :: "('c \<times> 'a memory \<times> 'a memory, drift_run) prog" where "fallback = (if eager
    then let eager_run_len = min (small_sort_threshold ty) ?len
         in bind (on_subslice 0 eager_run_len (qs 0 None)) (\<lambda>_. ret (new_sorted eager_run_len))
    else ret (new_unsorted (min good ?len)))"
  have fallback: "wp fallback N U (c, map Some xs, b)" for c
  proof (cases eager)
    case True
    let ?k = "min (small_sort_threshold ty) ?len"
    have k: "?k \<le> isize_max" "0 < ?k" "?k \<le> ?len" using xs small_sort_threshold_bounds(1) [of ty] by auto
    have lt: "length (take ?k xs) = ?k" by simp
    have "wp (on_subslice 0 ?k (qs 0 None)) (\<lambda>_. N (new_sorted ?k)) U (c, map Some ([] @ take ?k xs @ drop ?k xs), b)"
    proof (rule on_subslice_sorts [where is_less = is_less and lt = lt, OF qs b])
      fix c ys and b' :: "'a memory" assume ys: "sorted_from is_less lt (take ?k xs) ys" "length b' = n"
      have "length ys = ?k" using sorted_from_length [OF ys(1)] by simp
      moreover have "N (new_sorted ?k) (c, map Some (ys @ drop (run_len (new_sorted ?k)) xs), b')"
      proof (rule N)
        show "run_ok is_less lt eager n (new_sorted ?k) ys"
          by (rule run_ok_sorted) (use ys(1) k calculation in \<open>auto simp: sorted_from_def\<close>)
        show "shuffled is_less lt (take (run_len (new_sorted ?k)) xs) ys"
          using ys(1) k run_encoding(1) [OF k(1)] by (simp add: sorted_from_iff)
      qed (use k ys run_encoding(1) [OF k(1)] in simp_all)
      ultimately show "N (new_sorted ?k) (c, map Some ([] @ ys @ drop ?k xs), b')" using run_encoding(1) [OF k(1)] by simp
    next
      fix c ys and b' :: "'a memory" assume ys: "\<not> lawful is_less lt" "mset ys = mset (take ?k xs)" "length b' = n"
      have "mset (ys @ drop ?k xs) = mset (take ?k xs @ drop ?k xs)" unfolding mset_append ys(2) ..
      then show "U (c, map Some ([] @ ys @ drop ?k xs), b')" using U [of "ys @ drop ?k xs" b' c] ys by simp
    qed (use lt in simp_all)
    then show ?thesis using True by (simp add: fallback_def wp_fun Let_def)
  next
    case False
    let ?k = "min good ?len"
    have k: "?k \<le> isize_max" "0 < ?k" using xs good by auto
    have "N (new_unsorted ?k) (c, map Some (take ?k xs @ drop (run_len (new_unsorted ?k)) xs), b)"
    proof (rule N)
      show "run_ok is_less lt eager n (new_unsorted ?k) (take ?k xs)"
        by (rule run_ok_unsorted) (use False good xs in auto)
    qed (use k b run_encoding(3) [OF k(1)] in simp_all)
    then show ?thesis using False run_encoding(3) [OF k(1)] by (simp add: fallback_def wp_simps)
  qed
  have found: "wp (if l \<ge> good then bind (if rv then on_subslice 0 l slice_reverse else ret ()) (\<lambda>_. ret (Some (new_sorted l))) else ret None)
      (\<lambda>g. wp (case g of Some run \<Rightarrow> ret run | None \<Rightarrow> fallback) N U) U (c, map Some xs, b)"
    if l: "l \<le> ?len" and run: "lawful is_less lt \<Longrightarrow> if rv then sorted_wrt (\<lambda>a b. lt b a) (take l xs) else sorted_by lt (take l xs)"
    for l rv c
  proof (cases "l \<ge> good")
    case False
    then show ?thesis using fallback by (simp add: wp_simps)
  next
    case True
    have li: "l \<le> isize_max" using l xs(2) by simp
    let ?seg = "if rv then rev (take l xs) else take l xs"
    have seg: "shuffled is_less lt (take l xs) ?seg" "lawful is_less lt \<Longrightarrow> sorted_by lt ?seg"
      using run descending_rev [of lt "take l xs"] lawfulD(2) [of is_less lt] by (auto simp: shuffled_def)
    have "N (new_sorted l) (c, map Some (?seg @ drop (run_len (new_sorted l)) xs), b)"
    proof (rule N)
      show "run_ok is_less lt eager n (new_sorted l) ?seg"
        by (rule run_ok_sorted) (use l li seg in auto)
    qed (use l seg True good b run_encoding(1) [OF li] in simp_all)
    then have fin: "N (new_sorted l) (c, map Some (?seg @ drop l xs), b)" using run_encoding(1) [OF li] by simp
    have "wp (on_subslice 0 l slice_reverse) (\<lambda>_. N (new_sorted l)) U (c, map Some ([] @ take l xs @ drop l xs), b)" if rv
      by (rule wp_on_subsliceI, rule slice_reverse_wp) (use l fin that in simp_all)
    then show ?thesis using True fin by (cases rv) (simp_all add: wp_fun del: map_append)
  qed
  have "wp (find_existing_run is_less) (\<lambda>x (c, v). wp (bind (checks (UB BrokenAssumption) (\<lambda>_. fst x \<le> ?len)) (\<lambda>_.
      if fst x \<ge> good then bind (if snd x then on_subslice 0 (fst x) slice_reverse else ret ()) (\<lambda>_. ret (Some (new_sorted (fst x)))) else ret None))
      (\<lambda>g. wp (case g of Some run \<Rightarrow> ret run | None \<Rightarrow> fallback) N U) U (c, v, b)) (\<lambda>(c, v). U (c, v, b)) (c, map Some xs)"
  proof (rule find_existing_run_wp [where lt = lt])
    fix c :: 'c and l :: usize and rv
    assume "l \<le> ?len" "lawful is_less lt \<Longrightarrow> if rv then sorted_wrt (\<lambda>a b. lt b a) (take l xs) else sorted_by lt (take l xs)"
    from found [OF this] this(1)
    show "case (c, map Some xs) of (c, v) \<Rightarrow> wp (bind (checks (UB BrokenAssumption) (\<lambda>_. fst (l, rv) \<le> ?len)) (\<lambda>_.
      if fst (l, rv) \<ge> good then bind (if snd (l, rv) then on_subslice 0 (fst (l, rv)) slice_reverse else ret ()) (\<lambda>_. ret (Some (new_sorted (fst (l, rv))))) else ret None))
      (\<lambda>g. wp (case g of Some run \<Rightarrow> ret run | None \<Rightarrow> fallback) N U) U (c, v, b)"
      by (simp only: prod.case fst_conv snd_conv wp_bind [of "checks e b" for e b] wp_checks simp_thms)
  next
    fix c assume "\<not> lawful is_less lt"
    then show "case (c, map Some xs) of (c, v) \<Rightarrow> U (c, v, b)" using U [of xs b c] b by simp
  qed
  then show ?thesis
    using fallback [of c] unfolding create_run_def wp_bind wp_reads_pure length_map fallback_def [symmetric]
    by (simp add: wp_fun wp_in_slice case_prod_unfold)
qed

lemma sort_part_wp:
  fixes is_less :: "('c, 'a) closure"
  assumes "run_ok is_less lt eager n r M" "length b = n" "i = length A" "j = length A + length M"
    and qs: "\<And>limit. \<not> run_sorted r \<Longrightarrow> sorts is_less lt (qs limit None) M n"
    and N: "\<And>c M' b'. sorted_from is_less lt M M' \<Longrightarrow> length b' = n \<Longrightarrow> N () (c, map Some (A @ M' @ C), b')"
    and U: "\<And>c M' b'. \<not> lawful is_less lt \<Longrightarrow> mset M' = mset M \<Longrightarrow> length b' = n \<Longrightarrow> U (c, map Some (A @ M' @ C), b')"
  shows "wp (if \<not> run_sorted r then on_subslice i j (stable_quicksort qs) else ret ()) N U (c, map Some (A @ M @ C), b)"
proof (cases "run_sorted r")
  case True
  have "sorted_from is_less lt M M" using assms(1) True by (simp add: sorted_from_iff run_ok_def)
  from N [OF this assms(2)] True show ?thesis by (simp add: wp_ret)
next
  case False
  have "wp (on_subslice i j (stable_quicksort qs)) N U (c, map Some (A @ M @ C), b)"
    by (rule on_subslice_sorts [OF stable_quicksort_sorts [where lt = lt and is_less = is_less]])
      (use qs False assms(2-4) N U in auto)
  then show ?thesis using False by simp
qed

lemma logical_merge_wp:
  fixes is_less :: "('c, 'a) closure"
  assumes runs: "run_ok is_less lt eager n left L" "run_ok is_less lt eager n right R"
    and len: "length (L @ R) \<le> isize_max" "length b = n" "min (length L) (length R) \<le> n"
    and qs: "\<And>ys limit. length ys \<le> length (L @ R) \<Longrightarrow> length ys \<le> n \<Longrightarrow> \<not> eager \<Longrightarrow> sorts is_less lt (qs limit None) ys n"
    and N: "\<And>r c zs b'. run_ok is_less lt eager n r zs \<Longrightarrow> shuffled is_less lt (L @ R) zs \<Longrightarrow> length b' = n \<Longrightarrow> N r (c, map Some zs, b')"
    and U: "\<And>c ys b'. \<not> lawful is_less lt \<Longrightarrow> mset ys = mset (L @ R) \<Longrightarrow> length b' = n \<Longrightarrow> U (c, map Some ys, b')"
  shows "wp (logical_merge qs is_less left right) N U (c, map Some (L @ R), b)"
proof (cases "length (L @ R) \<le> n \<and> \<not> run_sorted left \<and> \<not> run_sorted right")
  case True
  have "N (new_unsorted (length (L @ R))) (c, map Some (L @ R), b)"
    by (rule N [OF run_ok_unsorted]) (use True len runs in \<open>auto simp: run_ok_def\<close>)
  then show ?thesis using True len(2) by (simp add: logical_merge_def wp_bind wp_reads_pure wp_ret)
next
  case False
  have rl: "run_len left = length L" using runs(1) by (simp add: run_ok_def)
  have small: "\<not> run_sorted r \<Longrightarrow> run_ok is_less lt eager n r M \<Longrightarrow> length M \<le> n \<and> \<not> eager" for r M
    by (simp add: run_ok_def)
  have "wp (if \<not> run_sorted left then on_subslice 0 (run_len left) (stable_quicksort qs) else ret ()) (\<lambda>_.
      wp (if \<not> run_sorted right then on_subslice (run_len left) (length (L @ R)) (stable_quicksort qs) else ret ()) (\<lambda>_.
        wp (merge is_less (run_len left)) (\<lambda>_. N (new_sorted (length (L @ R)))) U) U) U (c, map Some ([] @ L @ R), b)"
  proof (rule sort_part_wp [OF runs(1) len(2)])
    fix c L' and b1 :: "'a memory" assume L': "sorted_from is_less lt L L'" and b1: "length b1 = n"
    have ll: "length L' = length L" by (rule sorted_from_length [OF L'])
    have "wp (if \<not> run_sorted right then on_subslice (run_len left) (length (L @ R)) (stable_quicksort qs) else ret ()) (\<lambda>_.
        wp (merge is_less (run_len left)) (\<lambda>_. N (new_sorted (length (L @ R)))) U) U (c, map Some (L' @ R @ []), b1)"
    proof (rule sort_part_wp [OF runs(2) b1])
      fix c R' and b2 :: "'a memory" assume R': "sorted_from is_less lt R R'" and b2: "length b2 = n"
      have lr: "length R' = length R" by (rule sorted_from_length [OF R'])
      have "wp (merge is_less (length L')) (\<lambda>_. N (new_sorted (length (L @ R)))) U (c, map Some (L' @ R'), b2)"
      proof (rule merge_wp [where lt = lt])
        show "lawful is_less lt \<Longrightarrow> sorted_by lt L' \<and> sorted_by lt R'" using L' R' by (auto simp: sorted_from_def)
        fix c zs and b3 :: "'a memory"
        assume zs: "merged (lawful is_less lt) lt L' R' zs" and b3: "length b3 = length b2"
        have s: "sorted_from is_less lt (L @ R) zs"
          by (rule sorted_from_merge [OF L' R']) (use zs in \<open>auto simp: merged_def\<close>)
        then have lz: "length zs = length (L @ R)" by (rule sorted_from_length)
        show "N (new_sorted (length (L @ R))) (c, map Some zs, b3)"
          by (rule N [OF run_ok_sorted]) (use s lz len(1) b3 b2 in \<open>auto simp: sorted_from_iff\<close>)
      next
        fix c zs and b3 :: "'a memory"
        assume zs: "\<not> lawful is_less lt" "mset zs = mset (L' @ R')" "length b3 = length b2"
        then show "U (c, map Some zs, b3)" using L' R' b2 by (intro U) (auto simp: sorted_from_def)
      qed (use len(3) ll lr b2 in simp)
      then show "wp (merge is_less (run_len left)) (\<lambda>_. N (new_sorted (length (L @ R)))) U (c, map Some (L' @ R' @ []), b2)"
        using ll rl by simp
    next
      fix c M' and b' :: "'a memory" assume "\<not> lawful is_less lt" "mset M' = mset R" "length b' = n"
      then show "U (c, map Some (L' @ M' @ []), b')" using L' by (intro U) (auto simp: sorted_from_def)
    next
      show "\<And>limit. \<not> run_sorted right \<Longrightarrow> sorts is_less lt (qs limit None) R n"
        using small [OF _ runs(2)] by (intro qs) auto
    qed (use ll rl in auto)
    then show "wp (if \<not> run_sorted right then on_subslice (run_len left) (length (L @ R)) (stable_quicksort qs) else ret ()) (\<lambda>_.
        wp (merge is_less (run_len left)) (\<lambda>_. N (new_sorted (length (L @ R)))) U) U (c, map Some ([] @ L' @ R), b1)"
      by simp
  next
    fix c M' and b' :: "'a memory" assume "\<not> lawful is_less lt" "mset M' = mset L" "length b' = n"
    then show "U (c, map Some ([] @ M' @ R), b')" by (intro U) auto
  next
    show "\<And>limit. \<not> run_sorted left \<Longrightarrow> sorts is_less lt (qs limit None) L n"
      using small [OF _ runs(1)] by (intro qs) auto
  qed (use rl in auto)
  then show ?thesis using False len(2) by (auto simp: logical_merge_def wp_bind wp_fun wp_reads_pure cong: if_cong)
qed

section \<open>The run stack\<close>

text \<open>\<open>rs\<close> and \<open>ds\<close> are the runs and depths on the stack, bottom first. The bottom is the empty dummy run;
  above it the depths increase strictly, so that there are never more than 66.\<close>

definition stack_ok :: "drift_state \<Rightarrow> drift_run list \<Rightarrow> nat list \<Rightarrow> bool" where
  "stack_ok st rs ds \<longleftrightarrow> dr_stack_len st = length rs \<and> length ds = length rs \<and>
     length (dr_runs st) = 66 \<and> length (dr_depths st) = 66 \<and> segment (dr_runs st) 0 rs \<and> segment (dr_depths st) 0 ds \<and>
     sorted_wrt (<) (tl ds) \<and> (\<forall>d \<in> set ds. d \<le> 64) \<and> (rs \<noteq> [] \<longrightarrow> run_len (hd rs) = 0)"

text \<open>The slice is the concatenation of the segments of the runs and of what has not been scanned.\<close>

definition slice_ok ::
  "('c, 'a) closure \<Rightarrow> ('a \<Rightarrow> 'a \<Rightarrow> bool) \<Rightarrow> bool \<Rightarrow> nat \<Rightarrow> 'a list \<Rightarrow> nat \<Rightarrow> drift_run list \<Rightarrow> 'a list list \<Rightarrow> bool" where
  "slice_ok is_less lt eager n xs scan rs segs \<longleftrightarrow> scan \<le> length xs \<and>
     list_all2 (run_ok is_less lt eager n) rs segs \<and> shuffled is_less lt (take scan xs) (concat segs)"

lemma strict_upto_length:
  assumes "sorted_wrt (<) ds" "\<And>d. d \<in> set ds \<Longrightarrow> d < m"
  shows "length ds \<le> (m :: nat)"
proof -
  have "distinct ds" using assms(1) strict_sorted_iff by blast
  then have "length ds = card (set ds)" by (simp add: distinct_card)
  also have "\<dots> \<le> card {..<m}" using assms(2) by (intro card_mono) auto
  finally show ?thesis by simp
qed

lemma push_run_ok:
  assumes ok: "stack_ok st rs ds" and d: "d \<le> 64" and top: "length rs \<le> 1 \<or> last ds < d"
    and dummy: "rs = [] \<Longrightarrow> run_len (dr_prev_run st) = 0"
  shows "\<exists>st'. push_run d st = Inr st' \<and> stack_ok st' (rs @ [dr_prev_run st]) (ds @ [d]) \<and>
    dr_scan_idx st' = dr_scan_idx st \<and> dr_prev_run st' = dr_prev_run st"
proof -
  have len: "length ds = length rs" "dr_stack_len st = length rs" "length (dr_runs st) = 66" "length (dr_depths st) = 66"
    and seg: "segment (dr_runs st) 0 rs" "segment (dr_depths st) 0 ds"
    and srt: "sorted_wrt (<) (tl ds)" and le: "\<forall>d \<in> set ds. d \<le> 64"
    and hd: "rs \<noteq> [] \<longrightarrow> run_len (hd rs) = 0"
    using ok by (auto simp: stack_ok_def)
  have below: "x < d" if "x \<in> set (tl ds)" for x
  proof -
    have "tl ds \<noteq> []" using that by auto
    then have "1 < length ds" by (cases ds) auto
    then have "1 < length rs" using len(1) by simp
    then have l: "last ds < d" using top by simp
    have t: "last ds = last (tl ds)" using \<open>tl ds \<noteq> []\<close> by (simp add: last_tl)
    have y: "tl ds = butlast (tl ds) @ [last (tl ds)]" using \<open>tl ds \<noteq> []\<close> by simp
    have "x \<in> set (butlast (tl ds)) \<or> x = last (tl ds)" 
      using that by (subst (asm) y) auto
    moreover have "z < last (tl ds)" if "z \<in> set (butlast (tl ds))" for z
      using srt y that by (metis list.set_intros(1) sorted_wrt_append)
    ultimately have "x \<le> last (tl ds)" by (auto intro: less_imp_le)
    then show ?thesis using l t by simp
  qed
  have "length (tl ds) \<le> d" by (rule strict_upto_length [OF srt below])
  then have room: "length rs < 66" using d len by simp
  let ?st = "st\<lparr>dr_runs := (dr_runs st)[length rs := Some (dr_prev_run st)],
    dr_depths := (dr_depths st)[length rs := Some d], dr_stack_len := length rs + 1\<rparr>"
  have "push_run d st = Inr ?st" using len room by (simp add: push_run_def ptr_write_def)
  moreover have "stack_ok ?st (rs @ [dr_prev_run st]) (ds @ [d])"
    unfolding stack_ok_def
  proof (intro conjI)
    show "sorted_wrt (<) (tl (ds @ [d]))" using srt below by (cases ds) (auto simp: sorted_wrt_append)
    show "rs @ [dr_prev_run st] \<noteq> [] \<longrightarrow> run_len (hd (rs @ [dr_prev_run st])) = 0" using hd dummy by (cases rs) auto
  qed (use len seg le d room in \<open>auto simp: segment_snoc\<close>)
  ultimately show ?thesis by auto
qed

lemma wp_liftr [wp_simps]: "wp (liftr r) N U s \<longleftrightarrow> (\<exists>x. r = Inr x \<and> N x s)"
  by (simp add: liftr_def wp_reads)

lemma stack_ok_pop:
  assumes "stack_ok st (rs @ [r]) (ds @ [d])" "rs \<noteq> []"
  shows "stack_ok (st\<lparr>dr_prev_run := p, dr_stack_len := length rs\<rparr>) rs ds"
proof -
  have "ds \<noteq> []" using assms by (auto simp: stack_ok_def)
  then show ?thesis using assms by (auto simp: stack_ok_def segment_snoc sorted_wrt_append)
qed

lemma collapse_runs_wp:
  fixes is_less :: "('c, 'a) closure"
  assumes ok: "stack_ok st rs ds" "slice_ok is_less lt eager n xs (dr_scan_idx st) (rs @ [dr_prev_run st]) segs"
    and b: "length b = n" "length xs \<le> isize_max" "length xs - length xs div 2 \<le> n"
    and qs: "\<And>ys limit. length ys \<le> length xs \<Longrightarrow> length ys \<le> n \<Longrightarrow> \<not> eager \<Longrightarrow> sorts is_less lt (qs limit None) ys n"
    and N: "\<And>st' rs' ds' segs' c b'. stack_ok st' rs' ds' \<Longrightarrow> dr_scan_idx st' = dr_scan_idx st \<Longrightarrow>
      slice_ok is_less lt eager n xs (dr_scan_idx st) (rs' @ [dr_prev_run st']) segs' \<Longrightarrow>
      length rs' \<le> 1 \<or> last ds' < d \<Longrightarrow> (rs' = [] \<Longrightarrow> rs = [] \<and> dr_prev_run st' = dr_prev_run st) \<Longrightarrow> length b' = n \<Longrightarrow>
      N st' (c, map Some (concat segs' @ drop (dr_scan_idx st) xs), b')"
    and U: "\<And>c ys b'. \<not> lawful is_less lt \<Longrightarrow> mset ys = mset xs \<Longrightarrow> length b' = n \<Longrightarrow> U (c, map Some ys, b')"
  shows "wp (collapse_runs qs is_less d st (length rs)) N U (c, map Some (concat segs @ drop (dr_scan_idx st) xs), b)"
  using ok b(1) N
proof (induction "length rs" arbitrary: st rs ds segs c b rule: less_induct)
  case less
  note N = less.prems(4)
  show ?case
  proof (cases "length rs \<le> 1")
    case True
    then have "wp (collapse_runs qs is_less d st (length rs)) N U = wp (ret st) N U"
      by (cases "length rs") (simp_all add: le_Suc_eq)
    then show ?thesis using N [OF less.prems(1) refl less.prems(2)] True less.prems(3) by (simp add: wp_simps)
  next
    case False
    then obtain rs0 left where rs: "rs = rs0 @ [left]" "rs0 \<noteq> []" by (cases rs rule: rev_cases) auto
    then obtain k where k: "length rs = Suc (Suc k)" "length rs0 = Suc k" using False by (cases rs0) auto
    have "length ds = length rs" using less.prems(1) by (simp add: stack_ok_def)
    then obtain ds0 dp where ds: "ds = ds0 @ [dp]" "length ds0 = length rs0" using rs by (cases ds rule: rev_cases) auto
    have top: "dr_runs st ! Suc k = Some left" "dr_depths st ! Suc k = Some dp" "length (dr_runs st) = 66"
        "length (dr_depths st) = 66" "Suc k < 66"
      using less.prems(1) k ds(2) by (auto simp: stack_ok_def rs(1) ds(1) segment_snoc)
    let ?scan = "dr_scan_idx st" and ?prev = "dr_prev_run st"
    have sl: "?scan \<le> length xs" "list_all2 (run_ok is_less lt eager n) (rs @ [?prev]) segs"
        "shuffled is_less lt (take ?scan xs) (concat segs)"
      using less.prems(2) by (auto simp: slice_ok_def)
    obtain s0 L M where segs: "segs = s0 @ [L, M]" "list_all2 (run_ok is_less lt eager n) rs0 s0"
        "run_ok is_less lt eager n left L" "run_ok is_less lt eager n ?prev M"
      using sl(2) unfolding rs(1) by (auto simp: list_all2_append1 list_all2_Cons1)
    have scan: "length (concat s0) + (length L + length M) = ?scan"
      using shuffled_length [OF sl(3)] sl(1) by (simp add: segs(1))
    have lens: "run_len left = length L" "run_len ?prev = length M" using segs(3,4) by (simp_all add: run_ok_def)
    let ?st = "\<lambda>p. st\<lparr>dr_prev_run := p, dr_stack_len := Suc k\<rparr>"
    show ?thesis
    proof (cases "dp \<ge> d")
      case False
      then have "wp (ret st) N U (c, map Some (concat segs @ drop ?scan xs), b)"
        using N [OF less.prems(1) refl less.prems(2)] less.prems(3) rs(1) by (simp add: wp_ret ds(1))
      then show ?thesis using False top by (simp add: k wp_bind wp_liftr)
    next
      case True
      have "wp (logical_merge qs is_less left ?prev)
        (\<lambda>p (c, w, b). wp (collapse_runs qs is_less d (?st p) (Suc k)) N U (c, map Some (concat s0) @ w @ map Some (drop ?scan xs), b))
        (\<lambda>(c, w, b). U (c, map Some (concat s0) @ w @ map Some (drop ?scan xs), b)) (c, map Some (L @ M), b)"
      proof (rule logical_merge_wp [OF segs(3,4)])
        show "length (L @ M) \<le> isize_max" using scan sl(1) b(2) by simp
        show "min (length L) (length M) \<le> n" using scan sl(1) b(3) by linarith
        show "\<And>ys limit. length ys \<le> length (L @ M) \<Longrightarrow> length ys \<le> n \<Longrightarrow> \<not> eager \<Longrightarrow> sorts is_less lt (qs limit None) ys n"
          using scan sl(1) by (intro qs) auto
      next
        fix r c zs and b' :: "'a memory"
        assume r: "run_ok is_less lt eager n r zs" and zs: "shuffled is_less lt (L @ M) zs" and b': "length b' = n"
        have "wp (collapse_runs qs is_less d (?st r) (length rs0)) N U
            (c, map Some (concat (s0 @ [zs]) @ drop (dr_scan_idx (?st r)) xs), b')"
        proof (rule less.hyps [where ds = ds0])
          show "stack_ok (?st r) rs0 ds0" using stack_ok_pop [of st rs0 left ds0 dp r] less.prems(1) rs ds k by simp
          have "shuffled is_less lt (concat s0 @ L @ M) (concat s0 @ zs)" by (intro shuffled_append shuffled_refl zs)
          then have "shuffled is_less lt (take ?scan xs) (concat (s0 @ [zs]))"
            using shuffled_trans [OF sl(3)] by (simp add: segs(1))
          then show "slice_ok is_less lt eager n xs (dr_scan_idx (?st r)) (rs0 @ [dr_prev_run (?st r)]) (s0 @ [zs])"
            using sl(1) segs(2) r by (simp add: slice_ok_def list_all2_appendI)
        next
          fix st' rs' ds' segs' c and b' :: "'a memory"
          assume "stack_ok st' rs' ds'" "dr_scan_idx st' = dr_scan_idx (?st r)"
            "slice_ok is_less lt eager n xs (dr_scan_idx (?st r)) (rs' @ [dr_prev_run st']) segs'"
            "length rs' \<le> 1 \<or> last ds' < d" "rs' = [] \<Longrightarrow> rs0 = [] \<and> dr_prev_run st' = dr_prev_run (?st r)" "length b' = n"
          then show "N st' (c, map Some (concat segs' @ drop (dr_scan_idx (?st r)) xs), b')"
            using N [of st' rs' ds' segs' b' c] rs(2) by auto
        qed (use rs b' in simp_all)
        then show "case (c, map Some zs, b') of (c, w, b) \<Rightarrow> wp (collapse_runs qs is_less d (?st r) (Suc k)) N U
            (c, map Some (concat s0) @ w @ map Some (drop ?scan xs), b)"
          by (simp add: k)
      next
        fix c ys and b' :: "'a memory" assume u: "\<not> lawful is_less lt" "mset ys = mset (L @ M)" "length b' = n"
        have "mset (concat s0 @ ys @ drop ?scan xs) = mset (take ?scan xs @ drop ?scan xs)"
          using u(2) sl(3) unfolding mset_append by (simp add: segs(1) shuffled_def)
        then show "case (c, map Some ys, b') of (c, w, b) \<Rightarrow> U (c, map Some (concat s0) @ w @ map Some (drop ?scan xs), b)"
          using U [of "concat s0 @ ys @ drop ?scan xs" b' c] u by simp
      qed (use less.prems(3) in simp)
      then have "wp (on_subslice (length (concat s0)) ?scan (logical_merge qs is_less left ?prev))
          (\<lambda>p. wp (collapse_runs qs is_less d (?st p) (Suc k)) N U) U (c, map Some (concat s0 @ (L @ M) @ drop ?scan xs), b)"
        by (rule wp_on_subsliceI) (use scan in simp_all)
      moreover have "?scan - (length L + length M) = length (concat s0)" "length L + length M \<le> ?scan"
        using scan by linarith+
      ultimately show ?thesis using True top sl(1) scan
        by (simp add: k lens wp_bind wp_fun wp_liftr wp_checks Let_def segs(1) del: length_concat)
    qed
  qed
qed

lemma drift_loop_wp:
  fixes is_less :: "('c, 'a) closure"
  assumes ok: "stack_ok st rs ds" "slice_ok is_less lt eager n xs (dr_scan_idx st) (rs @ [dr_prev_run st]) segs"
      "rs = [] \<Longrightarrow> run_len (dr_prev_run st) = 0"
    and fuel: "m - dr_scan_idx st < k" and m: "length xs = m" "2 \<le> m" "m \<le> isize_max" "m - m div 2 \<le> n"
    and b: "length b = n" and good: "0 < good" "good \<le> n"
    and small: "\<And>ys. length ys \<le> small_sort_threshold ty \<Longrightarrow> length ys \<le> m \<Longrightarrow> sorts is_less lt (qs 0 None) ys n"
    and qs: "\<And>ys limit. length ys \<le> m \<Longrightarrow> length ys \<le> n \<Longrightarrow> \<not> eager \<Longrightarrow> sorts is_less lt (qs limit None) ys n"
    and N: "\<And>r c ys b'. run_ok is_less lt eager n r ys \<Longrightarrow> shuffled is_less lt xs ys \<Longrightarrow> length b' = n \<Longrightarrow> N r (c, map Some ys, b')"
    and U: "\<And>c ys b'. \<not> lawful is_less lt \<Longrightarrow> mset ys = mset xs \<Longrightarrow> length b' = n \<Longrightarrow> U (c, map Some ys, b')"
  shows "wp (drift_loop ty qs is_less eager m scale good k st) N U (c, map Some (concat segs @ drop (dr_scan_idx st) xs), b)"
  using ok fuel m(1) b N U
proof (induction k arbitrary: st rs ds segs xs c b)
  case 0
  then show ?case by simp
next
  case (Suc k)
  note N = Suc.prems(7) and U = Suc.prems(8) and lx = Suc.prems(5)
  let ?scan = "dr_scan_idx st" and ?prev = "dr_prev_run st"
  have sl: "?scan \<le> length xs" "list_all2 (run_ok is_less lt eager n) (rs @ [?prev]) segs"
      "shuffled is_less lt (take ?scan xs) (concat segs)"
    using Suc.prems(2) by (auto simp: slice_ok_def)
  have lsegs: "length (concat segs) = ?scan" using shuffled_length [OF sl(3)] sl(1) by simp
  define turn :: "drift_run \<times> nat \<Rightarrow> ('c \<times> 'a memory \<times> 'a memory, drift_run) prog" where "turn = (\<lambda>(next_run, d).
    bind (collapse_runs qs is_less d st (dr_stack_len st)) (\<lambda>st.
    bind (liftr (push_run d st)) (\<lambda>st.
      if dr_scan_idx st \<ge> m then ret (dr_prev_run st)
      else drift_loop ty qs is_less eager m scale good k
             (st\<lparr>dr_scan_idx := dr_scan_idx st + run_len next_run, dr_prev_run := next_run\<rparr>))))"
  have stack: "dr_stack_len st = length rs" using Suc.prems(1) by (simp add: stack_ok_def)
  have turn: "wp (turn (r, d)) N U (c, map Some (concat segs @ drop ?scan xs'), b)"
    if b: "length b = n" and d: "d \<le> 64" and xs': "length xs' = m" "shuffled is_less lt xs xs'" "take ?scan xs' = take ?scan xs"
      and step: "\<And>st' rs' ds' segs' c b'. stack_ok st' (rs' @ [dr_prev_run st']) (ds' @ [d]) \<Longrightarrow> dr_scan_idx st' = ?scan \<Longrightarrow>
        slice_ok is_less lt eager n xs' ?scan (rs' @ [dr_prev_run st']) segs' \<Longrightarrow>
        length rs' \<le> 1 \<or> last ds' < d \<Longrightarrow> (rs' = [] \<Longrightarrow> rs = []) \<Longrightarrow> length b' = n \<Longrightarrow>
        wp (if dr_scan_idx st' \<ge> m then ret (dr_prev_run st') else drift_loop ty qs is_less eager m scale good k
             (st'\<lparr>dr_scan_idx := dr_scan_idx st' + run_len r, dr_prev_run := r\<rparr>)) N U (c, map Some (concat segs' @ drop ?scan xs'), b')"
    for r d xs' c b
  proof -
    have "wp (collapse_runs qs is_less d st (length rs)) (\<lambda>st. wp (liftr (push_run d st)) (\<lambda>st.
        wp (if dr_scan_idx st \<ge> m then ret (dr_prev_run st) else drift_loop ty qs is_less eager m scale good k
             (st\<lparr>dr_scan_idx := dr_scan_idx st + run_len r, dr_prev_run := r\<rparr>)) N U) U) U
        (c, map Some (concat segs @ drop ?scan xs'), b)"
    proof (rule collapse_runs_wp [OF Suc.prems(1) _ b])
      show "slice_ok is_less lt eager n xs' ?scan (rs @ [?prev]) segs"
        using Suc.prems(2) xs' lx by (simp add: slice_ok_def)
    next
      fix st' rs' ds' segs' c and b' :: "'a memory"
      assume c: "stack_ok st' rs' ds'" "dr_scan_idx st' = ?scan"
        "slice_ok is_less lt eager n xs' ?scan (rs' @ [dr_prev_run st']) segs'" "length rs' \<le> 1 \<or> last ds' < d"
        "rs' = [] \<Longrightarrow> rs = [] \<and> dr_prev_run st' = ?prev" "length b' = n"
      obtain st'' where st'': "push_run d st' = Inr st''" "stack_ok st'' (rs' @ [dr_prev_run st'']) (ds' @ [d])"
          "dr_scan_idx st'' = ?scan" "dr_prev_run st'' = dr_prev_run st'"
        using push_run_ok [OF c(1) d c(4)] c(2,5) Suc.prems(3) by auto
      show "wp (liftr (push_run d st')) (\<lambda>st.
        wp (if dr_scan_idx st \<ge> m then ret (dr_prev_run st) else drift_loop ty qs is_less eager m scale good k
             (st\<lparr>dr_scan_idx := dr_scan_idx st + run_len r, dr_prev_run := r\<rparr>)) N U) U (c, map Some (concat segs' @ drop ?scan xs'), b')"
        using step [OF st''(2,3)] c(3-6) st'' by (simp only: wp_liftr) auto
    next
      fix c ys and b' :: "'a memory" assume "\<not> lawful is_less lt" "mset ys = mset xs'" "length b' = n"
      then show "U (c, map Some ys, b')" using U [of ys b' c] xs'(2) by (simp add: shuffled_def)
    qed (use qs m xs' in simp_all)
    then show ?thesis by (simp add: turn_def wp_fun stack)
  qed
  show ?case
  proof (cases "?scan < m")
    case False
    then have scan: "?scan = m" using sl(1) lx by simp
    have "wp (turn (new_sorted 0, 0)) N U (c, map Some (concat segs @ drop ?scan xs), b)"
    proof (rule turn [OF Suc.prems(6)])
      fix st' rs' ds' segs' c and b' :: "'a memory"
      assume c: "stack_ok st' (rs' @ [dr_prev_run st']) (ds' @ [0])" "dr_scan_idx st' = ?scan"
        "slice_ok is_less lt eager n xs ?scan (rs' @ [dr_prev_run st']) segs'" "length rs' \<le> 1 \<or> last ds' < 0"
        "rs' = [] \<Longrightarrow> rs = []" "length b' = n"
      have ne: "rs' \<noteq> []"
      proof
        assume "rs' = []"
        then have "rs = []" by (rule c(5))
        then have "length (concat segs) = 0" using sl(2) Suc.prems(3) by (auto simp: list_all2_Cons1 run_ok_def)
        then show False using lsegs scan m(2) by simp
      qed
      then obtain d0 where rs': "rs' = [d0]" using c(4) by (cases rs') auto
      have "run_len d0 = 0" using c(1) by (simp add: rs' stack_ok_def)
      moreover obtain s0 seg where segs': "segs' = [s0, seg]" "run_ok is_less lt eager n d0 s0"
          "run_ok is_less lt eager n (dr_prev_run st') seg"
        using c(3) by (auto simp: rs' slice_ok_def list_all2_Cons1)
      ultimately have "s0 = []" by (simp add: run_ok_def)
      then have "shuffled is_less lt xs seg" using c(3) scan lx segs'(1) by (simp add: slice_ok_def)
      then have "N (dr_prev_run st') (c, map Some seg, b')" using N segs'(3) c(6) by blast
      then show "wp (if dr_scan_idx st' \<ge> m then ret (dr_prev_run st') else drift_loop ty qs is_less eager m scale good k
             (st'\<lparr>dr_scan_idx := dr_scan_idx st' + run_len (new_sorted 0), dr_prev_run := new_sorted 0\<rparr>)) N U
             (c, map Some (concat segs' @ drop ?scan xs), b')"
        using c(2) scan lx segs'(1) \<open>s0 = []\<close> by (simp add: wp_ret)
    qed (use lx in simp_all)
    then show ?thesis using False by (simp add: wp_bind wp_ret turn_def)
  next
    case True
    have "wp (create_run ty qs is_less good eager)
      (\<lambda>r (c, w, b). wp (turn (r, merge_tree_depth (wrapping_sub ?scan (run_len ?prev)) ?scan (?scan + run_len r) scale)) N U
        (c, map Some (concat segs) @ w @ map Some [], b))
      (\<lambda>(c, w, b). U (c, map Some (concat segs) @ w @ map Some [], b)) (c, map Some (drop ?scan xs), b)"
    proof (rule create_run_wp [where is_less = is_less and lt = lt])
      fix r c seg and b' :: "'a memory"
      assume r: "run_ok is_less lt eager n r seg" "0 < run_len r" "run_len r \<le> length (drop ?scan xs)"
        "shuffled is_less lt (take (run_len r) (drop ?scan xs)) seg" "length b' = n"
      let ?l = "run_len r"
      let ?xs = "take ?scan xs @ seg @ drop ?l (drop ?scan xs)"
      have lseg: "length seg = ?l" using r(1) by (simp add: run_ok_def)
      have len: "length ?xs = m" using lseg r(3) sl(1) lx by simp
      have "shuffled is_less lt (take ?scan xs @ take ?l (drop ?scan xs) @ drop ?l (drop ?scan xs)) ?xs"
        by (intro shuffled_append shuffled_refl r(4))
      then have sh: "shuffled is_less lt xs ?xs" by (simp only: append_take_drop_id)
      have tk: "take ?scan ?xs = take ?scan xs" "drop ?scan ?xs = seg @ drop ?l (drop ?scan xs)" using sl(1) by simp_all
      let ?d = "merge_tree_depth (wrapping_sub ?scan (run_len ?prev)) ?scan (?scan + ?l) scale"
      have "wp (turn (r, ?d)) N U (c, map Some (concat segs @ drop ?scan ?xs), b')"
      proof (rule turn [OF r(5) merge_tree_depth_le len sh tk(1)])
        fix st' rs' ds' segs' c and b' :: "'a memory"
        assume s: "stack_ok st' (rs' @ [dr_prev_run st']) (ds' @ [?d])" "dr_scan_idx st' = ?scan"
          "slice_ok is_less lt eager n ?xs ?scan (rs' @ [dr_prev_run st']) segs'" "length b' = n"
        let ?st = "st'\<lparr>dr_scan_idx := ?scan + ?l, dr_prev_run := r\<rparr>"
        have s3: "list_all2 (run_ok is_less lt eager n) (rs' @ [dr_prev_run st']) segs'"
            "shuffled is_less lt (take ?scan xs) (concat segs')"
          using s(3) unfolding slice_ok_def tk(1) by blast+
        have dr: "drop (?scan + ?l) ?xs = drop ?l (drop ?scan xs)" using lseg sl(1) by simp
        have "drop (dr_scan_idx ?st) ?xs = drop ?l (drop ?scan xs)" using dr by (simp del: drop_append drop_drop)
        then have e: "concat (segs' @ [seg]) @ drop (dr_scan_idx ?st) ?xs = concat segs' @ drop ?scan ?xs"
          unfolding tk(2) by (simp only: concat_append concat.simps append_assoc append_Nil2)
        have "wp (drift_loop ty qs is_less eager m scale good k ?st) N U
          (c, map Some (concat (segs' @ [seg]) @ drop (dr_scan_idx ?st) ?xs), b')"
        proof (rule Suc.IH)
          show "stack_ok ?st (rs' @ [dr_prev_run st']) (ds' @ [?d])" using s(1) by (simp add: stack_ok_def)
          have "take (?scan + ?l) ?xs = take ?scan xs @ seg" using lseg sl(1) by simp
          moreover have "shuffled is_less lt (take ?scan xs @ seg) (concat segs' @ seg)"
            by (intro shuffled_append shuffled_refl s3(2))
          ultimately show "slice_ok is_less lt eager n ?xs (dr_scan_idx ?st) ((rs' @ [dr_prev_run st']) @ [dr_prev_run ?st]) (segs' @ [seg])"
            using list_all2_appendI [OF s3(1), of "[r]" "[seg]"] r(1,3) len sl(1) lx by (simp add: slice_ok_def)
          show "m - dr_scan_idx ?st < k" using Suc.prems(4) r(2) True by simp
        next
          fix r' c ys and b'' :: "'a memory"
          assume "run_ok is_less lt eager n r' ys" "shuffled is_less lt ?xs ys" "length b'' = n"
          then show "N r' (c, map Some ys, b'')" using N shuffled_trans [OF sh] by blast
        next
          fix c ys and b'' :: "'a memory" assume "\<not> lawful is_less lt" "mset ys = mset ?xs" "length b'' = n"
          then show "U (c, map Some ys, b'')" using U [of ys b'' c] sh by (simp add: shuffled_def)
        qed (use len s(4) in simp_all)
        then show "wp (if dr_scan_idx st' \<ge> m then ret (dr_prev_run st') else drift_loop ty qs is_less eager m scale good k
             (st'\<lparr>dr_scan_idx := dr_scan_idx st' + ?l, dr_prev_run := r\<rparr>)) N U (c, map Some (concat segs' @ drop ?scan ?xs), b')"
          unfolding e using True s(2) by simp
      qed
      then show "case (c, map Some (seg @ drop ?l (drop ?scan xs)), b') of (c, w, b) \<Rightarrow> wp (turn (r, ?d)) N U
        (c, map Some (concat segs) @ w @ map Some [], b)"
        unfolding tk(2) by simp
    next
      fix c ys and b' :: "'a memory" assume u: "\<not> lawful is_less lt" "mset ys = mset (drop ?scan xs)" "length b' = n"
      have "mset (concat segs @ ys) = mset (take ?scan xs @ drop ?scan xs)"
        using u(2) sl(3) unfolding mset_append by (simp add: shuffled_def)
      then show "case (c, map Some ys, b') of (c, w, b) \<Rightarrow> U (c, map Some (concat segs) @ w @ map Some [], b)"
        using U [of "concat segs @ ys" b' c] u by simp
    qed (use True lx m Suc.prems(6) good small in simp_all)
    then have "wp (on_subslice ?scan m (create_run ty qs is_less good eager))
      (\<lambda>r. wp (turn (r, merge_tree_depth (wrapping_sub ?scan (run_len ?prev)) ?scan (?scan + run_len r) scale)) N U) U
      (c, map Some (concat segs @ drop ?scan xs @ []), b)"
      by (rule wp_on_subsliceI) (use lsegs lx sl(1) in simp_all)
    then show ?thesis using True by (simp add: wp_fun turn_def)
  qed
qed

lemma drift_sort_sorts:
  fixes is_less :: "('c, 'a) closure"
  assumes len: "length xs \<le> isize_max" "length xs - length xs div 2 \<le> n"
    and small: "\<And>ys. length ys \<le> small_sort_threshold ty \<Longrightarrow> length ys \<le> length xs \<Longrightarrow> sorts is_less lt (qs 0 None) ys n"
    and qs: "\<And>ys limit. length ys \<le> length xs \<Longrightarrow> length ys \<le> n \<Longrightarrow> \<not> eager \<Longrightarrow> sorts is_less lt (qs limit None) ys n"
  shows "sorts is_less lt (drift_sort ty qs is_less eager) xs n"
  unfolding sorts_def
proof (intro allI impI)
  fix c and b :: "'a memory" assume b: "length b = n"
  let ?D = "sort_done is_less lt xs n" and ?W = "sort_unwound is_less lt xs n" and ?m = "length xs"
  show "wp (drift_sort ty qs is_less eager) (\<lambda>_. ?D) ?W (c, map Some xs, b)"
  proof (cases "?m < 2")
    case True
    then have "?D (c, map Some xs, b)" using b by (intro sort_doneI sorted_from_short) simp_all
    then show ?thesis using True by (simp add: drift_sort_def wp_bind wp_reads_pure wp_ret)
  next
    case False
    have "wp (drift_loop ty qs is_less eager ?m (merge_tree_scale_factor ?m) (min_good_run_len ?m) (?m + 1) drift_start)
      (\<lambda>r. wp (if \<not> run_sorted r then stable_quicksort qs else ret ()) (\<lambda>_. ?D) ?W) ?W
      (c, map Some (concat [[]] @ drop (dr_scan_idx drift_start) xs), b)"
    proof (rule drift_loop_wp [where lt = lt and is_less = is_less and xs = xs and n = n and rs = "[]" and ds = "[]"])
      show "stack_ok drift_start [] []" by (simp add: stack_ok_def drift_start_def)
      show "slice_ok is_less lt eager n xs (dr_scan_idx drift_start) ([] @ [dr_prev_run drift_start]) [[]]"
        by (simp add: slice_ok_def drift_start_def run_ok_def run_encoding)
      show "run_len (dr_prev_run drift_start) = 0" by (simp add: drift_start_def run_encoding)
      show "?m - dr_scan_idx drift_start < ?m + 1" by (simp add: drift_start_def)
      show "0 < min_good_run_len ?m" "min_good_run_len ?m \<le> n"
        using min_good_run_len_bounds [of ?m] len False by simp_all
    next
      fix r c ys and b' :: "'a memory"
      assume r: "run_ok is_less lt eager n r ys" "shuffled is_less lt xs ys" "length b' = n"
      have ly: "length ys = ?m" by (rule shuffled_length [OF r(2)])
      show "wp (if \<not> run_sorted r then stable_quicksort qs else ret ()) (\<lambda>_. ?D) ?W (c, map Some ys, b')"
      proof (cases "run_sorted r")
        case True
        then have "?D (c, map Some ys, b')" using r by (intro sort_doneI) (auto simp: sorted_from_iff run_ok_def)
        then show ?thesis using True by (simp add: wp_ret)
      next
        case False
        have "wp (stable_quicksort qs) (\<lambda>_. ?D) ?W (c, map Some ys, b')"
        proof (rule sortsD [OF stable_quicksort_sorts [where is_less = is_less and lt = lt] r(3)])
          show "\<And>limit. sorts is_less lt (qs limit None) ys n" using False r(1) ly by (intro qs) (auto simp: run_ok_def)
        next
          fix c zs and b' :: "'a memory" assume "sorted_from is_less lt ys zs" "length b' = n"
          then show "?D (c, map Some zs, b')" using r(2) by (intro sort_doneI) (auto simp: sorted_from_iff intro: shuffled_trans)
        next
          fix c zs and b' :: "'a memory" assume "\<not> lawful is_less lt" "mset zs = mset ys" "length b' = n"
          then show "?W (c, map Some zs, b')" using r(2) by (intro sort_unwoundI) (simp_all add: shuffled_def)
        qed
        then show ?thesis using False by simp
      qed
    qed (use False len b small qs in auto)
    then show ?thesis using False by (simp add: drift_sort_def wp_fun wp_reads_pure drift_start_def)
  qed
qed

section \<open>Quicksort\<close>

lemma computes_flipped: "computes is_less lt \<Longrightarrow> computes (flipped is_less) (\<lambda>a b. \<not> lt b a)"
  unfolding computes_def flipped_def by (auto split: prod.split) (metis fst_conv)

lemma stable_perm_partition:
  assumes "\<And>x y. eqv lt x y \<Longrightarrow> P x = P y"
  shows "stable_perm lt xs (filter P xs @ filter (\<lambda>x. \<not> P x) xs)"
  unfolding stable_perm_def
proof
  fix a
  have "filter (eqv lt a) (filter P xs) = (if P a then filter (eqv lt a) xs else [])"
    "filter (eqv lt a) (filter (\<lambda>x. \<not> P x) xs) = (if P a then [] else filter (eqv lt a) xs)"
    using assms [of a] by (auto simp: filter_empty_conv intro: filter_cong)
  then show "filter (eqv lt a) xs = filter (eqv lt a) (filter P xs @ filter (\<lambda>x. \<not> P x) xs)" by simp
qed

lemma stable_perm_less_part:
  assumes "strict_weak lt"
  shows "stable_perm lt xs (filter (\<lambda>x. lt x p) xs @ filter (\<lambda>x. \<not> lt x p) xs)"
    and "stable_perm lt xs (filter (\<lambda>x. \<not> lt p x) xs @ filter (\<lambda>x. \<not> \<not> lt p x) xs)"
proof -
  have "lt x p = lt y p" "lt p x = lt p y" if "eqv lt x y" for x y
    using that strict_weak_neg [OF assms] unfolding eqv_def by blast+
  then show "stable_perm lt xs (filter (\<lambda>x. lt x p) xs @ filter (\<lambda>x. \<not> lt x p) xs)"
    "stable_perm lt xs (filter (\<lambda>x. \<not> lt p x) xs @ filter (\<lambda>x. \<not> \<not> lt p x) xs)"
    by (intro stable_perm_partition; blast)+
qed

text \<open>Sorting the two sides of a partition.\<close>

lemma sorted_from_sides:
  assumes "mset (A @ B) = mset xs" "sorted_from is_less lt A A'" "sorted_from is_less lt B B'"
    and "lawful is_less lt \<Longrightarrow> stable_perm lt xs (A @ B) \<and> (\<forall>a \<in> set A. \<forall>b \<in> set B. \<not> lt b a)"
  shows "sorted_from is_less lt xs (A' @ B')"
  unfolding sorted_from_def
proof (intro conjI impI)
  have m: "mset A' = mset A" "mset B' = mset B" using assms(2,3) by (simp_all add: sorted_from_def)
  then show "mset (A' @ B') = mset xs" using assms(1) by simp
  assume law: "lawful is_less lt"
  have s: "set A' = set A" "set B' = set B" using m by (auto dest: mset_eq_setD)
  show "sorted_by lt (A' @ B')" using assms(2-4) law s by (auto simp: sorted_by_append sorted_from_def)
  show "stable_perm lt xs (A' @ B')"
    using assms(2-4) law by (auto simp: sorted_from_def intro: stable_perm_trans stable_perm_append)
qed

lemma sort_unwound_append:
  "\<not> lawful is_less lt \<Longrightarrow> mset A' = mset A \<Longrightarrow> mset B' = mset B \<Longrightarrow> mset (A @ B) = mset xs \<Longrightarrow> length b = n \<Longrightarrow>
    sort_unwound is_less lt xs n (c, map Some (A' @ B'), b)"
  by (rule sort_unwoundI) simp_all

lemma equal_partition_sorts:
  fixes is_less :: "('c, 'a) closure"
  assumes xs: "pv < length xs" "length xs \<le> n"
    and least: "lawful is_less lt \<Longrightarrow> \<forall>x \<in> set xs. \<not> lt x (xs ! pv)"
    and qs: "\<And>ys. length ys < length xs \<Longrightarrow> sorts is_less lt q ys n"
  shows "sorts is_less lt (bind (stable_partition ty (flipped is_less) pv True) (\<lambda>mid. on_subslice mid (length xs) q)) xs n"
  unfolding sorts_def
proof (intro allI impI)
  fix c and b :: "'a memory" assume b: "length b = n"
  let ?D = "sort_done is_less lt xs n" and ?W = "sort_unwound is_less lt xs n" and ?p = "xs ! pv"
  have "wp (stable_partition ty (flipped is_less) pv True) (\<lambda>mid. wp (on_subslice mid (length xs) q) (\<lambda>_. ?D) ?W) ?W (c, map Some xs, b)"
  proof (rule stable_partition_wp [where law = "lawful is_less lt" and g = "\<lambda>a b. \<not> lt b a"])
    show "lawful is_less lt \<Longrightarrow> computes (flipped is_less) (\<lambda>a b. \<not> lt b a) \<and> (\<not> lt ?p ?p) = True"
      using computes_flipped strict_weak_irrefl by (auto simp: lawful_def)
  next
    fix A B c and b' :: "'a memory"
    assume ab: "mset (A @ B) = mset xs" "length b' = length b" "True \<Longrightarrow> A \<noteq> []"
      "lawful is_less lt \<Longrightarrow> A = filter (\<lambda>x. \<not> lt ?p x) xs \<and> B = filter (\<lambda>x. \<not> \<not> lt ?p x) xs"
    have len: "length A + length B = length xs" using mset_eq_length [OF ab(1)] by simp
    have "length A \<noteq> 0" using ab(3) by simp
    then have less: "length B < length xs" using len by linarith
    have "wp (on_subslice (length A) (length xs) q) (\<lambda>_. ?D) ?W (c, map Some (A @ B @ []), b')"
    proof (rule on_subslice_sorts [OF qs])
      fix c B' and b'' :: "'a memory" assume B': "sorted_from is_less lt B B'" "length b'' = n"
      have "sorted_from is_less lt xs (A @ B')"
      proof (rule sorted_from_sides [OF ab(1) _ B'(1)])
        show "sorted_from is_less lt A A"
        proof (rule sorted_from_iff [THEN iffD2], intro conjI impI shuffled_refl)
          assume law: "lawful is_less lt"
          then have "\<not> lt y x" if "x \<in> set A" "y \<in> set A" for x y
            using ab(4) least that strict_weak_neg [OF lawfulD(2) [OF law], of y ?p x] by auto
          then show "sorted_by lt A" by (auto simp: sorted_by_def sorted_wrt_iff_nth_less)
        qed
        assume law: "lawful is_less lt"
        note sw = lawfulD(2) [OF law]
        have "\<not> lt y x" if "x \<in> set A" "y \<in> set B" for x y
          using ab(4) [OF law] that strict_weak_trans [OF sw, of ?p y x] by auto
        then show "stable_perm lt xs (A @ B) \<and> (\<forall>x \<in> set A. \<forall>y \<in> set B. \<not> lt y x)"
          using ab(4) [OF law] stable_perm_less_part(2) [OF sw, of xs ?p] by simp
      qed
      from sort_doneI [OF this B'(2)] show "?D (c, map Some (A @ B' @ []), b'')" by simp
    next
      fix c B' and b'' :: "'a memory" assume "\<not> lawful is_less lt" "mset B' = mset B" "length b'' = n"
      then show "?W (c, map Some (A @ B' @ []), b'')" using ab(1) by (intro sort_unwound_append) simp_all
    qed (use less ab(2) b len in auto)
    then show "wp (on_subslice (length A) (length xs) q) (\<lambda>_. ?D) ?W (c, map Some (A @ B), b')" by simp
  next
    fix c and b' :: "'a memory" assume "\<And>f. \<not> computes (flipped is_less) f" "length b' = length b"
    then show "?W (c, map Some xs, b')" using computes_flipped b by (intro sort_unwoundI) (auto simp: lawful_def)
  qed (use xs b in auto)
  then show "wp (bind (stable_partition ty (flipped is_less) pv True) (\<lambda>mid. on_subslice mid (length xs) q)) (\<lambda>_. ?D) ?W (c, map Some xs, b)"
    by (simp only: wp_fun)
qed

lemma two_sides_wp:
  fixes is_less :: "('c, 'a) closure"
  assumes ab: "mset (A @ B) = mset xs" "length b = n"
    and law: "lawful is_less lt \<Longrightarrow> A = filter (\<lambda>x. lt x p) xs \<and> B = filter (\<lambda>x. \<not> lt x p) xs"
    and q: "sorts is_less lt q1 B n" "sorts is_less lt q2 A n"
  shows "wp (bind (on_subslice (length A) (length xs) q1) (\<lambda>_. on_subslice 0 (length A) q2))
    (\<lambda>_. sort_done is_less lt xs n) (sort_unwound is_less lt xs n) (c, map Some (A @ B), b)"
proof -
  let ?D = "sort_done is_less lt xs n" and ?W = "sort_unwound is_less lt xs n"
  have len: "length A + length B = length xs" using mset_eq_length [OF ab(1)] by simp
  have "wp (on_subslice (length A) (length xs) q1) (\<lambda>_. wp (on_subslice 0 (length A) q2) (\<lambda>_. ?D) ?W) ?W (c, map Some (A @ B @ []), b)"
  proof (rule on_subslice_sorts [OF q(1) ab(2)])
    fix c B' and b' :: "'a memory" assume B': "sorted_from is_less lt B B'" "length b' = n"
    have "wp (on_subslice 0 (length A) q2) (\<lambda>_. ?D) ?W (c, map Some ([] @ A @ B'), b')"
    proof (rule on_subslice_sorts [OF q(2) B'(2)])
      fix c A' and b'' :: "'a memory" assume A': "sorted_from is_less lt A A'" "length b'' = n"
      have "sorted_from is_less lt xs (A' @ B')"
      proof (rule sorted_from_sides [OF ab(1) A'(1) B'(1)])
        assume l: "lawful is_less lt"
        note sw = lawfulD(2) [OF l]
        have "\<not> lt y x" if "x \<in> set A" "y \<in> set B" for x y
          using law [OF l] that strict_weak_trans [OF sw, of y x p] by auto
        then show "stable_perm lt xs (A @ B) \<and> (\<forall>x \<in> set A. \<forall>y \<in> set B. \<not> lt y x)"
          using law [OF l] stable_perm_less_part(1) [OF sw, of xs p] by simp
      qed
      from sort_doneI [OF this A'(2)] show "?D (c, map Some ([] @ A' @ B'), b'')" by simp
    next
      fix c A' and b'' :: "'a memory" assume "\<not> lawful is_less lt" "mset A' = mset A" "length b'' = n"
      then show "?W (c, map Some ([] @ A' @ B'), b'')"
        using ab(1) B'(1) sort_unwound_append [of is_less lt A' A B' B] by (simp add: sorted_from_def)
    qed simp_all
    then show "wp (on_subslice 0 (length A) q2) (\<lambda>_. ?D) ?W (c, map Some (A @ B' @ []), b')" by simp
  next
    fix c B' and b'' :: "'a memory" assume "\<not> lawful is_less lt" "mset B' = mset B" "length b'' = n"
    then show "?W (c, map Some (A @ B' @ []), b'')"
      using ab(1) sort_unwound_append [of is_less lt A A B' B] by simp
  qed (use len in simp_all)
  then show ?thesis by (simp add: wp_fun)
qed

lemma is_ancestor_pivot_wp:
  assumes "pv < length xs"
    and N: "\<And>eq c. (\<And>f. computes is_less f \<Longrightarrow> eq = (\<exists>p. la = Some p \<and> \<not> f p (xs ! pv))) \<Longrightarrow> N eq (c, map Some xs)"
    and U: "\<And>c. (\<And>f. \<not> computes is_less f) \<Longrightarrow> U (c, map Some xs)"
  shows "wp (is_ancestor_pivot is_less la pv) N U (c, map Some xs)"
proof (cases la)
  case None
  then show ?thesis using N by (simp add: is_ancestor_pivot_def wp_ret)
next
  case (Some p)
  have "wp (call is_less p (xs ! pv)) (\<lambda>r. N (\<not> r)) U (c, map Some xs)"
    by (rule wp_callI) (use Some N U in auto)
  then show ?thesis using assms(1) Some by (simp add: is_ancestor_pivot_def wp_bind wp_fun wp_peek)
qed

text \<open>Fuel two above the length is enough: every turn shortens the slice, and at limit 0 the main loop
  only calls quicksort to small-sort.\<close>

lemma quicksort_sorts:
  fixes is_less :: "('c, 'a) closure"
  assumes "length xs + 2 \<le> k" "length xs \<le> n" "SMALL_SORT_GENERAL_SCRATCH_LEN \<le> n" "length xs \<le> isize_max"
    and "\<And>p x. lawful is_less lt \<Longrightarrow> la = Some p \<Longrightarrow> x \<in> set xs \<Longrightarrow> \<not> lt x p"
  shows "sorts is_less lt (quicksort k ty is_less limit la) xs n"
  using assms
proof (induction k arbitrary: xs limit la)
  case 0
  then show ?case by simp
next
  case (Suc k)
  let ?q = "quicksort k ty is_less"
  note room = Suc.prems(2-4) and la = Suc.prems(5)
  show ?case
  proof (cases "length xs \<le> small_sort_threshold ty")
    case True
    from small_sort_sorts [OF this room(2)] True show ?thesis
      by (simp add: sorts_def wp_bind wp_reads_pure)
  next
    case large: False
    have shorter: "sorts is_less lt (?q l la') ys n" if "length ys < length xs"
        "\<And>p x. lawful is_less lt \<Longrightarrow> la' = Some p \<Longrightarrow> x \<in> set ys \<Longrightarrow> \<not> lt x p" for ys l la'
      by (rule Suc.IH) (use that Suc.prems in auto)
    show ?thesis
    proof (cases "limit = 0")
      case True
      have "sorts is_less lt (drift_sort ty ?q is_less True) xs n"
      proof (rule drift_sort_sorts)
        show "sorts is_less lt (?q 0 None) ys n" if "length ys \<le> small_sort_threshold ty" for ys
          by (rule shorter) (use that large in auto)
      qed (use room in simp_all)
      then show ?thesis using True large by (simp add: sorts_def wp_bind wp_reads_pure)
    next
      case False
      let ?D = "sort_done is_less lt xs n" and ?W = "sort_unwound is_less lt xs n"
      let ?equal = "\<lambda>pv. bind (stable_partition ty (flipped is_less) pv True) (\<lambda>mid. on_subslice mid (length xs) (?q (limit - 1) None))"
      let ?sides = "\<lambda>p l. bind (on_subslice l (length xs) (?q (limit - 1) (if ty_freeze ty then Some p else None)))
        (\<lambda>_. on_subslice 0 l (?q (limit - 1) la))"
      let ?rest = "\<lambda>pv p eq. bind (if \<not> eq then stable_partition ty is_less pv False else ret 0)
        (\<lambda>l. if eq \<or> l = 0 then ?equal pv else ?sides p l)"
      have unwound: "?W (c, map Some xs, b)" if "\<And>f. \<not> computes is_less f" "length b = n" for c b
        using that by (intro sort_unwoundI) (auto simp: lawful_def)
      have equal: "wp (?equal pv) (\<lambda>_. ?D) ?W (c, map Some ys, b)"
        if "pv < length xs" "mset ys = mset xs" "lawful is_less lt \<Longrightarrow> ys = xs \<and> (\<forall>x \<in> set xs. \<not> lt x (xs ! pv))"
          "length b = n" for pv ys c b
      proof -
        have ly: "length ys = length xs" by (rule mset_eq_length [OF that(2)])
        have "sorts is_less lt (bind (stable_partition ty (flipped is_less) pv True) (\<lambda>mid. on_subslice mid (length ys) (?q (limit - 1) None))) ys n"
        proof (rule equal_partition_sorts)
          show "sorts is_less lt (?q (limit - 1) None) zs n" if "length zs < length ys" for zs
            by (rule shorter) (use that ly in auto)
        qed (use that ly room in auto)
        then have s: "sorts is_less lt (?equal pv) ys n" by (simp only: ly)
        show ?thesis
          by (rule sortsD [OF s that(4)])
            (use that in \<open>auto simp: sorted_from_def intro!: sort_doneI sort_unwoundI\<close>)
      qed
      have rest: "wp (?rest pv (xs ! pv) eq) (\<lambda>_. ?D) ?W (c, map Some xs, b)"
        if pv: "pv < length xs" and eq: "\<And>f. computes is_less f \<Longrightarrow> eq = (\<exists>p. la = Some p \<and> \<not> f p (xs ! pv))" and b: "length b = n"
        for pv eq c b
      proof (cases eq)
        case True
        have "\<not> lt x (xs ! pv)" if law: "lawful is_less lt" and x: "x \<in> set xs" for x
        proof -
          obtain p where "la = Some p" "\<not> lt p (xs ! pv)" using eq [OF lawfulD(1) [OF law]] True by blast
          then show ?thesis using la [OF law] x strict_weak_neg [OF lawfulD(2) [OF law], of x p "xs ! pv"] by blast
        qed
        then have "wp (?equal pv) (\<lambda>_. ?D) ?W (c, map Some xs, b)" using pv b by (intro equal) auto
        then show ?thesis using True by (simp add: wp_fun)
      next
        case False
        let ?p = "xs ! pv"
        have "wp (stable_partition ty is_less pv False) (\<lambda>l. wp (if l = 0 then ?equal pv else ?sides ?p l) (\<lambda>_. ?D) ?W) ?W (c, map Some xs, b)"
        proof (rule stable_partition_wp [where law = "lawful is_less lt" and g = lt])
          show "lawful is_less lt \<Longrightarrow> computes is_less lt \<and> lt ?p ?p = False" by (auto simp: lawful_def)
        next
          fix A B c and b' :: "'a memory"
          assume ab: "mset (A @ B) = mset xs" "length b' = length b" "\<not> False \<Longrightarrow> B \<noteq> []"
            "lawful is_less lt \<Longrightarrow> A = filter (\<lambda>x. lt x ?p) xs \<and> B = filter (\<lambda>x. \<not> lt x ?p) xs"
          have len: "length A + length B = length xs" using mset_eq_length [OF ab(1)] by simp
          show "wp (if length A = 0 then ?equal pv else ?sides ?p (length A)) (\<lambda>_. ?D) ?W (c, map Some (A @ B), b')"
          proof (cases "A = []")
            case True
            have "B = xs \<and> (\<forall>x \<in> set xs. \<not> lt x ?p)" if "lawful is_less lt"
            proof -
              have "filter (\<lambda>x. lt x ?p) xs = []" using ab(4) [OF that] True by simp
              then have "\<forall>x \<in> set xs. \<not> lt x ?p" by (simp add: filter_empty_conv)
              then show ?thesis using ab(4) [OF that] by simp
            qed
            then have "wp (?equal pv) (\<lambda>_. ?D) ?W (c, map Some B, b')"
              using pv b ab True by (intro equal) auto
            then show ?thesis using True by simp
          next
            case False
            have "length A \<noteq> 0" "length B \<noteq> 0" using False ab(3) by simp_all
            then have less: "length A < length xs" "length B < length xs" using len by linarith+
            have "wp (?sides ?p (length A)) (\<lambda>_. ?D) ?W (c, map Some (A @ B), b')"
            proof (rule two_sides_wp [OF ab(1)])
              show "sorts is_less lt (?q (limit - 1) (if ty_freeze ty then Some ?p else None)) B n"
                using less(2) ab(4) by (intro shorter) (auto split: if_splits)
              show "sorts is_less lt (?q (limit - 1) la) A n"
                using less(1) ab(4) la by (intro shorter) auto
            qed (use ab b in auto)
            then show ?thesis using False by simp
          qed
        next
          fix c and b' :: "'a memory" assume "\<And>f. \<not> computes is_less f" "length b' = length b"
          then show "?W (c, map Some xs, b')" using unwound b by simp
        qed (use room b pv in auto)
        then show ?thesis using False by (simp only: wp_fun) simp
      qed
      show ?thesis
        unfolding sorts_def
      proof (intro allI impI)
        fix c and b :: "'a memory" assume b: "length b = n"
        have "wp (choose_pivot is_less) (\<lambda>pv (c, v). wp (in_slice (peek pv)) (\<lambda>p.
            wp (in_slice (is_ancestor_pivot is_less la pv)) (\<lambda>eq. wp (?rest pv p eq) (\<lambda>_. ?D) ?W) ?W) ?W (c, v, b))
            (\<lambda>(c, v). ?W (c, v, b)) (c, map Some xs)"
        proof (rule choose_pivot_wp)
          show "8 \<le> length xs" using large small_sort_threshold_bounds(1) [of ty] by simp
        next
          fix pv c assume pv: "pv < length xs"
          have "wp (is_ancestor_pivot is_less la pv) (\<lambda>eq (c, v). wp (?rest pv (xs ! pv) eq) (\<lambda>_. ?D) ?W (c, v, b))
              (\<lambda>(c, v). ?W (c, v, b)) (c, map Some xs)"
          proof (rule is_ancestor_pivot_wp [OF pv])
            fix eq c assume e: "\<And>f. computes is_less f \<Longrightarrow> eq = (\<exists>p. la = Some p \<and> \<not> f p (xs ! pv))"
            have "wp (?rest pv (xs ! pv) eq) (\<lambda>_. ?D) ?W (c, map Some xs, b)" by (rule rest [OF pv _ b]) (rule e)
            then show "case (c, map Some xs) of (c, v) \<Rightarrow> wp (?rest pv (xs ! pv) eq) (\<lambda>_. ?D) ?W (c, v, b)" by (simp only: prod.case)
          next
            fix c assume "\<And>f. \<not> computes is_less f"
            from unwound [OF this b] show "case (c, map Some xs) of (c, v) \<Rightarrow> ?W (c, v, b)" by simp
          qed
          then show "case (c, map Some xs) of (c, v) \<Rightarrow> wp (in_slice (peek pv)) (\<lambda>p.
            wp (in_slice (is_ancestor_pivot is_less la pv)) (\<lambda>eq. wp (?rest pv p eq) (\<lambda>_. ?D) ?W) ?W) ?W (c, v, b)"
            using pv by (simp only: prod.case wp_in_slice wp_peek) simp
        next
          fix c assume "\<And>f. \<not> computes is_less f"
          from unwound [OF this b] show "case (c, map Some xs) of (c, v) \<Rightarrow> ?W (c, v, b)" by simp
        qed
        then show "wp (quicksort (Suc k) ty is_less limit la) (\<lambda>_. ?D) ?W (c, map Some xs, b)"
          using large False unfolding quicksort.simps wp_bind wp_reads_pure length_map Let_def
          by (simp only: if_False wp_fun wp_in_slice)
      qed
    qed
  qed
qed

end
