(* ===== verification/Sort_Spec.thy ===== *)
theory Sort_Spec
  imports Drift_Sort_Correct
begin

text \<open>
  The contract of the sorting routines as a locale, its interpretations on small sort, mergesort,
  quicksort and driftsort, and the theorems about \<open>slice::sort_by\<close>: a stable sort for every lawful
  comparison, and for every other a permutation without undefined behaviour.
\<close>

section \<open>The mergesort of size-optimised builds\<close>

text \<open>\<open>stable/tiny.rs\<close>; \<open>k\<close> is fuel.\<close>

primrec tiny_mergesort :: "nat \<Rightarrow> ('c, 'a) closure \<Rightarrow> ('c \<times> 'a memory \<times> 'a memory, unit) prog" where
  "tiny_mergesort 0 is_less = failing OutOfFuel"
| "tiny_mergesort (Suc k) is_less =
     bind (reads (\<lambda>(c, v, b). Inr (length v))) (\<lambda>len.
       if len > 2
       then let mid = len div 2
            in bind (on_subslice 0 mid (tiny_mergesort k is_less)) (\<lambda>_.
               bind (on_subslice mid len (tiny_mergesort k is_less)) (\<lambda>_. merge is_less mid))
       else if len = 2
       then bind (in_slice (less_at is_less 1 0)) (\<lambda>r.
              if r then writes (\<lambda>(c, v, b). and_then (ptr_swap_nonoverlapping v 0 1 1) (\<lambda>v. Inr (c, v, b)))
              else ret ())
       else ret ())"

lemma merge_sides_wp:
  fixes is_less :: "('c, 'a) closure"
  assumes ab: "sorted_from is_less lt A A'" "sorted_from is_less lt B B'" "length b = n" "length A \<le> n"
  shows "wp (merge is_less (length A)) (\<lambda>_. sort_done is_less lt (A @ B) n) (sort_unwound is_less lt (A @ B) n)
    (c, map Some (A' @ B'), b)"
proof -
  have la: "length A' = length A" by (rule sorted_from_length [OF ab(1)])
  have "wp (merge is_less (length A')) (\<lambda>_. sort_done is_less lt (A @ B) n) (sort_unwound is_less lt (A @ B) n)
    (c, map Some (A' @ B'), b)"
  proof (rule merge_wp [where lt = lt])
    fix c zs and b' :: "'a memory" assume m: "merged (lawful is_less lt) lt A' B' zs" "length b' = length b"
    have "sorted_from is_less lt (A @ B) zs"
      by (rule sorted_from_merge [OF ab(1,2)]) (use m in \<open>auto simp: merged_def\<close>)
    then show "sort_done is_less lt (A @ B) n (c, map Some zs, b')" using m(2) ab(3) by auto
  next
    fix c zs and b' :: "'a memory" assume "\<not> lawful is_less lt" "mset zs = mset (A' @ B')" "length b' = length b"
    then show "sort_unwound is_less lt (A @ B) n (c, map Some zs, b')"
      using ab by (intro sort_unwoundI) (auto simp: sorted_from_def)
  qed (use ab la in \<open>auto simp: sorted_from_def\<close>)
  then show ?thesis by (simp only: la)
qed

lemma tiny_mergesort_sorts:
  fixes is_less :: "('c, 'a) closure"
  assumes "length xs < k" "length xs div 2 \<le> n"
  shows "sorts is_less lt (tiny_mergesort k is_less) xs n"
  using assms
proof (induction k arbitrary: xs)
  case 0
  then show ?case by simp
next
  case (Suc k)
  let ?D = "sort_done is_less lt xs n" and ?W = "sort_unwound is_less lt xs n" and ?len = "length xs"
  show ?case
    unfolding sorts_def
  proof (intro allI impI)
    fix c and b :: "'a memory" assume b: "length b = n"
    consider "?len > 2" | "?len = 2" | "?len \<le> 1" by linarith
    then show "wp (tiny_mergesort (Suc k) is_less) (\<lambda>_. ?D) ?W (c, map Some xs, b)"
    proof cases
      case 1
      define mid where "mid = ?len div 2"
      define A B where "A = take mid xs" and "B = drop mid xs"
      have mid: "0 < mid" "mid < ?len" "mid \<le> n" using 1 Suc.prems by (simp_all add: mid_def)
      have xs: "xs = A @ B" "length A = mid" "length A + length B = ?len" using mid by (simp_all add: A_def B_def)
      have IH: "sorts is_less lt (tiny_mergesort k is_less) A n" "sorts is_less lt (tiny_mergesort k is_less) B n"
      proof -
        have "length A < k" "length B < k" "length A div 2 \<le> n" "length B div 2 \<le> n"
          using xs mid Suc.prems div_le_mono [of "length B" ?len 2] by linarith+
        then show "sorts is_less lt (tiny_mergesort k is_less) A n" "sorts is_less lt (tiny_mergesort k is_less) B n"
          by (simp_all add: Suc.IH)
      qed
      have "wp (on_subslice 0 mid (tiny_mergesort k is_less)) (\<lambda>_. wp (on_subslice mid ?len (tiny_mergesort k is_less))
          (\<lambda>_. wp (merge is_less mid) (\<lambda>_. ?D) ?W) ?W) ?W (c, map Some ([] @ A @ B), b)"
      proof (rule on_subslice_sorts [OF IH(1) b])
        fix c A' and b1 :: "'a memory" assume A': "sorted_from is_less lt A A'" "length b1 = n"
        have la: "length A' = mid" using sorted_from_length [OF A'(1)] xs by simp
        have "wp (on_subslice mid ?len (tiny_mergesort k is_less)) (\<lambda>_. wp (merge is_less mid) (\<lambda>_. ?D) ?W) ?W
            (c, map Some (A' @ B @ []), b1)"
        proof (rule on_subslice_sorts [OF IH(2) A'(2)])
          fix c B' and b2 :: "'a memory" assume "sorted_from is_less lt B B'" "length b2 = n"
          from merge_sides_wp [OF A'(1) this] mid xs
          show "wp (merge is_less mid) (\<lambda>_. ?D) ?W (c, map Some (A' @ B' @ []), b2)" by simp
        next
          fix c B' and b2 :: "'a memory" assume "\<not> lawful is_less lt" "mset B' = mset B" "length b2 = n"
          then show "?W (c, map Some (A' @ B' @ []), b2)"
            using A'(1) sort_unwound_append [of is_less lt A' A B' B xs] xs(1) by (simp add: sorted_from_def)
        qed (use la xs in simp_all)
        then show "wp (on_subslice mid ?len (tiny_mergesort k is_less)) (\<lambda>_. wp (merge is_less mid) (\<lambda>_. ?D) ?W) ?W
            (c, map Some ([] @ A' @ B), b1)" by simp
      next
        fix c A' and b1 :: "'a memory" assume "\<not> lawful is_less lt" "mset A' = mset A" "length b1 = n"
        then show "?W (c, map Some ([] @ A' @ B), b1)"
          using sort_unwound_append [of is_less lt A' A B B xs] xs(1) by simp
      qed (use xs in simp_all)
      then have "wp (on_subslice 0 mid (tiny_mergesort k is_less)) (\<lambda>_. wp (on_subslice mid ?len (tiny_mergesort k is_less))
          (\<lambda>_. wp (merge is_less mid) (\<lambda>_. ?D) ?W) ?W) ?W (c, map Some xs, b)" by (simp only: append_Nil xs(1) [symmetric])
      then show ?thesis using 1 by (simp add: wp_fun wp_reads_pure wp_bind Let_def mid_def)
    next
      case 2
      then obtain x y where xs: "xs = [x, y]" by (auto simp: numeral_2_eq_2 length_Suc_conv)
      have D: "?D (c, map Some zs, b)" if "sorted_from is_less lt xs zs" for zs c
        using that b by auto
      have "wp (less_at is_less 1 0) (\<lambda>r (c, v). wp (if r then writes (\<lambda>(c, v, b). and_then (ptr_swap_nonoverlapping v 0 1 1) (\<lambda>v. Inr (c, v, b)))
          else ret ()) (\<lambda>_. ?D) ?W (c, v, b)) (\<lambda>(c, v). ?W (c, v, b)) (c, map Some xs)"
      proof (rule wp_less_atI [where x = y and y = x])
        fix r c assume r: "\<And>f. computes is_less f \<Longrightarrow> r = f y x"
        have s: "sorted_from is_less lt xs (if r then [y, x] else xs)"
          unfolding sorted_from_def xs
        proof (intro conjI impI)
          assume law: "lawful is_less lt"
          note sw = lawfulD(2) [OF law]
          have "r = lt y x" using r law by (simp add: lawful_def)
          then show "sorted_by lt (if r then [y, x] else [x, y])" "stable_perm lt [x, y] (if r then [y, x] else [x, y])"
            using strict_weak_asym [OF sw] stable_perm_swap [OF sw] by (auto simp: sorted_by_Cons)
        qed auto
        have "ptr_swap_nonoverlapping [Some x, Some y] 0 1 1 = Inr [Some y, Some x]"
          by (simp add: ptr_swap_nonoverlapping_def)
        then show "case (c, map Some xs) of (c, v) \<Rightarrow> wp (if r then writes (\<lambda>(c, v, b). and_then (ptr_swap_nonoverlapping v 0 1 1) (\<lambda>v. Inr (c, v, b)))
          else ret ()) (\<lambda>_. ?D) ?W (c, v, b)"
          using D [OF s, of c] by (cases r) (simp_all add: xs wp_writes wp_ret)
      next
        fix c assume "\<And>f. \<not> computes is_less f"
        then show "case (c, map Some xs) of (c, v) \<Rightarrow> ?W (c, v, b)" using b by (auto simp: lawful_def)
      qed (use xs in simp_all)
      then show ?thesis using 2 by (simp add: wp_fun wp_reads_pure wp_bind wp_in_slice)
    next
      case 3
      then have "?D (c, map Some xs, b)" using b by (intro sort_doneI sorted_from_short)
      then show ?thesis using 3 by (simp add: wp_ret wp_reads_pure wp_bind)
    qed
  qed
qed

section \<open>The contract\<close>

text \<open>A sorting routine for slices that fit: \<open>fits xs n\<close> relates the slice to the length of the scratch
  buffer.\<close>

locale sorting_routine =
  fixes routine :: "('c, 'a) closure \<Rightarrow> ('c \<times> 'a memory \<times> 'a memory, unit) prog"
    and fits :: "'a list \<Rightarrow> nat \<Rightarrow> bool"
  assumes contract: "fits xs n \<Longrightarrow> sorts is_less lt (routine is_less) xs n"
begin

lemma stable:
  assumes "lawful is_less lt" "fits xs (length b)"
  shows "\<exists>c' b'. routine is_less (c, map Some xs, b) = Inr (Some (), c', map Some (stable_sort lt xs), b')"
proof -
  have "wp (routine is_less) (\<lambda>_ (c, v, b). v = map Some (stable_sort lt xs)) (\<lambda>_. False) (c, map Some xs, b)"
    by (rule sortsD [OF contract [OF assms(2)] refl])
      (use assms(1) stable_sort_eqI lawfulD(2) in \<open>fastforce simp: sorted_from_def\<close>)+
  then show ?thesis by (rule wp_Inr) auto
qed

lemma permutes:
  assumes "fits xs (length b)"
  shows "\<exists>r c' ys b'. routine is_less (c, map Some xs, b) = Inr (r, c', map Some ys, b') \<and> mset ys = mset xs"
proof -
  have "wp (routine is_less) (\<lambda>_ (c, v, b). \<exists>ys. v = map Some ys \<and> mset ys = mset xs)
      (\<lambda>(c, v, b). \<exists>ys. v = map Some ys \<and> mset ys = mset xs) (c, map Some xs, b)"
    by (rule sortsD [OF contract [where lt = "\<lambda>_ _. False", OF assms] refl]) (auto simp: sorted_from_def)
  then show ?thesis by (rule wp_Inr) auto
qed

end

interpretation small: sorting_routine "small_sort ty"
    "\<lambda>xs n. length xs \<le> small_sort_threshold ty \<and> SMALL_SORT_GENERAL_SCRATCH_LEN \<le> n"
  for ty
  by unfold_locales (simp add: small_sort_sorts)

interpretation tiny: sorting_routine "tiny_mergesort k" "\<lambda>xs n. length xs < k \<and> length xs div 2 \<le> n"
  for k
  by unfold_locales (simp add: tiny_mergesort_sorts)

interpretation quick: sorting_routine "\<lambda>is_less. quicksort k ty is_less limit None"
    "\<lambda>xs n. length xs + 2 \<le> k \<and> length xs \<le> n \<and> SMALL_SORT_GENERAL_SCRATCH_LEN \<le> n \<and> length xs \<le> isize_max"
  for k ty limit
  by unfold_locales (auto intro!: quicksort_sorts)

lemma drift_quicksort_sorts:
  assumes "length xs + 2 \<le> k" "length xs - length xs div 2 \<le> n" "SMALL_SORT_GENERAL_SCRATCH_LEN \<le> n"
    "length xs \<le> isize_max"
  shows "sorts is_less lt (drift_sort ty (quicksort k ty is_less) is_less eager) xs n"
proof (rule drift_sort_sorts)
  show "sorts is_less lt (quicksort k ty is_less 0 None) ys n"
    if "length ys \<le> small_sort_threshold ty" "length ys \<le> length xs" for ys
    by (rule quicksort_sorts) (use that assms small_sort_threshold_bounds(2) [of ty] in
      \<open>auto simp: SMALL_SORT_GENERAL_SCRATCH_LEN_def SMALL_SORT_GENERAL_THRESHOLD_def\<close>)
  show "sorts is_less lt (quicksort k ty is_less limit None) ys n" if "length ys \<le> length xs" "length ys \<le> n" for ys limit
    by (rule quicksort_sorts) (use that assms in auto)
qed (use assms in auto)

interpretation drift: sorting_routine "\<lambda>is_less. drift_sort ty (quicksort k ty is_less) is_less eager"
    "\<lambda>xs n. length xs + 2 \<le> k \<and> length xs - length xs div 2 \<le> n \<and> SMALL_SORT_GENERAL_SCRATCH_LEN \<le> n \<and> length xs \<le> isize_max"
  for k ty eager
  by unfold_locales (simp add: drift_quicksort_sorts)

section \<open>The entry points\<close>

definition elem_ok :: "sort_type \<Rightarrow> bool" where
  "elem_ok ty \<longleftrightarrow> layout_wf (ty_layout ty) \<and> lay_align (ty_layout ty) dvd lay_size (ty_layout ty) \<and> 0 < lay_size (ty_layout ty)"

text \<open>A slice up to this length is sorted without an allocation.\<close>

definition sorts_in_place :: "sort_type \<Rightarrow> usize \<Rightarrow> bool" where
  "sorts_in_place ty len \<longleftrightarrow> len \<le> MAX_LEN_ALWAYS_INSERTION_SORT \<or> scratch_alloc_len ty len \<le> 4096 div lay_size (ty_layout ty)"

lemma sort_scratch_cases:
  assumes "elem_ok ty"
  obtains "reserve_fails (sort_scratch ty alloc len :: 'a memory res)" "scratch_alloc_len ty len > 4096 div lay_size (ty_layout ty)"
  | b :: "'a memory" where "sort_scratch ty alloc len = Inr b" "scratch_alloc_len ty len \<le> length b"
proof (cases "scratch_alloc_len ty len \<le> 4096 div lay_size (ty_layout ty)")
  case True
  then show ?thesis by (intro that(2) [of "replicate (4096 div lay_size (ty_layout ty)) None"]) (simp_all add: sort_scratch_def Let_def)
next
  case False
  let ?n = "scratch_alloc_len ty len"
  have e: "layout_wf (ty_layout ty)" "lay_align (ty_layout ty) dvd lay_size (ty_layout ty)" "lay_size (ty_layout ty) > 0"
    using assms by (simp_all add: elem_ok_def)
  show ?thesis
  proof (rule rv_with_capacity_cases [OF e, where n = ?n and alloc = alloc and 'a = 'a])
    assume "reserve_fails (rv_with_capacity_in ?n alloc (ty_layout ty) :: 'a raw_vec res)"
    then show ?thesis using False
      by (intro that(1)) (simp_all add: sort_scratch_def vec_with_capacity_in_def Let_def reserve_fails_and_then)
  next
    fix v :: "'a raw_vec" assume v: "rv_with_capacity_in ?n alloc (ty_layout ty) = Inr v" "rv_inv v" "?n \<le> rv_cap v"
    then show ?thesis using False
      by (intro that(2)) (auto simp: sort_scratch_def vec_with_capacity_in_def Let_def spare_capacity_def rv_inv_def)
  qed
qed

text \<open>The contract of the whole sort, and that it fails only when the scratch buffer cannot be allocated.\<close>

lemma stable_sort_slice_cases:
  fixes is_less :: "('c, 'a) closure"
  assumes ty: "elem_ok ty" "length xs \<le> isize_max"
  obtains "reserve_fails (stable_sort_slice ty alloc is_less (c, map Some xs))" "\<not> sorts_in_place ty (length xs)"
  | c' ys where "stable_sort_slice ty alloc is_less (c, map Some xs) = Inr (Some (), c', map Some ys)"
      "sorted_from is_less lt xs ys"
  | c' ys where "stable_sort_slice ty alloc is_less (c, map Some xs) = Inr (None, c', map Some ys)"
      "\<not> lawful is_less lt" "mset ys = mset xs"
proof -
  let ?S = "stable_sort_slice ty alloc is_less" and ?s = "(c, map Some xs)" and ?n = "length xs"
  let ?N = "\<lambda>_ (c :: 'c, v). \<exists>ys. v = map Some ys \<and> sorted_from is_less lt xs ys"
  let ?U = "\<lambda>(c :: 'c, v). \<not> lawful is_less lt \<and> (\<exists>ys. v = map Some ys \<and> mset ys = mset xs)"
  have size: "0 < lay_size (ty_layout ty)" using ty(1) by (simp add: elem_ok_def)
  note outcomes = that
  have finish: thesis if "wp ?S ?N ?U ?s"
    using that by (rule wp_Inr) (auto intro: outcomes)
  show thesis
  proof (cases "?n \<le> MAX_LEN_ALWAYS_INSERTION_SORT")
    case True
    have "wp ?S ?N ?U ?s"
    proof (cases "?n < 2")
      case True
      then show ?thesis using size sorted_from_short [of xs is_less lt]
        by (simp add: stable_sort_slice_def wp_bind wp_slice_len wp_ret)
    next
      case False
      have "wp (insertion_sort_shift_left is_less 1) ?N ?U ?s"
      proof (rule insertion_sort_wp [where lt = lt])
        fix c ys assume "mset ys = mset xs"
          "lawful is_less lt \<Longrightarrow> sorted_by lt (take 1 xs) \<Longrightarrow> sorted_by lt ys \<and> stable_perm lt xs ys"
        moreover have "sorted_by lt (take 1 xs)" by (rule sorted_by_short) simp
        ultimately show "case (c, map Some ys) of (c, v) \<Rightarrow> \<exists>ys. v = map Some ys \<and> sorted_from is_less lt xs ys"
          by (auto simp: sorted_from_def)
      qed (use False in auto)
      then show ?thesis using size True False by (simp add: stable_sort_slice_def wp_bind wp_slice_len)
    qed
    then show ?thesis by (rule finish)
  next
    case False
    then have n: "20 < ?n" by (simp add: MAX_LEN_ALWAYS_INSERTION_SORT_def)
    then have S: "?S ?s = driftsort_main ty alloc is_less ?s"
      using size False by (simp add: stable_sort_slice_def bind_def slice_len_def reads_def)
    show ?thesis
    proof (rule sort_scratch_cases [OF ty(1), where len = ?n and alloc = alloc and 'a = 'a])
      assume f: "reserve_fails (sort_scratch ty alloc ?n :: 'a memory res)" "scratch_alloc_len ty ?n > 4096 div lay_size (ty_layout ty)"
      then have "reserve_fails (driftsort_main ty alloc is_less ?s)"
        by (simp add: driftsort_main_def bind_def slice_len_def reads_def liftr_def reserve_fails_and_then)
      then show ?thesis using f(2) False S by (intro that(1)) (simp_all add: sorts_in_place_def)
    next
      fix b :: "'a memory" assume b: "sort_scratch ty alloc ?n = Inr b" "scratch_alloc_len ty ?n \<le> length b"
      let ?eager = "?n \<le> small_sort_threshold ty * 2"
      have room: "?n - ?n div 2 \<le> length b" "SMALL_SORT_GENERAL_SCRATCH_LEN \<le> length b"
        using b(2) by (simp_all add: scratch_alloc_len_def Let_def)
      have sorts: "sorts is_less lt (drift_sort ty (quicksort (?n + 2) ty is_less) is_less ?eager) xs (length b)"
        by (rule drift_quicksort_sorts) (use room ty(2) in simp_all)
      have "wp (drift_sort ty (quicksort (?n + 2) ty is_less) is_less ?eager) (\<lambda>x (c, v, b). ?N x (c, v)) (\<lambda>(c, v, b). ?U (c, v))
          (c, map Some xs, b)"
        by (rule sortsD [OF sorts refl]) auto
      then have "wp (driftsort_main ty alloc is_less) ?N ?U ?s"
        using b(1) by (simp add: driftsort_main_def wp_bind wp_slice_len wp_liftr wp_zoom Let_def case_prod_unfold)
      then have "wp ?S ?N ?U ?s" using S by (simp add: wp_def)
      then show ?thesis by (rule finish)
    qed
  qed
qed

section \<open>Comparison functions\<close>

lemma strict_weak_cmp:
  assumes "lawful_cmp cmp"
  shows "strict_weak (\<lambda>a b. cmp a b = Less)"
proof -
  have rev: "cmp b a = reverse_ordering (cmp a b)" for a b using assms unfolding lawful_cmp_def by blast
  have ge: "cmp a b \<noteq> Less \<longleftrightarrow> is_le (cmp b a)" for a b
    unfolding rev [of b a] is_le_def by (cases "cmp a b") simp_all
  show ?thesis
    unfolding strict_weak_def
  proof (intro conjI allI impI)
    show "cmp a b = Less \<Longrightarrow> cmp b a \<noteq> Less" for a b unfolding rev [of b a] by simp
    show "cmp a b \<noteq> Less \<Longrightarrow> cmp b c \<noteq> Less \<Longrightarrow> cmp a c \<noteq> Less" for a b c
      unfolding ge using lawful_trans [OF assms] by blast
  qed
qed

lemma lawful_by_compare:
  assumes "lawful_cmp cmp" "\<And>c a b. fst (compare c a b) = Some (cmp a b)"
  shows "lawful (by_compare compare) (\<lambda>a b. cmp a b = Less)"
  using strict_weak_cmp [OF assms(1)] assms(2)
  by (auto simp: lawful_def computes_def by_compare_def case_prod_unfold)

lemma lawful_by_key:
  assumes "lawful lt_closure lt" "\<And>c a. fst (f c a) = Some (key a)"
  shows "lawful (by_key f lt_closure) (\<lambda>a b. lt (key a) (key b))"
proof -
  have "strict_weak (\<lambda>a b. lt (key a) (key b))"
    using lawfulD(2) [OF assms(1)] unfolding strict_weak_def by blast
  moreover have "fst (by_key f lt_closure c a b) = Some (lt (key a) (key b))" for c a b
    using assms(2) [of c a] assms(2) [of "snd (f c a)" b] lawfulD(1) [OF assms(1)]
    by (auto simp: by_key_def computes_def split: prod.split option.split)
  ultimately show ?thesis by (simp add: lawful_def computes_def)
qed

lemma sort_lawful:
  fixes is_less :: "('c, 'a) closure"
  assumes "elem_ok ty" "length xs \<le> isize_max" "lawful is_less lt"
  shows "(\<exists>c'. stable_sort_slice ty alloc is_less (c, map Some xs) = Inr (Some (), c', map Some (stable_sort lt xs))) \<or>
    reserve_fails (stable_sort_slice ty alloc is_less (c, map Some xs)) \<and> \<not> sorts_in_place ty (length xs)"
proof (rule stable_sort_slice_cases [OF assms(1,2), where is_less = is_less and lt = lt and alloc = alloc and c = c])
  fix c' ys assume "stable_sort_slice ty alloc is_less (c, map Some xs) = Inr (Some (), c', map Some ys)"
    "sorted_from is_less lt xs ys"
  moreover from this have "ys = stable_sort lt xs"
    using assms(3) by (intro stable_sort_eqI) (auto simp: sorted_from_def lawful_def)
  ultimately show ?thesis by blast
qed (use assms(3) in auto)

section \<open>The arithmetic of the merge tree\<close>

lemma leading_zeros_less: "0 < n \<Longrightarrow> n < 2 ^ 64 \<Longrightarrow> leading_zeros n < 64"
  using leading_zeros_bounds(1) [of n] by simp

lemma sqrt_newton:
  fixes n a :: nat
  defines "v \<equiv> (a + n div a) div 2"
  assumes "0 < a"
  shows "n < (v + 1)\<^sup>2" and "n \<le> 2 * a\<^sup>2 \<Longrightarrow> a\<^sup>2 \<le> 2 * n \<Longrightarrow> 8 * v\<^sup>2 \<le> 9 * n"
proof -
  define q where "q = n div a"
  have n: "n < a * (q + 1)" "a * q \<le> n" using assms(2) by (simp_all add: q_def dividend_less_times_div algebra_simps)
  have "v = (a + q) div 2" by (simp only: v_def q_def)
  then have v: "a + (q + 1) \<le> 2 * (v + 1)" "2 * v \<le> a + q" by simp_all
  have "int (a + (q + 1)) ^ 2 \<le> int (2 * (v + 1)) ^ 2" using v(1) by (intro power_mono) linarith+
  moreover have "4 * (int a * int (q + 1)) \<le> int (a + (q + 1)) ^ 2"
    using zero_le_power2 [of "int a - int (q + 1)"] by (simp add: power2_eq_square algebra_simps)
  ultimately have "int (a * (q + 1)) \<le> int ((v + 1)\<^sup>2)" by (simp add: power2_eq_square algebra_simps)
  then have "a * (q + 1) \<le> (v + 1)\<^sup>2" by (simp only: of_nat_le_iff)
  then show "n < (v + 1)\<^sup>2" using n(1) by simp
  assume t: "n \<le> 2 * a\<^sup>2" "a\<^sup>2 \<le> 2 * n"
  let ?A = "int a * int a" and ?N = "int n"
  have le: "2 * (int a * int v) \<le> ?A + ?N"
  proof -
    have "int a * int (2 * v) \<le> int a * int (a + q)" using v(2) by (intro mult_left_mono) linarith+
    moreover have "int a * int q \<le> ?N" using n(2) by (metis of_nat_le_iff of_nat_mult)
    ultimately show ?thesis by (simp add: algebra_simps)
  qed
  have "?N \<le> 2 * ?A" using t(1) unfolding power2_eq_square by (metis of_nat_le_iff of_nat_mult of_nat_numeral)
  moreover have "?A \<le> 2 * ?N" using t(2) unfolding power2_eq_square by (metis of_nat_le_iff of_nat_mult of_nat_numeral)
  ultimately have "0 \<le> (2 * ?A - ?N) * (2 * ?N - ?A)" by simp
  then have g: "2 * (?A + ?N) ^ 2 \<le> 9 * (?A * ?N)" by (simp add: power2_eq_square algebra_simps)
  have "(2 * (int a * int v)) ^ 2 \<le> (?A + ?N) ^ 2" using le by (intro power_mono) simp_all
  then have "2 * (4 * (?A * (int v * int v))) \<le> 9 * (?A * ?N)" using g by (simp add: power2_eq_square algebra_simps)
  then have "?A * (8 * (int v * int v)) \<le> ?A * (9 * ?N)" by (simp add: algebra_simps)
  then have "8 * (int v * int v) \<le> 9 * ?N" using assms(2) by (simp add: mult_le_cancel_left)
  then show "8 * v\<^sup>2 \<le> 9 * n" unfolding power2_eq_square by (metis of_nat_le_iff of_nat_mult of_nat_numeral)
qed

section \<open>Properties\<close>



text \<open>C5: For every comparison, be it stateful, inconsistent or panicking, \<open>sort_by\<close> has no undefined
  behaviour and needs no more fuel, and the slice it leaves, also when it unwinds, is a permutation of the
  old one.\<close>

theorem sort_any_comparator:
  fixes compare :: "'c \<Rightarrow> 'a \<Rightarrow> 'a \<Rightarrow> ordering option \<times> 'c"
  assumes "elem_ok ty" "length xs \<le> isize_max"
  shows "(\<exists>r c' ys. sort_by ty alloc compare (c, map Some xs) = Inr (r, c', map Some ys) \<and> mset ys = mset xs) \<or>
    reserve_fails (sort_by ty alloc compare (c, map Some xs)) \<and> \<not> sorts_in_place ty (length xs)"
  by (rule stable_sort_slice_cases [OF assms, where is_less = "by_compare compare" and lt = "\<lambda>_ _. False" and alloc = alloc and c = c])
    (auto simp: sort_by_def sorted_from_def)

theorem sort_any_comparator_witness:
  "\<exists>r c' ys. sort_by \<lparr>ty_layout = u64_layout, ty_freeze = False\<rparr> (\<lambda>_. False)
     (\<lambda>n a b. (if n = 2 then None else Some Less, n + 1)) (0 :: nat, map Some [3, 1, 2 :: nat]) = Inr (r, c', map Some ys) \<and>
     mset ys = mset [3, 1, 2]"
  using sort_any_comparator [of "\<lparr>ty_layout = u64_layout, ty_freeze = False\<rparr>" "[3, 1, 2 :: nat]" "\<lambda>_. False"
      "\<lambda>n a b. (if n = 2 then None else Some Less, n + 1)" "0 :: nat"] u64_layout_ok
  by (simp add: elem_ok_def usize_simps sorts_in_place_def MAX_LEN_ALWAYS_INSERTION_SORT_def)

text \<open>C6: Quicksort ends for every comparison, whatever the depth limit: with fuel two above the length it
  returns or unwinds, and the slice is a permutation of the old one.\<close>

theorem quicksort_returns:
  fixes is_less :: "('c, 'a) closure"
  assumes "length xs \<le> length b" "SMALL_SORT_GENERAL_SCRATCH_LEN \<le> length b" "length xs \<le> isize_max"
  shows "\<exists>r c' ys b'. quicksort (length xs + 2) ty is_less limit None (c, map Some xs, b) = Inr (r, c', map Some ys, b') \<and>
    mset ys = mset xs"
  by (rule quick.permutes) (use assms in simp)

theorem quicksort_returns_witness:
  "\<exists>r c' ys b'. quicksort 42 \<lparr>ty_layout = u64_layout, ty_freeze = True\<rparr> (\<lambda>c a b. (Some (a < b), c)) 0 None
     ((), map Some (rev [0..<40]), replicate 48 None) = Inr (r, c', map Some ys, b') \<and> mset ys = mset (rev [0..<40])"
  using quicksort_returns [of "rev [0..<40]" "replicate 48 None" "\<lparr>ty_layout = u64_layout, ty_freeze = True\<rparr>"
      "\<lambda>c a b. (Some (a < b), c)" 0 "()"]
  by (simp add: SMALL_SORT_GENERAL_SCRATCH_LEN_def SMALL_SORT_GENERAL_THRESHOLD_def usize_simps del: upt.simps upt_rec_numeral)

text \<open>C28: The arithmetic of the merge tree does not overflow for slices shorter than 2^62, and its depth is
  at most 63 when the split point lies inside.\<close>

theorem merge_tree_bounds:
  assumes "left < mid" "mid < right" "right \<le> n" "n < 2 ^ 62"
  shows "left + mid \<le> usize_max \<and> mid + right \<le> usize_max \<and>
    merge_tree_scale_factor n * (left + mid) \<le> usize_max \<and> merge_tree_scale_factor n * (mid + right) \<le> usize_max \<and>
    merge_tree_depth left mid right (merge_tree_scale_factor n) < 64"
proof -
  let ?f = "merge_tree_scale_factor n" and ?x = "left + mid" and ?y = "mid + right"
  have xy: "?x < ?y" "?y \<le> 2 * n" "?y < 2 ^ 63" using assms by simp_all
  have f: "2 ^ 62 \<le> ?f * n" "?f * n < 2 ^ 62 + n"
    using div_ceil_bounds [of n "2 ^ 62"] assms unfolding merge_tree_scale_factor_def by (simp_all add: mult.commute)
  have f0: "0 < ?f" using f(1) by (cases "?f = 0") simp_all
  have "?f * ?y \<le> ?f * (2 * n)" using xy(2) by (rule mult_le_mono2)
  also have "\<dots> = 2 * (?f * n)" by simp
  also have "\<dots> < 2 * (2 ^ 62 + 2 ^ 62)" using less_trans [OF f(2) add_strict_left_mono [OF assms(4)]] by (simp add: mult.commute)
  finally have fy: "?f * ?y < 2 ^ 64" by simp
  have lt: "?f * ?x < ?f * ?y" using xy(1) f0 by (simp only: nat_mult_less_cancel_disj simp_thms)
  have w: "wrapping_add left mid = ?x" "wrapping_add mid right = ?y"
    using xy by (simp_all add: wrapping_add_small usize_simps)
  have nz: "?f * ?x XOR ?f * ?y \<noteq> 0"
  proof
    assume "?f * ?x XOR ?f * ?y = 0"
    then have "(?f * ?x XOR ?f * ?y) XOR ?f * ?y = ?f * ?y" by simp
    then have "?f * ?x = ?f * ?y" by (simp only: xor.assoc xor_self_eq xor.right_neutral)
    then show False using lt by simp
  qed
  have "?f * ?x XOR ?f * ?y < 2 ^ 64"
    using lt fy by (metis less_trans take_bit_nat_eq_self_iff take_bit_xor)
  then have "leading_zeros (?f * ?x XOR ?f * ?y) < 64" using nz by (intro leading_zeros_less) simp_all
  moreover have "merge_tree_depth left mid right ?f = leading_zeros (?f * ?x XOR ?f * ?y)"
    unfolding merge_tree_depth_def Let_def w mod_less [OF fy] mod_less [OF less_trans [OF lt fy]] ..
  moreover have le: "m \<le> usize_max" if "m < 2 ^ 64" for m using that by (simp add: usize_max_def)
  ultimately show ?thesis
    using le [OF fy] le [OF less_trans [OF lt fy]] le [of ?x] le [of ?y] xy by simp
qed

theorem merge_tree_bounds_witness:
  "merge_tree_depth 0 7 30 (merge_tree_scale_factor 100) < 64"
  using merge_tree_bounds [of 0 7 30 100] by simp

text \<open>\<open>sqrt_approx\<close> is at least the square root rounded down, and at most about 6 percent above it.\<close>

theorem sqrt_approx_close:
  assumes "0 < n" "n \<le> usize_max"
  shows "n < (sqrt_approx n + 1)\<^sup>2 \<and> 8 * (sqrt_approx n)\<^sup>2 \<le> 9 * n"
proof -
  define e where "e = ilog2 (n OR 1)"
  define s where "s = div_ceil e 2"
  have or: "n \<le> n OR 1" "n OR 1 \<le> n + 1" "odd n \<Longrightarrow> n OR 1 = n" using or_one_eq [of n] by simp_all
  have "n < 2 ^ 64 - 1" if "even n"
  proof -
    have "odd (2 ^ 64 - 1 :: nat)" by simp
    then have "n \<noteq> 2 ^ 64 - 1" using that by metis
    then show ?thesis using assms(2) unfolding usize_max_def by linarith
  qed
  then have "0 < n OR 1" "n OR 1 < 2 ^ 64" using or assms by (cases "even n"; simp add: usize_simps)+
  then have e: "2 ^ e \<le> n OR 1" "n OR 1 < 2 ^ (e + 1)" using ilog2_bounds unfolding e_def by blast+
  have en: "2 ^ e \<le> n"
  proof (cases "odd n")
    case True
    then show ?thesis using e(1) or(3) by simp
  next
    case False
    then have "2 \<le> n" using assms(1) by presburger
    then have "0 < e" using e(2) or(1) by (cases e) simp_all
    then have "even ((2 :: nat) ^ e)" by simp
    then show ?thesis using e(1) or(2) False by (metis even_Suc le_SucE le_trans Suc_eq_plus1)
  qed
  have s: "e \<le> 2 * s" "2 * s \<le> e + 1" using div_ceil_bounds [of 2 e] unfolding s_def by simp_all
  have sq: "((2 :: nat) ^ s)\<^sup>2 = 2 ^ (2 * s)" by (simp add: power_mult [symmetric] mult.commute)
  have p: "(2 :: nat) ^ e \<le> 2 ^ (2 * s)" "(2 :: nat) ^ (2 * s) \<le> 2 ^ (e + 1)" using s by (intro power_increasing; simp)+
  have "(2 :: nat) ^ (e + 1) = 2 * 2 ^ e" by simp
  then have a: "n \<le> 2 * (2 ^ s)\<^sup>2" "(2 ^ s)\<^sup>2 \<le> 2 * n" using p e(2) en or(1) unfolding sq by linarith+
  have v: "sqrt_approx n = (2 ^ s + n div 2 ^ s) div 2"
    by (simp add: sqrt_approx_def Let_def e_def s_def push_bit_eq_mult drop_bit_eq_div)
  show ?thesis unfolding v using sqrt_newton [of "2 ^ s" n] a by simp
qed

theorem sqrt_approx_close_witness: "8 * (sqrt_approx 10000)\<^sup>2 \<le> 9 * 10000"
  using sqrt_approx_close [of 10000] by (simp add: usize_simps)

text \<open>C29: \<open>sort_by_key\<close> sorts stably by the keys its closure extracts.\<close>

theorem sort_by_key_correct:
  assumes "elem_ok ty" "length xs \<le> isize_max" "lawful key_less lt" "\<And>c a. fst (f c a) = Some (key a)"
  shows "(\<exists>c'. sort_by_key ty alloc f key_less (c, map Some xs) =
      Inr (Some (), c', map Some (stable_sort (\<lambda>a b. lt (key a) (key b)) xs))) \<or>
    reserve_fails (sort_by_key ty alloc f key_less (c, map Some xs)) \<and> \<not> sorts_in_place ty (length xs)"
  using sort_lawful [OF assms(1,2) lawful_by_key [OF assms(3), of f key, OF assms(4)]] by (simp add: sort_by_key_def)

theorem sort_by_key_correct_witness:
  "\<exists>c'. sort_by_key \<lparr>ty_layout = u64_layout, ty_freeze = True\<rparr> (\<lambda>_. False) (\<lambda>n a. (Some (a div 10), n + 1))
     (\<lambda>n a b. (Some (a < b), n)) (0 :: nat, map Some [31, 12, 30, 11 :: nat]) = Inr (Some (), c', map Some [12, 11, 31, 30])"
proof -
  have "lawful (\<lambda>(n :: nat) a b. (Some (a < b), n)) ((<) :: nat \<Rightarrow> nat \<Rightarrow> bool)"
    by (simp add: lawful_def computes_def strict_weak_def)
  moreover have "stable_sort (\<lambda>a b. a div 10 < b div 10) [31, 12, 30, 11 :: nat] = [12, 11, 31, 30]"
    by (simp add: stable_sort_def)
  ultimately show ?thesis
    using sort_by_key_correct [of "\<lparr>ty_layout = u64_layout, ty_freeze = True\<rparr>" "[31, 12, 30, 11 :: nat]"
        "\<lambda>n a b. (Some (a < b), n)" "(<)" "\<lambda>n a. (Some (a div 10), n + 1)" "\<lambda>a. a div 10" "\<lambda>_. False" "0 :: nat"] u64_layout_ok
    by (simp add: elem_ok_def usize_simps sorts_in_place_def MAX_LEN_ALWAYS_INSERTION_SORT_def)
qed

end
