(* ===== verification/Linked_List.thy ===== *)
theory Linked_List
  imports Rust_Closure
begin

text \<open>
  \<open>LinkedList\<close> (alloc/src/collections/linked_list.rs): the nodes live in a store from addresses to
  nodes, linked in both directions; the list holds the addresses of the two ends and the length.
  Every access goes through the store, and an access to an address that holds no node (a node
  already freed, a dangling pointer) is undefined behaviour. A reference to an element is the
  address of its node. The allocator is an argument: it answers with an address or fails, and a
  failure ends the program as \<open>handle_alloc_error\<close> does.
\<close>

section \<open>The store\<close>

record 'a node =
  nd_next :: "usize option"
  nd_prev :: "usize option"
  nd_elem :: 'a

type_synonym 'a store = "usize \<Rightarrow> 'a node option"

type_synonym 'a box_alloc = "'a store \<Rightarrow> usize option"

fun block :: "('s, unit) prog list \<Rightarrow> ('s, unit) prog" where
  "block [] = ret ()"
| "block (m # ms) = bind m (\<lambda>_. block ms)"

definition node_at :: "usize \<Rightarrow> ('s \<times> 'a store, 'a node) prog" where
  "node_at p = reads (\<lambda>(s, h). case h p of None \<Rightarrow> Inl (UB OutOfBounds) | Some n \<Rightarrow> Inr n)"

definition set_node :: "usize \<Rightarrow> ('a node \<Rightarrow> 'a node) \<Rightarrow> ('s \<times> 'a store, unit) prog" where
  "set_node p f = writes (\<lambda>(s, h).
     case h p of None \<Rightarrow> Inl (UB OutOfBounds) | Some n \<Rightarrow> Inr (s, h(p \<mapsto> f n)))"

definition set_next :: "usize \<Rightarrow> usize option \<Rightarrow> ('s \<times> 'a store, unit) prog" where
  "set_next p q = set_node p (\<lambda>n. n\<lparr>nd_next := q\<rparr>)"

definition set_prev :: "usize \<Rightarrow> usize option \<Rightarrow> ('s \<times> 'a store, unit) prog" where
  "set_prev p q = set_node p (\<lambda>n. n\<lparr>nd_prev := q\<rparr>)"

definition set_elem :: "usize \<Rightarrow> 'a \<Rightarrow> ('s \<times> 'a store, unit) prog" where
  "set_elem p x = set_node p (\<lambda>n. n\<lparr>nd_elem := x\<rparr>)"

definition deref :: "usize \<Rightarrow> ('s \<times> 'a store, 'a) prog" where
  "deref p = bind (node_at p) (\<lambda>n. ret (nd_elem n))"

definition node_new :: "'a \<Rightarrow> 'a node" where
  "node_new x = \<lparr>nd_next = None, nd_prev = None, nd_elem = x\<rparr>"

text \<open>\<open>Box::new_in(Node::new(elt), alloc)\<close>, and what takes a box apart: its element is moved out and
  its memory freed.\<close>

definition box_new :: "'a box_alloc \<Rightarrow> 'a \<Rightarrow> ('s \<times> 'a store, usize) prog" where
  "box_new al x = (\<lambda>(s, h). case al h of
     None \<Rightarrow> Inl Abort
   | Some p \<Rightarrow> Inr (Some p, (s, h(p \<mapsto> node_new x))))"

definition box_free :: "usize \<Rightarrow> ('s \<times> 'a store, unit) prog" where
  "box_free p = writes (\<lambda>(s, h).
     case h p of None \<Rightarrow> Inl (UB OutOfBounds) | Some n \<Rightarrow> Inr (s, h(p := None)))"

definition into_element :: "usize \<Rightarrow> ('s \<times> 'a store, 'a) prog" where
  "into_element p = bind (deref p) (\<lambda>x. bind (box_free p) (\<lambda>_. ret x))"

section \<open>The list\<close>

record linked_list =
  ll_head :: "usize option"
  ll_tail :: "usize option"
  ll_len :: usize

definition ll_new :: linked_list where
  "ll_new = \<lparr>ll_head = None, ll_tail = None, ll_len = 0\<rparr>"

definition self :: "('s \<times> 'a store, 's) prog" where
  "self = reads (\<lambda>(s, h). Inr s)"

definition modify :: "('s \<Rightarrow> 's) \<Rightarrow> ('s \<times> 'a store, unit) prog" where
  "modify f = writes (\<lambda>(s, h). Inr (f s, h))"

definition set_head :: "usize option \<Rightarrow> (linked_list \<times> 'a store, unit) prog" where
  "set_head p = modify (\<lambda>l. l\<lparr>ll_head := p\<rparr>)"

definition set_tail :: "usize option \<Rightarrow> (linked_list \<times> 'a store, unit) prog" where
  "set_tail p = modify (\<lambda>l. l\<lparr>ll_tail := p\<rparr>)"

definition add_len :: "usize \<Rightarrow> (linked_list \<times> 'a store, unit) prog" where
  "add_len n = modify (\<lambda>l. l\<lparr>ll_len := ll_len l + n\<rparr>)"

definition sub_len :: "usize \<Rightarrow> (linked_list \<times> 'a store, unit) prog" where
  "sub_len n = modify (\<lambda>l. l\<lparr>ll_len := ll_len l - n\<rparr>)"

definition push_front_node :: "usize \<Rightarrow> (linked_list \<times> 'a store, unit) prog" where
  "push_front_node node =
     bind self (\<lambda>l. block [
       set_next node (ll_head l),
       set_prev node None,
       (case ll_head l of None \<Rightarrow> set_tail (Some node) | Some head \<Rightarrow> set_prev head (Some node)),
       set_head (Some node),
       add_len 1])"

definition pop_front_node :: "(linked_list \<times> 'a store, usize option) prog" where
  "pop_front_node =
     bind self (\<lambda>l. case ll_head l of
       None \<Rightarrow> ret None
     | Some p \<Rightarrow>
         bind (node_at p) (\<lambda>node.
         bind (block [
           set_head (nd_next node),
           (case nd_next node of None \<Rightarrow> set_tail None | Some head \<Rightarrow> set_prev head None),
           sub_len 1]) (\<lambda>_.
         ret (Some p))))"

definition push_back_node :: "usize \<Rightarrow> (linked_list \<times> 'a store, unit) prog" where
  "push_back_node node =
     bind self (\<lambda>l. block [
       set_next node None,
       set_prev node (ll_tail l),
       (case ll_tail l of None \<Rightarrow> set_head (Some node) | Some tail \<Rightarrow> set_next tail (Some node)),
       set_tail (Some node),
       add_len 1])"

definition pop_back_node :: "(linked_list \<times> 'a store, usize option) prog" where
  "pop_back_node =
     bind self (\<lambda>l. case ll_tail l of
       None \<Rightarrow> ret None
     | Some p \<Rightarrow>
         bind (node_at p) (\<lambda>node.
         bind (block [
           set_tail (nd_prev node),
           (case nd_prev node of None \<Rightarrow> set_head None | Some tail \<Rightarrow> set_next tail None),
           sub_len 1]) (\<lambda>_.
         ret (Some p))))"

definition unlink_node :: "usize \<Rightarrow> (linked_list \<times> 'a store, unit) prog" where
  "unlink_node p =
     bind (node_at p) (\<lambda>node. block [
       (case nd_prev node of
          Some prev \<Rightarrow> set_next prev (nd_next node) | None \<Rightarrow> set_head (nd_next node)),
       (case nd_next node of
          Some nxt \<Rightarrow> set_prev nxt (nd_prev node) | None \<Rightarrow> set_tail (nd_prev node)),
       sub_len 1])"

definition splice_nodes ::
  "usize option \<Rightarrow> usize option \<Rightarrow> usize \<Rightarrow> usize \<Rightarrow> usize \<Rightarrow> (linked_list \<times> 'a store, unit) prog" where
  "splice_nodes existing_prev existing_next splice_start splice_end splice_length = block [
     (case existing_prev of
        Some p \<Rightarrow> set_next p (Some splice_start) | None \<Rightarrow> set_head (Some splice_start)),
     (case existing_next of
        Some p \<Rightarrow> set_prev p (Some splice_end) | None \<Rightarrow> set_tail (Some splice_end)),
     set_prev splice_start existing_prev,
     set_next splice_end existing_next,
     add_len splice_length]"

text \<open>\<open>unwrap_unchecked\<close> of the tail is undefined behaviour when there is none.\<close>

definition detach_all_nodes :: "linked_list \<Rightarrow> (usize \<times> usize \<times> usize) option res" where
  "detach_all_nodes l = (case ll_head l of
     None \<Rightarrow> Inr None
   | Some head \<Rightarrow> (case ll_tail l of
       None \<Rightarrow> Inl (UB BrokenAssumption)
     | Some tail \<Rightarrow> Inr (Some (head, tail, ll_len l))))"

definition replace_self :: "linked_list \<Rightarrow> (linked_list \<times> 'a store, linked_list) prog" where
  "replace_self l' = bind self (\<lambda>l. bind (modify (\<lambda>_. l')) (\<lambda>_. ret l))"

definition split_off_before_node ::
  "usize option \<Rightarrow> usize \<Rightarrow> (linked_list \<times> 'a store, linked_list) prog" where
  "split_off_before_node split_node at = (case split_node of
     Some p \<Rightarrow>
       bind (node_at p) (\<lambda>node. let first_part_tail = nd_prev node in
       bind (set_prev p None) (\<lambda>_.
       bind (case first_part_tail of
               Some tail \<Rightarrow> bind (set_next tail None) (\<lambda>_. bind self (\<lambda>l. ret (ll_head l)))
             | None \<Rightarrow> ret None) (\<lambda>first_part_head.
       bind (modify (\<lambda>l. l\<lparr>ll_head := Some p, ll_len := ll_len l - at\<rparr>)) (\<lambda>_.
       ret \<lparr>ll_head = first_part_head, ll_tail = first_part_tail, ll_len = at\<rparr>))))
   | None \<Rightarrow> replace_self ll_new)"

definition split_off_after_node ::
  "usize option \<Rightarrow> usize \<Rightarrow> (linked_list \<times> 'a store, linked_list) prog" where
  "split_off_after_node split_node at = (case split_node of
     Some p \<Rightarrow>
       bind (node_at p) (\<lambda>node. let second_part_head = nd_next node in
       bind (set_next p None) (\<lambda>_.
       bind (case second_part_head of
               Some head \<Rightarrow> bind (set_prev head None) (\<lambda>_. bind self (\<lambda>l. ret (ll_tail l)))
             | None \<Rightarrow> ret None) (\<lambda>second_part_tail.
       bind self (\<lambda>l. let len = ll_len l - at in
       bind (modify (\<lambda>l. l\<lparr>ll_tail := Some p, ll_len := at\<rparr>)) (\<lambda>_.
       ret \<lparr>ll_head = second_part_head, ll_tail = second_part_tail, ll_len = len\<rparr>)))))
   | None \<Rightarrow> replace_self ll_new)"

text \<open>\<open>append\<close> returns what it leaves in \<open>other\<close>.\<close>

definition append_list :: "linked_list \<Rightarrow> (linked_list \<times> 'a store, linked_list) prog" where
  "append_list other =
     bind self (\<lambda>l. case ll_tail l of
       None \<Rightarrow> replace_self other
     | Some tail \<Rightarrow> (case ll_head other of
         Some other_head \<Rightarrow>
           bind (block [
             set_next tail (Some other_head),
             set_prev other_head (Some tail),
             set_tail (ll_tail other),
             add_len (ll_len other)]) (\<lambda>_.
           ret \<lparr>ll_head = None, ll_tail = None, ll_len = 0\<rparr>)
       | None \<Rightarrow> ret other))"

section \<open>Ends of the list\<close>

definition ll_is_empty :: "linked_list \<Rightarrow> bool" where
  "ll_is_empty l = (ll_head l = None)"

definition ll_front :: "(linked_list \<times> 'a store, 'a option) prog" where
  "ll_front = bind self (\<lambda>l. case ll_head l of
     None \<Rightarrow> ret None | Some p \<Rightarrow> bind (deref p) (\<lambda>x. ret (Some x)))"

definition ll_back :: "(linked_list \<times> 'a store, 'a option) prog" where
  "ll_back = bind self (\<lambda>l. case ll_tail l of
     None \<Rightarrow> ret None | Some p \<Rightarrow> bind (deref p) (\<lambda>x. ret (Some x)))"

definition ll_push_front :: "'a box_alloc \<Rightarrow> 'a \<Rightarrow> (linked_list \<times> 'a store, unit) prog" where
  "ll_push_front al x = bind (box_new al x) push_front_node"

definition ll_push_back :: "'a box_alloc \<Rightarrow> 'a \<Rightarrow> (linked_list \<times> 'a store, unit) prog" where
  "ll_push_back al x = bind (box_new al x) push_back_node"

definition ll_pop_front :: "(linked_list \<times> 'a store, 'a option) prog" where
  "ll_pop_front = bind pop_front_node (\<lambda>r. case r of
     None \<Rightarrow> ret None | Some p \<Rightarrow> bind (into_element p) (\<lambda>x. ret (Some x)))"

definition ll_pop_back :: "(linked_list \<times> 'a store, 'a option) prog" where
  "ll_pop_back = bind pop_back_node (\<lambda>r. case r of
     None \<Rightarrow> ret None | Some p \<Rightarrow> bind (into_element p) (\<lambda>x. ret (Some x)))"

text \<open>\<open>extend\<close> pushes the items of an iterator; \<open>from_iter\<close> starts from the empty list.\<close>

fun ll_extend :: "'a box_alloc \<Rightarrow> 'a list \<Rightarrow> (linked_list \<times> 'a store, unit) prog" where
  "ll_extend al [] = ret ()"
| "ll_extend al (x # xs) = bind (ll_push_back al x) (\<lambda>_. ll_extend al xs)"

definition ll_from_iter :: "'a box_alloc \<Rightarrow> 'a list \<Rightarrow> ('s \<times> 'a store, linked_list) prog" where
  "ll_from_iter al xs =
     (\<lambda>(s, h). and_then (ll_extend al xs (ll_new, h)) (\<lambda>(r, (l, h)).
        Inr (map_option (\<lambda>_. l) r, (s, h))))"

section \<open>Destructors\<close>

text \<open>The memory of a box is freed even when the destructor of its element panics.\<close>

definition with_glue :: "('m, 'x) prog \<Rightarrow> ('c \<times> 'm, 'x) prog" where
  "with_glue = zoom snd (\<lambda>(c, _) m. (c, m))"

definition box_drop :: "('c, 'a) glue \<Rightarrow> usize \<Rightarrow> ('c \<times> 's \<times> 'a store, unit) prog" where
  "box_drop d p =
     bind (with_glue (deref p)) (\<lambda>x.
       on_drop (drop_value d x) (\<lambda>s. and_then (with_glue (box_free p) s) (\<lambda>(_, s). Inr s)))"

text \<open>\<open>while self.pop_front_node().is_some() {}\<close>\<close>

fun drop_loop :: "nat \<Rightarrow> ('c, 'a) glue \<Rightarrow> ('c \<times> linked_list \<times> 'a store, unit) prog" where
  "drop_loop 0 d = failing OutOfFuel"
| "drop_loop (Suc fuel) d =
     bind (with_glue pop_front_node) (\<lambda>r. case r of
       None \<Rightarrow> ret ()
     | Some p \<Rightarrow> bind (box_drop d p) (\<lambda>_. drop_loop fuel d))"

text \<open>The guard continues the loop when a destructor has panicked; a second panic aborts.\<close>

definition drop_guard ::
  "nat \<Rightarrow> ('c, 'a) glue \<Rightarrow> 'c \<times> linked_list \<times> 'a store \<Rightarrow> ('c \<times> linked_list \<times> 'a store) res" where
  "drop_guard fuel d s = and_then (drop_loop fuel d s) (\<lambda>(r, s).
     case r of Some _ \<Rightarrow> Inr s | None \<Rightarrow> Inl Abort)"

definition ll_drop :: "('c, 'a) glue \<Rightarrow> ('c \<times> linked_list \<times> 'a store, unit) prog" where
  "ll_drop d = bind (with_glue self) (\<lambda>l.
     on_unwind (drop_loop (ll_len l + 1) d) (drop_guard (ll_len l + 1) d))"

text \<open>\<open>clear\<close> drops a list made of the parts it takes out of \<open>self\<close>.\<close>

definition ll_clear :: "('c, 'a) glue \<Rightarrow> ('c \<times> linked_list \<times> 'a store, unit) prog" where
  "ll_clear d =
     bind (with_glue (replace_self ll_new)) (\<lambda>taken.
       zoom (\<lambda>(c, l, h). (c, taken, h)) (\<lambda>(c, l, h) (c', _, h'). (c', l, h')) (ll_drop d))"

end
