(* ===== verification/Linked_List_Cursor.thy ===== *)
theory Linked_List_Cursor
  imports Linked_List
begin

text \<open>
  Iterators and cursors of \<open>LinkedList\<close>, and the operations written with them. A cursor is at a
  node, or at the "ghost" position between the last node and the first, where it has no current
  node and its index is the length of the list. Where the code borrows the list the cursor of the
  model holds it, and the operation puts it back when the cursor ends.
\<close>

section \<open>Iterators\<close>

record list_iter =
  it_head :: "usize option"
  it_tail :: "usize option"
  it_len :: usize

definition ll_iter :: "linked_list \<Rightarrow> list_iter" where
  "ll_iter l = \<lparr>it_head = ll_head l, it_tail = ll_tail l, it_len = ll_len l\<rparr>"

definition ll_iter_mut :: "linked_list \<Rightarrow> list_iter" where
  "ll_iter_mut l = \<lparr>it_head = ll_head l, it_tail = ll_tail l, it_len = ll_len l\<rparr>"

definition iter_next :: "(list_iter \<times> 'a store, 'a option) prog" where
  "iter_next = bind self (\<lambda>it.
     if it_len it = 0 then ret None
     else (case it_head it of None \<Rightarrow> ret None | Some p \<Rightarrow>
       bind (node_at p) (\<lambda>node.
       bind (modify (\<lambda>it. it\<lparr>it_len := it_len it - 1\<rparr>)) (\<lambda>_.
       bind (modify (\<lambda>it. it\<lparr>it_head := nd_next node\<rparr>)) (\<lambda>_.
       ret (Some (nd_elem node)))))))"

definition iter_next_back :: "(list_iter \<times> 'a store, 'a option) prog" where
  "iter_next_back = bind self (\<lambda>it.
     if it_len it = 0 then ret None
     else (case it_tail it of None \<Rightarrow> ret None | Some p \<Rightarrow>
       bind (node_at p) (\<lambda>node.
       bind (modify (\<lambda>it. it\<lparr>it_len := it_len it - 1\<rparr>)) (\<lambda>_.
       bind (modify (\<lambda>it. it\<lparr>it_tail := nd_prev node\<rparr>)) (\<lambda>_.
       ret (Some (nd_elem node)))))))"

definition iter_mut_next :: "(list_iter \<times> 'a store, usize option) prog" where
  "iter_mut_next = bind self (\<lambda>it.
     if it_len it = 0 then ret None
     else (case it_head it of None \<Rightarrow> ret None | Some p \<Rightarrow>
       bind (node_at p) (\<lambda>node.
       bind (modify (\<lambda>it. it\<lparr>it_len := it_len it - 1\<rparr>)) (\<lambda>_.
       bind (modify (\<lambda>it. it\<lparr>it_head := nd_next node\<rparr>)) (\<lambda>_.
       ret (Some p))))))"

definition iter_mut_next_back :: "(list_iter \<times> 'a store, usize option) prog" where
  "iter_mut_next_back = bind self (\<lambda>it.
     if it_len it = 0 then ret None
     else (case it_tail it of None \<Rightarrow> ret None | Some p \<Rightarrow>
       bind (node_at p) (\<lambda>node.
       bind (modify (\<lambda>it. it\<lparr>it_len := it_len it - 1\<rparr>)) (\<lambda>_.
       bind (modify (\<lambda>it. it\<lparr>it_tail := nd_prev node\<rparr>)) (\<lambda>_.
       ret (Some p))))))"

text \<open>A program on an iterator of its own: its result and the iterator it leaves.\<close>

definition with_iter ::
  "list_iter \<Rightarrow> (list_iter \<times> 'a store, 'x) prog \<Rightarrow> ('s \<times> 'a store, 'x \<times> list_iter) prog" where
  "with_iter it m = (\<lambda>(s, h). and_then (m (it, h)) (\<lambda>(r, (it, h)).
     Inr (map_option (\<lambda>x. (x, it)) r, (s, h))))"

primrec do_times :: "nat \<Rightarrow> ('s, 'x) prog \<Rightarrow> ('s, unit) prog" where
  "do_times 0 m = ret ()"
| "do_times (Suc n) m = bind m (\<lambda>_. do_times n m)"

fun iter_any :: "nat \<Rightarrow> ('a \<Rightarrow> bool) \<Rightarrow> (list_iter \<times> 'a store, bool) prog" where
  "iter_any 0 f = failing OutOfFuel"
| "iter_any (Suc fuel) f = bind iter_next (\<lambda>r. case r of
     None \<Rightarrow> ret False
   | Some x \<Rightarrow> if f x then ret True else iter_any fuel f)"

definition ll_contains :: "'a \<Rightarrow> (linked_list \<times> 'a store, bool) prog" where
  "ll_contains x = bind self (\<lambda>l.
     bind (with_iter (ll_iter l) (iter_any (ll_len l + 1) (\<lambda>e. e = x))) (\<lambda>(b, _). ret b))"

text \<open>What a loop over the list sees, from the front and from the back.\<close>

fun iter_collect :: "nat \<Rightarrow> (list_iter \<times> 'a store, 'a option) prog \<Rightarrow> (list_iter \<times> 'a store, 'a list) prog" where
  "iter_collect 0 step = failing OutOfFuel"
| "iter_collect (Suc fuel) step = bind step (\<lambda>r. case r of
     None \<Rightarrow> ret []
   | Some x \<Rightarrow> bind (iter_collect fuel step) (\<lambda>xs. ret (x # xs)))"

definition ll_to_list :: "(linked_list \<times> 'a store, 'a list) prog" where
  "ll_to_list = bind self (\<lambda>l.
     bind (with_iter (ll_iter l) (iter_collect (ll_len l + 1) iter_next)) (\<lambda>(xs, _). ret xs))"

definition ll_to_list_rev :: "(linked_list \<times> 'a store, 'a list) prog" where
  "ll_to_list_rev = bind self (\<lambda>l.
     bind (with_iter (ll_iter l) (iter_collect (ll_len l + 1) iter_next_back)) (\<lambda>(xs, _). ret xs))"

definition ll_split_off :: "usize \<Rightarrow> (linked_list \<times> 'a store, linked_list) prog" where
  "ll_split_off at = bind self (\<lambda>l. let len = ll_len l in
     if \<not> at \<le> len then failing (Panic ''Cannot split off at a nonexistent index'')
     else if at = 0 then replace_self ll_new
     else if at = len then ret ll_new
     else
       bind (if at - 1 \<le> len - 1 - (at - 1)
             then bind (with_iter (ll_iter_mut l) (do_times (at - 1) iter_mut_next))
               (\<lambda>(_, it). ret (it_head it))
             else bind (with_iter (ll_iter_mut l) (do_times (len - 1 - (at - 1)) iter_mut_next_back))
               (\<lambda>(_, it). ret (it_tail it))) (\<lambda>split_node.
       split_off_after_node split_node at))"

section \<open>Cursors\<close>

record cursor =
  cu_index :: usize
  cu_current :: "usize option"
  cu_list :: linked_list

definition cursor_front_mut :: "linked_list \<Rightarrow> cursor" where
  "cursor_front_mut l = \<lparr>cu_index = 0, cu_current = ll_head l, cu_list = l\<rparr>"

definition cursor_back_mut :: "linked_list \<Rightarrow> cursor" where
  "cursor_back_mut l = \<lparr>cu_index = ll_len l - 1, cu_current = ll_tail l, cu_list = l\<rparr>"

definition in_list :: "(linked_list \<times> 'a store, 'x) prog \<Rightarrow> (cursor \<times> 'a store, 'x) prog" where
  "in_list = zoom (\<lambda>(c, h). (cu_list c, h)) (\<lambda>(c, _) (l, h). (c\<lparr>cu_list := l\<rparr>, h))"

definition with_cursor ::
  "(linked_list \<Rightarrow> cursor) \<Rightarrow> (cursor \<times> 'a store, 'x) prog \<Rightarrow> (linked_list \<times> 'a store, 'x) prog" where
  "with_cursor mk = zoom (\<lambda>(l, h). (mk l, h)) (\<lambda>_ (c, h). (cu_list c, h))"

definition set_index :: "usize \<Rightarrow> (cursor \<times> 'a store, unit) prog" where
  "set_index i = modify (\<lambda>c. c\<lparr>cu_index := i\<rparr>)"

definition set_current :: "usize option \<Rightarrow> (cursor \<times> 'a store, unit) prog" where
  "set_current p = modify (\<lambda>c. c\<lparr>cu_current := p\<rparr>)"

definition cur_index :: "cursor \<Rightarrow> usize option" where
  "cur_index c = (case cu_current c of None \<Rightarrow> None | Some _ \<Rightarrow> Some (cu_index c))"

definition cur_move_next :: "(cursor \<times> 'a store, unit) prog" where
  "cur_move_next = bind self (\<lambda>c. case cu_current c of
     None \<Rightarrow> block [set_current (ll_head (cu_list c)), set_index 0]
   | Some p \<Rightarrow> bind (node_at p) (\<lambda>node.
       block [set_current (nd_next node), set_index (cu_index c + 1)]))"

definition cur_move_prev :: "(cursor \<times> 'a store, unit) prog" where
  "cur_move_prev = bind self (\<lambda>c. case cu_current c of
     None \<Rightarrow> block [set_current (ll_tail (cu_list c)), set_index (ll_len (cu_list c) - 1)]
   | Some p \<Rightarrow> bind (node_at p) (\<lambda>node.
       block [set_current (nd_prev node),
         set_index (if cu_index c = 0 then ll_len (cu_list c) else cu_index c - 1)]))"

definition cur_current :: "(cursor \<times> 'a store, 'a option) prog" where
  "cur_current = bind self (\<lambda>c. case cu_current c of
     None \<Rightarrow> ret None | Some p \<Rightarrow> bind (deref p) (\<lambda>x. ret (Some x)))"

text \<open>The node after the cursor and the node before it; both lookups occur in several operations.\<close>

definition node_next :: "(cursor \<times> 'a store, usize option) prog" where
  "node_next = bind self (\<lambda>c. case cu_current c of
     None \<Rightarrow> ret (ll_head (cu_list c))
   | Some p \<Rightarrow> bind (node_at p) (\<lambda>node. ret (nd_next node)))"

definition node_prev :: "(cursor \<times> 'a store, usize option) prog" where
  "node_prev = bind self (\<lambda>c. case cu_current c of
     None \<Rightarrow> ret (ll_tail (cu_list c))
   | Some p \<Rightarrow> bind (node_at p) (\<lambda>node. ret (nd_prev node)))"

definition cur_peek_next :: "(cursor \<times> 'a store, 'a option) prog" where
  "cur_peek_next = bind node_next (\<lambda>r. case r of
     None \<Rightarrow> ret None | Some p \<Rightarrow> bind (deref p) (\<lambda>x. ret (Some x)))"

definition cur_peek_prev :: "(cursor \<times> 'a store, 'a option) prog" where
  "cur_peek_prev = bind node_prev (\<lambda>r. case r of
     None \<Rightarrow> ret None | Some p \<Rightarrow> bind (deref p) (\<lambda>x. ret (Some x)))"

definition ghost_index_to_len :: "(cursor \<times> 'a store, unit) prog" where
  "ghost_index_to_len = bind self (\<lambda>c.
     if cu_current c = None then set_index (ll_len (cu_list c)) else ret ())"

definition cur_splice_after :: "linked_list \<Rightarrow> (cursor \<times> 'a store, unit) prog" where
  "cur_splice_after other =
     bind (reads (\<lambda>_. detach_all_nodes other)) (\<lambda>r. case r of
       None \<Rightarrow> ret ()
     | Some (splice_head, splice_tail, splice_len) \<Rightarrow>
         bind node_next (\<lambda>nxt.
         bind self (\<lambda>c. block [
           in_list (splice_nodes (cu_current c) nxt splice_head splice_tail splice_len),
           ghost_index_to_len])))"

definition cur_splice_before :: "linked_list \<Rightarrow> (cursor \<times> 'a store, unit) prog" where
  "cur_splice_before other =
     bind (reads (\<lambda>_. detach_all_nodes other)) (\<lambda>r. case r of
       None \<Rightarrow> ret ()
     | Some (splice_head, splice_tail, splice_len) \<Rightarrow>
         bind node_prev (\<lambda>prv.
         bind self (\<lambda>c. block [
           in_list (splice_nodes prv (cu_current c) splice_head splice_tail splice_len),
           set_index (cu_index c + splice_len)])))"

definition cur_insert_after :: "'a box_alloc \<Rightarrow> 'a \<Rightarrow> (cursor \<times> 'a store, unit) prog" where
  "cur_insert_after al x =
     bind (box_new al x) (\<lambda>spliced_node.
     bind node_next (\<lambda>nxt.
     bind self (\<lambda>c. block [
       in_list (splice_nodes (cu_current c) nxt spliced_node spliced_node 1),
       ghost_index_to_len])))"

definition cur_insert_before :: "'a box_alloc \<Rightarrow> 'a \<Rightarrow> (cursor \<times> 'a store, unit) prog" where
  "cur_insert_before al x =
     bind (box_new al x) (\<lambda>spliced_node.
     bind node_prev (\<lambda>prv.
     bind self (\<lambda>c. block [
       in_list (splice_nodes prv (cu_current c) spliced_node spliced_node 1),
       set_index (cu_index c + 1)])))"

definition cur_remove_current :: "(cursor \<times> 'a store, 'a option) prog" where
  "cur_remove_current = bind self (\<lambda>c. case cu_current c of
     None \<Rightarrow> ret None
   | Some unlinked_node \<Rightarrow>
       bind (node_at unlinked_node) (\<lambda>node.
       bind (set_current (nd_next node)) (\<lambda>_.
       bind (in_list (unlink_node unlinked_node)) (\<lambda>_.
       bind (into_element unlinked_node) (\<lambda>x. ret (Some x))))))"

definition cur_remove_current_as_list :: "(cursor \<times> 'a store, linked_list option) prog" where
  "cur_remove_current_as_list = bind self (\<lambda>c. case cu_current c of
     None \<Rightarrow> ret None
   | Some unlinked_node \<Rightarrow>
       bind (node_at unlinked_node) (\<lambda>node.
       bind (block [
         set_current (nd_next node),
         in_list (unlink_node unlinked_node),
         set_prev unlinked_node None,
         set_next unlinked_node None]) (\<lambda>_.
       ret (Some \<lparr>ll_head = Some unlinked_node, ll_tail = Some unlinked_node, ll_len = 1\<rparr>))))"

definition cur_split_after :: "(cursor \<times> 'a store, linked_list) prog" where
  "cur_split_after = bind self (\<lambda>c.
     let split_off_idx = (if cu_index c = ll_len (cu_list c) then 0 else cu_index c + 1) in
     bind (if cu_index c = ll_len (cu_list c) then set_index 0 else ret ()) (\<lambda>_.
     in_list (split_off_after_node (cu_current c) split_off_idx)))"

definition cur_split_before :: "(cursor \<times> 'a store, linked_list) prog" where
  "cur_split_before = bind self (\<lambda>c.
     let split_off_idx = cu_index c in
     bind (set_index 0) (\<lambda>_.
     in_list (split_off_before_node (cu_current c) split_off_idx)))"

definition cur_push_front :: "'a box_alloc \<Rightarrow> 'a \<Rightarrow> (cursor \<times> 'a store, unit) prog" where
  "cur_push_front al x =
     bind (in_list (ll_push_front al x)) (\<lambda>_. modify (\<lambda>c. c\<lparr>cu_index := cu_index c + 1\<rparr>))"

definition cur_push_back :: "'a box_alloc \<Rightarrow> 'a \<Rightarrow> (cursor \<times> 'a store, unit) prog" where
  "cur_push_back al x =
     bind (in_list (ll_push_back al x)) (\<lambda>_.
     bind cur_current (\<lambda>r.
       if r = None then modify (\<lambda>c. c\<lparr>cu_index := cu_index c + 1\<rparr>) else ret ()))"

definition cur_pop_front :: "(cursor \<times> 'a store, 'a option) prog" where
  "cur_pop_front = bind self (\<lambda>c.
     if ll_is_empty (cu_list c) then ret None
     else
       bind (if ll_head (cu_list c) = cu_current c then cur_move_next else ret ()) (\<lambda>_.
       bind (modify (\<lambda>c. c\<lparr>cu_index := cu_index c - 1\<rparr>)) (\<lambda>_.
       in_list ll_pop_front)))"

definition cur_pop_back :: "(cursor \<times> 'a store, 'a option) prog" where
  "cur_pop_back = bind self (\<lambda>c.
     if ll_is_empty (cu_list c) then ret None
     else
       bind (if ll_tail (cu_list c) = cu_current c then set_current None
             else if cu_current c = None then set_index (ll_len (cu_list c) - 1)
             else ret ()) (\<lambda>_.
       in_list ll_pop_back))"

section \<open>Operations written with cursors\<close>

definition unwrap_some :: "'x option \<Rightarrow> ('s, 'x) prog" where
  "unwrap_some r = (case r of
     None \<Rightarrow> failing (Panic ''called `Option::unwrap()` on a `None` value'') | Some x \<Rightarrow> ret x)"

definition ll_remove :: "usize \<Rightarrow> (linked_list \<times> 'a store, 'a) prog" where
  "ll_remove at = bind self (\<lambda>l. let len = ll_len l in
     if \<not> at < len then failing (Panic ''Cannot remove at an index outside of the list bounds'')
     else let offset_from_end = len - at - 1 in
       if at \<le> offset_from_end
       then with_cursor cursor_front_mut
         (bind (do_times at cur_move_next) (\<lambda>_. bind cur_remove_current unwrap_some))
       else with_cursor cursor_back_mut
         (bind (do_times offset_from_end cur_move_prev) (\<lambda>_. bind cur_remove_current unwrap_some)))"

text \<open>A closure of a user that looks at an element through \<open>&mut T\<close>: its answer or a panic, and the
  element and the closure's state it leaves in either case.\<close>

type_synonym ('c, 'a) visitor = "'c \<Rightarrow> 'a \<Rightarrow> bool option \<times> 'a \<times> 'c"

definition visit :: "('c, 'a) visitor \<Rightarrow> usize \<Rightarrow> ('c \<times> 's \<times> 'a store, bool) prog" where
  "visit f p = bind (with_glue (deref p)) (\<lambda>x. \<lambda>(c, s). case f c x of (r, y, c) \<Rightarrow>
     and_then (set_elem p y s) (\<lambda>(_, s). Inr (r, (c, s))))"

text \<open>The element \<open>retain\<close> removes is dropped at once, by a destructor that may panic.\<close>

fun retain_cursor ::
  "nat \<Rightarrow> ('c, 'a) visitor \<Rightarrow> ('c, 'a) glue \<Rightarrow> ('c \<times> cursor \<times> 'a store, unit) prog" where
  "retain_cursor 0 f d = failing OutOfFuel"
| "retain_cursor (Suc fuel) f d =
     bind (with_glue self) (\<lambda>c. case cu_current c of
       None \<Rightarrow> ret ()
     | Some node \<Rightarrow>
         bind (visit f node) (\<lambda>keep.
         bind (if \<not> keep
               then bind (bind (with_glue cur_remove_current) unwrap_some) (drop_value d)
               else with_glue cur_move_next) (\<lambda>_.
         retain_cursor fuel f d)))"

definition ll_retain ::
  "('c, 'a) visitor \<Rightarrow> ('c, 'a) glue \<Rightarrow> ('c \<times> linked_list \<times> 'a store, unit) prog" where
  "ll_retain f d = bind (with_glue self) (\<lambda>l.
     zoom (\<lambda>(c, l, h). (c, cursor_front_mut l, h)) (\<lambda>_ (c, cu, h). (c, cu_list cu, h))
       (retain_cursor (ll_len l + 1) f d))"

record extract_if =
  ex_list :: linked_list
  ex_it :: "usize option"
  ex_idx :: usize
  ex_old_len :: usize

definition ll_extract_if :: "linked_list \<Rightarrow> extract_if" where
  "ll_extract_if l = \<lparr>ex_list = l, ex_it = ll_head l, ex_idx = 0, ex_old_len = ll_len l\<rparr>"

definition in_extract :: "(linked_list \<times> 'a store, 'x) prog \<Rightarrow> (extract_if \<times> 'a store, 'x) prog" where
  "in_extract = zoom (\<lambda>(e, h). (ex_list e, h)) (\<lambda>(e, _) (l, h). (e\<lparr>ex_list := l\<rparr>, h))"

fun extract_next ::
  "nat \<Rightarrow> ('c, 'a) visitor \<Rightarrow> ('c \<times> extract_if \<times> 'a store, 'a option) prog" where
  "extract_next 0 pred = failing OutOfFuel"
| "extract_next (Suc fuel) pred =
     bind (with_glue self) (\<lambda>e. case ex_it e of
       None \<Rightarrow> ret None
     | Some p \<Rightarrow>
         bind (with_glue (node_at p)) (\<lambda>node.
         bind (with_glue (modify (\<lambda>e. e\<lparr>ex_it := nd_next node, ex_idx := ex_idx e + 1\<rparr>))) (\<lambda>_.
         bind (visit pred p) (\<lambda>r.
           if r then
             bind (with_glue (in_extract (unlink_node p))) (\<lambda>_.
             bind (with_glue (into_element p)) (\<lambda>x. ret (Some x)))
           else extract_next fuel pred))))"

definition extract_size_hint :: "extract_if \<Rightarrow> usize \<times> usize option" where
  "extract_size_hint e = (0, Some (ex_old_len e - ex_idx e))"

section \<open>Comparison and cloning\<close>

fun iter_eq :: "nat \<Rightarrow> ((list_iter \<times> list_iter) \<times> 'a store, bool) prog" where
  "iter_eq 0 = failing OutOfFuel"
| "iter_eq (Suc fuel) =
     bind (zoom (\<lambda>((i, j), h). (i, h)) (\<lambda>((_, j), _) (i, h). ((i, j), h)) iter_next) (\<lambda>r.
     bind (zoom (\<lambda>((i, j), h). (j, h)) (\<lambda>((i, _), _) (j, h). ((i, j), h)) iter_next) (\<lambda>r'.
     case r of
       None \<Rightarrow> ret (r' = None)
     | Some x \<Rightarrow> (case r' of
         None \<Rightarrow> ret False
       | Some y \<Rightarrow> if x = y then iter_eq fuel else ret False)))"

definition ll_eq :: "linked_list \<Rightarrow> linked_list \<Rightarrow> 'a store \<Rightarrow> bool res" where
  "ll_eq l other h =
     (if ll_len l = ll_len other
      then and_then (iter_eq (ll_len l + 1) ((ll_iter l, ll_iter other), h)) (\<lambda>(r, _).
        Inr (r = Some True))
      else Inr False)"

text \<open>\<open>clone_from\<close> reuses the nodes it has: it cuts the list to the length of the source, assigns
  the elements the two have in common and pushes the others. The clone of an element is a
  function \<open>cl\<close> that returns; the list cut off is dropped.\<close>

fun clone_zip ::
  "nat \<Rightarrow> ('a \<Rightarrow> 'a) \<Rightarrow> ((list_iter \<times> list_iter) \<times> 'a store, unit) prog" where
  "clone_zip 0 cl = failing OutOfFuel"
| "clone_zip (Suc fuel) cl =
     bind (zoom (\<lambda>((i, j), h). (i, h)) (\<lambda>((_, j), _) (i, h). ((i, j), h)) iter_mut_next) (\<lambda>r.
     case r of None \<Rightarrow> ret () | Some p \<Rightarrow>
     bind (zoom (\<lambda>((i, j), h). (j, h)) (\<lambda>((i, _), _) (j, h). ((i, j), h)) iter_next) (\<lambda>r'.
     case r' of None \<Rightarrow> ret () | Some x \<Rightarrow>
     bind (set_elem p (cl x)) (\<lambda>_. clone_zip fuel cl)))"

fun extend_cloned ::
  "nat \<Rightarrow> 'a box_alloc \<Rightarrow> ('a \<Rightarrow> 'a) \<Rightarrow> ((list_iter \<times> linked_list) \<times> 'a store, unit) prog" where
  "extend_cloned 0 al cl = failing OutOfFuel"
| "extend_cloned (Suc fuel) al cl =
     bind (zoom (\<lambda>((i, l), h). (i, h)) (\<lambda>((_, l), _) (i, h). ((i, l), h)) iter_next) (\<lambda>r.
     case r of None \<Rightarrow> ret () | Some x \<Rightarrow>
     bind (zoom (\<lambda>((i, l), h). (l, h)) (\<lambda>((i, _), _) (l, h). ((i, l), h)) (ll_push_back al (cl x)))
       (\<lambda>_. extend_cloned fuel al cl))"

definition ll_clone :: "'a box_alloc \<Rightarrow> ('a \<Rightarrow> 'a) \<Rightarrow> (linked_list \<times> 'a store, linked_list) prog" where
  "ll_clone al cl = (\<lambda>(l, h).
     and_then (extend_cloned (ll_len l + 1) al cl ((ll_iter l, ll_new), h)) (\<lambda>(r, ((_, copy), h)).
       Inr (map_option (\<lambda>_. copy) r, (l, h))))"

definition ll_clone_from ::
  "('c, 'a) glue \<Rightarrow> 'a box_alloc \<Rightarrow> ('a \<Rightarrow> 'a) \<Rightarrow> linked_list \<Rightarrow> ('c \<times> linked_list \<times> 'a store, unit) prog" where
  "ll_clone_from d al cl source =
     bind (with_glue self) (\<lambda>l.
     bind (if ll_len l > ll_len source
           then bind (with_glue (ll_split_off (ll_len source))) (\<lambda>cut.
             zoom (\<lambda>(c, l, h). (c, cut, h)) (\<lambda>(c, l, h) (c', _, h'). (c', l, h')) (ll_drop d))
           else ret ()) (\<lambda>_.
     bind (with_glue self) (\<lambda>l.
     bind (with_glue (zoom (\<lambda>(l, h). ((ll_iter_mut l, ll_iter source), h)) (\<lambda>(l, _) (_, h). (l, h))
             (bind (clone_zip (ll_len l + 1) cl) (\<lambda>_. bind self (\<lambda>(_, j). ret j))))) (\<lambda>source_iter.
     if it_len source_iter \<noteq> 0
     then with_glue (zoom (\<lambda>(l, h). ((source_iter, l), h)) (\<lambda>_ ((_, l), h). (l, h))
            (extend_cloned (it_len source_iter + 1) al cl))
     else ret ()))))"

end
