(* ===== verification/Linked_List_Correct.thy ===== *)
theory Linked_List_Correct
  imports Linked_List_Cursor
begin

text \<open>
  Correctness of \<open>LinkedList\<close>, part one: chains of nodes, the ownership of nodes by
  lists (\<open>lst\<close>), and what the node operations, the operations on the ends, the
  destructors and the iterators do to it. Weakest preconditions are those of
  \<open>Rust_Closure\<close>; \<open>wpa\<close> also allows the program to end for lack of memory.
\<close>

section \<open>Chains of nodes\<close>

text \<open>\<open>chain h a ns b\<close>: the store holds the nodes \<open>ns\<close> (addresses and elements, in order), linked
  in both directions, the first one's \<open>prev\<close> being \<open>a\<close> and the last one's \<open>next\<close> being \<open>b\<close>.\<close>

type_synonym 'a nodes = "(usize \<times> 'a) list"

definition addrs :: "'a nodes \<Rightarrow> usize set" where
  "addrs ns = fst ` set ns"

definition first :: "'a nodes \<Rightarrow> usize option \<Rightarrow> usize option" where
  "first ns b = (case ns of [] \<Rightarrow> b | n # _ \<Rightarrow> Some (fst n))"

definition final :: "usize option \<Rightarrow> 'a nodes \<Rightarrow> usize option" where
  "final a ns = (if ns = [] then a else Some (fst (last ns)))"

fun chain :: "'a store \<Rightarrow> usize option \<Rightarrow> 'a nodes \<Rightarrow> usize option \<Rightarrow> bool" where
  "chain h a [] b = True"
| "chain h a ((p, x) # ns) b \<longleftrightarrow>
     h p = Some \<lparr>nd_next = first ns b, nd_prev = a, nd_elem = x\<rparr> \<and> chain h (Some p) ns b"

lemma addrs_simps [simp]:
  "addrs [] = {}" "addrs (n # ns) = insert (fst n) (addrs ns)"
  "addrs (ns @ ms) = addrs ns \<union> addrs ms" "addrs (rev ns) = addrs ns" "finite (addrs ns)"
  by (auto simp: addrs_def)

lemma addrs_take_drop: "addrs (take i ns) \<subseteq> addrs ns" "addrs (drop i ns) \<subseteq> addrs ns"
  by (auto simp: addrs_def dest: in_set_takeD in_set_dropD)

lemma first_simps [simp]:
  "first [] b = b" "first (n # ns) b = Some (fst n)" "first (ns @ ms) b = first ns (first ms b)"
  by (auto simp: first_def split: list.splits)

lemma final_simps [simp]:
  "final a [] = a" "final a (n # ns) = final (Some (fst n)) ns"
  "final a (ns @ ms) = final (final a ns) ms"
  by (auto simp: final_def)

lemma first_None: "first ns None = None \<longleftrightarrow> ns = []"
  by (cases ns) auto

lemma final_None: "final None ns = None \<longleftrightarrow> ns = []"
  by (cases ns) (auto simp: final_def)

lemma chain_append:
  "chain h a (ns @ ms) b \<longleftrightarrow> chain h a ns (first ms b) \<and> chain h (final a ns) ms b"
proof (induction ns arbitrary: a)
  case (Cons n ns)
  then show ?case by (cases n) simp
qed simp

lemma chain_cong:
  "(\<And>p. p \<in> addrs ns \<Longrightarrow> h' p = h p) \<Longrightarrow> chain h' a ns b = chain h a ns b"
  by (induction ns arbitrary: a) auto

lemma chain_upd [simp]: "p \<notin> addrs ns \<Longrightarrow> chain (h(p := v)) a ns b = chain h a ns b"
  by (rule chain_cong) auto

lemma chain_node:
  "chain h a (ns @ (p, x) # ms) b \<Longrightarrow>
     h p = Some \<lparr>nd_next = first ms b, nd_prev = final a ns, nd_elem = x\<rparr>"
  by (simp add: chain_append)

lemma chain_dom: "chain h a ns b \<Longrightarrow> addrs ns \<subseteq> dom h"
proof (induction ns arbitrary: a)
  case (Cons n ns)
  obtain p x where "n = (p, x)" by fastforce
  then show ?case using Cons.IH [of "Some p"] Cons.prems by (simp add: domI)
qed simp

text \<open>Relinking one end of a chain.\<close>

lemma relink_first:
  assumes "chain h a ((p, x) # ns) b" "p \<notin> addrs ns"
  shows "chain (h(p \<mapsto> (the (h p))\<lparr>nd_prev := a'\<rparr>)) a' ((p, x) # ns) b"
  using assms by simp

lemma relink_final:
  assumes "chain h a (ns @ [(p, x)]) b" "p \<notin> addrs ns"
  shows "chain (h(p \<mapsto> (the (h p))\<lparr>nd_next := b'\<rparr>)) a (ns @ [(p, x)]) b'"
  using assms by (simp add: chain_append)

section \<open>Rules of the node operations\<close>

lemma wp_node_at [wp_simps]: "wp (node_at p) N U (s, h) \<longleftrightarrow> (\<exists>n. h p = Some n \<and> N n (s, h))"
  by (auto simp: node_at_def wp_reads split: option.splits)

lemma wp_set_node:
  "wp (set_node p f) N U (s, h) \<longleftrightarrow> (\<exists>n. h p = Some n \<and> N () (s, h(p \<mapsto> f n)))"
  by (auto simp: set_node_def wp_writes split: option.splits)

lemma wp_set [wp_simps]:
  "wp (set_next p q) N U (s, h) \<longleftrightarrow> (\<exists>n. h p = Some n \<and> N () (s, h(p \<mapsto> n\<lparr>nd_next := q\<rparr>)))"
  "wp (set_prev p q) N U (s, h) \<longleftrightarrow> (\<exists>n. h p = Some n \<and> N () (s, h(p \<mapsto> n\<lparr>nd_prev := q\<rparr>)))"
  "wp (set_elem p x) N U (s, h) \<longleftrightarrow> (\<exists>n. h p = Some n \<and> N () (s, h(p \<mapsto> n\<lparr>nd_elem := x\<rparr>)))"
  by (simp_all add: set_next_def set_prev_def set_elem_def wp_set_node)

lemma wp_deref [wp_simps]:
  "wp (deref p) N U (s, h) \<longleftrightarrow> (\<exists>n. h p = Some n \<and> N (nd_elem n) (s, h))"
  by (simp add: deref_def wp_simps)

lemma wp_box_free [wp_simps]:
  "wp (box_free p) N U (s, h) \<longleftrightarrow> p \<in> dom h \<and> N () (s, h(p := None))"
  by (auto simp: box_free_def wp_writes split: option.splits)

lemma wp_into_element [wp_simps]:
  "wp (into_element p) N U (s, h) \<longleftrightarrow> (\<exists>n. h p = Some n \<and> N (nd_elem n) (s, h(p := None)))"
  by (auto simp: into_element_def wp_simps)

lemma wp_box_new:
  "wp (box_new al x) N U (s, h) \<longleftrightarrow> (\<exists>p. al h = Some p \<and> N p (s, h(p \<mapsto> node_new x)))"
  by (auto simp: box_new_def wp_def split: option.splits)

lemma wp_self [wp_simps]: "wp self N U (s, h) \<longleftrightarrow> N s (s, h)"
  by (simp add: self_def wp_reads)

lemma wp_modify [wp_simps]: "wp (modify f) N U (s, h) \<longleftrightarrow> N () (f s, h)"
  by (simp add: modify_def wp_writes)

lemma wp_list_fields [wp_simps]:
  "wp (set_head q) N U (l, h) \<longleftrightarrow> N () (l\<lparr>ll_head := q\<rparr>, h)"
  "wp (set_tail q) N U (l, h) \<longleftrightarrow> N () (l\<lparr>ll_tail := q\<rparr>, h)"
  "wp (add_len n) N U (l, h) \<longleftrightarrow> N () (l\<lparr>ll_len := ll_len l + n\<rparr>, h)"
  "wp (sub_len n) N U (l, h) \<longleftrightarrow> N () (l\<lparr>ll_len := ll_len l - n\<rparr>, h)"
  by (simp_all add: set_head_def set_tail_def add_len_def sub_len_def wp_simps)

lemma wp_block [wp_simps]:
  "wp (block []) N U s \<longleftrightarrow> N () s"
  "wp (block (m # ms)) N U s \<longleftrightarrow> wp m (\<lambda>_. wp (block ms) N U) U s"
  by (simp_all add: wp_simps)

lemma wp_replace_self [wp_simps]: "wp (replace_self l') N U (l, h) \<longleftrightarrow> N l (l', h)"
  by (simp add: replace_self_def wp_simps)

section \<open>A list in a store\<close>

text \<open>\<open>lst l ns F h\<close>: the list \<open>l\<close> owns the nodes \<open>ns\<close> of the store \<open>h\<close>, the rest of which is \<open>F\<close>.
  Addresses are not null and fit in a \<open>usize\<close>.\<close>

definition lst :: "linked_list \<Rightarrow> 'a nodes \<Rightarrow> 'a store \<Rightarrow> 'a store \<Rightarrow> bool" where
  "lst l ns F h \<longleftrightarrow>
     chain h None ns None \<and> distinct (map fst ns) \<and> addrs ns \<subseteq> {0<..usize_max} \<and>
     ll_head l = first ns None \<and> ll_tail l = final None ns \<and> ll_len l = length ns \<and>
     addrs ns \<inter> dom F = {} \<and> (\<forall>p. p \<notin> addrs ns \<longrightarrow> h p = F p)"

lemma lstI:
  assumes "chain h None ns None" "distinct (map fst ns)" "addrs ns \<subseteq> {0<..usize_max}"
    "ll_head l = first ns None" "ll_tail l = final None ns" "ll_len l = length ns"
    "\<And>p. p \<in> addrs ns \<Longrightarrow> F p = None" "\<And>p. p \<notin> addrs ns \<Longrightarrow> h p = F p"
  shows "lst l ns F h"
  using assms by (auto simp: lst_def)

lemma lstD:
  assumes "lst l ns F h"
  shows "chain h None ns None" "distinct (map fst ns)" "addrs ns \<subseteq> {0<..usize_max}"
    "ll_head l = first ns None" "ll_tail l = final None ns" "ll_len l = length ns"
    "p \<in> addrs ns \<Longrightarrow> F p = None" "p \<notin> addrs ns \<Longrightarrow> h p = F p"
  using assms by (auto simp: lst_def)

lemma distinct_Cons: "distinct (map fst (n # ns)) \<longleftrightarrow> fst n \<notin> addrs ns \<and> distinct (map fst ns)"
  by (simp add: addrs_def)

lemma distinct_append:
  "distinct (map fst (ns @ ms)) \<longleftrightarrow>
     distinct (map fst ns) \<and> distinct (map fst ms) \<and> addrs ns \<inter> addrs ms = {}"
  by (simp add: addrs_def)

lemma lst_new: "lst ll_new [] F F"
  by (rule lstI) (auto simp: ll_new_def)

text \<open>The length counter cannot overflow: the nodes have different addresses.\<close>

lemma lst_len_bound:
  assumes "lst l ns F h"
  shows "ll_len l \<le> usize_max"
proof -
  have "length ns = card (addrs ns)"
    using lstD(2) [OF assms] by (metis addrs_def distinct_card length_map list.set_map)
  also have "\<dots> \<le> card {0<..usize_max}" using lstD(3) [OF assms] by (intro card_mono) auto
  finally show ?thesis using lstD(6) [OF assms] by simp
qed

text \<open>The two ways every operation changes a link: forwards, at the end of a prefix of the list or
  at the head, and backwards, at the start of a suffix or at the tail.\<close>

lemma wp_link_forward:
  assumes "chain h None ns b" "distinct (map fst ns)" "q = final None ns"
    and "\<And>h'. chain h' None ns v \<Longrightarrow> (\<And>p. p \<notin> addrs ns \<Longrightarrow> h' p = h p) \<Longrightarrow>
      N () (if ns = [] then l\<lparr>ll_head := v\<rparr> else l, h')"
  shows "wp (case q of None \<Rightarrow> set_head v | Some p \<Rightarrow> set_next p v) N U (l, h)"
proof (cases ns rule: rev_cases)
  case Nil
  then show ?thesis using assms(3) assms(4) [of h] by (simp add: wp_simps)
next
  case (snoc ms n)
  obtain p x where n: "n = (p, x)" by fastforce
  have c: "chain h None (ms @ [(p, x)]) b" and p: "p \<notin> addrs ms"
    using assms(1,2) by (simp_all add: snoc n addrs_def)
  have "h p \<noteq> None" using c by (simp add: chain_append)
  then obtain nd where nd: "h p = Some nd" by blast
  have "N () (l, h(p \<mapsto> nd\<lparr>nd_next := v\<rparr>))"
    using assms(4) [of "h(p \<mapsto> nd\<lparr>nd_next := v\<rparr>)"] relink_final [OF c p, of v] nd
    by (simp add: snoc n)
  then show ?thesis using assms(3) nd by (simp add: snoc n wp_simps)
qed

lemma wp_link_backward:
  assumes "chain h a ns None" "distinct (map fst ns)" "q = first ns None"
    and "\<And>h'. chain h' v ns None \<Longrightarrow> (\<And>p. p \<notin> addrs ns \<Longrightarrow> h' p = h p) \<Longrightarrow>
      N () (if ns = [] then l\<lparr>ll_tail := v\<rparr> else l, h')"
  shows "wp (case q of None \<Rightarrow> set_tail v | Some p \<Rightarrow> set_prev p v) N U (l, h)"
proof (cases ns)
  case Nil
  then show ?thesis using assms(3) assms(4) [of h] by (simp add: wp_simps)
next
  case (Cons n ms)
  obtain p x where n: "n = (p, x)" by fastforce
  have c: "chain h a ((p, x) # ms) None" and p: "p \<notin> addrs ms"
    using assms(1,2) by (simp_all add: Cons n addrs_def)
  then obtain nd where nd: "h p = Some nd" by simp
  have "N () (l, h(p \<mapsto> nd\<lparr>nd_prev := v\<rparr>))"
    using assms(4) [of "h(p \<mapsto> nd\<lparr>nd_prev := v\<rparr>)"] relink_first [OF c p, of v] nd p
    by (simp add: Cons n)
  then show ?thesis using assms(3) nd by (simp add: Cons n wp_simps)
qed

section \<open>Node operations\<close>

text \<open>The node of a box the program owns.\<close>

definition boxed :: "usize \<Rightarrow> 'a \<Rightarrow> 'a store \<Rightarrow> bool" where
  "boxed p x F \<longleftrightarrow> p \<in> {0<..usize_max} \<and> (\<exists>n. F p = Some n \<and> nd_elem n = x)"

lemma wp_push_front_node:
  assumes l: "lst l ns F h" and b: "boxed p x F"
    and N: "\<And>l' h'. lst l' ((p, x) # ns) (F(p := None)) h' \<Longrightarrow> N () (l', h')"
  shows "wp (push_front_node p) N U (l, h)"
proof -
  note D = lstD [OF l]
  obtain n where n: "F p = Some n" "nd_elem n = x" "0 < p" "p \<le> usize_max"
    using b by (auto simp: boxed_def)
  then have p: "p \<notin> addrs ns" using D(7) [of p] by auto
  then have hp: "h p = Some n" using D(8) n by simp
  let ?h = "h(p \<mapsto> n\<lparr>nd_next := ll_head l, nd_prev := None\<rparr>)"
  have "wp (case ll_head l of None \<Rightarrow> set_tail (Some p) | Some head \<Rightarrow> set_prev head (Some p))
      (\<lambda>_. wp (block [set_head (Some p), add_len 1]) N U) U (l, ?h)"
  proof (rule wp_link_backward)
    show "chain ?h None ns None" "distinct (map fst ns)" "ll_head l = first ns None"
      using D p by simp_all
    fix h' assume c: "chain h' (Some p) ns None" and f: "\<And>q. q \<notin> addrs ns \<Longrightarrow> h' q = ?h q"
    let ?l = "(if ns = [] then l\<lparr>ll_tail := Some p\<rparr> else l)\<lparr>ll_head := Some p, ll_len := length ns + 1\<rparr>"
    have "lst ?l ((p, x) # ns) (F(p := None)) h'"
      using c D n p f [OF p] by (intro lstI) (auto simp: f addrs_def final_def)
    then show "wp (block [set_head (Some p), add_len 1]) N U (if ns = [] then l\<lparr>ll_tail := Some p\<rparr> else l, h')"
      using D(6) N by (simp add: wp_simps split: if_splits)
  qed
  then show ?thesis by (simp add: push_front_node_def wp_simps hp)
qed


lemma boxed_new:
  assumes "al h = Some p" "p \<in> {0<..usize_max}"
  shows "boxed p x (F(p \<mapsto> node_new x))"
  using assms by (simp add: boxed_def node_new_def)

lemma wp_push_back_node:
  assumes l: "lst l ns F h" and b: "boxed p x F"
    and N: "\<And>l' h'. lst l' (ns @ [(p, x)]) (F(p := None)) h' \<Longrightarrow> N () (l', h')"
  shows "wp (push_back_node p) N U (l, h)"
proof -
  note D = lstD [OF l]
  obtain n where n: "F p = Some n" "nd_elem n = x" "0 < p" "p \<le> usize_max"
    using b by (auto simp: boxed_def)
  then have p: "p \<notin> addrs ns" using D(7) [of p] by auto
  then have hp: "h p = Some n" using D(8) n by simp
  let ?h = "h(p \<mapsto> n\<lparr>nd_next := None, nd_prev := ll_tail l\<rparr>)"
  have "wp (case ll_tail l of None \<Rightarrow> set_head (Some p) | Some tail \<Rightarrow> set_next tail (Some p))
      (\<lambda>_. wp (block [set_tail (Some p), add_len 1]) N U) U (l, ?h)"
  proof (rule wp_link_forward)
    show "chain ?h None ns None" "distinct (map fst ns)" "ll_tail l = final None ns"
      using D p by simp_all
    fix h' assume c: "chain h' None ns (Some p)" and f: "\<And>q. q \<notin> addrs ns \<Longrightarrow> h' q = ?h q"
    let ?l = "(if ns = [] then l\<lparr>ll_head := Some p\<rparr> else l)\<lparr>ll_tail := Some p, ll_len := length ns + 1\<rparr>"
    have "first ns None = first ns (Some p)" if "ns \<noteq> []" using that by (cases ns) auto
    then have "lst ?l (ns @ [(p, x)]) (F(p := None)) h'"
      using c D n p f [OF p] by (intro lstI) (auto simp: f addrs_def chain_append)
    then show "wp (block [set_tail (Some p), add_len 1]) N U (if ns = [] then l\<lparr>ll_head := Some p\<rparr> else l, h')"
      using D(6) N by (simp add: wp_simps split: if_splits)
  qed
  then show ?thesis by (simp add: push_back_node_def wp_simps hp)
qed

lemma wp_pop_front_node:
  assumes l: "lst l ns F h"
    and N: "ns = [] \<Longrightarrow> N None (l, h)"
      "\<And>p x ms nd l' h'. ns = (p, x) # ms \<Longrightarrow> nd_elem nd = x \<Longrightarrow> lst l' ms (F(p \<mapsto> nd)) h' \<Longrightarrow> N (Some p) (l', h')"
  shows "wp pop_front_node N U (l, h)"
proof (cases ns)
  case Nil
  then show ?thesis using N(1) lstD(4) [OF l] by (simp add: pop_front_node_def wp_simps)
next
  case (Cons n ms)
  obtain p x where n: "n = (p, x)" by fastforce
  note D = lstD [OF l, unfolded Cons n]
  let ?nd = "\<lparr>nd_next = first ms None, nd_prev = None, nd_elem = x\<rparr>"
  have hp: "h p = Some ?nd" "chain h (Some p) ms None" and p: "p \<notin> addrs ms" "distinct (map fst ms)"
    using D(1,2) by (simp_all add: addrs_def)
  have "wp (case first ms None of None \<Rightarrow> set_tail None | Some head \<Rightarrow> set_prev head None)
      (\<lambda>_. wp (block [sub_len 1]) (\<lambda>_. N (Some p)) U) U (l\<lparr>ll_head := first ms None\<rparr>, h)"
  proof (rule wp_link_backward [OF hp(2) p(2) refl])
    fix h' assume c: "chain h' None ms None" and f: "\<And>q. q \<notin> addrs ms \<Longrightarrow> h' q = h q"
    let ?l = "l\<lparr>ll_head := first ms None\<rparr>"
    let ?l' = "(if ms = [] then ?l\<lparr>ll_tail := None\<rparr> else ?l)\<lparr>ll_len := length ms\<rparr>"
    have "lst ?l' ms (F(p \<mapsto> ?nd)) h'"
      using c D p hp(1) by (intro lstI) (auto simp: f addrs_def final_def)
    then have "N (Some p) (?l', h')" by (rule N(2) [OF Cons [unfolded n], rotated]) simp
    then show "wp (block [sub_len 1]) (\<lambda>_. N (Some p)) U (if ms = [] then ?l\<lparr>ll_tail := None\<rparr> else ?l, h')"
      using D(6) by (simp add: wp_simps split: if_splits)
  qed
  then show ?thesis using D(4) hp(1) by (simp add: pop_front_node_def wp_simps)
qed

lemma wp_pop_back_node:
  assumes l: "lst l ns F h"
    and N: "ns = [] \<Longrightarrow> N None (l, h)"
      "\<And>p x ms nd l' h'. ns = ms @ [(p, x)] \<Longrightarrow> nd_elem nd = x \<Longrightarrow> lst l' ms (F(p \<mapsto> nd)) h' \<Longrightarrow> N (Some p) (l', h')"
  shows "wp pop_back_node N U (l, h)"
proof (cases ns rule: rev_cases)
  case Nil
  then show ?thesis using N(1) lstD(5) [OF l] by (simp add: pop_back_node_def wp_simps)
next
  case (snoc ms n)
  obtain p x where n: "n = (p, x)" by fastforce
  note D = lstD [OF l, unfolded snoc n]
  let ?nd = "\<lparr>nd_next = None, nd_prev = final None ms, nd_elem = x\<rparr>"
  have hp: "h p = Some ?nd" "chain h None ms (Some p)" and p: "p \<notin> addrs ms" "distinct (map fst ms)"
    using D(1,2) by (simp_all add: addrs_def chain_append)
  have "wp (case final None ms of None \<Rightarrow> set_head None | Some tail \<Rightarrow> set_next tail None)
      (\<lambda>_. wp (block [sub_len 1]) (\<lambda>_. N (Some p)) U) U (l\<lparr>ll_tail := final None ms\<rparr>, h)"
  proof (rule wp_link_forward [OF hp(2) p(2) refl])
    fix h' assume c: "chain h' None ms None" and f: "\<And>q. q \<notin> addrs ms \<Longrightarrow> h' q = h q"
    let ?l = "l\<lparr>ll_tail := final None ms\<rparr>"
    let ?l' = "(if ms = [] then ?l\<lparr>ll_head := None\<rparr> else ?l)\<lparr>ll_len := length ms\<rparr>"
    have "first ms (Some p) = first ms None" if "ms \<noteq> []" using that by (cases ms) auto
    then have "lst ?l' ms (F(p \<mapsto> ?nd)) h'"
      using c D p hp(1) by (intro lstI) (auto simp: f addrs_def)
    then have "N (Some p) (?l', h')" by (rule N(2) [OF snoc [unfolded n], rotated]) simp
    then show "wp (block [sub_len 1]) (\<lambda>_. N (Some p)) U (if ms = [] then ?l\<lparr>ll_head := None\<rparr> else ?l, h')"
      using D(6) by (simp add: wp_simps split: if_splits)
  qed
  then show ?thesis using D(5) hp(1) by (simp add: pop_back_node_def wp_simps)
qed

lemma first_nonempty: "ns \<noteq> [] \<Longrightarrow> first ns a = first ns b"
  by (cases ns) auto

lemma chain_frame:
  assumes "chain h a ns b" "A \<inter> addrs ns = {}" "\<And>p. p \<notin> A \<Longrightarrow> h' p = h p"
  shows "chain h' a ns b"
  using assms by (subst chain_cong [of ns h' h]) (auto simp: disjoint_iff)

lemma final_nonempty: "ns \<noteq> [] \<Longrightarrow> final a ns = final b ns"
  by (simp add: final_def)

lemma wp_unlink_node:
  assumes l: "lst l (ns @ (p, x) # ms) F h"
    and N: "\<And>l' h' nd. nd_elem nd = x \<Longrightarrow> lst l' (ns @ ms) (F(p \<mapsto> nd)) h' \<Longrightarrow> N () (l', h')"
  shows "wp (unlink_node p) N U (l, h)"
proof -
  note D = lstD [OF l]
  let ?nd = "\<lparr>nd_next = first ms None, nd_prev = final None ns, nd_elem = x\<rparr>"
  have hp: "h p = Some ?nd" "chain h None ns (Some p)" "chain h (Some p) ms None"
    and p: "p \<notin> addrs ns" "p \<notin> addrs ms" "distinct (map fst ns)" "distinct (map fst ms)"
      "addrs ns \<inter> addrs ms = {}"
    using D(1,2) by (auto simp: addrs_def chain_append)
  let ?bwd = "case first ms None of Some nxt \<Rightarrow> set_prev nxt (final None ns) | None \<Rightarrow> set_tail (final None ns)"
  have "wp (case final None ns of Some prev \<Rightarrow> set_next prev (first ms None) | None \<Rightarrow> set_head (first ms None))
      (\<lambda>_. wp (block [?bwd, sub_len 1]) N U) U (l, h)"
  proof (rule wp_link_forward [OF hp(2) p(3) refl])
    fix h1 assume c1: "chain h1 None ns (first ms None)" and f1: "\<And>q. q \<notin> addrs ns \<Longrightarrow> h1 q = h q"
    let ?l = "if ns = [] then l\<lparr>ll_head := first ms None\<rparr> else l"
    have ms1: "chain h1 (Some p) ms None" by (rule chain_frame [OF hp(3) p(5) f1])
    have "wp ?bwd (\<lambda>_. wp (block [sub_len 1]) N U) U (?l, h1)"
    proof (rule wp_link_backward [OF ms1 p(4) refl])
      fix h2 assume c2: "chain h2 (final None ns) ms None" and f2: "\<And>q. q \<notin> addrs ms \<Longrightarrow> h2 q = h1 q"
      let ?l' = "(if ms = [] then ?l\<lparr>ll_tail := final None ns\<rparr> else ?l)\<lparr>ll_len := length (ns @ ms)\<rparr>"
      have "chain h2 None ns (first ms None)"  by (rule chain_frame [OF c1 _ f2]) (use p(5) in auto)
      then have "lst ?l' (ns @ ms) (F(p \<mapsto> ?nd)) h2"
        using c2 D p hp(1) first_nonempty [of ns "first ms None" "Some p"]
          final_nonempty [of ms "Some p" "final None ns"]
        by (intro lstI) (auto simp: f1 f2 chain_append distinct_append)
      then have "N () (?l', h2)" by (rule N [rotated]) simp
      then show "wp (block [sub_len 1]) N U (if ms = [] then ?l\<lparr>ll_tail := final None ns\<rparr> else ?l, h2)"
        using D(6) by (simp add: wp_simps split: if_splits)
    qed
    then show "wp (block [?bwd, sub_len 1]) N U (?l, h1)" by (simp add: wp_simps)
  qed
  then show ?thesis using hp(1) by (simp add: unlink_node_def wp_simps cong: option.case_cong)
qed

text \<open>A chain of nodes the program owns outside the list.\<close>

definition loose :: "'a nodes \<Rightarrow> 'a store \<Rightarrow> bool" where
  "loose ns F \<longleftrightarrow> (\<exists>a b. chain F a ns b) \<and> distinct (map fst ns) \<and> addrs ns \<subseteq> {0<..usize_max}"

lemma chain_reend:
  assumes "chain h a ns b" "distinct (map fst ns)" "ns \<noteq> []"
  obtains n h' where "h (fst (hd ns)) = Some n"
    "h' = h(fst (hd ns) \<mapsto> n\<lparr>nd_prev := a'\<rparr>)" "chain h' a' ns b"
proof -
  obtain p x ms where ns: "ns = (p, x) # ms" using assms(3) by (cases ns) auto
  with assms show thesis by (intro that [of _ "h(p \<mapsto> (the (h p))\<lparr>nd_prev := a'\<rparr>)"]) (auto simp: addrs_def)
qed

lemma chain_refinal:
  assumes "chain h a ns b" "distinct (map fst ns)" "ns \<noteq> []"
  obtains n h' where "h (fst (last ns)) = Some n"
    "h' = h(fst (last ns) \<mapsto> n\<lparr>nd_next := b'\<rparr>)" "chain h' a ns b'"
proof -
  obtain ms p x where ns: "ns = ms @ [(p, x)]" using assms(3) by (cases ns rule: rev_cases) auto
  have p: "p \<notin> addrs ms" using assms(2) by (simp add: ns addrs_def)
  from relink_final [OF assms(1) [unfolded ns] this, of b'] assms(1) show thesis
    by (intro that [of "the (h p)"]) (auto simp: ns chain_append)
qed

lemma wp_splice_nodes:
  assumes l: "lst l (ns @ ms) F h" and k: "loose ks F" "ks \<noteq> []"
    and eqs: "q = final None ns" "r = first ms None" "s = fst (hd ks)" "t = fst (last ks)" "n = length ks"
    and N: "\<And>l' h'. lst l' (ns @ ks @ ms) (F |` (- addrs ks)) h' \<Longrightarrow> N () (l', h')"
  shows "wp (splice_nodes q r s t n) N U (l, h)"
proof -
  note D = lstD [OF l]
  obtain a b where F: "chain F a ks b" using k by (auto simp: loose_def)
  have dis: "addrs ks \<inter> addrs ns = {}" "addrs ks \<inter> addrs ms = {}"
    using chain_dom [OF F] D(7) by auto
  have hk: "chain h a ks b" using F dis D(8) by (subst chain_cong [of ks h F]) auto
  have kd: "distinct (map fst ks)" "addrs ks \<subseteq> {0<..usize_max}" using k by (simp_all add: loose_def)
  have nm: "chain h None ns (first ms None)" "chain h (final None ns) ms None"
    "distinct (map fst ns)" "distinct (map fst ms)" "addrs ns \<inter> addrs ms = {}"
    using D(1,2) by (simp_all add: chain_append addrs_def)
  have in_ks: "s \<in> addrs ks" "t \<in> addrs ks" using k(2) eqs by (auto simp: addrs_def)
  let ?fwd = "case q of Some p \<Rightarrow> set_next p (Some s) | None \<Rightarrow> set_head (Some s)"
  let ?bwd = "case r of Some p \<Rightarrow> set_prev p (Some t) | None \<Rightarrow> set_tail (Some t)"
  let ?rest = "[set_prev s q, set_next t r, add_len n]"
  have "wp ?fwd (\<lambda>_. wp (block (?bwd # ?rest)) N U) U (l, h)"
  proof (rule wp_link_forward [OF nm(1,3) eqs(1)])
    fix h1 assume c1: "chain h1 None ns (Some s)" and f1: "\<And>p. p \<notin> addrs ns \<Longrightarrow> h1 p = h p"
    let ?l = "if ns = [] then l\<lparr>ll_head := Some s\<rparr> else l"
    have ms1: "chain h1 (final None ns) ms None"
      by (rule chain_frame [OF nm(2,5) f1])
    have "wp ?bwd (\<lambda>_. wp (block ?rest) N U) U (?l, h1)"
    proof (rule wp_link_backward [OF ms1 nm(4) eqs(2)])
      fix h2 assume c2: "chain h2 (Some t) ms None" and f2: "\<And>p. p \<notin> addrs ms \<Longrightarrow> h2 p = h1 p"
      let ?l' = "if ms = [] then ?l\<lparr>ll_tail := Some t\<rparr> else ?l"
      have ks1: "chain h1 a ks b" by (rule chain_frame [OF hk _ f1]) (use dis in auto)
      have ks2: "chain h2 a ks b"
        by (rule chain_frame [OF ks1 _ f2]) (use dis in auto)
      obtain n3 h3 where h3: "h2 s = Some n3" "h3 = h2(s \<mapsto> n3\<lparr>nd_prev := q\<rparr>)" "chain h3 q ks b"
        by (rule chain_reend [OF ks2 kd(1) k(2), of q]) (simp add: eqs)
      obtain n4 h4 where h4: "h3 t = Some n4" "h4 = h3(t \<mapsto> n4\<lparr>nd_next := r\<rparr>)" "chain h4 q ks r"
        by (rule chain_refinal [OF h3(3) kd(1) k(2), of r]) (simp add: eqs)
      have same: "h4 p = h2 p" if "p \<notin> addrs ks" for p using that in_ks h3(2) h4(2) by auto
      have ns4: "chain h4 None ns (Some s)"

        using chain_frame [OF chain_frame [OF c1 _ f2] _ same] dis nm(5) by (simp add: Int_commute)
      have ms4: "chain h4 (Some t) ms None" 
        by (rule chain_frame [OF c2 dis(2) same])
      have st: "first ks r = Some s" "final q ks = Some t" using k(2) eqs by (cases ks; auto simp: final_def)+
      let ?l4 = "?l'\<lparr>ll_len := length (ns @ ks @ ms)\<rparr>"
      have "lst ?l4 (ns @ ks @ ms) (F |` (- addrs ks)) h4"
      proof (rule lstI)
        show "chain h4 None (ns @ ks @ ms) None" using ns4 h4(3) ms4 st eqs by (simp add: chain_append)
        show "ll_head ?l4 = first (ns @ ks @ ms) None" using D(4) st k(2) first_nonempty [of ks "first ms None" r]
            first_nonempty [of ns "Some s" "first ms None"] by auto
        show "ll_tail ?l4 = final None (ns @ ks @ ms)" using D(5) st eqs(1)
            final_nonempty [of ms "Some t" "final None ns"] by auto
        show "distinct (map fst (ns @ ks @ ms))"
          unfolding distinct_append addrs_simps using nm(3-5) kd(1) dis by auto
      qed (use D(3,6-8) dis kd(2) same f1 f2 in \<open>auto simp: restrict_map_def\<close>)
      then have "N () (?l4, h4)" by (rule N)
      then show "wp (block ?rest) N U (?l', h2)"
        using D(6) h3 h4 eqs(5) by (simp add: wp_simps add_ac split: if_splits)
    qed
    then show "wp (block (?bwd # ?rest)) N U (?l, h1)" by (simp add: wp_simps)
  qed
  then show ?thesis unfolding splice_nodes_def by (simp add: wp_simps)
qed


text \<open>Ownership of nodes moves between a list and the rest of the store.\<close>

lemma restrict_upd: "chain h a ns b \<Longrightarrow> addrs ns \<subseteq> A \<Longrightarrow> chain (h |` A) a ns b"
  by (subst chain_cong [of ns _ h]) auto

lemma wp_split_off_before_node:
  assumes l: "lst l (ns @ ms) F h" and q: "q = first ms None" "i = length ns"
    and N: "\<And>l1 l2 h' F'. lst l2 ms F' h' \<Longrightarrow> lst l1 ns F F' \<Longrightarrow> N l1 (l2, h')"
  shows "wp (split_off_before_node q i) N U (l, h)"
proof (cases ms)
  case Nil
  then show ?thesis using N [of ll_new h h l] l q by (simp add: lst_new split_off_before_node_def wp_simps)
next
  case (Cons n ms')
  obtain p x where n: "n = (p, x)" by fastforce
  note ms = Cons [unfolded n]
  note D = lstD [OF l]
  have nm: "chain h None ns (Some p)" "chain h (final None ns) ms None" "p \<notin> addrs ms'"
    "distinct (map fst ns)" "distinct (map fst ms)" "addrs ns \<inter> addrs ms = {}" "p \<notin> addrs ns"
    using D(1,2) by (auto simp: chain_append addrs_def ms)
  obtain nd where nd: "h p = Some nd" "nd_prev nd = final None ns" using nm(2) by (simp add: ms)
  let ?h1 = "h(p \<mapsto> nd\<lparr>nd_prev := None\<rparr>)"
  have c1: "chain ?h1 None ms None" using relink_first [of h "final None ns" p x ms' None None] nm nd
    by (simp add: ms)
  have c1': "chain ?h1 None ns (Some p)" using nm by simp
  let ?l2 = "l\<lparr>ll_head := Some p, ll_len := ll_len l - i\<rparr>"
  let ?l1 = "\<lparr>ll_head = first ns None, ll_tail = final None ns, ll_len = i\<rparr>"
  have fin: "N ?l1 (?l2, h2)" if c2: "chain h2 None ns None" "\<And>r. r \<notin> addrs ns \<Longrightarrow> h2 r = ?h1 r" for h2
  proof (rule N)
    have m2: "chain h2 None ms None" by (rule chain_frame [OF c1 nm(6) c2(2)])
    show "lst ?l2 ms (h2 |` (- addrs ms)) h2" using m2 D nm q
      by (intro lstI) (auto simp: ms restrict_map_def)
    show "lst ?l1 ns F (h2 |` (- addrs ms))"
      using restrict_upd [OF c2(1), of "- addrs ms"] D nm(4,6,7) q c2(2)
      by (intro lstI) (auto simp: restrict_map_def ms)
  qed
  show ?thesis
  proof (cases "ns = []")
    case True
    then show ?thesis using fin [of ?h1] nd q(1) by (simp add: split_off_before_node_def wp_simps ms n)
  next
    case False
    obtain ns' r y where ns: "ns = ns' @ [(r, y)]" using False by (cases ns rule: rev_cases) auto
    have r: "r \<notin> addrs ns'" "r \<noteq> p" using nm by (simp_all add: ns addrs_def)
    have "chain (?h1(r \<mapsto> (the (?h1 r))\<lparr>nd_next := None\<rparr>)) None ns None"
      using relink_final [OF c1' [unfolded ns] r(1)] by (simp add: ns)
    then have "N ?l1 (?l2, ?h1(r \<mapsto> (the (?h1 r))\<lparr>nd_next := None\<rparr>))" by (rule fin) (simp add: ns)
    moreover obtain nr where "h r = Some nr" using nm(1) by (auto simp: ns chain_append)
    moreover have "ll_head l = first ns None" 
      using D(4) first_nonempty [OF False, of "first ms None" None] by simp
    ultimately show ?thesis using nd r q by (simp add: split_off_before_node_def wp_simps ms n ns)
  qed
qed


lemma wp_split_off_after_node:
  assumes l: "lst l (ns @ ms) F h" and q: "q = final None ns" "i = length ns"
    and N: "\<And>l1 l2 h' F'. ns \<noteq> [] \<Longrightarrow> lst l1 ns F' h' \<Longrightarrow> lst l2 ms F F' \<Longrightarrow> N l2 (l1, h')"
      "ns = [] \<Longrightarrow> N l (ll_new, h)"
  shows "wp (split_off_after_node q i) N U (l, h)"
proof (cases ns rule: rev_cases)
  case Nil
  then show ?thesis using N(2) l q by (simp add: split_off_after_node_def wp_simps)
next
  case (snoc ns' n)
  obtain p x where n: "n = (p, x)" by fastforce
  note ns = snoc [unfolded n]
  note D = lstD [OF l]
  have nm: "chain h None ns (first ms None)" "chain h (Some p) ms None" "p \<notin> addrs ns'"
    "distinct (map fst ns)" "distinct (map fst ms)" "addrs ns \<inter> addrs ms = {}" "p \<notin> addrs ms"
    using D(1,2) by (auto simp: chain_append addrs_def ns)
  obtain nd where nd: "h p = Some nd" "nd_next nd = first ms None"
    using nm(1) by (simp add: ns chain_append)
  let ?h1 = "h(p \<mapsto> nd\<lparr>nd_next := None\<rparr>)"
  have c1: "chain ?h1 None ns None" using relink_final [OF nm(1) [unfolded ns] nm(3), of None] nd
    by (simp add: ns)
  have c1': "chain ?h1 (Some p) ms None" using nm by simp
  let ?l1 = "l\<lparr>ll_tail := Some p, ll_len := i\<rparr>"
  let ?l2 = "\<lparr>ll_head = first ms None, ll_tail = final None ms, ll_len = ll_len l - i\<rparr>"
  have fin: "N ?l2 (?l1, h2)" if c2: "chain h2 None ms None" "\<And>r. r \<notin> addrs ms \<Longrightarrow> h2 r = ?h1 r" for h2
  proof (rule N(1))
    show "ns \<noteq> []" by (simp add: ns)
    have m2: "chain h2 None ns None"
      by (rule chain_frame [OF c1 _ c2(2)]) (use nm(6) in auto)
    show "lst ?l1 ns (h2 |` (- addrs ns)) h2" using m2 D nm q
      first_nonempty [of ns "first ms None" None]
      by (intro lstI) (auto simp: ns restrict_map_def)
    show "lst ?l2 ms F (h2 |` (- addrs ns))"
      using restrict_upd [OF c2(1), of "- addrs ns"] D nm(5,6,7) q c2(2)
      by (intro lstI) (auto simp: restrict_map_def ns)
  qed
  show ?thesis
  proof (cases ms)
    case Nil
    then show ?thesis using fin [of ?h1] nd q(1) by (simp add: split_off_after_node_def wp_simps ns n)
  next
    case (Cons m ms')
    obtain r y where m: "m = (r, y)" by fastforce
    note ms = Cons [unfolded m]
    have r: "r \<notin> addrs ms'" "r \<noteq> p" using nm by (auto simp: ms addrs_def)
    have "chain (?h1(r \<mapsto> (the (?h1 r))\<lparr>nd_prev := None\<rparr>)) None ms None"
      using relink_first [OF c1' [unfolded ms] r(1), of None] by (simp only: ms)
    then have "N ?l2 (?l1, ?h1(r \<mapsto> (the (?h1 r))\<lparr>nd_prev := None\<rparr>))" by (rule fin) (simp add: ms)
    moreover obtain nr where "h r = Some nr" using nm(2) by (auto simp: ms)
    moreover have "ll_tail l = final None ms" using D(5) final_nonempty [of ms "final None ns" None]
      by (simp add: ms)
    ultimately show ?thesis using nd r q(1) by (simp add: split_off_after_node_def wp_simps ns n ms)
  qed
qed

lemma wp_append_list:
  assumes l: "lst l1 ns F' h" and l2: "lst l2 ms F F'"
    and N: "\<And>l1 l2 h'. lst l1 (ns @ ms) F h' \<Longrightarrow> lst l2 [] F F \<Longrightarrow> N l2 (l1, h')"
  shows "wp (append_list l2) N U (l1, h)"
proof (cases ns rule: rev_cases)
  case Nil
  have "h = F'" using lstD(8) [OF l] Nil by (auto simp: fun_eq_iff)
  moreover have "lst l1 [] F F" using l Nil by (simp add: lst_def)
  ultimately show ?thesis using N [of l2 h l1] l2 lstD(5) [OF l] Nil
    by (simp add: append_list_def wp_simps)
next
  case (snoc ns' n)
  obtain p x where n: "n = (p, x)" by fastforce
  note ns = snoc [unfolded n]
  note D = lstD [OF l] and E = lstD [OF l2]
  have dis: "addrs ns \<inter> addrs ms = {}" using D(7) chain_dom [OF E(1)] by fastforce
  have p: "p \<notin> addrs ns'" "p \<notin> addrs ms" using D(2) dis by (auto simp: ns addrs_def)
  show ?thesis
  proof (cases ms)
    case Nil
    then show ?thesis using N [of l1 h l2] l l2 E(4,8) D(5)
      by (simp add: append_list_def wp_simps ns ext [of F' F] lst_def)
  next
    case (Cons m ms')
    obtain r y where m: "m = (r, y)" by fastforce
    note ms = Cons [unfolded m]
    obtain np where np: "h p = Some np" using D(1) by (auto simp: ns chain_append)
    let ?h1 = "h(p \<mapsto> np\<lparr>nd_next := Some r\<rparr>)"
    have c1: "chain ?h1 None ns (Some r)"
      using relink_final [OF D(1) [unfolded ns] p(1), of "Some r"] np by (simp add: ns)
    have "chain h None ms None" using E(1) dis D(8) by (subst chain_cong [of ms h F']) (auto simp: disjoint_iff)
    then have m1: "chain ?h1 None ms None" using p by simp
    obtain nr where nr: "?h1 r = Some nr" using m1 by (auto simp: ms)
    let ?h2 = "?h1(r \<mapsto> nr\<lparr>nd_prev := Some p\<rparr>)"
    have r: "r \<notin> addrs ms'" "r \<notin> addrs ns" using E(2) dis by (auto simp: ms addrs_def)
    have c2: "chain ?h2 None ns (Some r)" "chain ?h2 (Some p) ms None"
      using c1 r relink_first [OF m1 [unfolded ms] r(1), of "Some p"] nr by (simp_all add: ms)
    let ?l = "l1\<lparr>ll_tail := ll_tail l2, ll_len := ll_len l1 + ll_len l2\<rparr>"
    have "lst ?l (ns @ ms) F ?h2"
    proof (rule lstI)
      have "first ms None = Some r" "final None ns = Some p" by (simp_all add: ms ns)
      then show "chain ?h2 None (ns @ ms) None" unfolding chain_append using c2 by simp
      show "distinct (map fst (ns @ ms))" using D(2) E(2) dis by (simp only: distinct_append)
      show "ll_head ?l = first (ns @ ms) None" using D(4) first_nonempty [of ns None "first ms None"]
        by (simp add: ns)
      show "ll_tail ?l = final None (ns @ ms)" using E(5) final_nonempty [of ms None "final None ns"]
        by (simp add: ms)
      fix q assume "q \<in> addrs (ns @ ms)"
      then show "F q = None" using E(7,8) [of q] D(7) [of q] by (cases "q \<in> addrs ms") auto
    next
      fix q assume "q \<notin> addrs (ns @ ms)"
      then show "?h2 q = F q" using E(8) [of q] D(8) [of q] by (auto simp: ns ms)
    qed (use D E in auto)
    then have "N ll_new (?l, ?h2)" by (rule N) (rule lst_new)
    moreover have "h r = Some nr" using nr r(2) by (simp add: ns split: if_splits)
    ultimately show ?thesis using D(5) E(4) np nr r
      by (simp add: append_list_def wp_simps ns ms ll_new_def)
  qed
qed

section \<open>Public operations\<close>

text \<open>What the list relies on in an allocator: the block it hands out is new, not null, and within
  the address space.\<close>

definition fresh_boxes :: "'a box_alloc \<Rightarrow> bool" where
  "fresh_boxes al \<longleftrightarrow> (\<forall>h p. al h = Some p \<longrightarrow> h p = None \<and> 0 < p \<and> p \<le> usize_max)"

lemma lst_alloc:
  assumes "lst l ns F h" "h p = None"
  shows "lst l ns (F(p \<mapsto> n)) (h(p \<mapsto> n))" "F p = None"
proof -
  have p: "p \<notin> addrs ns" using chain_dom [OF lstD(1) [OF assms(1)]] assms(2) by auto
  then show "F p = None" using lstD(8) [OF assms(1)] assms(2) by simp
  show "lst l ns (F(p \<mapsto> n)) (h(p \<mapsto> n))"
    using assms(1) p by (auto simp: lst_def)
qed

lemma lst_free:
  assumes "lst l ns (F(p \<mapsto> n)) h" "F p = None"
  shows "h p = Some n" "lst l ns F (h(p := None))"
proof -
  have p: "p \<notin> addrs ns" using lstD(7) [OF assms(1), of p] by auto
  then show "h p = Some n" using lstD(8) [OF assms(1)] by simp
  show "lst l ns F (h(p := None))" using assms p by (auto simp: lst_def)
qed

lemma lst_frame_None: "lst l ns F h \<Longrightarrow> p \<in> addrs ns \<Longrightarrow> F p = None"
  by (rule lstD(7))

lemma wpa_box_new:
  assumes al: "fresh_boxes al" and l: "lst l ns F h"
    and N: "\<And>p F' h'. lst l ns F' h' \<Longrightarrow> boxed p x F' \<Longrightarrow> F'(p := None) = F \<Longrightarrow> loose [(p, x)] F' \<Longrightarrow>
      F' |` (- {p}) = F \<Longrightarrow> N p (s, h')"
  shows "wpa (box_new al x) N U (s, h)"
proof (cases "al h")
  case None
  then show ?thesis by (simp add: wpa_def box_new_def)
next
  case (Some p)
  then have p: "h p = None" "0 < p" "p \<le> usize_max" using al by (simp_all add: fresh_boxes_def)
  have F: "lst l ns (F(p \<mapsto> node_new x)) (h(p \<mapsto> node_new x))" "F p = None"
    by (rule lst_alloc [OF l p(1)])+
  have "N p (s, h(p \<mapsto> node_new x))"
    using F p by (intro N [OF F(1)])
      (auto simp: boxed_def node_new_def loose_def restrict_map_def fun_eq_iff first_def intro!: exI [of _ None])
  then show ?thesis by (simp add: wpa_def wp_box_new Some)
qed

lemma wpa_push_front:
  assumes "fresh_boxes al" "lst l ns F h"
    and "\<And>l' h' p. lst l' ((p, x) # ns) F h' \<Longrightarrow> N () (l', h')"
  shows "wpa (ll_push_front al x) N U (l, h)"
  unfolding ll_push_front_def
  by (intro wpa_bind wpa_box_new [OF assms(1,2)] wpaI, rule wp_push_front_node) (auto intro: assms(3))

lemma wpa_push_back:
  assumes "fresh_boxes al" "lst l ns F h"
    and "\<And>l' h' p. lst l' (ns @ [(p, x)]) F h' \<Longrightarrow> N () (l', h')"
  shows "wpa (ll_push_back al x) N U (l, h)"
  unfolding ll_push_back_def
  by (intro wpa_bind wpa_box_new [OF assms(1,2)] wpaI, rule wp_push_back_node) (auto intro: assms(3))

lemma wp_pop_front:
  assumes "lst l ns F h" "ns = [] \<Longrightarrow> N None (l, h)"
    and "\<And>p x ms l' h'. ns = (p, x) # ms \<Longrightarrow> lst l' ms F h' \<Longrightarrow> N (Some x) (l', h')"
  shows "wp ll_pop_front N U (l, h)"
  unfolding ll_pop_front_def wp_bind
proof (rule wp_pop_front_node [OF assms(1)])
  assume "ns = []"
  then show "wp (case None of None \<Rightarrow> ret None | Some p \<Rightarrow> bind (into_element p) (\<lambda>x. ret (Some x))) N U (l, h)"
    using assms(2) by (simp add: wp_simps)
next
  fix p x ms nd l' h'
  assume ns: "ns = (p, x) # ms" "nd_elem nd = x" and l: "lst l' ms (F(p \<mapsto> nd)) h'"
  have "F p = None" using lst_frame_None [OF assms(1)] ns(1) by simp
  from lst_free [OF l this] assms(3) [OF ns(1)] ns(2)
  show "wp (case Some p of None \<Rightarrow> ret None | Some p \<Rightarrow> bind (into_element p) (\<lambda>x. ret (Some x))) N U (l', h')"
    by (simp add: wp_simps)
qed

lemma wp_pop_back:
  assumes "lst l ns F h" "ns = [] \<Longrightarrow> N None (l, h)"
    and "\<And>p x ms l' h'. ns = ms @ [(p, x)] \<Longrightarrow> lst l' ms F h' \<Longrightarrow> N (Some x) (l', h')"
  shows "wp ll_pop_back N U (l, h)"
  unfolding ll_pop_back_def wp_bind
proof (rule wp_pop_back_node [OF assms(1)])
  assume "ns = []"
  then show "wp (case None of None \<Rightarrow> ret None | Some p \<Rightarrow> bind (into_element p) (\<lambda>x. ret (Some x))) N U (l, h)"
    using assms(2) by (simp add: wp_simps)
next
  fix p x ms nd l' h'
  assume ns: "ns = ms @ [(p, x)]" "nd_elem nd = x" and l: "lst l' ms (F(p \<mapsto> nd)) h'"
  have "F p = None" using lst_frame_None [OF assms(1)] ns(1) by simp
  from lst_free [OF l this] assms(3) [OF ns(1)] ns(2)
  show "wp (case Some p of None \<Rightarrow> ret None | Some p \<Rightarrow> bind (into_element p) (\<lambda>x. ret (Some x))) N U (l', h')"
    by (simp add: wp_simps)
qed

lemma chain_deref:
  assumes "chain h a ns b" "(p, x) \<in> set ns"
  obtains n where "h p = Some n" "nd_elem n = x"
proof -
  obtain ks ms where "ns = ks @ (p, x) # ms" using assms(2) split_list by metis
  then show thesis using chain_node [of h a ks p x ms b] assms(1) that by simp
qed

lemma wp_front:
  assumes "lst l ns F h" "N (if ns = [] then None else Some (snd (hd ns))) (l, h)"
  shows "wp ll_front N U (l, h)"
  using assms lstD(1,4) [OF assms(1)] by (cases ns) (auto simp: ll_front_def wp_simps)

lemma wp_back:
  assumes "lst l ns F h" "N (if ns = [] then None else Some (snd (last ns))) (l, h)"
  shows "wp ll_back N U (l, h)"
  using assms lstD(1,5) [OF assms(1)]
  by (cases ns rule: rev_cases) (auto simp: ll_back_def wp_simps chain_append)

lemma wpa_extend:
  assumes "fresh_boxes al" "lst l ns F h"
    and "\<And>l' h' ms. map snd ms = xs \<Longrightarrow> lst l' (ns @ ms) F h' \<Longrightarrow> N () (l', h')"
  shows "wpa (ll_extend al xs) N U (l, h)"
  using assms(2,3)
proof (induction xs arbitrary: l ns h)
  case Nil
  then show ?case using Nil(2) [of "[]" l h] by (simp add: wp_simps)
next
  case (Cons x xs)
  have "wpa (ll_extend al xs) N U (l', h')" if "lst l' (ns @ [(p, x)]) F h'" for l' h' p
    by (rule Cons.IH [OF that]) (use Cons.prems(2) [of "(p, x) # _"] in auto)
  then show ?case by (auto intro!: wpa_bind wpa_push_back [OF assms(1) Cons.prems(1)])
qed

section \<open>Destructors\<close>

text \<open>The destructors of \<open>xs\<close> in order, up to the first that panics: whether all have run, the
  state of the program after them, and the elements not reached.\<close>

fun drop_seq :: "('c, 'a) glue \<Rightarrow> 'c \<Rightarrow> 'a list \<Rightarrow> bool \<times> 'c \<times> 'a list" where
  "drop_seq d c [] = (True, c, [])"
| "drop_seq d c (x # xs) = (case d c x of (ok, c) \<Rightarrow>
     if ok then drop_seq d c xs else (False, c, xs))"

lemma wp_with_glue [wp_simps]:
  "wp (with_glue m) N U (c, s) \<longleftrightarrow> wp m (\<lambda>x s. N x (c, s)) (\<lambda>s. U (c, s)) s"
  by (simp add: with_glue_def wp_simps)

lemma wp_box_drop:
  assumes "h p = Some n"
  shows "wp (box_drop d p) N U (c, s, h) \<longleftrightarrow>
    (case d c (nd_elem n) of (ok, c) \<Rightarrow>
       if ok then N () (c, s, h(p := None)) else U (c, s, h(p := None)))"
  using assms
  by (auto simp: box_drop_def wp_simps box_free_def writes_def with_glue_def zoom_def split: prod.splits)

lemma wp_drop_loop:
  assumes "lst l ns F h" "length ns < fuel" "drop_seq d c (map snd ns) = (ok, c', ys)"
    and "\<And>l'. ok \<Longrightarrow> lst l' [] F F \<Longrightarrow> N () (c', l', F)"
    and "\<And>l' ms h'. \<not> ok \<Longrightarrow> map snd ms = ys \<Longrightarrow> length ms < length ns \<Longrightarrow> lst l' ms F h' \<Longrightarrow> U (c', l', h')"
  shows "wp (drop_loop fuel d) N U (c, l, h)"
  using assms
proof (induction fuel arbitrary: c l ns h)
  case 0
  then show ?case by simp
next
  case (Suc fuel)
  let ?step = "\<lambda>r. case r of None \<Rightarrow> ret () | Some p \<Rightarrow> bind (box_drop d p) (\<lambda>_. drop_loop fuel d)"
  have "wp pop_front_node (\<lambda>r s. wp (?step r) N U (c, s)) (\<lambda>s. U (c, s)) (l, h)"
  proof (rule wp_pop_front_node [OF Suc.prems(1)])
    assume ns: "ns = []"
    then have "h = F" using lstD(8) [OF Suc.prems(1)] by (auto simp: fun_eq_iff)
    then show "wp (?step None) N U (c, l, h)"
      using Suc.prems(1,3) Suc.prems(4) [of l] by (simp add: wp_simps ns)
  next
    fix p x ms nd l' h'
    assume ns: "ns = (p, x) # ms" "nd_elem nd = x" and l: "lst l' ms (F(p \<mapsto> nd)) h'"
    have "F p = None" using lst_frame_None [OF Suc.prems(1)] ns(1) by simp
    note h' = lst_free [OF l this]
    obtain o1 c1 where d: "d c x = (o1, c1)" by fastforce
    have "wp (drop_loop fuel d) N U (c1, l', h'(p := None))" if o1
    proof (rule Suc.IH [OF h'(2)])
      show "drop_seq d c1 (map snd ms) = (ok, c', ys)" using Suc.prems(3) d that ns by simp
    qed (use Suc.prems(2,4,5) ns in auto)
    moreover have "U (c1, l', h'(p := None))" if "\<not> o1"
    proof -
      have "\<not> ok" "c' = c1" "ys = map snd ms" using Suc.prems(3) d that ns by simp_all
      have "U (c', l', h'(p := None))"
        by (rule Suc.prems(5) [OF \<open>\<not> ok\<close> _ _ h'(2)]) (simp_all add: ns \<open>ys = map snd ms\<close>)
      then show ?thesis using \<open>c' = c1\<close> by (simp only:)
    qed
    ultimately show "wp (?step (Some p)) N U (c, l', h')"
      by (simp add: wp_simps wp_box_drop [where h = h' and p = p, OF h'(1)] ns(2) d)
  qed
  then show ?case by (simp add: wp_simps)
qed

lemma wp_value:
  assumes "m s = Inr (Some x, t)"
  shows "wp m N U s \<longleftrightarrow> N x t"
  using assms by (simp add: wp_def)

text \<open>Dropping a list frees every node, whichever destructor panics; a second panic aborts.\<close>

lemma ll_drop_result:
  assumes l: "lst l ns F h"
  shows "\<exists>l'. lst l' [] F F \<and>
    ll_drop d (c, l, h) =
      (case drop_seq d c (map snd ns) of (ok, c', ys) \<Rightarrow>
         if ok then Inr (Some (), (c', l', F))
         else (case drop_seq d c' ys of (ok', c'', _) \<Rightarrow>
                 if ok' then Inr (None, (c'', l', F)) else Inl Abort))"
proof -
  obtain ok c' ys where d1: "drop_seq d c (map snd ns) = (ok, c', ys)" by (metis prod_cases3)
  obtain ok' c'' zs where d2: "drop_seq d c' ys = (ok', c'', zs)" by (metis prod_cases3)
  define k where "k = ll_len l + 1"
  have n: "length ns < k" using lstD(6) [OF l] by (simp add: k_def)
  have drop: "ll_drop d (c, l, h) = on_unwind (drop_loop k d) (drop_guard k d) (c, l, h)"
    by (simp add: ll_drop_def bind_def with_glue_def zoom_def self_def reads_def k_def)
  show ?thesis
  proof (cases ok)
    case True
    have "wp (drop_loop k d) (\<lambda>_ s. \<exists>l'. s = (c', l', F) \<and> lst l' [] F F) (\<lambda>_. False) (c, l, h)"
      by (rule wp_drop_loop [OF l n d1]) (use True in auto)
    then obtain l' where "drop_loop k d (c, l, h) = Inr (Some (), (c', l', F))" "lst l' [] F F"
      by (auto elim!: wp_Inr)
    then show ?thesis using True by (auto simp: drop on_unwind_def d1)
  next
    case False
    have "wp (drop_loop k d) (\<lambda>_ _. False)
        (\<lambda>s. \<exists>l' ms h'. s = (c', l', h') \<and> lst l' ms F h' \<and> map snd ms = ys \<and> length ms < length ns)
        (c, l, h)"
      by (rule wp_drop_loop [OF l n d1]) (use False in auto)
    then obtain l1 ms h1 where s1: "drop_loop k d (c, l, h) = Inr (None, (c', l1, h1))"
      and l1: "lst l1 ms F h1" "map snd ms = ys" "length ms < length ns"
      by (auto elim!: wp_Inr)
    have n1: "length ms < k" using n l1(3) by simp
    have d2': "drop_seq d c' (map snd ms) = (ok', c'', zs)" using d2 l1(2) by simp
    have "wp (drop_loop k d) (\<lambda>_ s. ok' \<and> (\<exists>l'. s = (c'', l', F) \<and> lst l' [] F F)) (\<lambda>_. \<not> ok') (c', l1, h1)"
      by (rule wp_drop_loop [OF l1(1) n1 d2']) auto
    then show ?thesis using lst_new [of F] False
      by (auto simp: drop on_unwind_def d1 d2 s1 drop_guard_def elim!: wp_Inr)
  qed
qed

section \<open>Iterators\<close>

text \<open>The iterator over the chain \<open>ms\<close> between the nodes \<open>a\<close> and \<open>b\<close>.\<close>

definition iter_of :: "usize option \<Rightarrow> 'a nodes \<Rightarrow> usize option \<Rightarrow> list_iter" where
  "iter_of a ms b = \<lparr>it_head = first ms b, it_tail = final a ms, it_len = length ms\<rparr>"

lemma lst_iter:
  "lst l ns F h \<Longrightarrow> ll_iter l = iter_of None ns None"
  "lst l ns F h \<Longrightarrow> ll_iter_mut l = iter_of None ns None"
  by (simp_all add: ll_iter_def ll_iter_mut_def iter_of_def lst_def)

lemma wp_iter_next:
  assumes "chain h a ms b"
    and "ms = [] \<Longrightarrow> N None (iter_of a [] b, h)"
      "\<And>p x ms'. ms = (p, x) # ms' \<Longrightarrow> N (Some x) (iter_of (Some p) ms' b, h)"
  shows "wp iter_next N U (iter_of a ms b, h)"
proof (cases ms)
  case Nil
  then show ?thesis using assms(2) by (simp add: iter_next_def wp_simps iter_of_def)
next
  case (Cons n ms')
  obtain p x where n: "n = (p, x)" by fastforce
  then show ?thesis using assms(1) assms(3) [of p x ms']
    by (simp add: iter_next_def wp_simps iter_of_def Cons)
qed

lemma wp_iter_next_back:
  assumes "chain h a ms b"
    and "ms = [] \<Longrightarrow> N None (iter_of a [] b, h)"
      "\<And>p x ms'. ms = ms' @ [(p, x)] \<Longrightarrow> N (Some x) (iter_of a ms' (Some p), h)"
  shows "wp iter_next_back N U (iter_of a ms b, h)"
proof (cases ms rule: rev_cases)
  case Nil
  then show ?thesis using assms(2) by (simp add: iter_next_back_def wp_simps iter_of_def)
next
  case (snoc ms' n)
  obtain p x where n: "n = (p, x)" by fastforce
  then show ?thesis using assms(1) assms(3) [of ms' p x]
    by (simp add: iter_next_back_def wp_simps iter_of_def snoc chain_append)
qed

lemma wp_iter_mut_next:
  assumes "chain h a ms b"
    and "ms = [] \<Longrightarrow> N None (iter_of a [] b, h)"
      "\<And>p x ms'. ms = (p, x) # ms' \<Longrightarrow> N (Some p) (iter_of (Some p) ms' b, h)"
  shows "wp iter_mut_next N U (iter_of a ms b, h)"
proof (cases ms)
  case Nil
  then show ?thesis using assms(2) by (simp add: iter_mut_next_def wp_simps iter_of_def)
next
  case (Cons n ms')
  obtain p x where n: "n = (p, x)" by fastforce
  then show ?thesis using assms(1) assms(3) [of p x ms']
    by (simp add: iter_mut_next_def wp_simps iter_of_def Cons)
qed

lemma wp_iter_mut_next_back:
  assumes "chain h a ms b"
    and "ms = [] \<Longrightarrow> N None (iter_of a [] b, h)"
      "\<And>p x ms'. ms = ms' @ [(p, x)] \<Longrightarrow> N (Some p) (iter_of a ms' (Some p), h)"
  shows "wp iter_mut_next_back N U (iter_of a ms b, h)"
proof (cases ms rule: rev_cases)
  case Nil
  then show ?thesis using assms(2) by (simp add: iter_mut_next_back_def wp_simps iter_of_def)
next
  case (snoc ms' n)
  obtain p x where n: "n = (p, x)" by fastforce
  then show ?thesis using assms(1) assms(3) [of ms' p x]
    by (simp add: iter_mut_next_back_def wp_simps iter_of_def snoc chain_append)
qed

lemma wp_with_iter [wp_simps]:
  "wp (with_iter it m) N U (s, h) \<longleftrightarrow>
     wp m (\<lambda>x t. N (x, fst t) (s, snd t)) (\<lambda>t. U (s, snd t)) (it, h)"
  by (auto simp: wp_def with_iter_def and_then_def split: sum.splits option.splits)

lemma wp_do_times_next:
  assumes "chain h a (ns @ ms) b" "N () (iter_of (final a ns) ms b, h)"
  shows "wp (do_times (length ns) iter_mut_next) N U (iter_of a (ns @ ms) b, h)"
  using assms
proof (induction ns arbitrary: a)
  case (Cons n ns)
  then show ?case by (cases n) (auto simp: wp_simps intro!: wp_iter_mut_next)
qed (simp add: wp_simps)

lemma wp_do_times_next_back:
  assumes "chain h a (ns @ ms) b" "N () (iter_of a ns (first ms b), h)"
  shows "wp (do_times (length ms) iter_mut_next_back) N U (iter_of a (ns @ ms) b, h)"
  using assms
proof (induction ms arbitrary: b rule: rev_induct)
  case (snoc n ms)
  have "wp (do_times (length ms) iter_mut_next_back) N U (iter_of a (ns @ ms) (Some (fst n)), h)"
    using snoc.prems by (intro snoc.IH) (cases n; simp add: chain_append)+
  then show ?case using snoc.prems(1)
    by (auto simp: wp_simps intro!: wp_iter_mut_next_back)
qed (simp add: wp_simps)

lemma wp_iter_any:
  assumes "chain h a ms b" "length ms < fuel" "\<And>it. N (list_ex f (map snd ms)) (it, h)"
  shows "wp (iter_any fuel f) N U (iter_of a ms b, h)"
  using assms
proof (induction fuel arbitrary: a ms)
  case (Suc fuel)
  have "wp (iter_any fuel f) N U (iter_of (Some p) ms' b, h)" if "ms = (p, x) # ms'" "\<not> f x" for p x ms'
    using Suc.prems that by (intro Suc.IH) simp_all
  then show ?case using Suc.prems by (auto simp: wp_simps intro!: wp_iter_next)
qed simp

lemma wp_collect_next:
  assumes "chain h a ms b" "length ms < fuel" "\<And>it. N (map snd ms) (it, h)"
  shows "wp (iter_collect fuel iter_next) N U (iter_of a ms b, h)"
  using assms
proof (induction fuel arbitrary: a ms N)
  case (Suc fuel)
  have "wp (iter_collect fuel iter_next) (\<lambda>xs. N (x # xs)) U (iter_of (Some p) ms' b, h)"
    if "ms = (p, x) # ms'" for p x ms'
    using Suc.prems that by (intro Suc.IH) simp_all
  then show ?case using Suc.prems by (auto simp: wp_simps intro!: wp_iter_next)
qed simp

lemma wp_collect_next_back:
  assumes "chain h a ms b" "length ms < fuel" "\<And>it. N (rev (map snd ms)) (it, h)"
  shows "wp (iter_collect fuel iter_next_back) N U (iter_of a ms b, h)"
  using assms
proof (induction fuel arbitrary: b ms N)
  case (Suc fuel)
  have "wp (iter_collect fuel iter_next_back) (\<lambda>xs. N (x # xs)) U (iter_of a ms' (Some p), h)"
    if "ms = ms' @ [(p, x)]" for p x ms'
    using Suc.prems that by (intro Suc.IH) (simp_all add: chain_append)
  then show ?case using Suc.prems by (auto simp: wp_simps intro!: wp_iter_next_back)
qed simp

lemma wp_contains:
  assumes "lst l ns F h" "N (x \<in> set (map snd ns)) (l, h)"
  shows "wp (ll_contains x) N U (l, h)"
  using assms lstD(1,6) [OF assms(1)]
  by (auto simp: ll_contains_def wp_simps lst_iter(1) [OF assms(1)] list_ex_iff
      simp del: iter_any.simps intro!: wp_iter_any)

lemma wp_to_list:
  assumes "lst l ns F h" "N (map snd ns) (l, h)"
  shows "wp ll_to_list N U (l, h)"
  using assms lstD(1,6) [OF assms(1)]
  by (auto simp: ll_to_list_def wp_simps lst_iter(1) [OF assms(1)]
      simp del: iter_collect.simps intro!: wp_collect_next)

lemma wp_to_list_rev:
  assumes "lst l ns F h" "N (rev (map snd ns)) (l, h)"
  shows "wp ll_to_list_rev N U (l, h)"
  using assms lstD(1,6) [OF assms(1)]
  by (auto simp: ll_to_list_rev_def wp_simps lst_iter(1) [OF assms(1)]
      simp del: iter_collect.simps intro!: wp_collect_next_back)

end
