(* ===== verification/Linked_List_Cursor_Correct.thy ===== *)
theory Linked_List_Cursor_Correct
  imports Linked_List_Correct
begin

text \<open>
  Correctness of \<open>LinkedList\<close>, part two: splitting, cursors, the operations written
  with them, and cloning. A cursor is described by the nodes before it and the nodes from it on
  (\<open>cur\<close>).
\<close>

lemma wp_split_off:
  assumes l: "lst l (ns @ ms) F h"
    and N: "\<And>l1 l2 h' F'. lst l1 ns F' h' \<Longrightarrow> lst l2 ms F F' \<Longrightarrow> N l2 (l1, h')"
  shows "wp (ll_split_off (length ns)) N U (l, h)"
proof -
  note D = lstD [OF l]
  consider "ns = []" | "ns \<noteq> []" "ms = []" | n ns' m ms' where "ns = ns' @ [n]" "ms = m # ms'"
    by (cases ns rule: rev_cases; cases ms) auto
  then show ?thesis
  proof cases
    case 1
    then show ?thesis using N [of ll_new h h l] l
      by (simp add: ll_split_off_def wp_simps lst_new)
  next
    case 2
    then show ?thesis using N [of l F h ll_new] l D(6)
      by (simp add: ll_split_off_def wp_simps lst_new)
  next
    case 3
    let ?q = "final None ns"
    have ml: "ll_iter_mut l = iter_of None (ns @ ms) None" by (rule lst_iter [OF l])
    have split: "wp (split_off_after_node ?q (length ns)) N U (l, h)"
      by (rule wp_split_off_after_node [OF l refl refl]) (use N 3 in auto)
    have front: "wp (do_times (length ns - 1) iter_mut_next)
        (\<lambda>_ t. wp (split_off_after_node (it_head (fst t)) (length ns)) N U (l, snd t)) (\<lambda>t. U (l, snd t))
        (ll_iter_mut l, h)"
      using wp_do_times_next [of h None ns' "n # ms" None] D(1) split
      by (simp add: ml 3 iter_of_def)
    have bwd: "wp (do_times (length ms) iter_mut_next_back)
        (\<lambda>_ t. wp (split_off_after_node (it_tail (fst t)) (length ns)) N U (l, snd t)) (\<lambda>t. U (l, snd t))
        (ll_iter_mut l, h)"
      using D(1) split by (simp only: ml) (rule wp_do_times_next_back, simp_all add: iter_of_def)
    have len: "ll_len l - 1 - (length ns - 1) = length ms" "length ns \<le> ll_len l" "length ns \<noteq> 0"
      "length ns \<noteq> ll_len l"
      using D(6) 3 by simp_all
    show ?thesis unfolding ll_split_off_def wp_bind wp_self Let_def len(1)
      using len(2-4) front bwd by (simp add: wp_simps)
  qed
qed

lemma split_off_out_of_range:
  assumes "lst l ns F h" "at > length ns"
  shows "ll_split_off at (l, h) = Inl (Panic ''Cannot split off at a nonexistent index'')"
  using assms lstD(6) [OF assms(1)]
  by (simp add: ll_split_off_def bind_def self_def reads_def failing_def)

section \<open>Cursors\<close>

text \<open>The cursor stands between the nodes \<open>ns\<close> and the nodes \<open>ms\<close>, at the first of these, or at the
  ghost when there is none.\<close>

definition cur :: "cursor \<Rightarrow> 'a nodes \<Rightarrow> 'a nodes \<Rightarrow> 'a store \<Rightarrow> 'a store \<Rightarrow> bool" where
  "cur c ns ms F h \<longleftrightarrow>
     lst (cu_list c) (ns @ ms) F h \<and> cu_index c = length ns \<and> cu_current c = first ms None"

lemma curD:
  assumes "cur c ns ms F h"
  shows "lst (cu_list c) (ns @ ms) F h" "cu_index c = length ns" "cu_current c = first ms None"
  using assms by (simp_all add: cur_def)

lemma cur_start: "lst l ns F h \<Longrightarrow> cur (cursor_front_mut l) [] ns F h"
  using lstD(4) [of l ns F h] by (simp add: cur_def cursor_front_mut_def)

lemma cur_end:
  assumes "lst l ns F h"
  shows "ns = [] \<Longrightarrow> cur (cursor_back_mut l) [] [] F h"
    "ns = ms @ [n] \<Longrightarrow> cur (cursor_back_mut l) ms [n] F h"
  using assms lstD(5,6) [OF assms] by (simp_all add: cur_def cursor_back_mut_def)

lemma wp_cursor_fields [wp_simps]:
  "wp (set_index i) N U (c, h) \<longleftrightarrow> N () (c\<lparr>cu_index := i\<rparr>, h)"
  "wp (set_current q) N U (c, h) \<longleftrightarrow> N () (c\<lparr>cu_current := q\<rparr>, h)"
  by (simp_all add: set_index_def set_current_def wp_simps)

lemma wp_in_list [wp_simps]:
  "wp (in_list m) N U (c, h) \<longleftrightarrow>
     wp m (\<lambda>x t. N x (c\<lparr>cu_list := fst t\<rparr>, snd t)) (\<lambda>t. U (c\<lparr>cu_list := fst t\<rparr>, snd t)) (cu_list c, h)"
  by (simp add: in_list_def wp_simps case_prod_beta)

lemma wpa_in_list:
  "wpa m (\<lambda>x t. N x (c\<lparr>cu_list := fst t\<rparr>, snd t)) (\<lambda>t. U (c\<lparr>cu_list := fst t\<rparr>, snd t)) (cu_list c, h) \<Longrightarrow>
     wpa (in_list m) N U (c, h)"
  unfolding in_list_def by (rule wpa_zoom) (simp add: case_prod_beta)

lemma cur_chain:
  assumes "cur c ns ms F h"
  shows "chain h None ns (first ms None)" "chain h (final None ns) ms None"
    "ll_head (cu_list c) = first (ns @ ms) None" "ll_tail (cu_list c) = final None (ns @ ms)"
    "ll_len (cu_list c) = length ns + length ms"
  using lstD [OF curD(1) [OF assms]] by (simp_all add: chain_append)

lemma wp_move_next:
  assumes c: "cur c ns ms F h"
    and N: "\<And>c'. ms = [] \<Longrightarrow> cur c' [] ns F h \<Longrightarrow> N () (c', h)"
      "\<And>c' m ms'. ms = m # ms' \<Longrightarrow> cur c' (ns @ [m]) ms' F h \<Longrightarrow> N () (c', h)"
  shows "wp cur_move_next N U (c, h)"
proof (cases ms)
  case Nil
  let ?c = "c\<lparr>cu_current := ll_head (cu_list c), cu_index := 0\<rparr>"
  have "cur ?c [] ns F h" using curD [OF c] cur_chain(3) [OF c] Nil by (simp add: cur_def)
  then show ?thesis using N(1) [OF Nil] curD(3) [OF c] Nil by (simp add: cur_move_next_def wp_simps)
next
  case (Cons m ms')
  obtain p x where m: "m = (p, x)" by fastforce
  let ?c = "c\<lparr>cu_current := first ms' None, cu_index := cu_index c + 1\<rparr>"
  have "cur ?c (ns @ [m]) ms' F h" using curD [OF c] Cons by (simp add: cur_def)
  then show ?thesis using N(2) [OF Cons] curD(3) [OF c] cur_chain(2) [OF c] Cons m
    by (simp add: cur_move_next_def wp_simps)
qed

lemma wp_move_prev:
  assumes c: "cur c ns ms F h"
    and N: "\<And>c'. ns = [] \<Longrightarrow> cur c' ms [] F h \<Longrightarrow> N () (c', h)"
      "\<And>c' n ns'. ns = ns' @ [n] \<Longrightarrow> cur c' ns' (n # ms) F h \<Longrightarrow> N () (c', h)"
  shows "wp cur_move_prev N U (c, h)"
proof (cases ns rule: rev_cases)
  case Nil
  let ?c = "c\<lparr>cu_current := None, cu_index := length ms\<rparr>"
  have "cur ?c ms [] F h" using curD [OF c] Nil by (simp add: cur_def)
  then have "N () (?c, h)" by (rule N(1) [OF Nil])
  then show ?thesis using curD [OF c] cur_chain [OF c] Nil
    by (cases ms) (auto simp: cur_move_prev_def wp_simps)
next
  case (snoc ns' n)
  let ?c = "c\<lparr>cu_current := Some (fst n), cu_index := length ns'\<rparr>"
  have "cur ?c ns' (n # ms) F h" using curD [OF c] snoc by (simp add: cur_def)
  then have "N () (?c, h)" by (rule N(2) [OF snoc])
  then show ?thesis using curD [OF c] cur_chain [OF c] snoc
    by (cases ms) (auto simp: cur_move_prev_def wp_simps)
qed

lemma wp_cur_current:
  assumes "cur c ns ms F h" "N (if ms = [] then None else Some (snd (hd ms))) (c, h)"
  shows "wp cur_current N U (c, h)"
  using assms(2) curD(3) [OF assms(1)] cur_chain(2) [OF assms(1)]
  by (cases ms) (auto simp: cur_current_def wp_simps)

lemma cur_index_eq:
  "cur c ns ms F h \<Longrightarrow> cur_index c = (if ms = [] then None else Some (length ns))"
  using curD(2,3) [of c ns ms F h] by (cases ms) (auto simp: cur_index_def)

text \<open>The nodes around the cursor: the ghost is followed by the head and preceded by the tail.\<close>

lemma wp_node_next:
  assumes "cur c ns ms F h"
    "N (case ms of [] \<Rightarrow> first ns None | m # ms' \<Rightarrow> first ms' None) (c, h)"
  shows "wp node_next N U (c, h)"
  using assms(2) curD(3) [OF assms(1)] cur_chain(2,3) [OF assms(1)]
  by (cases ms) (auto simp: node_next_def wp_simps)

lemma wp_node_prev:
  assumes "cur c ns ms F h" "N (final None ns) (c, h)"
  shows "wp node_prev N U (c, h)"
  using assms(2) curD(3) [OF assms(1)] cur_chain(2,4) [OF assms(1)]
  by (cases ms) (auto simp: node_prev_def wp_simps)

lemma wp_peek_next:
  assumes "cur c ns ms F h"
    "N (case (if ms = [] then ns else tl ms) of [] \<Rightarrow> None | n # _ \<Rightarrow> Some (snd n)) (c, h)"
  shows "wp cur_peek_next N U (c, h)"
  unfolding cur_peek_next_def wp_bind
  using assms(2) cur_chain(1,2) [OF assms(1)]
  by (intro wp_node_next [OF assms(1)]) (cases ms; cases ns; cases "tl ms"; auto simp: wp_simps)

lemma wp_peek_prev:
  assumes "cur c ns ms F h" "N (if ns = [] then None else Some (snd (last ns))) (c, h)"
  shows "wp cur_peek_prev N U (c, h)"
  unfolding cur_peek_prev_def wp_bind
  using assms(2) cur_chain(1) [OF assms(1)]
  by (intro wp_node_prev [OF assms(1)]) (cases ns rule: rev_cases; auto simp: wp_simps chain_append)

lemma lst_loose:
  assumes "lst l ks F F'"
  shows "loose ks F'" "F' |` (- addrs ks) = F"
proof -
  show "loose ks F'" using assms by (auto simp: lst_def loose_def)
  show "F' |` (- addrs ks) = F"
    using lstD(7,8) [OF assms] by (auto simp: restrict_map_def fun_eq_iff)
qed

lemma wp_splice_after_core:
  assumes c: "cur c ns ms F h" and k: "loose ks F" "ks \<noteq> []"
    and eqs: "s = fst (hd ks)" "t = fst (last ks)" "n = length ks"
    and N: "\<And>c' h'. ms = [] \<Longrightarrow> cur c' (ks @ ns) [] (F |` (- addrs ks)) h' \<Longrightarrow> N () (c', h')"
      "\<And>c' h' m ms'. ms = m # ms' \<Longrightarrow> cur c' ns (m # ks @ ms') (F |` (- addrs ks)) h' \<Longrightarrow> N () (c', h')"
  shows "wp (bind node_next (\<lambda>nxt. bind self (\<lambda>c. block [
    in_list (splice_nodes (cu_current c) nxt s t n), ghost_index_to_len]))) N U (c, h)"
proof (cases ms)
  case Nil
  have l: "lst (cu_list c) ([] @ ns) F h" using curD(1) [OF c] Nil by simp
  have "wp (splice_nodes None (first ns None) s t n)
      (\<lambda>_ t. wp ghost_index_to_len N U (c\<lparr>cu_list := fst t\<rparr>, snd t))
      (\<lambda>t. U (c\<lparr>cu_list := fst t\<rparr>, snd t)) (cu_list c, h)"
  proof (rule wp_splice_nodes [OF l k _ _ eqs])
    fix l' h' assume l': "lst l' ([] @ ks @ ns) (F |` (- addrs ks)) h'"
    let ?c = "c\<lparr>cu_list := l', cu_index := ll_len l'\<rparr>"
    have "cur ?c (ks @ ns) [] (F |` (- addrs ks)) h'"
      using l' lstD(6) [OF l'] curD(3) [OF c] Nil by (simp add: cur_def)
    from N(1) [OF Nil this] show "wp ghost_index_to_len N U (c\<lparr>cu_list := fst (l', h')\<rparr>, snd (l', h'))"
      using curD(3) [OF c] Nil by (simp add: ghost_index_to_len_def wp_simps)
  qed simp_all
  then show ?thesis using curD(3) [OF c] Nil
    unfolding wp_bind by (intro wp_node_next [OF c]) (simp add: wp_simps)
next
  case (Cons m ms')
  have l: "lst (cu_list c) ((ns @ [m]) @ ms') F h" using curD(1) [OF c] Cons by simp
  have "wp (splice_nodes (Some (fst m)) (first ms' None) s t n)
      (\<lambda>_ t. wp ghost_index_to_len N U (c\<lparr>cu_list := fst t\<rparr>, snd t))
      (\<lambda>t. U (c\<lparr>cu_list := fst t\<rparr>, snd t)) (cu_list c, h)"
  proof (rule wp_splice_nodes [OF l k _ _ eqs])
    fix l' h' assume l': "lst l' ((ns @ [m]) @ ks @ ms') (F |` (- addrs ks)) h'"
    have "cur (c\<lparr>cu_list := l'\<rparr>) ns (m # ks @ ms') (F |` (- addrs ks)) h'"
      using l' curD(2,3) [OF c] Cons by (simp add: cur_def)
    from N(2) [OF Cons this] show "wp ghost_index_to_len N U (c\<lparr>cu_list := fst (l', h')\<rparr>, snd (l', h'))"
      using curD(3) [OF c] Cons by (simp add: ghost_index_to_len_def wp_simps)
  qed simp_all
  then show ?thesis using curD(3) [OF c] Cons
    unfolding wp_bind by (intro wp_node_next [OF c]) (simp add: wp_simps)
qed

lemma wp_splice_before_core:
  assumes c: "cur c ns ms F h" and k: "loose ks F" "ks \<noteq> []"
    and eqs: "s = fst (hd ks)" "t = fst (last ks)" "n = length ks"
    and N: "\<And>c' h'. cur c' (ns @ ks) ms (F |` (- addrs ks)) h' \<Longrightarrow> N () (c', h')"
  shows "wp (bind node_prev (\<lambda>prv. bind self (\<lambda>c. block [
    in_list (splice_nodes prv (cu_current c) s t n), set_index (cu_index c + n)]))) N U (c, h)"
proof -
  have l: "lst (cu_list c) (ns @ ms) F h" using curD(1) [OF c] by simp
  have "wp (splice_nodes (final None ns) (first ms None) s t n)
      (\<lambda>_ t. wp (set_index (cu_index c + n)) N U (c\<lparr>cu_list := fst t\<rparr>, snd t))
      (\<lambda>t. U (c\<lparr>cu_list := fst t\<rparr>, snd t)) (cu_list c, h)"
  proof (rule wp_splice_nodes [OF l k refl refl eqs])
    fix l' h' assume l': "lst l' (ns @ ks @ ms) (F |` (- addrs ks)) h'"
    have "cur (c\<lparr>cu_list := l', cu_index := cu_index c + n\<rparr>) (ns @ ks) ms (F |` (- addrs ks)) h'"
      using l' curD(2,3) [OF c] eqs(3) by (simp add: cur_def)
    from N [OF this]
    show "wp (set_index (cu_index c + n)) N U (c\<lparr>cu_list := fst (l', h')\<rparr>, snd (l', h'))"
      by (simp add: wp_simps)
  qed
  then show ?thesis using curD(3) [OF c]
    unfolding wp_bind by (intro wp_node_prev [OF c]) (simp add: wp_simps)
qed

lemma detach_lst:
  assumes "lst l ks F F'"
  shows "detach_all_nodes l =
    Inr (if ks = [] then None else Some (fst (hd ks), fst (last ks), length ks))"
  using lstD(4-6) [OF assms] by (cases ks) (auto simp: detach_all_nodes_def final_def)

lemma cur_frame_eq: "cur c ns ms F' h \<Longrightarrow> lst l [] F F' \<Longrightarrow> cur c ns ms F h"
  by (simp add: lst_def) (metis ext)

lemma wp_splice_after:
  assumes c: "cur c ns ms F' h" and l: "lst l ks F F'"
    and N: "\<And>c' h'. ms = [] \<Longrightarrow> cur c' (ks @ ns) [] F h' \<Longrightarrow> N () (c', h')"
      "\<And>c' h' m ms'. ms = m # ms' \<Longrightarrow> cur c' ns (m # ks @ ms') F h' \<Longrightarrow> N () (c', h')"
  shows "wp (cur_splice_after l) N U (c, h)"
proof (cases "ks = []")
  case True
  then have "cur c ns ms F h" using cur_frame_eq [OF c] l by simp
  then show ?thesis using detach_lst [OF l] True N
    by (cases ms) (auto simp: cur_splice_after_def wp_simps wp_reads)
next
  case False
  show ?thesis unfolding cur_splice_after_def wp_bind
    by (rule wp_readsI, rule detach_lst [OF l], simp only: False if_False option.case prod.case, rule wp_splice_after_core [OF c lst_loose(1) [OF l] False refl refl refl])
      (simp_all add: lst_loose(2) [OF l] N)
qed

lemma wp_splice_before:
  assumes c: "cur c ns ms F' h" and l: "lst l ks F F'"
    and N: "\<And>c' h'. cur c' (ns @ ks) ms F h' \<Longrightarrow> N () (c', h')"
  shows "wp (cur_splice_before l) N U (c, h)"
proof (cases "ks = []")
  case True
  then have "cur c ns ms F h" using cur_frame_eq [OF c] l by simp
  then show ?thesis using detach_lst [OF l] True N
    by (auto simp: cur_splice_before_def wp_simps wp_reads)
next
  case False
  show ?thesis unfolding cur_splice_before_def wp_bind
    by (rule wp_readsI, rule detach_lst [OF l], simp only: False if_False option.case prod.case, rule wp_splice_before_core [OF c lst_loose(1) [OF l] False refl refl refl])
      (simp_all add: lst_loose(2) [OF l] N)
qed

lemma cur_alloc:
  assumes "lst (cu_list c) (ns @ ms) F' h'" "cur c ns ms F h"
  shows "cur c ns ms F' h'"
  using assms by (simp add: cur_def)

lemma wpa_insert_after:
  assumes al: "fresh_boxes al" and c: "cur c ns ms F h"
    and N: "\<And>c' h' p. ms = [] \<Longrightarrow> cur c' ((p, x) # ns) [] F h' \<Longrightarrow> N () (c', h')"
      "\<And>c' h' m ms' p. ms = m # ms' \<Longrightarrow> cur c' ns (m # (p, x) # ms') F h' \<Longrightarrow> N () (c', h')"
  shows "wpa (cur_insert_after al x) N U (c, h)"
  unfolding cur_insert_after_def
proof (rule wpa_bind, rule wpa_box_new [OF al curD(1) [OF c]], rule wpaI)
  fix p F' h'
  assume l: "lst (cu_list c) (ns @ ms) F' h'" and k: "loose [(p, x)] F'" "F' |` (- {p}) = F"
  show "wp (bind node_next (\<lambda>nxt. bind self (\<lambda>c. block [
      in_list (splice_nodes (cu_current c) nxt p p 1), ghost_index_to_len]))) N U (c, h')"
    by (rule wp_splice_after_core [OF cur_alloc [OF l c] k(1)]) (auto simp: k(2) N)
qed

lemma wpa_insert_before:
  assumes al: "fresh_boxes al" and c: "cur c ns ms F h"
    and N: "\<And>c' h' p. cur c' (ns @ [(p, x)]) ms F h' \<Longrightarrow> N () (c', h')"
  shows "wpa (cur_insert_before al x) N U (c, h)"
  unfolding cur_insert_before_def
proof (rule wpa_bind, rule wpa_box_new [OF al curD(1) [OF c]], rule wpaI)
  fix p F' h'
  assume l: "lst (cu_list c) (ns @ ms) F' h'" and k: "loose [(p, x)] F'" "F' |` (- {p}) = F"
  show "wp (bind node_prev (\<lambda>prv. bind self (\<lambda>c. block [
      in_list (splice_nodes prv (cu_current c) p p 1), set_index (cu_index c + 1)]))) N U (c, h')"
    by (rule wp_splice_before_core [OF cur_alloc [OF l c] k(1)]) (auto simp: k(2) N)
qed

lemma wp_remove_current:
  assumes c: "cur c ns ms F h"
    and N: "ms = [] \<Longrightarrow> N None (c, h)"
      "\<And>c' h' p x ms'. ms = (p, x) # ms' \<Longrightarrow> cur c' ns ms' F h' \<Longrightarrow> N (Some x) (c', h')"
  shows "wp cur_remove_current N U (c, h)"
proof (cases ms)
  case Nil
  then show ?thesis using N(1) curD(3) [OF c] by (simp add: cur_remove_current_def wp_simps)
next
  case (Cons m ms')
  obtain p x where m: "m = (p, x)" by fastforce
  note ms = Cons [unfolded m]
  have l: "lst (cu_list c) (ns @ (p, x) # ms') F h" using curD(1) [OF c] by (simp add: ms)
  have hp: "h p = Some \<lparr>nd_next = first ms' None, nd_prev = final None ns, nd_elem = x\<rparr>"
    using chain_node [OF lstD(1) [OF l]] .
  let ?c = "c\<lparr>cu_current := first ms' None\<rparr>"
  have "wp (unlink_node p) (\<lambda>_ t. wp (bind (into_element p) (\<lambda>x. ret (Some x))) N U (?c\<lparr>cu_list := fst t\<rparr>, snd t))
      (\<lambda>t. U (?c\<lparr>cu_list := fst t\<rparr>, snd t)) (cu_list c, h)"
  proof (rule wp_unlink_node [OF l])
    fix l' h' nd assume e: "nd_elem nd = x" and l': "lst l' (ns @ ms') (F(p \<mapsto> nd)) h'"
    have "F p = None" using lst_frame_None [OF l] by simp
    note h' = lst_free [OF l' this]
    have "cur (?c\<lparr>cu_list := l'\<rparr>) ns ms' F (h'(p := None))"
      using h'(2) curD(2) [OF c] by (simp add: cur_def)
    from N(2) [OF ms this] show "wp (bind (into_element p) (\<lambda>x. ret (Some x))) N U
        (?c\<lparr>cu_list := fst (l', h')\<rparr>, snd (l', h'))"
      using h'(1) e by (simp add: wp_simps)
  qed
  then show ?thesis using curD(3) [OF c] hp by (simp add: cur_remove_current_def wp_simps ms)
qed

lemma wp_remove_current_as_list:
  assumes c: "cur c ns ms F h"
    and N: "ms = [] \<Longrightarrow> N None (c, h)"
      "\<And>c' h' l F' m ms'. ms = m # ms' \<Longrightarrow> cur c' ns ms' F' h' \<Longrightarrow> lst l [m] F F' \<Longrightarrow> N (Some l) (c', h')"
  shows "wp cur_remove_current_as_list N U (c, h)"
proof (cases ms)
  case Nil
  then show ?thesis using N(1) curD(3) [OF c] by (simp add: cur_remove_current_as_list_def wp_simps)
next
  case (Cons m ms')
  obtain p x where m: "m = (p, x)" by fastforce
  note ms = Cons [unfolded m]
  have l: "lst (cu_list c) (ns @ (p, x) # ms') F h" using curD(1) [OF c] by (simp add: ms)
  have hp: "h p = Some \<lparr>nd_next = first ms' None, nd_prev = final None ns, nd_elem = x\<rparr>"
    using chain_node [OF lstD(1) [OF l]] .
  let ?c = "c\<lparr>cu_current := first ms' None\<rparr>"
  let ?l = "\<lparr>ll_head = Some p, ll_tail = Some p, ll_len = 1\<rparr>"
  let ?rest = "block [set_prev p None, set_next p None]"
  have "wp (unlink_node p) (\<lambda>_ t. wp ?rest (\<lambda>_. N (Some ?l)) U (?c\<lparr>cu_list := fst t\<rparr>, snd t))
      (\<lambda>t. U (?c\<lparr>cu_list := fst t\<rparr>, snd t)) (cu_list c, h)"
  proof (rule wp_unlink_node [OF l])
    fix l' h' nd assume e: "nd_elem nd = x" and l': "lst l' (ns @ ms') (F(p \<mapsto> nd)) h'"
    have Fp: "F p = None" "p \<in> {0<..usize_max}" using lst_frame_None [OF l] lstD(3) [OF l] by simp_all
    note h' = lst_free [OF l' Fp(1)]
    let ?nd = "nd\<lparr>nd_prev := None, nd_next := None\<rparr>"
    let ?h = "h'(p \<mapsto> ?nd)"
    have "lst l' (ns @ ms') (F(p \<mapsto> ?nd)) ?h"
      using lst_alloc(1) [OF h'(2), of p ?nd] by simp
    then have "cur (?c\<lparr>cu_list := l'\<rparr>) ns ms' (F(p \<mapsto> ?nd)) ?h"
      using curD(2) [OF c] by (simp add: cur_def)
    moreover have "lst ?l [m] F (F(p \<mapsto> ?nd))" using Fp e by (intro lstI) (auto simp: m)
    ultimately have "N (Some ?l) (?c\<lparr>cu_list := l'\<rparr>, ?h)" by (rule N(2) [OF Cons])
    then show "wp ?rest (\<lambda>_. N (Some ?l)) U (?c\<lparr>cu_list := fst (l', h')\<rparr>, snd (l', h'))"
      using h'(1) by (simp add: wp_simps)
  qed
  then show ?thesis using curD(3) [OF c] hp by (simp add: cur_remove_current_as_list_def wp_simps ms)
qed


lemma wp_cur_split_after:
  assumes c: "cur c ns ms F h"
    and N: "\<And>c' h' l F'. ms = [] \<Longrightarrow> cur c' [] [] F' h' \<Longrightarrow> lst l ns F F' \<Longrightarrow> N l (c', h')"
      "\<And>c' h' l F' m ms'. ms = m # ms' \<Longrightarrow> cur c' ns [m] F' h' \<Longrightarrow> lst l ms' F F' \<Longrightarrow> N l (c', h')"
  shows "wp cur_split_after N U (c, h)"
proof (cases ms)
  case Nil
  have l: "lst (cu_list c) ([] @ ns) F h" using curD(1) [OF c] Nil by simp
  have "wp (split_off_after_node None 0) (\<lambda>x t. N x (c\<lparr>cu_index := 0, cu_list := fst t\<rparr>, snd t))
      (\<lambda>t. U (c\<lparr>cu_index := 0, cu_list := fst t\<rparr>, snd t)) (cu_list c, h)"
  proof (rule wp_split_off_after_node [OF l])
    have "cur (c\<lparr>cu_index := 0, cu_list := ll_new\<rparr>) [] [] h h"
      using curD(3) [OF c] Nil by (simp add: cur_def lst_new)
    from N(1) [OF Nil this, of "cu_list c"] l
    show "N (cu_list c) (c\<lparr>cu_index := 0, cu_list := fst (ll_new, h)\<rparr>, snd (ll_new, h))" by simp
  qed simp_all
  then show ?thesis using curD [OF c] cur_chain(5) [OF c] Nil by (simp add: cur_split_after_def wp_simps)
next
  case (Cons m ms')
  have l: "lst (cu_list c) ((ns @ [m]) @ ms') F h" using curD(1) [OF c] Cons by simp
  have "wp (split_off_after_node (Some (fst m)) (length ns + 1)) (\<lambda>x t. N x (c\<lparr>cu_list := fst t\<rparr>, snd t))
      (\<lambda>t. U (c\<lparr>cu_list := fst t\<rparr>, snd t)) (cu_list c, h)"
  proof (rule wp_split_off_after_node [OF l])
    fix l1 l2 h' F' assume l': "lst l1 (ns @ [m]) F' h'" "lst l2 ms' F F'"
    have "cur (c\<lparr>cu_list := l1\<rparr>) ns [m] F' h'" using l'(1) curD(2,3) [OF c] Cons by (simp add: cur_def)
    from N(2) [OF Cons this l'(2)] show "N l2 (c\<lparr>cu_list := fst (l1, h')\<rparr>, snd (l1, h'))" by simp
  qed simp_all
  then show ?thesis using curD [OF c] cur_chain(5) [OF c] Cons by (simp add: cur_split_after_def wp_simps)
qed

lemma wp_cur_split_before:
  assumes c: "cur c ns ms F h"
    and N: "\<And>c' h' l F'. cur c' [] ms F' h' \<Longrightarrow> lst l ns F F' \<Longrightarrow> N l (c', h')"
  shows "wp cur_split_before N U (c, h)"
proof -
  have "wp (split_off_before_node (cu_current c) (cu_index c))
      (\<lambda>x t. N x (c\<lparr>cu_index := 0, cu_list := fst t\<rparr>, snd t))
      (\<lambda>t. U (c\<lparr>cu_index := 0, cu_list := fst t\<rparr>, snd t)) (cu_list c, h)"
  proof (rule wp_split_off_before_node [OF curD(1) [OF c] curD(3,2) [OF c]])
    fix l1 l2 h' F' assume l': "lst l2 ms F' h'" "lst l1 ns F F'"
    have "cur (c\<lparr>cu_index := 0, cu_list := l2\<rparr>) [] ms F' h'"
      using l'(1) curD(3) [OF c] by (simp add: cur_def)
    from N [OF this l'(2)]
    show "N l1 (c\<lparr>cu_index := 0, cu_list := fst (l2, h')\<rparr>, snd (l2, h'))" by simp
  qed
  then show ?thesis by (simp add: cur_split_before_def wp_simps)
qed

lemma wpa_cur_push_front:
  assumes al: "fresh_boxes al" and c: "cur c ns ms F h"
    and N: "\<And>c' h' p. cur c' ((p, x) # ns) ms F h' \<Longrightarrow> N () (c', h')"
  shows "wpa (cur_push_front al x) N U (c, h)"
  unfolding cur_push_front_def
proof (rule wpa_bind, rule wpa_in_list, rule wpa_push_front [OF al curD(1) [OF c]])
  fix l' h' p assume l': "lst l' ((p, x) # ns @ ms) F h'"
  have "cur (c\<lparr>cu_list := l', cu_index := cu_index c + 1\<rparr>) ((p, x) # ns) ms F h'"
    using l' curD(2,3) [OF c] by (simp add: cur_def)
  from N [OF this] show "wpa (modify (\<lambda>c. c\<lparr>cu_index := cu_index c + 1\<rparr>)) N U
      (c\<lparr>cu_list := fst (l', h')\<rparr>, snd (l', h'))"
    by (intro wpaI) (simp add: wp_simps)
qed

lemma wpa_cur_push_back:
  assumes al: "fresh_boxes al" and c: "cur c ns ms F h"
    and N: "\<And>c' h' p. ms = [] \<Longrightarrow> cur c' (ns @ [(p, x)]) [] F h' \<Longrightarrow> N () (c', h')"
      "\<And>c' h' p. ms \<noteq> [] \<Longrightarrow> cur c' ns (ms @ [(p, x)]) F h' \<Longrightarrow> N () (c', h')"
  shows "wpa (cur_push_back al x) N U (c, h)"
  unfolding cur_push_back_def
proof (rule wpa_bind, rule wpa_in_list, rule wpa_push_back [OF al curD(1) [OF c]], rule wpaI)
  fix l' h' p assume l': "lst l' ((ns @ ms) @ [(p, x)]) F h'"
  let ?rest = "bind cur_current (\<lambda>r. if r = None then modify (\<lambda>c. c\<lparr>cu_index := cu_index c + 1\<rparr>) else ret ())"
  have "wp ?rest N U (c\<lparr>cu_list := l'\<rparr>, h')"
  proof (cases ms)
    case Nil
    have "cur (c\<lparr>cu_list := l', cu_index := cu_index c + 1\<rparr>) (ns @ [(p, x)]) [] F h'"
      using l' curD(2,3) [OF c] Nil by (simp add: cur_def)
    from N(1) [OF Nil this] show ?thesis
      using curD(3) [OF c] Nil by (simp add: cur_current_def wp_simps)
  next
    case (Cons m ms')
    have "cur (c\<lparr>cu_list := l'\<rparr>) ns (ms @ [(p, x)]) F h'"
      using l' curD(2,3) [OF c] Cons by (simp add: cur_def)
    from wp_cur_current [OF this] N(2) [OF _ this] show ?thesis by (simp add: wp_bind wp_simps Cons)
  qed
  then show "wp ?rest N U (c\<lparr>cu_list := fst (l', h')\<rparr>, snd (l', h'))" by simp
qed

lemma cur_is_empty: "cur c ns ms F h \<Longrightarrow> ll_is_empty (cu_list c) \<longleftrightarrow> ns = [] \<and> ms = []"
  using cur_chain(3) [of c ns ms F h] first_None [of "ns @ ms"] by (simp add: ll_is_empty_def)

lemma wp_cur_pop_front:
  assumes c: "cur c ns ms F h"
    and N: "ns = [] \<Longrightarrow> ms = [] \<Longrightarrow> N None (c, h)"
      "\<And>c' h' p x ns'. ns = (p, x) # ns' \<Longrightarrow> cur c' ns' ms F h' \<Longrightarrow> N (Some x) (c', h')"
      "\<And>c' h' p x ms'. ns = [] \<Longrightarrow> ms = (p, x) # ms' \<Longrightarrow> cur c' [] ms' F h' \<Longrightarrow> N (Some x) (c', h')"
  shows "wp cur_pop_front N U (c, h)"
proof -
  note D = curD [OF c] and H = cur_chain [OF c]
  have pop: "wp ll_pop_front (\<lambda>x t. N x (c1\<lparr>cu_list := fst t\<rparr>, snd t))
      (\<lambda>t. U (c1\<lparr>cu_list := fst t\<rparr>, snd t)) (cu_list c1, h)"
    if "lst (cu_list c1) ((p, x) # ks) F h"
      "\<And>l' h'. lst l' ks F h' \<Longrightarrow> N (Some x) (c1\<lparr>cu_list := l'\<rparr>, h')" for c1 p x ks
    by (rule wp_pop_front [OF that(1)]) (use that(2) in auto)
  consider "ns = []" "ms = []" | p x ns' where "ns = (p, x) # ns'" | p x ms' where "ns = []" "ms = (p, x) # ms'"
    by (metis list.exhaust surj_pair)
  then show ?thesis
  proof cases
    case 1
    then show ?thesis using N(1) cur_is_empty [OF c] by (simp add: cur_pop_front_def wp_simps)
  next
    case 2
    let ?c = "c\<lparr>cu_index := cu_index c - 1\<rparr>"
    have "p \<notin> addrs ms" using lstD(2) [OF D(1)] by (simp add: 2 addrs_def)
    then have "cu_current c \<noteq> Some p" using D(3) by (cases ms) auto
    moreover have "wp ll_pop_front (\<lambda>x t. N x (?c\<lparr>cu_list := fst t\<rparr>, snd t))
        (\<lambda>t. U (?c\<lparr>cu_list := fst t\<rparr>, snd t)) (cu_list ?c, h)"
      using D by (intro pop [of _ p x "ns' @ ms"] N(2) [OF 2]) (simp_all add: 2 cur_def)
    ultimately show ?thesis using cur_is_empty [OF c] H(3)
      by (simp add: cur_pop_front_def wp_simps 2)
  next
    case 3
    have "wp cur_move_next (\<lambda>_ s. wp (bind (modify (\<lambda>c. c\<lparr>cu_index := cu_index c - 1\<rparr>)) (\<lambda>_. in_list ll_pop_front)) N U s) U (c, h)"
    proof (rule wp_move_next [OF c])
      fix c' m ms1 assume m: "ms = m # ms1" and c': "cur c' (ns @ [m]) ms1 F h"
      let ?c = "c'\<lparr>cu_index := cu_index c' - 1\<rparr>"
      have "wp ll_pop_front (\<lambda>x t. N x (?c\<lparr>cu_list := fst t\<rparr>, snd t))
          (\<lambda>t. U (?c\<lparr>cu_list := fst t\<rparr>, snd t)) (cu_list ?c, h)"
        using curD [OF c'] m 3 by (intro pop [of _ p x ms'] N(3) [OF 3]) (simp_all add: cur_def)
      then show "wp (bind (modify (\<lambda>c. c\<lparr>cu_index := cu_index c - 1\<rparr>)) (\<lambda>_. in_list ll_pop_front)) N U (c', h)"
        by (simp add: wp_simps)
    qed (use 3 in simp)
    then show ?thesis using cur_is_empty [OF c] H(3) D(3) by (simp add: cur_pop_front_def wp_simps 3)
  qed
qed

lemma wp_cur_pop_back:
  assumes c: "cur c ns ms F h"
    and N: "ns = [] \<Longrightarrow> ms = [] \<Longrightarrow> N None (c, h)"
      "\<And>c' h' p x ms'. ms = ms' @ [(p, x)] \<Longrightarrow> cur c' ns ms' F h' \<Longrightarrow> N (Some x) (c', h')"
      "\<And>c' h' p x ns'. ms = [] \<Longrightarrow> ns = ns' @ [(p, x)] \<Longrightarrow> cur c' ns' [] F h' \<Longrightarrow> N (Some x) (c', h')"
  shows "wp cur_pop_back N U (c, h)"
proof -
  note D = curD [OF c] and H = cur_chain [OF c]
  have pop: "wp ll_pop_back (\<lambda>x t. N x (c1\<lparr>cu_list := fst t\<rparr>, snd t))
      (\<lambda>t. U (c1\<lparr>cu_list := fst t\<rparr>, snd t)) (cu_list c1, h)"
    if "lst (cu_list c1) (ks @ [(p, x)]) F h"
      "\<And>l' h'. lst l' ks F h' \<Longrightarrow> N (Some x) (c1\<lparr>cu_list := l'\<rparr>, h')" for c1 p x ks
    by (rule wp_pop_back [OF that(1)]) (use that(2) in auto)
  consider "ns = []" "ms = []" | p x ms' where "ms = ms' @ [(p, x)]" | p x ns' where "ms = []" "ns = ns' @ [(p, x)]"
    by (metis rev_exhaust surj_pair)
  then show ?thesis
  proof cases
    case 1
    then show ?thesis using N(1) cur_is_empty [OF c] by (simp add: cur_pop_back_def wp_simps)
  next
    case 2
    let ?c = "if ms' = [] then c\<lparr>cu_current := None\<rparr> else c"
    have "p \<notin> addrs ms'" using lstD(2) [OF D(1)] by (simp add: 2 addrs_def)
    then have "cu_current c = Some p \<longleftrightarrow> ms' = []" using D(3) by (cases ms') (auto simp: 2)
    moreover have "cu_current c \<noteq> None" using D(3) by (cases ms') (auto simp: 2)
    moreover have "wp ll_pop_back (\<lambda>x t. N x (?c\<lparr>cu_list := fst t\<rparr>, snd t))
        (\<lambda>t. U (?c\<lparr>cu_list := fst t\<rparr>, snd t)) (cu_list ?c, h)"
      using D by (intro pop [of _ "ns @ ms'" p x] N(2) [OF 2]) (auto simp: 2 cur_def first_nonempty [of ms' "Some p" None])
    ultimately show ?thesis using cur_is_empty [OF c] H(4)
      by (cases "ms' = []") (auto simp: cur_pop_back_def wp_simps 2)
  next
    case 3
    let ?c = "c\<lparr>cu_index := ll_len (cu_list c) - 1\<rparr>"
    have "wp ll_pop_back (\<lambda>x t. N x (?c\<lparr>cu_list := fst t\<rparr>, snd t))
        (\<lambda>t. U (?c\<lparr>cu_list := fst t\<rparr>, snd t)) (cu_list ?c, h)"
      using D H(5) by (intro pop [of _ "ns'" p x] N(3) [OF 3]) (simp_all add: 3 cur_def)
    then show ?thesis using cur_is_empty [OF c] H(4) D(3)
      by (simp add: cur_pop_back_def wp_simps 3)
  qed
qed

section \<open>Operations written with cursors\<close>

lemma wp_do_times_move_next:
  assumes "cur c ns (ks @ ms) F h" "\<And>c'. cur c' (ns @ ks) ms F h \<Longrightarrow> N () (c', h)"
  shows "wp (do_times (length ks) cur_move_next) N U (c, h)"
  using assms
proof (induction ks arbitrary: c ns)
  case (Cons k ks)
  have "wp (do_times (length ks) cur_move_next) N U (c', h)" if "cur c' (ns @ [k]) (ks @ ms) F h" for c'
    using Cons.IH [OF that] Cons.prems(2) by simp
  then show ?case by (auto simp: wp_simps intro!: wp_move_next [OF Cons.prems(1)])
qed (simp add: wp_simps)

lemma wp_do_times_move_prev:
  assumes "cur c (ns @ ks) ms F h" "\<And>c'. cur c' ns (ks @ ms) F h \<Longrightarrow> N () (c', h)"
  shows "wp (do_times (length ks) cur_move_prev) N U (c, h)"
  using assms
proof (induction ks arbitrary: c ms rule: rev_induct)
  case (snoc k ks)
  have "wp (do_times (length ks) cur_move_prev) N U (c', h)" if "cur c' (ns @ ks) (k # ms) F h" for c'
    using snoc.IH [OF that] snoc.prems(2) by simp
  then show ?case by (auto simp: wp_simps intro!: wp_move_prev [OF snoc.prems(1)])
qed (simp add: wp_simps)

lemma wp_unwrap_some [wp_simps]: "wp (unwrap_some (Some x)) N U s \<longleftrightarrow> N x s"
  by (simp add: unwrap_some_def wp_simps)

lemma wp_remove:
  assumes l: "lst l (ns @ (p, x) # ms) F h"
    and N: "\<And>l' h'. lst l' (ns @ ms) F h' \<Longrightarrow> N x (l', h')"
  shows "wp (ll_remove (length ns)) N U (l, h)"
proof -
  let ?N = "\<lambda>x t. N x (cu_list (fst t), snd t)" and ?U = "\<lambda>t. U (cu_list (fst t), snd t)"
  have rem: "wp (bind cur_remove_current unwrap_some) ?N ?U (c, h)" if "cur c ns ((p, x) # ms) F h" for c
    unfolding wp_bind
    by (rule wp_remove_current [OF that]) (auto simp: wp_simps intro!: N dest: curD(1))
  have fwd: "wp (bind (do_times (length ns) cur_move_next) (\<lambda>_. bind cur_remove_current unwrap_some)) ?N ?U
      (cursor_front_mut l, h)"
    using cur_start [OF l] unfolding wp_bind [of "do_times _ _"]
    by (intro wp_do_times_move_next [of _ "[]" ns "(p, x) # ms"] rem) simp_all
  obtain ks k where ks: "(p, x) # ms = ks @ [k]" by (metis rev_exhaust list.distinct(1))
  then have n: "length ms = length ks" by (metis length_Cons length_append_singleton nat.inject)
  have "cur (cursor_back_mut l) (ns @ ks) [k] F h"
    by (rule cur_end(2) [OF l]) (simp add: ks)
  then have bwd: "wp (bind (do_times (length ms) cur_move_prev) (\<lambda>_. bind cur_remove_current unwrap_some)) ?N ?U
      (cursor_back_mut l, h)"
    unfolding wp_bind [of "do_times _ _"] n by (rule wp_do_times_move_prev) (simp add: ks [symmetric] rem)
  have "ll_len l = length ns + length ms + 1" using lstD(6) [OF l] by simp
  then show ?thesis using fwd bwd
    by (simp add: ll_remove_def with_cursor_def wp_bind [of self] wp_self Let_def wp_zoom case_prod_beta)
qed

lemma remove_out_of_range:
  assumes "lst l ns F h" "at \<ge> length ns"
  shows "ll_remove at (l, h) = Inl (Panic ''Cannot remove at an index outside of the list bounds'')"
  using assms lstD(6) [OF assms(1)]
  by (simp add: ll_remove_def bind_def self_def reads_def failing_def)

lemma lst_set_elem:
  assumes "lst l (ns @ (p, x) # ms) F h" "h p = Some n"
  shows "lst l (ns @ (p, y) # ms) F (h(p \<mapsto> n\<lparr>nd_elem := y\<rparr>))"
proof -
  note D = lstD [OF assms(1)]
  have p: "p \<notin> addrs ns" "p \<notin> addrs ms" using D(2) by (auto simp: addrs_def)
  show ?thesis
  proof (rule lstI)
    show "chain (h(p \<mapsto> n\<lparr>nd_elem := y\<rparr>)) None (ns @ (p, y) # ms) None"
      using D(1) assms(2) p by (simp add: chain_append)
  qed (use D in \<open>auto simp: final_def\<close>)
qed

lemma wp_visit:
  assumes "h p = Some n"
  shows "wp (visit f p) N U (c, s, h) \<longleftrightarrow>
    (case f c (nd_elem n) of (r, y, c) \<Rightarrow>
       (case r of Some b \<Rightarrow> N b (c, s, h(p \<mapsto> n\<lparr>nd_elem := y\<rparr>))
        | None \<Rightarrow> U (c, s, h(p \<mapsto> n\<lparr>nd_elem := y\<rparr>))))"
  using assms
  by (auto simp: visit_def wp_simps)
    (auto simp: wp_def set_elem_def set_node_def writes_def split: prod.splits option.splits)

text \<open>What \<open>retain\<close> does, on the elements: whether it ends without a panic, the state it leaves and
  the elements that stay. An element whose closure call panics stays, one whose destructor panics
  is gone.\<close>

fun retain_seq :: "('c, 'a) visitor \<Rightarrow> ('c, 'a) glue \<Rightarrow> 'c \<Rightarrow> 'a list \<Rightarrow> bool \<times> 'c \<times> 'a list" where
  "retain_seq f d c [] = (True, c, [])"
| "retain_seq f d c (x # xs) = (case f c x of (r, y, c) \<Rightarrow> (case r of
     None \<Rightarrow> (False, c, y # xs)
   | Some keep \<Rightarrow>
       if keep then (case retain_seq f d c xs of (ok, c, ys) \<Rightarrow> (ok, c, y # ys))
       else (case d c y of (ok, c) \<Rightarrow> if ok then retain_seq f d c xs else (False, c, xs))))"

lemma wp_retain_cursor:
  assumes "cur cu ns ms F h" "length ms < fuel" "retain_seq f d c (map snd ms) = (ok, c', ys)"
    and "\<And>cu' ks h'. map snd ks = map snd ns @ ys \<Longrightarrow> lst (cu_list cu') ks F h' \<Longrightarrow>
      (if ok then N () (c', cu', h') else U (c', cu', h'))"
  shows "wp (retain_cursor fuel f d) N U (c, cu, h)"
  using assms
proof (induction fuel arbitrary: c cu ns ms h ys)
  case (Suc fuel)
  note cu = Suc.prems(1) and E = Suc.prems(3) and post = Suc.prems(4)
  show ?case
  proof (cases ms)
    case Nil
    then show ?thesis using curD [OF cu] E post [of ns cu h] by (simp add: wp_simps)
  next
    case (Cons m ms')
    obtain p x where m: "m = (p, x)" by fastforce
    note ms = Cons [unfolded m]
    obtain n where n: "h p = Some n" "nd_elem n = x"
      using chain_deref [OF lstD(1) [OF curD(1) [OF cu]], of p x] by (auto simp: ms)
    obtain r y c1 where f: "f c x = (r, y, c1)" by (metis prod_cases3)
    let ?h = "h(p \<mapsto> n\<lparr>nd_elem := y\<rparr>)"
    have cu1: "cur cu ns ((p, y) # ms') F ?h"
      using curD [OF cu] lst_set_elem [of "cu_list cu" ns p x ms' F h n y] n by (simp add: cur_def ms)
    have cur: "cu_current cu = Some p" using curD(3) [OF cu] by (simp add: ms)
    consider "r = None" | "r = Some True" | "r = Some False" by (metis (full_types) option.exhaust)
    then show ?thesis
    proof cases
      case 1
      then have "U (c', cu, ?h)"
        using E f post [OF _ curD(1) [OF cu1]] by (auto simp: ms)
      then show ?thesis using 1 E f by (auto simp: wp_simps cur wp_visit [where h = h and p = p, OF n(1)] n(2) ms)
    next
      case 2
      obtain zs where zs: "retain_seq f d c1 (map snd ms') = (ok, c', zs)" "ys = y # zs"
        using E f 2 by (auto simp: ms split: prod.splits)
      have "wp cur_move_next (\<lambda>_ s. wp (retain_cursor fuel f d) N U (c1, s)) (\<lambda>s. U (c1, s)) (cu, ?h)"
      proof (rule wp_move_next [OF cu1])
        fix cu2 m' ms1 assume "(p, y) # ms' = m' # ms1" "cur cu2 (ns @ [m']) ms1 F ?h"
        then have "cur cu2 (ns @ [(p, y)]) ms' F ?h" by simp
        then show "wp (retain_cursor fuel f d) N U (c1, cu2, ?h)"
          by (rule Suc.IH [OF _ _ zs(1)]) (use Suc.prems(2) post in \<open>auto simp: ms zs(2)\<close>)
      qed simp
      then show ?thesis using 2 f by (simp add: wp_simps cur wp_visit [where h = h and p = p, OF n(1)] n(2))
    next
      case 3
      obtain o1 c2 where d: "d c1 y = (o1, c2)" by fastforce
      have "wp cur_remove_current (\<lambda>r s. wp (unwrap_some r)
          (\<lambda>x. wp (drop_value d x) (\<lambda>_. wp (retain_cursor fuel f d) N U) U) U (c1, s))
          (\<lambda>s. U (c1, s)) (cu, ?h)"
      proof (rule wp_remove_current [OF cu1])
        fix cu2 h2 p' x' ms1 assume "(p, y) # ms' = (p', x') # ms1" and c2: "cur cu2 ns ms1 F h2"
        then have e: "x' = y" "ms1 = ms'" by auto
        have "wp (retain_cursor fuel f d) N U (c2, cu2, h2)" if o1
          by (rule Suc.IH [OF c2]) (use that E f 3 d Suc.prems(2) post in \<open>auto simp: ms e\<close>)
        moreover have "U (c2, cu2, h2)" if "\<not> o1"
          using E f 3 d that post [OF _ curD(1) [OF c2]] by (auto simp: ms e)
        ultimately show "wp (unwrap_some (Some x'))
            (\<lambda>x. wp (drop_value d x) (\<lambda>_. wp (retain_cursor fuel f d) N U) U) U (c1, cu2, h2)"
          by (simp add: wp_simps e d)
      qed simp
      then show ?thesis using 3 f by (simp add: wp_simps cur wp_visit [where h = h and p = p, OF n(1)] n(2))
    qed
  qed
qed simp

lemma wp_retain:
  assumes l: "lst l ns F h" and r: "retain_seq f d c (map snd ns) = (ok, c', ys)"
    and N: "\<And>l' ks h'. map snd ks = ys \<Longrightarrow> lst l' ks F h' \<Longrightarrow>
      (if ok then N () (c', l', h') else U (c', l', h'))"
  shows "wp (ll_retain f d) N U (c, l, h)"
proof -
  have "length ns < ll_len l + 1" using lstD(6) [OF l] by simp
  from wp_retain_cursor [OF cur_start [OF l] this r] N show ?thesis
    by (simp add: ll_retain_def wp_simps del: retain_cursor.simps)
qed

text \<open>One call of \<open>next\<close> on \<open>extract_if\<close>: its result (\<open>None\<close> when the closure panicked), the state,
  the elements passed over, and the elements not visited.\<close>

fun extract_seq :: "('c, 'a) visitor \<Rightarrow> 'c \<Rightarrow> 'a list \<Rightarrow> 'a option option \<times> 'c \<times> 'a list \<times> 'a list" where
  "extract_seq f c [] = (Some None, c, [], [])"
| "extract_seq f c (x # xs) = (case f c x of (r, y, c) \<Rightarrow> (case r of
     None \<Rightarrow> (None, c, [y], xs)
   | Some b \<Rightarrow>
       if b then (Some (Some y), c, [], xs)
       else (case extract_seq f c xs of (res, c, ks, rest) \<Rightarrow> (res, c, y # ks, rest))))"

definition extracting :: "extract_if \<Rightarrow> 'a nodes \<Rightarrow> 'a nodes \<Rightarrow> 'a store \<Rightarrow> 'a store \<Rightarrow> bool" where
  "extracting e ns ms F h \<longleftrightarrow> lst (ex_list e) (ns @ ms) F h \<and> ex_it e = first ms None \<and>
     ex_old_len e = ex_idx e + length ms"

lemma wp_in_extract [wp_simps]:
  "wp (in_extract m) N U (e, h) \<longleftrightarrow>
     wp m (\<lambda>x t. N x (e\<lparr>ex_list := fst t\<rparr>, snd t)) (\<lambda>t. U (e\<lparr>ex_list := fst t\<rparr>, snd t)) (ex_list e, h)"
  by (simp add: in_extract_def wp_simps case_prod_beta)

lemma wp_extract_next:
  assumes "extracting e ns ms F h" "length ms < fuel"
    and "extract_seq f c (map snd ms) = (res, c', ys, zs)"
    and "\<And>e' ks ms' h'. map snd ks = map snd ns @ ys \<Longrightarrow> map snd ms' = zs \<Longrightarrow> extracting e' ks ms' F h' \<Longrightarrow>
      (case res of Some r \<Rightarrow> N r (c', e', h') | None \<Rightarrow> U (c', e', h'))"
  shows "wp (extract_next fuel f) N U (c, e, h)"
  using assms
proof (induction fuel arbitrary: c e ns ms h ys)
  case (Suc fuel)
  note e = Suc.prems(1) and E = Suc.prems(3) and post = Suc.prems(4)
  show ?case
  proof (cases ms)
    case Nil
    then show ?thesis using e E post [of ns "[]" e h] by (auto simp: wp_simps extracting_def)
  next
    case (Cons m ms')
    obtain p x where m: "m = (p, x)" by fastforce
    note ms = Cons [unfolded m]
    have l: "lst (ex_list e) (ns @ (p, x) # ms') F h" using e by (simp add: extracting_def ms)
    have n: "h p = Some \<lparr>nd_next = first ms' None, nd_prev = final None ns, nd_elem = x\<rparr>" (is "_ = Some ?n")
      using chain_node [OF lstD(1) [OF l]] .
    obtain r y c1 where f: "f c x = (r, y, c1)" by (metis prod_cases3)
    let ?h = "h(p \<mapsto> ?n\<lparr>nd_elem := y\<rparr>)"
    let ?e = "e\<lparr>ex_it := first ms' None, ex_idx := ex_idx e + 1\<rparr>"
    have l1: "lst (ex_list e) (ns @ (p, y) # ms') F ?h" by (rule lst_set_elem [OF l n])
    have e1: "extracting ?e (ns @ [(p, y)]) ms' F ?h"
      using e l1 by (simp add: extracting_def ms)
    have it: "ex_it e = Some p" using e by (simp add: extracting_def ms)
    consider "r = None" | "r = Some True" | "r = Some False" by (metis (full_types) option.exhaust)
    then show ?thesis
    proof cases
      case 1
      then have "U (c', ?e, ?h)" using E f post [OF _ _ e1] by (auto simp: ms)
      then show ?thesis using 1 E f n by (auto simp: wp_simps it wp_visit [where h = h and p = p, OF n] ms)
    next
      case 2
      have "wp (unlink_node p) (\<lambda>_ t. wp (bind (with_glue (into_element p)) (\<lambda>x. ret (Some x))) N U
          (c1, ?e\<lparr>ex_list := fst t\<rparr>, snd t)) (\<lambda>t. U (c1, ?e\<lparr>ex_list := fst t\<rparr>, snd t)) (ex_list e, ?h)"
      proof (rule wp_unlink_node [OF l1])
        fix l2 h2 nd assume nd: "nd_elem nd = y" and l2: "lst l2 (ns @ ms') (F(p \<mapsto> nd)) h2"
        have "F p = None" using lst_frame_None [OF l1] by simp
        note h2 = lst_free [OF l2 this]
        have e2: "extracting (?e\<lparr>ex_list := l2\<rparr>) ns ms' F (h2(p := None))"
          using h2(2) e by (simp add: extracting_def ms)
        have eqs: "res = Some (Some y)" "c' = c1" "ys = []" "zs = map snd ms'" using E f 2 by (simp_all add: ms)
        have "N (Some y) (c1, ?e\<lparr>ex_list := l2\<rparr>, h2(p := None))"
          using post [OF _ _ e2] unfolding eqs by simp
        then show "wp (bind (with_glue (into_element p)) (\<lambda>x. ret (Some x))) N U
            (c1, ?e\<lparr>ex_list := fst (l2, h2)\<rparr>, snd (l2, h2))"
          using h2(1) nd by (simp add: wp_simps)
      qed
      then show ?thesis using 2 f n by (simp add: wp_simps it wp_visit [where h = h and p = p, OF n])
    next
      case 3
      obtain ks where ks: "extract_seq f c1 (map snd ms') = (res, c', ks, zs)" "ys = y # ks"
        using E f 3 by (auto simp: ms split: prod.splits)
      have "wp (extract_next fuel f) N U (c1, ?e, ?h)"
        by (rule Suc.IH [OF e1 _ ks(1)]) (use Suc.prems(2) post in \<open>auto simp: ms ks(2)\<close>)
      then show ?thesis using 3 f n by (simp add: wp_simps it wp_visit [where h = h and p = p, OF n])
    qed
  qed
qed simp

section \<open>Comparison and cloning\<close>

text \<open>An iterator over a list that is part of the rest of the store.\<close>

lemma lst_frame_chain:
  assumes "lst l ns F h" "chain F a ks b"
  shows "chain h a ks b"
proof -
  have "h p = F p" if "p \<in> addrs ks" for p
    using chain_dom [OF assms(2)] that lstD(7) [OF assms(1), of p] by (intro lstD(8) [OF assms(1)]) auto
  then show ?thesis using assms(2) chain_cong [of ks h F] by blast
qed

lemma wp_iter_eq:
  assumes "chain h a ns b" "chain h a' ms b'" "length ns < fuel"
    and "\<And>s. N (map snd ns = map snd ms) (s, h)"
  shows "wp (iter_eq fuel) N U ((iter_of a ns b, iter_of a' ms b'), h)"
  using assms
proof (induction fuel arbitrary: a ns a' ms)
  case (Suc fuel)
  have "wp (iter_eq fuel) N U ((iter_of (Some p) ns' b, iter_of (Some q) ms' b'), h)"
    if "ns = (p, x) # ns'" "ms = (q, x) # ms'" for p x ns' q ms'
    using Suc.prems that by (intro Suc.IH) simp_all
  then have "wp iter_next (\<lambda>r t. wp iter_next (\<lambda>r' t'. wp (case r of None \<Rightarrow> ret (r' = None)
      | Some x \<Rightarrow> (case r' of None \<Rightarrow> ret False | Some y \<Rightarrow> if x = y then iter_eq fuel else ret False)) N U
        ((fst t, fst t'), snd t')) (\<lambda>t'. U ((fst t, fst t'), snd t')) (iter_of a' ms b', snd t))
        (\<lambda>t. U ((fst t, iter_of a' ms b'), snd t)) (iter_of a ns b, h)"
    using Suc.prems
    by (intro wp_iter_next) (auto simp: wp_simps intro!: wp_iter_next split: option.splits)
  then show ?case by (simp add: wp_simps case_prod_beta)
qed simp

lemma ll_eq_correct:
  assumes "lst l ns F h" "lst m ms G h'" "chain h None ms None"
  shows "ll_eq l m h = Inr (map snd ns = map snd ms)"
proof (cases "length ns = length ms")
  case True
  have "wp (iter_eq (ll_len l + 1)) (\<lambda>b _. b = (map snd ns = map snd ms)) (\<lambda>_. False)
      ((ll_iter l, ll_iter m), h)"
    unfolding lst_iter(1) [OF assms(1)] lst_iter(1) [OF assms(2)]
    by (rule wp_iter_eq [OF lstD(1) [OF assms(1)] assms(3)]) (use lstD(6) [OF assms(1)] in auto)
  then show ?thesis using lstD(6) [OF assms(1)] lstD(6) [OF assms(2)] True
    by (auto simp: ll_eq_def simp del: iter_eq.simps elim!: wp_Inr)
next
  case False
  then show ?thesis using lstD(6) [OF assms(1)] lstD(6) [OF assms(2)]
    by (auto simp: ll_eq_def dest: map_eq_imp_length_eq)
qed

lemma wpa_extend_cloned:
  assumes al: "fresh_boxes al" and "lst l ms F h" "chain F a ks b" "length ks < fuel"
    and "\<And>it l' ms' h'. lst l' (ms @ ms') F h' \<Longrightarrow> map snd ms' = map cl (map snd ks) \<Longrightarrow> N () ((it, l'), h')"
  shows "wpa (extend_cloned fuel al cl) N U ((iter_of a ks b, l), h)"
  using assms(2-)
proof (induction fuel arbitrary: a ks l ms h)
  case (Suc fuel)
  note l = Suc.prems(1) and ch = Suc.prems(2) and post = Suc.prems(4)
  show ?case
  proof (cases ks)
    case Nil
    then have "wp (extend_cloned (Suc fuel) al cl) N U ((iter_of a ks b, l), h)"
      using post [of l "[]" h] l by (auto simp: wp_simps intro!: wp_iter_next [of h a "[]"])
    then show ?thesis by (rule wpaI)
  next
    case (Cons k ks')
    obtain p x where k: "k = (p, x)" by fastforce
    let ?it = "iter_of (Some p) ks' b"
    let ?cont = "\<lambda>r. case r of None \<Rightarrow> ret () | Some x \<Rightarrow>
      bind (zoom (\<lambda>((i, l), h). (l, h)) (\<lambda>((i, _), _) (l, h). ((i, l), h)) (ll_push_back al (cl x)))
        (\<lambda>_. extend_cloned fuel al cl)"
    have "wpa (?cont (Some x)) N U ((?it, l), h)"
      unfolding option.case
    proof (rule wpa_bind, rule wpa_zoom, simp only: case_prod_conv, rule wpa_push_back [OF al l])
      fix l' h' q assume l': "lst l' (ms @ [(q, cl x)]) F h'"
      show "wpa (extend_cloned fuel al cl) N U (case (l', h') of (l, h) \<Rightarrow> ((?it, l), h))"
        unfolding case_prod_conv
        by (rule Suc.IH [OF l']) (use ch Suc.prems(3) post [of _ "(q, cl x) # _"] in \<open>auto simp: Cons k\<close>)
    qed
    moreover have "wp iter_next (\<lambda>r t. r = Some x \<and> t = (?it, h)) (\<lambda>_. False) (iter_of a ks b, h)"
      by (rule wp_iter_next [OF lst_frame_chain [OF l ch]]) (auto simp: Cons k)
    ultimately have "wpa (zoom (\<lambda>((i, l), h). (i, h)) (\<lambda>((_, l), _) (i, h). ((i, l), h)) iter_next)
        (\<lambda>r. wpa (?cont r) N U) U ((iter_of a ks b, l), h)"
      by (intro wpaI) (auto simp: wp_simps elim!: wp_mono)
    then show ?thesis unfolding extend_cloned.simps by (rule wpa_bind)
  qed
qed simp

text \<open>A clone is a new list of the clones, and the store keeps everything it had.\<close>

lemma ll_clone_result:
  assumes al: "fresh_boxes al" and l: "lst l ns F h"
  shows "ll_clone al cl (l, h) = Inl Abort \<or>
    (\<exists>copy ms h'. ll_clone al cl (l, h) = Inr (Some copy, (l, h')) \<and> lst copy ms h h' \<and>
       map snd ms = map cl (map snd ns))"
proof -
  let ?Q = "\<lambda>s. \<exists>it l' ms h'. s = ((it, l'), h') \<and> lst l' ms h h' \<and> map snd ms = map cl (map snd ns)"
  have "wpa (extend_cloned (ll_len l + 1) al cl) (\<lambda>_. ?Q) (\<lambda>_. False) ((ll_iter l, ll_new), h)"
    unfolding lst_iter(1) [OF l]
    by (rule wpa_extend_cloned [OF al lst_new lstD(1) [OF l]]) (use lstD(6) [OF l] in auto)
  then show ?thesis
    by (auto simp: ll_clone_def wpa_def simp del: extend_cloned.simps elim!: wp_Inr)
qed

lemma wp_clone_zip:
  assumes "lst l (dn @ todo) F h" "chain F b ks e" "length todo \<le> length ks" "length todo < fuel"
    and "\<And>it b' todo' h'. lst l (dn @ todo') F h' \<Longrightarrow> map snd todo' = map cl (map snd (take (length todo) ks)) \<Longrightarrow>
      chain F b' (drop (length todo) ks) e \<Longrightarrow> N () ((it, iter_of b' (drop (length todo) ks) e), h')"
  shows "wp (clone_zip fuel cl) N U ((iter_of (final None dn) todo None, iter_of b ks e), h)"
  using assms
proof (induction fuel arbitrary: dn todo b ks h)
  case (Suc fuel)
  note l = Suc.prems(1) and ch = Suc.prems(2) and post = Suc.prems(5)
  have td: "chain h (final None dn) todo None" using lstD(1) [OF l] by (simp add: chain_append)
  show ?case
  proof (cases todo)
    case Nil
    then show ?thesis using post [of "[]" h b] l ch
      by (auto simp: wp_simps case_prod_beta intro!: wp_iter_mut_next [of h _ "[]"])
  next
    case (Cons m todo')
    obtain p x where m: "m = (p, x)" by fastforce
    obtain q y ks' where ks: "ks = (q, y) # ks'" using Suc.prems(3) Cons by (cases ks) auto
    note todo = Cons [unfolded m]
    obtain n where n: "h p = Some n" using td by (auto simp: todo)
    let ?h = "h(p \<mapsto> n\<lparr>nd_elem := cl y\<rparr>)"
    have l1: "lst l ((dn @ [(p, cl y)]) @ todo') F ?h"
      using lst_set_elem [of l dn p x todo' F h n "cl y"] l n by (simp add: todo)
    have fin: "final None (dn @ [(p, cl y)]) = Some p" by simp
    have rest: "wp (clone_zip fuel cl) N U ((iter_of (Some p) todo' None, iter_of (Some q) ks' e), ?h)"
      unfolding fin [symmetric]
    proof (rule Suc.IH [OF l1])
      show "chain F (Some q) ks' e" using ch by (simp add: ks)
      fix it b' t' h'
      assume "lst l ((dn @ [(p, cl y)]) @ t') F h'" "map snd t' = map cl (map snd (take (length todo') ks'))"
        "chain F b' (drop (length todo') ks') e"
      then show "N () ((it, iter_of b' (drop (length todo') ks') e), h')"
        using post [of "(p, cl y) # t'" h' b' it] by (simp add: todo ks)
    qed (use Suc.prems(3,4) in \<open>simp_all add: todo ks\<close>)
    have "wp iter_next (\<lambda>r t. r = Some y \<and> t = (iter_of (Some q) ks' e, h)) (\<lambda>_. False) (iter_of b ks e, h)"
      by (rule wp_iter_next [OF lst_frame_chain [OF l ch]]) (auto simp: ks)
    then have "wp iter_next (\<lambda>r t. wp (case r of None \<Rightarrow> ret () | Some x \<Rightarrow> bind (set_elem p (cl x)) (\<lambda>_. clone_zip fuel cl)) N U
        ((iter_of (Some p) todo' None, fst t), snd t)) (\<lambda>t. U ((iter_of (Some p) todo' None, fst t), snd t)) (iter_of b ks e, h)"
      by (rule wp_mono) (use rest n in \<open>auto simp: wp_simps\<close>)
    then have "wp iter_mut_next (\<lambda>r t. wp (case r of None \<Rightarrow> ret () | Some p \<Rightarrow>
       bind (zoom (\<lambda>((i, j), h). (j, h)) (\<lambda>((i, _), _) (j, h). ((i, j), h)) iter_next) (\<lambda>r'.
       case r' of None \<Rightarrow> ret () | Some x \<Rightarrow> bind (set_elem p (cl x)) (\<lambda>_. clone_zip fuel cl))) N U ((fst t, iter_of b ks e), snd t))
       (\<lambda>t. U ((fst t, iter_of b ks e), snd t)) (iter_of (final None dn) todo None, h)"
      by (intro wp_iter_mut_next [OF td]) (auto simp: todo wp_simps case_prod_beta)
    then show ?thesis by (simp add: wp_simps case_prod_beta)
  qed
qed simp

lemma lst_swap:
  assumes l1: "lst l1 ns F' h" and l2: "lst l2 ms F F'"
  obtains F'' where "lst l2 ms F'' h" "lst l1 ns F F''"
proof
  have dis: "addrs ns \<inter> addrs ms = {}" using chain_dom [OF lstD(1) [OF l2]] lstD(7) [OF l1] by fastforce
  let ?F = "h |` (- addrs ms)"
  show "lst l2 ms ?F h"
    using lst_frame_chain [OF l1 lstD(1) [OF l2]] lstD(2-6) [OF l2] by (intro lstI) (auto simp: restrict_map_def)
  show "lst l1 ns F ?F"
  proof (rule lstI)
    show "chain ?F None ns None" by (rule restrict_upd [OF lstD(1) [OF l1]]) (use dis in auto)
    fix p
    show "F p = None" if "p \<in> addrs ns"
      using that dis lstD(7) [OF l1, of p] lstD(8) [OF l2, of p] by (cases "p \<in> addrs ms") auto
    show "?F p = F p" if "p \<notin> addrs ns"
      using that lstD(7,8) [OF l2, of p] lstD(8) [OF l1, of p] by (cases "p \<in> addrs ms") auto
  qed (use lstD(2-6) [OF l1] in auto)
qed

lemma wp_ll_drop:
  assumes "lst l ns F h" "drop_seq d c (map snd ns) = (True, c', ys)"
    and "\<And>l'. lst l' [] F F \<Longrightarrow> N () (c', l', F)"
  shows "wp (ll_drop d) N U (c, l, h)"
  using ll_drop_result [OF assms(1), of d c] assms(2,3) by (auto simp: wp_def)

lemma wp_second: "wp (bind self (\<lambda>(_, j). ret j)) N U = (\<lambda>s. N (snd (fst s)) s)"
  by (auto simp: fun_eq_iff wp_bind wp_self wp_ret)

text \<open>\<open>clone_from\<close> makes the list equal to a clone of the source, in the nodes it had as far as they
  go; the elements cut off are dropped.\<close>

lemma wpa_clone_from:
  assumes al: "fresh_boxes al" and l: "lst l ns F h" and src: "lst source ks G F"
    and cut: "drop_seq d c (drop (length ks) (map snd ns)) = (True, c', ys)"
    and N: "\<And>l' ms h'. lst l' ms F h' \<Longrightarrow> map snd ms = map cl (map snd ks) \<Longrightarrow> N () (c', l', h')"
  shows "wpa (ll_clone_from d al cl source) N U (c, l, h)"
proof -
  let ?k = "length ks"
  have len: "ll_len l = length ns" "ll_len source = ?k" using lstD(6) l src by auto
  let ?cut = "if ll_len l > ll_len source
           then bind (with_glue (ll_split_off (ll_len source))) (\<lambda>cut.
             zoom (\<lambda>(c, l, h). (c, cut, h)) (\<lambda>(c, l, h) (c', _, h'). (c', l, h')) (ll_drop d))
           else ret ()"
  let ?P = "\<lambda>s. \<exists>l1 h1. s = (c', l1, h1) \<and> lst l1 (take ?k ns) F h1"
  have cut_list: "wp ?cut (\<lambda>_. ?P) (\<lambda>_. False) (c, l, h)"
  proof (cases "length ns > ?k")
    case True
    have l0: "lst l (take ?k ns @ drop ?k ns) F h" using l by simp
    have k: "length (take ?k ns) = ll_len source" using True len by simp
    have "wp (ll_split_off (length (take ?k ns))) (\<lambda>cut t. wp (ll_drop d)
        (\<lambda>_ u. ?P (fst u, fst t, snd (snd u))) (\<lambda>_. False) (c, cut, snd t)) (\<lambda>_. False) (l, h)"
    proof (rule wp_split_off [OF l0])
      fix l1 l2 h' F'
      assume "lst l1 (take ?k ns) F' h'" "lst l2 (drop ?k ns) F F'"
      then obtain F'' where "lst l2 (drop ?k ns) F'' h'" "lst l1 (take ?k ns) F F''" by (rule lst_swap)
      then show "wp (ll_drop d) (\<lambda>_ u. ?P (fst u, fst (l1, h'), snd (snd u))) (\<lambda>_. False) (c, l2, snd (l1, h'))"
        using cut by (auto simp: drop_map intro!: wp_ll_drop)
    qed
    then show ?thesis unfolding k using True len
      by (simp add: wp_bind wp_with_glue wp_zoom case_prod_beta)
  next
    case False
    then show ?thesis using l cut len by (simp add: wp_simps)
  qed
  have rest: "wpa (bind (with_glue self) (\<lambda>l.
     bind (with_glue (zoom (\<lambda>(l, h). ((ll_iter_mut l, ll_iter source), h)) (\<lambda>(l, _) (_, h). (l, h))
             (bind (clone_zip (ll_len l + 1) cl) (\<lambda>_. bind self (\<lambda>(_, j). ret j))))) (\<lambda>source_iter.
     if it_len source_iter \<noteq> 0
     then with_glue (zoom (\<lambda>(l, h). ((source_iter, l), h)) (\<lambda>_ ((_, l), h). (l, h))
            (extend_cloned (it_len source_iter + 1) al cl))
     else ret ()))) N U (c', l1, h1)" (is "wpa (bind _ (\<lambda>l. bind (?zip l) ?ext)) _ _ _")
    if l1: "lst l1 (take ?k ns) F h1" for l1 h1
  proof -
    let ?ms = "take ?k ns"
    have it: "ll_iter_mut l1 = iter_of None ?ms None" "ll_iter source = iter_of None ks None"
      using lst_iter(2) [OF l1] lst_iter(1) [OF src] by simp_all
    have "wp (clone_zip (ll_len l1 + 1) cl) (\<lambda>_ s. wpa (?ext (snd (fst s))) N U (c', l1, snd s)) (\<lambda>_. False)
        ((ll_iter_mut l1, ll_iter source), h1)"
      unfolding it
    proof (rule wp_clone_zip [where dn = "[]", unfolded final_simps append_Nil])
      fix it b' todo' h'
      assume l2: "lst l1 todo' F h'" and todo: "map snd todo' = map cl (map snd (take (length ?ms) ks))"
        and ch: "chain F b' (drop (length ?ms) ks) None"
      let ?rest = "drop (length ?ms) ks"
      show "wpa (?ext (snd (fst ((it, iter_of b' ?rest None), h')))) N U (c', l1, snd ((it, iter_of b' ?rest None), h'))"
      proof (cases "?rest = []")
        case True
        then have "take (length ?ms) ks = ks" by simp
        then have "N () (c', l1, h')" using N [of l1 todo' h'] l2 todo by simp
        then show ?thesis using True by (simp add: iter_of_def wpa_ret)
      next
        case False
        have "wpa (extend_cloned (length ?rest + 1) al cl) (\<lambda>x t. N x (c', snd (fst t), snd t)) (\<lambda>t. U (c', snd (fst t), snd t))
            ((iter_of b' ?rest None, l1), h')"
        proof (rule wpa_extend_cloned [OF al _ ch])
          show "lst l1 todo' F h'" using l2 by simp
          fix it2 l' ms' h2 assume "lst l' (todo' @ ms') F h2" "map snd ms' = map cl (map snd ?rest)"
          moreover have "map cl (map snd (take (length ?ms) ks)) @ map cl (map snd ?rest) = map cl (map snd ks)"
            by (metis append_take_drop_id map_append)
          ultimately show "N () (c', snd (fst ((it2, l'), h2)), snd ((it2, l'), h2))"
            using N [of l' "todo' @ ms'" h2] todo by simp
        qed simp
        then show ?thesis using False
          by (simp add: iter_of_def with_glue_def) (intro wpa_zoom, simp add: case_prod_beta)
      qed
    qed (use l1 lstD(1) [OF src] lstD(6) [OF l1] in simp_all)
    then have "wp (?zip l1) (\<lambda>x. wpa (?ext x) N U) (\<lambda>_. False) (c', l1, h1)"
      by (simp add: wp_with_glue wp_zoom wp_bind [of "clone_zip _ _"] wp_second case_prod_beta
        del: clone_zip.simps extend_cloned.simps)
    then have "wpa (bind (?zip l1) ?ext) N U (c', l1, h1)"
      by (intro wpa_bind wpaI) (auto elim: wp_mono)
    then show ?thesis by (intro wpa_bind wpaI) (simp add: wp_simps)
  qed
  show ?thesis unfolding ll_clone_from_def
  proof (rule wpa_bind, rule wpaI, unfold wp_with_glue wp_self, rule wpa_bind, rule wpaI,
      rule wp_mono [OF cut_list])
    fix x :: unit and t assume "?P t"
    then show "wpa (bind (with_glue self) (\<lambda>l. bind (?zip l) ?ext)) N U t" using rest by blast
  qed simp
qed

end
