(* ===== verification/Linked_List_Spec.thy ===== *)
theory Linked_List_Spec
  imports Linked_List_Cursor_Correct Simulation
begin

text \<open>
  \<open>LinkedList\<close>: the contract. A client has a list, other lists in the same store, and
  cursors; the operations mean operations on lists of elements. The locale \<open>container\<close>
  is interpreted twice, on the cursors and on the lists, and the second uses the first where a
  client runs a script of cursor operations.
\<close>

section \<open>Several lists in one store\<close>

text \<open>\<open>holds ls xss h\<close>: the lists \<open>ls\<close> have the elements \<open>xss\<close>, and their nodes are all the store \<open>h\<close>
  contains.\<close>

fun holds :: "linked_list list \<Rightarrow> 'a list list \<Rightarrow> 'a store \<Rightarrow> bool" where
  "holds [] xss h \<longleftrightarrow> xss = [] \<and> h = Map.empty"
| "holds (l # ls) xss h \<longleftrightarrow>
     (\<exists>ns xss' F. xss = map snd ns # xss' \<and> lst l ns F h \<and> holds ls xss' F)"

lemma holds_Cons:
  "holds (l # ls) (xs # xss) h \<longleftrightarrow> (\<exists>ns F. map snd ns = xs \<and> lst l ns F h \<and> holds ls xss F)"
  by auto

lemma holds_swap: "holds (l # m # ls) (xs # ys # xss) h \<Longrightarrow> holds (m # l # ls) (ys # xs # xss) h"
  by (simp only: holds_Cons) (metis lst_swap)

lemma holds_length: "holds ls xss h \<Longrightarrow> length xss = length ls"
  by (induction ls arbitrary: xss h) auto

lemma holds_to_front:
  assumes "holds (ks @ l # ls) (xss @ ys # yss) h" "length ks = length xss"
  shows "holds (l # ks @ ls) (ys # xss @ yss) h"
  using assms
proof (induction ks arbitrary: xss h)
  case (Cons k ks)
  obtain xs xss' where xss: "xss = xs # xss'" using Cons.prems(2) by (cases xss) auto
  obtain ns F where "map snd ns = xs" "lst k ns F h" "holds (ks @ l # ls) (xss' @ ys # yss) F"
    using Cons.prems(1) by (auto simp: xss holds_Cons simp del: holds.simps(2))
  moreover from this(3) have "holds (l # ks @ ls) (ys # xss' @ yss) F"
    using Cons.prems(2) by (intro Cons.IH) (simp_all add: xss)
  ultimately have "holds (k # l # ks @ ls) (xs # ys # xss' @ yss) h"
    unfolding holds_Cons [of k] by blast
  from holds_swap [OF this] show ?case unfolding xss append_Cons .
qed simp

lemma holds_from_front:
  assumes "holds (l # ks @ ls) (ys # xss @ yss) h" "length ks = length xss"
  shows "holds (ks @ l # ls) (xss @ ys # yss) h"
  using assms
proof (induction ks arbitrary: xss h)
  case (Cons k ks)
  obtain xs xss' where xss: "xss = xs # xss'" using Cons.prems(2) by (cases xss) auto
  have "holds (k # l # ks @ ls) (xs # ys # xss' @ yss) h"
    using Cons.prems(1) unfolding xss append_Cons by (rule holds_swap)
  then obtain ns F where "map snd ns = xs" "lst k ns F h" "holds (l # ks @ ls) (ys # xss' @ yss) F"
    unfolding holds_Cons [of k] by blast
  moreover from this(3) have "holds (ks @ l # ls) (xss' @ ys # yss) F"
    using Cons.prems(2) by (intro Cons.IH) (simp_all add: xss)
  ultimately show ?case unfolding xss append_Cons holds_Cons by blast
qed simp

text \<open>A client that exchanges its list with one of the others.\<close>

lemma holds_exchange:
  assumes "holds (l # ls) (xs # xss) h" "k < length ls"
  shows "holds (ls ! k # ls[k := l]) (xss ! k # xss[k := xs]) h"
proof -
  have n: "length xss = length ls" using holds_length [OF assms(1)] by simp
  let ?A = "take k ls" and ?B = "drop (Suc k) ls" and ?X = "take k xss" and ?Y = "drop (Suc k) xss"
  have split: "ls = ?A @ ls ! k # ?B" "xss = ?X @ xss ! k # ?Y"
    using assms(2) n by (simp_all add: id_take_nth_drop)
  have "holds ((l # ?A) @ ls ! k # ?B) ((xs # ?X) @ xss ! k # ?Y) h"
    using assms(1) split by (simp only: append_Cons)
  from holds_to_front [OF this] have "holds (ls ! k # l # ?A @ ?B) (xss ! k # xs # ?X @ ?Y) h"
    using n by simp
  then obtain ns F where F: "map snd ns = xss ! k" "lst (ls ! k) ns F h" "holds (l # ?A @ ?B) (xs # ?X @ ?Y) F"
    unfolding holds_Cons [of "ls ! k"] by blast
  from holds_from_front [OF F(3)] have "holds (?A @ l # ?B) (?X @ xs # ?Y) F" using n by simp
  then show ?thesis using F(1,2) assms(2) n
    unfolding holds_Cons [of "ls ! k"] by (metis upd_conv_take_nth_drop)
qed

text \<open>Nothing leaks: the store has one node for each element.\<close>

lemma lst_card:
  assumes "lst l ns F h" "finite (dom F)"
  shows "finite (dom h)" "card (dom h) = length ns + card (dom F)"
proof -
  have dom: "dom h = addrs ns \<union> dom F" "addrs ns \<inter> dom F = {}"
    using chain_dom [OF lstD(1) [OF assms(1)]] lstD(7,8) [OF assms(1)] by (auto, metis domI domIff)
  have "card (addrs ns) = length ns"
    using lstD(2) [OF assms(1)] by (metis addrs_def distinct_card length_map list.set_map)
  then show "finite (dom h)" "card (dom h) = length ns + card (dom F)"
    using dom assms(2) by (simp_all add: card_Un_disjoint)
qed

lemma holds_card:
  "holds ls xss h \<Longrightarrow> finite (dom h) \<and> card (dom h) = sum_list (map length xss) \<and>
    map ll_len ls = map length xss"
proof (induction ls arbitrary: xss h)
  case (Cons l ls)
  then obtain ns xss' F where "xss = map snd ns # xss'" "lst l ns F h" "holds ls xss' F" by auto
  then show ?case using Cons.IH lst_card lstD(6) by fastforce
qed simp

section \<open>The contract of a cursor\<close>

text \<open>A cursor and the other lists of its client; \<open>splice\<close> takes the first of these, the operations
  that return a list put it in front of them.\<close>

datatype 'a cursor_op =
  MoveNext | MovePrev | Index | Current | PeekNext | PeekPrev
| InsertAfter 'a | InsertBefore 'a | SpliceAfter | SpliceBefore
| RemoveCurrent | RemoveCurrentAsList | SplitAfter | SplitBefore
| CursorPushFront 'a | CursorPushBack 'a | CursorPopFront | CursorPopBack

datatype 'a list_out = Done | Elem "'a option" | Elems "'a list" | Number "usize option" | Flag bool
| Trace "'a list_out list"

type_synonym ('s, 'a) world = "'s \<times> linked_list list \<times> 'a store"

text \<open>An operation on the list or the cursor of a client; what it makes of the result and of the other
  lists is \<open>f\<close>. No operation here unwinds.\<close>

definition perform ::
  "('s \<times> 'a store, 'x) prog \<Rightarrow> ('x \<Rightarrow> linked_list list \<Rightarrow> 'o \<times> linked_list list) \<Rightarrow>
   ('s, 'a) world \<Rightarrow> ('o \<times> ('s, 'a) world) res" where
  "perform m f = (\<lambda>(s, ls, h). and_then (m (s, h)) (\<lambda>(r, (s, h)). case r of
     None \<Rightarrow> Inl (Panic [])
   | Some x \<Rightarrow> (case f x ls of (out, ls) \<Rightarrow> Inr (out, (s, ls, h)))))"

fun cursor_step ::
  "'a box_alloc \<Rightarrow> 'a cursor_op \<Rightarrow> (cursor, 'a) world \<Rightarrow> ('a list_out \<times> (cursor, 'a) world) res" where
  "cursor_step al MoveNext s = perform cur_move_next (\<lambda>_ ls. (Done, ls)) s"
| "cursor_step al MovePrev s = perform cur_move_prev (\<lambda>_ ls. (Done, ls)) s"
| "cursor_step al Index s = Inr (Number (cur_index (fst s)), s)"
| "cursor_step al Current s = perform cur_current (\<lambda>x ls. (Elem x, ls)) s"
| "cursor_step al PeekNext s = perform cur_peek_next (\<lambda>x ls. (Elem x, ls)) s"
| "cursor_step al PeekPrev s = perform cur_peek_prev (\<lambda>x ls. (Elem x, ls)) s"
| "cursor_step al (InsertAfter x) s = perform (cur_insert_after al x) (\<lambda>_ ls. (Done, ls)) s"
| "cursor_step al (InsertBefore x) s = perform (cur_insert_before al x) (\<lambda>_ ls. (Done, ls)) s"
| "cursor_step al SpliceAfter (c, ls, h) = (case ls of [] \<Rightarrow> Inr (Done, (c, ls, h))
     | l # ls \<Rightarrow> perform (cur_splice_after l) (\<lambda>_ ls. (Done, ls)) (c, ls, h))"
| "cursor_step al SpliceBefore (c, ls, h) = (case ls of [] \<Rightarrow> Inr (Done, (c, ls, h))
     | l # ls \<Rightarrow> perform (cur_splice_before l) (\<lambda>_ ls. (Done, ls)) (c, ls, h))"
| "cursor_step al RemoveCurrent s = perform cur_remove_current (\<lambda>x ls. (Elem x, ls)) s"
| "cursor_step al RemoveCurrentAsList s = perform cur_remove_current_as_list (\<lambda>r ls. case r of
     None \<Rightarrow> (Flag False, ls) | Some l \<Rightarrow> (Flag True, l # ls)) s"
| "cursor_step al SplitAfter s = perform cur_split_after (\<lambda>l ls. (Done, l # ls)) s"
| "cursor_step al SplitBefore s = perform cur_split_before (\<lambda>l ls. (Done, l # ls)) s"
| "cursor_step al (CursorPushFront x) s = perform (cur_push_front al x) (\<lambda>_ ls. (Done, ls)) s"
| "cursor_step al (CursorPushBack x) s = perform (cur_push_back al x) (\<lambda>_ ls. (Done, ls)) s"
| "cursor_step al CursorPopFront s = perform cur_pop_front (\<lambda>x ls. (Elem x, ls)) s"
| "cursor_step al CursorPopBack s = perform cur_pop_back (\<lambda>x ls. (Elem x, ls)) s"

text \<open>What the operations mean on the elements before the cursor and those from it on: the ghost is
  the position where nothing is left.\<close>

type_synonym 'a zipper = "('a list \<times> 'a list) \<times> 'a list list"

definition hd_opt :: "'a list \<Rightarrow> 'a option" where
  "hd_opt xs = (if xs = [] then None else Some (hd xs))"

definition last_opt :: "'a list \<Rightarrow> 'a option" where
  "last_opt xs = (if xs = [] then None else Some (last xs))"

fun zipper_after :: "'a list \<Rightarrow> 'a list \<times> 'a list \<Rightarrow> 'a list \<times> 'a list" where
  "zipper_after zs (xs, []) = (zs @ xs, [])"
| "zipper_after zs (xs, y # ys) = (xs, y # zs @ ys)"

fun cursor_spec :: "'a cursor_op \<Rightarrow> 'a zipper \<Rightarrow> string + 'a list_out \<times> 'a zipper" where
  "cursor_spec MoveNext ((xs, ys), zss) =
     Inr (Done, if ys = [] then (([], xs), zss) else ((xs @ [hd ys], tl ys), zss))"
| "cursor_spec MovePrev ((xs, ys), zss) =
     Inr (Done, if xs = [] then ((ys, []), zss) else ((butlast xs, last xs # ys), zss))"
| "cursor_spec Index ((xs, ys), zss) =
     Inr (Number (if ys = [] then None else Some (length xs)), ((xs, ys), zss))"
| "cursor_spec Current ((xs, ys), zss) = Inr (Elem (hd_opt ys), ((xs, ys), zss))"
| "cursor_spec PeekNext ((xs, ys), zss) =
     Inr (Elem (hd_opt (if ys = [] then xs else tl ys)), ((xs, ys), zss))"
| "cursor_spec PeekPrev ((xs, ys), zss) = Inr (Elem (last_opt xs), ((xs, ys), zss))"
| "cursor_spec (InsertAfter x) (z, zss) = Inr (Done, (zipper_after [x] z, zss))"
| "cursor_spec (InsertBefore x) ((xs, ys), zss) = Inr (Done, ((xs @ [x], ys), zss))"
| "cursor_spec SpliceAfter (z, zss) = Inr (Done, case zss of [] \<Rightarrow> (z, []) | zs # zss \<Rightarrow> (zipper_after zs z, zss))"
| "cursor_spec SpliceBefore ((xs, ys), zss) =
     Inr (Done, case zss of [] \<Rightarrow> ((xs, ys), []) | zs # zss \<Rightarrow> ((xs @ zs, ys), zss))"
| "cursor_spec RemoveCurrent ((xs, ys), zss) = Inr (Elem (hd_opt ys), ((xs, tl ys), zss))"
| "cursor_spec RemoveCurrentAsList ((xs, ys), zss) =
     Inr (if ys = [] then (Flag False, ((xs, ys), zss)) else (Flag True, ((xs, tl ys), [hd ys] # zss)))"
| "cursor_spec SplitAfter ((xs, ys), zss) =
     Inr (Done, if ys = [] then (([], []), xs # zss) else ((xs, [hd ys]), tl ys # zss))"
| "cursor_spec SplitBefore ((xs, ys), zss) = Inr (Done, (([], ys), xs # zss))"
| "cursor_spec (CursorPushFront x) ((xs, ys), zss) = Inr (Done, ((x # xs, ys), zss))"
| "cursor_spec (CursorPushBack x) ((xs, ys), zss) =
     Inr (Done, if ys = [] then ((xs @ [x], []), zss) else ((xs, ys @ [x]), zss))"
| "cursor_spec CursorPopFront ((xs, ys), zss) =
     Inr (Elem (hd_opt (xs @ ys)), if xs = [] then (([], tl ys), zss) else ((tl xs, ys), zss))"
| "cursor_spec CursorPopBack ((xs, ys), zss) =
     Inr (Elem (last_opt (xs @ ys)), if ys = [] then ((butlast xs, []), zss) else ((xs, butlast ys), zss))"

fun cursor_grows :: "'a cursor_op \<Rightarrow> bool" where
  "cursor_grows (InsertAfter x) = True"
| "cursor_grows (InsertBefore x) = True"
| "cursor_grows (CursorPushFront x) = True"
| "cursor_grows (CursorPushBack x) = True"
| "cursor_grows op = False"

definition cursor_rep :: "'a box_alloc \<Rightarrow> (cursor, 'a) world \<Rightarrow> 'a zipper \<Rightarrow> bool" where
  "cursor_rep al s z \<longleftrightarrow> fresh_boxes al \<and> (case (s, z) of ((c, ls, h), ((xs, ys), zss)) \<Rightarrow>
     \<exists>ns ms F. cur c ns ms F h \<and> map snd ns = xs \<and> map snd ms = ys \<and> holds ls zss F)"

lemma cursor_repI:
  "fresh_boxes al \<Longrightarrow> cur c ns ms F h \<Longrightarrow> holds ls zss F \<Longrightarrow> xs = map snd ns \<Longrightarrow> ys = map snd ms \<Longrightarrow>
     cursor_rep al (c, ls, h) ((xs, ys), zss)"
  unfolding cursor_rep_def by auto

lemma holds_ConsI: "lst l ns F h \<Longrightarrow> holds ls xss F \<Longrightarrow> xs = map snd ns \<Longrightarrow> holds (l # ls) (xs # xss) h"
  by auto

lemma perform_refines_wpa:
  assumes "wpa m (\<lambda>x t. \<exists>z. sp = Inr (fst (f x ls), z) \<and> rep (fst t, snd (f x ls), snd t) z) (\<lambda>_. False) (s, h)"
  shows "refines True rep (perform m f (s, ls, h)) sp"
  using assms
proof (unfold wpa_def, elim disjE)
  assume "m (s, h) = Inl Abort"
  then have "perform m f (s, ls, h) = Inl Abort" by (simp add: perform_def)
  then show ?thesis by (intro refines_fails) (auto simp: reserve_fails_def)
next
  assume "wp m (\<lambda>x t. \<exists>z. sp = Inr (fst (f x ls), z) \<and> rep (fst t, snd (f x ls), snd t) z) (\<lambda>_. False) (s, h)"
  then show ?thesis
    by (elim wp_Inr) (auto simp: perform_def case_prod_beta intro!: refines_ok)
qed

lemma perform_refines:
  assumes "wp m (\<lambda>x t. \<exists>z. sp = Inr (fst (f x ls), z) \<and> rep (fst t, snd (f x ls), snd t) z) (\<lambda>_. False) (s, h)"
  shows "refines g rep (perform m f (s, ls, h)) sp"
  using assms by (elim wp_Inr) (auto simp: perform_def case_prod_beta intro!: refines_ok)

text \<open>The cursor operations, each for a cursor between \<open>ns\<close> and \<open>ms\<close>.\<close>

lemma cursor_read_refines:
  assumes al: "fresh_boxes al" and c: "cur c ns ms F h" and h: "holds ls zss F"
    and op: "op \<in> {MoveNext, MovePrev, Index, Current, PeekNext, PeekPrev}"
  shows "refines g (cursor_rep al) (cursor_step al op (c, ls, h)) (cursor_spec op ((map snd ns, map snd ms), zss))"
proof -
  note rep = cursor_repI [OF al _ h]
  consider "op = MoveNext" | "op = MovePrev" | "op = Index" | "op = Current" | "op = PeekNext" | "op = PeekPrev"
    using op by auto
  then show ?thesis
  proof cases
    case 1
    show ?thesis unfolding 1 cursor_step.simps
      by (rule perform_refines, rule wp_move_next [OF c]) (auto intro!: rep)
  next
    case 2
    show ?thesis unfolding 2 cursor_step.simps
      by (rule perform_refines, rule wp_move_prev [OF c]) (auto intro!: rep)
  next
    case 3
    show ?thesis unfolding 3 using cur_index_eq [OF c] rep [OF c] by (auto intro!: refines_ok)
  next
    case 4
    show ?thesis unfolding 4 cursor_step.simps
      by (rule perform_refines, rule wp_cur_current [OF c]) (auto simp: hd_opt_def hd_map intro!: rep [OF c])
  next
    case 5
    show ?thesis unfolding 5 cursor_step.simps
      by (rule perform_refines, rule wp_peek_next [OF c])
        (auto simp: hd_opt_def map_tl [symmetric] hd_map split: list.splits intro!: rep [OF c])
  next
    case 6
    show ?thesis unfolding 6 cursor_step.simps
      by (rule perform_refines, rule wp_peek_prev [OF c]) (auto simp: last_opt_def last_map intro!: rep [OF c])
  qed
qed

lemma cursor_insert_refines:
  assumes al: "fresh_boxes al" and c: "cur c ns ms F h" and h: "holds ls zss F"
    and op: "cursor_grows op"
  shows "refines True (cursor_rep al) (cursor_step al op (c, ls, h)) (cursor_spec op ((map snd ns, map snd ms), zss))"
proof -
  note rep = cursor_repI [OF al _ h]
  show ?thesis
  proof (cases op)
    case (InsertAfter x)
    show ?thesis unfolding InsertAfter cursor_step.simps
      by (rule perform_refines_wpa, rule wpa_insert_after [OF al c]) (auto intro!: rep)
  next
    case (InsertBefore x)
    show ?thesis unfolding InsertBefore cursor_step.simps
      by (rule perform_refines_wpa, rule wpa_insert_before [OF al c]) (auto intro!: rep)
  next
    case (CursorPushFront x)
    show ?thesis unfolding CursorPushFront cursor_step.simps
      by (rule perform_refines_wpa, rule wpa_cur_push_front [OF al c]) (auto intro!: rep)
  next
    case (CursorPushBack x)
    show ?thesis unfolding CursorPushBack cursor_step.simps
      by (rule perform_refines_wpa, rule wpa_cur_push_back [OF al c]) (auto intro!: rep)
  qed (use op in auto)
qed

lemma cursor_splice_refines:
  assumes al: "fresh_boxes al" and c: "cur c ns ms F h" and h: "holds ls zss F"
    and op: "op = SpliceAfter \<or> op = SpliceBefore"
  shows "refines g (cursor_rep al) (cursor_step al op (c, ls, h)) (cursor_spec op ((map snd ns, map snd ms), zss))"
proof (cases ls)
  case Nil
  then show ?thesis using op h cursor_repI [OF al c h] by (auto intro!: refines_ok)
next
  case (Cons l ls')
  then obtain ks zss' G where zss: "zss = map snd ks # zss'" and l: "lst l ks G F" and h': "holds ls' zss' G"
    using h by auto
  note rep = cursor_repI [OF al _ h']
  from op show ?thesis
  proof
    assume op: "op = SpliceAfter"
    show ?thesis unfolding op Cons cursor_step.simps list.case
      by (rule perform_refines, rule wp_splice_after [OF c l]) (auto simp: zss intro!: rep)
  next
    assume op: "op = SpliceBefore"
    show ?thesis unfolding op Cons cursor_step.simps list.case
      by (rule perform_refines, rule wp_splice_before [OF c l]) (auto simp: zss intro!: rep)
  qed
qed

lemma cursor_remove_refines:
  assumes al: "fresh_boxes al" and c: "cur c ns ms F h" and h: "holds ls zss F"
    and op: "op \<in> {RemoveCurrent, RemoveCurrentAsList, SplitAfter, SplitBefore, CursorPopFront, CursorPopBack}"
  shows "refines g (cursor_rep al) (cursor_step al op (c, ls, h)) (cursor_spec op ((map snd ns, map snd ms), zss))"
proof -
  note rep = cursor_repI [OF al]
  note hold = holds_ConsI [OF _ h]
  consider "op = RemoveCurrent" | "op = RemoveCurrentAsList" | "op = SplitAfter" | "op = SplitBefore"
    | "op = CursorPopFront" | "op = CursorPopBack"
    using op by auto
  then show ?thesis
  proof cases
    case 1
    show ?thesis unfolding 1 cursor_step.simps
      by (rule perform_refines, rule wp_remove_current [OF c]) (auto simp: hd_opt_def intro!: rep [OF _ h] c)
  next
    case 2
    show ?thesis unfolding 2 cursor_step.simps
      by (rule perform_refines, rule wp_remove_current_as_list [OF c])
        (auto intro!: rep c h hold simp del: holds.simps)
  next
    case 3
    show ?thesis unfolding 3 cursor_step.simps
      by (rule perform_refines, rule wp_cur_split_after [OF c]) (auto intro!: rep hold simp del: holds.simps)
  next
    case 4
    show ?thesis unfolding 4 cursor_step.simps
      by (rule perform_refines, rule wp_cur_split_before [OF c]) (auto intro!: rep hold simp del: holds.simps)
  next
    case 5
    show ?thesis unfolding 5 cursor_step.simps
      by (rule perform_refines, rule wp_cur_pop_front [OF c]) (auto simp: hd_opt_def intro!: rep [OF _ h] c)
  next
    case 6
    show ?thesis unfolding 6 cursor_step.simps
      by (rule perform_refines, rule wp_cur_pop_back [OF c]) (auto simp: last_opt_def intro!: rep [OF _ h] c)
  qed
qed

lemma cursor_step_refines:
  assumes "cursor_rep al s z"
  shows "refines (cursor_grows op) (cursor_rep al) (cursor_step al op s) (cursor_spec op z)"
proof -
  obtain c ls h ns ms zss F where s: "s = (c, ls, h)" "z = ((map snd ns, map snd ms), zss)"
    and al: "fresh_boxes al" and c: "cur c ns ms F h" and h: "holds ls zss F"
    using assms unfolding cursor_rep_def by (cases s; cases z) auto
  show ?thesis
    using cursor_insert_refines [OF al c h, of op] cursor_read_refines [OF al c h, of op "cursor_grows op"]
      cursor_splice_refines [OF al c h, of op "cursor_grows op"] cursor_remove_refines [OF al c h, of op "cursor_grows op"]
    unfolding s by (cases op) simp_all
qed

interpretation cursor: container "cursor_rep al" "cursor_step al" cursor_spec cursor_grows
  for al
  by unfold_locales (rule cursor_step_refines)

section \<open>The contract of the list\<close>

text \<open>The destructors of the elements return here; what happens when one panics is the subject of
  \<open>ll_drop_result\<close>. \<open>append\<close>, \<open>eq\<close> and \<open>clone_from\<close> take the first of the other lists, \<open>split_off\<close> and
  \<open>clone\<close> put theirs in front, \<open>Exchange\<close> is the client's \<open>mem::swap\<close>.\<close>

datatype 'a list_op =
  PushFront 'a | PushBack 'a | PopFront | PopBack | Front | Back | Length | IsEmpty
| ToList | ToListRev | Contains 'a | Extend "'a list" | Append | SplitOff usize | Remove usize
| Retain "'a \<Rightarrow> bool \<times> 'a" | Clear | New | Exchange usize | Equal | Clone "'a \<Rightarrow> 'a"
| CloneFrom "'a \<Rightarrow> 'a" | CursorFront "'a cursor_op list" | CursorBack "'a cursor_op list"

definition quiet :: "(unit, 'a) glue" where
  "quiet c x = (True, c)"

definition total :: "('a \<Rightarrow> bool \<times> 'a) \<Rightarrow> (unit, 'a) visitor" where
  "total f c x = (Some (fst (f x)), snd (f x), c)"

definition no_state :: "(unit \<times> 's, 'x) prog \<Rightarrow> ('s, 'x) prog" where
  "no_state m s = and_then (m ((), s)) (\<lambda>(r, (_, s)). Inr (r, s))"

definition run_cursor ::
  "'a box_alloc \<Rightarrow> (linked_list \<Rightarrow> cursor) \<Rightarrow> 'a cursor_op list \<Rightarrow> (linked_list, 'a) world \<Rightarrow>
   ('a list_out \<times> (linked_list, 'a) world) res" where
  "run_cursor al mk ops = (\<lambda>(l, ls, h). and_then (run_steps (cursor_step al) ops (mk l, ls, h))
     (\<lambda>(outs, (c, ls, h)). Inr (Trace outs, (cu_list c, ls, h))))"

fun list_step ::
  "'a box_alloc \<Rightarrow> 'a list_op \<Rightarrow> (linked_list, 'a) world \<Rightarrow> ('a list_out \<times> (linked_list, 'a) world) res" where
  "list_step al (PushFront x) s = perform (ll_push_front al x) (\<lambda>_ ls. (Done, ls)) s"
| "list_step al (PushBack x) s = perform (ll_push_back al x) (\<lambda>_ ls. (Done, ls)) s"
| "list_step al PopFront s = perform ll_pop_front (\<lambda>x ls. (Elem x, ls)) s"
| "list_step al PopBack s = perform ll_pop_back (\<lambda>x ls. (Elem x, ls)) s"
| "list_step al Front s = perform ll_front (\<lambda>x ls. (Elem x, ls)) s"
| "list_step al Back s = perform ll_back (\<lambda>x ls. (Elem x, ls)) s"
| "list_step al Length s = Inr (Number (Some (ll_len (fst s))), s)"
| "list_step al IsEmpty s = Inr (Flag (ll_is_empty (fst s)), s)"
| "list_step al ToList s = perform ll_to_list (\<lambda>xs ls. (Elems xs, ls)) s"
| "list_step al ToListRev s = perform ll_to_list_rev (\<lambda>xs ls. (Elems xs, ls)) s"
| "list_step al (Contains x) s = perform (ll_contains x) (\<lambda>b ls. (Flag b, ls)) s"
| "list_step al (Extend xs) s = perform (ll_extend al xs) (\<lambda>_ ls. (Done, ls)) s"
| "list_step al Append (l, ls, h) = (case ls of [] \<Rightarrow> Inr (Done, (l, ls, h))
     | other # ls \<Rightarrow> perform (append_list other) (\<lambda>other ls. (Done, other # ls)) (l, ls, h))"
| "list_step al (SplitOff at) s = perform (ll_split_off at) (\<lambda>l ls. (Done, l # ls)) s"
| "list_step al (Remove at) s = perform (ll_remove at) (\<lambda>x ls. (Elem (Some x), ls)) s"
| "list_step al (Retain f) s = perform (no_state (ll_retain (total f) quiet)) (\<lambda>_ ls. (Done, ls)) s"
| "list_step al Clear s = perform (no_state (ll_clear quiet)) (\<lambda>_ ls. (Done, ls)) s"
| "list_step al New (l, ls, h) = Inr (Done, (l, ll_new # ls, h))"
| "list_step al (Exchange k) (l, ls, h) =
     Inr (Done, if k < length ls then (ls ! k, ls[k := l], h) else (l, ls, h))"
| "list_step al Equal (l, ls, h) = (case ls of [] \<Rightarrow> Inr (Flag False, (l, ls, h))
     | other # _ \<Rightarrow> and_then (ll_eq l other h) (\<lambda>b. Inr (Flag b, (l, ls, h))))"
| "list_step al (Clone cl) s = perform (ll_clone al cl) (\<lambda>l ls. (Done, l # ls)) s"
| "list_step al (CloneFrom cl) (l, ls, h) = (case ls of [] \<Rightarrow> Inr (Done, (l, ls, h))
     | source # _ \<Rightarrow> perform (no_state (ll_clone_from quiet al cl source)) (\<lambda>_ ls. (Done, ls)) (l, ls, h))"
| "list_step al (CursorFront ops) s = run_cursor al cursor_front_mut ops s"
| "list_step al (CursorBack ops) s = run_cursor al cursor_back_mut ops s"

fun retain_spec :: "('a \<Rightarrow> bool \<times> 'a) \<Rightarrow> 'a list \<Rightarrow> 'a list" where
  "retain_spec f [] = []"
| "retain_spec f (x # xs) = (if fst (f x) then snd (f x) # retain_spec f xs else retain_spec f xs)"

definition zipper_result ::
  "string + 'a list_out list \<times> 'a zipper \<Rightarrow> string + 'a list_out \<times> 'a list \<times> 'a list list" where
  "zipper_result r = and_then r (\<lambda>(outs, ((xs, ys), zss)). Inr (Trace outs, (xs @ ys, zss)))"

fun list_spec :: "'a list_op \<Rightarrow> 'a list \<times> 'a list list \<Rightarrow> string + 'a list_out \<times> 'a list \<times> 'a list list" where
  "list_spec (PushFront x) (xs, xss) = Inr (Done, (x # xs, xss))"
| "list_spec (PushBack x) (xs, xss) = Inr (Done, (xs @ [x], xss))"
| "list_spec PopFront (xs, xss) = Inr (Elem (hd_opt xs), (tl xs, xss))"
| "list_spec PopBack (xs, xss) = Inr (Elem (last_opt xs), (butlast xs, xss))"
| "list_spec Front (xs, xss) = Inr (Elem (hd_opt xs), (xs, xss))"
| "list_spec Back (xs, xss) = Inr (Elem (last_opt xs), (xs, xss))"
| "list_spec Length (xs, xss) = Inr (Number (Some (length xs)), (xs, xss))"
| "list_spec IsEmpty (xs, xss) = Inr (Flag (xs = []), (xs, xss))"
| "list_spec ToList (xs, xss) = Inr (Elems xs, (xs, xss))"
| "list_spec ToListRev (xs, xss) = Inr (Elems (rev xs), (xs, xss))"
| "list_spec (Contains x) (xs, xss) = Inr (Flag (x \<in> set xs), (xs, xss))"
| "list_spec (Extend ys) (xs, xss) = Inr (Done, (xs @ ys, xss))"
| "list_spec Append (xs, xss) = Inr (Done, case xss of [] \<Rightarrow> (xs, []) | ys # xss \<Rightarrow> (xs @ ys, [] # xss))"
| "list_spec (SplitOff at) (xs, xss) =
     (if at \<le> length xs then Inr (Done, (take at xs, drop at xs # xss))
      else Inl ''Cannot split off at a nonexistent index'')"
| "list_spec (Remove at) (xs, xss) =
     (if at < length xs then Inr (Elem (Some (xs ! at)), (take at xs @ drop (Suc at) xs, xss))
      else Inl ''Cannot remove at an index outside of the list bounds'')"
| "list_spec (Retain f) (xs, xss) = Inr (Done, (retain_spec f xs, xss))"
| "list_spec Clear (xs, xss) = Inr (Done, ([], xss))"
| "list_spec New (xs, xss) = Inr (Done, (xs, [] # xss))"
| "list_spec (Exchange k) (xs, xss) =
     Inr (Done, if k < length xss then (xss ! k, xss[k := xs]) else (xs, xss))"
| "list_spec Equal (xs, xss) = Inr (Flag (xss \<noteq> [] \<and> xs = hd xss), (xs, xss))"
| "list_spec (Clone cl) (xs, xss) = Inr (Done, (xs, map cl xs # xss))"
| "list_spec (CloneFrom cl) (xs, xss) = Inr (Done, case xss of [] \<Rightarrow> (xs, []) | ys # _ \<Rightarrow> (map cl ys, xss))"
| "list_spec (CursorFront ops) (xs, xss) = zipper_result (run_steps cursor_spec ops (([], xs), xss))"
| "list_spec (CursorBack ops) (xs, xss) = zipper_result (run_steps cursor_spec ops
     (if xs = [] then (([], []), xss) else ((butlast xs, [last xs]), xss)))"

fun list_grows :: "'a list_op \<Rightarrow> bool" where
  "list_grows (PushFront x) = True"
| "list_grows (PushBack x) = True"
| "list_grows (Extend xs) = True"
| "list_grows (Clone cl) = True"
| "list_grows (CloneFrom cl) = True"
| "list_grows (CursorFront ops) = (\<exists>op \<in> set ops. cursor_grows op)"
| "list_grows (CursorBack ops) = (\<exists>op \<in> set ops. cursor_grows op)"
| "list_grows op = False"

definition list_rep :: "'a box_alloc \<Rightarrow> (linked_list, 'a) world \<Rightarrow> 'a list \<times> 'a list list \<Rightarrow> bool" where
  "list_rep al s a \<longleftrightarrow> fresh_boxes al \<and> (case (s, a) of ((l, ls, h), (xs, xss)) \<Rightarrow> holds (l # ls) (xs # xss) h)"

lemma list_repI:
  "fresh_boxes al \<Longrightarrow> lst l ns F h \<Longrightarrow> holds ls xss F \<Longrightarrow> xs = map snd ns \<Longrightarrow>
     list_rep al (l, ls, h) (xs, xss)"
  unfolding list_rep_def by auto

lemma wp_no_state [wp_simps]:
  "wp (no_state m) N U s \<longleftrightarrow> wp m (\<lambda>x t. N x (snd t)) (\<lambda>t. U (snd t)) ((), s)"
  by (auto simp: wp_def no_state_def and_then_def split: sum.splits option.splits)

lemma wpa_no_state:
  "wpa m (\<lambda>x t. N x (snd t)) (\<lambda>t. U (snd t)) ((), s) \<Longrightarrow> wpa (no_state m) N U s"
  by (auto simp: wpa_def wp_no_state) (auto simp: no_state_def)

lemma drop_seq_quiet: "drop_seq quiet c xs = (True, c, [])"
  by (induction xs) (simp_all add: quiet_def)

lemma retain_seq_total: "retain_seq (total f) quiet c xs = (True, c, retain_spec f xs)"
  by (induction xs) (simp_all add: quiet_def total_def)

lemma list_end_refines:
  assumes al: "fresh_boxes al" and l: "lst l ns F h" and h: "holds ls xss F"
    and op: "op \<in> {PopFront, PopBack, Front, Back, Length, IsEmpty, ToList, ToListRev}"
  shows "refines g (list_rep al) (list_step al op (l, ls, h)) (list_spec op (map snd ns, xss))"
proof -
  note rep = list_repI [OF al _ h]
  consider "op = PopFront" | "op = PopBack" | "op = Front" | "op = Back" | "op = Length" | "op = IsEmpty"
    | "op = ToList" | "op = ToListRev"
    using op by auto
  then show ?thesis
  proof cases
    case 1
    show ?thesis unfolding 1 list_step.simps
      by (rule perform_refines, rule wp_pop_front [OF l]) (auto simp: hd_opt_def intro!: rep l)
  next
    case 2
    show ?thesis unfolding 2 list_step.simps
      by (rule perform_refines, rule wp_pop_back [OF l]) (auto simp: last_opt_def intro!: rep l)
  next
    case 3
    show ?thesis unfolding 3 list_step.simps
      by (rule perform_refines, rule wp_front [OF l]) (auto simp: hd_opt_def hd_map intro!: rep l)
  next
    case 4
    show ?thesis unfolding 4 list_step.simps
      by (rule perform_refines, rule wp_back [OF l]) (auto simp: last_opt_def last_map intro!: rep l)
  next
    case 5
    show ?thesis unfolding 5 using lstD(6) [OF l] rep [OF l] by (auto intro!: refines_ok)
  next
    case 6
    show ?thesis unfolding 6 using lstD(4) [OF l] rep [OF l] first_None [of ns]
      by (auto simp: ll_is_empty_def intro!: refines_ok)
  next
    case 7
    show ?thesis unfolding 7 list_step.simps
      by (rule perform_refines, rule wp_to_list [OF l]) (auto intro!: rep l)
  next
    case 8
    show ?thesis unfolding 8 list_step.simps
      by (rule perform_refines, rule wp_to_list_rev [OF l]) (auto intro!: rep l)
  qed
qed

lemma list_grow_refines:
  assumes al: "fresh_boxes al" and l: "lst l ns F h" and h: "holds ls xss F"
    and op: "op = PushFront x \<or> op = PushBack x \<or> op = Extend ys \<or> op = Clone cl"
  shows "refines (list_grows op) (list_rep al) (list_step al op (l, ls, h)) (list_spec op (map snd ns, xss))"
proof -
  note rep = list_repI [OF al _ h]
  from op show ?thesis
  proof (elim disjE)
    assume op: "op = PushFront x"
    show ?thesis unfolding op list_step.simps list_grows.simps
      by (rule perform_refines_wpa, rule wpa_push_front [OF al l]) (auto intro!: rep)
  next
    assume op: "op = PushBack x"
    show ?thesis unfolding op list_step.simps list_grows.simps
      by (rule perform_refines_wpa, rule wpa_push_back [OF al l]) (auto intro!: rep)
  next
    assume op: "op = Extend ys"
    show ?thesis unfolding op list_step.simps list_grows.simps
      by (rule perform_refines_wpa, rule wpa_extend [OF al l]) (auto intro!: rep)
  next
    assume op: "op = Clone cl"
    have cloned: "list_rep al (l, copy # ls, h') (map snd ns, map cl (map snd ns) # xss)"
      if c: "lst copy ms h h'" "map snd ms = map cl (map snd ns)" for copy ms h'
    proof -
      obtain F' where F': "lst l ns F' h'" "lst copy ms F F'" by (rule lst_swap [OF c(1) l])
      have "holds (copy # ls) (map snd ms # xss) F'" by (rule holds_ConsI [OF F'(2) h refl])
      then show ?thesis using list_repI [OF al F'(1)] c(2) by simp
    qed
    show ?thesis unfolding op list_step.simps list_grows.simps
      by (rule perform_refines_wpa)
        (use ll_clone_result [OF al l, of cl] cloned in \<open>auto simp: wpa_def wp_def\<close>)
  qed
qed

lemma list_cut_refines:
  assumes al: "fresh_boxes al" and l: "lst l ns F h" and h: "holds ls xss F"
    and op: "op = SplitOff at \<or> op = Remove at"
  shows "refines g (list_rep al) (list_step al op (l, ls, h)) (list_spec op (map snd ns, xss))"
  using op
proof
  assume op: "op = SplitOff at"
  show ?thesis
  proof (cases "at \<le> length ns")
    case True
    have l': "lst l (take at ns @ drop at ns) F h" using l by simp
    have n: "at = length (take at ns)" using True by simp
    have "wp (ll_split_off (length (take at ns))) (\<lambda>x t. \<exists>z. list_spec op (map snd ns, xss) = Inr (fst (Done, x # ls), z) \<and>
        list_rep al (fst t, snd (Done, x # ls), snd t) z) (\<lambda>_. False) (l, h)"
      using True by (intro wp_split_off [OF l'])
        (auto simp: op take_map drop_map intro!: list_repI [OF al] holds_ConsI [OF _ h] simp del: holds.simps)
    then show ?thesis unfolding n [symmetric] by (simp add: op perform_refines)
  next
    case False
    then have "perform (ll_split_off at) (\<lambda>l ls. (Done :: 'a list_out, l # ls)) (l, ls, h) =
        Inl (Panic ''Cannot split off at a nonexistent index'')"
      using split_off_out_of_range [OF l, of at] by (simp add: perform_def)
    then show ?thesis using False by (auto simp: op)
  qed
next
  assume op: "op = Remove at"
  show ?thesis
  proof (cases "at < length ns")
    case True
    obtain p x where px: "ns ! at = (p, x)" by fastforce
    have l': "lst l (take at ns @ (p, x) # drop (Suc at) ns) F h"
      using l True px by (metis id_take_nth_drop)
    have n: "at = length (take at ns)" using True by simp
    have "wp (ll_remove (length (take at ns))) (\<lambda>x t. \<exists>z. list_spec op (map snd ns, xss) = Inr (fst (Elem (Some x), ls), z) \<and>
        list_rep al (fst t, snd (Elem (Some x) :: 'a list_out, ls), snd t) z) (\<lambda>_. False) (l, h)"
      using True px by (intro wp_remove [OF l'])
        (auto simp: op take_map drop_map intro!: list_repI [OF al _ h])
    then show ?thesis unfolding n [symmetric] by (simp add: op perform_refines)
  next
    case False
    then have "perform (ll_remove at) (\<lambda>x ls. (Elem (Some x) :: 'a list_out, ls)) (l, ls, h) =
        Inl (Panic ''Cannot remove at an index outside of the list bounds'')"
      using remove_out_of_range [OF l, of at] by (simp add: perform_def)
    then show ?thesis using False by (auto simp: op)
  qed
qed

lemma wp_clear:
  assumes "lst l ns F h" "N () ((), ll_new, F)"
  shows "wp (ll_clear quiet) N U ((), l, h)"
  unfolding ll_clear_def wp_bind wp_with_glue wp_replace_self wp_zoom
  using assms(2) by (auto intro!: wp_ll_drop [OF assms(1) drop_seq_quiet])

lemma list_closure_refines:
  assumes al: "fresh_boxes al" and l: "lst l ns F h" and h: "holds ls xss F"
    and op: "op = Contains x \<or> op = Retain f \<or> op = Clear"
  shows "refines g (list_rep al) (list_step al op (l, ls, h)) (list_spec op (map snd ns, xss))"
proof -
  note rep = list_repI [OF al _ h]
  from op show ?thesis
  proof (elim disjE)
    assume op: "op = Contains x"
    show ?thesis unfolding op list_step.simps
      by (rule perform_refines, rule wp_contains [OF l]) (auto intro!: rep l)
  next
    assume op: "op = Retain f"
    show ?thesis unfolding op list_step.simps
      by (rule perform_refines, unfold wp_no_state, rule wp_retain [OF l retain_seq_total]) (auto intro!: rep)
  next
    assume op: "op = Clear"
    show ?thesis unfolding op list_step.simps
      by (rule perform_refines, unfold wp_no_state, rule wp_clear [OF l]) (auto intro!: rep lst_new)
  qed
qed

lemma list_pair_refines:
  assumes al: "fresh_boxes al" and l: "lst l ns F h" and h: "holds ls xss F"
    and op: "op = Append \<or> op = Equal \<or> op = CloneFrom cl"
  shows "refines (list_grows op) (list_rep al) (list_step al op (l, ls, h)) (list_spec op (map snd ns, xss))"
proof (cases ls)
  case Nil
  then show ?thesis using op h list_repI [OF al l h] by (auto intro!: refines_ok)
next
  case (Cons m ls')
  then obtain ms xss' G where xss: "xss = map snd ms # xss'" and m: "lst m ms G F" and h': "holds ls' xss' G"
    using h by auto
  from op show ?thesis
  proof (elim disjE)
    assume op: "op = Append"
    show ?thesis unfolding op Cons list_step.simps list.case
      by (rule perform_refines, rule wp_append_list [OF l m])
        (auto simp: xss intro!: list_repI [OF al] holds_ConsI [OF _ h'] simp del: holds.simps)
  next
    assume op: "op = Equal"
    have "ll_eq l m h = Inr (map snd ns = map snd ms)"
      by (rule ll_eq_correct [OF l m lst_frame_chain [OF l lstD(1) [OF m]]])
    then show ?thesis using list_repI [OF al l h] unfolding op Cons list_step.simps list.case
      by (auto simp: xss Cons intro!: refines_ok)
  next
    assume op: "op = CloneFrom cl"
    have d: "drop_seq quiet () (drop (length ms) (map snd ns)) = (True, (), [])" by (simp add: drop_seq_quiet)
    have "refines True (list_rep al) (perform (no_state (ll_clone_from quiet al cl m)) (\<lambda>_ ls. (Done, ls)) (l, m # ls', h))
        (list_spec op (map snd ns, xss))"
      by (rule perform_refines_wpa, rule wpa_no_state, rule wpa_clone_from [OF al l m d])
        (use h in \<open>auto simp: op xss Cons intro!: list_repI [OF al] simp del: holds.simps\<close>)
    then show ?thesis by (simp add: op Cons)
  qed
qed

lemma list_client_refines:
  assumes al: "fresh_boxes al" and l: "lst l ns F h" and h: "holds ls xss F"
    and op: "op = New \<or> op = Exchange k"
  shows "refines g (list_rep al) (list_step al op (l, ls, h)) (list_spec op (map snd ns, xss))"
proof -
  have all: "holds (l # ls) (map snd ns # xss) h" by (rule holds_ConsI [OF l h refl])
  have n: "length xss = length ls" using holds_length [OF h] .
  from op show ?thesis
  proof
    assume op: "op = New"
    have "holds (ll_new # ls) ([] # xss) F" by (rule holds_ConsI [OF lst_new h]) simp
    then show ?thesis using list_repI [OF al l] by (auto simp: op simp del: holds.simps intro!: refines_ok)
  next
    assume op: "op = Exchange k"
    show ?thesis
    proof (cases "k < length ls")
      case True
      from holds_exchange [OF all True] show ?thesis using True n al
        unfolding op by (auto simp: list_rep_def simp del: holds.simps intro!: refines_ok)
    next
      case False
      then show ?thesis using list_repI [OF al l h] n by (auto simp: op intro!: refines_ok)
    qed
  qed
qed

lemma run_cursor_refines:
  assumes "cursor_rep al (mk l, ls, h) z"
  shows "refines (\<exists>op \<in> set ops. cursor_grows op) (list_rep al) (run_cursor al mk ops (l, ls, h))
    (zipper_result (run_steps cursor_spec ops z))"
proof -
  have done_rep: "list_rep al (cu_list c, ls, h) (xs @ ys, zss)" if "cursor_rep al (c, ls, h) ((xs, ys), zss)"
    for c ls h xs ys zss
    using that by (auto simp: cursor_rep_def intro!: list_repI dest: curD(1))
  let ?g = "\<exists>op \<in> set ops. cursor_grows op" and ?m = "run_steps (cursor_step al) ops (mk l, ls, h)"
  from cursor.run_refines [OF assms, of ops]
  consider "?g" "reserve_fails ?m"
    | msg where "run_steps cursor_spec ops z = Inl msg" "?m = Inl (Panic msg)"
    | outs xs ys zss c ls' h' where "run_steps cursor_spec ops z = Inr (outs, ((xs, ys), zss))"
        "?m = Inr (outs, (c, ls', h'))" "cursor_rep al (c, ls', h') ((xs, ys), zss)"
    unfolding refines_def by (auto split: sum.splits)
  then show ?thesis
  proof cases
    case 1
    then have "reserve_fails (run_cursor al mk ops (l, ls, h))"
      by (simp add: run_cursor_def reserve_fails_and_then)
    with 1 show ?thesis by blast
  next
    case 2
    then show ?thesis by (auto simp: run_cursor_def zipper_result_def)
  next
    case 3
    then show ?thesis using done_rep [OF 3(3)]
      by (auto simp: run_cursor_def zipper_result_def intro!: refines_ok)
  qed
qed

lemma list_cursor_refines:
  assumes al: "fresh_boxes al" and l: "lst l ns F h" and h: "holds ls xss F"
    and op: "op = CursorFront ops \<or> op = CursorBack ops"
  shows "refines (list_grows op) (list_rep al) (list_step al op (l, ls, h)) (list_spec op (map snd ns, xss))"
  using op
proof
  assume op: "op = CursorFront ops"
  have "cursor_rep al (cursor_front_mut l, ls, h) (([], map snd ns), xss)"
    using cursor_repI [OF al cur_start [OF l] h] by simp
  from run_cursor_refines [where mk = cursor_front_mut, OF this] show ?thesis by (simp add: op)
next
  assume op: "op = CursorBack ops"
  have "cursor_rep al (cursor_back_mut l, ls, h)
      (if map snd ns = [] then (([], []), xss) else ((butlast (map snd ns), [last (map snd ns)]), xss))"
  proof (cases ns rule: rev_cases)
    case Nil
    then show ?thesis using cursor_repI [OF al cur_end(1) [OF l] h] by simp
  next
    case (snoc ns' n)
    then show ?thesis using cursor_repI [OF al cur_end(2) [OF l snoc] h] by simp
  qed
  from run_cursor_refines [where mk = cursor_back_mut, OF this] show ?thesis by (simp add: op)
qed

lemma list_step_refines:
  assumes "list_rep al s a"
  shows "refines (list_grows op) (list_rep al) (list_step al op s) (list_spec op a)"
proof -
  obtain l ls h ns xss F where s: "s = (l, ls, h)" "a = (map snd ns, xss)"
    and al: "fresh_boxes al" and l: "lst l ns F h" and h: "holds ls xss F"
    using assms unfolding list_rep_def by (cases s; cases a) auto
  show ?thesis unfolding s
    by (cases op) ((rule list_grow_refines [OF al l h], blast) | (rule list_cut_refines [OF al l h], blast)
      | (rule list_closure_refines [OF al l h], blast) | (rule list_pair_refines [OF al l h], blast)
      | (rule list_client_refines [OF al l h], blast) | (rule list_cursor_refines [OF al l h], blast)
      | (rule list_end_refines [OF al l h], force))+
qed

interpretation lists: container "list_rep al" "list_step al" list_spec list_grows
  for al
  by unfold_locales (rule list_step_refines)

section \<open>Properties\<close>

text \<open>An allocator with room for eight nodes, at the addresses 1 to 8.\<close>

definition eight_boxes :: "'a box_alloc" where
  "eight_boxes h = find (\<lambda>p. h p = None) [1..<9]"

lemma eight_boxes_fresh: "fresh_boxes eight_boxes"
  by (auto simp: fresh_boxes_def eight_boxes_def find_Some_iff usize_max_def)

lemma list_start: "fresh_boxes al \<Longrightarrow> list_rep al (ll_new, [], Map.empty) ([], [])"
  by (rule list_repI [OF _ lst_new]) simp_all

text \<open>
  C9: a \<open>LinkedList\<close> is a list, and its cursors are positions in it. Whatever operations a client
  runs on its list and on other lists in the same store (pushing, popping, searching, appending,
  splitting, removing, retaining, comparing, cloning, exchanging lists, and whole scripts of cursor
  operations with splices and splits), the outcome is the one the list semantics \<open>list_spec\<close> gives,
  panics included; the only other outcome is a failed allocation, when some operation may allocate.
  In particular no node is used after it was freed, and no dangling link is followed.
\<close>

theorem linked_list_refines_list:
  assumes "fresh_boxes al"
  shows "refines (\<exists>op \<in> set ops. list_grows op) (list_rep al)
    (run_steps (list_step al) ops (ll_new, [], Map.empty)) (run_steps list_spec ops ([], []))"
  by (rule lists.run_refines [OF list_start [OF assms]])

theorem linked_list_refines_list_witness:
  "refines True (list_rep eight_boxes)
     (run_steps (list_step eight_boxes)
        [PushBack 10, PushBack 20, PushBack (30::nat), SplitOff 1,
         CursorFront [MoveNext, SpliceAfter, MovePrev, Current], ToList]
        (ll_new, [], Map.empty))
     (Inr ([Done, Done, Done, Done, Trace [Done, Done, Done, Elem (Some 10)], Elems [20, 30, 10]], ([20, 30, 10], [])))"
  using linked_list_refines_list [OF eight_boxes_fresh, of
      "[PushBack 10, PushBack 20, PushBack (30::nat), SplitOff 1,
         CursorFront [MoveNext, SpliceAfter, MovePrev, Current], ToList]"]
  by (simp add: zipper_result_def hd_opt_def)


text \<open>
  C10: nothing leaks and the counters are right. In every state a client can reach, the store holds
  exactly one node for each element of each list, the sum of the lengths is the number of nodes, the
  length is in range (the addition in \<open>push\<close> cannot overflow), and head and tail are both empty
  exactly when the length is zero.
\<close>

theorem linked_list_well_formed:
  assumes al: "fresh_boxes al"
    and run: "run_steps (list_step al) ops (ll_new, [], Map.empty) = Inr (outs, (l, ls, h))"
  shows "finite (dom h) \<and> card (dom h) = ll_len l + sum_list (map ll_len ls) \<and> ll_len l \<le> usize_max \<and>
    (ll_head l = None \<longleftrightarrow> ll_len l = 0) \<and> (ll_tail l = None \<longleftrightarrow> ll_len l = 0)"
proof -
  obtain xs xss where "holds (l # ls) (xs # xss) h"
    using lists.run_refines [OF list_start [OF al], of ops] run
    by (auto simp: refines_def reserve_fails_def list_rep_def simp del: holds.simps split: sum.splits)
  note all = this holds_card [OF this]
  then obtain ns F where l: "lst l ns F h" by auto
  show ?thesis using all(2) lstD(4-6) [OF l] lst_len_bound [OF l] first_None [of ns] final_None [of ns]
    by auto
qed

theorem linked_list_well_formed_witness:
  "\<exists>outs l ls h. run_steps (list_step eight_boxes) [PushBack (10::nat), PushFront 20, SplitOff 1]
      (ll_new, [], Map.empty) = Inr (outs, (l, ls, h)) \<and>
    card (dom h) = ll_len l + sum_list (map ll_len ls) \<and> ll_len l = 1"
proof -
  let ?m = "run_steps (list_step eight_boxes) [PushBack (10::nat), PushFront 20, SplitOff 1] (ll_new, [], Map.empty)"
  have "case ?m of Inl _ \<Rightarrow> False | Inr (outs, (l, ls, h)) \<Rightarrow> ll_len l = 1" by code_simp
  then obtain outs l ls h where m: "?m = Inr (outs, (l, ls, h))" "ll_len l = 1"
    by (auto split: sum.splits prod.splits)
  then show ?thesis using linked_list_well_formed [OF eight_boxes_fresh m(1)] by blast
qed

text \<open>
  C11: dropping a \<open>LinkedList\<close> frees every node even when a destructor panics. The destructors run
  from the front; when the first panic comes the guard goes on with the elements that are left, and
  the panic continues with the store rid of all nodes of the list; a second panic aborts.
\<close>

theorem linked_list_drop:
  assumes "lst l ns F h"
  shows "\<exists>l'. lst l' [] F F \<and>
    ll_drop d (c, l, h) =
      (case drop_seq d c (map snd ns) of (ok, c', ys) \<Rightarrow>
         if ok then Inr (Some (), (c', l', F))
         else (case drop_seq d c' ys of (ok', c'', _) \<Rightarrow>
                 if ok' then Inr (None, (c'', l', F)) else Inl Abort))"
  by (rule ll_drop_result [OF assms])

text \<open>A concrete list of three nodes beside a node of someone else, and a destructor that logs the
  element and panics on some.\<close>

definition three_nodes :: "nat store" where
  "three_nodes = [1 \<mapsto> \<lparr>nd_next = Some 5, nd_prev = None, nd_elem = 10\<rparr>,
     5 \<mapsto> \<lparr>nd_next = Some 3, nd_prev = Some 1, nd_elem = 20\<rparr>,
     3 \<mapsto> \<lparr>nd_next = None, nd_prev = Some 5, nd_elem = 30\<rparr>,
     9 \<mapsto> node_new 90]"

definition three_list :: linked_list where
  "three_list = \<lparr>ll_head = Some 1, ll_tail = Some 3, ll_len = 3\<rparr>"

lemma three_lst: "lst three_list [(1, 10), (5, 20), (3, 30)] [9 \<mapsto> node_new 90] three_nodes"
  by (rule lstI) (auto simp: three_list_def three_nodes_def usize_max_def final_def)

definition logging :: "nat list \<Rightarrow> (nat list, nat) glue" where
  "logging bad c x = (x \<notin> set bad, c @ [x])"

theorem linked_list_drop_witness:
  "\<exists>l'. ll_drop (logging [10]) ([], three_list, three_nodes) =
     Inr (None, ([10, 20, 30], l', [9 \<mapsto> node_new 90]))"
  using linked_list_drop [OF three_lst, of "logging [10]" "[]"] by (auto simp: logging_def)

text \<open>
  C15: \<open>retain\<close> with a closure that changes elements and panics, on elements whose destructors panic.
  In every case the list it leaves is well formed: on a panic of the closure the element it was
  looking at and all after it stay, on a panic of a destructor the element is gone and all after it
  stay, and the elements accepted before are there in order.
\<close>

theorem linked_list_retain_panic_safe:
  assumes "lst l ns F h"
  shows "case retain_seq f d c (map snd ns) of (ok, c', ys) \<Rightarrow>
    \<exists>l' ks h'. ll_retain f d (c, l, h) = Inr (if ok then Some () else None, (c', l', h')) \<and>
      lst l' ks F h' \<and> map snd ks = ys"
proof -
  obtain ok c' ys where r: "retain_seq f d c (map snd ns) = (ok, c', ys)" by (metis prod_cases3)
  let ?Q = "\<lambda>s. \<exists>l' ks h'. s = (c', l', h') \<and> lst l' ks F h' \<and> map snd ks = ys"
  have "wp (ll_retain f d) (\<lambda>_ s. ok \<and> ?Q s) (\<lambda>s. \<not> ok \<and> ?Q s) (c, l, h)"
    by (rule wp_retain [OF assms r]) auto
  then show ?thesis unfolding r by (auto elim!: wp_Inr)
qed

definition picky :: "(nat list, nat) visitor" where
  "picky c x = (if x = 30 then None else Some (x \<noteq> 10), x + 1, c @ [x])"

theorem linked_list_retain_panic_safe_witness:
  "\<exists>l' ks h'. ll_retain picky (logging []) ([], three_list, three_nodes) =
      Inr (None, ([10, 11, 20, 30], l', h')) \<and>
    lst l' ks [9 \<mapsto> node_new 90] h' \<and> map snd ks = [21, 31]"
  using linked_list_retain_panic_safe [OF three_lst, of picky "logging []" "[]"]
  by (simp add: logging_def picky_def)

end
