(* ===== verification/Futex.thy ===== *)
theory Futex
  imports Rust_Prelude
begin

text \<open>
  The setting of the futex-based locks of \<open>std/src/sys/sync\<close>: threads that share a 32-bit atomic
  and the calls \<open>futex_wait\<close> and \<open>futex_wake\<close> of \<open>sys/pal/unix/futex.rs\<close>. A thread's position in
  the code is a program counter with its local variables; an access to the atomic is one step.
  Accesses to one atomic are totally ordered whatever their \<open>Ordering\<close>, so a system with a single
  atomic is modelled exactly; for two atomics the model assumes sequential consistency.
\<close>

type_synonym tid = nat
type_synonym u32 = "32 word"

section \<open>Waiting\<close>

text \<open>The positions inside \<open>futex_wait\<close>: before the load, before the system call, asleep in the
  kernel. \<open>wait_act\<close> gives the next position for the value now in the atomic, \<open>None\<close> when the
  function returns. The system call compares and falls asleep in one step; an interrupted call
  (\<open>EINTR\<close>) goes back to the load.\<close>

datatype wait_pc = Check | Call | Asleep

fun wait_act :: "u32 \<Rightarrow> wait_pc \<Rightarrow> u32 \<Rightarrow> wait_pc option" where
  "wait_act expected Check w = (if w \<noteq> expected then None else Some Call)"
| "wait_act expected Call w = (if w \<noteq> expected then None else Some Asleep)"
| "wait_act expected Asleep w = Some Asleep"

text \<open>What the kernel does is an argument of the systems: \<open>wakes B W\<close> says that \<open>FUTEX_WAKE\<close> may wake
  the threads \<open>W\<close> when \<open>B\<close> are asleep on the atomic. Its documentation promises that a wake-up is
  not lost when somebody is asleep; a wake-up of all sleepers reaches all of them.\<close>

definition wakes_some :: "(tid set \<Rightarrow> tid set \<Rightarrow> bool) \<Rightarrow> bool" where
  "wakes_some wakes \<longleftrightarrow>
     (\<forall>B. \<exists>W. wakes B W) \<and> (\<forall>B W. wakes B W \<longrightarrow> W \<subseteq> B \<and> (B \<noteq> {} \<longrightarrow> W \<noteq> {}))"

definition wakes_everyone :: "(tid set \<Rightarrow> tid set \<Rightarrow> bool) \<Rightarrow> bool" where
  "wakes_everyone wakes \<longleftrightarrow> (\<forall>B W. wakes B W \<longleftrightarrow> W = B)"

lemma wakes_someD:
  assumes "wakes_some wakes"
  shows "\<exists>W. wakes B W" "wakes B W \<Longrightarrow> W \<subseteq> B" "wakes B W \<Longrightarrow> B \<noteq> {} \<Longrightarrow> W \<noteq> {}"
  using assms unfolding wakes_some_def by blast+

lemma wakes_some_eq [simp]: "wakes_some (=)"
  by (simp add: wakes_some_def)

lemma wakes_everyone_eq [simp]: "wakes_everyone (=)"
  by (auto simp: wakes_everyone_def)

section \<open>Systems of threads\<close>

record 'p machine =
  atomic :: u32
  pcs :: "tid \<Rightarrow> 'p"

definition at_pc :: "('p, 'x) machine_scheme \<Rightarrow> ('p \<Rightarrow> bool) \<Rightarrow> tid set" where
  "at_pc s P = {t. P (pcs s t)}"

lemma at_pc_iff [simp]: "t \<in> at_pc s P \<longleftrightarrow> P (pcs s t)"
  by (simp add: at_pc_def)

text \<open>An invariant of a transition system, and its use on the reachable states.\<close>

locale transition_system =
  fixes start :: 's
    and step :: "'s \<Rightarrow> 's \<Rightarrow> bool"
    and inv :: "'s \<Rightarrow> bool"
  assumes inv_start: "inv start"
    and inv_step: "inv s \<Longrightarrow> step s s' \<Longrightarrow> inv s'"
begin

lemma reachable_inv:
  assumes "step\<^sup>*\<^sup>* start s"
  shows "inv s"
  using assms by (induction rule: rtranclp_induct) (auto intro: inv_start inv_step)

lemma reachable_step_inv: "step\<^sup>*\<^sup>* start s \<Longrightarrow> step s s' \<Longrightarrow> inv s'"
  using reachable_inv inv_step by blast

end

end
