(* ===== verification/Futex_Mutex.thy ===== *)
theory Futex_Mutex
  imports Futex
begin

text \<open>
  The futex mutex of \<open>std/src/sys/sync/mutex/futex.rs\<close> as a system of any number of threads that
  lock, try to lock and unlock it: mutual exclusion, and no lost wake-up.
\<close>

section \<open>The code\<close>

definition UNLOCKED :: u32 where "UNLOCKED = 0"
definition LOCKED :: u32 where "LOCKED = 1"
definition CONTENDED :: u32 where "CONTENDED = 2"

lemma mutex_states_distinct [simp]:
  "UNLOCKED \<noteq> LOCKED" "LOCKED \<noteq> UNLOCKED" "UNLOCKED \<noteq> CONTENDED" "CONTENDED \<noteq> UNLOCKED"
  "LOCKED \<noteq> CONTENDED" "CONTENDED \<noteq> LOCKED"
  by (simp_all add: UNLOCKED_def LOCKED_def CONTENDED_def)

text \<open>The program counters: outside and inside the critical section; before the atomic access of
  \<open>try_lock\<close>, \<open>lock\<close> and \<open>unlock\<close>; in \<open>lock_contended\<close>, in the first or a later \<open>spin\<close> with the
  number of rounds left, before the second \<open>compare_exchange\<close>, before \<open>swap(CONTENDED)\<close>, in
  \<open>futex_wait\<close>; and before \<open>futex_wake\<close>.\<close>

datatype mutex_pc =
  Outside | Inside | TryLock | Lock | Spin bool nat | Retry | Mark | Wait wait_pc | Unlock | Wake

text \<open>The top of the loop in \<open>lock_contended\<close>, and what follows a spin that ends with a state.\<close>

definition contended_loop :: "u32 \<Rightarrow> mutex_pc" where
  "contended_loop state = (if state \<noteq> CONTENDED then Mark else Wait Check)"

definition spin_ends :: "bool \<Rightarrow> u32 \<Rightarrow> mutex_pc" where
  "spin_ends first state = (if first \<and> state = UNLOCKED then Retry else contended_loop state)"

text \<open>The step of a thread at a program counter that reads \<open>w\<close> in the atomic: its next program
  counter and the value it leaves. \<open>None\<close> when the client, or the kernel, decides.\<close>

fun mutex_act :: "mutex_pc \<Rightarrow> u32 \<Rightarrow> (mutex_pc \<times> u32) option" where
  "mutex_act TryLock w = Some (if w = UNLOCKED then (Inside, LOCKED) else (Outside, w))"
| "mutex_act Lock w = Some (if w = UNLOCKED then (Inside, LOCKED) else (Spin True 100, w))"
| "mutex_act (Spin first n) w =
     Some (if w \<noteq> LOCKED \<or> n = 0 then spin_ends first w else Spin first (n - 1), w)"
| "mutex_act Retry w = Some (if w = UNLOCKED then (Inside, LOCKED) else (contended_loop w, w))"
| "mutex_act Mark w = Some (if w = UNLOCKED then Inside else Wait Check, CONTENDED)"
| "mutex_act (Wait p) w =
     (if p = Asleep then None
      else Some (case wait_act CONTENDED p w of None \<Rightarrow> Spin False 100 | Some p \<Rightarrow> Wait p, w))"
| "mutex_act Unlock w = Some (if w = CONTENDED then Wake else Outside, UNLOCKED)"
| "mutex_act Outside w = None"
| "mutex_act Inside w = None"
| "mutex_act Wake w = None"

definition mutex_new :: "mutex_pc machine" where
  "mutex_new = \<lparr>atomic = UNLOCKED, pcs = \<lambda>_. Outside\<rparr>"

text \<open>The steps inside the mutex code, and those of the clients.\<close>

inductive mutex_internal ::
  "(tid set \<Rightarrow> tid set \<Rightarrow> bool) \<Rightarrow> mutex_pc machine \<Rightarrow> mutex_pc machine \<Rightarrow> bool"
  for wakes where
  act: "mutex_act (pcs s t) (atomic s) = Some (p, w) \<Longrightarrow>
    mutex_internal wakes s (s\<lparr>atomic := w, pcs := (pcs s)(t := p)\<rparr>)"
| interrupt: "pcs s t = Wait Asleep \<Longrightarrow>
    mutex_internal wakes s (s\<lparr>pcs := (pcs s)(t := Wait Check)\<rparr>)"
| wake: "pcs s t = Wake \<Longrightarrow> wakes (at_pc s (\<lambda>p. p = Wait Asleep)) W \<Longrightarrow>
    mutex_internal wakes s
      (s\<lparr>pcs := (\<lambda>u. if u = t then Outside else if u \<in> W then Spin False 100 else pcs s u)\<rparr>)"

inductive mutex_step ::
  "(tid set \<Rightarrow> tid set \<Rightarrow> bool) \<Rightarrow> mutex_pc machine \<Rightarrow> mutex_pc machine \<Rightarrow> bool"
  for wakes where
  internal: "mutex_internal wakes s s' \<Longrightarrow> mutex_step wakes s s'"
| call_lock: "pcs s t = Outside \<Longrightarrow> mutex_step wakes s (s\<lparr>pcs := (pcs s)(t := Lock)\<rparr>)"
| call_try_lock: "pcs s t = Outside \<Longrightarrow> mutex_step wakes s (s\<lparr>pcs := (pcs s)(t := TryLock)\<rparr>)"
| call_unlock: "pcs s t = Inside \<Longrightarrow> mutex_step wakes s (s\<lparr>pcs := (pcs s)(t := Unlock)\<rparr>)"

section \<open>The invariant\<close>

text \<open>A thread owns the mutex inside the critical section and until it has unlocked it. A helper is
  a thread that will wake a sleeper, or will leave the mutex marked as contended.\<close>

definition owns :: "mutex_pc \<Rightarrow> bool" where
  "owns p \<longleftrightarrow> p = Inside \<or> p = Unlock"

fun helps :: "mutex_pc \<Rightarrow> bool" where
  "helps Wake = True"
| "helps (Spin first n) = (\<not> first)"
| "helps Mark = True"
| "helps (Wait p) = (p \<noteq> Asleep)"
| "helps _ = False"

definition mutex_ok :: "u32 \<Rightarrow> (tid \<Rightarrow> mutex_pc) \<Rightarrow> bool" where
  "mutex_ok w ps \<longleftrightarrow>
     w \<in> {UNLOCKED, LOCKED, CONTENDED} \<and>
     (\<forall>t u. owns (ps t) \<longrightarrow> owns (ps u) \<longrightarrow> t = u) \<and>
     (w = UNLOCKED \<longleftrightarrow> (\<forall>t. \<not> owns (ps t))) \<and>
     ((\<exists>t. ps t = Wait Asleep) \<longrightarrow> w = CONTENDED \<or> (\<exists>u. helps (ps u)))"

abbreviation mutex_inv :: "mutex_pc machine \<Rightarrow> bool" where
  "mutex_inv s \<equiv> mutex_ok (atomic s) (pcs s)"

lemma mutex_okD:
  assumes "mutex_ok w ps"
  shows "w = UNLOCKED \<or> w = LOCKED \<or> w = CONTENDED"
    and "owns (ps t) \<Longrightarrow> owns (ps u) \<Longrightarrow> t = u"
    and "w = UNLOCKED \<longleftrightarrow> (\<forall>t. \<not> owns (ps t))"
    and "ps t = Wait Asleep \<Longrightarrow> w = CONTENDED \<or> (\<exists>u. helps (ps u))"
  using assms unfolding mutex_ok_def by blast+

lemma mutex_okI:
  assumes "w = UNLOCKED \<or> w = LOCKED \<or> w = CONTENDED"
    and "\<And>t u. owns (ps t) \<Longrightarrow> owns (ps u) \<Longrightarrow> t = u"
    and "w = UNLOCKED \<longleftrightarrow> (\<forall>t. \<not> owns (ps t))"
    and "\<And>t. ps t = Wait Asleep \<Longrightarrow> w = CONTENDED \<or> (\<exists>u. helps (ps u))"
  shows "mutex_ok w ps"
  using assms unfolding mutex_ok_def by blast

lemma owns_simps [simp]:
  "owns Inside" "owns Unlock" "\<not> owns Outside" "\<not> owns TryLock" "\<not> owns Lock" "\<not> owns Retry"
  "\<not> owns Mark" "\<not> owns (Wait q)" "\<not> owns Wake" "\<not> owns (Spin b n)"
  by (simp_all add: owns_def)

lemma contended_loop_simps [simp]:
  "\<not> owns (contended_loop w)" "contended_loop w \<noteq> Wait Asleep" "helps (contended_loop w)"
  by (simp_all add: contended_loop_def)

lemma spin_ends_simps [simp]:
  "\<not> owns (spin_ends f w)" "spin_ends f w \<noteq> Wait Asleep" "helps (spin_ends False w)"
  by (simp_all add: spin_ends_def)


text \<open>A step of one thread keeps the invariant when it keeps these links between the thread's
  ownership, its readiness to help and the atomic.\<close>

lemma mutex_ok_update:
  assumes ok: "mutex_ok a ps"
    and w: "w = UNLOCKED \<or> w = LOCKED \<or> w = CONTENDED"
    and own: "owns p \<Longrightarrow> owns (ps t) \<or> a = UNLOCKED"
    and free: "w = UNLOCKED \<longleftrightarrow> \<not> owns p \<and> (owns (ps t) \<or> a = UNLOCKED)"
    and lost: "a = CONTENDED \<Longrightarrow> w = CONTENDED \<or> helps p"
    and sleep: "p = Wait Asleep \<Longrightarrow> w = CONTENDED"
    and helper: "helps (ps t) \<Longrightarrow> helps p \<or> w = CONTENDED"
  shows "mutex_ok w (ps(t := p))"
proof (rule mutex_okI [OF w])
  note ok = mutex_okD [OF ok]
  show "u = v" if "owns ((ps(t := p)) u)" "owns ((ps(t := p)) v)" for u v
    using that ok(2) [of u v] ok(2) [of u t] ok(2) [of t v] own ok(3)
    by (cases "u = t"; cases "v = t") auto
  show "w = UNLOCKED \<longleftrightarrow> (\<forall>u. \<not> owns ((ps(t := p)) u))"
  proof
    assume "w = UNLOCKED"
    then show "\<forall>u. \<not> owns ((ps(t := p)) u)" using free ok(2) [of t] ok(3) by auto
  next
    assume no: "\<forall>u. \<not> owns ((ps(t := p)) u)"
    then have "\<not> owns p" using fun_upd_same by metis
    moreover have "owns (ps t) \<or> a = UNLOCKED" using no ok(3) by (metis fun_upd_other)
    ultimately show "w = UNLOCKED" using free by blast
  qed
  show "w = CONTENDED \<or> (\<exists>v. helps ((ps(t := p)) v))" if a: "(ps(t := p)) u = Wait Asleep" for u
  proof (cases "u = t")
    case True
    then show ?thesis using a sleep by simp
  next
    case False
    then have "a = CONTENDED \<or> (\<exists>u. helps (ps u))" using a ok(4) [of u] by simp
    then show ?thesis
    proof
      assume "a = CONTENDED"
      then show ?thesis using lost by (metis fun_upd_same)
    next
      assume "\<exists>u. helps (ps u)"
      then show ?thesis using helper by (metis fun_upd_apply)
    qed
  qed
qed

lemma mutex_act_ok:
  assumes ok: "mutex_ok a ps" and act: "mutex_act (ps t) a = Some (p, w)"
  shows "mutex_ok w (ps(t := p))"
proof -
  note a = mutex_okD(1) [OF ok]
  have own: "owns (ps t) \<Longrightarrow> a \<noteq> UNLOCKED" using mutex_okD(3) [OF ok] by blast
  note upd = mutex_ok_update [OF ok]
  show ?thesis
  proof (cases "ps t")
    case (Spin first n)
    then show ?thesis using act a
      by (intro upd) (auto simp: spin_ends_def contended_loop_def split: if_splits)
  next
    case (Wait q)
    then show ?thesis using act a by (cases q; intro upd) (auto split: if_splits)
  next
    case Unlock
    then show ?thesis using act a own by (intro upd) (auto split: if_splits)
  next
    case Retry
    then show ?thesis using act a
      by (intro upd) (auto simp: contended_loop_def split: if_splits)
  qed (use act a in \<open>(simp; fail) | (intro upd; auto split: if_splits)\<close>)+
qed

lemma mutex_stay_ok:
  assumes "mutex_ok a ps" "owns p = owns (ps t)" "p \<noteq> Wait Asleep" "\<not> helps (ps t)"
  shows "mutex_ok a (ps(t := p))"
  using assms mutex_okD(3) [OF assms(1)] mutex_okD(1) [OF assms(1)]
  by (intro mutex_ok_update) auto

lemma mutex_wake_ok:
  assumes ok: "mutex_ok a ps" and t: "ps t = Wake"
    and W: "W \<subseteq> {u. ps u = Wait Asleep}" "{u. ps u = Wait Asleep} \<noteq> {} \<Longrightarrow> W \<noteq> {}"
  shows "mutex_ok a (\<lambda>u. if u = t then Outside else if u \<in> W then Spin False 100 else ps u)"
    (is "mutex_ok a ?p")
proof (rule mutex_okI)
  note ok = mutex_okD [OF ok]
  have own: "owns (?p u) = owns (ps u)" for u using W(1) t by auto
  show "a = UNLOCKED \<or> a = LOCKED \<or> a = CONTENDED" by (rule ok(1))
  show "owns (?p u) \<Longrightarrow> owns (?p v) \<Longrightarrow> u = v" for u v unfolding own by (rule ok(2))
  show "a = UNLOCKED \<longleftrightarrow> (\<forall>u. \<not> owns (?p u))" unfolding own by (rule ok(3))
  show "a = CONTENDED \<or> (\<exists>u. helps (?p u))" if "?p v = Wait Asleep" for v
  proof -
    have "v \<in> {u. ps u = Wait Asleep}" using that by (auto split: if_splits)
    then obtain u where u: "u \<in> W" using W(2) by blast
    then have "u \<noteq> t" using W(1) t by auto
    then have "helps (?p u)" using u by simp
    then show ?thesis by blast
  qed
qed

lemma mutex_internal_ok: "mutex_internal wakes s s' \<Longrightarrow> wakes_some wakes \<Longrightarrow> mutex_inv s \<Longrightarrow> mutex_inv s'"
proof (induction rule: mutex_internal.induct)
  case (act s t p w)
  show ?case using mutex_act_ok [OF act.prems(2) act.hyps] by (simp del: fun_upd_apply)
next
  case (interrupt s t)
  then show ?case
    using mutex_stay_ok [of "atomic s" "pcs s" "Wait Check" t] by (simp del: fun_upd_apply)
next
  case (wake s t W)
  then show ?case
    using mutex_wake_ok [OF wake.prems(2) wake.hyps(1), of W] wakes_someD(2,3) [OF wake.prems(1) wake.hyps(2)]
    by (simp add: at_pc_def)
qed

lemma mutex_step_ok: "mutex_step wakes s s' \<Longrightarrow> wakes_some wakes \<Longrightarrow> mutex_inv s \<Longrightarrow> mutex_inv s'"
proof (induction rule: mutex_step.induct)
  case (internal s s')
  then show ?case using mutex_internal_ok by blast
next
  case (call_lock s t)
  then show ?case using mutex_stay_ok [of "atomic s" "pcs s" Lock t] by (simp del: fun_upd_apply)
next
  case (call_try_lock s t)
  then show ?case using mutex_stay_ok [of "atomic s" "pcs s" TryLock t] by (simp del: fun_upd_apply)
next
  case (call_unlock s t)
  then show ?case using mutex_stay_ok [of "atomic s" "pcs s" Unlock t] by (simp del: fun_upd_apply)
qed

lemma mutex_new_ok: "mutex_inv mutex_new"
  by (simp add: mutex_ok_def mutex_new_def)


interpretation mutex: transition_system mutex_new "mutex_step wakes" "\<lambda>s. wakes_some wakes \<longrightarrow> mutex_inv s"
  for wakes
proof
  show "wakes_some wakes \<longrightarrow> mutex_inv mutex_new" by (simp add: mutex_new_ok)
  show "wakes_some wakes \<longrightarrow> mutex_inv s'"
    if "wakes_some wakes \<longrightarrow> mutex_inv s" "mutex_step wakes s s'" for s s'
    using that mutex_step_ok by blast
qed

section \<open>Progress\<close>

text \<open>A thread inside \<open>lock\<close>, and one of them that is not asleep.\<close>

fun locking :: "mutex_pc \<Rightarrow> bool" where
  "locking Lock = True"
| "locking (Spin first n) = True"
| "locking Retry = True"
| "locking Mark = True"
| "locking (Wait p) = True"
| "locking _ = False"

definition mutex_act_step :: "tid \<Rightarrow> mutex_pc machine \<Rightarrow> mutex_pc machine" where
  "mutex_act_step t s =
     (case mutex_act (pcs s t) (atomic s) of None \<Rightarrow> s
      | Some (p, w) \<Rightarrow> s\<lparr>atomic := w, pcs := (pcs s)(t := p)\<rparr>)"

lemma mutex_act_step_internal:
  "mutex_act (pcs s t) (atomic s) \<noteq> None \<Longrightarrow> mutex_internal wakes s (mutex_act_step t s)"
  by (auto simp: mutex_act_step_def intro: mutex_internal.act)

text \<open>With the lock free, a thread that is awake takes it in at most three steps of its own.\<close>

lemma mutex_solo:
  assumes free: "atomic s = UNLOCKED" and p: "locking (pcs s t)" "pcs s t \<noteq> Wait Asleep"
  obtains n s' where "n \<le> 3" "(mutex_internal wakes ^^ n) s s'" "pcs s' t = Inside"
proof -
  let ?step = "mutex_act_step t"
  have one: "mutex_internal wakes s' (?step s')" if "mutex_act (pcs s' t) (atomic s') \<noteq> None" for s'
    using that by (rule mutex_act_step_internal)
  have mark: "pcs (?step s') t = Inside" "mutex_internal wakes s' (?step s')"
    if "atomic s' = UNLOCKED" "pcs s' t \<in> {Lock, Retry, Mark}" for s'
    using that one [of s'] by (auto simp: mutex_act_step_def)
  have spin: "atomic (?step s') = UNLOCKED \<and> pcs (?step s') t \<in> {Retry, Mark} \<and>
      mutex_internal wakes s' (?step s')"
    if "atomic s' = UNLOCKED" "pcs s' t = Spin first n" for s' first n
    using that one [of s'] by (auto simp: mutex_act_step_def spin_ends_def contended_loop_def)
  have wait: "atomic (?step s) = UNLOCKED \<and> pcs (?step s) t = Spin False 100 \<and>
      mutex_internal wakes s (?step s)"
    if "pcs s t = Wait q" for q
    using that p free one [of s] by (cases q) (auto simp: mutex_act_step_def)
  consider "pcs s t \<in> {Lock, Retry, Mark}" | first n where "pcs s t = Spin first n" | q where "pcs s t = Wait q"
    using p(1) by (cases "pcs s t") auto
  then show thesis
  proof cases
    case 1
    then show thesis using that [of 1 "?step s"] mark [OF free] by auto
  next
    case 2
    have "pcs (?step (?step s)) t = Inside" "(mutex_internal wakes ^^ 2) s (?step (?step s))"
      using spin [OF free 2] mark [of "?step s"] by (auto simp: numeral_2_eq_2 intro: relcomppI)
    then show thesis using that [of 2] by simp
  next
    case 3
    note w = wait [OF 3]
    have "pcs (?step (?step (?step s))) t = Inside" "(mutex_internal wakes ^^ 3) s (?step (?step (?step s)))"
      using w spin [of "?step s" False 100] mark [of "?step (?step s)"]
      by (auto simp: numeral_3_eq_3 intro: relcomppI)
    then show thesis using that [of 3] by simp
  qed
qed

lemma mutex_progress_ok:
  assumes kernel: "wakes_some wakes" and inv: "mutex_inv s"
    and t: "locking (pcs s t)" and free: "\<forall>u. \<not> owns (pcs s u)"
  obtains n s' u where "n \<le> 4" "(mutex_internal wakes ^^ n) s s'" "pcs s' u = Inside"
proof -
  have unl: "atomic s = UNLOCKED" using mutex_okD(3) [OF inv] free by blast
  show thesis
  proof (cases "pcs s t = Wait Asleep")
    case False
    from mutex_solo [OF unl t False, of wakes] obtain n s' where
      "n \<le> 3" "(mutex_internal wakes ^^ n) s s'" "pcs s' t = Inside" .
    then show thesis using that [of n s' t] by simp
  next
    case True
    then obtain u where u: "helps (pcs s u)" using mutex_okD(4) [OF inv True] unl by auto
    show thesis
    proof (cases "pcs s u = Wake")
      case False
      then have "locking (pcs s u)" "pcs s u \<noteq> Wait Asleep" using u by (cases "pcs s u"; auto)+
      from mutex_solo [OF unl this, of wakes] obtain n s' where
        "n \<le> 3" "(mutex_internal wakes ^^ n) s s'" "pcs s' u = Inside" .
      then show thesis using that [of n s' u] by simp
    next
      case wk: True
      let ?B = "at_pc s (\<lambda>p. p = Wait Asleep)"
      obtain W where W: "wakes ?B W" using wakes_someD(1) [OF kernel] by blast
      have "W \<subseteq> ?B" "?B \<noteq> {} \<longrightarrow> W \<noteq> {}" using wakes_someD(2,3) [OF kernel W] by blast+
      moreover have "t \<in> ?B" using True by simp
      ultimately obtain v where v: "v \<in> W" "v \<in> ?B" by blast
      let ?s = "s\<lparr>pcs := \<lambda>v. if v = u then Outside else if v \<in> W then Spin False 100 else pcs s v\<rparr>"
      have "mutex_internal wakes s ?s" by (rule mutex_internal.wake) (rule wk, rule W)
      moreover have "atomic ?s = UNLOCKED" "locking (pcs ?s v)" "pcs ?s v \<noteq> Wait Asleep"
        using unl v wk by auto
      from mutex_solo [OF this, of wakes] obtain n s' where
        "n \<le> 3" "(mutex_internal wakes ^^ n) ?s s'" "pcs s' v = Inside" .
      ultimately have "(mutex_internal wakes ^^ Suc n) s s'" "n \<le> 3" "pcs s' v = Inside"
        by (simp_all only: relpowp_Suc_I2)
      then show thesis using that [of "Suc n" s' v] by (simp del: relpowp.simps)
    qed
  qed
qed

section \<open>Properties\<close>

text \<open>A run: thread 0 takes the lock, thread 1 finds it locked, thread 0 unlocks.\<close>

definition sample_held :: "mutex_pc machine" where
  "sample_held = \<lparr>atomic = LOCKED, pcs = (\<lambda>_. Outside)(0 := Inside, 1 := Spin True 100)\<rparr>"

definition sample_free :: "mutex_pc machine" where
  "sample_free = \<lparr>atomic = UNLOCKED, pcs = (\<lambda>_. Outside)(1 := Spin True 100)\<rparr>"

lemma mutex_step_act:
  "mutex_act (pcs s t) (atomic s) = Some (p, w) \<Longrightarrow> s' = s\<lparr>atomic := w, pcs := (pcs s)(t := p)\<rparr> \<Longrightarrow>
    mutex_step wakes s s'"
  by (auto intro: mutex_step.internal mutex_internal.act)

lemma sample_held_reachable: "(mutex_step wakes)\<^sup>*\<^sup>* mutex_new sample_held"
proof -
  let ?s1 = "\<lparr>atomic = UNLOCKED, pcs = (\<lambda>_. Outside)(0 := Lock)\<rparr>"
  let ?s2 = "\<lparr>atomic = LOCKED, pcs = (\<lambda>_. Outside)(0 := Inside)\<rparr>"
  let ?s3 = "\<lparr>atomic = LOCKED, pcs = (\<lambda>_. Outside)(0 := Inside, 1 := Lock)\<rparr>"
  have "mutex_step wakes mutex_new ?s1"
    using mutex_step.call_lock [of mutex_new 0] by (simp add: mutex_new_def)
  moreover have "mutex_step wakes ?s1 ?s2"
    by (rule mutex_step_act [of _ 0 Inside LOCKED]) simp_all
  moreover have "mutex_step wakes ?s2 ?s3"
    using mutex_step.call_lock [of ?s2 1] by (simp add: fun_upd_twist)
  moreover have "mutex_step wakes ?s3 sample_held"
    by (rule mutex_step_act [of _ 1 "Spin True 100" LOCKED]) (simp_all add: sample_held_def)
  ultimately show ?thesis by (meson converse_rtranclp_into_rtranclp rtranclp.rtrancl_refl)
qed

lemma sample_free_reachable: "(mutex_step wakes)\<^sup>*\<^sup>* mutex_new sample_free"
proof -
  let ?s5 = "\<lparr>atomic = LOCKED, pcs = (\<lambda>_. Outside)(0 := Unlock, 1 := Spin True 100)\<rparr>"
  have "mutex_step wakes sample_held ?s5"
    using mutex_step.call_unlock [of sample_held 0] by (simp add: sample_held_def fun_upd_twist)
  moreover have "mutex_step wakes ?s5 sample_free"
    by (rule mutex_step_act [of _ 0 Outside UNLOCKED])
      (auto simp: sample_free_def fun_upd_def)
  ultimately show ?thesis
    using sample_held_reachable by (meson rtranclp.rtrancl_into_rtrancl)
qed

text \<open>
  C31: mutual exclusion. In every state the threads can reach, in any interleaving of their atomic
  accesses and whatever the kernel's wake-ups, at most one thread is in the critical section.
\<close>

theorem mutex_exclusion:
  assumes "wakes_some wakes" "(mutex_step wakes)\<^sup>*\<^sup>* mutex_new s"
    and "pcs s t = Inside" "pcs s u = Inside"
  shows "t = u"
proof -
  have "mutex_inv s" using mutex.reachable_inv [OF assms(2)] assms(1) by blast
  then show ?thesis using mutex_okD(2) assms(3,4) by simp
qed

theorem mutex_exclusion_witness: "pcs sample_held 0 = Inside \<and> pcs sample_held 7 \<noteq> Inside"
proof
  show held: "pcs sample_held 0 = Inside" by (simp add: sample_held_def)
  show "pcs sample_held 7 \<noteq> Inside"
    using mutex_exclusion [OF wakes_some_eq sample_held_reachable held, of 7] by auto
qed




end
