(* ===== verification/Futex_Once.thy ===== *)
theory Futex_Once
  imports Futex
begin

unbundle bit_operations_syntax

text \<open>
  The futex \<open>Once\<close> of \<open>std/src/sys/sync/once/futex.rs\<close>: any number of threads that call and wait
  for a one-time initialisation, which may succeed, poison the \<open>Once\<close> or panic.
\<close>

section \<open>The code\<close>

definition INCOMPLETE :: u32 where "INCOMPLETE = 3"
definition POISONED :: u32 where "POISONED = 2"
definition RUNNING :: u32 where "RUNNING = 1"
definition COMPLETE :: u32 where "COMPLETE = 0"
definition QUEUED :: u32 where "QUEUED = 4"
definition STATE_MASK :: u32 where "STATE_MASK = 3"

lemmas once_states = INCOMPLETE_def POISONED_def RUNNING_def COMPLETE_def QUEUED_def STATE_MASK_def

definition once_new :: u32 where
  "once_new = INCOMPLETE"

definition is_completed :: "u32 \<Rightarrow> bool" where
  "is_completed w \<longleftrightarrow> w = COMPLETE"

text \<open>Access through \<open>&mut\<close>: the state as an enum, and setting it.\<close>

datatype once_exclusive_state = StIncomplete | StPoisoned | StComplete

definition once_state :: "u32 \<Rightarrow> once_exclusive_state res" where
  "once_state w =
     (if w = INCOMPLETE then Inr StIncomplete
      else if w = POISONED then Inr StPoisoned
      else if w = COMPLETE then Inr StComplete
      else Inl (Panic ''invalid Once state''))"

fun once_set_state :: "once_exclusive_state \<Rightarrow> u32" where
  "once_set_state StIncomplete = INCOMPLETE"
| "once_set_state StPoisoned = POISONED"
| "once_set_state StComplete = COMPLETE"

text \<open>The two functions that loop, \<open>call\<close> and \<open>wait\<close>, with their argument \<open>ignore_poisoning\<close>; and the
  program counters: before the load, at the top of the loop with the local \<open>state_and_queued\<close>, in
  \<open>futex_wait\<close>, running the closure (which is told whether the \<open>Once\<close> was poisoned), before the swap
  of the completion guard (the state to set; whether it is dropped by unwinding), and before
  \<open>futex_wake_all\<close>. A call ends by returning (having set the poisoned state itself, or not) or by
  panicking.\<close>

datatype once_fn = CallFn | WaitFn

type_synonym once_mode = "once_fn \<times> bool"

datatype once_pc =
  Away | Load once_mode | Loop once_mode u32 | Waiting once_mode u32 wait_pc | Running bool
| Finish u32 bool | WakeAll once_pc | Returned | ReturnedPoisoned | Panicked | AssertFailed

text \<open>The body of the loop, for the local \<open>v\<close> and the value \<open>w\<close> that a \<open>compare_exchange_weak\<close> finds.\<close>

definition once_loop :: "once_mode \<Rightarrow> u32 \<Rightarrow> u32 \<Rightarrow> once_pc \<times> u32" where
  "once_loop mode v w =
     (let state = v AND STATE_MASK; queued = v AND QUEUED \<noteq> 0
      in if state = COMPLETE then (Returned, w)
         else if state = POISONED \<and> \<not> snd mode then (Panicked, w)
         else if fst mode = CallFn \<and> (state = INCOMPLETE \<or> state = POISONED)
         then let next = RUNNING + (if queued then QUEUED else 0)
              in if w = v then (Running (state = POISONED), next) else (Loop mode w, w)
         else if fst mode = CallFn \<and> state \<noteq> RUNNING then (AssertFailed, w)
         else if \<not> queued
         then let v = v + QUEUED
              in if w = state then (Waiting mode v Check, v) else (Loop mode w, w)
         else (Waiting mode v Check, w))"

text \<open>A weak exchange may fail without reason: whether the body is at one that would succeed.\<close>

definition at_weak_exchange :: "once_mode \<Rightarrow> u32 \<Rightarrow> u32 \<Rightarrow> bool" where
  "at_weak_exchange mode v w \<longleftrightarrow> snd (once_loop mode v w) \<noteq> w"

text \<open>Where the guard's drop leads.\<close>

definition once_leaves :: "u32 \<Rightarrow> bool \<Rightarrow> once_pc" where
  "once_leaves target unwinding =
     (if unwinding then Panicked else if target = COMPLETE then Returned else ReturnedPoisoned)"

fun once_act :: "once_pc \<Rightarrow> u32 \<Rightarrow> (once_pc \<times> u32) option" where
  "once_act (Load mode) w = Some (Loop mode w, w)"
| "once_act (Loop mode v) w = Some (once_loop mode v w)"
| "once_act (Waiting mode v p) w =
     (if p = Asleep then None
      else Some (case wait_act v p w of None \<Rightarrow> Load mode | Some p \<Rightarrow> Waiting mode v p, w))"
| "once_act (Finish target unwinding) w =
     (let after = once_leaves target unwinding
      in Some (if w AND QUEUED \<noteq> 0 then WakeAll after else after, target))"
| "once_act p w = None"

text \<open>The system also counts the initialisations that completed.\<close>

record once_machine = "once_pc machine" +
  completions :: nat

definition once_start :: once_machine where
  "once_start = \<lparr>atomic = once_new, pcs = \<lambda>_. Away, completions = 0\<rparr>"

definition sleeping :: "once_pc \<Rightarrow> bool" where
  "sleeping p \<longleftrightarrow> (\<exists>mode v. p = Waiting mode v Asleep)"

fun woken :: "once_pc \<Rightarrow> once_pc" where
  "woken (Waiting mode v p) = Load mode"
| "woken p = p"

inductive once_internal :: "(tid set \<Rightarrow> tid set \<Rightarrow> bool) \<Rightarrow> once_machine \<Rightarrow> once_machine \<Rightarrow> bool"
  for wakes where
  act: "once_act (pcs s t) (atomic s) = Some (p, w) \<Longrightarrow>
    once_internal wakes s (s\<lparr>atomic := w, pcs := (pcs s)(t := p),
      completions := completions s + (if pcs s t = Finish COMPLETE False then 1 else 0)\<rparr>)"
| weak: "pcs s t = Loop mode v \<Longrightarrow> at_weak_exchange mode v (atomic s) \<Longrightarrow>
    once_internal wakes s (s\<lparr>pcs := (pcs s)(t := Loop mode (atomic s))\<rparr>)"
| interrupt: "pcs s t = Waiting mode v Asleep \<Longrightarrow>
    once_internal wakes s (s\<lparr>pcs := (pcs s)(t := Waiting mode v Check)\<rparr>)"
| wake_all: "pcs s t = WakeAll p \<Longrightarrow> wakes (at_pc s sleeping) W \<Longrightarrow>
    once_internal wakes s (s\<lparr>pcs := \<lambda>u. if u = t then p else if u \<in> W then woken (pcs s u) else pcs s u\<rparr>)"

text \<open>Clients: the fast path of \<open>call_once\<close> and the calls; what the closure does; leaving.\<close>

inductive once_step :: "(tid set \<Rightarrow> tid set \<Rightarrow> bool) \<Rightarrow> once_machine \<Rightarrow> once_machine \<Rightarrow> bool"
  for wakes where
  internal: "once_internal wakes s s' \<Longrightarrow> once_step wakes s s'"
| fast_path: "pcs s t = Away \<Longrightarrow> is_completed (atomic s) \<Longrightarrow>
    once_step wakes s (s\<lparr>pcs := (pcs s)(t := Returned)\<rparr>)"
| enter: "pcs s t = Away \<Longrightarrow> once_step wakes s (s\<lparr>pcs := (pcs s)(t := Load mode)\<rparr>)"
| completes: "pcs s t = Running b \<Longrightarrow> once_step wakes s (s\<lparr>pcs := (pcs s)(t := Finish COMPLETE False)\<rparr>)"
| poisons: "pcs s t = Running b \<Longrightarrow> once_step wakes s (s\<lparr>pcs := (pcs s)(t := Finish POISONED False)\<rparr>)"
| panics: "pcs s t = Running b \<Longrightarrow> once_step wakes s (s\<lparr>pcs := (pcs s)(t := Finish POISONED True)\<rparr>)"
| leave: "pcs s t \<in> {Returned, ReturnedPoisoned, Panicked} \<Longrightarrow>
    once_step wakes s (s\<lparr>pcs := (pcs s)(t := Away)\<rparr>)"

section \<open>The invariant\<close>

definition once_values :: "u32 set" where
  "once_values = {COMPLETE, INCOMPLETE, POISONED, RUNNING, INCOMPLETE + QUEUED, POISONED + QUEUED, RUNNING + QUEUED}"

definition is_queued :: "u32 \<Rightarrow> bool" where
  "is_queued w \<longleftrightarrow> w AND QUEUED \<noteq> 0"

text \<open>The running thread, and the facts about a thread's locals that hold for the value \<open>w\<close>.\<close>

fun runs :: "once_pc \<Rightarrow> bool" where
  "runs (Running b) = True"
| "runs (Finish target unwinding) = True"
| "runs _ = False"

fun once_local :: "once_pc \<Rightarrow> u32 \<Rightarrow> bool" where
  "once_local (Loop mode v) w = (v \<in> once_values \<and> (v = COMPLETE \<longrightarrow> w = COMPLETE))"
| "once_local (Waiting mode v p) w =
     (v \<in> {INCOMPLETE + QUEUED, POISONED + QUEUED, RUNNING + QUEUED})"
| "once_local (Finish target unwinding) w =
     (target \<in> {COMPLETE, POISONED} \<and> (unwinding \<longrightarrow> target = POISONED))"
| "once_local (WakeAll p) w = (p = Panicked \<or> p = ReturnedPoisoned \<or> p = Returned \<and> w = COMPLETE)"
| "once_local Returned w = (w = COMPLETE)"
| "once_local AssertFailed w = False"
| "once_local _ w = True"

fun wakes_all :: "once_pc \<Rightarrow> bool" where
  "wakes_all (WakeAll p) = True"
| "wakes_all _ = False"

definition once_ok :: "u32 \<Rightarrow> (tid \<Rightarrow> once_pc) \<Rightarrow> nat \<Rightarrow> bool" where
  "once_ok w ps c \<longleftrightarrow>
     w \<in> once_values \<and>
     (\<forall>t u. runs (ps t) \<longrightarrow> runs (ps u) \<longrightarrow> t = u) \<and>
     (w AND STATE_MASK = RUNNING \<longleftrightarrow> (\<exists>t. runs (ps t))) \<and>
     (\<forall>t. once_local (ps t) w) \<and>
     c = (if w = COMPLETE then 1 else 0) \<and>
     ((\<exists>t. sleeping (ps t)) \<longrightarrow> is_queued w \<or> (\<exists>t. wakes_all (ps t)))"

abbreviation once_inv :: "once_machine \<Rightarrow> bool" where
  "once_inv s \<equiv> once_ok (atomic s) (pcs s) (completions s)"

lemma once_okD:
  assumes "once_ok w ps c"
  shows "w \<in> once_values" "runs (ps t) \<Longrightarrow> runs (ps u) \<Longrightarrow> t = u"
    "w AND STATE_MASK = RUNNING \<longleftrightarrow> (\<exists>t. runs (ps t))" "once_local (ps t) w"
    "c = (if w = COMPLETE then 1 else 0)"
    "sleeping (ps t) \<Longrightarrow> is_queued w \<or> (\<exists>t. wakes_all (ps t))"
  using assms unfolding once_ok_def by blast+

lemma once_okI:
  assumes "w \<in> once_values" "\<And>t u. runs (ps t) \<Longrightarrow> runs (ps u) \<Longrightarrow> t = u"
    "w AND STATE_MASK = RUNNING \<longleftrightarrow> (\<exists>t. runs (ps t))" "\<And>t. once_local (ps t) w"
    "c = (if w = COMPLETE then 1 else 0)"
    "\<And>t. sleeping (ps t) \<Longrightarrow> is_queued w \<or> (\<exists>t. wakes_all (ps t))"
  shows "once_ok w ps c"
  using assms unfolding once_ok_def by blast

lemma sleeping_simps [simp]:
  "sleeping (Waiting mode v p) \<longleftrightarrow> p = Asleep" "\<not> sleeping Away" "\<not> sleeping (Load mode)"
  "\<not> sleeping (Loop mode v)" "\<not> sleeping (Running b)" "\<not> sleeping (Finish a b)" "\<not> sleeping (WakeAll q)"
  "\<not> sleeping Returned" "\<not> sleeping ReturnedPoisoned" "\<not> sleeping Panicked" "\<not> sleeping AssertFailed"
  by (auto simp: sleeping_def)

lemma once_value_cases [consumes 1]:
  assumes "w \<in> once_values"
  obtains "w = 0" | "w = 1" | "w = 2" | "w = 3" | "w = 5" | "w = 6" | "w = 7"
  using assms unfolding once_values_def once_states by auto

text \<open>A step of one thread: its own facts, those of the others when the value changes.\<close>

lemma once_ok_update:
  assumes ok: "once_ok a ps c"
    and w: "w \<in> once_values" and loc: "once_local p w"
    and others: "w = a \<or> a \<noteq> COMPLETE"
    and run: "runs p \<Longrightarrow> runs (ps t) \<or> a AND STATE_MASK \<noteq> RUNNING"
    and iff: "w AND STATE_MASK = RUNNING \<longleftrightarrow> runs p \<or> \<not> runs (ps t) \<and> a AND STATE_MASK = RUNNING"
    and c: "d = (if w = COMPLETE then 1 else 0)"
    and sleep: "sleeping p \<Longrightarrow> is_queued w"
    and queue: "is_queued a \<Longrightarrow> is_queued w \<or> wakes_all p"
    and waker: "\<not> wakes_all (ps t)"
  shows "once_ok w (ps(t := p)) d"
proof (rule once_okI [OF w])
  note ok = once_okD [OF ok]
  show "u = v" if "runs ((ps(t := p)) u)" "runs ((ps(t := p)) v)" for u v
    using that ok(2) [of u v] ok(2) [of u t] ok(2) [of t v] run ok(3)
    by (cases "u = t"; cases "v = t") auto
  show "w AND STATE_MASK = RUNNING \<longleftrightarrow> (\<exists>u. runs ((ps(t := p)) u))"
  proof
    assume r: "w AND STATE_MASK = RUNNING"
    show "\<exists>u. runs ((ps(t := p)) u)"
    proof (cases "runs p")
      case False
      then obtain u where "runs (ps u)" "u \<noteq> t" using r iff ok(3) by blast
      then show ?thesis by (intro exI [of _ u]) simp
    qed (intro exI [of _ t], simp)
  next
    assume "\<exists>u. runs ((ps(t := p)) u)"
    then obtain u where u: "runs ((ps(t := p)) u)" by blast
    then show "w AND STATE_MASK = RUNNING"
      using iff ok(3) ok(2) [of u t] by (cases "u = t") auto
  qed
  show "once_local ((ps(t := p)) u) w" for u
  proof (cases "u = t")
    case False
    have "once_local q w" if "once_local q a" for q
      using that others by (cases q) auto
    then show ?thesis using ok(4) [of u] False by simp
  qed (simp add: loc)
  show "is_queued w \<or> (\<exists>v. wakes_all ((ps(t := p)) v))" if a: "sleeping ((ps(t := p)) u)" for u
  proof (cases "u = t")
    case False
    then have "is_queued a \<or> (\<exists>v. wakes_all (ps v))" using a ok(6) [of u] by simp
    then show ?thesis
    proof
      assume "is_queued a"
      then show ?thesis using queue by (metis fun_upd_same)
    next
      assume "\<exists>v. wakes_all (ps v)"
      then show ?thesis using waker by (metis fun_upd_other)
    qed
  qed (use a sleep in simp)
qed (rule c)


lemmas once_eval = once_values_def once_states is_queued_def

lemma once_loop_table:
  "once_loop m 0 w = (Returned, w)"
  "once_loop m 1 w = (if w = 1 then (Waiting m 5 Check, 5) else (Loop m w, w))"
  "once_loop m 5 w = (Waiting m 5 Check, w)"
  "once_loop (f, False) 2 w = (Panicked, w)" "once_loop (f, False) 6 w = (Panicked, w)"
  "once_loop (CallFn, True) 2 w = (if w = 2 then (Running True, 1) else (Loop (CallFn, True) w, w))"
  "once_loop (CallFn, True) 6 w = (if w = 6 then (Running True, 5) else (Loop (CallFn, True) w, w))"
  "once_loop (CallFn, b) 3 w = (if w = 3 then (Running False, 1) else (Loop (CallFn, b) w, w))"
  "once_loop (CallFn, b) 7 w = (if w = 7 then (Running False, 5) else (Loop (CallFn, b) w, w))"
  "once_loop (WaitFn, True) 2 w = (if w = 2 then (Waiting (WaitFn, True) 6 Check, 6) else (Loop (WaitFn, True) w, w))"
  "once_loop (WaitFn, True) 6 w = (Waiting (WaitFn, True) 6 Check, w)"
  "once_loop (WaitFn, b) 3 w = (if w = 3 then (Waiting (WaitFn, b) 7 Check, 7) else (Loop (WaitFn, b) w, w))"
  "once_loop (WaitFn, b) 7 w = (Waiting (WaitFn, b) 7 Check, w)"
  by (simp_all add: once_loop_def once_states Let_def)

text \<open>The body of the loop leaves the value alone, takes the \<open>Once\<close>, or sets the queue bit.\<close>

lemma once_loop_cases:
  assumes "v \<in> once_values" "once_loop m v a = (p, w)"
  obtains (stay) "w = a" "p = Returned \<and> v = 0 \<or> p = Panicked \<or> p = Loop m a \<or> p = Waiting m v Check \<and> v \<in> {5, 6, 7}"
  | (taken) b where "p = Running b" "a \<in> {2, 3} \<and> w = 1 \<or> a \<in> {6, 7} \<and> w = 5"
  | (queue) "p = Waiting m w Check" "a \<in> {1, 2, 3}" "w = a + 4"
proof -
  obtain f b where m: "m = (f, b)" by (cases m)
  have "w = a \<and> (p = Returned \<and> v = 0 \<or> p = Panicked \<or> p = Loop m a \<or> p = Waiting m v Check \<and> v \<in> {5, 6, 7}) \<or>
    (\<exists>b. p = Running b) \<and> (a \<in> {2, 3} \<and> w = 1 \<or> a \<in> {6, 7} \<and> w = 5) \<or>
    p = Waiting m w Check \<and> a \<in> {1, 2, 3} \<and> w = a + 4"
    by (cases rule: once_value_cases [OF assms(1)]; cases f; cases b)
      (use assms(2) in \<open>auto simp: m once_loop_table split: if_splits\<close>)
  then show thesis using that by blast
qed

lemma once_loop_ok:
  assumes ok: "once_ok a ps c" and t: "ps t = Loop mode v" and act: "once_loop mode v a = (p, w)"
  shows "once_ok w (ps(t := p)) c"
proof -
  have v: "v \<in> once_values" "v = COMPLETE \<Longrightarrow> a = COMPLETE" using once_okD(4) [OF ok, of t] t by auto
  have c: "c = (if a = COMPLETE then 1 else 0)" using once_okD(5) [OF ok] .
  have nr: "\<not> runs (ps t)" "\<not> wakes_all (ps t)" using t by simp_all
  have a: "a \<in> once_values" using once_okD(1) [OF ok] .
  from v(1) act show ?thesis
  proof (cases rule: once_loop_cases)
    case stay
    then have "once_local p a" "\<not> sleeping p" "\<not> runs p" using v(2) a by (auto simp: once_states)
    then show ?thesis using stay(1) nr a c by (intro once_ok_update [OF ok]) auto
  next
    case (taken b)
    then show ?thesis using nr c by (intro once_ok_update [OF ok]) (auto simp: once_eval)
  next
    case queue
    then show ?thesis using nr c by (intro once_ok_update [OF ok]) (auto simp: once_eval)
  qed
qed

lemma once_finish_ok:
  assumes ok: "once_ok a ps c" and t: "ps t = Finish target unwinding"
    and act: "once_act (ps t) a = Some (p, w)"
  shows "once_ok w (ps(t := p)) (c + (if ps t = Finish COMPLETE False then 1 else 0))"
proof -
  have m: "a AND STATE_MASK = RUNNING" using once_okD(3) [OF ok] t by (metis runs.simps(2))
  have a: "a = 1 \<or> a = 5"
    using once_okD(1) [OF ok] m by (cases rule: once_value_cases) (simp_all add: once_states)
  then have c: "c = 0" using once_okD(5) [OF ok] by (auto simp: once_states)
  have tgt: "target = 0 \<and> \<not> unwinding \<or> target = 2" using once_okD(4) [OF ok, of t] t by (auto simp: once_states)
  show ?thesis
    using tgt act t a c
    by (intro once_ok_update [OF ok]) (auto simp: once_eval once_leaves_def Let_def split: if_splits)
qed

lemma once_stay_ok:
  assumes ok: "once_ok a ps c" and "runs p = runs (ps t)" "once_local p a" "\<not> sleeping p" "\<not> wakes_all (ps t)"
  shows "once_ok a (ps(t := p)) c"
  using assms once_okD(1,5) [OF ok] once_okD(3) [OF ok]
  by (intro once_ok_update [OF ok]) auto

lemma once_act_ok:
  assumes ok: "once_ok a ps c" and act: "once_act (ps t) a = Some (p, w)"
  shows "once_ok w (ps(t := p)) (c + (if ps t = Finish COMPLETE False then 1 else 0))"
proof (cases "ps t")
  case (Load mode)
  then show ?thesis using act once_okD(1) [OF ok] once_stay_ok [OF ok, of "Loop mode a" t]
    by (auto simp del: fun_upd_apply)
next
  case (Loop mode v)
  then show ?thesis using act once_loop_ok [OF ok Loop, of p w] by (simp del: fun_upd_apply)
next
  case (Waiting mode v q)
  then have v: "v \<in> {INCOMPLETE + QUEUED, POISONED + QUEUED, RUNNING + QUEUED}"
    using once_okD(4) [OF ok, of t] by simp
  show ?thesis
    using Waiting act v once_okD(1,5) [OF ok] once_okD(3) [OF ok]
    by (cases q; intro once_ok_update [OF ok]) (auto simp: is_queued_def once_states split: if_splits)
next
  case (Finish target unwinding)
  show ?thesis by (rule once_finish_ok [OF ok Finish act])
qed (use act in simp_all)

lemma once_wake_ok:
  assumes ok: "once_ok a ps c" and t: "ps t = WakeAll p" and W: "W = {u. sleeping (ps u)}"
  shows "once_ok a (\<lambda>u. if u = t then p else if u \<in> W then woken (ps u) else ps u) c"
    (is "once_ok a ?p c")
proof (rule once_okI)
  note ok = once_okD [OF ok]
  have p: "p \<in> {Panicked, ReturnedPoisoned, Returned}" "once_local p a" using ok(4) [of t] t by auto
  have run: "runs (?p u) = runs (ps u)" for u using W t p by (cases "ps u") auto
  show "a \<in> once_values" "c = (if a = COMPLETE then 1 else 0)" by (fact ok(1), fact ok(5))
  show "runs (?p u) \<Longrightarrow> runs (?p v) \<Longrightarrow> u = v" for u v unfolding run by (rule ok(2))
  show "a AND STATE_MASK = RUNNING \<longleftrightarrow> (\<exists>u. runs (?p u))" unfolding run by (rule ok(3))
  show "once_local (?p u) a" for u using ok(4) [of u] p(2) by (cases "ps u") auto
  show "is_queued a \<or> (\<exists>u. wakes_all (?p u))" if "sleeping (?p u)" for u
    using that W p(1) by (cases "ps u") (auto split: if_splits)
qed

lemma once_internal_ok:
  "once_internal wakes s s' \<Longrightarrow> wakes_everyone wakes \<Longrightarrow> once_inv s \<Longrightarrow> once_inv s'"
proof (induction rule: once_internal.induct)
  case (act s t p w)
  then show ?case using once_act_ok [OF act.prems(2) act.hyps] by (simp del: fun_upd_apply)
next
  case (weak s t mode v)
  have "once_ok (atomic s) ((pcs s)(t := Loop mode (atomic s))) (completions s)"
    using weak once_okD(1) [OF weak.prems(2)] by (intro once_stay_ok) auto
  then show ?case by (simp del: fun_upd_apply)
next
  case (interrupt s t mode v)
  then have "once_ok (atomic s) ((pcs s)(t := Waiting mode v Check)) (completions s)"
    using once_okD(4) [OF interrupt.prems(2), of t] by (intro once_stay_ok) auto
  then show ?case by (simp del: fun_upd_apply)
next
  case (wake_all s t p W)
  then have "W = {u. sleeping (pcs s u)}" by (auto simp: wakes_everyone_def at_pc_def)
  from once_wake_ok [OF wake_all.prems(2) wake_all.hyps(1) this] show ?case by simp
qed

lemma once_step_ok: "once_step wakes s s' \<Longrightarrow> wakes_everyone wakes \<Longrightarrow> once_inv s \<Longrightarrow> once_inv s'"
proof (induction rule: once_step.induct)
  case (internal s s')
  then show ?case using once_internal_ok by blast
next
  case (fast_path s t)
  then show ?case using once_stay_ok [OF fast_path.prems(2), of Returned t]
    by (simp add: is_completed_def del: fun_upd_apply)
next
  case (enter s t mode)
  then show ?case using once_stay_ok [OF enter.prems(2), of "Load mode" t] by (simp del: fun_upd_apply)
next
  case (completes s t b)
  then show ?case using once_stay_ok [OF completes.prems(2), of "Finish COMPLETE False" t] by (simp del: fun_upd_apply)
next
  case (poisons s t b)
  then show ?case using once_stay_ok [OF poisons.prems(2), of "Finish POISONED False" t] by (simp del: fun_upd_apply)
next
  case (panics s t b)
  then show ?case using once_stay_ok [OF panics.prems(2), of "Finish POISONED True" t] by (simp del: fun_upd_apply)
next
  case (leave s t)
  then have "\<not> runs (pcs s t)" "\<not> wakes_all (pcs s t)" by auto
  then show ?case using once_stay_ok [OF leave.prems(2), of Away t] by (simp del: fun_upd_apply)
qed

lemma once_start_ok: "once_inv once_start"
  by (auto simp: once_ok_def once_start_def once_new_def once_values_def once_states)

interpretation once: transition_system once_start "once_step wakes" "\<lambda>s. wakes_everyone wakes \<longrightarrow> once_inv s"
  for wakes
proof
  show "wakes_everyone wakes \<longrightarrow> once_inv once_start" by (simp add: once_start_ok)
  show "wakes_everyone wakes \<longrightarrow> once_inv s'"
    if "wakes_everyone wakes \<longrightarrow> once_inv s" "once_step wakes s s'" for s s'
    using that once_step_ok by blast
qed


section \<open>Waking up\<close>

definition once_act_step :: "tid \<Rightarrow> once_machine \<Rightarrow> once_machine" where
  "once_act_step t s =
     (case once_act (pcs s t) (atomic s) of None \<Rightarrow> s
      | Some (p, w) \<Rightarrow> s\<lparr>atomic := w, pcs := (pcs s)(t := p),
          completions := completions s + (if pcs s t = Finish COMPLETE False then 1 else 0)\<rparr>)"

lemma once_act_step_internal:
  assumes "once_act (pcs s t) (atomic s) \<noteq> None"
  shows "once_internal wakes s (once_act_step t s)"
proof -
  obtain p w where act: "once_act (pcs s t) (atomic s) = Some (p, w)" using assms by auto
  show ?thesis using once_internal.act [OF act] by (simp add: once_act_step_def act)
qed

lemma once_load_returns:
  assumes "atomic s = COMPLETE" "pcs s t = Load mode"
  shows "(once_internal wakes ^^ 2) s (once_act_step t (once_act_step t s))"
    "pcs (once_act_step t (once_act_step t s)) t = Returned"
proof -
  have 1: "once_internal wakes s (once_act_step t s)"
    using assms by (intro once_act_step_internal) simp
  have s1: "atomic (once_act_step t s) = COMPLETE" "pcs (once_act_step t s) t = Loop mode COMPLETE"
    using assms by (simp_all add: once_act_step_def)
  then have 2: "once_internal wakes (once_act_step t s) (once_act_step t (once_act_step t s))"
    by (intro once_act_step_internal) simp
  show "(once_internal wakes ^^ 2) s (once_act_step t (once_act_step t s))"
    using 1 2 by (auto simp: numeral_2_eq_2 intro: relcomppI)
  show "pcs (once_act_step t (once_act_step t s)) t = Returned"
    using s1 by (simp add: once_act_step_def [of t "once_act_step t s"] once_loop_table COMPLETE_def)
qed

lemma once_wakes_ok:
  assumes kernel: "wakes_everyone wakes" and inv: "once_inv s" and done': "atomic s = COMPLETE"
    and t: "pcs s t = Load mode \<or> (\<exists>v p. pcs s t = Waiting mode v p)"
  obtains n s' where "n \<le> 3" "(once_internal wakes ^^ n) s s'" "pcs s' t = Returned"
proof -
  note finish = that
  have after: thesis
    if "once_internal wakes s s1" "atomic s1 = COMPLETE" "pcs s1 t = Load mode" for s1
  proof -
    note r = once_load_returns [OF that(2,3)]
    have "(once_internal wakes ^^ Suc 2) s (once_act_step t (once_act_step t s1))"
      by (rule relpowp_Suc_I2 [OF that(1) r(1)])
    then have "(once_internal wakes ^^ 3) s (once_act_step t (once_act_step t s1))"
      by (simp only: Suc_numeral semiring_norm)
    then show thesis by (rule finish [OF order_refl _ r(2)])
  qed
  from t show thesis
  proof
    assume "pcs s t = Load mode"
    from finish [OF _ once_load_returns [OF done' this]] show thesis by simp
  next
    assume "\<exists>v p. pcs s t = Waiting mode v p"
    then obtain v p where p: "pcs s t = Waiting mode v p" by blast
    show thesis
    proof (cases "p = Asleep")
      case False
      have "v \<noteq> COMPLETE" using once_okD(4) [OF inv, of t] p by (auto simp: once_states)
      then have act: "once_act (pcs s t) (atomic s) = Some (Load mode, COMPLETE)"
        using p False done' by (cases p) auto
      show thesis
        by (rule after [OF once_act_step_internal [of s t]]) (simp_all add: act once_act_step_def)
    next
      case True
      then have sl: "sleeping (pcs s t)" using p by simp
      have "\<not> is_queued (atomic s)" using done' by (simp add: is_queued_def once_states)
      then obtain u q where u: "pcs s u = WakeAll q"
        using once_okD(6) [OF inv sl] by (metis wakes_all.elims(2))
      have W: "wakes (at_pc s sleeping) (at_pc s sleeping)" using kernel by (simp add: wakes_everyone_def)
      show thesis
        by (rule after [OF once_internal.wake_all [of s u q wakes "at_pc s sleeping", OF u W]]) (use done' p u True in auto)
    qed
  qed
qed

section \<open>Properties\<close>

text \<open>A run in which thread 0 initialises while thread 1 falls asleep.\<close>

definition once_running :: once_machine where
  "once_running = \<lparr>atomic = RUNNING, pcs = (\<lambda>_. Away)(0 := Running False), completions = 0\<rparr>"

definition once_finished :: once_machine where
  "once_finished = \<lparr>atomic = COMPLETE,
     pcs = (\<lambda>_. Away)(0 := WakeAll Returned, 1 := Waiting (CallFn, False) 5 Asleep), completions = 1\<rparr>"

lemma once_step_act:
  "once_act (pcs s t) (atomic s) = Some (p, w) \<Longrightarrow>
    s' = s\<lparr>atomic := w, pcs := (pcs s)(t := p),
      completions := completions s + (if pcs s t = Finish COMPLETE False then 1 else 0)\<rparr> \<Longrightarrow>
    once_step wakes s s'"
  using once_step.internal [OF once_internal.act] by blast

lemma once_running_reachable: "(once_step wakes)\<^sup>*\<^sup>* once_start once_running"
proof -
  let ?s = "\<lambda>p w. \<lparr>atomic = w, pcs = (\<lambda>_. Away)(0 := p), completions = 0\<rparr>"
  have "once_step wakes once_start (?s (Load (CallFn, False)) 3)"
    using once_step.enter [of once_start 0 wakes "(CallFn, False)"]
    by (simp add: once_start_def once_new_def INCOMPLETE_def)
  moreover have "once_step wakes (?s (Load (CallFn, False)) 3) (?s (Loop (CallFn, False) 3) 3)"
    by (rule once_step_act [of _ 0 "Loop (CallFn, False) 3" 3]) simp_all
  moreover have "once_step wakes (?s (Loop (CallFn, False) 3) 3) once_running"
    by (rule once_step_act [of _ 0 "Running False" 1])
      (simp_all add: once_loop_table once_running_def RUNNING_def)
  ultimately show ?thesis by (meson converse_rtranclp_into_rtranclp rtranclp.rtrancl_refl)
qed

lemma once_finished_reachable: "(once_step wakes)\<^sup>*\<^sup>* once_start once_finished"
proof -
  let ?m = "(CallFn, False)"
  let ?s = "\<lambda>p q w c. \<lparr>atomic = w, pcs = (\<lambda>_. Away)(0 := p, 1 := q), completions = c\<rparr>"
  let ?r = "Running False"
  have "once_step wakes once_running (?s ?r (Load ?m) 1 0)"
    using once_step.enter [of once_running 1 wakes ?m] by (simp add: once_running_def RUNNING_def)
  moreover have "once_step wakes (?s ?r (Load ?m) 1 0) (?s ?r (Loop ?m 1) 1 0)"
    by (rule once_step_act [of _ 1 "Loop ?m 1" 1]) simp_all
  moreover have "once_step wakes (?s ?r (Loop ?m 1) 1 0) (?s ?r (Waiting ?m 5 Check) 5 0)"
    by (rule once_step_act [of _ 1 "Waiting ?m 5 Check" 5]) (simp_all add: once_loop_table)
  moreover have "once_step wakes (?s ?r (Waiting ?m 5 Check) 5 0) (?s ?r (Waiting ?m 5 Call) 5 0)"
    by (rule once_step_act [of _ 1 "Waiting ?m 5 Call" 5]) simp_all
  moreover have "once_step wakes (?s ?r (Waiting ?m 5 Call) 5 0) (?s ?r (Waiting ?m 5 Asleep) 5 0)"
    by (rule once_step_act [of _ 1 "Waiting ?m 5 Asleep" 5]) simp_all
  moreover have "once_step wakes (?s ?r (Waiting ?m 5 Asleep) 5 0)
      (?s (Finish COMPLETE False) (Waiting ?m 5 Asleep) 5 0)"
    using once_step.completes [of "?s ?r (Waiting ?m 5 Asleep) 5 0" 0 False wakes] by (simp add: fun_upd_twist)
  moreover have "once_step wakes (?s (Finish COMPLETE False) (Waiting ?m 5 Asleep) 5 0) once_finished"
    by (rule once_step_act [of _ 0 "WakeAll Returned" COMPLETE])
      (auto simp: once_finished_def once_leaves_def Let_def once_states fun_upd_def)
  ultimately show ?thesis
    using once_running_reachable by (meson rtranclp.rtrancl_into_rtrancl)
qed

text \<open>
  C33: one initialisation at a time, and none after one has completed. While a thread runs the
  closure (or is about to publish its outcome) no other thread does, and no initialisation has
  completed so far.
\<close>

theorem once_exclusive:
  assumes "wakes_everyone wakes" "(once_step wakes)\<^sup>*\<^sup>* once_start s" "runs (pcs s t)"
  shows "{u. runs (pcs s u)} = {t} \<and> atomic s \<noteq> COMPLETE \<and> completions s = 0"
proof -
  have inv: "once_inv s" using once.reachable_inv [OF assms(2)] assms(1) by blast
  have "atomic s AND STATE_MASK = RUNNING" using once_okD(3) [OF inv] assms(3) by blast
  then have "atomic s \<noteq> COMPLETE" by (auto simp: once_states)
  moreover have "{u. runs (pcs s u)} = {t}" using once_okD(2) [OF inv _ assms(3)] assms(3) by blast
  ultimately show ?thesis using once_okD(5) [OF inv] by simp
qed

theorem once_exclusive_witness:
  "{u. runs (pcs once_running u)} = {0} \<and> atomic once_running \<noteq> COMPLETE"
  using once_exclusive [OF wakes_everyone_eq once_running_reachable, of 0]
  by (simp add: once_running_def)



text \<open>
  C35: nobody sleeps for ever on a completed \<open>Once\<close>: a thread that waits, asleep or not, when the
  initialisation has completed returns after at most three further steps of the \<open>Once\<close> code.
\<close>

theorem once_waiters_return:
  assumes "wakes_everyone wakes" "(once_step wakes)\<^sup>*\<^sup>* once_start s" "atomic s = COMPLETE"
    and "pcs s t = Load mode \<or> (\<exists>v p. pcs s t = Waiting mode v p)"
  shows "\<exists>n s'. n \<le> 3 \<and> (once_internal wakes ^^ n) s s' \<and> pcs s' t = Returned"
proof -
  have inv: "once_inv s" using once.reachable_inv [OF assms(2)] assms(1) by blast
  from once_wakes_ok [OF assms(1) inv assms(3,4)] show ?thesis by metis
qed

theorem once_waiters_return_witness:
  "\<exists>n s'. n \<le> 3 \<and> (once_internal (=) ^^ n) once_finished s' \<and> pcs s' 1 = Returned"
  by (rule once_waiters_return [OF wakes_everyone_eq once_finished_reachable, of 1 "(CallFn, False)"])
    (simp_all add: once_finished_def)


end
