(* ===== verification/Spec2Isabelle.thy ===== *)
theory Spec2Isabelle
  imports Vec_Deque_Spec Binary_Heap_Spec Rust_String_Spec Sort_Spec Linked_List_Spec Futex_Mutex
    Futex_Once
begin

text \<open>
  A verification library for parts of the Rust standard library: the allocation and container
  layer of \<open>alloc\<close> and the pieces of \<open>core\<close> it rests on. Paths are relative to \<open>src/\<close>.

  \<^bold>\<open>How programs are modelled.\<close> A struct is a record, an enum a datatype, \<open>usize\<close> a natural number
  below 2^64 (a 64-bit target) with wrapping, checked and saturating operations written out. Code
  runs in the fault monad \<open>'a res = fault + 'a\<close> (theory \<open>Rust_Prelude\<close>): a fault is a panic with its
  message, an abort (refused allocation), a failed debug assertion, undefined behaviour (out of
  bounds, overlapping, uninitialised, a broken \<open>unsafe\<close> contract) or, for loops with fuel,
  exhausted fuel. \<open>no_ub\<close> excludes the last three. Memory is a list of optional values, \<open>None\<close>
  being uninitialised, so a read of a moved-out slot or a second drop is a fault. The allocator is
  an argument (which requests it grants). A closure is a HOL function; where it may panic it
  returns an option.

  \<^bold>\<open>Parts and theories.\<close>
  \<^item> \<open>Rust_Prelude\<close>: integers, faults, raw memory (\<open>ptr::read\<close>, \<open>write\<close>, \<open>copy\<close>, \<open>swap\<close>), and the
    predicate \<open>segment\<close> that relates memory to lists.
  \<^item> \<open>Alloc_Layout\<close>: \<open>Layout\<close> and \<open>Alignment\<close> (\<open>core/src/alloc/layout.rs\<close>, \<open>ptr/alignment.rs\<close>):
    construction, padding, repetition, extension.
  \<^item> \<open>Raw_Vec\<close>: \<open>RawVecInner\<close> (\<open>alloc/src/raw_vec/mod.rs\<close>): growth, reservation, shrinking. The locale
    \<open>geometric_growth\<close> bounds the number of growths; its interpretation is on \<open>grow_one\<close>.
  \<^item> \<open>Simulation\<close>: the locale \<open>container\<close>, a step function that refines a list semantics, lifted to
    sequences of operations; interpreted for \<open>VecDeque\<close>, \<open>Vec\<close>,
    \<open>Drain\<close>, \<open>String\<close>, \<open>LinkedList\<close> and its cursors.
  \<^item> \<open>Slice_Range\<close>, \<open>Slice_Rotate\<close>: \<open>slice::range\<close> and the three rotation algorithms of
    \<open>core/src/slice/rotate.rs\<close>.
  \<^item> \<open>Vec_Deque\<close>, \<open>Vec_Deque_Ops\<close>, \<open>Vec_Deque_Correct\<close>, \<open>Vec_Deque_Spec\<close>: the ring buffer of
    \<open>alloc/src/collections/vec_deque/mod.rs\<close>.
  \<^item> \<open>Rust_Vec\<close>, \<open>Rust_Vec_Correct\<close>, \<open>Rust_Vec_Spec\<close>: \<open>alloc/src/vec/mod.rs\<close> and \<open>vec/drain.rs\<close>.
  \<^item> \<open>Rust_Ord\<close>: \<open>Ordering\<close> and lawful comparisons (\<open>core/src/cmp.rs\<close>).
  \<^item> \<open>Binary_Heap\<close>, \<open>Binary_Heap_Correct\<close>, \<open>Binary_Heap_Ops\<close>, \<open>Binary_Heap_Spec\<close>: the heap of
    \<open>alloc/src/collections/binary_heap/mod.rs\<close> on top of \<open>Vec\<close>. The locale \<open>priority_queue\<close> states the
    laws of a priority queue; its interpretation is on the heap.
  \<^item> \<open>Utf8\<close>, \<open>Utf8_Correct\<close>: encoding and decoding of \<open>char\<close>s, validation with its word-at-a-time
    path, lossy decoding (\<open>core/src/char/\<close>, \<open>core/src/str/validations.rs\<close>, \<open>lossy.rs\<close>). The grammar of
    UTF-8 as one scan per character is the reference they are compared with.
  \<^item> \<open>Rust_String\<close>, \<open>Rust_String_Correct\<close>, \<open>Rust_String_Spec\<close>: \<open>alloc/src/string.rs\<close> and the slicing of
    \<open>str\<close> (\<open>core/src/str/mod.rs\<close>, \<open>traits.rs\<close>); a \<open>String\<close> is a list of \<open>char\<close>s.
  \<^item> \<open>Rust_Closure\<close>: code that calls a closure with a state of its own that may panic. A program returns
    or unwinds, with the state it leaves; \<open>wp\<close> are its weakest preconditions.
  \<^item> \<open>Stable_Sorting\<close>: what a stable sort is; the reference \<open>stable_sort\<close> and merge.
  \<^item> \<open>Sort_Small\<close>, \<open>Sort_Small_Correct\<close>, \<open>Sort_Merge\<close>, \<open>Sort_Partition\<close>, \<open>Drift_Sort\<close>, \<open>Drift_Sort_Correct\<close>,
    \<open>Sort_Spec\<close>: the stable sort of \<open>core/src/slice/sort/\<close> (\<open>shared/\<close>, \<open>stable/\<close>) and its callers in
    \<open>alloc/src/slice.rs\<close>. The contract \<open>sorts\<close> of every routine says that the slice stays a permutation
    however the routine ends, and is sorted stably when the comparison is a strict weak order; the
    locale \<open>sorting_routine\<close> states it as an interface, with interpretations on small sort, mergesort,
    quicksort and driftsort.
  \<^item> \<open>Linked_List\<close>, \<open>Linked_List_Cursor\<close>, \<open>Linked_List_Correct\<close>, \<open>Linked_List_Cursor_Correct\<close>,
    \<open>Linked_List_Spec\<close>: \<open>alloc/src/collections/linked_list.rs\<close> on an explicit store from addresses to
    nodes. Links are followed through the store, so a dangling link is a fault and a forgotten node
    a leak; \<open>lst l ns F h\<close> says that \<open>l\<close> owns the nodes \<open>ns\<close> of \<open>h\<close> beside the rest \<open>F\<close>, and every
    operation keeps \<open>F\<close>. The store, the list or cursor and the state of closures and destructors
    are the state of a program of \<open>Rust_Closure\<close>.
  \<^item> \<open>Futex\<close>, \<open>Futex_Mutex\<close>, \<open>Futex_Once\<close>: \<open>futex_wait\<close> (\<open>std/src/sys/pal/unix/futex.rs\<close>) and the locks
    of \<open>std/src/sys/sync/mutex/futex.rs\<close> and \<open>once/futex.rs\<close>, as step relations on any number of
    threads. The locale \<open>transition_system\<close> carries an invariant to the reachable states. The kernel
    is an argument: which sleepers a wake-up reaches, with the hypothesis that it reaches one (for
    \<open>futex_wake\<close>) or all (for \<open>futex_wake_all\<close>).

  \<^bold>\<open>How the parts interact.\<close> \<open>Vec\<close> and \<open>VecDeque\<close> own a \<open>RawVec\<close>, which asks the allocator with
  \<open>Layout\<close>s; \<open>VecDeque\<close> rotates with \<open>slice::rotate\<close>; \<open>BinaryHeap\<close> is a \<open>Vec\<close> in heap order and \<open>String\<close> a \<open>Vec\<close> of
  bytes. A \<open>_rep\<close>
  predicate relates each struct to its abstract value (a list, a multiset, a list of characters), and the lemmas named
  \<open>_rep\<close>, \<open>_cases\<close> or \<open>_correct\<close> show what an operation does to the pair.

  \<^bold>\<open>Bounds and fuel.\<close> Loops are recursive functions with measures; \<open>Slice_Rotate\<close> gives the cycle
  and swap loops fuel, with lemmas that the fuel given at the calls is enough. Quicksort and the main
  loop of driftsort call each other: fuel two above the length of the slice is enough, because every
  turn of quicksort shortens the slice and at depth limit 0 the loop calls it only to small-sort.
  A slice has at most \<open>isize::MAX\<close> elements; the run stack of driftsort has 66 slots, which its strictly
  increasing depths (at most 64) never exceed. A loop over a \<open>LinkedList\<close> gets its length and one more,
  since each turn passes or removes a node.

  \<^bold>\<open>Not modelled.\<close> Zero-sized element types; zeroed allocation; the in-place
  and specialised collection paths; iterators as objects other than \<open>Drain\<close>,
  \<open>Chars\<close> and those of \<open>LinkedList\<close>; panics of a comparison inside the
  heap; a comparison that changes the elements it compares (the slice is shared while it runs, but
  elements with interior mutability could); string patterns and Unicode tables; everything
  \<open>PROJECT.json\<close> lists as not modelled: unstable sorting, trees, reference counting,
  formatting, hash maps (a third-party package), I/O, intrinsics and compiler support.
\<close>

end
